(* ===== verification/Vmux_Prelude.thy ===== *)
theory Vmux_Prelude
  imports Main "HOL-Library.Word"
begin

text \<open>
  Shared vocabulary of the development: the C integer types as words, the
  collections of simplification rules the component theories extend, and the
  generic facts on words, bit masks and circular indices that several
  components rely on.
\<close>

unbundle bit_operations_syntax

section \<open>Machine types\<close>

type_synonym u8 = "8 word"
type_synonym u16 = "16 word"
type_synonym u32 = "32 word"
type_synonym u64 = "64 word"

text \<open>Collections: ring-buffer index facts, and the bit facts of the flag fields.\<close>

named_theorems ring_simps
named_theorems flag_simps

lemma unat_lt: "unat (x :: 'a::len word) < 2 ^ LENGTH('a)"
  by simp

lemma unat_u8_u16: "unat (ucast (b :: u8) :: u16) = unat b"
  using unat_lt [of b] by (simp add: unsigned_ucast_eq take_bit_nat_eq_self)

lemma unat_u16_u32: "unat (ucast (b :: u16) :: u32) = unat b"
  using unat_lt [of b] by (simp add: unsigned_ucast_eq take_bit_nat_eq_self)

lemma length_filter_full: "length (filter P xs) = length xs \<longleftrightarrow> (\<forall>x \<in> set xs. P x)"
proof (induction xs)
  case (Cons x xs)
  have "length (filter P xs) < Suc (length xs)" by (simp add: le_imp_less_Suc)
  with Cons show ?case by auto
qed simp

section \<open>Circular indices\<close>

text \<open>
  The C idiom \<open>pos = (pos + 1) % num\<close> on a 64-bit index that is in range is
  the successor modulo the ring size: the increment cannot wrap.
\<close>

lemma unat_mod_succ [ring_simps]:
  fixes p e :: "'a::len word"
  assumes "unat p < unat e"
  shows "unat ((p + 1) mod e) = (unat p + 1) mod unat e"
proof -
  have "unat p + 1 < 2 ^ LENGTH('a)"
    using assms unat_lt [of e] by linarith
  then have "unat (p + 1) = unat p + 1"
    by (simp add: unat_word_ariths(1))
  then show ?thesis by (simp add: unat_mod)
qed

lemma mod_window_neq:
  fixes a b d n :: nat
  assumes "d \<le> a" "a < d + n" "d \<le> b" "b < d + n" "a mod n = b mod n"
  shows "a = b"
proof -
  have "\<And>x y. d \<le> x \<Longrightarrow> x \<le> y \<Longrightarrow> y < d + n \<Longrightarrow> x mod n = y mod n \<Longrightarrow> x = y"
  proof -
    fix x y :: nat
    assume le: "d \<le> x" "x \<le> y" "y < d + n" and eq: "x mod n = y mod n"
    then have "n dvd y - x" using mod_eq_dvd_iff_nat [of x y n] by simp
    moreover have "y - x < n" using le by linarith
    ultimately have "y - x = 0" using nat_dvd_not_less by auto
    then show "x = y" using le by simp
  qed
  then show ?thesis using assms by (metis nat_le_linear)
qed

text \<open>Slot addresses \<open>base + index * size\<close> of an array that fits the address space.\<close>

lemma slot_addr_inj:
  fixes q l :: "'a::len word"
  assumes fits: "n * unat l \<le> 2 ^ LENGTH('a)" and pos: "0 < unat l"
    and i: "i < n" and j: "j < n"
    and eq: "q + of_nat i * l = q + of_nat j * l"
  shows "i = j"
proof -
  have un: "unat (of_nat k * l) = k * unat l" if "k < n" for k
  proof -
    have "k * unat l < n * unat l" using that pos by simp
    then have lt: "k * unat l < 2 ^ LENGTH('a)" using fits by linarith
    have "of_nat k * l = of_nat (k * unat l)" by simp
    then show ?thesis using lt by (simp add: unat_of_nat del: of_nat_mult)
  qed
  from eq have "unat (of_nat i * l) = unat (of_nat j * l)" by simp
  with un [OF i] un [OF j] have "i * unat l = j * unat l" by metis
  then show ?thesis using pos by auto
qed

section \<open>Flag bits in a byte\<close>

text \<open>
  The top bit of a byte used as a flag (\<open>x & 0x80\<close>), with the low seven bits as
  a payload (\<open>x & ~0x80\<close>).
\<close>

lemma and_push_bit_1:
  "(x :: 'a::len word) AND push_bit n 1 = (if bit x n then push_bit n 1 else 0)"
  by (rule bit_word_eqI) (auto simp: bit_simps)

lemma bit_push_bit_1: "bit (push_bit n 1 :: 'a::len word) k \<longleftrightarrow> k = n \<and> n < LENGTH('a)"
  unfolding bit_push_bit_iff bit_1_iff by auto

lemma push_bit_1_neq_0: "n < LENGTH('a) \<Longrightarrow> push_bit n 1 \<noteq> (0 :: 'a::len word)"
  using bit_push_bit_1 [of n n, where 'a = 'a] by fastforce

text \<open>Testing the bit of a C mask \<open>1 << n\<close>.\<close>

lemma and_push_bit_1_eq_0:
  "n < LENGTH('a) \<Longrightarrow> (x :: 'a::len word) AND push_bit n 1 = 0 \<longleftrightarrow> \<not> bit x n"
  unfolding and_push_bit_1 using push_bit_1_neq_0 [of n, where 'a = 'a] by (auto simp del: push_bit_of_1)

lemma and_0x80 [flag_simps]: "(x :: u8) AND 0x80 = (if bit x 7 then 0x80 else 0)"
  using and_push_bit_1 [of x 7] by simp

lemma bit_0x80 [flag_simps]: "bit (0x80 :: u8) n \<longleftrightarrow> n = 7"
  using bit_push_bit_iff [of 7 "1 :: u8" n] by (auto simp: bit_1_iff)

lemma bit_0x80_int [flag_simps]: "bit (0x80 :: int) n \<longleftrightarrow> n = 7"
  using bit_push_bit_iff [of 7 "1 :: int" n] by (auto simp: bit_1_iff)

lemma bit7_and_not_0x80 [flag_simps]: "\<not> bit ((x :: u8) AND NOT 0x80) 7"
  by (simp add: bit_simps flag_simps)

lemma bit7_or_0x80 [flag_simps]: "bit ((x :: u8) OR 0x80) 7"
  by (simp add: bit_simps flag_simps)

lemma or_and_not_0x80 [flag_simps]:
  "((x :: u8) OR 0x80) AND NOT 0x80 = x AND NOT 0x80"
  by (rule bit_word_eqI) (auto simp: bit_simps)

lemma and_not_0x80_id [flag_simps]: "\<not> bit (x :: u8) 7 \<Longrightarrow> x AND NOT 0x80 = x"
  by (rule bit_word_eqI) (auto simp: bit_simps flag_simps)

text \<open>The simplifier evaluates \<open>~0x80\<close> to \<open>-129\<close>; the same facts in that form.\<close>

lemma not_0x80_minus: "(NOT 0x80 :: u8) = - 129"
  by simp

lemmas flag_simps_minus [flag_simps] =
  bit7_and_not_0x80 [unfolded not_0x80_minus] or_and_not_0x80 [unfolded not_0x80_minus]
  and_not_0x80_id [unfolded not_0x80_minus]

section \<open>Little-endian byte layout\<close>

text \<open>
  The bytes of an integer field of a packed C structure, least significant byte
  first, and the integer read back from such bytes.
\<close>

definition le_bytes :: "nat \<Rightarrow> 'a::len word \<Rightarrow> u8 list" where
  "le_bytes n w = map (\<lambda>i. ucast (drop_bit (8 * i) w)) [0..<n]"

primrec le_word :: "u8 list \<Rightarrow> 'a::len word" where
  "le_word [] = 0"
| "le_word (b # bs) = ucast b OR push_bit 8 (le_word bs)"

lemma length_le_bytes [simp]: "length (le_bytes n w) = n"
  by (simp add: le_bytes_def)

lemma bit_le_word:
  "bit (le_word bs :: 'a::len word) n \<longleftrightarrow>
     n < LENGTH('a) \<and> n div 8 < length bs \<and> bit (bs ! (n div 8)) (n mod 8)"
proof (induction bs arbitrary: n)
  case (Cons b bs)
  show ?case
  proof (cases "n < 8")
    case True
    then show ?thesis by (auto simp: bit_simps)
  next
    case False
    then have e: "n div 8 = Suc ((n - 8) div 8)" "(n - 8) mod 8 = n mod 8" "8 \<le> n"
      by (auto simp: le_div_geq le_mod_geq)
    have "\<not> bit b n" using False bit_imp_le_length [of b n] by auto
    with False Cons.IH [of "n - 8"] e show ?thesis by (auto simp: bit_simps)
  qed
qed simp

lemma le_word_le_bytes:
  fixes w :: "'a::len word"
  assumes "LENGTH('a) \<le> 8 * n"
  shows "le_word (le_bytes n w) = w"
proof (rule bit_word_eqI)
  fix k
  assume k: "k < LENGTH('a)"
  then have "k div 8 < n" using assms by (metis less_mult_imp_div_less mult.commute order_less_le_trans)
  then show "bit (le_word (le_bytes n w) :: 'a word) k = bit w k"
    using k by (auto simp: bit_le_word le_bytes_def bit_simps)
qed

lemma le_bytes_le_word:
  assumes "length bs = n" "8 * n \<le> LENGTH('a::len)"
  shows "le_bytes n (le_word bs :: 'a word) = bs"
proof (rule nth_equalityI)
  fix i assume i: "i < length (le_bytes n (le_word bs :: 'a word))"
  show "le_bytes n (le_word bs :: 'a word) ! i = bs ! i"
  proof (rule bit_eqI)
    fix k assume "possible_bit TYPE(8 word) k"
    then have "k < 8" by simp
    then show "bit (le_bytes n (le_word bs :: 'a word) ! i) k = bit (bs ! i) k"
      using i assms by (auto simp: le_bytes_def bit_simps bit_le_word)
  qed
qed (use assms in simp)

text \<open>The field of \<open>n\<close> bytes at offset \<open>off\<close> of a buffer.\<close>

definition le_field :: "nat \<Rightarrow> nat \<Rightarrow> u8 list \<Rightarrow> 'a::len word" where
  "le_field off n bs = le_word (take n (drop off bs))"

text \<open>Network byte order fields of packet headers (\<open>ntohs\<close>, \<open>ntohl\<close> of a load, \<open>htons\<close> before a store).\<close>

definition be16 :: "u8 list \<Rightarrow> nat \<Rightarrow> u16" where
  "be16 p off = le_word (rev (take 2 (drop off p)))"

definition be32 :: "u8 list \<Rightarrow> nat \<Rightarrow> u32" where
  "be32 p off = le_word (rev (take 4 (drop off p)))"

text \<open>Overwriting the bytes at an offset of a buffer.\<close>

definition put_bytes :: "nat \<Rightarrow> u8 list \<Rightarrow> u8 list \<Rightarrow> u8 list" where
  "put_bytes off bs p = take off p @ bs @ drop (off + length bs) p"

lemma length_put_bytes [simp]: "off + length bs \<le> length p \<Longrightarrow> length (put_bytes off bs p) = length p"
  by (simp add: put_bytes_def)

lemma nth_put_bytes:
  "off + length bs \<le> length p \<Longrightarrow> i < length p \<Longrightarrow>
     put_bytes off bs p ! i = (if off \<le> i \<and> i < off + length bs then bs ! (i - off) else p ! i)"
  by (auto simp: put_bytes_def nth_append)

section \<open>Checked array access and loops\<close>

text \<open>
  An index of a C array that is not known to be in range: the access is \<open>None\<close>
  where the C program would leave the array.
\<close>

definition arr_get :: "'a list \<Rightarrow> nat \<Rightarrow> 'a option" where
  "arr_get xs i = (if i < length xs then Some (xs ! i) else None)"

definition arr_put :: "'a list \<Rightarrow> nat \<Rightarrow> 'a \<Rightarrow> 'a list option" where
  "arr_put xs i v = (if i < length xs then Some (xs[i := v]) else None)"

lemma arr_get_Some [simp]: "i < length xs \<Longrightarrow> arr_get xs i = Some (xs ! i)"
  by (simp add: arr_get_def)

lemma arr_put_Some [simp]: "i < length xs \<Longrightarrow> arr_put xs i v = Some (xs[i := v])"
  by (simp add: arr_put_def)

text \<open>A counting loop whose body may fault.\<close>

primrec ofold :: "('a \<Rightarrow> 's \<Rightarrow> 's option) \<Rightarrow> 'a list \<Rightarrow> 's \<Rightarrow> 's option" where
  "ofold f [] s = Some s"
| "ofold f (x # xs) s = (case f x s of None \<Rightarrow> None | Some s' \<Rightarrow> ofold f xs s')"

lemma ofold_snoc:
  "ofold f (xs @ [x]) s = (case ofold f xs s of None \<Rightarrow> None | Some s' \<Rightarrow> f x s')"
  by (induction xs arbitrary: s) (auto split: option.splits)

lemma ofold_invariant:
  assumes "P s" and "\<And>x s. x \<in> set xs \<Longrightarrow> P s \<Longrightarrow> \<exists>s'. f x s = Some s' \<and> P s'"
  shows "\<exists>s'. ofold f xs s = Some s' \<and> P s'"
  using assms
proof (induction xs arbitrary: s)
  case (Cons x xs)
  then obtain s1 where "f x s = Some s1" "P s1" by fastforce
  with Cons show ?case by fastforce
qed simp

lemma ofold_preserves:
  assumes "ofold f xs s = Some s'" "P s" and "\<And>x s s'. x \<in> set xs \<Longrightarrow> P s \<Longrightarrow> f x s = Some s' \<Longrightarrow> P s'"
  shows "P s'"
  using assms
proof (induction xs arbitrary: s)
  case (Cons x xs)
  then obtain s1 where s1: "f x s = Some s1" "ofold f xs s1 = Some s'"
    by (auto split: option.splits)
  have "P s1" using Cons.prems(2) Cons.prems(3) s1(1) by (meson list.set_intros(1))
  then show ?case using Cons.IH [OF s1(2)] Cons.prems(3) by (meson list.set_intros(2))
qed simp

section \<open>Outcomes of device code\<close>

text \<open>
  Device code ends normally, ends the process on purpose (\<open>abort\<close>, \<open>die\<close>), or
  does what it must never do: violate an assertion or leave an object.
\<close>

datatype 'a res = Ok 'a | Abort | Fault

primrec andThen :: "'a res \<Rightarrow> ('a \<Rightarrow> 'b res) \<Rightarrow> 'b res" where
  "andThen (Ok a) f = f a"
| "andThen Abort f = Abort"
| "andThen Fault f = Fault"

text \<open>No fault, and a normal end satisfies the postcondition.\<close>

primrec safe :: "'a res \<Rightarrow> ('a \<Rightarrow> bool) \<Rightarrow> bool" where
  "safe (Ok a) P = P a"
| "safe Abort P = True"
| "safe Fault P = False"

lemma safe_andThen [simp]: "safe (andThen r f) P \<longleftrightarrow> safe r (\<lambda>a. safe (f a) P)"
  by (cases r) auto

lemma andThen_assoc: "andThen (andThen r f) g = andThen r (\<lambda>x. andThen (f x) g)"
  by (cases r) simp_all

lemma safe_mono: "safe r P \<Longrightarrow> (\<And>a. r = Ok a \<Longrightarrow> P a \<Longrightarrow> Q a) \<Longrightarrow> safe r Q"
  by (cases r) auto

lemma safe_conj: "safe r P \<Longrightarrow> safe r Q \<Longrightarrow> safe r (\<lambda>a. P a \<and> Q a)"
  by (cases r) auto

lemma safe_not_Fault: "safe r P \<Longrightarrow> r \<noteq> Fault"
  by auto

definition assertR :: "bool \<Rightarrow> 'a \<Rightarrow> 'a res" where
  "assertR b a = (if b then Ok a else Fault)"

lemma safe_assertR [simp]: "safe (assertR b a) P \<longleftrightarrow> b \<and> P a"
  by (simp add: assertR_def)

primrec rfold :: "('a \<Rightarrow> 's \<Rightarrow> 's res) \<Rightarrow> 'a list \<Rightarrow> 's \<Rightarrow> 's res" where
  "rfold f [] s = Ok s"
| "rfold f (x # xs) s = andThen (f x s) (rfold f xs)"

lemma rfold_append: "rfold f (xs @ ys) s = andThen (rfold f xs s) (rfold f ys)"
proof (induction xs arbitrary: s)
  case (Cons x xs)
  then show ?case by (cases "f x s") simp_all
qed simp

lemma rfold_map: "rfold (\<lambda>i. f (g i)) xs = rfold f (map g xs)"
proof (induction xs)
  case (Cons x xs)
  show ?case by (rule ext) (simp add: Cons.IH)
qed (rule ext, simp)

lemma rfold_nth: "rfold (\<lambda>i. f (xs ! i)) [0..<length xs] = rfold f xs"
  by (simp add: rfold_map map_nth)

text \<open>A counting loop with an invariant indexed by the number of rounds done.\<close>

lemma rfold_upt:
  assumes "P m s" "m \<le> n" and "\<And>i s. m \<le> i \<Longrightarrow> i < n \<Longrightarrow> P i s \<Longrightarrow> safe (f i s) (P (Suc i))"
  shows "safe (rfold f [m..<n] s) (P n)"
  using assms
proof (induction "n - m" arbitrary: m s)
  case (Suc k)
  then have m: "m < n" by simp
  then have "safe (f m s) (P (Suc m))" using Suc.prems by simp
  then have "safe (f m s) (\<lambda>a. safe (rfold f [Suc m..<n] a) (P n))"
  proof (rule safe_mono)
    fix a assume "P (Suc m) a"
    then show "safe (rfold f [Suc m..<n] a) (P n)"
      using Suc.hyps(1) [of "Suc m" a] Suc.hyps(2) Suc.prems(3) m by simp
  qed
  then show ?case using m by (simp add: upt_rec)
qed simp

text \<open>What holds of every normal result; nothing is said of a run that ends otherwise.\<close>

primrec returns :: "'a res \<Rightarrow> ('a \<Rightarrow> bool) \<Rightarrow> bool" where
  "returns (Ok a) P = P a"
| "returns Abort P = True"
| "returns Fault P = True"

lemma returns_andThen [simp]: "returns (andThen r f) P \<longleftrightarrow> returns r (\<lambda>a. returns (f a) P)"
  by (cases r) simp_all

lemma returns_assertR [simp]: "returns (assertR b a) P \<longleftrightarrow> (b \<longrightarrow> P a)"
  by (simp add: assertR_def)

lemma returns_mono: "returns r P \<Longrightarrow> (\<And>a. r = Ok a \<Longrightarrow> P a \<Longrightarrow> Q a) \<Longrightarrow> returns r Q"
  by (cases r) simp_all

lemma returns_bind: "returns r P \<Longrightarrow> (\<And>a. P a \<Longrightarrow> returns (f a) Q) \<Longrightarrow> returns (andThen r f) Q"
  by (cases r) simp_all

lemma returns_True [simp]: "returns r (\<lambda>_. True)"
  by (cases r) simp_all

lemma returnsI: "(\<And>a. r = Ok a \<Longrightarrow> P a) \<Longrightarrow> returns r P"
  by (cases r) simp_all

lemma returns_rfold: "(\<And>x s. P s \<Longrightarrow> returns (f x s) P) \<Longrightarrow> P s \<Longrightarrow> returns (rfold f xs s) P"
proof (induction xs arbitrary: s)
  case (Cons x xs)
  then show ?case by (auto intro: returns_mono)
qed simp

end
