(* ===== verification/Simbricks_Base.thy ===== *)
theory Simbricks_Base
  imports Vmux_Prelude
begin

text \<open>
  The SimBricks base interface (src/libsimbricks/simbricks/base): the data types
  of \<open>if.h\<close> and \<open>proto.h\<close>, and the message queues in shared memory, i.e. every
  inline operation of \<open>if.h\<close>. Shared memory is modelled at slot granularity: an
  address holds the message header that starts there together with the bytes of
  the slot that the upper layer fills in. Pointers and \<open>size_t\<close> are 64-bit words
  and the slot address is computed with the wrap-around arithmetic of the source.
\<close>

section \<open>Protocol constants and messages\<close>

abbreviation (input) SIMBRICKS_PROTO_VERSION :: u64 where "SIMBRICKS_PROTO_VERSION \<equiv> 1"
abbreviation (input) SIMBRICKS_PROTO_ID_BASE :: u64 where "SIMBRICKS_PROTO_ID_BASE \<equiv> 0x00"
abbreviation (input) SIMBRICKS_PROTO_ID_NET :: u64 where "SIMBRICKS_PROTO_ID_NET \<equiv> 0x01"
abbreviation (input) SIMBRICKS_PROTO_ID_PCIE :: u64 where "SIMBRICKS_PROTO_ID_PCIE \<equiv> 0x02"

abbreviation (input) SIMBRICKS_PROTO_MSG_OWN_MASK :: u8 where "SIMBRICKS_PROTO_MSG_OWN_MASK \<equiv> 0x80"
abbreviation (input) SIMBRICKS_PROTO_MSG_OWN_PRO :: u8 where "SIMBRICKS_PROTO_MSG_OWN_PRO \<equiv> 0x00"
abbreviation (input) SIMBRICKS_PROTO_MSG_OWN_CON :: u8 where "SIMBRICKS_PROTO_MSG_OWN_CON \<equiv> 0x80"
abbreviation (input) SIMBRICKS_PROTO_MSG_TYPE_SYNC :: u8 where "SIMBRICKS_PROTO_MSG_TYPE_SYNC \<equiv> 0x00"
abbreviation (input) SIMBRICKS_PROTO_MSG_TYPE_TERMINATE :: u8
  where "SIMBRICKS_PROTO_MSG_TYPE_TERMINATE \<equiv> 0x01"

abbreviation (input) UINT64_MAX :: u64 where "UINT64_MAX \<equiv> 0xFFFFFFFFFFFFFFFF"

text \<open>
  \<open>struct SimbricksProtoBaseMsgHeader\<close>. \<open>pad\<close> stands for all bytes of the slot
  that the base layer never touches: the two pad arrays of the header and the rest
  of the slot, where upper layers keep their data.
\<close>

record SimbricksProtoBaseMsgHeader =
  pad :: "u8 list"
  timestamp :: u64
  own_type :: u8

type_synonym shmem = "u64 \<Rightarrow> SimbricksProtoBaseMsgHeader"

section \<open>Interface handle\<close>

record SimbricksBaseIfSHMPool =
  pool_path :: "string option"
  pool_fd :: int
  pool_base :: u64
  pool_size :: u64
  pool_pos :: u64

datatype SimbricksBaseIfSyncMode =
    kSimbricksBaseIfSyncDisabled
  | kSimbricksBaseIfSyncOptional
  | kSimbricksBaseIfSyncRequired

record SimbricksBaseIfParams =
  link_latency :: u64
  sync_interval :: u64
  sock_path :: "string option"
  sync_mode :: SimbricksBaseIfSyncMode
  blocking_conn :: bool
  in_num_entries :: u64
  in_entries_size :: u64
  out_num_entries :: u64
  out_entries_size :: u64
  upper_layer_proto :: u64

datatype ConnState =
    kConnClosed
  | kConnListening
  | kConnConnecting
  | kConnAwaitHandshakeRxTx
  | kConnAwaitHandshakeRx
  | kConnAwaitHandshakeTx
  | kConnOpen

text \<open>
  \<open>struct SimbricksBaseIf\<close>. \<open>sync\<close> is an \<open>int\<close> in the source but only ever
  assigned a boolean; \<open>shm\<close> is a pointer to a pool, \<open>None\<close> the null pointer.
\<close>

record SimbricksBaseIf =
  in_queue :: u64
  in_pos :: u64
  in_elen :: u64
  in_enum :: u64
  in_timestamp :: u64
  out_queue :: u64
  out_pos :: u64
  out_elen :: u64
  out_enum :: u64
  out_timestamp :: u64
  in_terminated :: bool
  conn_state :: ConnState
  sync :: bool
  params :: SimbricksBaseIfParams
  shm :: "SimbricksBaseIfSHMPool option"
  listen_fd :: int
  conn_fd :: int
  listener :: bool

section \<open>Incoming queue\<close>

definition SimbricksBaseIfInType :: "SimbricksProtoBaseMsgHeader \<Rightarrow> u8" where
  "SimbricksBaseIfInType msg = own_type msg AND NOT SIMBRICKS_PROTO_MSG_OWN_MASK"

definition SimbricksBaseIfInPeek ::
  "SimbricksBaseIf \<Rightarrow> shmem \<Rightarrow> u64 \<Rightarrow> SimbricksBaseIf \<times> u64 option" where
  "SimbricksBaseIfInPeek base_if mem ts =
     (let a = in_queue base_if + in_pos base_if * in_elen base_if;
          msg = mem a
      in if own_type msg AND SIMBRICKS_PROTO_MSG_OWN_MASK \<noteq> SIMBRICKS_PROTO_MSG_OWN_CON
         then (base_if, None)
         else let base_if = base_if\<lparr>in_timestamp := timestamp msg\<rparr>
              in if sync base_if \<and> in_timestamp base_if > ts then (base_if, None)
                 else (base_if, Some a))"

definition SimbricksBaseIfInPoll ::
  "SimbricksBaseIf \<Rightarrow> shmem \<Rightarrow> u64 \<Rightarrow> SimbricksBaseIf \<times> u64 option" where
  "SimbricksBaseIfInPoll base_if mem ts =
     (case SimbricksBaseIfInPeek base_if mem ts of
        (base_if, None) \<Rightarrow> (base_if, None)
      | (base_if, Some a) \<Rightarrow>
          let base_if = base_if\<lparr>in_pos := (in_pos base_if + 1) mod in_enum base_if\<rparr>
          in if SimbricksBaseIfInType (mem a) = SIMBRICKS_PROTO_MSG_TYPE_TERMINATE
             then (base_if\<lparr>in_terminated := True, sync := False,
                           in_timestamp := UINT64_MAX, out_timestamp := UINT64_MAX\<rparr>, Some a)
             else (base_if, Some a))"

definition SimbricksBaseIfInDone :: "shmem \<Rightarrow> u64 \<Rightarrow> shmem" where
  "SimbricksBaseIfInDone mem a =
     mem(a := (mem a)\<lparr>own_type := (own_type (mem a) AND NOT SIMBRICKS_PROTO_MSG_OWN_MASK)
                                OR SIMBRICKS_PROTO_MSG_OWN_PRO\<rparr>)"

definition SimbricksBaseIfInTimestamp :: "SimbricksBaseIf \<Rightarrow> u64" where
  "SimbricksBaseIfInTimestamp base_if = in_timestamp base_if"

definition SimbricksBaseIfInTerminated :: "SimbricksBaseIf \<Rightarrow> bool" where
  "SimbricksBaseIfInTerminated base_if = in_terminated base_if"

section \<open>Outgoing queue\<close>

definition SimbricksBaseIfOutAlloc ::
  "SimbricksBaseIf \<Rightarrow> shmem \<Rightarrow> u64 \<Rightarrow> SimbricksBaseIf \<times> shmem \<times> u64 option" where
  "SimbricksBaseIfOutAlloc base_if mem ts =
     (let a = out_queue base_if + out_pos base_if * out_elen base_if
      in if own_type (mem a) AND SIMBRICKS_PROTO_MSG_OWN_MASK \<noteq> SIMBRICKS_PROTO_MSG_OWN_PRO
         then (base_if, mem, None)
         else (base_if\<lparr>out_timestamp := ts, out_pos := (out_pos base_if + 1) mod out_enum base_if\<rparr>,
               mem(a := (mem a)\<lparr>timestamp := ts + link_latency (params base_if)\<rparr>),
               Some a))"

definition SimbricksBaseIfOutSend :: "shmem \<Rightarrow> u64 \<Rightarrow> u8 \<Rightarrow> shmem" where
  "SimbricksBaseIfOutSend mem a msg_type =
     mem(a := (mem a)\<lparr>own_type := msg_type OR SIMBRICKS_PROTO_MSG_OWN_CON\<rparr>)"

definition SimbricksBaseIfOutSync ::
  "SimbricksBaseIf \<Rightarrow> shmem \<Rightarrow> u64 \<Rightarrow> int \<times> SimbricksBaseIf \<times> shmem" where
  "SimbricksBaseIfOutSync base_if mem ts =
     (if \<not> sync base_if \<or>
         (out_timestamp base_if > 0 \<and>
          ts - out_timestamp base_if < sync_interval (params base_if))
      then (0, base_if, mem)
      else case SimbricksBaseIfOutAlloc base_if mem ts of
             (base_if, mem, None) \<Rightarrow> (- 1, base_if, mem)
           | (base_if, mem, Some a) \<Rightarrow>
               (0, base_if, SimbricksBaseIfOutSend mem a SIMBRICKS_PROTO_MSG_TYPE_SYNC))"

definition SimbricksBaseIfOutNextSync :: "SimbricksBaseIf \<Rightarrow> u64" where
  "SimbricksBaseIfOutNextSync base_if =
     (if out_timestamp base_if = UINT64_MAX then UINT64_MAX
      else out_timestamp base_if + sync_interval (params base_if))"

definition SimbricksBaseIfOutMsgLen :: "SimbricksBaseIf \<Rightarrow> u64" where
  "SimbricksBaseIfOutMsgLen base_if = out_elen base_if"

definition SimbricksBaseIfSyncEnabled :: "SimbricksBaseIf \<Rightarrow> bool" where
  "SimbricksBaseIfSyncEnabled base_if = sync base_if"

lemmas queue_defs =
  SimbricksBaseIfInPeek_def SimbricksBaseIfInPoll_def SimbricksBaseIfInDone_def
  SimbricksBaseIfOutAlloc_def SimbricksBaseIfOutSend_def Let_def

end
