(* ===== verification/Simbricks_Channel.thy ===== *)
theory Simbricks_Channel
  imports Simbricks_Base
begin

text \<open>
  One direction of a SimBricks connection as a system of two processes that share
  only the slots: the producer calls \<open>SimbricksBaseIfOutAlloc\<close>, fills the slot and
  calls \<open>SimbricksBaseIfOutSend\<close>; the consumer calls \<open>SimbricksBaseIfInPoll\<close> and,
  when it is done with the message, \<open>SimbricksBaseIfInDone\<close>. The steps of the two
  sides interleave freely. The histories \<open>ch_sent\<close> and \<open>ch_rcvd\<close> are ghost state.
\<close>

section \<open>The system\<close>

type_synonym msg_view = "u8 \<times> u64 \<times> u8 list"

definition view :: "SimbricksProtoBaseMsgHeader \<Rightarrow> msg_view" where
  "view m = (SimbricksBaseIfInType m, timestamp m, pad m)"

record chan =
  ch_mem :: shmem
  ch_prod :: SimbricksBaseIf
  ch_cons :: SimbricksBaseIf
  ch_alloc :: "u64 option"
  ch_polled :: "u64 option"
  ch_sent :: "msg_view list"
  ch_rcvd :: "msg_view list"

inductive chan_step :: "chan \<Rightarrow> chan \<Rightarrow> bool" where
  alloc: "\<lbrakk>ch_alloc s = None;
     SimbricksBaseIfOutAlloc (ch_prod s) (ch_mem s) ts = (p', mem', r)\<rbrakk> \<Longrightarrow>
     chan_step s (s\<lparr>ch_prod := p', ch_mem := mem', ch_alloc := r\<rparr>)"
| fill: "ch_alloc s = Some a \<Longrightarrow>
     chan_step s (s\<lparr>ch_mem := (ch_mem s)(a := (ch_mem s a)\<lparr>pad := d\<rparr>)\<rparr>)"
| send: "\<lbrakk>ch_alloc s = Some a; mem' = SimbricksBaseIfOutSend (ch_mem s) a ty\<rbrakk> \<Longrightarrow>
     chan_step s (s\<lparr>ch_mem := mem', ch_alloc := None, ch_sent := ch_sent s @ [view (mem' a)]\<rparr>)"
| poll_none: "\<lbrakk>ch_polled s = None;
     SimbricksBaseIfInPoll (ch_cons s) (ch_mem s) ts = (c', None)\<rbrakk> \<Longrightarrow>
     chan_step s (s\<lparr>ch_cons := c'\<rparr>)"
| poll: "\<lbrakk>ch_polled s = None;
     SimbricksBaseIfInPoll (ch_cons s) (ch_mem s) ts = (c', Some a)\<rbrakk> \<Longrightarrow>
     chan_step s (s\<lparr>ch_cons := c', ch_polled := Some a, ch_rcvd := ch_rcvd s @ [view (ch_mem s a)]\<rparr>)"
| don: "ch_polled s = Some a \<Longrightarrow>
     chan_step s (s\<lparr>ch_mem := SimbricksBaseIfInDone (ch_mem s) a, ch_polled := None\<rparr>)"

inductive_cases chan_stepE: "chan_step s t"

text \<open>
  The geometry both ends agree on after the handshake, and the state in which a
  freshly mapped (zeroed) queue starts.
\<close>

definition chan_geometry :: "SimbricksBaseIf \<Rightarrow> SimbricksBaseIf \<Rightarrow> bool" where
  "chan_geometry p c \<longleftrightarrow>
     in_queue c = out_queue p \<and> in_elen c = out_elen p \<and> in_enum c = out_enum p \<and>
     0 < unat (out_enum p) \<and> 0 < unat (out_elen p) \<and>
     unat (out_enum p) * unat (out_elen p) \<le> 2 ^ 64"

definition chan_init :: "chan \<Rightarrow> bool" where
  "chan_init s \<longleftrightarrow> chan_geometry (ch_prod s) (ch_cons s) \<and>
     out_pos (ch_prod s) = 0 \<and> in_pos (ch_cons s) = 0 \<and>
     ch_alloc s = None \<and> ch_polled s = None \<and> ch_sent s = [] \<and> ch_rcvd s = [] \<and>
     (\<forall>a. own_type (ch_mem s a) = 0)"

inductive chan_reachable :: "chan \<Rightarrow> bool" where
  init: "chan_init s \<Longrightarrow> chan_reachable s"
| step: "chan_reachable s \<Longrightarrow> chan_step s t \<Longrightarrow> chan_reachable t"

section \<open>The ring invariant\<close>

definition slot :: "SimbricksBaseIf \<Rightarrow> nat \<Rightarrow> u64" where
  "slot p k = out_queue p + of_nat (k mod unat (out_enum p)) * out_elen p"

definition consumed :: "chan \<Rightarrow> nat" where
  "consumed s = length (ch_rcvd s) - of_bool (ch_polled s \<noteq> None)"

definition allocated :: "chan \<Rightarrow> nat" where
  "allocated s = length (ch_sent s) + of_bool (ch_alloc s \<noteq> None)"

definition ring_cap :: "chan \<Rightarrow> nat" where
  "ring_cap s = unat (out_enum (ch_prod s))"

definition ring_counts :: "chan \<Rightarrow> bool" where
  "ring_counts s \<longleftrightarrow>
     unat (out_pos (ch_prod s)) = allocated s mod ring_cap s \<and>
     unat (in_pos (ch_cons s)) = length (ch_rcvd s) mod ring_cap s \<and>
     length (ch_rcvd s) \<le> length (ch_sent s) \<and>
     (ch_polled s \<noteq> None \<longrightarrow> ch_rcvd s \<noteq> []) \<and>
     allocated s \<le> consumed s + ring_cap s"

definition ring_slots :: "chan \<Rightarrow> bool" where
  "ring_slots s \<longleftrightarrow>
     (\<forall>a. ch_alloc s = Some a \<longrightarrow> a = slot (ch_prod s) (length (ch_sent s))) \<and>
     (\<forall>a. ch_polled s = Some a \<longrightarrow> a = slot (ch_prod s) (consumed s)) \<and>
     (\<forall>k. consumed s \<le> k \<and> k < length (ch_sent s) \<longrightarrow>
          bit (own_type (ch_mem s (slot (ch_prod s) k))) 7 \<and>
          view (ch_mem s (slot (ch_prod s) k)) = ch_sent s ! k) \<and>
     (\<forall>k. length (ch_sent s) \<le> k \<and> k < consumed s + ring_cap s \<longrightarrow>
          \<not> bit (own_type (ch_mem s (slot (ch_prod s) k))) 7)"

definition chan_inv :: "chan \<Rightarrow> bool" where
  "chan_inv s \<longleftrightarrow> chan_geometry (ch_prod s) (ch_cons s) \<and> ring_counts s \<and> ring_slots s \<and>
     take (length (ch_rcvd s)) (ch_sent s) = ch_rcvd s"

lemmas chan_inv_defs =
  chan_inv_def ring_counts_def ring_slots_def consumed_def allocated_def ring_cap_def

lemma slot_eq_iff:
  assumes "chan_geometry p c"
  shows "slot p j = slot p k \<longleftrightarrow> j mod unat (out_enum p) = k mod unat (out_enum p)"
proof
  assume eq: "slot p j = slot p k"
  show "j mod unat (out_enum p) = k mod unat (out_enum p)"
    by (rule slot_addr_inj [where n = "unat (out_enum p)" and l = "out_elen p" and q = "out_queue p"])
       (use assms eq in \<open>auto simp: chan_geometry_def slot_def\<close>)
qed (simp add: slot_def)

lemma slot_window_eq:
  assumes "chan_geometry p c" "d \<le> j" "j < d + unat (out_enum p)"
    "d \<le> k" "k < d + unat (out_enum p)"
  shows "slot p j = slot p k \<longleftrightarrow> j = k"
  using slot_eq_iff [OF assms(1)] mod_window_neq [OF assms(2-5)] by auto

text \<open>The pointers the two ends compute are the slots of their next indices.\<close>

lemma unat_eq_of_nat: "unat (x :: 'a::len word) = k \<Longrightarrow> x = of_nat k"
  by auto

lemma out_addr_slot:
  "unat (out_pos p) = k mod unat (out_enum p) \<Longrightarrow>
   out_queue p + out_pos p * out_elen p = slot p k"
  by (drule unat_eq_of_nat) (simp add: slot_def)

lemma in_addr_slot:
  "chan_geometry p c \<Longrightarrow> unat (in_pos c) = k mod unat (out_enum p) \<Longrightarrow>
   in_queue c + in_pos c * in_elen c = slot p k"
  by (drule unat_eq_of_nat) (simp add: slot_def chan_geometry_def)

text \<open>Slots and geometry do not depend on the moving parts of the handles.\<close>

lemma slot_cong:
  "out_queue p' = out_queue p \<Longrightarrow> out_enum p' = out_enum p \<Longrightarrow> out_elen p' = out_elen p \<Longrightarrow>
   slot p' k = slot p k"
  by (simp add: slot_def)

text \<open>What a successful allocation does, and when it succeeds.\<close>

lemma OutAlloc_cases:
  assumes "SimbricksBaseIfOutAlloc p mem ts = (p', mem', r)"
  obtains (full) "r = None" "p' = p" "mem' = mem"
      "bit (own_type (mem (out_queue p + out_pos p * out_elen p))) 7"
  | (slot) a where "r = Some a" "a = out_queue p + out_pos p * out_elen p"
      "\<not> bit (own_type (mem a)) 7"
      "p' = p\<lparr>out_timestamp := ts, out_pos := (out_pos p + 1) mod out_enum p\<rparr>"
      "mem' = mem(a := (mem a)\<lparr>timestamp := ts + link_latency (params p)\<rparr>)"
proof (cases "bit (own_type (mem (out_queue p + out_pos p * out_elen p))) 7")
  case True
  with assms show ?thesis by (intro full) (simp_all add: SimbricksBaseIfOutAlloc_def Let_def flag_simps)
next
  case False
  with assms show ?thesis by (intro slot) (auto simp: SimbricksBaseIfOutAlloc_def Let_def flag_simps)
qed

lemma InPoll_none:
  assumes "SimbricksBaseIfInPoll c mem ts = (c', None)"
  shows "in_pos c' = in_pos c" "sync c' = sync c" "in_queue c' = in_queue c"
    "in_elen c' = in_elen c" "in_enum c' = in_enum c"
    "\<not> bit (own_type (mem (in_queue c + in_pos c * in_elen c))) 7 \<or>
       (sync c \<and> ts < timestamp (mem (in_queue c + in_pos c * in_elen c)))"
  using assms
  by (simp_all add: SimbricksBaseIfInPoll_def SimbricksBaseIfInPeek_def Let_def flag_simps
      split: if_splits) auto

lemma InPoll_some:
  assumes "SimbricksBaseIfInPoll c mem ts = (c', Some a)"
  shows "a = in_queue c + in_pos c * in_elen c" "bit (own_type (mem a)) 7"
    "in_pos c' = (in_pos c + 1) mod in_enum c" "sync c \<Longrightarrow> timestamp (mem a) \<le> ts"
    "in_queue c' = in_queue c" "in_elen c' = in_elen c" "in_enum c' = in_enum c"
  using assms
  by (simp_all add: SimbricksBaseIfInPoll_def SimbricksBaseIfInPeek_def Let_def flag_simps
      split: if_splits) auto

section \<open>Every step keeps the invariant\<close>

lemma mod_succ_mod: "(k mod n + 1) mod n = Suc k mod (n::nat)"
  by (simp add: mod_Suc_eq)

lemma chan_inv_init: "chan_init s \<Longrightarrow> chan_inv s"
  by (simp add: chan_inv_defs chan_init_def)

lemma inv_sent_lt_window:
  assumes "chan_inv s" "\<not> bit (own_type (ch_mem s (slot (ch_prod s) (length (ch_sent s))))) 7"
  shows "length (ch_sent s) < consumed s + ring_cap s"
proof (rule ccontr)
  assume "\<not> ?thesis"
  with assms(1) have eq: "length (ch_sent s) = consumed s + ring_cap s" and pos: "0 < ring_cap s"
    by (auto simp: chan_inv_defs chan_geometry_def)
  then have "slot (ch_prod s) (length (ch_sent s)) = slot (ch_prod s) (consumed s)"
    by (simp add: slot_def ring_cap_def)
  moreover have "bit (own_type (ch_mem s (slot (ch_prod s) (consumed s)))) 7"
    using assms(1) eq pos by (simp add: chan_inv_def ring_slots_def)
  ultimately show False using assms(2) by simp
qed

lemma inv_rcvd_lt_sent:
  assumes inv: "chan_inv s" and "ch_polled s = None"
    and own: "bit (own_type (ch_mem s (slot (ch_prod s) (length (ch_rcvd s))))) 7"
  shows "length (ch_rcvd s) < length (ch_sent s)"
proof (rule ccontr)
  assume "\<not> ?thesis"
  moreover have "length (ch_rcvd s) \<le> length (ch_sent s)" "0 < ring_cap s"
    using inv by (simp_all add: chan_inv_def ring_counts_def ring_cap_def chan_geometry_def)
  moreover have "consumed s = length (ch_rcvd s)"
    using assms(2) by (simp add: consumed_def)
  ultimately have "length (ch_sent s) = length (ch_rcvd s)" "consumed s = length (ch_rcvd s)"
    "0 < ring_cap s"
    by simp_all
  with inv own show False by (simp add: chan_inv_def ring_slots_def)
qed

lemma inv_step_alloc:
  assumes inv: "chan_inv s" and none: "ch_alloc s = None"
    and alloc: "SimbricksBaseIfOutAlloc (ch_prod s) (ch_mem s) ts = (p', mem', r)"
  shows "chan_inv (s\<lparr>ch_prod := p', ch_mem := mem', ch_alloc := r\<rparr>)"
  using alloc
proof (cases rule: OutAlloc_cases)
  case full
  with none have "s\<lparr>ch_prod := p', ch_mem := mem', ch_alloc := r\<rparr> = s" by simp
  with inv show ?thesis by simp
next
  case (slot a)
  let ?p = "ch_prod s" and ?S = "length (ch_sent s)" and ?D = "consumed s"
  from inv have geo: "chan_geometry ?p (ch_cons s)" and cnt: "ring_counts s" and sl: "ring_slots s"
    and tk: "take (length (ch_rcvd s)) (ch_sent s) = ch_rcvd s"
    by (auto simp: chan_inv_def)
  have a: "a = slot ?p ?S"
    using cnt none slot(2) out_addr_slot [of ?p ?S] by (simp add: ring_counts_def allocated_def ring_cap_def)
  then have room: "?S < ?D + ring_cap s"
    using inv_sent_lt_window [OF inv] slot(3) by simp
  have other: "slot ?p k \<noteq> a" if "?D \<le> k" "k < ?S" for k
    using slot_window_eq [OF geo, of ?D k ?S] that room a by (simp add: ring_cap_def)
  have "unat (out_pos ?p) < unat (out_enum ?p)"
    using cnt geo by (simp add: ring_counts_def ring_cap_def chan_geometry_def)
  then have pos: "unat ((out_pos ?p + 1) mod out_enum ?p) = Suc ?S mod ring_cap s"
    using cnt none
    by (simp add: ring_simps ring_counts_def allocated_def ring_cap_def mod_Suc_eq)
  have sp: "slot p' = slot ?p" by (rule ext, rule slot_cong) (simp_all add: slot)
  have own: "own_type (mem' x) = own_type (ch_mem s x)" for x by (simp add: slot)
  have vw: "mem' (slot ?p k) = ch_mem s (slot ?p k)" if "?D \<le> k" "k < ?S" for k
    using other [OF that] by (simp add: slot(5))
  let ?t = "s\<lparr>ch_prod := p', ch_mem := mem', ch_alloc := r\<rparr>"
  have t: "consumed ?t = ?D" "ring_cap ?t = ring_cap s" "allocated ?t = Suc ?S"
    by (simp_all add: consumed_def ring_cap_def allocated_def slot)
  have "chan_geometry (ch_prod ?t) (ch_cons ?t)" using geo by (simp add: chan_geometry_def slot(4))
  moreover have "ring_counts ?t"
    using cnt room pos unfolding ring_counts_def t by (simp add: slot(4))
  moreover have "ring_slots ?t"
    using sl a unfolding ring_slots_def t by (auto simp: sp own vw slot(1))
  ultimately show ?thesis using tk by (simp add: chan_inv_def)
qed

lemma inv_step_fill:
  assumes inv: "chan_inv s" and al: "ch_alloc s = Some a"
  shows "chan_inv (s\<lparr>ch_mem := (ch_mem s)(a := (ch_mem s a)\<lparr>pad := d\<rparr>)\<rparr>)"
proof -
  let ?t = "s\<lparr>ch_mem := (ch_mem s)(a := (ch_mem s a)\<lparr>pad := d\<rparr>)\<rparr>"
  have t: "consumed ?t = consumed s" "ring_cap ?t = ring_cap s" "allocated ?t = allocated s"
    by (simp_all add: consumed_def ring_cap_def allocated_def)
  have geo: "chan_geometry (ch_prod s) (ch_cons s)" and sl: "ring_slots s" and cnt: "ring_counts s"
    using inv by (auto simp: chan_inv_def)
  have a: "a = slot (ch_prod s) (length (ch_sent s))" using sl al by (simp add: ring_slots_def)
  have room: "length (ch_sent s) < consumed s + ring_cap s"
    using cnt al by (simp add: ring_counts_def allocated_def)
  have other: "slot (ch_prod s) k \<noteq> a" if "consumed s \<le> k" "k < length (ch_sent s)" for k
    using slot_window_eq [OF geo, of "consumed s" k "length (ch_sent s)"] that room a
    by (simp add: ring_cap_def)
  have "ring_slots ?t" using sl other unfolding ring_slots_def t by auto
  moreover have "ring_counts ?t" using cnt unfolding ring_counts_def t by simp
  ultimately show ?thesis using inv by (simp add: chan_inv_def)
qed

lemma inv_step_send:
  assumes inv: "chan_inv s" and al: "ch_alloc s = Some a"
    and mem': "mem' = SimbricksBaseIfOutSend (ch_mem s) a ty"
  shows "chan_inv (s\<lparr>ch_mem := mem', ch_alloc := None, ch_sent := ch_sent s @ [view (mem' a)]\<rparr>)"
proof -
  let ?t = "s\<lparr>ch_mem := mem', ch_alloc := None, ch_sent := ch_sent s @ [view (mem' a)]\<rparr>"
  let ?p = "ch_prod s" and ?S = "length (ch_sent s)"
  have geo: "chan_geometry ?p (ch_cons s)" and sl: "ring_slots s" and cnt: "ring_counts s"
    using inv by (auto simp: chan_inv_def)
  have a: "a = slot ?p ?S" using sl al by (simp add: ring_slots_def)
  have room: "?S < consumed s + ring_cap s" and le: "length (ch_rcvd s) \<le> ?S"
    using cnt al by (auto simp: ring_counts_def allocated_def)
  have le': "consumed s \<le> ?S" using le by (simp add: consumed_def)
  have t: "consumed ?t = consumed s" "ring_cap ?t = ring_cap s" "allocated ?t = allocated s"
    using al by (simp_all add: consumed_def ring_cap_def allocated_def)
  have other: "slot ?p k = a \<longleftrightarrow> k = ?S" if "consumed s \<le> k" "k < consumed s + ring_cap s" for k
    using slot_window_eq [OF geo, of "consumed s" k ?S] that room le' a by (simp add: ring_cap_def)
  have own: "bit (own_type (mem' a)) 7" "\<And>x. x \<noteq> a \<Longrightarrow> mem' x = ch_mem s x"
    by (simp_all add: mem' SimbricksBaseIfOutSend_def flag_simps)
  have sl1: "bit (own_type (mem' (slot ?p k))) 7 \<and> view (mem' (slot ?p k)) = (ch_sent s @ [view (mem' a)]) ! k"
    if "consumed s \<le> k" "k < Suc ?S" for k
  proof (cases "k = ?S")
    case True then show ?thesis using own a by simp
  next
    case False
    with that have "slot ?p k \<noteq> a" "k < ?S" using other [of k] room by auto
    with that own sl show ?thesis by (simp add: ring_slots_def nth_append)
  qed
  have sl2: "\<not> bit (own_type (mem' (slot ?p k))) 7" if "Suc ?S \<le> k" "k < consumed s + ring_cap s" for k
    using that other [of k] own sl le' by (simp add: ring_slots_def)
  have "ring_slots ?t" using sl sl1 sl2 unfolding ring_slots_def t by simp
  moreover have "ring_counts ?t" using cnt unfolding ring_counts_def t by simp
  ultimately show ?thesis using inv le by (simp add: chan_inv_def)
qed

lemma inv_step_poll_none:
  assumes inv: "chan_inv s"
    and poll: "SimbricksBaseIfInPoll (ch_cons s) (ch_mem s) ts = (c', None)"
  shows "chan_inv (s\<lparr>ch_cons := c'\<rparr>)"
  using inv InPoll_none [OF poll] by (simp add: chan_inv_defs chan_geometry_def)

lemma inv_step_poll:
  assumes inv: "chan_inv s" and np: "ch_polled s = None"
    and poll: "SimbricksBaseIfInPoll (ch_cons s) (ch_mem s) ts = (c', Some a)"
  shows "chan_inv (s\<lparr>ch_cons := c', ch_polled := Some a, ch_rcvd := ch_rcvd s @ [view (ch_mem s a)]\<rparr>)"
proof -
  let ?t = "s\<lparr>ch_cons := c', ch_polled := Some a, ch_rcvd := ch_rcvd s @ [view (ch_mem s a)]\<rparr>"
  let ?p = "ch_prod s" and ?c = "ch_cons s" and ?R = "length (ch_rcvd s)"
  note p = InPoll_some [OF poll]
  have geo: "chan_geometry ?p ?c" and sl: "ring_slots s" and cnt: "ring_counts s"
    and tk: "take ?R (ch_sent s) = ch_rcvd s"
    using inv by (auto simp: chan_inv_def)
  have a: "a = slot ?p ?R"
    using in_addr_slot [OF geo, of ?R] cnt p(1) by (simp add: ring_counts_def ring_cap_def)
  have lt: "?R < length (ch_sent s)"
    using inv_rcvd_lt_sent [OF inv np] p(2) a by simp
  have D: "consumed s = ?R" using np by (simp add: consumed_def)
  have t: "consumed ?t = ?R" "ring_cap ?t = ring_cap s" "allocated ?t = allocated s"
    by (simp_all add: consumed_def ring_cap_def allocated_def)
  have e: "in_enum ?c = out_enum ?p" "0 < ring_cap s"
    using geo by (simp_all add: chan_geometry_def ring_cap_def)
  then have "unat (in_pos ?c) < unat (in_enum ?c)" using cnt by (simp add: ring_counts_def ring_cap_def)
  then have pos: "unat (in_pos c') = Suc ?R mod ring_cap s"
    using cnt p(3) e by (simp add: ring_simps ring_counts_def ring_cap_def mod_Suc_eq)
  have "view (ch_mem s a) = ch_sent s ! ?R" using sl lt a D by (simp add: ring_slots_def)
  then have tk': "take (Suc ?R) (ch_sent s) = ch_rcvd s @ [view (ch_mem s a)]"
    using tk lt by (simp add: take_Suc_conv_app_nth)
  have "ring_counts ?t" using cnt lt pos D unfolding ring_counts_def t by simp
  moreover have "ring_slots ?t" using sl a D unfolding ring_slots_def t by simp
  moreover have "chan_geometry (ch_prod ?t) (ch_cons ?t)" using geo p by (simp add: chan_geometry_def)
  ultimately show ?thesis using tk' by (simp add: chan_inv_def)
qed

lemma inv_step_done:
  assumes inv: "chan_inv s" and pd: "ch_polled s = Some a"
  shows "chan_inv (s\<lparr>ch_mem := SimbricksBaseIfInDone (ch_mem s) a, ch_polled := None\<rparr>)"
proof -
  let ?m = "SimbricksBaseIfInDone (ch_mem s) a"
  let ?t = "s\<lparr>ch_mem := ?m, ch_polled := None\<rparr>"
  let ?p = "ch_prod s" and ?S = "length (ch_sent s)" and ?D = "consumed s"
  have geo: "chan_geometry ?p (ch_cons s)" and sl: "ring_slots s" and cnt: "ring_counts s"
    using inv by (auto simp: chan_inv_def)
  have a: "a = slot ?p ?D" using sl pd by (simp add: ring_slots_def)
  have ne: "ch_rcvd s \<noteq> []" and lS: "length (ch_rcvd s) \<le> ?S" and room: "allocated s \<le> ?D + ring_cap s"
    and cap: "0 < ring_cap s"
    using cnt geo pd by (auto simp: ring_counts_def chan_geometry_def ring_cap_def)
  have t: "consumed ?t = Suc ?D" "ring_cap ?t = ring_cap s" "allocated ?t = allocated s"
    using ne pd by (simp_all add: consumed_def ring_cap_def allocated_def)
  have DS: "?D < ?S" "?S \<le> ?D + ring_cap s" using ne lS pd room
    by (auto simp: consumed_def allocated_def) (cases "ch_rcvd s"; simp)
  have other: "slot ?p k = a \<longleftrightarrow> k = ?D" if "?D \<le> k" "k < ?D + ring_cap s" for k
    using slot_window_eq [OF geo, of ?D k ?D] that cap a by (simp add: ring_cap_def)
  have own: "\<not> bit (own_type (?m a)) 7" "\<And>x. x \<noteq> a \<Longrightarrow> ?m x = ch_mem s x"
    by (simp_all add: SimbricksBaseIfInDone_def flag_simps)
  have sl1: "bit (own_type (?m (slot ?p k))) 7 \<and> view (?m (slot ?p k)) = ch_sent s ! k"
    if "Suc ?D \<le> k" "k < ?S" for k
    using that other [of k] own(2) sl DS by (simp add: ring_slots_def)
  have sl2: "\<not> bit (own_type (?m (slot ?p k))) 7" if "?S \<le> k" "k < Suc ?D + ring_cap s" for k
  proof (cases "k = ?D + ring_cap s")
    case True
    then have "slot ?p k = a" by (simp add: a slot_def ring_cap_def)
    then show ?thesis using own by simp
  next
    case False
    with that have "k < ?D + ring_cap s" by simp
    with that other [of k] own(2) sl DS show ?thesis by (simp add: ring_slots_def)
  qed
  have "ring_slots ?t" using sl sl1 sl2 unfolding ring_slots_def t by simp
  moreover have "ring_counts ?t" using cnt unfolding ring_counts_def t by simp
  ultimately show ?thesis using inv by (simp add: chan_inv_def)
qed

lemma chan_step_inv: "chan_step s t \<Longrightarrow> chan_inv s \<Longrightarrow> chan_inv t"
  by (induction rule: chan_step.induct)
     (blast intro: inv_step_alloc inv_step_fill inv_step_send inv_step_poll_none inv_step_poll
        inv_step_done)+

lemma chan_reachable_inv: "chan_reachable s \<Longrightarrow> chan_inv s"
  by (induction rule: chan_reachable.induct) (blast intro: chan_inv_init chan_step_inv)+

section \<open>A bounded FIFO interface and its implementation by a channel\<close>

text \<open>
  What the layers above rely on: a queue of known capacity, whose push fails exactly
  when it is full and whose pop fails exactly when it is empty, in FIFO order.
\<close>

locale bounded_fifo =
  fixes inv :: "'s \<Rightarrow> bool"
    and content :: "'s \<Rightarrow> 'm list"
    and cap :: "'s \<Rightarrow> nat"
    and img :: "'x \<Rightarrow> 'm"
    and push :: "'x \<Rightarrow> 's \<Rightarrow> 's option"
    and pop :: "'s \<Rightarrow> ('m \<times> 's) option"
  assumes push_some: "inv s \<Longrightarrow> push x s = Some s' \<Longrightarrow>
      inv s' \<and> content s' = content s @ [img x] \<and> cap s' = cap s"
    and push_none: "inv s \<Longrightarrow> push x s = None \<longleftrightarrow> length (content s) = cap s"
    and pop_some: "inv s \<Longrightarrow> pop s = Some (m, s') \<Longrightarrow>
      inv s' \<and> content s = m # content s' \<and> cap s' = cap s"
    and pop_none: "inv s \<Longrightarrow> pop s = None \<longleftrightarrow> content s = []"
    and bounded: "inv s \<Longrightarrow> length (content s) \<le> cap s"
begin

lemma push_ok:
  "inv s \<Longrightarrow> length (content s) < cap s \<Longrightarrow>
   \<exists>s'. push x s = Some s' \<and> inv s' \<and> content s' = content s @ [img x] \<and> cap s' = cap s"
  using push_none [of s x] push_some [of s x] by (cases "push x s") auto

lemma pop_ok:
  "inv s \<Longrightarrow> content s = m # ms \<Longrightarrow>
   \<exists>s'. pop s = Some (m, s') \<and> inv s' \<and> content s' = ms \<and> cap s' = cap s"
  using pop_none [of s] pop_some [of s] by (cases "pop s") fastforce+

text \<open>Pushing a whole list, popping a number of messages.\<close>

primrec push_all :: "'x list \<Rightarrow> 's \<Rightarrow> 's option" where
  "push_all [] s = Some s"
| "push_all (x # xs) s = (case push x s of None \<Rightarrow> None | Some s' \<Rightarrow> push_all xs s')"

primrec pop_n :: "nat \<Rightarrow> 's \<Rightarrow> ('m list \<times> 's) option" where
  "pop_n 0 s = Some ([], s)"
| "pop_n (Suc n) s =
     (case pop s of None \<Rightarrow> None
      | Some (m, s') \<Rightarrow> (case pop_n n s' of None \<Rightarrow> None | Some (ms, t) \<Rightarrow> Some (m # ms, t)))"

lemma push_all_ok:
  "inv s \<Longrightarrow> length (content s) + length xs \<le> cap s \<Longrightarrow>
   \<exists>t. push_all xs s = Some t \<and> inv t \<and> content t = content s @ map img xs \<and> cap t = cap s"
proof (induction xs arbitrary: s)
  case (Cons x xs)
  then obtain s' where "push x s = Some s'" "inv s'" "content s' = content s @ [img x]" "cap s' = cap s"
    using push_ok [of s x] by auto
  with Cons.IH [of s'] Cons.prems show ?case by simp
qed simp

lemma pop_n_ok:
  "inv s \<Longrightarrow> n \<le> length (content s) \<Longrightarrow>
   \<exists>t. pop_n n s = Some (take n (content s), t) \<and> inv t \<and> content t = drop n (content s)"
proof (induction n arbitrary: s)
  case (Suc n)
  then obtain m ms where c: "content s = m # ms" by (cases "content s") auto
  with Suc.prems obtain s' where "pop s = Some (m, s')" "inv s'" "content s' = ms"
    using pop_ok [of s m ms] by auto
  with Suc.IH [of s'] Suc.prems c show ?case by fastforce
qed simp

theorem transfer:
  assumes "inv s" "content s = []" "length xs \<le> cap s"
  shows "\<exists>t u. push_all xs s = Some t \<and> pop_n (length xs) t = Some (map img xs, u) \<and>
           inv u \<and> content u = []"
proof -
  obtain t where t: "push_all xs s = Some t" "inv t" "content t = map img xs"
    using push_all_ok [OF assms(1), of xs] assms(2,3) by auto
  obtain u where "pop_n (length xs) t = Some (map img xs, u)" "inv u" "content u = []"
    using pop_n_ok [OF t(2), of "length xs"] t(3) by auto
  with t show ?thesis by blast
qed

end

text \<open>The composite operations a client of one direction performs between polls.\<close>

definition chan_push :: "u64 \<times> u8 \<times> u8 list \<Rightarrow> chan \<Rightarrow> chan option" where
  "chan_push x s =
     (case x of (ts, ty, d) \<Rightarrow>
        (case SimbricksBaseIfOutAlloc (ch_prod s) (ch_mem s) ts of
           (p, mem, None) \<Rightarrow> None
         | (p, mem, Some a) \<Rightarrow>
             let mem = SimbricksBaseIfOutSend (mem(a := (mem a)\<lparr>pad := d\<rparr>)) a ty
             in Some (s\<lparr>ch_prod := p, ch_mem := mem, ch_sent := ch_sent s @ [view (mem a)]\<rparr>)))"

definition chan_pop :: "u64 \<Rightarrow> chan \<Rightarrow> (msg_view \<times> chan) option" where
  "chan_pop ts s =
     (case SimbricksBaseIfInPoll (ch_cons s) (ch_mem s) ts of
        (c, None) \<Rightarrow> None
      | (c, Some a) \<Rightarrow>
          let m = view (ch_mem s a)
          in Some (m, s\<lparr>ch_cons := c, ch_mem := SimbricksBaseIfInDone (ch_mem s) a,
                        ch_rcvd := ch_rcvd s @ [m]\<rparr>))"

definition chan_content :: "chan \<Rightarrow> msg_view list" where
  "chan_content s = drop (length (ch_rcvd s)) (ch_sent s)"

text \<open>
  Between operations: no slot is held by either side; an unsynchronised consumer
  sees every message at once. \<open>lat\<close> is the producer's link latency.
\<close>

definition chan_quiet :: "u64 \<Rightarrow> chan \<Rightarrow> bool" where
  "chan_quiet lat s \<longleftrightarrow> chan_inv s \<and> ch_alloc s = None \<and> ch_polled s = None \<and>
     \<not> sync (ch_cons s) \<and> link_latency (params (ch_prod s)) = lat"

definition chan_img :: "u64 \<Rightarrow> u64 \<times> u8 \<times> u8 list \<Rightarrow> msg_view" where
  "chan_img lat x = (case x of (ts, ty, d) \<Rightarrow> (ty AND NOT SIMBRICKS_PROTO_MSG_OWN_MASK, ts + lat, d))"

lemma chan_push_steps:
  assumes "chan_push (ts, ty, d) s = Some t" "ch_alloc s = None"
  shows "chan_step\<^sup>*\<^sup>* s t"
proof -
  obtain p mem a where al: "SimbricksBaseIfOutAlloc (ch_prod s) (ch_mem s) ts = (p, mem, Some a)"
    using assms(1) by (auto simp: chan_push_def split: prod.splits option.splits)
  define s1 where "s1 = s\<lparr>ch_prod := p, ch_mem := mem, ch_alloc := Some a\<rparr>"
  define s2 where "s2 = s1\<lparr>ch_mem := (ch_mem s1)(a := (ch_mem s1 a)\<lparr>pad := d\<rparr>)\<rparr>"
  have A: "chan_step s s1" unfolding s1_def by (rule chan_step.alloc [OF assms(2) al])
  have B: "chan_step s1 s2" unfolding s2_def by (rule chan_step.fill) (simp add: s1_def)
  have a2: "ch_alloc s2 = Some a" by (simp add: s2_def s1_def)
  have t: "t = s2\<lparr>ch_mem := SimbricksBaseIfOutSend (ch_mem s2) a ty, ch_alloc := None,
                  ch_sent := ch_sent s2 @ [view (SimbricksBaseIfOutSend (ch_mem s2) a ty a)]\<rparr>"
    using assms al by (cases s) (auto simp: s1_def s2_def chan_push_def Let_def)
  have C: "chan_step s2 t" unfolding t by (rule chan_step.send [OF a2 refl])
  from A B C show ?thesis by (meson rtranclp.rtrancl_into_rtrancl r_into_rtranclp)
qed

lemma chan_pop_steps:
  assumes "chan_pop ts s = Some (m, t)" "ch_polled s = None"
  shows "chan_step\<^sup>*\<^sup>* s t"
proof -
  obtain c a where po: "SimbricksBaseIfInPoll (ch_cons s) (ch_mem s) ts = (c, Some a)"
    using assms(1) by (auto simp: chan_pop_def split: prod.splits option.splits)
  let ?s1 = "s\<lparr>ch_cons := c, ch_polled := Some a, ch_rcvd := ch_rcvd s @ [view (ch_mem s a)]\<rparr>"
  let ?s2 = "?s1\<lparr>ch_mem := SimbricksBaseIfInDone (ch_mem ?s1) a, ch_polled := None\<rparr>"
  have A: "chan_step s ?s1" by (rule chan_step.poll [OF assms(2) po])
  have B: "chan_step ?s1 ?s2" by (rule chan_step.don) simp
  have t: "t = ?s2" using assms po by (cases s) (auto simp: chan_pop_def Let_def)
  show ?thesis unfolding t
    by (rule rtranclp.rtrancl_into_rtrancl [OF r_into_rtranclp [of chan_step, OF A] B])
qed

lemma chan_steps_inv: "chan_step\<^sup>*\<^sup>* s t \<Longrightarrow> chan_inv s \<Longrightarrow> chan_inv t"
  by (induction rule: rtranclp_induct) (auto intro: chan_step_inv)

text \<open>Availability: when allocation and polling succeed.\<close>

lemma OutAlloc_available:
  assumes inv: "chan_inv s" and "ch_alloc s = None"
    and room: "length (ch_sent s) < consumed s + ring_cap s"
  shows "\<exists>p mem. SimbricksBaseIfOutAlloc (ch_prod s) (ch_mem s) ts
            = (p, mem, Some (slot (ch_prod s) (length (ch_sent s))))"
proof -
  have "out_queue (ch_prod s) + out_pos (ch_prod s) * out_elen (ch_prod s)
          = slot (ch_prod s) (length (ch_sent s))"
    using assms by (intro out_addr_slot) (simp add: chan_inv_def ring_counts_def allocated_def ring_cap_def)
  moreover have "\<not> bit (own_type (ch_mem s (slot (ch_prod s) (length (ch_sent s))))) 7"
    using inv room by (simp add: chan_inv_def ring_slots_def)
  ultimately show ?thesis by (simp add: SimbricksBaseIfOutAlloc_def Let_def flag_simps)
qed

lemma InPoll_available:
  assumes inv: "chan_inv s" and np: "ch_polled s = None"
    and lt: "length (ch_rcvd s) < length (ch_sent s)"
    and due: "sync (ch_cons s) \<Longrightarrow> fst (snd (ch_sent s ! length (ch_rcvd s))) \<le> ts"
  shows "\<exists>c. SimbricksBaseIfInPoll (ch_cons s) (ch_mem s) ts
            = (c, Some (slot (ch_prod s) (length (ch_rcvd s)))) \<and>
           view (ch_mem s (slot (ch_prod s) (length (ch_rcvd s)))) = ch_sent s ! length (ch_rcvd s)"
proof -
  let ?a = "slot (ch_prod s) (length (ch_rcvd s))"
  have a: "in_queue (ch_cons s) + in_pos (ch_cons s) * in_elen (ch_cons s) = ?a"
    using inv by (intro in_addr_slot) (auto simp: chan_inv_def ring_counts_def ring_cap_def)
  have "consumed s = length (ch_rcvd s)" using np by (simp add: consumed_def)
  then have own: "bit (own_type (ch_mem s ?a)) 7"
    and vw: "view (ch_mem s ?a) = ch_sent s ! length (ch_rcvd s)"
    using inv lt by (auto simp: chan_inv_def ring_slots_def)
  then have "sync (ch_cons s) \<Longrightarrow> timestamp (ch_mem s ?a) \<le> ts"
    using due by (simp flip: vw) (simp add: view_def)
  then show ?thesis using a own vw
    by (cases "SimbricksBaseIfInType (ch_mem s ?a) = SIMBRICKS_PROTO_MSG_TYPE_TERMINATE")
       (auto simp: SimbricksBaseIfInPoll_def SimbricksBaseIfInPeek_def Let_def flag_simps)
qed

lemma chan_quiet_push:
  assumes q: "chan_quiet lat s" and "chan_push x s = Some t"
  shows "chan_quiet lat t \<and> chan_content t = chan_content s @ [chan_img lat x] \<and> ring_cap t = ring_cap s"
proof -
  obtain ts ty d where x: "x = (ts, ty, d)" by (cases x)
  obtain p mem a where al: "SimbricksBaseIfOutAlloc (ch_prod s) (ch_mem s) ts = (p, mem, Some a)"
    using assms(2) x by (auto simp: chan_push_def split: prod.splits option.splits)
  note push = assms(2) [unfolded x]
  have inv: "chan_inv t"
    using chan_steps_inv [OF chan_push_steps [OF push]] q by (simp add: chan_quiet_def)
  have le: "length (ch_rcvd s) \<le> length (ch_sent s)"
    using q by (simp add: chan_quiet_def chan_inv_def ring_counts_def)
  from al show ?thesis
  proof (cases rule: OutAlloc_cases)
    case (slot b)
    with q push inv al le show ?thesis
      by (auto simp: chan_push_def chan_quiet_def chan_content_def chan_img_def x view_def ring_cap_def
          SimbricksBaseIfOutSend_def SimbricksBaseIfInType_def flag_simps Let_def)
  qed simp
qed

lemma chan_quiet_pop:
  assumes q: "chan_quiet lat s" and pop: "chan_pop ts s = Some (m, t)"
  shows "chan_quiet lat t \<and> chan_content s = m # chan_content t \<and> ring_cap t = ring_cap s"
proof -
  obtain c a where po: "SimbricksBaseIfInPoll (ch_cons s) (ch_mem s) ts = (c, Some a)"
    using pop by (auto simp: chan_pop_def split: prod.splits option.splits)
  have inv: "chan_inv t" and inv0: "chan_inv s" and np: "ch_polled s = None" and ns: "\<not> sync (ch_cons s)"
    using chan_steps_inv [OF chan_pop_steps [OF pop]] q by (simp_all add: chan_quiet_def)
  have t: "t = s\<lparr>ch_cons := c, ch_mem := SimbricksBaseIfInDone (ch_mem s) a, ch_rcvd := ch_rcvd s @ [m]\<rparr>"
    and m: "m = view (ch_mem s a)"
    using pop po by (auto simp: chan_pop_def Let_def)
  have a: "a = slot (ch_prod s) (length (ch_rcvd s))"
    using InPoll_some(1) [OF po] in_addr_slot inv0 by (simp add: chan_inv_def ring_counts_def ring_cap_def)
  have lt: "length (ch_rcvd s) < length (ch_sent s)"
    using inv_rcvd_lt_sent [OF inv0 np] InPoll_some(2) [OF po] a by simp
  have "m = ch_sent s ! length (ch_rcvd s)"
    using InPoll_available [OF inv0 np lt, of ts] ns m a by auto
  then have "chan_content s = m # chan_content t"
    using lt by (simp add: t chan_content_def Cons_nth_drop_Suc)
  moreover have "\<not> sync c"
    using po ns by (auto simp: SimbricksBaseIfInPoll_def SimbricksBaseIfInPeek_def Let_def split: if_splits)
  ultimately show ?thesis using q inv by (simp add: t chan_quiet_def ring_cap_def)
qed

lemma chan_quiet_bounds:
  assumes "chan_quiet lat s"
  shows "length (chan_content s) \<le> ring_cap s" "consumed s = length (ch_rcvd s)"
    "length (ch_sent s) = length (ch_rcvd s) + length (chan_content s)"
  using assms
  by (auto simp: chan_quiet_def chan_inv_def ring_counts_def consumed_def allocated_def chan_content_def)

lemma chan_quiet_push_none:
  assumes q: "chan_quiet lat s"
  shows "chan_push x s = None \<longleftrightarrow> length (chan_content s) = ring_cap s"
proof
  assume none: "chan_push x s = None"
  show "length (chan_content s) = ring_cap s"
  proof (rule ccontr)
    assume "\<not> ?thesis"
    with chan_quiet_bounds [OF q] have "length (ch_sent s) < consumed s + ring_cap s" by simp
    moreover obtain ts ty d where "x = (ts, ty, d)" by (cases x)
    ultimately show False
      using OutAlloc_available [of s ts] none q by (auto simp: chan_quiet_def chan_push_def Let_def)
  qed
next
  assume full: "length (chan_content s) = ring_cap s"
  show "chan_push x s = None"
  proof (rule ccontr)
    assume "chan_push x s \<noteq> None"
    then obtain t where t: "chan_push x s = Some t" by auto
    from chan_quiet_push [OF q this] chan_quiet_bounds(1) [of lat t] full show False by simp
  qed
qed

lemma chan_quiet_pop_none:
  assumes q: "chan_quiet lat s"
  shows "chan_pop ts s = None \<longleftrightarrow> chan_content s = []"
proof
  assume none: "chan_pop ts s = None"
  show "chan_content s = []"
  proof (rule ccontr)
    assume "chan_content s \<noteq> []"
    with chan_quiet_bounds(3) [OF q] have "length (ch_rcvd s) < length (ch_sent s)" by simp
    with InPoll_available [of s ts] q none show False
      by (auto simp: chan_quiet_def chan_pop_def Let_def)
  qed
next
  assume "chan_content s = []"
  then show "chan_pop ts s = None" using chan_quiet_pop [OF q, of ts] by (cases "chan_pop ts s") auto
qed

interpretation ch: bounded_fifo "chan_quiet lat" chan_content ring_cap "chan_img lat" chan_push "chan_pop ts"
  for lat ts
  by unfold_locales
    (use chan_quiet_push chan_quiet_push_none chan_quiet_pop chan_quiet_pop_none chan_quiet_bounds(1) in blast)+

section \<open>Properties of a channel\<close>

primrec chan_push_all :: "(u64 \<times> u8 \<times> u8 list) list \<Rightarrow> chan \<Rightarrow> chan option" where
  "chan_push_all [] s = Some s"
| "chan_push_all (x # xs) s = (case chan_push x s of None \<Rightarrow> None | Some s' \<Rightarrow> chan_push_all xs s')"

primrec chan_pop_n :: "u64 \<Rightarrow> nat \<Rightarrow> chan \<Rightarrow> (msg_view list \<times> chan) option" where
  "chan_pop_n ts 0 s = Some ([], s)"
| "chan_pop_n ts (Suc n) s =
     (case chan_pop ts s of None \<Rightarrow> None
      | Some (m, s') \<Rightarrow> (case chan_pop_n ts n s' of None \<Rightarrow> None | Some (ms, t) \<Rightarrow> Some (m # ms, t)))"

lemma chan_push_all_eq: "chan_push_all xs s = ch.push_all xs s"
  by (induction xs arbitrary: s) (auto split: option.splits)

lemma chan_pop_n_eq: "chan_pop_n ts n s = ch.pop_n ts n s"
  by (induction n arbitrary: s) (auto split: option.splits)

text \<open>
  C1: In every interleaving of allocations, fills, sends, polls and releases, the
  messages the consumer has received are a prefix of the messages sent, in order and
  unaltered (type, timestamp, payload); at most the ring's capacity of messages is
  outstanding; and the slot the producer is filling is never the slot the consumer
  is reading.
\<close>

theorem chan_fifo:
  assumes "chan_reachable s"
  shows "(\<exists>rest. ch_sent s = ch_rcvd s @ rest \<and> length rest \<le> ring_cap s) \<and>
         (ch_alloc s = Some a \<longrightarrow> ch_polled s \<noteq> Some a)"
proof -
  let ?S = "length (ch_sent s)" and ?D = "consumed s"
  from assms have inv: "chan_inv s" by (rule chan_reachable_inv)
  have geo: "chan_geometry (ch_prod s) (ch_cons s)" and cnt: "ring_counts s" and sl: "ring_slots s"
    using inv by (auto simp: chan_inv_def)
  have "ch_sent s = ch_rcvd s @ drop (length (ch_rcvd s)) (ch_sent s)"
    using inv by (metis append_take_drop_id chan_inv_def)
  moreover have "length (drop (length (ch_rcvd s)) (ch_sent s)) \<le> ring_cap s"
    using cnt by (auto simp: ring_counts_def allocated_def consumed_def)
  moreover have "ch_polled s \<noteq> Some a" if al: "ch_alloc s = Some a"
  proof
    assume po: "ch_polled s = Some a"
    have "?D < ?S" "?S < ?D + ring_cap s"
      using cnt al po by (cases "ch_rcvd s"; auto simp: ring_counts_def allocated_def consumed_def)+
    moreover have "slot (ch_prod s) ?S = slot (ch_prod s) ?D"
      using sl al po by (metis ring_slots_def)
    ultimately show False
      using slot_window_eq [OF geo, of ?D ?S ?D] by (simp add: ring_cap_def)
  qed
  ultimately show ?thesis by blast
qed

text \<open>A concrete channel: four slots of 64 bytes at offset 0x1000, all zero.\<close>

definition demo_params :: SimbricksBaseIfParams where
  "demo_params = \<lparr>link_latency = 500000, sync_interval = 500000, sock_path = None,
     sync_mode = kSimbricksBaseIfSyncOptional, blocking_conn = False, in_num_entries = 4,
     in_entries_size = 64, out_num_entries = 4, out_entries_size = 64, upper_layer_proto = 0\<rparr>"

definition demo_if :: SimbricksBaseIf where
  "demo_if = \<lparr>in_queue = 0x1000, in_pos = 0, in_elen = 64, in_enum = 4, in_timestamp = 0,
     out_queue = 0x1000, out_pos = 0, out_elen = 64, out_enum = 4, out_timestamp = 0,
     in_terminated = False, conn_state = kConnOpen, sync = False, params = demo_params,
     shm = None, listen_fd = - 1, conn_fd = 3, listener = True\<rparr>"

definition demo_chan :: chan where
  "demo_chan = \<lparr>ch_mem = (\<lambda>_. \<lparr>pad = [], timestamp = 0, own_type = 0\<rparr>), ch_prod = demo_if,
     ch_cons = demo_if, ch_alloc = None, ch_polled = None, ch_sent = [], ch_rcvd = []\<rparr>"

lemma demo_chan_init: "chan_init demo_chan"
  by (simp add: chan_init_def demo_chan_def demo_if_def chan_geometry_def)

lemma demo_chan_quiet: "chan_quiet 500000 demo_chan"
  using chan_inv_init [OF demo_chan_init]
  by (simp add: chan_quiet_def demo_chan_def demo_if_def demo_params_def)

lemma demo_reachable: "chan_push x demo_chan = Some t \<Longrightarrow> chan_reachable t"
proof -
  assume push: "chan_push x demo_chan = Some t"
  obtain ts ty d where x: "x = (ts, ty, d)" by (cases x)
  have "chan_step\<^sup>*\<^sup>* demo_chan t"
    using chan_push_steps [OF push [unfolded x]] by (simp add: demo_chan_def)
  then show ?thesis
    by (induction rule: rtranclp_induct) (auto intro: chan_reachable.intros demo_chan_init)
qed

lemma chan_fifo_witness:
  "\<exists>t. chan_push (7, 0x40, [1, 2]) demo_chan = Some t \<and> chan_reachable t \<and>
     (\<exists>rest. ch_sent t = ch_rcvd t @ rest \<and> length rest \<le> ring_cap t) \<and> length (ch_sent t) = 1"
proof -
  obtain t where t: "chan_push (7, 0x40, [1, 2]) demo_chan = Some t" "length (ch_sent t) = 1"
    by (auto simp: chan_push_def demo_chan_def demo_if_def SimbricksBaseIfOutAlloc_def Let_def)
  show ?thesis using t chan_fifo [OF demo_reachable [OF t(1)]] demo_reachable [OF t(1)] by blast
qed

text \<open>
  In every reachable state in which the consumer holds no message, polling at time
  \<open>ts\<close> returns a message exactly when one is outstanding and, on a synchronised
  connection, its timestamp has been reached; the message returned is the oldest
  outstanding one.
\<close>

theorem chan_poll_iff:
  assumes "chan_reachable s" and "ch_polled s = None"
  shows "(\<exists>c a. SimbricksBaseIfInPoll (ch_cons s) (ch_mem s) ts = (c, Some a) \<and>
              view (ch_mem s a) = ch_sent s ! length (ch_rcvd s))
         \<longleftrightarrow> length (ch_rcvd s) < length (ch_sent s) \<and>
             (sync (ch_cons s) \<longrightarrow> fst (snd (ch_sent s ! length (ch_rcvd s))) \<le> ts)"
  (is "?poll \<longleftrightarrow> ?due")
proof
  from assms(1) have inv: "chan_inv s" by (rule chan_reachable_inv)
  assume ?poll
  then obtain c a where po: "SimbricksBaseIfInPoll (ch_cons s) (ch_mem s) ts = (c, Some a)"
    and vw: "view (ch_mem s a) = ch_sent s ! length (ch_rcvd s)" by blast
  have "a = slot (ch_prod s) (length (ch_rcvd s))"
    using InPoll_some(1) [OF po] in_addr_slot inv by (simp add: chan_inv_def ring_counts_def ring_cap_def)
  then have "length (ch_rcvd s) < length (ch_sent s)"
    using inv_rcvd_lt_sent [OF inv assms(2)] InPoll_some(2) [OF po] by simp
  moreover have "fst (snd (ch_sent s ! length (ch_rcvd s))) = timestamp (ch_mem s a)"
    by (simp flip: vw add: view_def)
  ultimately show ?due using InPoll_some(4) [OF po] by simp
next
  assume ?due
  then show ?poll using InPoll_available [OF chan_reachable_inv [OF assms(1)] assms(2), of ts] by blast
qed

lemma chan_poll_iff_witness:
  "ch_polled demo_chan = None \<and>
   (\<nexists>c a. SimbricksBaseIfInPoll (ch_cons demo_chan) (ch_mem demo_chan) 5 = (c, Some a) \<and>
      view (ch_mem demo_chan a) = ch_sent demo_chan ! length (ch_rcvd demo_chan))"
  using chan_poll_iff [OF chan_reachable.init [OF demo_chan_init], of 5]
  by (simp add: demo_chan_def)

text \<open>
  Sending a synchronisation message: \<open>SimbricksBaseIfOutSync\<close> does nothing and
  returns 0 when synchronisation is off or a message went out less than the
  synchronisation interval ago; otherwise it returns -1 and changes nothing when the
  ring is full, and else returns 0 having published a SYNC message stamped with the
  current time plus the link latency in the next slot.
\<close>

theorem OutSync_spec:
  assumes "chan_reachable s" and "ch_alloc s = None"
    and "SimbricksBaseIfOutSync (ch_prod s) (ch_mem s) ts = (r, p', mem')"
    and "needed \<longleftrightarrow> sync (ch_prod s) \<and>
           (out_timestamp (ch_prod s) = 0 \<or>
            sync_interval (params (ch_prod s)) \<le> ts - out_timestamp (ch_prod s))"
    and "full \<longleftrightarrow> length (ch_sent s) = consumed s + ring_cap s"
    and "a = slot (ch_prod s) (length (ch_sent s))"
  shows "r = (if needed \<and> full then - 1 else 0) \<and>
         (\<not> needed \<or> full \<longrightarrow> p' = ch_prod s \<and> mem' = ch_mem s) \<and>
         (needed \<and> \<not> full \<longrightarrow> out_timestamp p' = ts \<and> bit (own_type (mem' a)) 7 \<and>
            view (mem' a) = (SIMBRICKS_PROTO_MSG_TYPE_SYNC,
                             ts + link_latency (params (ch_prod s)), pad (ch_mem s a)))"
proof -
  let ?p = "ch_prod s"
  have inv: "chan_inv s" using assms(1) by (rule chan_reachable_inv)
  have nd: "needed \<longleftrightarrow> \<not> (\<not> sync ?p \<or> (out_timestamp ?p > 0 \<and> ts - out_timestamp ?p < sync_interval (params ?p)))"
    using assms(4) by (auto simp: word_greater_zero_iff not_less)
  have le: "length (ch_sent s) \<le> consumed s + ring_cap s"
    using inv by (auto simp: chan_inv_def ring_counts_def allocated_def)
  have addr: "out_queue ?p + out_pos ?p * out_elen ?p = a"
    using inv assms(2,6) out_addr_slot [of ?p "length (ch_sent s)"]
    by (simp add: chan_inv_def ring_counts_def allocated_def ring_cap_def)
  have own: "bit (own_type (ch_mem s a)) 7 \<longleftrightarrow> full"
  proof (cases full)
    case True
    then show ?thesis using inv_sent_lt_window [OF inv] assms(5,6) by fastforce
  next
    case False
    then show ?thesis using inv le assms(5,6) by (auto simp: chan_inv_def ring_slots_def)
  qed
  show ?thesis
  proof (cases needed)
    case False
    then show ?thesis using assms(3) nd by (auto simp: SimbricksBaseIfOutSync_def)
  next
    case True
    then show ?thesis using assms(3) nd own addr
      by (cases full) (auto simp: SimbricksBaseIfOutSync_def SimbricksBaseIfOutAlloc_def Let_def flag_simps
          SimbricksBaseIfOutSend_def view_def SimbricksBaseIfInType_def)
  qed
qed

lemma OutSync_spec_witness:
  "\<exists>r p' mem'. SimbricksBaseIfOutSync (ch_prod demo_chan) (ch_mem demo_chan) 9 = (r, p', mem') \<and> r = 0"
proof -
  obtain r p' mem' where e: "SimbricksBaseIfOutSync (ch_prod demo_chan) (ch_mem demo_chan) 9 = (r, p', mem')"
    by (metis prod_cases3)
  have "ch_alloc demo_chan = None" "length (ch_sent demo_chan) \<noteq> consumed demo_chan + ring_cap demo_chan"
    by (simp_all add: demo_chan_def demo_if_def consumed_def ring_cap_def)
  with OutSync_spec [OF chan_reachable.init [OF demo_chan_init] _ e refl refl refl] e show ?thesis by auto
qed

text \<open>
  A batch of at most the ring's capacity pushed through an idle channel arrives
  complete, in order and with each timestamp advanced by the link latency, and leaves
  the channel idle: allocation, fill, send, poll and release compose to a lossless
  bounded FIFO.
\<close>

theorem chan_transfer:
  assumes "chan_quiet lat s" and "chan_content s = []" and "length xs \<le> ring_cap s"
  shows "\<exists>t u. chan_push_all xs s = Some t \<and>
           chan_pop_n now (length xs) t = Some (map (chan_img lat) xs, u) \<and>
           chan_quiet lat u \<and> chan_content u = []"
  using ch.transfer [OF assms, of now] by (simp add: chan_push_all_eq chan_pop_n_eq)

lemma chan_transfer_witness:
  "\<exists>t u. chan_push_all [(1, 0x40, [7]), (2, 0x41, [8])] demo_chan = Some t \<and>
     chan_pop_n 0 2 t = Some ([(0x40, 500001, [7]), (0x41, 500002, [8])], u)"
proof -
  let ?xs = "[(1, 0x40, [7]), (2, 0x41, [8])] :: (u64 \<times> u8 \<times> u8 list) list"
  have e: "chan_content demo_chan = []" "length ?xs \<le> ring_cap demo_chan"
    by (simp_all add: demo_chan_def demo_if_def chan_content_def ring_cap_def)
  have m: "map (chan_img 500000) ?xs = [(0x40, 500001, [7]), (0x41, 500002, [8])]" "length ?xs = 2"
    by (simp_all add: chan_img_def)
  show ?thesis using chan_transfer [OF demo_chan_quiet e, of 0] unfolding m by blast
qed

end
