(* ===== verification/Simbricks_Conn.thy ===== *)
theory Simbricks_Conn
  imports Simbricks_Channel
begin

text \<open>
  Connection management of the SimBricks base interface
  (src/libsimbricks/simbricks/base/if.c): shared memory pools, listening and
  connecting, the handshake messages and the establishment loop.

  The operating system is not part of the program: the answers of the system calls
  are a record \<open>osenv\<close> of functions that every operation takes as an argument, so
  that each theorem holds for every behaviour of the kernel. An error answer is
  \<open>Inl errno\<close>. The file descriptors a function closes are returned, oldest first,
  as a log, since the order and number of \<open>close\<close> calls is part of what it does.
\<close>

section \<open>System calls\<close>

datatype errno = EAGAIN | EWOULDBLOCK | Errno nat

datatype poll_result = PollTimeout | PollEvents u16

record osenv =
  os_open :: "string \<Rightarrow> errno + int"
  os_ftruncate :: "int \<Rightarrow> u64 \<Rightarrow> bool"
  os_fstat :: "int \<Rightarrow> errno + u64"
  os_mmap :: "int \<Rightarrow> u64 \<Rightarrow> errno + u64"
  os_munmap :: "u64 \<Rightarrow> u64 \<Rightarrow> bool"
  os_unlink :: "string option \<Rightarrow> int"
  os_socket :: "errno + int"
  os_fcntl_getfl :: "int \<Rightarrow> errno + int"
  os_fcntl_setfl :: "int \<Rightarrow> int \<Rightarrow> errno + int"
  os_bind :: "int \<Rightarrow> string option \<Rightarrow> bool"
  os_listen :: "int \<Rightarrow> bool"
  os_accept4 :: "int \<Rightarrow> bool \<Rightarrow> errno + int"
  os_connect :: "int \<Rightarrow> string option \<Rightarrow> errno + unit"
  os_poll1 :: "int \<Rightarrow> errno + poll_result"
  os_getsockopt :: "int \<Rightarrow> errno + int"
  os_sendmsg :: "int \<Rightarrow> u8 list \<Rightarrow> int option \<Rightarrow> errno + nat"
  os_recvmsg :: "int \<Rightarrow> errno + (u8 list \<times> int option)"
  os_calloc :: bool
  os_stack :: "u8 list"

abbreviation (input) POLLOUT :: u16 where "POLLOUT \<equiv> 4"

section \<open>Shared memory pools\<close>

text \<open>
  Success is 0, failure -1. \<open>os_open\<close> stands for \<open>open(path, O_CREAT | O_RDWR)\<close>
  here and for \<open>open(path, O_RDWR)\<close> below. The pool is zeroed by the caller's
  memory model: a new mapping reads as zero.
\<close>

definition SimbricksBaseIfSHMPoolCreate ::
  "osenv \<Rightarrow> SimbricksBaseIfSHMPool \<Rightarrow> string \<Rightarrow> u64 \<Rightarrow> int \<times> SimbricksBaseIfSHMPool \<times> int list" where
  "SimbricksBaseIfSHMPoolCreate E pool path pool_sz =
     (let pool = pool\<lparr>pool_path := Some path, pool_size := pool_sz, pool_pos := 0\<rparr> in
      case os_open E path of
        Inl _ \<Rightarrow> (- 1, pool\<lparr>pool_fd := - 1\<rparr>, [])
      | Inr fd \<Rightarrow>
          let pool = pool\<lparr>pool_fd := fd\<rparr> in
          if \<not> os_ftruncate E fd pool_sz then (- 1, pool, [fd])
          else case os_mmap E fd pool_sz of
                 Inl _ \<Rightarrow> (- 1, pool\<lparr>pool_base := - 1\<rparr>, [])
               | Inr b \<Rightarrow> (0, pool\<lparr>pool_base := b\<rparr>, []))"

definition SimbricksBaseIfSHMPoolMapFd ::
  "osenv \<Rightarrow> SimbricksBaseIfSHMPool \<Rightarrow> int \<Rightarrow> int \<times> SimbricksBaseIfSHMPool \<times> int list" where
  "SimbricksBaseIfSHMPoolMapFd E pool fd =
     (case os_fstat E fd of
        Inl _ \<Rightarrow> (- 1, pool, [fd])
      | Inr st_size \<Rightarrow>
          (case os_mmap E fd st_size of
             Inl _ \<Rightarrow> (- 1, pool\<lparr>pool_base := - 1\<rparr>, [])
           | Inr b \<Rightarrow> (0, pool\<lparr>pool_base := b, pool_fd := fd, pool_path := None, pool_pos := 0,
                               pool_size := st_size\<rparr>, [])))"

text \<open>
  In the source the comparison binds tighter than the assignment:
  \<open>(fd = open(path, O_RDWR, 0666) == -1)\<close> assigns the truth value of the comparison.
\<close>

definition SimbricksBaseIfSHMPoolMap ::
  "osenv \<Rightarrow> SimbricksBaseIfSHMPool \<Rightarrow> string \<Rightarrow> int \<times> SimbricksBaseIfSHMPool \<times> int list" where
  "SimbricksBaseIfSHMPoolMap E pool path =
     (let ret = (case os_open E path of Inl _ \<Rightarrow> - 1 | Inr d \<Rightarrow> d);
          fd = (if ret = - 1 then 1 else 0)
      in if fd \<noteq> 0 then (- 1, pool, [])
         else case SimbricksBaseIfSHMPoolMapFd E pool fd of
                (r, pool, cl) \<Rightarrow> if r \<noteq> 0 then (- 1, pool, cl @ [fd]) else (0, pool, cl))"

definition SimbricksBaseIfSHMPoolUnmap ::
  "osenv \<Rightarrow> SimbricksBaseIfSHMPool \<Rightarrow> int \<times> SimbricksBaseIfSHMPool \<times> int list" where
  "SimbricksBaseIfSHMPoolUnmap E pool =
     (if \<not> os_munmap E (pool_base pool) (pool_size pool) then (- 1, pool, [])
      else (0, pool\<lparr>pool_fd := - 1, pool_base := 0, pool_size := 0\<rparr>, [pool_fd pool]))"

definition SimbricksBaseIfSHMPoolUnlink :: "osenv \<Rightarrow> SimbricksBaseIfSHMPool \<Rightarrow> int" where
  "SimbricksBaseIfSHMPoolUnlink E pool = os_unlink E (pool_path pool)"

section \<open>Parameters and initialisation\<close>

definition SimbricksBaseIfDefaultParams :: "SimbricksBaseIfParams" where
  "SimbricksBaseIfDefaultParams =
     \<lparr>link_latency = 500 * 1000, sync_interval = 500 * 1000, sock_path = None,
      sync_mode = kSimbricksBaseIfSyncOptional, blocking_conn = False,
      in_num_entries = 8192, in_entries_size = 2048,
      out_num_entries = 8192, out_entries_size = 2048,
      upper_layer_proto = SIMBRICKS_PROTO_ID_BASE\<rparr>"

definition SimbricksBaseIfSHMSize :: "SimbricksBaseIfParams \<Rightarrow> u64" where
  "SimbricksBaseIfSHMSize ps =
     in_num_entries ps * in_entries_size ps + out_num_entries ps * out_entries_size ps"

definition SimbricksBaseIfInit :: "SimbricksBaseIfParams \<Rightarrow> int \<times> SimbricksBaseIf" where
  "SimbricksBaseIfInit ps =
     (0, \<lparr>in_queue = 0, in_pos = 0, in_elen = 0, in_enum = 0, in_timestamp = 0,
          out_queue = 0, out_pos = 0, out_elen = 0, out_enum = 0, out_timestamp = 0,
          in_terminated = False, conn_state = kConnClosed, sync = False, params = ps,
          shm = None, listen_fd = 0, conn_fd = 0, listener = False\<rparr>)"

section \<open>Listening and connecting\<close>

definition AcceptOnBaseIf :: "osenv \<Rightarrow> SimbricksBaseIf \<Rightarrow> int \<times> SimbricksBaseIf \<times> int list" where
  "AcceptOnBaseIf E base_if =
     (case os_accept4 E (listen_fd base_if) (\<not> blocking_conn (params base_if)) of
        Inr fd \<Rightarrow> (0, base_if\<lparr>conn_fd := fd, listen_fd := - 1,
                              conn_state := kConnAwaitHandshakeRxTx\<rparr>, [listen_fd base_if])
      | Inl e \<Rightarrow>
          if e = EAGAIN \<or> e = EWOULDBLOCK then (1, base_if\<lparr>conn_fd := - 1\<rparr>, [])
          else (- 1, base_if\<lparr>conn_fd := - 1, listen_fd := - 1, conn_state := kConnClosed\<rparr>,
                [listen_fd base_if]))"

text \<open>
  The address buffer \<open>sun_path\<close> holds 108 bytes; at most 107 are copied into it.
\<close>

definition sun_path :: "SimbricksBaseIfParams \<Rightarrow> string option" where
  "sun_path ps = map_option (take 107) (sock_path ps)"

definition set_nonblock :: "osenv \<Rightarrow> int \<Rightarrow> bool" where
  "set_nonblock E fd =
     (case os_fcntl_getfl E fd of
        Inl _ \<Rightarrow> False
      | Inr flags \<Rightarrow> (case os_fcntl_setfl E fd flags of Inl _ \<Rightarrow> False | Inr _ \<Rightarrow> True))"

definition SimbricksBaseIfListen ::
  "osenv \<Rightarrow> SimbricksBaseIf \<Rightarrow> SimbricksBaseIfSHMPool
     \<Rightarrow> int \<times> SimbricksBaseIf \<times> SimbricksBaseIfSHMPool \<times> int list" where
  "SimbricksBaseIfListen E base_if pool =
     (let ps = params base_if;
          base_if = base_if\<lparr>shm := Some pool\<rparr>;
          in_len = in_num_entries ps * in_entries_size ps;
          out_len = out_num_entries ps * out_entries_size ps
      in if pool_pos pool + in_len + out_len > pool_size pool then (- 1, base_if, pool, [])
         else case os_socket E of
           Inl _ \<Rightarrow> (- 1, base_if\<lparr>listen_fd := - 1\<rparr>, pool, [])
         | Inr fd \<Rightarrow>
             if (\<not> blocking_conn ps \<and> \<not> set_nonblock E fd) \<or> \<not> os_bind E fd (sun_path ps)
                \<or> \<not> os_listen E fd
             then (- 1, base_if\<lparr>listen_fd := - 1\<rparr>, pool, [fd])
             else let base_if = base_if\<lparr>listen_fd := fd,
                        in_queue := pool_base pool + pool_pos pool, in_pos := 0,
                        in_elen := in_entries_size ps, in_enum := in_num_entries ps,
                        in_timestamp := 0\<rparr>;
                      pool = pool\<lparr>pool_pos := pool_pos pool + in_len\<rparr>;
                      base_if = base_if\<lparr>out_queue := pool_base pool + pool_pos pool, out_pos := 0,
                        out_elen := out_entries_size ps, out_enum := out_num_entries ps,
                        out_timestamp := 0\<rparr>;
                      pool = pool\<lparr>pool_pos := pool_pos pool + out_len\<rparr>;
                      base_if = base_if\<lparr>conn_state := kConnListening, listener := True\<rparr>
                  in case AcceptOnBaseIf E base_if of
                       (r, base_if, cl) \<Rightarrow> (if r < 0 then - 1 else 0, base_if, pool, cl))"

text \<open>
  The error path of \<open>SimbricksBaseIfConnect\<close> closes \<open>listen_fd\<close>, not the socket
  it opened as \<open>conn_fd\<close>.
\<close>

definition SimbricksBaseIfConnect :: "osenv \<Rightarrow> SimbricksBaseIf \<Rightarrow> int \<times> SimbricksBaseIf \<times> int list" where
  "SimbricksBaseIfConnect E base_if =
     (let base_if = base_if\<lparr>listener := False\<rparr>; ps = params base_if in
      case os_socket E of
        Inl _ \<Rightarrow> (- 1, base_if\<lparr>conn_fd := - 1\<rparr>, [])
      | Inr fd \<Rightarrow>
          let base_if = base_if\<lparr>conn_fd := fd\<rparr> in
          if \<not> blocking_conn ps \<and> \<not> set_nonblock E fd
          then (- 1, base_if\<lparr>listen_fd := - 1\<rparr>, [listen_fd base_if])
          else case os_connect E fd (sun_path ps) of
                 Inr _ \<Rightarrow> (0, base_if\<lparr>conn_state := kConnAwaitHandshakeRxTx\<rparr>, [])
               | Inl e \<Rightarrow>
                   if e = EAGAIN \<or> e = EWOULDBLOCK
                   then (0, base_if\<lparr>conn_state := kConnConnecting\<rparr>, [])
                   else (- 1, base_if\<lparr>conn_state := kConnClosed\<rparr>, []))"

definition conn_abort :: "SimbricksBaseIf \<Rightarrow> int \<times> SimbricksBaseIf \<times> int list" where
  "conn_abort base_if =
     (- 1, base_if\<lparr>conn_fd := - 1, conn_state := kConnClosed\<rparr>, [conn_fd base_if])"

definition SimbricksBaseIfConnected ::
  "osenv \<Rightarrow> SimbricksBaseIf \<Rightarrow> int \<times> SimbricksBaseIf \<times> int list" where
  "SimbricksBaseIfConnected E base_if =
     (case conn_state base_if of
        kConnClosed \<Rightarrow> (- 1, base_if, [])
      | kConnListening \<Rightarrow> AcceptOnBaseIf E base_if
      | kConnConnecting \<Rightarrow>
          (case os_poll1 E (conn_fd base_if) of
             Inl _ \<Rightarrow> conn_abort base_if
           | Inr PollTimeout \<Rightarrow> (1, base_if, [])
           | Inr (PollEvents revents) \<Rightarrow>
               if revents \<noteq> POLLOUT then conn_abort base_if
               else case os_getsockopt E (conn_fd base_if) of
                      Inl _ \<Rightarrow> conn_abort base_if
                    | Inr status \<Rightarrow>
                        if status = 0 then (0, base_if\<lparr>conn_state := kConnAwaitHandshakeRxTx\<rparr>, [])
                        else conn_abort base_if)
      | kConnAwaitHandshakeRxTx \<Rightarrow> (0, base_if, [])
      | kConnAwaitHandshakeRx \<Rightarrow> (0, base_if, [])
      | kConnAwaitHandshakeTx \<Rightarrow> (0, base_if, [])
      | kConnOpen \<Rightarrow> (0, base_if, []))"

definition SimbricksBaseIfConnFd :: "SimbricksBaseIf \<Rightarrow> int" where
  "SimbricksBaseIfConnFd base_if =
     (if conn_state base_if = kConnListening then listen_fd base_if
      else if conn_state base_if = kConnConnecting then conn_fd base_if
      else - 1)"

definition SimbricksBaseIfIntroFd :: "SimbricksBaseIf \<Rightarrow> int" where
  "SimbricksBaseIfIntroFd base_if =
     (if conn_state base_if \<in> {kConnAwaitHandshakeRxTx, kConnAwaitHandshakeRx, kConnAwaitHandshakeTx}
      then conn_fd base_if else - 1)"

section \<open>Handshake messages\<close>

text \<open>
  The two welcome messages: packed structures of little-endian 64-bit fields. The
  flag bits are the same for both roles: bit 0 offers synchronisation, bit 1
  forces it.
\<close>

record SimbricksProtoListenerIntro =
  li_version :: u64
  li_flags :: u64
  l2c_offset :: u64
  l2c_elen :: u64
  l2c_nentries :: u64
  c2l_offset :: u64
  c2l_elen :: u64
  c2l_nentries :: u64
  li_upper_layer_proto :: u64
  li_upper_layer_intro_off :: u64

record SimbricksProtoConnecterIntro =
  co_version :: u64
  co_flags :: u64
  co_upper_layer_proto :: u64
  co_upper_layer_intro_off :: u64

definition encode_listener_intro :: "SimbricksProtoListenerIntro \<Rightarrow> u8 list" where
  "encode_listener_intro m =
     concat (map (le_bytes 8) [li_version m, li_flags m, l2c_offset m, l2c_elen m, l2c_nentries m,
       c2l_offset m, c2l_elen m, c2l_nentries m, li_upper_layer_proto m, li_upper_layer_intro_off m])"

definition decode_listener_intro :: "u8 list \<Rightarrow> SimbricksProtoListenerIntro" where
  "decode_listener_intro b =
     \<lparr>li_version = le_field 0 8 b, li_flags = le_field 8 8 b, l2c_offset = le_field 16 8 b,
      l2c_elen = le_field 24 8 b, l2c_nentries = le_field 32 8 b, c2l_offset = le_field 40 8 b,
      c2l_elen = le_field 48 8 b, c2l_nentries = le_field 56 8 b,
      li_upper_layer_proto = le_field 64 8 b, li_upper_layer_intro_off = le_field 72 8 b\<rparr>"

definition encode_connecter_intro :: "SimbricksProtoConnecterIntro \<Rightarrow> u8 list" where
  "encode_connecter_intro m =
     concat (map (le_bytes 8) [co_version m, co_flags m, co_upper_layer_proto m, co_upper_layer_intro_off m])"

definition decode_connecter_intro :: "u8 list \<Rightarrow> SimbricksProtoConnecterIntro" where
  "decode_connecter_intro b =
     \<lparr>co_version = le_field 0 8 b, co_flags = le_field 8 8 b,
      co_upper_layer_proto = le_field 16 8 b, co_upper_layer_intro_off = le_field 24 8 b\<rparr>"

abbreviation (input) SIMBRICKS_PROTO_FLAGS_SYNC :: u64 where "SIMBRICKS_PROTO_FLAGS_SYNC \<equiv> 1"
abbreviation (input) SIMBRICKS_PROTO_FLAGS_SYNC_FORCE :: u64 where "SIMBRICKS_PROTO_FLAGS_SYNC_FORCE \<equiv> 2"

definition sync_flags :: "SimbricksBaseIfSyncMode \<Rightarrow> u64" where
  "sync_flags mode =
     (if mode = kSimbricksBaseIfSyncDisabled then 0
      else SIMBRICKS_PROTO_FLAGS_SYNC OR
           (if mode = kSimbricksBaseIfSyncRequired then SIMBRICKS_PROTO_FLAGS_SYNC_FORCE else 0))"

definition listener_intro :: "SimbricksBaseIf \<Rightarrow> SimbricksBaseIfSHMPool \<Rightarrow> SimbricksProtoListenerIntro" where
  "listener_intro base_if pool =
     \<lparr>li_version = SIMBRICKS_PROTO_VERSION, li_flags = sync_flags (sync_mode (params base_if)),
      l2c_offset = out_queue base_if - pool_base pool, l2c_elen = out_elen base_if,
      l2c_nentries = out_enum base_if,
      c2l_offset = in_queue base_if - pool_base pool, c2l_elen = in_elen base_if,
      c2l_nentries = in_enum base_if,
      li_upper_layer_proto = upper_layer_proto (params base_if), li_upper_layer_intro_off = 80\<rparr>"

definition connecter_intro :: "SimbricksBaseIf \<Rightarrow> SimbricksProtoConnecterIntro" where
  "connecter_intro base_if =
     \<lparr>co_version = SIMBRICKS_PROTO_VERSION, co_flags = sync_flags (sync_mode (params base_if)),
      co_upper_layer_proto = upper_layer_proto (params base_if), co_upper_layer_intro_off = 32\<rparr>"

text \<open>
  What \<open>SimbricksBaseIfIntroSend\<close> hands to \<open>sendmsg\<close>: the bytes and, from a
  listener, the descriptor of the shared memory. A listener without a pool would
  dereference a null pointer; the model returns no message then.
\<close>

definition intro_message :: "SimbricksBaseIf \<Rightarrow> u8 list \<Rightarrow> (u8 list \<times> int option) option" where
  "intro_message base_if payload =
     (if listener base_if
      then (case shm base_if of
              None \<Rightarrow> None
            | Some pool \<Rightarrow> Some (encode_listener_intro (listener_intro base_if pool) @ payload,
                                Some (pool_fd pool)))
      else Some (encode_connecter_intro (connecter_intro base_if) @ payload, None))"

definition SimbricksBaseIfIntroSend ::
  "osenv \<Rightarrow> SimbricksBaseIf \<Rightarrow> u8 list \<Rightarrow> int \<times> SimbricksBaseIf" where
  "SimbricksBaseIfIntroSend E base_if payload =
     (if conn_state base_if \<noteq> kConnAwaitHandshakeRxTx \<and> conn_state base_if \<noteq> kConnAwaitHandshakeTx
      then (- 1, base_if)
      else case intro_message base_if payload of
        None \<Rightarrow> (- 1, base_if)
      | Some (bytes, ctl) \<Rightarrow>
          (case os_sendmsg E (conn_fd base_if) bytes ctl of
             Inl _ \<Rightarrow> (- 1, base_if)
           | Inr n \<Rightarrow>
               if n \<noteq> length bytes then (- 1, base_if)
               else (0, base_if\<lparr>conn_state :=
                       (if conn_state base_if = kConnAwaitHandshakeTx then kConnOpen
                        else kConnAwaitHandshakeRx)\<rparr>)))"

text \<open>
  Receiving: the 2048-byte buffer is on the stack, so the part behind the received
  bytes has whatever contents \<open>os_stack\<close> it had. The accepted message is the
  decision on synchronisation (\<open>None\<close> is refusal) and the upper layer's payload.
\<close>

definition negotiate_sync :: "SimbricksBaseIfSyncMode \<Rightarrow> bool \<Rightarrow> bool \<Rightarrow> bool option" where
  "negotiate_sync mode peer_sync peer_force =
     (if peer_force \<and> mode = kSimbricksBaseIfSyncDisabled then None
      else if \<not> peer_sync \<and> \<not> peer_force \<and> mode = kSimbricksBaseIfSyncRequired then None
      else if mode = kSimbricksBaseIfSyncDisabled then Some False
      else Some (peer_sync \<or> peer_force))"

definition intro_buffer :: "osenv \<Rightarrow> u8 list \<Rightarrow> u8 list" where
  "intro_buffer E bytes = take 2048 (bytes @ drop (length bytes) (os_stack E))"

definition map_listener_shm ::
  "osenv \<Rightarrow> SimbricksBaseIf \<Rightarrow> SimbricksProtoListenerIntro \<Rightarrow> int option
     \<Rightarrow> int \<times> SimbricksBaseIf \<times> int list" where
  "map_listener_shm E base_if l_intro ctl =
     (case ctl of
        None \<Rightarrow> (- 1, base_if, [])
      | Some shmfd \<Rightarrow>
          if \<not> os_calloc E then (- 1, base_if\<lparr>shm := None\<rparr>, [])
          else let pool0 = \<lparr>pool_path = None, pool_fd = 0, pool_base = 0, pool_size = 0, pool_pos = 0\<rparr> in
               case SimbricksBaseIfSHMPoolMapFd E pool0 shmfd of
                 (r, pool, cl) \<Rightarrow>
                   if r \<noteq> 0 then (- 1, base_if\<lparr>shm := None\<rparr>, cl @ [shmfd])
                   else (0, base_if\<lparr>shm := Some pool,
                            out_queue := pool_base pool + c2l_offset l_intro,
                            out_elen := c2l_elen l_intro, out_enum := c2l_nentries l_intro,
                            in_queue := pool_base pool + l2c_offset l_intro,
                            in_elen := l2c_elen l_intro, in_enum := l2c_nentries l_intro\<rparr>, cl))"

definition SimbricksBaseIfIntroRecv ::
  "osenv \<Rightarrow> SimbricksBaseIf \<Rightarrow> u64 \<Rightarrow> int \<times> SimbricksBaseIf \<times> (u8 list \<times> u64) option \<times> int list" where
  "SimbricksBaseIfIntroRecv E base_if payload_len =
     (if conn_state base_if \<noteq> kConnAwaitHandshakeRxTx \<and> conn_state base_if \<noteq> kConnAwaitHandshakeRx
      then (- 1, base_if, None, [])
      else case os_recvmsg E (conn_fd base_if) of
        Inl e \<Rightarrow> (if e = EAGAIN \<or> e = EWOULDBLOCK then 1 else - 1, base_if, None, [])
      | Inr (bytes, ctl) \<Rightarrow>
          let intro_buf = intro_buffer E bytes;
              c_intro = decode_connecter_intro intro_buf;
              l_intro = decode_listener_intro intro_buf;
              flags = (if listener base_if then co_flags c_intro else li_flags l_intro);
              version = (if listener base_if then co_version c_intro else li_version l_intro);
              upper_proto = (if listener base_if then co_upper_layer_proto c_intro
                             else li_upper_layer_proto l_intro);
              upper_off = (if listener base_if then co_upper_layer_intro_off c_intro
                           else li_upper_layer_intro_off l_intro);
              peer_sync = (flags AND SIMBRICKS_PROTO_FLAGS_SYNC \<noteq> 0);
              peer_force = (flags AND SIMBRICKS_PROTO_FLAGS_SYNC_FORCE \<noteq> 0)
          in if version \<noteq> SIMBRICKS_PROTO_VERSION then (- 1, base_if, None, [])
             else if upper_proto \<noteq> upper_layer_proto (params base_if) then (- 1, base_if, None, [])
             else case negotiate_sync (sync_mode (params base_if)) peer_sync peer_force of
               None \<Rightarrow> (- 1, base_if, None, [])
             | Some sy \<Rightarrow>
                 let base_if = base_if\<lparr>sync := sy\<rparr>;
                     upper_layer_len = of_nat (length bytes) - upper_off
                 in if payload_len < upper_layer_len then (- 1, base_if, None, [])
                    else let payload = take (unat upper_layer_len) (drop (unat upper_off) intro_buf);
                             out = Some (payload, upper_layer_len);
                             open_state = (if conn_state base_if = kConnAwaitHandshakeRx then kConnOpen
                                           else kConnAwaitHandshakeTx)
                         in if listener base_if
                            then (0, base_if\<lparr>conn_state := open_state\<rparr>, out, [])
                            else case map_listener_shm E base_if l_intro ctl of
                                   (r, base_if, cl) \<Rightarrow>
                                     if r \<noteq> 0 then (- 1, base_if, out, cl)
                                     else (0, base_if\<lparr>conn_state := open_state\<rparr>, out, cl))"

section \<open>Waiting for connections\<close>

text \<open>
  \<open>SimbricksBaseIfConnsWait\<close>. \<open>EN it i\<close> are the kernel's answers in iteration \<open>it\<close>
  for poll entry \<open>i\<close>; \<open>PN it\<close> is the answer of the blocking \<open>poll\<close>: \<open>None\<close> when it
  fails, else the events per entry. The second loop of the source runs over all
  \<open>n\<close> interfaces although only the first \<open>n_wait\<close> entries of \<open>pfds\<close> and \<open>ids\<close>
  were filled in: reading further entries is a read of uninitialised memory,
  \<open>WaitUndef\<close>. Running out of fuel is \<open>WaitFuel\<close>.
\<close>

datatype wait_result = WaitRet int | WaitUndef | WaitFuel

fun conns_prepare :: "nat \<Rightarrow> SimbricksBaseIf list \<Rightarrow> nat list option" where
  "conns_prepare i [] = Some []"
| "conns_prepare i (b # bs) =
     (if conn_state b = kConnClosed then None
      else if conn_state b \<in> {kConnListening, kConnConnecting}
      then map_option (Cons i) (conns_prepare (Suc i) bs)
      else conns_prepare (Suc i) bs)"

definition poll_error :: "u16 \<Rightarrow> bool" where
  "poll_error revents \<longleftrightarrow> revents AND NOT (1 OR POLLOUT) \<noteq> 0"

fun conns_check ::
  "(nat \<Rightarrow> osenv) \<Rightarrow> (nat \<Rightarrow> u16) \<Rightarrow> nat list \<Rightarrow> nat list \<Rightarrow> SimbricksBaseIf list \<Rightarrow> nat
     \<Rightarrow> wait_result option \<times> nat \<times> SimbricksBaseIf list" where
  "conns_check Ei revs ids [] bs n_wait = (None, n_wait, bs)"
| "conns_check Ei revs ids (i # is) bs n_wait =
     (if i \<ge> length ids then (Some WaitUndef, n_wait, bs)
      else if poll_error (revs i) then (Some (WaitRet (- 1)), n_wait, bs)
      else case SimbricksBaseIfConnected (Ei i) (bs ! (ids ! i)) of
             (r, b, cl) \<Rightarrow>
               let bs = bs[ids ! i := b] in
               if r < 0 then (Some (WaitRet (- 1)), n_wait, bs)
               else conns_check Ei revs ids is bs (if r = 0 then n_wait - 1 else n_wait))"

fun SimbricksBaseIfConnsWait ::
  "(nat \<Rightarrow> nat \<Rightarrow> osenv) \<Rightarrow> (nat \<Rightarrow> (nat \<Rightarrow> u16) option) \<Rightarrow> nat \<Rightarrow> nat \<Rightarrow> SimbricksBaseIf list
     \<Rightarrow> wait_result \<times> SimbricksBaseIf list" where
  "SimbricksBaseIfConnsWait EN PN it 0 bs = (WaitFuel, bs)"
| "SimbricksBaseIfConnsWait EN PN it (Suc fuel) bs =
     (case conns_prepare 0 bs of
        None \<Rightarrow> (WaitRet (- 1), bs)
      | Some ids \<Rightarrow>
          if ids = [] then (WaitRet 0, bs)
          else (case PN it of
                  None \<Rightarrow> (WaitRet (- 1), bs)
                | Some revs \<Rightarrow>
                    (case conns_check (EN it) revs ids [0..<length bs] bs (length ids) of
                       (Some r, n_wait, bs) \<Rightarrow> (r, bs)
                     | (None, n_wait, bs) \<Rightarrow>
                         if n_wait > 0 then SimbricksBaseIfConnsWait EN PN (Suc it) fuel bs
                         else (WaitRet 0, bs))))"

section \<open>Establishing several interfaces\<close>

record SimBricksBaseIfEstablishData =
  est_if :: SimbricksBaseIf
  tx_intro :: "u8 list"
  rx_intro :: "u8 list"
  rx_intro_len :: u64

text \<open>
  One interface's turn within a pass of \<open>SimBricksBaseIfEstablish\<close>: whether the
  function goes on, the interface afterwards and the number of poll entries it
  added.
\<close>

definition establish_recv ::
  "osenv \<Rightarrow> SimBricksBaseIfEstablishData \<Rightarrow> bool \<times> SimBricksBaseIfEstablishData \<times> nat" where
  "establish_recv E ed =
     (if conn_state (est_if ed) \<noteq> kConnAwaitHandshakeRx then (True, ed, 0)
      else case SimbricksBaseIfIntroRecv E (est_if ed) (rx_intro_len ed) of
             (r, bif, out, cl) \<Rightarrow>
               let ed = ed\<lparr>est_if := bif\<rparr>;
                   ed = (case out of None \<Rightarrow> ed
                         | Some (p, l) \<Rightarrow> ed\<lparr>rx_intro := p, rx_intro_len := l\<rparr>)
               in if r < 0 then (False, ed, 0) else if r > 0 then (True, ed, 1) else (True, ed, 0))"

definition establish_turn ::
  "osenv \<Rightarrow> SimBricksBaseIfEstablishData \<Rightarrow> bool \<times> SimBricksBaseIfEstablishData \<times> nat" where
  "establish_turn E ed =
     (if conn_state (est_if ed) = kConnClosed then (False, ed, 0)
      else case SimbricksBaseIfConnected E (est_if ed) of
        (r, bif, cl) \<Rightarrow>
          if r < 0 then (False, ed\<lparr>est_if := bif\<rparr>, 0)
          else let n_pfd = (if r > 0 then 1 else 0);
                   sending = conn_state bif = kConnAwaitHandshakeTx \<or> conn_state bif = kConnAwaitHandshakeRxTx;
                   (s, bif) = (if sending then SimbricksBaseIfIntroSend E bif (tx_intro ed) else (0, bif))
               in if s \<noteq> 0 then (False, ed\<lparr>est_if := bif\<rparr>, n_pfd)
                  else case establish_recv E (ed\<lparr>est_if := bif\<rparr>) of
                         (ok, ed, k) \<Rightarrow> (ok, ed, n_pfd + k))"

datatype est_result = EstRet int | EstAbort | EstAssert | EstFuel

text \<open>
  A pass over all interfaces. The result is \<open>Inl\<close> of what the function returns when
  the pass ends early, else the poll entries and the number of open interfaces; the
  source asserts after every added entry that there are at most \<open>n\<close>.
\<close>

fun establish_pass ::
  "(nat \<Rightarrow> osenv) \<Rightarrow> nat \<Rightarrow> nat \<Rightarrow> SimBricksBaseIfEstablishData list \<Rightarrow> nat \<Rightarrow> nat
     \<Rightarrow> (est_result + nat \<times> nat) \<times> SimBricksBaseIfEstablishData list" where
  "establish_pass Ei n i [] n_pfd est = (Inr (n_pfd, est), [])"
| "establish_pass Ei n i (ed # eds) n_pfd est =
     (case establish_turn (Ei i) ed of
        (ok, ed, k) \<Rightarrow>
          if n_pfd + k > n then (Inl EstAssert, ed # eds)
          else if \<not> ok then (Inl (EstRet (- 1)), ed # eds)
          else case establish_pass Ei n (Suc i) eds (n_pfd + k)
                      (if conn_state (est_if ed) = kConnOpen then Suc est else est) of
                 (res, eds) \<Rightarrow> (res, ed # eds))"

fun establish_loop ::
  "(nat \<Rightarrow> nat \<Rightarrow> osenv) \<Rightarrow> (nat \<Rightarrow> bool) \<Rightarrow> nat \<Rightarrow> nat \<Rightarrow> nat
     \<Rightarrow> SimBricksBaseIfEstablishData list \<Rightarrow> est_result \<times> SimBricksBaseIfEstablishData list" where
  "establish_loop EN PN it 0 est eds = (EstFuel, eds)"
| "establish_loop EN PN it (Suc fuel) est eds =
     (if \<not> est < length eds then (EstRet 0, eds)
      else case establish_pass (EN it) (length eds) 0 eds 0 0 of
        (Inl r, eds) \<Rightarrow> (r, eds)
      | (Inr (n_pfd, est), eds) \<Rightarrow>
          if n_pfd = 0 \<and> est \<noteq> length eds then (EstAbort, eds)
          else if n_pfd > 0 \<and> \<not> PN it then (EstRet (- 1), eds)
          else establish_loop EN PN (Suc it) fuel est eds)"

definition SimBricksBaseIfEstablish ::
  "(nat \<Rightarrow> nat \<Rightarrow> osenv) \<Rightarrow> (nat \<Rightarrow> bool) \<Rightarrow> nat \<Rightarrow> SimBricksBaseIfEstablishData list
     \<Rightarrow> est_result \<times> SimBricksBaseIfEstablishData list" where
  "SimBricksBaseIfEstablish EN PN fuel ifs = establish_loop EN PN 0 fuel 0 ifs"

section \<open>Closing\<close>

text \<open>
  \<open>SimbricksBaseIfClose\<close> spins until a slot for the termination message is free.
  \<open>mems\<close> are the states of the shared memory its attempts observe; \<open>None\<close> when none
  of them has a free slot. The result has the handle, the memory after the
  termination message if one was sent, and the closed descriptors.
\<close>

fun alloc_spin :: "SimbricksBaseIf \<Rightarrow> u64 \<Rightarrow> shmem list \<Rightarrow> (SimbricksBaseIf \<times> shmem \<times> u64) option" where
  "alloc_spin base_if ts [] = None"
| "alloc_spin base_if ts (mem # mems) =
     (case SimbricksBaseIfOutAlloc base_if mem ts of
        (base_if', mem', Some a) \<Rightarrow> Some (base_if', mem', a)
      | (base_if', mem', None) \<Rightarrow> alloc_spin base_if' ts mems)"

definition SimbricksBaseIfClose ::
  "shmem list \<Rightarrow> SimbricksBaseIf \<Rightarrow> (SimbricksBaseIf \<times> shmem option \<times> int list) option" where
  "SimbricksBaseIfClose mems base_if =
     (if conn_state base_if = kConnListening
      then Some (base_if\<lparr>listen_fd := - 1, conn_state := kConnClosed\<rparr>, None, [listen_fd base_if])
      else if conn_state base_if = kConnClosed then Some (base_if, None, [])
      else let fin = (\<lambda>bif. bif\<lparr>conn_fd := - 1, conn_state := kConnClosed\<rparr>) in
           if conn_state base_if = kConnOpen
           then (case alloc_spin base_if UINT64_MAX mems of
                   None \<Rightarrow> None
                 | Some (bif, mem, a) \<Rightarrow>
                     Some (fin bif, Some (SimbricksBaseIfOutSend mem a SIMBRICKS_PROTO_MSG_TYPE_TERMINATE),
                           [conn_fd base_if]))
           else Some (fin base_if, None, [conn_fd base_if]))"

section \<open>Handshake round trip and agreement\<close>

lemma le_field_8 [simp]:
  "le_field 0 8 (le_bytes 8 (w :: u64) @ bs) = w"
  by (simp add: le_field_def le_word_le_bytes)

lemma le_field_skip:
  "8 \<le> off \<Longrightarrow> le_field off n (le_bytes 8 w @ bs) = le_field (off - 8) n bs"
  by (simp add: le_field_def)

lemmas intro_fields = le_field_skip encode_listener_intro_def decode_listener_intro_def
  encode_connecter_intro_def decode_connecter_intro_def

lemma decode_encode_listener: "decode_listener_intro (encode_listener_intro m @ rest) = m"
  by (cases m) (simp add: intro_fields)

lemma decode_encode_connecter: "decode_connecter_intro (encode_connecter_intro m @ rest) = m"
  by (cases m) (simp add: intro_fields)

lemma length_encode_listener [simp]: "length (encode_listener_intro m) = 80"
  by (simp add: encode_listener_intro_def)

lemma length_encode_connecter [simp]: "length (encode_connecter_intro m) = 32"
  by (simp add: encode_connecter_intro_def)

lemma sync_flags_bits [simp]:
  "sync_flags m AND 1 \<noteq> 0 \<longleftrightarrow> m \<noteq> kSimbricksBaseIfSyncDisabled"
  "sync_flags m AND 2 \<noteq> 0 \<longleftrightarrow> m = kSimbricksBaseIfSyncRequired"
  by (cases m; simp add: sync_flags_def)+

definition sync_compatible :: "SimbricksBaseIfSyncMode \<Rightarrow> SimbricksBaseIfSyncMode \<Rightarrow> bool" where
  "sync_compatible m m' \<longleftrightarrow>
     {m, m'} \<noteq> {kSimbricksBaseIfSyncDisabled, kSimbricksBaseIfSyncRequired}"

lemma negotiate_sync_peer:
  "negotiate_sync m (m' \<noteq> kSimbricksBaseIfSyncDisabled) (m' = kSimbricksBaseIfSyncRequired) =
     (if sync_compatible m m'
      then Some (m \<noteq> kSimbricksBaseIfSyncDisabled \<and> m' \<noteq> kSimbricksBaseIfSyncDisabled)
      else None)"
  by (cases m; cases m') (auto simp: negotiate_sync_def sync_compatible_def)

lemma intro_buffer_append:
  "length bytes \<le> 2048 \<Longrightarrow> \<exists>rest. intro_buffer E bytes = bytes @ rest"
  by (simp add: intro_buffer_def)

text \<open>The listener's side of the handshake, as a function of what the connecter sent.\<close>

lemma IntroRecv_listener:
  assumes "listener l" and "conn_state l = kConnAwaitHandshakeRxTx \<or> conn_state l = kConnAwaitHandshakeRx"
    and recv: "os_recvmsg E (conn_fd l) = Inr (encode_connecter_intro (connecter_intro c) @ payload, ctl)"
    and len: "length payload \<le> 2016" and fits: "of_nat (length payload) \<le> plen"
    and proto: "upper_layer_proto (params c) = upper_layer_proto (params l)"
  shows "SimbricksBaseIfIntroRecv E l plen =
    (if sync_compatible (sync_mode (params l)) (sync_mode (params c))
     then (0, l\<lparr>sync := sync_mode (params l) \<noteq> kSimbricksBaseIfSyncDisabled \<and>
                      sync_mode (params c) \<noteq> kSimbricksBaseIfSyncDisabled,
              conn_state := if conn_state l = kConnAwaitHandshakeRx then kConnOpen
                            else kConnAwaitHandshakeTx\<rparr>,
           Some (payload, of_nat (length payload)), [])
     else (- 1, l, None, []))"
proof -
  let ?b = "encode_connecter_intro (connecter_intro c) @ payload"
  obtain rest where b: "intro_buffer E ?b = encode_connecter_intro (connecter_intro c) @ payload @ rest"
    using intro_buffer_append [of ?b E] len by auto
  have d: "decode_connecter_intro (intro_buffer E ?b) = connecter_intro c"
    by (simp add: b decode_encode_connecter)
  have pl: "take (length payload) (drop 32 (intro_buffer E ?b)) = payload"
    by (simp add: b)
  have off: "of_nat (length ?b) - co_upper_layer_intro_off (connecter_intro c) = of_nat (length payload)"
    by (simp add: connecter_intro_def)
  have un: "unat (of_nat (length payload) :: u64) = length payload"
    using len by (simp add: unat_of_nat)
  have st: "\<not> (conn_state l \<noteq> kConnAwaitHandshakeRxTx \<and> conn_state l \<noteq> kConnAwaitHandshakeRx)"
    using assms(2) by auto
  note neg = negotiate_sync_peer [of "sync_mode (params l)" "sync_mode (params c)"]
  show ?thesis
    unfolding SimbricksBaseIfIntroRecv_def recv sum.case prod.case Let_def d off
    using assms(1) st fits pl un neg proto
    by (auto simp: connecter_intro_def not_less)
qed

text \<open>The connecter's side, with the shared memory mapped at \<open>b\<close>.\<close>

lemma IntroRecv_connecter:
  assumes "\<not> listener c" and "conn_state c = kConnAwaitHandshakeRxTx \<or> conn_state c = kConnAwaitHandshakeRx"
    and recv: "os_recvmsg E (conn_fd c) =
          Inr (encode_listener_intro (listener_intro l pool) @ payload, Some fd)"
    and map: "os_calloc E" "os_fstat E fd = Inr sz" "os_mmap E fd sz = Inr b"
    and len: "length payload \<le> 1968" and fits: "of_nat (length payload) \<le> plen"
    and proto: "upper_layer_proto (params l) = upper_layer_proto (params c)"
  shows "SimbricksBaseIfIntroRecv E c plen =
    (if sync_compatible (sync_mode (params c)) (sync_mode (params l))
     then (0, c\<lparr>sync := sync_mode (params c) \<noteq> kSimbricksBaseIfSyncDisabled \<and>
                      sync_mode (params l) \<noteq> kSimbricksBaseIfSyncDisabled,
              shm := Some \<lparr>pool_path = None, pool_fd = fd, pool_base = b, pool_size = sz, pool_pos = 0\<rparr>,
              out_queue := b + (in_queue l - pool_base pool), out_elen := in_elen l, out_enum := in_enum l,
              in_queue := b + (out_queue l - pool_base pool), in_elen := out_elen l, in_enum := out_enum l,
              conn_state := if conn_state c = kConnAwaitHandshakeRx then kConnOpen
                            else kConnAwaitHandshakeTx\<rparr>,
           Some (payload, of_nat (length payload)), [])
     else (- 1, c, None, []))"
proof -
  let ?b = "encode_listener_intro (listener_intro l pool) @ payload"
  obtain rest where b: "intro_buffer E ?b = encode_listener_intro (listener_intro l pool) @ payload @ rest"
    using intro_buffer_append [of ?b E] len by auto
  have d: "decode_listener_intro (intro_buffer E ?b) = listener_intro l pool"
    by (simp add: b decode_encode_listener)
  have pl: "take (length payload) (drop 80 (intro_buffer E ?b)) = payload"
    by (simp add: b)
  have off: "of_nat (length ?b) - li_upper_layer_intro_off (listener_intro l pool) = of_nat (length payload)"
    by (simp add: listener_intro_def)
  have un: "unat (of_nat (length payload) :: u64) = length payload"
    using len by (simp add: unat_of_nat)
  have st: "\<not> (conn_state c \<noteq> kConnAwaitHandshakeRxTx \<and> conn_state c \<noteq> kConnAwaitHandshakeRx)"
    using assms(2) by auto
  note neg = negotiate_sync_peer [of "sync_mode (params c)" "sync_mode (params l)"]
  show ?thesis
    unfolding SimbricksBaseIfIntroRecv_def recv sum.case prod.case Let_def d off
    using assms(1) st fits pl un neg proto map
    by (auto simp: listener_intro_def not_less map_listener_shm_def SimbricksBaseIfSHMPoolMapFd_def)
qed


text \<open>An operating system in which every call succeeds, for concrete runs.\<close>

definition demo_os :: osenv where
  "demo_os =
     \<lparr>os_open = (\<lambda>_. Inr 5), os_ftruncate = (\<lambda>_ _. True), os_fstat = (\<lambda>_. Inr 4096),
      os_mmap = (\<lambda>_ _. Inr 0x7000), os_munmap = (\<lambda>_ _. True), os_unlink = (\<lambda>_. 0),
      os_socket = Inr 6, os_fcntl_getfl = (\<lambda>_. Inr 0), os_fcntl_setfl = (\<lambda>_ _. Inr 0),
      os_bind = (\<lambda>_ _. True), os_listen = (\<lambda>_. True), os_accept4 = (\<lambda>_ _. Inr 7),
      os_connect = (\<lambda>_ _. Inr ()), os_poll1 = (\<lambda>_. Inr (PollEvents POLLOUT)),
      os_getsockopt = (\<lambda>_. Inr 0), os_sendmsg = (\<lambda>_ b _. Inr (length b)),
      os_recvmsg = (\<lambda>_. Inl EAGAIN), os_calloc = True, os_stack = replicate 2048 0\<rparr>"

definition demo_listener :: SimbricksBaseIf where
  "demo_listener = demo_if\<lparr>conn_state := kConnAwaitHandshakeRxTx,
     shm := Some \<lparr>pool_path = None, pool_fd = 5, pool_base = 0x1000, pool_size = 512, pool_pos = 512\<rparr>,
     out_queue := 0x1100\<rparr>"

definition demo_connecter :: SimbricksBaseIf where
  "demo_connecter = demo_if\<lparr>conn_state := kConnAwaitHandshakeRxTx, listener := False\<rparr>"


section \<open>Establishment\<close>

text \<open>Connected interfaces stay put; a pending one is left in the state that makes it wait.\<close>

lemma Connected_cases:
  assumes "SimbricksBaseIfConnected E bif = (r, bif', cl)"
  shows "r = 0 \<and> conn_state bif' \<in> {kConnAwaitHandshakeRxTx, kConnAwaitHandshakeRx, kConnAwaitHandshakeTx, kConnOpen}
       \<or> r = 1 \<and> conn_state bif' = conn_state bif \<and> conn_state bif \<in> {kConnListening, kConnConnecting}
       \<or> r = - 1 \<and> conn_state bif' = kConnClosed"
  using assms
  by (auto simp: SimbricksBaseIfConnected_def AcceptOnBaseIf_def conn_abort_def
      split: ConnState.splits sum.splits poll_result.splits if_splits)

lemma IntroSend_cases:
  assumes "SimbricksBaseIfIntroSend E bif p = (r, bif')"
  shows "r = - 1 \<and> bif' = bif
       \<or> r = 0 \<and> conn_state bif = kConnAwaitHandshakeTx \<and> conn_state bif' = kConnOpen
       \<or> r = 0 \<and> conn_state bif = kConnAwaitHandshakeRxTx \<and> conn_state bif' = kConnAwaitHandshakeRx"
  using assms
  by (auto simp: SimbricksBaseIfIntroSend_def split: option.splits sum.splits if_splits)

lemma map_listener_shm_state:
  "map_listener_shm E bif li ctl = (r, bif', cl) \<Longrightarrow> conn_state bif' = conn_state bif"
  by (auto simp: map_listener_shm_def Let_def split: option.splits if_splits prod.splits)

lemma IntroRecv_cases:
  assumes "SimbricksBaseIfIntroRecv E bif plen = (r, bif', x, cl)"
  shows "r = - 1 \<and> conn_state bif' = conn_state bif
       \<or> r = 1 \<and> bif' = bif
       \<or> r = 0 \<and> conn_state bif = kConnAwaitHandshakeRx \<and> conn_state bif' = kConnOpen
       \<or> r = 0 \<and> conn_state bif = kConnAwaitHandshakeRxTx \<and> conn_state bif' = kConnAwaitHandshakeTx"
  using assms
  by (auto simp: SimbricksBaseIfIntroRecv_def Let_def split: option.splits sum.splits if_splits prod.splits
      dest: map_listener_shm_state)

lemma establish_turn_cases:
  assumes "establish_turn E ed = (ok, ed', k)"
  shows "k \<le> 1 \<and> (ok \<longrightarrow> (k = 0 \<longleftrightarrow> conn_state (est_if ed') = kConnOpen))"
proof (cases "conn_state (est_if ed) = kConnClosed")
  case True
  with assms show ?thesis by (auto simp: establish_turn_def)
next
  case False
  obtain r bif cl where c: "SimbricksBaseIfConnected E (est_if ed) = (r, bif, cl)" by (metis prod_cases3)
  let ?sending = "conn_state bif = kConnAwaitHandshakeTx \<or> conn_state bif = kConnAwaitHandshakeRxTx"
  obtain s bif2 where s: "(if ?sending then SimbricksBaseIfIntroSend E bif (tx_intro ed) else (0, bif)) = (s, bif2)"
    by (metis surj_pair)
  obtain ok2 ed2 k2 where rv: "establish_recv E (ed\<lparr>est_if := bif2\<rparr>) = (ok2, ed2, k2)" by (metis prod_cases3)
  have res: "(ok, ed', k) = (if r < 0 then (False, ed\<lparr>est_if := bif\<rparr>, 0)
      else if s \<noteq> 0 then (False, ed\<lparr>est_if := bif2\<rparr>, if r > 0 then 1 else 0)
      else (ok2, ed2, (if r > 0 then 1 else 0) + k2))"
    using assms False unfolding establish_turn_def Let_def c prod.case s rv by auto
  have snd: "s = - 1 \<or> s = 0 \<and> (if ?sending then conn_state bif2 = kConnOpen \<and> conn_state bif = kConnAwaitHandshakeTx
      \<or> conn_state bif2 = kConnAwaitHandshakeRx \<and> conn_state bif = kConnAwaitHandshakeRxTx else bif2 = bif)"
    using s IntroSend_cases [of E bif "tx_intro ed" s bif2] by (cases ?sending) auto
  have rcv: "k2 \<le> 1 \<and> (ok2 \<longrightarrow> (if conn_state bif2 = kConnAwaitHandshakeRx
        then (k2 = 0 \<longleftrightarrow> conn_state (est_if ed2) = kConnOpen)
        else k2 = 0 \<and> est_if ed2 = bif2))
      \<and> (conn_state bif2 \<noteq> kConnAwaitHandshakeRx \<longrightarrow> k2 = 0)"
    using rv
    by (auto simp: establish_recv_def Let_def dest!: IntroRecv_cases split: if_splits prod.splits option.splits)
  show ?thesis
    using Connected_cases [OF c] res snd rcv by (auto split: if_splits)
qed

lemma establish_pass_ok:
  assumes "establish_pass Ei n i eds n_pfd est = (res, eds')" and "n_pfd + length eds \<le> n"
  shows "length eds' = length eds \<and>
     (case res of
        Inl r \<Rightarrow> r = EstRet (- 1)
      | Inr (p, e) \<Rightarrow> e + p = est + n_pfd + length eds \<and> p \<le> n \<and> n_pfd \<le> p \<and> est \<le> e \<and>
          e = est + length (filter (\<lambda>ed. conn_state (est_if ed) = kConnOpen) eds'))"
  using assms
proof (induction eds arbitrary: i n_pfd est res eds')
  case (Cons ed eds)
  obtain ok ed1 k where t: "establish_turn (Ei i) ed = (ok, ed1, k)" by (metis prod_cases3)
  note tc = establish_turn_cases [OF t]
  obtain res1 eds1 where p: "establish_pass Ei n (Suc i) eds (n_pfd + k)
      (if conn_state (est_if ed1) = kConnOpen then Suc est else est) = (res1, eds1)" by (metis surj_pair)
  have le: "n_pfd + k \<le> n" "n_pfd + k + length eds \<le> n" using tc Cons.prems(2) by auto
  show ?case
  proof (cases ok)
    case False
    with Cons.prems(1) t le show ?thesis by auto
  next
    case True
    then have eq: "res = res1" "eds' = ed1 # eds1" using Cons.prems(1) t p le by auto
    have "k = 0 \<longleftrightarrow> conn_state (est_if ed1) = kConnOpen" "k \<le> 1" using tc True by auto
    with Cons.IH [OF p le(2)] eq show ?thesis
      by (cases res1) (auto split: if_splits)
  qed
qed auto

text \<open>
  C3: \<open>SimBricksBaseIfEstablish\<close>, for every behaviour of the operating system and of
  the peers and however long it runs: its assertion on the number of poll entries
  never fails, its "no poll events to wait for" abort is never reached, and when it
  returns 0 every interface has completed its handshake (is open).
\<close>

theorem establish_safe:
  "case SimBricksBaseIfEstablish EN PN fuel ifs of (res, ifs') \<Rightarrow>
     res \<noteq> EstAssert \<and> res \<noteq> EstAbort \<and> length ifs' = length ifs \<and>
     (res = EstRet 0 \<longrightarrow> (\<forall>ed \<in> set ifs'. conn_state (est_if ed) = kConnOpen))"
proof -
  have loop: "res \<noteq> EstAssert \<and> res \<noteq> EstAbort \<and> length eds' = length eds \<and>
        (res = EstRet 0 \<longrightarrow> (\<forall>ed \<in> set eds'. conn_state (est_if ed) = kConnOpen))"
    if "establish_loop EN PN it fuel est eds = (res, eds')"
       and "est = length eds \<longrightarrow> (\<forall>ed \<in> set eds. conn_state (est_if ed) = kConnOpen)" "est \<le> length eds"
    for it fuel est eds res eds'
    using that
  proof (induction fuel arbitrary: it est eds)
    case (Suc fuel)
    show ?case
    proof (cases "est < length eds")
      case False
      with Suc.prems show ?thesis by auto
    next
      case True
      obtain pr eds1 where p: "establish_pass (EN it) (length eds) 0 eds 0 0 = (pr, eds1)" by (metis surj_pair)
      note ok = establish_pass_ok [OF p, simplified]
      show ?thesis
      proof (cases pr)
        case (Inl r)
        with Suc.prems True p ok show ?thesis by auto
      next
        case (Inr pe)
        obtain np e where pe: "pe = (np, e)" by (metis surj_pair)
        have e: "e + np = length eds" "e = length (filter (\<lambda>ed. conn_state (est_if ed) = kConnOpen) eds1)"
          and l: "length eds1 = length eds"
          using ok Inr pe by auto
        have all: "e = length eds1 \<Longrightarrow> \<forall>ed \<in> set eds1. conn_state (est_if ed) = kConnOpen"
          using e(2) length_filter_full [of _ eds1] by simp
        have nab: "\<not> (np = 0 \<and> e \<noteq> length eds1)" using e l by auto
        show ?thesis
        proof (cases "np > 0 \<and> \<not> PN it")
          case True
          with Suc.prems \<open>est < length eds\<close> p Inr pe l nab show ?thesis by auto
        next
          case False
          then have rec: "establish_loop EN PN (Suc it) fuel e eds1 = (res, eds')"
            using Suc.prems(1) \<open>est < length eds\<close> p Inr pe nab by auto
          have "e = length eds1 \<longrightarrow> (\<forall>ed \<in> set eds1. conn_state (est_if ed) = kConnOpen)" using all by blast
          moreover have "e \<le> length eds1" using e(1) l by simp
          ultimately show ?thesis using Suc.IH [OF rec] l by simp
        qed
      qed
    qed
  qed auto
  obtain res eds' where e: "establish_loop EN PN 0 fuel 0 ifs = (res, eds')" by (metis surj_pair)
  have "0 = length ifs \<longrightarrow> (\<forall>ed \<in> set ifs. conn_state (est_if ed) = kConnOpen)" by simp
  from loop [OF e this] show ?thesis by (simp add: SimBricksBaseIfEstablish_def e)
qed

definition demo_est :: SimBricksBaseIfEstablishData where
  "demo_est = \<lparr>est_if = demo_listener, tx_intro = [2], rx_intro = [], rx_intro_len = 64\<rparr>"

definition demo_intro_os :: osenv where
  "demo_intro_os = demo_os\<lparr>os_recvmsg := \<lambda>_. Inr (encode_connecter_intro (connecter_intro demo_connecter) @ [1], None)\<rparr>"

lemma demo_est_turn:
  "\<exists>ed. establish_turn demo_intro_os demo_est = (True, ed, 0) \<and> conn_state (est_if ed) = kConnOpen"
proof -
  let ?l = "demo_listener\<lparr>conn_state := kConnAwaitHandshakeRx\<rparr>"
  have "sync_compatible (sync_mode (params ?l)) (sync_mode (params demo_connecter))"
    by (simp add: sync_compatible_def demo_listener_def demo_connecter_def demo_if_def demo_params_def)
  then obtain l where rv: "SimbricksBaseIfIntroRecv demo_intro_os ?l 64 = (0, l, Some ([1], 1), [])"
    and op: "conn_state l = kConnOpen"
    using IntroRecv_listener [of ?l demo_intro_os demo_connecter "[1]" None 64]
    by (simp add: demo_intro_os_def demo_listener_def demo_connecter_def demo_if_def demo_params_def)
  have st: "conn_state demo_listener = kConnAwaitHandshakeRxTx" by (simp add: demo_listener_def)
  have cn: "SimbricksBaseIfConnected demo_intro_os demo_listener = (0, demo_listener, [])"
    by (simp add: SimbricksBaseIfConnected_def st)
  have sd: "SimbricksBaseIfIntroSend demo_intro_os demo_listener [2] = (0, ?l)"
    by (simp add: SimbricksBaseIfIntroSend_def intro_message_def demo_listener_def demo_intro_os_def
        demo_os_def demo_if_def)
  show ?thesis
    using cn sd rv op by (simp add: establish_turn_def establish_recv_def demo_est_def st)
qed

lemma establish_safe_witness:
  "\<exists>ifs'. SimBricksBaseIfEstablish (\<lambda>_ _. demo_intro_os) (\<lambda>_. True) 2 [demo_est] = (EstRet 0, ifs') \<and>
     (\<forall>ed \<in> set ifs'. conn_state (est_if ed) = kConnOpen) \<and> length ifs' = 1"
proof -
  obtain ed where "establish_turn demo_intro_os demo_est = (True, ed, 0)" "conn_state (est_if ed) = kConnOpen"
    using demo_est_turn by blast
  then have "SimBricksBaseIfEstablish (\<lambda>_ _. demo_intro_os) (\<lambda>_. True) 2 [demo_est] = (EstRet 0, [ed])"
    by (simp add: SimBricksBaseIfEstablish_def numeral_2_eq_2)
  then show ?thesis
    using establish_safe [where EN = "\<lambda>_ _. demo_intro_os" and PN = "\<lambda>_. True" and fuel = 2 and ifs = "[demo_est]"] by auto
qed

section \<open>The connection state machine\<close>

text \<open>
  Every call a client can make on an interface handle, with ghost flags that record
  whether the own introduction has been sent and the peer's accepted since the
  connection was started.
\<close>

record conn_sys =
  cs_if :: SimbricksBaseIf
  cs_tx :: bool
  cs_rx :: bool

inductive conn_step :: "conn_sys \<Rightarrow> conn_sys \<Rightarrow> bool" where
  listen: "\<lbrakk>conn_state (cs_if s) = kConnClosed;
     SimbricksBaseIfListen E (cs_if s) pool = (r, b, pool', cl)\<rbrakk> \<Longrightarrow>
     conn_step s \<lparr>cs_if = b, cs_tx = False, cs_rx = False\<rparr>"
| connect: "\<lbrakk>conn_state (cs_if s) = kConnClosed;
     SimbricksBaseIfConnect E (cs_if s) = (r, b, cl)\<rbrakk> \<Longrightarrow>
     conn_step s \<lparr>cs_if = b, cs_tx = False, cs_rx = False\<rparr>"
| connected: "SimbricksBaseIfConnected E (cs_if s) = (r, b, cl) \<Longrightarrow> conn_step s (s\<lparr>cs_if := b\<rparr>)"
| intro_send: "SimbricksBaseIfIntroSend E (cs_if s) p = (r, b) \<Longrightarrow>
     conn_step s (s\<lparr>cs_if := b, cs_tx := cs_tx s \<or> r = 0\<rparr>)"
| intro_recv: "SimbricksBaseIfIntroRecv E (cs_if s) plen = (r, b, out, cl) \<Longrightarrow>
     conn_step s (s\<lparr>cs_if := b, cs_rx := cs_rx s \<or> r = 0\<rparr>)"
| close: "SimbricksBaseIfClose mems (cs_if s) = Some (b, mem, cl) \<Longrightarrow>
     conn_step s \<lparr>cs_if = b, cs_tx = False, cs_rx = False\<rparr>"

inductive conn_reachable :: "conn_sys \<Rightarrow> bool" where
  init: "SimbricksBaseIfInit ps = (r, b) \<Longrightarrow> conn_reachable \<lparr>cs_if = b, cs_tx = False, cs_rx = False\<rparr>"
| step: "conn_reachable s \<Longrightarrow> conn_step s t \<Longrightarrow> conn_reachable t"

definition conn_inv :: "conn_sys \<Rightarrow> bool" where
  "conn_inv s \<longleftrightarrow>
     (case conn_state (cs_if s) of
        kConnClosed \<Rightarrow> True
      | kConnListening \<Rightarrow> \<not> cs_tx s \<and> \<not> cs_rx s
      | kConnConnecting \<Rightarrow> \<not> cs_tx s \<and> \<not> cs_rx s
      | kConnAwaitHandshakeRxTx \<Rightarrow> \<not> cs_tx s \<and> \<not> cs_rx s
      | kConnAwaitHandshakeRx \<Rightarrow> cs_tx s \<and> \<not> cs_rx s
      | kConnAwaitHandshakeTx \<Rightarrow> \<not> cs_tx s \<and> cs_rx s
      | kConnOpen \<Rightarrow> cs_tx s \<and> cs_rx s)"

lemma Accept_cases:
  "AcceptOnBaseIf E b = (r, b', cl) \<Longrightarrow>
   conn_state b' \<in> {conn_state b, kConnAwaitHandshakeRxTx, kConnClosed}"
  by (auto simp: AcceptOnBaseIf_def split: sum.splits if_splits)

lemma Listen_cases:
  "SimbricksBaseIfListen E b pool = (r, b', pool', cl) \<Longrightarrow> conn_state b = kConnClosed \<Longrightarrow>
   conn_state b' \<in> {kConnClosed, kConnListening, kConnAwaitHandshakeRxTx}"
  by (auto simp: SimbricksBaseIfListen_def Let_def split: sum.splits if_splits prod.splits
      dest!: Accept_cases)

lemma Connect_cases:
  "SimbricksBaseIfConnect E b = (r, b', cl) \<Longrightarrow> conn_state b = kConnClosed \<Longrightarrow>
   conn_state b' \<in> {kConnClosed, kConnConnecting, kConnAwaitHandshakeRxTx}"
  by (auto simp: SimbricksBaseIfConnect_def Let_def split: sum.splits if_splits)

lemma Close_state:
  "SimbricksBaseIfClose mems b = Some (b', mem, cl) \<Longrightarrow> conn_state b' = kConnClosed"
  by (auto simp: SimbricksBaseIfClose_def Let_def split: if_splits option.splits)

lemma Connected_from:
  "SimbricksBaseIfConnected E b = (r, b', cl) \<Longrightarrow>
   conn_state b' = conn_state b \<or> conn_state b' = kConnClosed \<or>
   conn_state b' = kConnAwaitHandshakeRxTx \<and> conn_state b \<in> {kConnListening, kConnConnecting}"
  by (auto simp: SimbricksBaseIfConnected_def AcceptOnBaseIf_def conn_abort_def
      split: ConnState.splits sum.splits poll_result.splits if_splits)

lemma conn_step_inv: "conn_step s t \<Longrightarrow> conn_inv s \<Longrightarrow> conn_inv t"
proof (induction rule: conn_step.induct)
  case (listen s E pool r b pool' cl)
  then show ?case using Listen_cases [of E "cs_if s" pool r b pool' cl]
    by (auto simp: conn_inv_def split: ConnState.splits)
next
  case (connect s E r b cl)
  then show ?case using Connect_cases [of E "cs_if s" r b cl]
    by (auto simp: conn_inv_def split: ConnState.splits)
next
  case (connected E s r b cl)
  then show ?case using Connected_from [of E "cs_if s" r b cl]
    by (auto simp: conn_inv_def split: ConnState.splits)
next
  case (intro_send E s p r b)
  then show ?case using IntroSend_cases [of E "cs_if s" p r b]
    by (auto simp: conn_inv_def split: ConnState.splits)
next
  case (intro_recv E s plen r b out cl)
  then show ?case using IntroRecv_cases [of E "cs_if s" plen r b out cl]
    by (auto simp: conn_inv_def split: ConnState.splits)
next
  case (close mems s b mem cl)
  then show ?case using Close_state [of mems "cs_if s" b mem cl] by (simp add: conn_inv_def)
qed

lemma conn_reachable_inv: "conn_reachable s \<Longrightarrow> conn_inv s"
proof (induction rule: conn_reachable.induct)
  case (init ps r b)
  then show ?case by (auto simp: conn_inv_def SimbricksBaseIfInit_def)
qed (rule conn_step_inv)

text \<open>
  In every state that the calls of the interface can lead to, the connection is
  open exactly when it is not closed and both introductions have passed: the own one
  was sent in full and the peer's was received and accepted.
\<close>

theorem conn_open_iff:
  assumes "conn_reachable s" and "conn_state (cs_if s) \<noteq> kConnClosed"
  shows "conn_state (cs_if s) = kConnOpen \<longleftrightarrow> cs_tx s \<and> cs_rx s"
proof -
  from assms(1) have "conn_inv s" by (rule conn_reachable_inv)
  with assms(2) show ?thesis by (auto simp: conn_inv_def split: ConnState.splits)
qed

lemma conn_open_iff_witness:
  "\<exists>s. conn_reachable s \<and> conn_state (cs_if s) = kConnAwaitHandshakeRxTx \<and> \<not> (cs_tx s \<and> cs_rx s)"
proof -
  obtain r0 b0 where b0: "SimbricksBaseIfInit demo_params = (r0, b0)" by (metis surj_pair)
  obtain r b cl where b: "SimbricksBaseIfConnect demo_os b0 = (r, b, cl)" by (metis prod_cases3)
  have st: "conn_state b = kConnAwaitHandshakeRxTx" "conn_state b0 = kConnClosed"
    using b b0 by (auto simp: SimbricksBaseIfConnect_def SimbricksBaseIfInit_def demo_os_def demo_params_def
        set_nonblock_def Let_def)
  have re: "conn_reachable \<lparr>cs_if = b, cs_tx = False, cs_rx = False\<rparr>"
    by (rule conn_reachable.step [OF conn_reachable.init [OF b0]], rule conn_step.connect [OF _ _])
       (use b st in simp_all)
  show ?thesis using re st conn_open_iff [OF re] by auto
qed

section \<open>Queue layout, closing, and two defects\<close>

lemma unat_add_lt: "unat (a :: u64) + unat b < 2 ^ 64 \<Longrightarrow> unat (a + b) = unat a + unat b"
  by (simp add: unat_word_ariths)

lemma unat_mult_lt: "unat (a :: u64) * unat b < 2 ^ 64 \<Longrightarrow> unat (a * b) = unat a * unat b"
  by (simp add: unat_word_ariths)

text \<open>
  A successful \<open>SimbricksBaseIfListen\<close> carves the two queues out of the pool: the
  incoming queue starts at the old fill position, the outgoing queue directly behind
  its last slot, both end within the pool, and the pool's position moves behind them
  (as long as the sizes do not overflow the address space).
\<close>

theorem listen_layout:
  assumes ret: "SimbricksBaseIfListen E b pool = (0, b', pool', cl)"
    and ps: "ps = params b"
    and fits: "unat (pool_base pool) + unat (pool_pos pool)
      + unat (in_num_entries ps) * unat (in_entries_size ps)
      + unat (out_num_entries ps) * unat (out_entries_size ps) < 2 ^ 64"
  shows "unat (in_queue b') = unat (pool_base pool) + unat (pool_pos pool) \<and>
         unat (out_queue b') = unat (in_queue b') + unat (in_enum b') * unat (in_elen b') \<and>
         unat (out_queue b') + unat (out_enum b') * unat (out_elen b') =
           unat (pool_base pool) + unat (pool_pos pool') \<and>
         unat (pool_pos pool') \<le> unat (pool_size pool) \<and>
         in_enum b' = in_num_entries ps \<and> in_elen b' = in_entries_size ps \<and>
         out_enum b' = out_num_entries ps \<and> out_elen b' = out_entries_size ps \<and>
         in_pos b' = 0 \<and> out_pos b' = 0"
proof -
  define il where "il = in_num_entries ps * in_entries_size ps"
  define ol where "ol = out_num_entries ps * out_entries_size ps"
  have il: "unat il = unat (in_num_entries ps) * unat (in_entries_size ps)"
    unfolding il_def by (rule unat_mult_lt) (use fits in linarith)
  have ol: "unat ol = unat (out_num_entries ps) * unat (out_entries_size ps)"
    unfolding ol_def by (rule unat_mult_lt) (use fits in linarith)
  have sum: "unat (pool_base pool) + unat (pool_pos pool) + unat il + unat ol < 2 ^ 64"
    using fits il ol by simp
  have u1: "unat (pool_base pool + pool_pos pool) = unat (pool_base pool) + unat (pool_pos pool)"
    by (rule unat_add_lt) (use sum in linarith)
  have u2: "unat (pool_pos pool + il) = unat (pool_pos pool) + unat il"
    by (rule unat_add_lt) (use sum in linarith)
  have u3: "unat (pool_base pool + (pool_pos pool + il)) = unat (pool_base pool) + unat (pool_pos pool) + unat il"
    using unat_add_lt [of "pool_base pool" "pool_pos pool + il"] u2 sum by simp
  have u4: "unat (pool_pos pool + il + ol) = unat (pool_pos pool) + unat il + unat ol"
    using unat_add_lt [of "pool_pos pool + il" ol] u2 sum by simp
  have room: "\<not> pool_pos pool + il + ol > pool_size pool"
    using ret by (auto simp: SimbricksBaseIfListen_def Let_def il_def ol_def ps)
  obtain bl r cl' where acc: "AcceptOnBaseIf E bl = (r, b', cl')"
    and bl: "in_queue bl = pool_base pool + pool_pos pool" "out_queue bl = pool_base pool + (pool_pos pool + il)"
      "in_enum bl = in_num_entries ps" "in_elen bl = in_entries_size ps"
      "out_enum bl = out_num_entries ps" "out_elen bl = out_entries_size ps" "in_pos bl = 0" "out_pos bl = 0"
    and pl: "pool_pos pool' = pool_pos pool + il + ol"
    using ret by (auto simp: SimbricksBaseIfListen_def Let_def il_def ol_def ps split: sum.splits if_splits prod.splits)
  have keep: "in_queue b' = in_queue bl" "out_queue b' = out_queue bl" "in_enum b' = in_enum bl"
    "in_elen b' = in_elen bl" "out_enum b' = out_enum bl" "out_elen b' = out_elen bl"
    "in_pos b' = in_pos bl" "out_pos b' = out_pos bl"
    using acc by (auto simp: AcceptOnBaseIf_def split: sum.splits if_splits)
  show ?thesis
    using u1 u3 u4 il ol room by (simp add: keep bl pl not_less word_le_nat_alt)
qed

lemma listen_layout_witness:
  "\<exists>b' pool' cl. SimbricksBaseIfListen demo_os demo_if
       \<lparr>pool_path = None, pool_fd = 5, pool_base = 0x1000, pool_size = 512, pool_pos = 0\<rparr> = (0, b', pool', cl) \<and>
     unat (in_queue b') = 0x1000 \<and> unat (out_queue b') = 0x1100 \<and> unat (pool_pos pool') = 512"
proof -
  let ?pool = "\<lparr>pool_path = None, pool_fd = 5, pool_base = 0x1000, pool_size = 512, pool_pos = 0\<rparr>"
  obtain b' pool' cl where l: "SimbricksBaseIfListen demo_os demo_if ?pool = (0, b', pool', cl)"
    by (simp add: SimbricksBaseIfListen_def AcceptOnBaseIf_def set_nonblock_def demo_os_def demo_if_def demo_params_def Let_def)
  have "unat (in_queue b') = 0x1000" "unat (out_queue b') = 0x1100" "unat (pool_pos pool') = 512"
    using listen_layout [OF l refl] by (auto simp: demo_if_def demo_params_def)
  with l show ?thesis by blast
qed

text \<open>
  Closing an open interface when a slot is free publishes a termination message;
  the peer's next poll of that slot takes it (its timestamp is the wrapped sum
  \<open>UINT64_MAX + link_latency\<close>), marks the connection terminated, switches
  synchronisation off and moves both of the peer's time bounds to infinity.
\<close>

theorem close_terminates_peer:
  assumes "conn_state b = kConnOpen"
    and a: "a = out_queue b + out_pos b * out_elen b" and free: "\<not> bit (own_type (mem a)) 7"
    and peer: "in_queue c + in_pos c * in_elen c = a"
    and ts: "link_latency (params b) - 1 \<le> ts"
  shows "\<exists>b' mem' c'. SimbricksBaseIfClose [mem] b = Some (b', Some mem', [conn_fd b]) \<and>
           conn_state b' = kConnClosed \<and>
           SimbricksBaseIfInPoll c mem' ts = (c', Some a) \<and>
           in_terminated c' \<and> \<not> sync c' \<and> in_timestamp c' = UINT64_MAX \<and>
           SimbricksBaseIfOutNextSync c' = UINT64_MAX"
proof -
  have max: "UINT64_MAX + x = x - 1" for x :: u64 by simp
  show ?thesis
    using assms
    by (simp add: SimbricksBaseIfClose_def SimbricksBaseIfOutAlloc_def SimbricksBaseIfOutSend_def
        SimbricksBaseIfInPoll_def SimbricksBaseIfInPeek_def SimbricksBaseIfInType_def
        SimbricksBaseIfOutNextSync_def Let_def flag_simps max not_less)
qed

lemma close_terminates_peer_witness:
  "\<exists>b' mem' c'. SimbricksBaseIfClose [ch_mem demo_chan] demo_if = Some (b', Some mem', [3]) \<and>
     SimbricksBaseIfInPoll demo_if mem' 500000 = (c', Some 0x1000) \<and> in_terminated c'"
  using close_terminates_peer [of demo_if "0x1000" "ch_mem demo_chan" demo_if 500000]
  by (fastforce simp: demo_if_def demo_params_def demo_chan_def)

text \<open>
  \<open>SimbricksBaseIfSHMPoolMap\<close> never maps the file it opened: whenever the file can
  be opened, the descriptor that is mapped (and, on failure, closed) is descriptor 0.
\<close>

theorem pool_map_fd_zero:
  assumes "os_open E path = Inr d" and "d \<noteq> - 1"
    and "SimbricksBaseIfSHMPoolMap E pool path = (r, pool', cl)"
  shows "(r = 0 \<longrightarrow> pool_fd pool' = 0 \<and> os_mmap E 0 (pool_size pool') = Inr (pool_base pool')) \<and>
         set cl \<subseteq> {0}"
  using assms
  by (auto simp: SimbricksBaseIfSHMPoolMap_def SimbricksBaseIfSHMPoolMapFd_def Let_def
      split: sum.splits if_splits)

lemma pool_map_fd_zero_witness:
  "\<exists>pool'. SimbricksBaseIfSHMPoolMap demo_os \<lparr>pool_path = None, pool_fd = 9, pool_base = 0, pool_size = 0, pool_pos = 0\<rparr> ''x''
       = (0, pool', []) \<and> os_open demo_os ''x'' = Inr 5 \<and> pool_fd pool' = 0"
proof -
  let ?pool = "\<lparr>pool_path = None, pool_fd = 9, pool_base = 0, pool_size = 0, pool_pos = 0\<rparr>"
  obtain pool' where m: "SimbricksBaseIfSHMPoolMap demo_os ?pool ''x'' = (0, pool', [])"
    by (simp add: SimbricksBaseIfSHMPoolMap_def SimbricksBaseIfSHMPoolMapFd_def demo_os_def)
  have o: "os_open demo_os ''x'' = Inr 5" by (simp add: demo_os_def)
  from pool_map_fd_zero [OF o _ m] m o show ?thesis by auto
qed

text \<open>
  Waiting for two interfaces of which the first is connected already and the
  second becomes connected at once reads an uninitialised poll entry.
\<close>

theorem conns_wait_uninitialised:
  assumes "conn_state b0 \<in> {kConnAwaitHandshakeRxTx, kConnAwaitHandshakeRx, kConnAwaitHandshakeTx, kConnOpen}"
    and "conn_state b1 \<in> {kConnListening, kConnConnecting}"
    and "PN 0 = Some revs" and "\<not> poll_error (revs 0)"
    and "SimbricksBaseIfConnected (EN 0 0) b1 = (0, b1', cl)"
  shows "SimbricksBaseIfConnsWait EN PN 0 (Suc fuel) [b0, b1] = (WaitUndef, [b0, b1'])"
  using assms by (auto simp: upt_rec)

lemma conns_wait_uninitialised_witness:
  "\<exists>bs. SimbricksBaseIfConnsWait (\<lambda>_ _. demo_os) (\<lambda>_. Some (\<lambda>_. 1)) 0 (Suc 0)
     [demo_if, demo_if\<lparr>conn_state := kConnListening\<rparr>] = (WaitUndef, bs)"
proof -
  let ?b = "demo_if\<lparr>conn_state := kConnListening\<rparr>"
  obtain b' cl where c: "SimbricksBaseIfConnected demo_os ?b = (0, b', cl)"
    by (simp add: SimbricksBaseIfConnected_def AcceptOnBaseIf_def demo_os_def)
  have "SimbricksBaseIfConnsWait (\<lambda>_ _. demo_os) (\<lambda>_. Some (\<lambda>_. 1)) 0 (Suc 0) [demo_if, ?b] = (WaitUndef, [demo_if, b'])"
    by (rule conns_wait_uninitialised [where revs = "\<lambda>_. 1" and cl = cl]) (use c in \<open>simp_all add: demo_if_def poll_error_def\<close>)
  then show ?thesis by blast
qed

end
