(* ===== verification/Simbricks_Nic.thy ===== *)
theory Simbricks_Nic
  imports Simbricks_Conn
begin

text \<open>
  The upper layers of the SimBricks library that the device models use: the network
  and PCIe protocols (network/proto.h, pcie/proto.h), their interfaces (network/if.c,
  pcie/if.c) and the NIC interface that bundles one of each (nicif/nicif.c, nicif.h).
\<close>

section \<open>Messages of the PCIe and network protocols\<close>

text \<open>
  Each message is laid out in a 64-byte header slot: its fields from offset 0, padding
  up to byte 48, then the base header's timestamp and type. \<open>data\<close> follows the
  header. The message types are the constants of the two headers.
\<close>

datatype SimbricksProtoPcieD2H =
    D2H_READ (req_id: u64) (offset: u64) (len: u16)
  | D2H_WRITE (req_id: u64) (offset: u64) (len: u16) (data: "u8 list")
  | D2H_INTERRUPT (vector: u16) (inttype: u8)
  | D2H_READCOMP (req_id: u64) (data: "u8 list")
  | D2H_WRITECOMP (req_id: u64)

datatype SimbricksProtoPcieH2D =
    H2D_READ u64 u64 u16 u8
  | H2D_WRITE u64 u64 u16 u8 "u8 list"
  | H2D_READCOMP u64 "u8 list"
  | H2D_WRITECOMP u64
  | H2D_DEVCTRL u64

definition zpad :: "nat \<Rightarrow> u8 list" where "zpad n = replicate n 0"

fun encode_D2H :: "SimbricksProtoPcieD2H \<Rightarrow> u8 \<times> u8 list" where
  "encode_D2H (D2H_READ r o' l) = (0x40, le_bytes 8 r @ le_bytes 8 o' @ le_bytes 2 l @ zpad 30)"
| "encode_D2H (D2H_WRITE r o' l d) = (0x41, le_bytes 8 r @ le_bytes 8 o' @ le_bytes 2 l @ zpad 30 @ d)"
| "encode_D2H (D2H_INTERRUPT v t) = (0x42, le_bytes 2 v @ le_bytes 1 t @ zpad 45)"
| "encode_D2H (D2H_READCOMP r d) = (0x43, le_bytes 8 r @ zpad 40 @ d)"
| "encode_D2H (D2H_WRITECOMP r) = (0x44, le_bytes 8 r @ zpad 40)"

definition decode_D2H :: "u8 \<times> u8 list \<Rightarrow> SimbricksProtoPcieD2H option" where
  "decode_D2H m =
     (case m of (ty, b) \<Rightarrow>
        if ty = 0x40 then Some (D2H_READ (le_field 0 8 b) (le_field 8 8 b) (le_field 16 2 b))
        else if ty = 0x41 then
          Some (D2H_WRITE (le_field 0 8 b) (le_field 8 8 b) (le_field 16 2 b) (drop 48 b))
        else if ty = 0x42 then Some (D2H_INTERRUPT (le_field 0 2 b) (le_field 2 1 b))
        else if ty = 0x43 then Some (D2H_READCOMP (le_field 0 8 b) (drop 48 b))
        else if ty = 0x44 then Some (D2H_WRITECOMP (le_field 0 8 b))
        else None)"

fun encode_H2D :: "SimbricksProtoPcieH2D \<Rightarrow> u8 \<times> u8 list" where
  "encode_H2D (H2D_READ r o' l bar) =
     (0x60, le_bytes 8 r @ le_bytes 8 o' @ le_bytes 2 l @ le_bytes 1 bar @ zpad 29)"
| "encode_H2D (H2D_WRITE r o' l bar d) =
     (0x61, le_bytes 8 r @ le_bytes 8 o' @ le_bytes 2 l @ le_bytes 1 bar @ zpad 29 @ d)"
| "encode_H2D (H2D_READCOMP r d) = (0x62, le_bytes 8 r @ zpad 40 @ d)"
| "encode_H2D (H2D_WRITECOMP r) = (0x63, le_bytes 8 r @ zpad 40)"
| "encode_H2D (H2D_DEVCTRL f) = (0x64, le_bytes 8 f @ zpad 40)"

definition decode_H2D :: "u8 \<times> u8 list \<Rightarrow> SimbricksProtoPcieH2D option" where
  "decode_H2D m =
     (case m of (ty, b) \<Rightarrow>
        if ty = 0x60 then
          Some (H2D_READ (le_field 0 8 b) (le_field 8 8 b) (le_field 16 2 b) (le_field 18 1 b))
        else if ty = 0x61 then
          Some (H2D_WRITE (le_field 0 8 b) (le_field 8 8 b) (le_field 16 2 b) (le_field 18 1 b) (drop 48 b))
        else if ty = 0x62 then Some (H2D_READCOMP (le_field 0 8 b) (drop 48 b))
        else if ty = 0x63 then Some (H2D_WRITECOMP (le_field 0 8 b))
        else if ty = 0x64 then Some (H2D_DEVCTRL (le_field 0 8 b))
        else None)"

record SimbricksProtoNetMsgPacket =
  pkt_len :: u16
  pkt_port :: u8
  pkt_data :: "u8 list"

definition encode_packet :: "SimbricksProtoNetMsgPacket \<Rightarrow> u8 \<times> u8 list" where
  "encode_packet p = (0x40, le_bytes 2 (pkt_len p) @ le_bytes 1 (pkt_port p) @ zpad 45 @ pkt_data p)"

definition decode_packet :: "u8 \<times> u8 list \<Rightarrow> SimbricksProtoNetMsgPacket option" where
  "decode_packet m =
     (case m of (ty, b) \<Rightarrow>
        if ty = 0x40 then Some \<lparr>pkt_len = le_field 0 2 b, pkt_port = le_field 2 1 b, pkt_data = drop 48 b\<rparr>
        else None)"

text \<open>The device's introduction: six BARs, the PCI identity and the MSI-X layout.\<close>

record SimbricksProtoPcieDevIntro =
  bars :: "(u64 \<times> u64) list"
  pci_vendor_id :: u16
  pci_device_id :: u16
  pci_class :: u8
  pci_subclass :: u8
  pci_revision :: u8
  pci_progif :: u8
  pci_msi_nvecs :: u8
  pci_msix_nvecs :: u16
  pci_msix_table_bar :: u8
  pci_msix_pba_bar :: u8
  pci_msix_table_offset :: u32
  pci_msix_pba_offset :: u32
  psi_msix_cap_offset :: u16

definition encode_dev_intro :: "SimbricksProtoPcieDevIntro \<Rightarrow> u8 list" where
  "encode_dev_intro d =
     concat (map (\<lambda>(l, f). le_bytes 8 l @ le_bytes 8 f) (bars d)) @
     le_bytes 2 (pci_vendor_id d) @ le_bytes 2 (pci_device_id d) @ le_bytes 1 (pci_class d) @
     le_bytes 1 (pci_subclass d) @ le_bytes 1 (pci_revision d) @ le_bytes 1 (pci_progif d) @
     le_bytes 1 (pci_msi_nvecs d) @ le_bytes 2 (pci_msix_nvecs d) @ le_bytes 1 (pci_msix_table_bar d) @
     le_bytes 1 (pci_msix_pba_bar d) @ le_bytes 4 (pci_msix_table_offset d) @
     le_bytes 4 (pci_msix_pba_offset d) @ le_bytes 2 (psi_msix_cap_offset d)"

section \<open>Network and PCIe interfaces\<close>

definition SimbricksNetIfDefaultParams :: SimbricksBaseIfParams where
  "SimbricksNetIfDefaultParams =
     SimbricksBaseIfDefaultParams\<lparr>in_entries_size := 1536 + 64, out_entries_size := 1536 + 64,
       upper_layer_proto := SIMBRICKS_PROTO_ID_NET\<rparr>"

definition SimbricksPcieIfDefaultParams :: SimbricksBaseIfParams where
  "SimbricksPcieIfDefaultParams =
     SimbricksBaseIfDefaultParams\<lparr>upper_layer_proto := SIMBRICKS_PROTO_ID_PCIE,
       in_entries_size := 9024 + 64, out_entries_size := 9024 + 64\<rparr>"

text \<open>
  Connecting a network interface. \<open>E\<close> answers the calls of the connection attempt
  and of the two handshake messages, \<open>EN\<close> and \<open>PN\<close> those of the wait loop, and
  \<open>polled\<close> says whether the poll for the introduction returned one event. The
  result is the return code, the interface and the new value of \<open>sync_eth\<close>; running
  out of fuel or undefined behaviour in the wait loop is \<open>None\<close>.
\<close>

definition SimbricksNetIfInit ::
  "osenv \<Rightarrow> (nat \<Rightarrow> nat \<Rightarrow> osenv) \<Rightarrow> (nat \<Rightarrow> (nat \<Rightarrow> u16) option) \<Rightarrow> bool \<Rightarrow> nat
     \<Rightarrow> SimbricksBaseIfParams \<Rightarrow> string \<Rightarrow> bool option
     \<Rightarrow> (int \<times> SimbricksBaseIf \<times> bool option) option" where
  "SimbricksNetIfInit E EN PN polled fuel ps eth_socket_path sync_eth =
     (let ps = ps\<lparr>sync_mode := (if sync_eth = Some True then kSimbricksBaseIfSyncOptional
                               else kSimbricksBaseIfSyncDisabled),
                   sock_path := Some eth_socket_path\<rparr>;
          bif = snd (SimbricksBaseIfInit ps)
      in case SimbricksBaseIfConnect E bif of
        (r, bif, cl) \<Rightarrow>
          if r \<noteq> 0 then Some (- 1, bif, sync_eth)
          else case SimbricksBaseIfConnsWait EN PN 0 fuel [bif] of
            (WaitRet w, [bif]) \<Rightarrow>
              if w \<noteq> 0 then Some (- 1, bif, sync_eth)
              else (case SimbricksBaseIfIntroSend E bif (zpad 4) of
                (s, bif) \<Rightarrow>
                  if s \<noteq> 0 then Some (- 1, bif, sync_eth)
                  else if \<not> polled then Some (- 1, bif, sync_eth)
                  else (case SimbricksBaseIfIntroRecv E bif 4 of
                    (v, bif, out, cl') \<Rightarrow>
                      if v \<noteq> 0 then Some (- 1, bif, sync_eth)
                      else Some (0, bif, map_option (\<lambda>_. SimbricksBaseIfSyncEnabled bif) sync_eth)))
          | _ \<Rightarrow> None)"

section \<open>The NIC interface\<close>

record SimbricksNicIf =
  nic_pool :: SimbricksBaseIfSHMPool
  nic_net :: SimbricksBaseIf
  nic_pcie :: SimbricksBaseIf

definition nic_shm_size :: "SimbricksBaseIfParams option \<Rightarrow> SimbricksBaseIfParams option \<Rightarrow> u64" where
  "nic_shm_size netParams pcieParams =
     (let sz = (\<lambda>p. case p of None \<Rightarrow> 0 | Some ps \<Rightarrow>
                  in_num_entries ps * in_entries_size ps + out_num_entries ps * out_entries_size ps)
      in sz netParams + sz pcieParams)"

text \<open>
  One optional interface of the bundle: initialise it, listen, and prepare its entry
  for the establishment. \<open>Inl\<close> is the early return of -1.
\<close>

definition nic_listen ::
  "osenv \<Rightarrow> SimbricksBaseIfParams option \<Rightarrow> u8 list \<Rightarrow> SimbricksBaseIfSHMPool
     \<Rightarrow> (SimbricksBaseIfSHMPool + SimbricksBaseIfSHMPool \<times> SimBricksBaseIfEstablishData list)" where
  "nic_listen E ps intro pool =
     (case ps of
        None \<Rightarrow> Inr (pool, [])
      | Some ps \<Rightarrow>
          (case SimbricksBaseIfListen E (snd (SimbricksBaseIfInit ps)) pool of
             (r, bif, pool, cl) \<Rightarrow>
               if r \<noteq> 0 then Inl pool
               else Inr (pool, [\<lparr>est_if = bif, tx_intro = intro, rx_intro = zpad 4, rx_intro_len = 4\<rparr>])))"

definition SimbricksNicIfInit ::
  "osenv \<Rightarrow> (nat \<Rightarrow> nat \<Rightarrow> osenv) \<Rightarrow> (nat \<Rightarrow> bool) \<Rightarrow> nat \<Rightarrow> SimbricksBaseIfSHMPool \<Rightarrow> string
     \<Rightarrow> SimbricksBaseIfParams option \<Rightarrow> SimbricksBaseIfParams option \<Rightarrow> SimbricksProtoPcieDevIntro
     \<Rightarrow> est_result \<times> SimbricksBaseIfSHMPool \<times> SimBricksBaseIfEstablishData list" where
  "SimbricksNicIfInit E EN PN fuel pool shm_path netParams pcieParams di =
     (case SimbricksBaseIfSHMPoolCreate E pool shm_path (nic_shm_size netParams pcieParams) of
        (r, pool, cl) \<Rightarrow>
          if r \<noteq> 0 then (EstRet (- 1), pool, [])
          else case nic_listen E netParams (zpad 4) pool of
            Inl pool \<Rightarrow> (EstRet (- 1), pool, [])
          | Inr (pool, net) \<Rightarrow>
              (case nic_listen E pcieParams (encode_dev_intro di) pool of
                 Inl pool \<Rightarrow> (EstRet (- 1), pool, net)
               | Inr (pool, pcie) \<Rightarrow>
                   (case SimBricksBaseIfEstablish EN PN fuel (net @ pcie) of
                      (res, ifs) \<Rightarrow> (res, pool, ifs))))"

definition SimbricksNicIfCleanup ::
  "shmem list \<Rightarrow> shmem list \<Rightarrow> SimbricksNicIf \<Rightarrow> (int \<times> SimbricksNicIf) option" where
  "SimbricksNicIfCleanup mp mn nicif =
     (case SimbricksBaseIfClose mp (nic_pcie nicif) of
        None \<Rightarrow> None
      | Some (p, _, _) \<Rightarrow>
          (case SimbricksBaseIfClose mn (nic_net nicif) of
             None \<Rightarrow> None
           | Some (n, _, _) \<Rightarrow> Some (- 1, nicif\<lparr>nic_pcie := p, nic_net := n\<rparr>)))"

text \<open>
  \<open>&&\<close> stops at the network interface when it cannot send: the PCIe interface is
  then left alone.
\<close>

definition SimbricksNicIfSync ::
  "SimbricksNicIf \<Rightarrow> shmem \<Rightarrow> u64 \<Rightarrow> int \<times> SimbricksNicIf \<times> shmem" where
  "SimbricksNicIfSync nicif mem cur_ts =
     (case SimbricksBaseIfOutSync (nic_net nicif) mem cur_ts of
        (r, n, mem) \<Rightarrow>
          let nicif = nicif\<lparr>nic_net := n\<rparr> in
          if r \<noteq> 0 then (- 1, nicif, mem)
          else case SimbricksBaseIfOutSync (nic_pcie nicif) mem cur_ts of
                 (r, p, mem) \<Rightarrow> (if r = 0 then 0 else - 1, nicif\<lparr>nic_pcie := p\<rparr>, mem))"

definition SimbricksNicIfNextTimestamp :: "SimbricksNicIf \<Rightarrow> u64" where
  "SimbricksNicIfNextTimestamp nicif =
     (let net_in = SimbricksBaseIfInTimestamp (nic_net nicif);
          net_out = SimbricksBaseIfOutNextSync (nic_net nicif);
          net = (if net_in \<le> net_out then net_in else net_out);
          pcie_in = SimbricksBaseIfInTimestamp (nic_pcie nicif);
          pcie_out = SimbricksBaseIfOutNextSync (nic_pcie nicif);
          pcie = (if pcie_in \<le> pcie_out then pcie_in else pcie_out)
      in if net < pcie then net else pcie)"

section \<open>Properties\<close>

lemma le_field_here:
  fixes w :: "'a::len word"
  shows "LENGTH('a) \<le> 8 * n \<Longrightarrow> le_field 0 n (le_bytes n w @ bs) = w"
  by (simp add: le_field_def le_word_le_bytes)

lemma le_field_next:
  "k \<le> off \<Longrightarrow> le_field off n (le_bytes k w @ bs) = le_field (off - k) n bs"
  by (simp add: le_field_def)

lemma length_zpad [simp]: "length (zpad n) = n"
  by (simp add: zpad_def)

lemma drop_le_bytes [simp]: "k \<le> m \<Longrightarrow> drop m (le_bytes k w @ bs) = drop (m - k) bs"
  by simp

lemmas msg_layout = le_field_here le_field_next decode_D2H_def decode_H2D_def decode_packet_def
  encode_packet_def

lemma decode_encode_D2H: "decode_D2H (encode_D2H m) = Some m"
  by (cases m) (simp_all add: msg_layout)

lemma decode_encode_H2D: "decode_H2D (encode_H2D m) = Some m"
  by (cases m) (simp_all add: msg_layout)

lemma decode_encode_packet: "decode_packet (encode_packet p) = Some p"
  by (cases p) (simp add: msg_layout)

lemma encode_D2H_type: "fst (encode_D2H m) AND NOT SIMBRICKS_PROTO_MSG_OWN_MASK = fst (encode_D2H m)"
  by (cases m) simp_all

text \<open>
  The PCIe and network message layouts are faithful: every message is read back
  from its slot as it was written, whichever kind it is, data included.
\<close>

theorem upper_layer_roundtrip:
  "decode_D2H (encode_D2H m) = Some m \<and> decode_H2D (encode_H2D h) = Some h \<and>
   decode_packet (encode_packet p) = Some p"
  by (simp add: decode_encode_D2H decode_encode_H2D decode_encode_packet)



text \<open>
  The scheduler's next timestamp is early enough and not too early: it is a lower
  bound of all four deadlines, and before it \<open>SimbricksNicIfSync\<close> has nothing to send:
  it returns 0 and changes neither interface nor memory.
\<close>

theorem nic_next_timestamp:
  assumes "\<And>b. b \<in> {nic_net n, nic_pcie n} \<Longrightarrow>
      0 < out_timestamp b \<and> out_timestamp b \<le> ts \<and>
      unat (out_timestamp b) + unat (sync_interval (params b)) < 2 ^ 64"
    and "ts < SimbricksNicIfNextTimestamp n"
  shows "SimbricksNicIfSync n mem ts = (0, n, mem) \<and>
     (\<forall>b \<in> {nic_net n, nic_pcie n}. SimbricksNicIfNextTimestamp n \<le> SimbricksBaseIfInTimestamp b \<and>
        SimbricksNicIfNextTimestamp n \<le> SimbricksBaseIfOutNextSync b)"
proof -
  have lb: "SimbricksNicIfNextTimestamp n \<le> SimbricksBaseIfInTimestamp b \<and>
        SimbricksNicIfNextTimestamp n \<le> SimbricksBaseIfOutNextSync b" if "b \<in> {nic_net n, nic_pcie n}" for b
    using that by (auto simp: SimbricksNicIfNextTimestamp_def Let_def)
  have idle: "SimbricksBaseIfOutSync b mem ts = (0, b, mem)" if b: "b \<in> {nic_net n, nic_pcie n}" for b
  proof -
    have o: "0 < out_timestamp b" "out_timestamp b \<le> ts"
      "unat (out_timestamp b) + unat (sync_interval (params b)) < 2 ^ 64"
      using assms(1) [OF b] by auto
    have "ts < SimbricksBaseIfOutNextSync b" using lb [OF b] assms(2) by (simp add: less_le_trans)
    moreover have "out_timestamp b \<noteq> UINT64_MAX \<or> sync_interval (params b) = 0"
      using o(3) by (auto simp: unat_eq_zero intro: ccontr)
    ultimately have "ts < out_timestamp b + sync_interval (params b) \<or> ts < out_timestamp b"
      by (auto simp: SimbricksBaseIfOutNextSync_def split: if_splits)
    then have "unat ts < unat (out_timestamp b) + unat (sync_interval (params b))"
      using o unat_add_lt [of "out_timestamp b" "sync_interval (params b)"] by (auto simp: word_less_nat_alt)
    then have "ts - out_timestamp b < sync_interval (params b)"
      using o(2) by (auto simp: word_less_nat_alt unat_sub word_le_nat_alt)
    then show ?thesis using o by (simp add: SimbricksBaseIfOutSync_def)
  qed
  show ?thesis using idle lb by (simp add: SimbricksNicIfSync_def)
qed

lemma nic_next_timestamp_witness:
  "let b = demo_if\<lparr>out_timestamp := 1000, in_timestamp := 600000, sync := True\<rparr>;
       n = \<lparr>nic_pool = \<lparr>pool_path = None, pool_fd = 5, pool_base = 0, pool_size = 0, pool_pos = 0\<rparr>,
            nic_net = b, nic_pcie = b\<rparr>
   in SimbricksNicIfSync n (ch_mem demo_chan) 500000 = (0, n, ch_mem demo_chan)"
proof -
  let ?b = "demo_if\<lparr>out_timestamp := 1000, in_timestamp := 600000, sync := True\<rparr>"
  let ?n = "\<lparr>nic_pool = \<lparr>pool_path = None, pool_fd = 5, pool_base = 0, pool_size = 0, pool_pos = 0\<rparr>,
            nic_net = ?b, nic_pcie = ?b\<rparr>"
  have "SimbricksNicIfSync ?n (ch_mem demo_chan) 500000 = (0, ?n, ch_mem demo_chan)"
    by (rule nic_next_timestamp [THEN conjunct1])
       (auto simp: SimbricksNicIfNextTimestamp_def SimbricksBaseIfOutNextSync_def
          SimbricksBaseIfInTimestamp_def demo_if_def demo_params_def Let_def)
  then show ?thesis by (simp add: Let_def)
qed

text \<open>
  \<open>SimbricksNicIfInit\<close> sizes the pool exactly: after the pool has been created,
  listening on the network and then on the PCIe interface succeeds without running out
  of pool memory, the four queues lie one behind the other and fill the pool, so no two
  of them overlap.
\<close>

theorem nic_pool_layout:
  assumes create: "SimbricksBaseIfSHMPoolCreate E pool path (nic_shm_size (Some np) (Some pp)) = (0, pool0, cl)"
    and net: "nic_listen E (Some np) i pool0 = Inr (pool1, [en])"
    and pcie: "nic_listen E (Some pp) j pool1 = Inr (pool2, [ep])"
    and fits: "unat (pool_base pool0)
      + unat (in_num_entries np) * unat (in_entries_size np) + unat (out_num_entries np) * unat (out_entries_size np)
      + (unat (in_num_entries pp) * unat (in_entries_size pp) + unat (out_num_entries pp) * unat (out_entries_size pp)) < 2 ^ 64"
  shows "let n = est_if en; p = est_if ep in
     unat (in_queue n) = unat (pool_base pool0) \<and>
     unat (out_queue n) = unat (in_queue n) + unat (in_enum n) * unat (in_elen n) \<and>
     unat (in_queue p) = unat (out_queue n) + unat (out_enum n) * unat (out_elen n) \<and>
     unat (out_queue p) = unat (in_queue p) + unat (in_enum p) * unat (in_elen p) \<and>
     unat (out_queue p) + unat (out_enum p) * unat (out_elen p) = unat (pool_base pool0) + unat (pool_size pool0) \<and>
     pool_pos pool2 = pool_size pool0"
proof -
  have p0: "pool_pos pool0 = 0" "pool_size pool0 = nic_shm_size (Some np) (Some pp)"
    using create by (auto simp: SimbricksBaseIfSHMPoolCreate_def Let_def split: sum.splits if_splits)
  obtain cl1 where l1: "SimbricksBaseIfListen E (snd (SimbricksBaseIfInit np)) pool0 = (0, est_if en, pool1, cl1)"
    using net by (auto simp: nic_listen_def split: prod.splits if_splits)
  obtain cl2 where l2: "SimbricksBaseIfListen E (snd (SimbricksBaseIfInit pp)) pool1 = (0, est_if ep, pool2, cl2)"
    using pcie by (auto simp: nic_listen_def split: prod.splits if_splits)
  have pb: "pool_base pool1 = pool_base pool0"
    "pool_pos pool1 = pool_pos pool0 + in_num_entries np * in_entries_size np + out_num_entries np * out_entries_size np"
    using l1 by (auto simp: SimbricksBaseIfListen_def SimbricksBaseIfInit_def Let_def split: sum.splits if_splits prod.splits)
  have pb2: "pool_pos pool2 = pool_pos pool1 + in_num_entries pp * in_entries_size pp + out_num_entries pp * out_entries_size pp"
    using l2 by (auto simp: SimbricksBaseIfListen_def SimbricksBaseIfInit_def Let_def split: sum.splits if_splits prod.splits)
  have pars: "params (snd (SimbricksBaseIfInit x)) = x" for x by (simp add: SimbricksBaseIfInit_def)
  have N: "unat (pool_pos pool1) = unat (in_num_entries np) * unat (in_entries_size np)
      + unat (out_num_entries np) * unat (out_entries_size np)"
    using listen_layout [OF l1 refl, unfolded pars] fits p0 by auto
  note L1 = listen_layout [OF l1 refl, unfolded pars]
  note L2 = listen_layout [OF l2 refl, unfolded pars pb(1)]
  have sz: "pool_pos pool2 = pool_size pool0"
    using pb2 pb(2) p0 by (simp add: nic_shm_size_def Let_def)
  show ?thesis
    unfolding Let_def using L1 L2 N sz p0 fits by auto
qed

lemma nic_pool_layout_witness:
  "\<exists>pool0 pool1 pool2 en ep cl.
     SimbricksBaseIfSHMPoolCreate demo_os
       \<lparr>pool_path = None, pool_fd = 0, pool_base = 0, pool_size = 0, pool_pos = 0\<rparr> ''shm''
       (nic_shm_size (Some demo_params) (Some demo_params)) = (0, pool0, cl) \<and>
     nic_listen demo_os (Some demo_params) [] pool0 = Inr (pool1, [en]) \<and>
     nic_listen demo_os (Some demo_params) [] pool1 = Inr (pool2, [ep]) \<and>
     pool_pos pool2 = pool_size pool0"
proof -
  let ?pool = "\<lparr>pool_path = None, pool_fd = 0, pool_base = 0, pool_size = 0, pool_pos = 0\<rparr>"
  obtain pool0 cl where c: "SimbricksBaseIfSHMPoolCreate demo_os ?pool ''shm''
      (nic_shm_size (Some demo_params) (Some demo_params)) = (0, pool0, cl)"
    and p0: "pool_base pool0 = 0x7000" "pool_size pool0 = 1024" "pool_pos pool0 = 0"
    by (simp add: SimbricksBaseIfSHMPoolCreate_def demo_os_def nic_shm_size_def demo_params_def)
  obtain pool1 en where n: "nic_listen demo_os (Some demo_params) [] pool0 = Inr (pool1, [en])"
    and p1: "pool_base pool1 = 0x7000" "pool_size pool1 = 1024" "pool_pos pool1 = 512"
    using p0 by (simp add: nic_listen_def SimbricksBaseIfListen_def SimbricksBaseIfInit_def AcceptOnBaseIf_def
        set_nonblock_def demo_os_def demo_params_def Let_def)
  obtain pool2 ep where p: "nic_listen demo_os (Some demo_params) [] pool1 = Inr (pool2, [ep])"
    using p1 by (simp add: nic_listen_def SimbricksBaseIfListen_def SimbricksBaseIfInit_def AcceptOnBaseIf_def
        set_nonblock_def demo_os_def demo_params_def Let_def)
  have "pool_pos pool2 = pool_size pool0"
    using nic_pool_layout [OF c n p] p0 by (simp add: demo_params_def Let_def)
  with c n p show ?thesis by blast
qed

end
