(* ===== verification/Nicbm_Runner.thy ===== *)
theory Nicbm_Runner
  imports Simbricks_Nic
begin

text \<open>
  The runner of a stand-alone NIC simulator (\<open>Runner\<close> in \<open>nicbm.cc\<close>): it polls the
  PCIe and network channels, forwards messages to the device model, keeps the
  DMA operations of the device within a limit, delivers timed events and advances
  the simulated time.

  The channels are at the level of messages (\<open>Simbricks_Channel\<close> shows that they are
  FIFOs): a poll finds a message or none, and \<open>D2HAlloc\<close> and \<open>D2NAlloc\<close> wait, without
  other effect, until the peer has freed a slot.  A slot is
  taken when a message is allocated, so an answer that is allocated before the
  device runs stands before the messages the device sends.  The device
  model is a parameter: what it answers to a call, and the operations of the runner it invokes, in order.
\<close>

section \<open>State\<close>

record DMAOp =
  op_id :: u64  \<comment> \<open>the address of the operation, sent as \<open>req_id\<close>\<close>
  op_write :: bool
  op_dma_addr :: u64
  op_len :: nat
  op_data :: "u8 list"

record TimedEvent =
  ev_id :: nat
  ev_time :: u64
  ev_priority :: int

datatype request =
    Req_IssueDma DMAOp | Req_MsiIssue u8 | Req_MsiXIssue u8 | Req_IntXIssue bool | Req_EthSend "u8 list"
  | Req_EventSchedule TimedEvent | Req_EventCancel TimedEvent

text \<open>The virtual functions of \<open>Runner::Device\<close>; the first argument is \<open>TimePs()\<close>.\<close>

record 'd Device =
  dev_RegRead :: "u64 \<Rightarrow> u8 \<Rightarrow> u64 \<Rightarrow> nat \<Rightarrow> 'd \<Rightarrow> u8 list \<times> request list \<times> 'd"
  dev_RegWrite :: "u64 \<Rightarrow> u8 \<Rightarrow> u64 \<Rightarrow> u8 list \<Rightarrow> 'd \<Rightarrow> request list \<times> 'd"
  dev_DmaComplete :: "u64 \<Rightarrow> DMAOp \<Rightarrow> 'd \<Rightarrow> request list \<times> 'd"
  dev_EthRx :: "u64 \<Rightarrow> u8 \<Rightarrow> u8 list \<Rightarrow> 'd \<Rightarrow> request list \<times> 'd"
  dev_Timed :: "u64 \<Rightarrow> TimedEvent \<Rightarrow> 'd \<Rightarrow> request list \<times> 'd"

text \<open>
  Besides the members of the class: the operations the device has issued and the
  runner has not completed, the messages sent, and histories of the operations issued, of
  the completions and of the events delivered with their times.
\<close>

record 'd runner =
  main_time :: u64
  events :: "TimedEvent list"
  dma_queue :: "DMAOp list"
  dma_pending :: u64
  terminated :: bool
  out_msg_len :: nat
  dev :: 'd
  int_en :: "bool \<times> bool \<times> bool"
  live_ops :: "u64 \<Rightarrow> DMAOp option"
  d2h_out :: "SimbricksProtoPcieD2H list"
  d2n_out :: "SimbricksProtoNetMsgPacket list"
  issued :: "DMAOp list"
  completed :: nat
  delivered :: "(TimedEvent \<times> u64) list"

definition DMA_MAX_PENDING :: u64 where "DMA_MAX_PENDING = 64"

section \<open>Operations that the device invokes\<close>

text \<open>\<open>D2HAlloc\<close> ends the process when the peer is gone; the message is given when it is sent.\<close>

definition d2h_send :: "SimbricksProtoPcieD2H \<Rightarrow> 'd runner \<Rightarrow> 'd runner res" where
  "d2h_send msg s = (if terminated s then Abort else Ok (s\<lparr>d2h_out := d2h_out s @ [msg]\<rparr>))"

definition dma_msg :: "DMAOp \<Rightarrow> SimbricksProtoPcieD2H" where
  "dma_msg op = (if op_write op then D2H_WRITE (op_id op) (op_dma_addr op) (of_nat (op_len op)) (take (op_len op) (op_data op))
     else D2H_READ (op_id op) (op_dma_addr op) (of_nat (op_len op)))"

definition DmaDo :: "DMAOp \<Rightarrow> 'd runner \<Rightarrow> 'd runner res" where
  "DmaDo op s = (if terminated s then Ok s else
     if out_msg_len s < 64 + op_len op then Abort
     else d2h_send (dma_msg op) (s\<lparr>dma_pending := dma_pending s + 1\<rparr>))"

definition issue_dma :: "DMAOp \<Rightarrow> 'd runner \<Rightarrow> 'd runner res" where
  "issue_dma op s = (let s = s\<lparr>live_ops := (live_ops s)(op_id op \<mapsto> op), issued := issued s @ [op]\<rparr> in
     if dma_pending s < DMA_MAX_PENDING then DmaDo op s else Ok (s\<lparr>dma_queue := dma_queue s @ [op]\<rparr>))"

definition DmaTrigger :: "'d runner \<Rightarrow> 'd runner res" where
  "DmaTrigger s = (case dma_queue s of
     [] \<Rightarrow> Ok s
   | op # ops \<Rightarrow> if dma_pending s = DMA_MAX_PENDING then Ok s else DmaDo op (s\<lparr>dma_queue := ops\<rparr>))"

definition interrupt :: "u16 \<Rightarrow> u8 \<Rightarrow> 'd runner \<Rightarrow> 'd runner res" where
  "interrupt vec ty s = (if terminated s then Ok s else d2h_send (D2H_INTERRUPT vec ty) s)"

definition eth_send :: "u8 list \<Rightarrow> 'd runner \<Rightarrow> 'd runner res" where
  "eth_send d s = Ok (s\<lparr>d2n_out := d2n_out s @ [\<lparr>pkt_len = of_nat (length d), pkt_port = 0, pkt_data = d\<rparr>]\<rparr>)"

text \<open>\<open>EventCmp\<close>; the multiset keeps equivalent events in the order of insertion, and erasing a key erases all equivalent ones.\<close>

definition event_before :: "TimedEvent \<Rightarrow> TimedEvent \<Rightarrow> bool" where
  "event_before a b \<longleftrightarrow> ev_time a < ev_time b \<or> (ev_time a = ev_time b \<and> ev_priority a < ev_priority b)"

fun event_insert :: "TimedEvent \<Rightarrow> TimedEvent list \<Rightarrow> TimedEvent list" where
  "event_insert evt [] = [evt]"
| "event_insert evt (e # es) = (if event_before evt e then evt # e # es else e # event_insert evt es)"

definition event_schedule :: "TimedEvent \<Rightarrow> 'd runner \<Rightarrow> 'd runner" where
  "event_schedule evt s = s\<lparr>events := event_insert evt (events s)\<rparr>"

definition event_cancel :: "TimedEvent \<Rightarrow> 'd runner \<Rightarrow> 'd runner" where
  "event_cancel evt s = s\<lparr>events := filter (\<lambda>e. event_before e evt \<or> event_before evt e) (events s)\<rparr>"

fun do_request :: "request \<Rightarrow> 'd runner \<Rightarrow> 'd runner res" where
  "do_request (Req_IssueDma op) s = issue_dma op s"
| "do_request (Req_MsiIssue vec) s = interrupt (ucast vec) 2 s"
| "do_request (Req_MsiXIssue vec) s = interrupt (ucast vec) 3 s"
| "do_request (Req_IntXIssue level) s = interrupt 0 (if level then 0 else 1) s"
| "do_request (Req_EthSend d) s = eth_send d s"
| "do_request (Req_EventSchedule evt) s = Ok (event_schedule evt s)"
| "do_request (Req_EventCancel evt) s = Ok (event_cancel evt s)"

abbreviation do_requests :: "request list \<times> 'd \<Rightarrow> 'd runner \<Rightarrow> 'd runner res" where
  "do_requests r s \<equiv> rfold do_request (fst r) (s\<lparr>dev := snd r\<rparr>)"

section \<open>Messages from the host and from the network\<close>

text \<open>An answer in the slot that was next before the device ran.\<close>

definition answer_at :: "nat \<Rightarrow> SimbricksProtoPcieD2H \<Rightarrow> 'd runner \<Rightarrow> 'd runner" where
  "answer_at n msg s = s\<lparr>d2h_out := take n (d2h_out s) @ [msg] @ drop n (d2h_out s)\<rparr>"

definition H2DRead :: "'d Device \<Rightarrow> u64 \<Rightarrow> u64 \<Rightarrow> u16 \<Rightarrow> u8 \<Rightarrow> 'd runner \<Rightarrow> 'd runner res" where
  "H2DRead D req off n bar s = (if terminated s then Abort else
     case dev_RegRead D (main_time s) bar off (unat n) (dev s) of (d, r) \<Rightarrow>
       andThen (do_requests r s) (\<lambda>s'. Ok (answer_at (length (d2h_out s)) (D2H_READCOMP req d) s')))"

definition H2DWrite :: "'d Device \<Rightarrow> u64 \<Rightarrow> u64 \<Rightarrow> u16 \<Rightarrow> u8 \<Rightarrow> u8 list \<Rightarrow> 'd runner \<Rightarrow> 'd runner res" where
  "H2DWrite D req off n bar d s = (if terminated s then Abort else
     andThen (do_requests (dev_RegWrite D (main_time s) bar off (take (unat n) d) (dev s)) s) (\<lambda>s'.
       Ok (answer_at (length (d2h_out s)) (D2H_WRITECOMP req) s')))"

text \<open>Completion of the operation at the address \<open>req\<close>, which must be one that exists.\<close>

definition dma_completed :: "'d Device \<Rightarrow> u64 \<Rightarrow> u8 list option \<Rightarrow> 'd runner \<Rightarrow> 'd runner res" where
  "dma_completed D req d s = (case live_ops s req of
     None \<Rightarrow> Fault
   | Some op \<Rightarrow>
       andThen (case d of None \<Rightarrow> Ok op | Some d \<Rightarrow> if op_len op \<le> length d then Ok (op\<lparr>op_data := take (op_len op) d\<rparr>) else Fault) (\<lambda>op.
       andThen (do_requests (dev_DmaComplete D (main_time s) op (dev s)) (s\<lparr>live_ops := (live_ops s)(req := None)\<rparr>)) (\<lambda>s.
       DmaTrigger (s\<lparr>dma_pending := dma_pending s - 1, completed := completed s + 1\<rparr>))))"

definition DevctrlUpdate :: "u64 \<Rightarrow> bool \<times> bool \<times> bool" where
  "DevctrlUpdate flags = (flags AND 1 \<noteq> 0, flags AND 2 \<noteq> 0, flags AND 4 \<noteq> 0)"

datatype h2d_poll = H2D SimbricksProtoPcieH2D | H2D_Sync | H2D_Terminate | H2D_Unsupported
datatype n2d_poll = N2D SimbricksProtoNetMsgPacket | N2D_Sync | N2D_Unsupported

fun h2d_dispatch :: "'d Device \<Rightarrow> SimbricksProtoPcieH2D \<Rightarrow> 'd runner \<Rightarrow> 'd runner res" where
  "h2d_dispatch D (H2D_READ req off n bar) s = H2DRead D req off n bar s"
| "h2d_dispatch D (H2D_WRITE req off n bar d) s = H2DWrite D req off n bar d s"
| "h2d_dispatch D (H2D_READCOMP req d) s = dma_completed D req (Some d) s"
| "h2d_dispatch D (H2D_WRITECOMP req) s = dma_completed D req None s"
| "h2d_dispatch D (H2D_DEVCTRL flags) s = Ok (s\<lparr>int_en := DevctrlUpdate flags\<rparr>)"

fun PollH2D :: "'d Device \<Rightarrow> h2d_poll option \<Rightarrow> 'd runner \<Rightarrow> 'd runner res" where
  "PollH2D D (Some (H2D msg)) s = h2d_dispatch D msg s"
| "PollH2D D (Some H2D_Terminate) s = Ok (s\<lparr>terminated := True\<rparr>)"
| "PollH2D D _ s = Ok s"

fun PollN2D :: "'d Device \<Rightarrow> n2d_poll option \<Rightarrow> 'd runner \<Rightarrow> 'd runner res" where
  "PollN2D D (Some (N2D p)) s = do_requests (dev_EthRx D (main_time s) (pkt_port p) (take (unat (pkt_len p)) (pkt_data p)) (dev s)) s"
| "PollN2D D _ s = Ok s"

section \<open>Timed events and the main loop\<close>

definition EventTrigger :: "'d Device \<Rightarrow> 'd runner \<Rightarrow> 'd runner res" where
  "EventTrigger D s = (case events s of
     [] \<Rightarrow> Ok s
   | ev # es \<Rightarrow> if ev_time ev > main_time s then Ok s
       else do_requests (dev_Timed D (main_time s) ev (dev s)) (s\<lparr>events := es, delivered := delivered s @ [(ev, main_time s)]\<rparr>))"

definition EventNext :: "'d runner \<Rightarrow> u64 option" where
  "EventNext s = (case events s of [] \<Rightarrow> None | ev # _ \<Rightarrow> Some (ev_time ev))"

definition max_step :: u64 where "max_step = 10000"

text \<open>The time to go to next, where \<open>nif\<close> is the answer of \<open>SimbricksNicIfNextTimestamp\<close> for synchronised channels.\<close>

definition next_ts :: "u64 option \<Rightarrow> 'd runner \<Rightarrow> u64" where
  "next_ts nif s = (let
     ts = (case nif of None \<Rightarrow> main_time s + max_step | Some ts \<Rightarrow> if ts > main_time s + max_step then main_time s + max_step else ts) in
     case EventNext s of None \<Rightarrow> ts | Some ev_ts \<Rightarrow> if ev_ts < ts then ev_ts else ts)"

type_synonym round = "h2d_poll option \<times> n2d_poll option \<times> u64 option"

definition poll_round :: "'d Device \<Rightarrow> h2d_poll option \<Rightarrow> n2d_poll option \<Rightarrow> 'd runner \<Rightarrow> 'd runner res" where
  "poll_round D h n s = andThen (PollH2D D h s) (\<lambda>s. andThen (PollN2D D n s) (EventTrigger D))"

text \<open>
  The inner loop of \<open>RunMain\<close> on what its rounds find; \<open>None\<close> when it is still in the loop
  after the last of them, else the state with the time advanced and the rounds that are left.
\<close>

fun inner_loop :: "'d Device \<Rightarrow> round list \<Rightarrow> 'd runner \<Rightarrow> ('d runner \<times> round list) option res" where
  "inner_loop D [] s = Ok None"
| "inner_loop D ((h, n, nif) # rs) s = andThen (poll_round D h n s) (\<lambda>s.
     if next_ts nif s \<le> main_time s then inner_loop D rs s else Ok (Some (s\<lparr>main_time := next_ts nif s\<rparr>, rs)))"

section \<open>DMA operations\<close>

fun is_dma :: "SimbricksProtoPcieD2H \<Rightarrow> bool" where
  "is_dma (D2H_READ _ _ _) = True"
| "is_dma (D2H_WRITE _ _ _ _) = True"
| "is_dma _ = False"

abbreviation dma_msgs :: "'d runner \<Rightarrow> SimbricksProtoPcieD2H list" where
  "dma_msgs s \<equiv> filter is_dma (d2h_out s)"

lemma is_dma_msg [simp]: "is_dma (dma_msg op)"
  by (simp add: dma_msg_def)

lemma dma_msgs_answer: "\<not> is_dma msg \<Longrightarrow> dma_msgs (answer_at n msg s) = dma_msgs s"
  using filter_append [of is_dma "take n (d2h_out s)" "drop n (d2h_out s)"] by (simp add: answer_at_def)

text \<open>Operations are sent in the order in which they are issued, within the limit, and wait only when the limit is reached.\<close>

definition dma_inv :: "'d runner \<Rightarrow> bool" where
  "dma_inv s \<longleftrightarrow> terminated s \<or>
     map dma_msg (issued s) = dma_msgs s @ map dma_msg (dma_queue s) \<and>
     completed s + unat (dma_pending s) = length (dma_msgs s) \<and>
     unat (dma_pending s) \<le> 64 \<and> (dma_queue s \<noteq> [] \<longrightarrow> dma_pending s = DMA_MAX_PENDING)"

lemma unat_succ_64: "unat (x :: u64) < 64 \<Longrightarrow> unat (x + 1) = unat x + 1"
  by (simp add: unat_word_ariths(1))

lemma DmaDo_inv:
  assumes "\<not> terminated s \<Longrightarrow> map dma_msg (issued s) = dma_msgs s @ dma_msg op # map dma_msg (dma_queue s) \<and>
      completed s + unat (dma_pending s) = length (dma_msgs s) \<and> unat (dma_pending s) < 64 \<and>
      (dma_queue s \<noteq> [] \<longrightarrow> dma_pending s + 1 = DMA_MAX_PENDING)"
  shows "returns (DmaDo op s) dma_inv"
  using assms by (auto simp: DmaDo_def d2h_send_def dma_inv_def unat_succ_64)

lemma pending_full: "unat x \<le> 64 \<Longrightarrow> \<not> x < DMA_MAX_PENDING \<Longrightarrow> x = DMA_MAX_PENDING"
  unfolding DMA_MAX_PENDING_def by (rule antisym) (simp_all add: word_le_nat_alt not_less)

lemma issue_dma_inv: "dma_inv s \<Longrightarrow> returns (issue_dma op s) dma_inv"
proof -
  assume inv: "dma_inv s"
  show ?thesis
  proof (cases "dma_pending s < DMA_MAX_PENDING")
    case True
    then have "unat (dma_pending s) < 64" by (simp add: DMA_MAX_PENDING_def word_less_nat_alt)
    moreover have "dma_queue s = []" if "\<not> terminated s" using inv True that by (auto simp: dma_inv_def)
    ultimately show ?thesis using inv True by (auto simp: issue_dma_def Let_def dma_inv_def intro!: DmaDo_inv)
  next
    case False
    then have "dma_pending s = DMA_MAX_PENDING" if "\<not> terminated s"
      using inv that pending_full by (auto simp: dma_inv_def)
    then show ?thesis using inv False by (auto simp: issue_dma_def Let_def dma_inv_def)
  qed
qed

text \<open>While the device handles a completion, the operation that completes is still counted.\<close>

definition dma_busy :: "'d runner \<Rightarrow> bool" where
  "dma_busy s \<longleftrightarrow> dma_inv s \<and> (\<not> terminated s \<longrightarrow> 0 < unat (dma_pending s))"

lemma issue_dma_pending:
  assumes "dma_inv s" "\<not> terminated s \<Longrightarrow> 0 < unat (dma_pending s)"
  shows "returns (issue_dma op s) (\<lambda>s'. \<not> terminated s' \<longrightarrow> 0 < unat (dma_pending s'))"
proof (cases "dma_pending s < DMA_MAX_PENDING")
  case True
  then have "unat (dma_pending s + 1) = unat (dma_pending s) + 1"
    by (intro unat_succ_64) (simp add: DMA_MAX_PENDING_def word_less_nat_alt)
  with True assms show ?thesis by (auto simp: issue_dma_def Let_def DmaDo_def d2h_send_def)
qed (use assms in \<open>auto simp: issue_dma_def Let_def\<close>)

lemma do_request_inv: "dma_inv s \<Longrightarrow> returns (do_request r s) dma_inv"
proof (cases r)
  case (Req_IssueDma op)
  then show "dma_inv s \<Longrightarrow> ?thesis" by (simp add: issue_dma_inv)
qed (auto simp: interrupt_def d2h_send_def eth_send_def event_schedule_def event_cancel_def dma_inv_def)

lemma do_request_pending:
  assumes "dma_busy s"
  shows "returns (do_request r s) (\<lambda>s'. \<not> terminated s' \<longrightarrow> 0 < unat (dma_pending s'))"
  using assms by (cases r) (auto simp: interrupt_def d2h_send_def eth_send_def event_schedule_def event_cancel_def dma_busy_def
      intro: issue_dma_pending)

lemma returns_conj: "returns r P \<Longrightarrow> returns r Q \<Longrightarrow> returns r (\<lambda>x. P x \<and> Q x)"
  by (cases r) auto

lemma do_request_busy: "dma_busy s \<Longrightarrow> returns (do_request r s) dma_busy"
  using returns_conj [OF do_request_inv do_request_pending, of s r] unfolding dma_busy_def by blast

lemma do_requests_inv: "dma_inv s \<Longrightarrow> returns (rfold do_request rs s) dma_inv"
  by (rule returns_rfold) (rule do_request_inv)

lemma do_requests_busy: "dma_busy s \<Longrightarrow> returns (rfold do_request rs s) dma_busy"
  by (rule returns_rfold) (rule do_request_busy)

lemma answer_inv: "dma_inv s \<Longrightarrow> \<not> is_dma msg \<Longrightarrow> dma_inv (answer_at n msg s)"
  using dma_msgs_answer [of msg n s] by (simp add: dma_inv_def answer_at_def)

lemma dma_inv_dev [simp]: "dma_inv (s\<lparr>dev := d\<rparr>) = dma_inv s" "dma_busy (s\<lparr>dev := d\<rparr>) = dma_busy s"
  "dma_inv (s\<lparr>live_ops := m\<rparr>) = dma_inv s" "dma_busy (s\<lparr>live_ops := m\<rparr>) = dma_busy s"
  "dma_inv (s\<lparr>int_en := e\<rparr>) = dma_inv s" "dma_inv (s\<lparr>main_time := t\<rparr>) = dma_inv s"
  "dma_inv (s\<lparr>events := es, delivered := ds\<rparr>) = dma_inv s"
  by (simp_all add: dma_inv_def dma_busy_def)

lemma DmaTrigger_inv:
  assumes "dma_busy s"
  shows "returns (DmaTrigger (s\<lparr>dma_pending := dma_pending s - 1, completed := completed s + 1\<rparr>)) dma_inv"
proof -
  have less: "unat (dma_pending s - 1) = unat (dma_pending s) - 1" if "\<not> terminated s"
    using assms that by (intro unat_minus_one) (auto simp: dma_busy_def)
  show ?thesis
  proof (cases "dma_queue s")
    case Nil
    then show ?thesis using assms less by (auto simp: DmaTrigger_def dma_busy_def dma_inv_def)
  next
    case (Cons op ops)
    then show ?thesis using assms less
      by (auto simp: DmaTrigger_def dma_busy_def dma_inv_def intro!: DmaDo_inv)
  qed
qed

lemma answer_inv_returns:
  assumes "dma_inv s" "\<not> is_dma msg"
  shows "returns (andThen (rfold do_request rs s) (\<lambda>s. Ok (answer_at n msg s))) dma_inv"
  by (rule returns_bind [OF do_requests_inv [OF assms(1)]]) (simp add: answer_inv assms(2))

lemma dma_completed_inv: "dma_busy s \<Longrightarrow> returns (dma_completed D req d s) dma_inv"
  unfolding dma_completed_def
  by (auto split: option.splits intro!: returns_mono [OF do_requests_busy] DmaTrigger_inv [simplified])

text \<open>The host completes only operations that are outstanding.\<close>

fun host_ok :: "'d runner \<Rightarrow> h2d_poll option \<Rightarrow> bool" where
  "host_ok s (Some (H2D (H2D_READCOMP _ _))) = (0 < dma_pending s)"
| "host_ok s (Some (H2D (H2D_WRITECOMP _))) = (0 < dma_pending s)"
| "host_ok s _ = True"

lemma PollH2D_inv:
  assumes "dma_inv s" "host_ok s h"
  shows "returns (PollH2D D h s) dma_inv"
proof (cases h)
  case (Some p)
  then show ?thesis
  proof (cases p)
    case (H2D msg)
    have busy: "0 < dma_pending s \<Longrightarrow> dma_busy s" using assms(1) by (simp add: dma_busy_def word_less_nat_alt)
    show ?thesis using assms Some H2D
      by (cases msg) (auto simp: H2DRead_def H2DWrite_def split: prod.splits simp del: returns_andThen
          intro!: answer_inv_returns dma_completed_inv busy)
  qed (use assms in \<open>auto simp: dma_inv_def\<close>)
qed (use assms in simp)

lemma PollN2D_inv: "dma_inv s \<Longrightarrow> returns (PollN2D D n s) dma_inv"
  by (cases "(D, n, s)" rule: PollN2D.cases) (auto intro: do_requests_inv)

lemma EventTrigger_inv: "dma_inv s \<Longrightarrow> returns (EventTrigger D s) dma_inv"
  by (auto simp: EventTrigger_def split: list.splits intro!: do_requests_inv)

lemma poll_round_inv: "dma_inv s \<Longrightarrow> host_ok s h \<Longrightarrow> returns (poll_round D h n s) dma_inv"
  unfolding poll_round_def by (intro returns_bind [OF PollH2D_inv] returns_bind [OF PollN2D_inv] EventTrigger_inv)

section \<open>Runs of the runner\<close>

definition Runner_init :: "u64 \<Rightarrow> nat \<Rightarrow> 'd \<Rightarrow> 'd runner" where
  "Runner_init t n d = \<lparr>main_time = t, events = [], dma_queue = [], dma_pending = 0, terminated = False, out_msg_len = n,
     dev = d, int_en = (False, False, False), live_ops = (\<lambda>_. None), d2h_out = [], d2n_out = [], issued = [],
     completed = 0, delivered = []\<rparr>"

inductive runner_reach :: "'d Device \<Rightarrow> 'd runner \<Rightarrow> bool" for D where
  init: "runner_reach D (Runner_init t n d)"
| round: "runner_reach D s \<Longrightarrow> host_ok s h \<Longrightarrow> poll_round D h n s = Ok s' \<Longrightarrow> runner_reach D s'"
| advance: "runner_reach D s \<Longrightarrow> main_time s < next_ts nif s \<Longrightarrow> runner_reach D (s\<lparr>main_time := next_ts nif s\<rparr>)"

lemma reach_dma_inv: "runner_reach D s \<Longrightarrow> dma_inv s"
proof (induction rule: runner_reach.induct)
  case (round s h n s')
  then show ?case using poll_round_inv [of s h D n] by simp
qed (simp_all add: Runner_init_def dma_inv_def)

text \<open>
  C22: in every run of the NIC simulator whose host completes only operations that are
  outstanding, the DMA requests on the PCIe channel followed by those that wait are the operations
  the device issued, in that order, each with its address, length and data; at most 64
  are outstanding, and operations wait only while exactly 64 are.
\<close>

theorem runner_dma_fifo:
  assumes "runner_reach D s" "\<not> terminated s"
  shows "map dma_msg (issued s) = filter is_dma (d2h_out s) @ map dma_msg (dma_queue s) \<and>
    length (filter is_dma (d2h_out s)) \<le> completed s + 64 \<and>
    (dma_queue s \<noteq> [] \<longrightarrow> length (filter is_dma (d2h_out s)) = completed s + 64)"
  using reach_dma_inv [OF assms(1)] assms(2) by (auto simp: dma_inv_def DMA_MAX_PENDING_def)

text \<open>A device that reads as many buffers as the value written to a register says, and sets a timer for the next one.\<close>

definition burst_op :: "nat \<Rightarrow> DMAOp" where
  "burst_op i = \<lparr>op_id = of_nat i, op_write = False, op_dma_addr = of_nat (4096 * i), op_len = 4, op_data = []\<rparr>"

definition burst_dev :: "unit Device" where
  "burst_dev = \<lparr>dev_RegRead = (\<lambda>t bar off n d. (replicate n 0, [], d)),
     dev_RegWrite = (\<lambda>t bar off v d. (map (Req_IssueDma \<circ> burst_op) [0..<unat (hd v)], d)),
     dev_DmaComplete = (\<lambda>t op d. (if t < t + 500 then [Req_EventSchedule \<lparr>ev_id = 0, ev_time = t + 500, ev_priority = 0\<rparr>] else [], d)),
     dev_EthRx = (\<lambda>t port p d. ([Req_EthSend p], d)), dev_Timed = (\<lambda>t e d. ([Req_MsiIssue 0], d))\<rparr>"

definition burst_round :: "h2d_poll option \<Rightarrow> unit runner \<Rightarrow> unit runner" where
  "burst_round h s = (case poll_round burst_dev h None s of Ok s' \<Rightarrow> s' | _ \<Rightarrow> s)"

lemmas burst_eval = burst_round_def poll_round_def H2DWrite_def dma_completed_def burst_dev_def EventTrigger_def
  issue_dma_def DmaDo_def DmaTrigger_def d2h_send_def interrupt_def answer_at_def event_schedule_def DMA_MAX_PENDING_def Let_def

definition burst_start :: "unit runner" where
  "burst_start = (Runner_init 0 2048 ())\<lparr>dma_pending := 2, live_ops := [0 \<mapsto> burst_op 0, 1 \<mapsto> burst_op 1],
    d2h_out := [D2H_WRITECOMP 7, dma_msg (burst_op 0), dma_msg (burst_op 1)], issued := map burst_op [0, 1]\<rparr>"

definition burst_run :: "unit runner" where
  "burst_run = burst_start\<lparr>events := [\<lparr>ev_id = 0, ev_time = 500, ev_priority = 0\<rparr>], dma_pending := 1,
    live_ops := [0 \<mapsto> burst_op 0], completed := 1\<rparr>"

lemma burst_round_reach: "runner_reach burst_dev s \<Longrightarrow> host_ok s h \<Longrightarrow> runner_reach burst_dev (burst_round h s)"
  by (auto simp: burst_round_def split: res.split intro: runner_reach.round)

lemma burst_upt: "[0..<2] = [0, 1]"
  by code_simp

lemma burst_op_sel [simp]: "op_id (burst_op i) = of_nat i" "op_len (burst_op i) = 4" "op_write (burst_op i) = False"
  by (simp_all add: burst_op_def)

lemma burst_start_eq: "burst_round (Some (H2D (H2D_WRITE 7 0 1 0 [2]))) (Runner_init 0 2048 ()) = burst_start"
  by (simp add: burst_eval burst_upt burst_start_def Runner_init_def)

lemma burst_run_eq: "burst_round (Some (H2D (H2D_READCOMP 1 [1, 2, 3, 4]))) burst_start = burst_run"
  by (simp add: burst_eval burst_run_def burst_start_def Runner_init_def fun_upd_twist)

lemma burst_run_reach: "runner_reach burst_dev burst_run"
  by (subst burst_run_eq [symmetric], subst burst_start_eq [symmetric], intro burst_round_reach runner_reach.init)
    (simp_all add: burst_start_eq, simp add: burst_start_def)

theorem runner_dma_fifo_witness:
  "filter is_dma (d2h_out burst_run) = map dma_msg (map burst_op [0, 1]) \<and> completed burst_run = 1"
proof -
  have "\<not> terminated burst_run" "dma_queue burst_run = []" "issued burst_run = map burst_op [0, 1]" "completed burst_run = 1"
    by (simp_all add: burst_run_def burst_start_def Runner_init_def)
  then show ?thesis using runner_dma_fifo [OF burst_run_reach] by simp
qed

section \<open>Timed events\<close>

text \<open>\<open>TimedEvent\<close>s are scheduled for the present or, with \<open>strict\<close>, for the future.\<close>

fun req_timely :: "bool \<Rightarrow> u64 \<Rightarrow> request \<Rightarrow> bool" where
  "req_timely strict t (Req_EventSchedule e) = (if strict then t < ev_time e else t \<le> ev_time e)"
| "req_timely strict t _ = True"

definition timely :: "bool \<Rightarrow> 'd Device \<Rightarrow> bool" where
  "timely strict D \<longleftrightarrow> (\<forall>t a b c d. \<forall>rs \<in> {fst (snd (dev_RegRead D t a b (length c) d)), fst (dev_RegWrite D t a b c d), fst (dev_EthRx D t a c d)}.
       list_all (req_timely strict t) rs) \<and>
     (\<forall>t op d. list_all (req_timely strict t) (fst (dev_DmaComplete D t op d))) \<and>
     (\<forall>t e d. list_all (req_timely strict t) (fst (dev_Timed D t e d)))"

lemma timely_reqs:
  assumes "timely strict D"
  shows "list_all (req_timely strict t) (fst (snd (dev_RegRead D t a b n d)))"
    "list_all (req_timely strict t) (fst (dev_RegWrite D t a b c d))"
    "list_all (req_timely strict t) (fst (dev_EthRx D t a c d))"
    "list_all (req_timely strict t) (fst (dev_DmaComplete D t op d))"
    "list_all (req_timely strict t) (fst (dev_Timed D t e d))"
proof -
  show "list_all (req_timely strict t) (fst (snd (dev_RegRead D t a b n d)))"
    using assms [unfolded timely_def] by (metis Ex_list_of_length insertI1)
qed (use assms in \<open>auto simp: timely_def\<close>)

definition event_order :: "TimedEvent \<Rightarrow> TimedEvent \<Rightarrow> bool" where
  "event_order a b \<longleftrightarrow> \<not> event_before b a"

lemma event_order_trans: "event_order a b \<Longrightarrow> event_order b c \<Longrightarrow> event_order a c"
  by (auto simp: event_order_def event_before_def not_less)

lemma event_insert_set [simp]: "set (event_insert e es) = insert e (set es)"
  by (induction es) auto

lemma event_insert_sorted: "sorted_wrt event_order es \<Longrightarrow> sorted_wrt event_order (event_insert e es)"
proof (induction es)
  case (Cons x xs)
  have "event_order e x \<Longrightarrow> y \<in> set xs \<Longrightarrow> event_order e y" for y
    using Cons.prems event_order_trans by auto
  moreover have "event_before e x \<Longrightarrow> event_order e x" "\<not> event_before e x \<Longrightarrow> event_order x e"
    by (auto simp: event_order_def event_before_def)
  ultimately show ?case using Cons by auto
qed simp

text \<open>The events at or after a time \<open>t\<close>, in order, those delivered at their time.\<close>

definition events_ok :: "u64 \<Rightarrow> 'd runner \<Rightarrow> bool" where
  "events_ok t s \<longleftrightarrow> main_time s = t \<and> sorted_wrt event_order (events s) \<and> (\<forall>e \<in> set (events s). t \<le> ev_time e) \<and>
     (\<forall>(e, u) \<in> set (delivered s). u = ev_time e)"

lemma events_ok_frame [simp]: "events_ok t (s\<lparr>dev := d\<rparr>) = events_ok t s"
  "events_ok t (s\<lparr>live_ops := m\<rparr>) = events_ok t s" "events_ok t (s\<lparr>d2h_out := x\<rparr>) = events_ok t s"
  "events_ok t (s\<lparr>int_en := i\<rparr>) = events_ok t s" "events_ok t (s\<lparr>terminated := b\<rparr>) = events_ok t s"
  by (simp_all add: events_ok_def)

lemma DmaDo_events: "events_ok t s \<Longrightarrow> returns (DmaDo op s) (\<lambda>s'. events_ok t s' \<and> events s' = events s)"
  by (simp add: DmaDo_def d2h_send_def events_ok_def)

lemma DmaTrigger_events: "events_ok t s \<Longrightarrow> returns (DmaTrigger s) (\<lambda>s'. events_ok t s' \<and> events s' = events s)"
  using DmaDo_events [of t "s\<lparr>dma_queue := x\<rparr>" for x] by (auto simp: DmaTrigger_def events_ok_def split: list.split)

text \<open>Events that are due; a request that is strictly timely adds none.\<close>

definition due :: "'d runner \<Rightarrow> nat" where
  "due s = length (filter (\<lambda>e. ev_time e \<le> main_time s) (events s))"

lemma due_insert: "length (filter P (event_insert e es)) = length (filter P (e # es))"
  by (induction es) auto

lemma due_filter: "length (filter P (filter Q es)) \<le> length (filter P es)"
  by (induction es) auto

lemma do_request_events:
  assumes "req_timely strict t r" "events_ok t s"
  shows "returns (do_request r s) (\<lambda>s'. events_ok t s' \<and> (strict \<longrightarrow> due s' \<le> due s))"
proof (cases r)
  case (Req_IssueDma op)
  then show ?thesis using assms by (auto simp: issue_dma_def Let_def DmaDo_def d2h_send_def events_ok_def due_def)
next
  case (Req_EventSchedule e)
  then show ?thesis using assms
    by (auto simp: event_schedule_def events_ok_def event_insert_sorted due_def due_insert split: if_splits)
next
  case (Req_EventCancel e)
  then show ?thesis using assms
    by (auto simp: event_cancel_def events_ok_def due_def sorted_wrt_filter simp del: filter_filter intro: due_filter)
qed (use assms in \<open>auto simp: interrupt_def d2h_send_def eth_send_def events_ok_def due_def\<close>)

lemma returns_rfold_set:
  "(\<And>x s. x \<in> set xs \<Longrightarrow> P s \<Longrightarrow> returns (f x s) P) \<Longrightarrow> P s \<Longrightarrow> returns (rfold f xs s) P"
proof (induction xs arbitrary: s)
  case (Cons x xs)
  have "returns (f x s) P" using Cons.prems by simp
  moreover have "returns (rfold f xs s') P" if "P s'" for s' using Cons that by simp
  ultimately show ?case by (auto intro: returns_mono)
qed simp

definition events_kept :: "bool \<Rightarrow> u64 \<Rightarrow> nat \<Rightarrow> 'd runner \<Rightarrow> bool" where
  "events_kept strict t k s \<longleftrightarrow> events_ok t s \<and> (strict \<longrightarrow> due s \<le> k)"

lemma do_requests_events:
  assumes "list_all (req_timely strict t) rs" "events_kept strict t k s"
  shows "returns (rfold do_request rs s) (events_kept strict t k)"
proof (rule returns_rfold_set)
  fix r s assume "r \<in> set rs" and s: "events_kept strict t k s"
  then have "req_timely strict t r" using assms(1) by (simp add: list_all_iff)
  with s show "returns (do_request r s) (events_kept strict t k)"
    by (intro returns_mono [OF do_request_events [of strict t r s]]) (auto simp: events_kept_def)
qed (rule assms)

lemma events_kept_frame [simp]: "events_kept strict t k (s\<lparr>dev := d\<rparr>) = events_kept strict t k s"
  "events_kept strict t k (s\<lparr>live_ops := m\<rparr>) = events_kept strict t k s"
  "events_kept strict t k (s\<lparr>int_en := i\<rparr>) = events_kept strict t k s"
  "events_kept strict t k (s\<lparr>terminated := b\<rparr>) = events_kept strict t k s"
  "events_kept strict t k (answer_at n msg s) = events_kept strict t k s"
  "events_kept strict t k (s\<lparr>dma_pending := p, completed := c\<rparr>) = events_kept strict t k s"
  by (simp_all add: events_kept_def events_ok_def due_def answer_at_def)

lemma events_kept_time: "events_kept strict t k s \<Longrightarrow> main_time s = t"
  by (simp add: events_kept_def events_ok_def)

lemma DmaTrigger_kept: "events_kept strict t k s \<Longrightarrow> returns (DmaTrigger s) (events_kept strict t k)"
  by (rule returns_mono [OF DmaTrigger_events]) (auto simp: events_kept_def events_ok_def due_def)

lemma dma_completed_events:
  assumes "timely strict D" "events_kept strict t k s"
  shows "returns (dma_completed D req d s) (events_kept strict t k)"
proof -
  have "returns (do_requests (dev_DmaComplete D (main_time s) op (dev s)) (s\<lparr>live_ops := m\<rparr>)) (events_kept strict t k)" for op m
    using assms events_kept_time [OF assms(2)] by (intro do_requests_events) (simp_all add: timely_reqs)
  then show ?thesis unfolding dma_completed_def
    by (auto split: option.splits simp del: returns_andThen intro!: returns_bind DmaTrigger_kept)
qed

lemma PollH2D_events:
  assumes "timely strict D" "events_kept strict t k s"
  shows "returns (PollH2D D h s) (events_kept strict t k)"
proof -
  note t = events_kept_time [OF assms(2)]
  have 1: "returns (H2DRead D req off n bar s) (events_kept strict t k)" for req off n bar
    unfolding H2DRead_def using timely_reqs(1) [OF assms(1), of t bar off "unat n" "dev s"] assms(2) t
    by (auto split: prod.splits simp: do_requests_events simp del: returns_andThen intro!: returns_bind)
  have 2: "returns (H2DWrite D req off n bar d s) (events_kept strict t k)" for req off n bar d
    unfolding H2DWrite_def using assms t
    by (auto simp: do_requests_events timely_reqs simp del: returns_andThen intro!: returns_bind)
  have "returns (h2d_dispatch D msg s) (events_kept strict t k)" for msg
    using assms(2) 1 2 dma_completed_events [OF assms] by (cases msg) simp_all
  then show ?thesis using assms(2) by (cases "(D, h, s)" rule: PollH2D.cases) simp_all
qed

lemma PollN2D_events:
  "timely strict D \<Longrightarrow> events_kept strict t k s \<Longrightarrow> returns (PollN2D D n s) (events_kept strict t k)"
  using events_kept_time [of strict t k s]
  by (cases "(D, n, s)" rule: PollN2D.cases) (simp_all add: do_requests_events timely_reqs)

text \<open>When an event is due, the first one is, and it leaves the queue.\<close>

lemma due_Cons:
  assumes "events_ok t s" "events s = e # es"
  shows "0 < due s \<longleftrightarrow> ev_time e = t"
proof -
  have "t \<le> ev_time e" "main_time s = t" using assms by (simp_all add: events_ok_def)
  moreover have "ev_time e \<le> ev_time x" if "x \<in> set es" for x
    using assms that by (auto simp: events_ok_def event_order_def event_before_def not_less)
  ultimately show ?thesis using assms(2) by (force simp: due_def filter_empty_conv)
qed

lemma EventTrigger_events:
  assumes "timely strict D" "events_kept strict t k s"
  shows "returns (EventTrigger D s) (events_kept strict t (k - 1))"
proof (cases "events s")
  case Nil
  then show ?thesis using assms(2) by (simp add: EventTrigger_def events_kept_def due_def)
next
  case (Cons e es)
  note t = events_kept_time [OF assms(2)]
  have le: "t \<le> ev_time e" using assms(2) Cons by (simp add: events_kept_def events_ok_def)
  show ?thesis
  proof (cases "ev_time e = t")
    case True
    have "events_kept strict t (k - 1) (s\<lparr>events := es, delivered := delivered s @ [(e, main_time s)]\<rparr>)"
      using assms(2) Cons True by (auto simp: events_kept_def events_ok_def due_def)
    then have "returns (do_requests (dev_Timed D (main_time s) e (dev s))
        (s\<lparr>events := es, delivered := delivered s @ [(e, main_time s)]\<rparr>)) (events_kept strict t (k - 1))"
      using t assms(1) by (intro do_requests_events) (simp_all add: timely_reqs)
    then show ?thesis using Cons True t by (simp add: EventTrigger_def)
  next
    case False
    then have "due s = 0" using due_Cons [of t s e es] assms(2) Cons by (simp add: events_kept_def)
    then show ?thesis using Cons False le t assms(2) by (simp add: EventTrigger_def events_kept_def)
  qed
qed

lemma poll_round_events:
  assumes "timely strict D" "events_kept strict t k s"
  shows "returns (poll_round D h n s) (events_kept strict t (k - 1))"
  unfolding poll_round_def
  by (intro returns_bind [OF PollH2D_events [OF assms]] returns_bind [OF PollN2D_events [OF assms(1)]] EventTrigger_events assms(1))

lemma next_ts_le: "events_ok t s \<Longrightarrow> e \<in> set (events s) \<Longrightarrow> next_ts nif s \<le> ev_time e"
proof -
  assume ok: "events_ok t s" and e: "e \<in> set (events s)"
  then obtain x xs where xs: "events s = x # xs" by (cases "events s") auto
  have "ev_time x \<le> ev_time e"
    using ok e xs by (auto simp: events_ok_def event_order_def event_before_def not_less)
  moreover have "next_ts nif s \<le> ev_time x" by (auto simp: next_ts_def EventNext_def xs Let_def)
  ultimately show ?thesis by simp
qed

lemma reach_events_ok: "runner_reach D s \<Longrightarrow> timely False D \<Longrightarrow> events_ok (main_time s) s"
proof (induction rule: runner_reach.induct)
  case (round s h n s')
  then have "events_kept False (main_time s) 0 s" by (simp add: events_kept_def)
  then have "events_kept False (main_time s) 0 s'"
    using poll_round_events [of False D "main_time s" 0 s h n] round by simp
  then show ?case by (simp add: events_kept_def events_ok_def)
next
  case (advance s nif)
  then have "events_ok (main_time s) s" by simp
  then show ?case using next_ts_le [of "main_time s" s _ nif] by (simp add: events_ok_def)
qed (simp add: Runner_init_def events_ok_def)

lemma burst_timely: "timely strict burst_dev"
  by (auto simp: timely_def burst_dev_def list_all_iff)

definition burst_timer :: TimedEvent where "burst_timer = \<lparr>ev_id = 0, ev_time = 500, ev_priority = 0\<rparr>"

definition burst_timed :: "unit runner" where
  "burst_timed = burst_run\<lparr>events := [], main_time := 500, delivered := [(burst_timer, 500)],
    d2h_out := d2h_out burst_run @ [D2H_INTERRUPT 0 2]\<rparr>"

lemma burst_timed_reach: "runner_reach burst_dev burst_timed"
proof -
  have "next_ts None burst_run = 500" "main_time burst_run = 0"
    by (simp_all add: next_ts_def EventNext_def burst_run_def burst_start_def Runner_init_def max_step_def)
  then have "runner_reach burst_dev (burst_run\<lparr>main_time := 500\<rparr>)"
    using runner_reach.advance [OF burst_run_reach, of None] by simp
  moreover have "burst_round None (burst_run\<lparr>main_time := 500\<rparr>) = burst_timed"
    by (simp add: burst_eval burst_timed_def burst_timer_def burst_run_def burst_start_def Runner_init_def)
  ultimately show ?thesis using burst_round_reach [of "burst_run\<lparr>main_time := 500\<rparr>" None] by simp
qed



section \<open>The inner loop\<close>

fun hosts_ok :: "'d Device \<Rightarrow> round list \<Rightarrow> 'd runner \<Rightarrow> bool" where
  "hosts_ok D [] s = True"
| "hosts_ok D ((h, n, nif) # rs) s = (host_ok s h \<and> (case poll_round D h n s of Ok s' \<Rightarrow> hosts_ok D rs s' | _ \<Rightarrow> True))"

lemma inner_loop_reach:
  "runner_reach D s \<Longrightarrow> hosts_ok D rs s \<Longrightarrow> inner_loop D rs s = Ok (Some (s', rs')) \<Longrightarrow> runner_reach D s'"
proof (induction D rs s rule: inner_loop.induct)
  case (2 D h n nif rs s)
  then obtain s1 where s1: "poll_round D h n s = Ok s1" by (cases "poll_round D h n s") auto
  then have "runner_reach D s1" "hosts_ok D rs s1" using 2 by (auto intro: runner_reach.round)
  then show ?case using 2 s1 runner_reach.advance [of D s1 nif] by (auto simp: not_le split: if_splits)
qed simp

text \<open>A round in which the peers let the time go beyond \<open>t\<close>.\<close>

fun lets_advance :: "u64 \<Rightarrow> round \<Rightarrow> bool" where
  "lets_advance t (_, _, None) = True"
| "lets_advance t (_, _, Some ts) = (t < ts)"

lemma plus_max_step: "t \<le> - 10001 \<Longrightarrow> t < t + max_step"
  unfolding max_step_def by unat_arith simp

lemma next_ts_bounds:
  assumes "events_ok t s" "t \<le> - 10001" "lets_advance t (h, n, nif)"
  shows "next_ts nif s \<le> t + 10000" and "due s = 0 \<Longrightarrow> t < next_ts nif s"
proof -
  have m: "main_time s = t" and step: "t < t + max_step" using assms(1) plus_max_step [OF assms(2)] by (auto simp: events_ok_def)
  show "next_ts nif s \<le> t + 10000"
    by (auto simp: next_ts_def Let_def m max_step_def split: option.splits)
  have "t < ev_time x" if "due s = 0" "events s = x # xs" for x xs
    using that m by (auto simp: due_def split: if_splits)
  then show "due s = 0 \<Longrightarrow> t < next_ts nif s"
    using step assms(3) m by (cases nif; cases "events s") (auto simp: next_ts_def EventNext_def Let_def)
qed

lemma inner_loop_advances:
  fixes D :: "'d Device"
  assumes D: "timely True D" and t: "t \<le> - 10001"
  shows "events_kept True t k s \<Longrightarrow> list_all (lets_advance t) rs \<Longrightarrow> k < length rs \<Longrightarrow>
    returns (inner_loop D rs s) (\<lambda>r. \<exists>s' rs'. r = Some (s', rs') \<and> length rs \<le> length rs' + k + 1 \<and>
      t < main_time s' \<and> main_time s' \<le> t + 10000)"
proof (induction rs arbitrary: s k)
  case (Cons r rs)
  obtain h n nif where r: "r = (h, n, nif)" by (cases r)
  show ?case unfolding r inner_loop.simps
  proof (rule returns_bind [OF poll_round_events [OF D Cons.prems(1)]])
    fix s1 :: "'d runner" assume s1: "events_kept True t (k - 1) s1"
    then have m: "main_time s1 = t" and ok: "events_ok t s1" and due: "due s1 \<le> k - 1"
      by (simp_all add: events_kept_time) (simp_all add: events_kept_def)
    note b = next_ts_bounds [OF ok t, of h n nif]
    have adv: "lets_advance t (h, n, nif)" "list_all (lets_advance t) rs" using Cons.prems(2) r by simp_all
    show "returns (if next_ts nif s1 \<le> main_time s1 then inner_loop D rs s1
        else Ok (Some (s1\<lparr>main_time := next_ts nif s1\<rparr>, rs)))
      (\<lambda>r'. \<exists>s' rs'. r' = Some (s', rs') \<and> length ((h, n, nif) # rs) \<le> length rs' + k + 1 \<and> t < main_time s' \<and> main_time s' \<le> t + 10000)"
    proof (cases "next_ts nif s1 \<le> t")
      case True
      then have "0 < due s1" using b(2) adv(1) by fastforce
      then have k: "0 < k" using due by linarith
      then have "returns (inner_loop D rs s1) (\<lambda>r. \<exists>s' rs'. r = Some (s', rs') \<and> length rs \<le> length rs' + (k - 1) + 1 \<and>
          t < main_time s' \<and> main_time s' \<le> t + 10000)"
        using Cons.prems(3) by (intro Cons.IH s1 adv(2)) simp
      then show ?thesis using True m k by (auto elim!: returns_mono)
    next
      case False
      then show ?thesis using m b(1) adv(1) by (auto simp: not_le)
    qed
  qed
qed simp



end
