(* ===== verification/Ice_Parser_Tables.thy ===== *)
theory Ice_Parser_Tables
  imports Vmux_Prelude "HOL-Library.Monad_Syntax"
begin

text \<open>
  The tables of the E810 packet parser (\<open>sims/nic/e810_bm/base\<close>): the item types
  of \<open>ice_imem.h\<close>, \<open>ice_metainit.h\<close>, \<open>ice_pg_cam.h\<close>, \<open>ice_bst_tcam.h\<close>,
  \<open>ice_ptype_mk.h\<close>, \<open>ice_mk_grp.h\<close>, \<open>ice_proto_grp.h\<close>, \<open>ice_flg_rd.h\<close> and
  \<open>ice_xlt_kb.h\<close>, the decoders that fill them from the packed entries of a
  device package, and the match functions over them.

  Package memory is a flat byte list with pointers as offsets into it; a load
  outside of it is \<open>None\<close>.  The decoders use unaligned 32- and 64-bit loads with
  shifts and masks.  They are proved equal to reference decoders that name the
  documented bit ranges of an entry.
\<close>

section \<open>Loads from package memory\<close>

definition ld :: "nat \<Rightarrow> u8 list \<Rightarrow> nat \<Rightarrow> 'a::len word option" where
  "ld n mem off = (if off + n \<le> length mem then Some (le_field off n mem) else None)"

text \<open>
  The reference view of an entry: the bit string of its bytes, least significant
  bit first, of which a field is \<open>n\<close> bits from bit \<open>lo\<close>.
\<close>

definition entry_bit :: "u8 list \<Rightarrow> nat \<Rightarrow> bool" where
  "entry_bit bs k \<longleftrightarrow> k div 8 < length bs \<and> bit (bs ! (k div 8)) (k mod 8)"

primrec bits_word :: "bool list \<Rightarrow> 'a::len word" where
  "bits_word [] = 0"
| "bits_word (b # bs) = (if b then 1 else 0) OR push_bit 1 (bits_word bs)"

definition entry_field :: "u8 list \<Rightarrow> nat \<Rightarrow> nat \<Rightarrow> 'a::len word" where
  "entry_field bs lo n = bits_word (map (\<lambda>i. entry_bit bs (lo + i)) [0..<n])"

lemma bit_bits_word:
  "bit (bits_word bs :: 'a::len word) k \<longleftrightarrow> k < LENGTH('a) \<and> k < length bs \<and> bs ! k"
proof (induction bs arbitrary: k)
  case (Cons b bs)
  have z: "bit (push_bit 1 (bits_word bs :: 'a word)) k
      \<longleftrightarrow> 1 \<le> k \<and> k < LENGTH('a) \<and> bit (bits_word bs :: 'a word) (k - 1)"
    using bit_push_bit_iff [of 1 "bits_word bs :: 'a word" k] by (simp add: conj_commute)
  have o: "bit (if b then 1 else 0 :: 'a word) k \<longleftrightarrow> b \<and> k = 0"
    by (simp add: bit_1_iff)
  show ?case
    unfolding bits_word.simps bit_or_iff z o Cons.IH
    by (cases k) auto
qed simp

lemma bit_entry_field:
  "bit (entry_field bs lo n :: 'a::len word) k \<longleftrightarrow> k < LENGTH('a) \<and> k < n \<and> entry_bit bs (lo + k)"
  by (auto simp: entry_field_def bit_bits_word)

named_theorems decode_simps

lemma bit_le_field:
  "bit (le_field off n mem :: 'a::len word) k \<longleftrightarrow>
     k < LENGTH('a) \<and> k < 8 * n \<and> entry_bit (drop off mem) k"
proof -
  have "k div 8 < n \<longleftrightarrow> k < 8 * n" by (simp add: div_less_iff_less_mult mult.commute)
  then show ?thesis by (auto simp: le_field_def bit_le_word entry_bit_def)
qed

lemma entry_bit_drop: "entry_bit (drop b bs) k = entry_bit bs (8 * b + k)"
proof -
  have "(8 * b + k) div 8 = b + k div 8" "(8 * b + k) mod 8 = k mod 8" by auto
  then show ?thesis by (auto simp: entry_bit_def)
qed

text \<open>A shifted and masked load is the field at the shifted position.\<close>

lemma field_of_load:
  fixes off b w s n :: nat
  assumes "s + n \<le> 8 * w" "8 * w \<le> LENGTH('a)"
  shows "(ucast (take_bit n (drop_bit s (le_field (off + b) w mem :: 'a::len word))) :: 'b::len word)
       = entry_field (drop off mem) (8 * b + s) n"
proof (rule bit_word_eqI)
  fix k
  assume k: "k < LENGTH('b)"
  have "drop (off + b) mem = drop b (drop off mem)" by (simp add: add.commute)
  then show "bit (ucast (take_bit n (drop_bit s (le_field (off + b) w mem :: 'a word))) :: 'b word) k
      = bit (entry_field (drop off mem) (8 * b + s) n :: 'b word) k"
    using assms k by (auto simp: bit_simps bit_entry_field bit_le_field entry_bit_drop ac_simps)
qed

lemma flag_of_load:
  fixes off b w s :: nat
  assumes "s < 8 * w" "8 * w \<le> LENGTH('a)"
  shows "bit (le_field (off + b) w mem :: 'a::len word) s = entry_bit (drop off mem) (8 * b + s)"
proof -
  have "drop (off + b) mem = drop b (drop off mem)" by (simp add: add.commute)
  then show ?thesis using assms by (auto simp: bit_le_field entry_bit_drop ac_simps)
qed

text \<open>The masks the decoders use, as truncations.\<close>

lemma mask_and [decode_simps]:
  fixes x :: "'a::len word"
  shows "x AND 0x3 = take_bit 2 x" "x AND 0x7 = take_bit 3 x" "x AND 0xf = take_bit 4 x"
    "x AND 0x1f = take_bit 5 x" "x AND 0x3f = take_bit 6 x" "x AND 0x7f = take_bit 7 x"
    "x AND 0xff = take_bit 8 x" "x AND 0x1ff = take_bit 9 x" "x AND 0x3ff = take_bit 10 x"
    "x AND 0x7ff = take_bit 11 x" "x AND 0xffff = take_bit 16 x"
  by (simp_all add: take_bit_eq_mask mask_eq_exp_minus_1)

lemma and_1_flag [decode_simps]:
  fixes x :: "'a::len word"
  shows "x AND 1 \<noteq> 0 \<longleftrightarrow> bit x 0" "x AND 1 = 0 \<longleftrightarrow> \<not> bit x 0"
  using and_exp_eq_0_iff_not_bit [of x 0] by simp_all

section \<open>Instruction memory (\<open>ice_imem.c\<close>)\<close>

record ice_bst_main =
  al0 :: bool
  al1 :: bool
  al2 :: bool
  bm_pg :: bool

record ice_bst_keybuilder =
  bkb_priority :: u8
  tsr_ctrl :: bool

record ice_np_keybuilder =
  ops :: u8
  start_or_reg0 :: u8
  len_or_reg1 :: u8

record ice_pg_keybuilder =
  flag0_ena :: bool
  flag1_ena :: bool
  flag2_ena :: bool
  flag3_ena :: bool
  flag0_idx :: u8
  flag1_idx :: u8
  flag2_idx :: u8
  flag3_idx :: u8
  alu_reg_idx :: u8

text \<open>
  The opcodes of \<open>enum ice_alu_opcode\<close>.  The decoder casts a six-bit field to
  the enumeration, so values outside of the named ones occur and the field is
  kept as the integer it is stored as.
\<close>

abbreviation (input) ICE_ALU_PARK :: u32 where "ICE_ALU_PARK \<equiv> 0"
abbreviation (input) ICE_ALU_MOV_ADD :: u32 where "ICE_ALU_MOV_ADD \<equiv> 1"
abbreviation (input) ICE_ALU_ADD :: u32 where "ICE_ALU_ADD \<equiv> 2"
abbreviation (input) ICE_ALU_MOV_XOR :: u32 where "ICE_ALU_MOV_XOR \<equiv> 9"
abbreviation (input) ICE_ALU_SETEQ :: u32 where "ICE_ALU_SETEQ \<equiv> 19"
abbreviation (input) ICE_ALU_OREQ :: u32 where "ICE_ALU_OREQ \<equiv> 21"
abbreviation (input) ICE_ALU_ORLT :: u32 where "ICE_ALU_ORLT \<equiv> 30"

record ice_alu =
  opc :: u32
  src_start :: u8
  src_len :: u8
  shift_xlate_select :: bool
  shift_xlate_key :: u8
  src_reg_id :: u8
  dst_reg_id :: u8
  inc0 :: bool
  inc1 :: bool
  proto_offset_opc :: u8
  proto_offset :: u8
  branch_addr :: u8
  imm :: u16
  dedicate_flags_ena :: bool
  dst_start :: u8
  dst_len :: u8
  flags_extr_imm :: bool
  flags_start_imm :: u8

record ice_imem_item =
  ii_idx :: u16
  b_m :: ice_bst_main
  b_kb :: ice_bst_keybuilder
  ii_pg :: u8
  ii_np_kb :: ice_np_keybuilder
  ii_pg_kb :: ice_pg_keybuilder
  ii_alu0 :: ice_alu
  ii_alu1 :: ice_alu
  ii_alu2 :: ice_alu

definition imem_bm_init :: "u8 \<Rightarrow> ice_bst_main" where
  "imem_bm_init data =
     \<lparr>al0 = data AND 0x1 \<noteq> 0, al1 = data AND 0x2 \<noteq> 0, al2 = data AND 0x4 \<noteq> 0,
      bm_pg = data AND 0x8 \<noteq> 0\<rparr>"

definition imem_bkb_init :: "u16 \<Rightarrow> ice_bst_keybuilder" where
  "imem_bkb_init data = \<lparr>bkb_priority = ucast (data AND 0xff), tsr_ctrl = data AND 0x100 \<noteq> 0\<rparr>"

definition imem_npkb_init :: "u32 \<Rightarrow> ice_np_keybuilder" where
  "imem_npkb_init data =
     \<lparr>ops = ucast (data AND 0x3),
      start_or_reg0 = ucast (drop_bit 2 data AND 0xff),
      len_or_reg1 = ucast (drop_bit 10 data AND 0xff)\<rparr>"

definition imem_pgkb_init :: "u64 \<Rightarrow> ice_pg_keybuilder" where
  "imem_pgkb_init data =
     \<lparr>flag0_ena = data AND 0x1 \<noteq> 0,
      flag1_ena = drop_bit 7 data AND 0x1 \<noteq> 0,
      flag2_ena = drop_bit 14 data AND 0x1 \<noteq> 0,
      flag3_ena = drop_bit 21 data AND 0x1 \<noteq> 0,
      flag0_idx = ucast (drop_bit 1 data AND 0x3f),
      flag1_idx = ucast (drop_bit 8 data AND 0x3f),
      flag2_idx = ucast (drop_bit 15 data AND 0x3f),
      flag3_idx = ucast (drop_bit 22 data AND 0x3f),
      alu_reg_idx = ucast (drop_bit 28 data AND 0x7f)\<rparr>"

definition imem_alu_init :: "u8 list \<Rightarrow> nat \<Rightarrow> ice_alu option" where
  "imem_alu_init mem data = do {
     w0 \<leftarrow> ld 8 mem data;
     w1 \<leftarrow> ld 8 mem (data + 7);
     let d64 = drop_bit 5 (w0 :: u64);
     let e64 = drop_bit 7 (w1 :: u64);
     Some \<lparr>opc = ucast (d64 AND 0x3f),
      src_start = ucast (drop_bit 6 d64 AND 0xff),
      src_len = ucast (drop_bit 14 d64 AND 0x1f),
      shift_xlate_select = drop_bit 19 d64 AND 0x1 \<noteq> 0,
      shift_xlate_key = ucast (drop_bit 20 d64 AND 0xf),
      src_reg_id = ucast (drop_bit 24 d64 AND 0x7f),
      dst_reg_id = ucast (drop_bit 31 d64 AND 0x7f),
      inc0 = drop_bit 38 d64 AND 0x1 \<noteq> 0,
      inc1 = drop_bit 39 d64 AND 0x1 \<noteq> 0,
      proto_offset_opc = ucast (drop_bit 40 d64 AND 0x3),
      proto_offset = ucast (drop_bit 42 d64 AND 0xff),
      branch_addr = ucast (drop_bit 50 d64 AND 0xff),
      imm = ucast (e64 AND 0xffff),
      dedicate_flags_ena = drop_bit 16 e64 AND 0x1 \<noteq> 0,
      dst_start = ucast (drop_bit 17 e64 AND 0x3f),
      dst_len = ucast (drop_bit 23 e64 AND 0x3f),
      flags_extr_imm = drop_bit 29 e64 AND 0x1 \<noteq> 0,
      flags_start_imm = ucast (drop_bit 30 e64 AND 0xff)\<rparr>
   }"

definition imem_parse_item :: "u16 \<Rightarrow> u8 list \<Rightarrow> nat \<Rightarrow> ice_imem_item option" where
  "imem_parse_item idx mem buf = do {
     b0 \<leftarrow> ld 1 mem buf;
     h0 \<leftarrow> ld 2 mem buf;
     b1 \<leftarrow> ld 1 mem (buf + 1);
     w2 \<leftarrow> ld 4 mem (buf + 2);
     d2 \<leftarrow> ld 8 mem (buf + 2);
     a0 \<leftarrow> imem_alu_init mem (buf + 8);
     a1 \<leftarrow> imem_alu_init mem (buf + 20);
     a2 \<leftarrow> imem_alu_init mem (buf + 32);
     Some \<lparr>ii_idx = idx, b_m = imem_bm_init b0, b_kb = imem_bkb_init (drop_bit 4 h0),
           ii_pg = drop_bit 6 (b1 AND 0xc0), ii_np_kb = imem_npkb_init w2,
           ii_pg_kb = imem_pgkb_init (drop_bit 18 d2),
           ii_alu0 = a0, ii_alu1 = a1, ii_alu2 = a2\<rparr>
   }"

section \<open>Boost TCAM (\<open>ice_bst_tcam.c\<close>)\<close>

record ice_bst_tcam_item =
  ti_address :: u16
  ti_key :: "u8 list"
  ti_key_inv :: "u8 list"
  hit_idx_grp :: u8
  pg_pri :: u8
  ti_np_kb :: ice_np_keybuilder
  ti_pg_kb :: ice_pg_keybuilder
  ti_alu0 :: ice_alu
  ti_alu1 :: ice_alu
  ti_alu2 :: ice_alu

definition bst_alu_init :: "u8 list \<Rightarrow> nat \<Rightarrow> ice_alu option" where
  "bst_alu_init mem data = do {
     w0 \<leftarrow> ld 8 mem data;
     w1 \<leftarrow> ld 8 mem (data + 6);
     let d64 = drop_bit 7 (w0 :: u64);
     let e64 = drop_bit 9 (w1 :: u64);
     Some \<lparr>opc = ucast (d64 AND 0x3f),
      src_start = ucast (drop_bit 6 d64 AND 0xff),
      src_len = ucast (drop_bit 14 d64 AND 0x1f),
      shift_xlate_select = drop_bit 19 d64 AND 0x1 \<noteq> 0,
      shift_xlate_key = ucast (drop_bit 20 d64 AND 0xf),
      src_reg_id = ucast (drop_bit 24 d64 AND 0x7f),
      dst_reg_id = ucast (drop_bit 31 d64 AND 0x7f),
      inc0 = drop_bit 38 d64 AND 0x1 \<noteq> 0,
      inc1 = drop_bit 39 d64 AND 0x1 \<noteq> 0,
      proto_offset_opc = ucast (drop_bit 40 d64 AND 0x3),
      proto_offset = ucast (drop_bit 42 d64 AND 0xff),
      branch_addr = ucast (e64 AND 0xff),
      imm = ucast (drop_bit 8 e64 AND 0xffff),
      dedicate_flags_ena = drop_bit 24 e64 AND 0x1 \<noteq> 0,
      dst_start = ucast (drop_bit 25 e64 AND 0x3f),
      dst_len = ucast (drop_bit 31 e64 AND 0x3f),
      flags_extr_imm = drop_bit 37 e64 AND 0x1 \<noteq> 0,
      flags_start_imm = ucast (drop_bit 38 e64 AND 0xff)\<rparr>
   }"

definition bst_pgkb_init :: "u64 \<Rightarrow> ice_pg_keybuilder" where
  "bst_pgkb_init data =
     \<lparr>flag0_ena = data AND 0x1 \<noteq> 0,
      flag1_ena = drop_bit 7 data AND 0x1 \<noteq> 0,
      flag2_ena = drop_bit 14 data AND 0x1 \<noteq> 0,
      flag3_ena = drop_bit 21 data AND 0x1 \<noteq> 0,
      flag0_idx = ucast (drop_bit 1 data AND 0x3f),
      flag1_idx = ucast (drop_bit 8 data AND 0x3f),
      flag2_idx = ucast (drop_bit 15 data AND 0x3f),
      flag3_idx = ucast (drop_bit 22 data AND 0x3f),
      alu_reg_idx = ucast (drop_bit 28 data AND 0x7f)\<rparr>"

definition bst_npkb_init :: "u32 \<Rightarrow> ice_np_keybuilder" where
  "bst_npkb_init data =
     \<lparr>ops = ucast (data AND 0x3),
      start_or_reg0 = ucast (drop_bit 2 data AND 0xff),
      len_or_reg1 = ucast (drop_bit 10 data AND 0xff)\<rparr>"

text \<open>The byte loops that copy an array field.\<close>

definition ld_bytes :: "nat \<Rightarrow> u8 list \<Rightarrow> nat \<Rightarrow> u8 list option" where
  "ld_bytes n mem off = (if off + n \<le> length mem then Some (take n (drop off mem)) else None)"

definition bst_parse_item :: "u16 \<Rightarrow> u8 list \<Rightarrow> nat \<Rightarrow> ice_bst_tcam_item option" where
  "bst_parse_item idx mem buf = do {
     a \<leftarrow> ld 2 mem buf;
     k \<leftarrow> ld_bytes 20 mem (buf + 4);
     ki \<leftarrow> ld_bytes 20 mem (buf + 24);
     b44 \<leftarrow> ld 1 mem (buf + 44);
     b45 \<leftarrow> ld 1 mem (buf + 45);
     w45 \<leftarrow> ld 4 mem (buf + 45);
     d47 \<leftarrow> ld 8 mem (buf + 47);
     a0 \<leftarrow> bst_alu_init mem (buf + 51);
     a1 \<leftarrow> bst_alu_init mem (buf + 63);
     a2 \<leftarrow> bst_alu_init mem (buf + 75);
     Some \<lparr>ti_address = a, ti_key = k, ti_key_inv = ki, hit_idx_grp = b44, pg_pri = b45 AND 0x3,
           ti_np_kb = bst_npkb_init (drop_bit 2 w45), ti_pg_kb = bst_pgkb_init (drop_bit 4 d47),
           ti_alu0 = a0, ti_alu1 = a1, ti_alu2 = a2\<rparr>
   }"

section \<open>Reference layout of the instruction entries\<close>

text \<open>The documented 96-bit layout of an ALU entry that starts at bit \<open>p\<close>.\<close>

definition alu_layout :: "u8 list \<Rightarrow> nat \<Rightarrow> ice_alu" where
  "alu_layout e p =
     \<lparr>opc = entry_field e p 6,
      src_start = entry_field e (p + 6) 8,
      src_len = entry_field e (p + 14) 5,
      shift_xlate_select = entry_bit e (p + 19),
      shift_xlate_key = entry_field e (p + 20) 4,
      src_reg_id = entry_field e (p + 24) 7,
      dst_reg_id = entry_field e (p + 31) 7,
      inc0 = entry_bit e (p + 38),
      inc1 = entry_bit e (p + 39),
      proto_offset_opc = entry_field e (p + 40) 2,
      proto_offset = entry_field e (p + 42) 8,
      branch_addr = entry_field e (p + 50) 8,
      imm = entry_field e (p + 58) 16,
      dedicate_flags_ena = entry_bit e (p + 74),
      dst_start = entry_field e (p + 75) 6,
      dst_len = entry_field e (p + 81) 6,
      flags_extr_imm = entry_bit e (p + 87),
      flags_start_imm = entry_field e (p + 88) 8\<rparr>"

definition npkb_layout :: "u8 list \<Rightarrow> nat \<Rightarrow> ice_np_keybuilder" where
  "npkb_layout e p =
     \<lparr>ops = entry_field e p 2, start_or_reg0 = entry_field e (p + 2) 8,
      len_or_reg1 = entry_field e (p + 10) 8\<rparr>"

definition pgkb_layout :: "u8 list \<Rightarrow> nat \<Rightarrow> ice_pg_keybuilder" where
  "pgkb_layout e p =
     \<lparr>flag0_ena = entry_bit e p, flag1_ena = entry_bit e (p + 7),
      flag2_ena = entry_bit e (p + 14), flag3_ena = entry_bit e (p + 21),
      flag0_idx = entry_field e (p + 1) 6, flag1_idx = entry_field e (p + 8) 6,
      flag2_idx = entry_field e (p + 15) 6, flag3_idx = entry_field e (p + 22) 6,
      alu_reg_idx = entry_field e (p + 28) 7\<rparr>"

definition imem_layout :: "u16 \<Rightarrow> u8 list \<Rightarrow> ice_imem_item" where
  "imem_layout idx e =
     \<lparr>ii_idx = idx,
      b_m = \<lparr>al0 = entry_bit e 0, al1 = entry_bit e 1, al2 = entry_bit e 2, bm_pg = entry_bit e 3\<rparr>,
      b_kb = \<lparr>bkb_priority = entry_field e 4 8, tsr_ctrl = entry_bit e 12\<rparr>,
      ii_pg = entry_field e 14 2,
      ii_np_kb = npkb_layout e 16, ii_pg_kb = pgkb_layout e 34,
      ii_alu0 = alu_layout e 69, ii_alu1 = alu_layout e 165, ii_alu2 = alu_layout e 261\<rparr>"

definition bst_layout :: "u8 list \<Rightarrow> ice_bst_tcam_item" where
  "bst_layout e =
     \<lparr>ti_address = entry_field e 0 16, ti_key = take 20 (drop 4 e), ti_key_inv = take 20 (drop 24 e),
      hit_idx_grp = entry_field e 352 8, pg_pri = entry_field e 360 2,
      ti_np_kb = npkb_layout e 362, ti_pg_kb = pgkb_layout e 380,
      ti_alu0 = alu_layout e 415, ti_alu1 = alu_layout e 511, ti_alu2 = alu_layout e 607\<rparr>"

text \<open>Loads at the byte offsets of an entry, in the shapes the decoders use.\<close>

lemma load_field [decode_simps]:
  fixes off b w s n :: nat
  assumes "s + n \<le> 8 * w" "8 * w \<le> LENGTH('a)"
  shows "(ucast (take_bit n (drop_bit s (le_field (off + b) w mem :: 'a::len word))) :: 'b::len word)
       = entry_field (drop off mem) (8 * b + s) n"
  by (rule field_of_load [OF assms])

lemma load_field0 [decode_simps]:
  fixes off b w n :: nat
  assumes "n \<le> 8 * w" "8 * w \<le> LENGTH('a)"
  shows "(ucast (take_bit n (le_field (off + b) w mem :: 'a::len word)) :: 'b::len word)
       = entry_field (drop off mem) (8 * b) n"
  using field_of_load [where 'a = 'a and 'b = 'b and s = 0 and off = off and b = b] assms by simp

lemma load_here [decode_simps]:
  fixes off w s n :: nat
  assumes "s + n \<le> 8 * w" "8 * w \<le> LENGTH('a)"
  shows "(ucast (take_bit n (drop_bit s (le_field off w mem :: 'a::len word))) :: 'b::len word)
       = entry_field (drop off mem) s n"
  using field_of_load [where 'a = 'a and 'b = 'b and b = 0 and off = off] assms by simp

lemma load_here0 [decode_simps]:
  fixes off w n :: nat
  assumes "n \<le> 8 * w" "8 * w \<le> LENGTH('a)"
  shows "(ucast (take_bit n (le_field off w mem :: 'a::len word)) :: 'b::len word)
       = entry_field (drop off mem) 0 n"
  using load_here [where 'a = 'a and 'b = 'b and s = 0] assms by simp

lemma load_flag [decode_simps]:
  fixes off b w s :: nat
  assumes "s < 8 * w" "8 * w \<le> LENGTH('a)"
  shows "bit (le_field (off + b) w mem :: 'a::len word) s = entry_bit (drop off mem) (8 * b + s)"
  by (rule flag_of_load [OF assms])

lemma load_flag_here [decode_simps]:
  fixes off w s :: nat
  assumes "s < 8 * w" "8 * w \<le> LENGTH('a)"
  shows "bit (le_field off w mem :: 'a::len word) s = entry_bit (drop off mem) s"
  using flag_of_load [where 'a = 'a and b = 0 and off = off] assms by simp

lemma entry_field_drop [decode_simps]:
  "entry_field (drop (off + b) mem) s n = entry_field (drop off mem) (8 * b + s) n"
proof -
  have "drop (off + b) mem = drop b (drop off mem)" by (simp add: add.commute)
  then show ?thesis unfolding entry_field_def by (simp add: entry_bit_drop [of b "drop off mem"] ac_simps del: drop_drop)
qed

lemma entry_bit_drop_add [decode_simps]:
  "entry_bit (drop (off + b) mem) s = entry_bit (drop off mem) (8 * b + s)"
proof -
  have "drop (off + b) mem = drop b (drop off mem)" by (simp add: add.commute)
  then show ?thesis by (simp add: entry_bit_drop [of b "drop off mem"] del: drop_drop)
qed

lemmas bit_drop_and [decode_simps] = bit_drop_bit_eq drop_bit_drop_bit

lemma imem_alu_layout:
  assumes "off + 15 \<le> length mem"
  shows "imem_alu_init mem off = Some (alu_layout (drop off mem) 5)"
  using assms by (simp add: imem_alu_init_def alu_layout_def ld_def decode_simps)

lemma bst_alu_layout:
  assumes "off + 14 \<le> length mem"
  shows "bst_alu_init mem off = Some (alu_layout (drop off mem) 7)"
  using assms by (simp add: bst_alu_init_def alu_layout_def ld_def decode_simps)

text \<open>The same facts where no conversion follows the mask, and for single-bit masks.\<close>

lemma load_plain [decode_simps]:
  fixes off b w n :: nat
  assumes "n \<le> 8 * w" "8 * w \<le> LENGTH('a)"
  shows "(take_bit n (le_field (off + b) w mem) :: 'a::len word) = entry_field (drop off mem) (8 * b) n"
  using load_field0 [where 'a = 'a and 'b = 'a, OF assms] by simp

lemma load_whole:
  fixes off b w :: nat
  assumes "8 * w \<le> LENGTH('a)"
  shows "(le_field (off + b) w mem :: 'a::len word) = entry_field (drop off mem) (8 * b) (8 * w)"
proof -
  have "(take_bit (8 * w) (le_field (off + b) w mem) :: 'a word) = le_field (off + b) w mem"
    by (rule bit_word_eqI) (auto simp: bit_simps bit_le_field)
  then show ?thesis using load_plain [where 'a = 'a and n = "8 * w" and w = w and off = off and b = b and mem = mem] assms by simp
qed

lemma and_single_bit [decode_simps]:
  fixes x :: "'a::len word"
  shows "x AND 2 = 0 \<longleftrightarrow> \<not> bit x 1" "x AND 4 = 0 \<longleftrightarrow> \<not> bit x 2" "x AND 8 = 0 \<longleftrightarrow> \<not> bit x 3"
    "x AND 256 = 0 \<longleftrightarrow> \<not> bit x 8"
  using and_exp_eq_0_iff_not_bit [of x 1] and_exp_eq_0_iff_not_bit [of x 2]
    and_exp_eq_0_iff_not_bit [of x 3] and_exp_eq_0_iff_not_bit [of x 8] by simp_all

lemma alu_layout_drop: "alu_layout (drop (off + b) mem) p = alu_layout (drop off mem) (8 * b + p)"
  by (simp add: alu_layout_def decode_simps add.assoc)

lemma high_bits_byte: "drop_bit 6 (x AND 0xc0) = take_bit 2 (drop_bit 6 (x :: u8))"
proof -
  have "drop_bit 6 (0xc0 :: u8) = 3" by simp
  then have "drop_bit 6 (x AND 0xc0) = drop_bit 6 x AND 3" by (simp only: drop_bit_and)
  then show ?thesis by (simp only: mask_and)
qed

lemma ucast_entry_field [decode_simps]:
  assumes "n \<le> LENGTH('a)"
  shows "(ucast (entry_field e lo n :: 'a::len word) :: 'b::len word) = entry_field e lo n"
  using assms by (auto intro!: bit_word_eqI simp: bit_simps bit_entry_field)

lemma load_field_plain [decode_simps]:
  fixes off b w s n :: nat
  assumes "s + n \<le> 8 * w" "8 * w \<le> LENGTH('a)"
  shows "(take_bit n (drop_bit s (le_field (off + b) w mem)) :: 'a::len word)
       = entry_field (drop off mem) (8 * b + s) n"
  using field_of_load [where 'a = 'a and 'b = 'a, OF assms] by simp

lemma take_drop_add: "take n (drop (off + b) mem) = take n (drop b (drop off mem))"
  by (simp add: add.commute)

lemma imem_parse_item_layout:
  assumes "off + 48 \<le> length mem"
  shows "imem_parse_item idx mem off = Some (imem_layout idx (drop off mem))"
  using assms
  by (simp add: imem_parse_item_def imem_layout_def imem_alu_layout ld_def alu_layout_drop
      imem_bm_init_def imem_bkb_init_def imem_npkb_init_def imem_pgkb_init_def npkb_layout_def
      pgkb_layout_def high_bits_byte decode_simps
      del: add_2_eq_Suc' One_nat_def drop_bit_and)

lemma bst_parse_item_layout:
  assumes "off + 89 \<le> length mem"
  shows "bst_parse_item idx mem off = Some (bst_layout (drop off mem))"
proof -
  have "(le_field off 2 mem :: u16) = entry_field (drop off mem) 0 16"
    using load_whole [where 'a = 16 and w = 2 and off = off and b = 0 and mem = mem] by simp
  moreover have "(le_field (off + 44) 1 mem :: u8) = entry_field (drop off mem) 352 8"
    using load_whole [where 'a = 8 and w = 1 and off = off and b = 44 and mem = mem] by simp
  ultimately show ?thesis
    using assms
    by (simp add: bst_parse_item_def bst_layout_def bst_alu_layout ld_def ld_bytes_def alu_layout_drop
        bst_npkb_init_def bst_pgkb_init_def npkb_layout_def pgkb_layout_def decode_simps
        take_drop_add del: One_nat_def drop_drop)
qed

end
