(* ===== verification/Ice_Parser_Cam.thy ===== *)
theory Ice_Parser_Cam
  imports Ice_Parser_Tables
begin

text \<open>
  The remaining tables of the packet parser: metadata initialisation, the four
  parse-graph CAMs, the marker, protocol and flag tables and the key builders,
  and the searches over them (exact match for the CAMs, ternary match for the
  boost and packet-type TCAMs).
\<close>

section \<open>Metadata initialisation (\<open>ice_metainit.c\<close>)\<close>

record ice_metainit_item =
  mi_idx :: u16
  mi_tsr :: u8
  mi_ho :: u16
  mi_pc :: u16
  mi_pg_rn :: u16
  mi_cd :: u8
  gpr_a_ctrl :: bool
  gpr_a_data_mdid :: u8
  gpr_a_data_start :: u8
  gpr_a_data_len :: u8
  gpr_a_id :: u8
  gpr_b_ctrl :: bool
  gpr_b_data_mdid :: u8
  gpr_b_data_start :: u8
  gpr_b_data_len :: u8
  gpr_b_id :: u8
  gpr_c_ctrl :: bool
  gpr_c_data_mdid :: u8
  gpr_c_data_start :: u8
  gpr_c_data_len :: u8
  gpr_c_id :: u8
  gpr_d_ctrl :: bool
  gpr_d_data_mdid :: u8
  gpr_d_data_start :: u8
  gpr_d_data_len :: u8
  gpr_d_id :: u8
  mi_flags :: u64

definition metainit_parse_item :: "u16 \<Rightarrow> u8 list \<Rightarrow> nat \<Rightarrow> ice_metainit_item option" where
  "metainit_parse_item idx mem buf = do {
     d0 \<leftarrow> ld 8 mem buf;
     w7 \<leftarrow> ld 8 mem (buf + 7);
     w14 \<leftarrow> ld 8 mem (buf + 14);
     w15 \<leftarrow> ld 8 mem (buf + 15);
     w16 \<leftarrow> ld 8 mem (buf + 16);
     let d7 = drop_bit 4 (w7 :: u64);
     let d14 = drop_bit 7 (w14 :: u64);
     let d15 = drop_bit 3 (w15 :: u64);
     let d16 = drop_bit 56 (w16 :: u64) AND 0x7;
     Some \<lparr>mi_idx = idx,
      mi_tsr = ucast ((d0 :: u64) AND 0xff),
      mi_ho = ucast (drop_bit 8 d0 AND 0x1ff),
      mi_pc = ucast (drop_bit 17 d0 AND 0xff),
      mi_pg_rn = ucast (drop_bit 25 d0 AND 0x3ff),
      mi_cd = ucast (drop_bit 36 d0 AND 0x7),
      gpr_a_ctrl = drop_bit 39 d0 AND 0x1 \<noteq> 0,
      gpr_a_data_mdid = ucast (drop_bit 40 d0 AND 0x1f),
      gpr_a_data_start = ucast (drop_bit 45 d0 AND 0xf),
      gpr_a_data_len = ucast (drop_bit 49 d0 AND 0x1f),
      gpr_a_id = ucast (drop_bit 56 d0 AND 0xf),
      gpr_b_ctrl = d7 AND 0x1 \<noteq> 0,
      gpr_b_data_mdid = ucast (drop_bit 1 d7 AND 0x1f),
      gpr_b_data_start = ucast (drop_bit 6 d7 AND 0xf),
      gpr_b_data_len = ucast (drop_bit 10 d7 AND 0x1f),
      gpr_b_id = ucast (drop_bit 17 d7 AND 0xf),
      gpr_c_ctrl = drop_bit 21 d7 AND 0x1 \<noteq> 0,
      gpr_c_data_mdid = ucast (drop_bit 22 d7 AND 0x1f),
      gpr_c_data_start = ucast (drop_bit 27 d7 AND 0xf),
      gpr_c_data_len = ucast (drop_bit 31 d7 AND 0x1f),
      gpr_c_id = ucast (drop_bit 38 d7 AND 0xf),
      gpr_d_ctrl = drop_bit 42 d7 AND 0x1 \<noteq> 0,
      gpr_d_data_mdid = ucast (drop_bit 43 d7 AND 0x1f),
      gpr_d_data_start = ucast (drop_bit 48 d7 AND 0xf),
      gpr_d_data_len = ucast (drop_bit 52 d7 AND 0x1f),
      gpr_d_id = ucast (d14 AND 0xf),
      mi_flags = d15 OR push_bit 61 d16\<rparr>
   }"

section \<open>Parse-graph CAMs (\<open>ice_pg_cam.c\<close>)\<close>

abbreviation (input) ICE_PG_CAM_TABLE_SIZE :: nat where "ICE_PG_CAM_TABLE_SIZE \<equiv> 2048"
abbreviation (input) ICE_PG_SP_CAM_TABLE_SIZE :: nat where "ICE_PG_SP_CAM_TABLE_SIZE \<equiv> 128"
abbreviation (input) ICE_PG_NM_CAM_TABLE_SIZE :: nat where "ICE_PG_NM_CAM_TABLE_SIZE \<equiv> 1024"
abbreviation (input) ICE_PG_NM_SP_CAM_TABLE_SIZE :: nat where "ICE_PG_NM_SP_CAM_TABLE_SIZE \<equiv> 64"

text \<open>The no-match key has the fields of the full key but \<open>next_proto\<close>.\<close>

record ice_pg_nm_cam_key =
  k_valid :: bool
  k_node_id :: u16
  k_flag0 :: bool
  k_flag1 :: bool
  k_flag2 :: bool
  k_flag3 :: bool
  k_boost_idx :: u8
  k_alu_reg :: u16

record ice_pg_cam_key = ice_pg_nm_cam_key +
  k_next_proto :: u32

record ice_pg_cam_action =
  next_node :: u16
  next_pc :: u8
  is_pg :: bool
  act_proto_id :: u8
  is_mg :: bool
  marker_id :: u8
  is_last_round :: bool
  ho_polarity :: bool
  ho_inc :: u16

record ice_pg_cam_item =
  ci_idx :: u16
  ci_key :: ice_pg_cam_key
  ci_action :: ice_pg_cam_action

record ice_pg_nm_cam_item =
  ni_idx :: u16
  ni_key :: ice_pg_nm_cam_key
  ni_action :: ice_pg_cam_action

definition pg_cam_action_init :: "u64 \<Rightarrow> ice_pg_cam_action" where
  "pg_cam_action_init data =
     \<lparr>next_node = ucast (data AND 0x7ff),
      next_pc = ucast (drop_bit 11 data AND 0xff),
      is_pg = drop_bit 19 data AND 0x1 \<noteq> 0,
      act_proto_id = ucast (drop_bit 23 data AND 0xff),
      is_mg = drop_bit 31 data AND 0x1 \<noteq> 0,
      marker_id = ucast (drop_bit 32 data AND 0xff),
      is_last_round = drop_bit 40 data AND 0x1 \<noteq> 0,
      ho_polarity = drop_bit 41 data AND 0x1 \<noteq> 0,
      ho_inc = ucast (drop_bit 42 data AND 0x1ff)\<rparr>"

definition pg_nm_cam_key_init :: "u64 \<Rightarrow> ice_pg_nm_cam_key" where
  "pg_nm_cam_key_init data =
     \<lparr>k_valid = data AND 0x1 \<noteq> 0,
      k_node_id = ucast (drop_bit 1 data AND 0x7ff),
      k_flag0 = drop_bit 12 data AND 0x1 \<noteq> 0,
      k_flag1 = drop_bit 13 data AND 0x1 \<noteq> 0,
      k_flag2 = drop_bit 14 data AND 0x1 \<noteq> 0,
      k_flag3 = drop_bit 15 data AND 0x1 \<noteq> 0,
      k_boost_idx = (if drop_bit 16 data AND 0x1 \<noteq> 0 then ucast (drop_bit 17 data AND 0xff) else 0),
      k_alu_reg = ucast (drop_bit 25 data AND 0xffff)\<rparr>"

definition pg_cam_key_init :: "u8 list \<Rightarrow> nat \<Rightarrow> ice_pg_cam_key option" where
  "pg_cam_key_init mem data = do {
     d64 \<leftarrow> ld 8 mem data;
     w5 \<leftarrow> ld 4 mem (data + 5);
     b9 \<leftarrow> ld 1 mem (data + 9);
     Some \<lparr>k_valid = (d64 :: u64) AND 0x1 \<noteq> 0,
      k_node_id = ucast (drop_bit 1 d64 AND 0x7ff),
      k_flag0 = drop_bit 12 d64 AND 0x1 \<noteq> 0,
      k_flag1 = drop_bit 13 d64 AND 0x1 \<noteq> 0,
      k_flag2 = drop_bit 14 d64 AND 0x1 \<noteq> 0,
      k_flag3 = drop_bit 15 d64 AND 0x1 \<noteq> 0,
      k_boost_idx = (if drop_bit 16 d64 AND 0x1 \<noteq> 0 then ucast (drop_bit 17 d64 AND 0xff) else 0),
      k_alu_reg = ucast (drop_bit 25 d64 AND 0xffff),
      k_next_proto = drop_bit 1 (w5 :: u32) OR push_bit 31 (ucast ((b9 :: u8) AND 0x1))\<rparr>
   }"

definition pg_cam_parse_item :: "u16 \<Rightarrow> u8 list \<Rightarrow> nat \<Rightarrow> ice_pg_cam_item option" where
  "pg_cam_parse_item idx mem buf = do {
     w9 \<leftarrow> ld 8 mem (buf + 9);
     key \<leftarrow> pg_cam_key_init mem buf;
     Some \<lparr>ci_idx = idx, ci_key = key, ci_action = pg_cam_action_init (drop_bit 1 w9)\<rparr>
   }"

definition pg_sp_cam_parse_item :: "u16 \<Rightarrow> u8 list \<Rightarrow> nat \<Rightarrow> ice_pg_cam_item option" where
  "pg_sp_cam_parse_item idx mem buf = do {
     d64 \<leftarrow> ld 8 mem buf;
     key \<leftarrow> pg_cam_key_init mem (buf + 7);
     Some \<lparr>ci_idx = idx, ci_key = key, ci_action = pg_cam_action_init d64\<rparr>
   }"

definition pg_nm_cam_parse_item :: "u16 \<Rightarrow> u8 list \<Rightarrow> nat \<Rightarrow> ice_pg_nm_cam_item option" where
  "pg_nm_cam_parse_item idx mem buf = do {
     d64 \<leftarrow> ld 8 mem buf;
     w5 \<leftarrow> ld 8 mem (buf + 5);
     Some \<lparr>ni_idx = idx, ni_key = pg_nm_cam_key_init d64, ni_action = pg_cam_action_init (drop_bit 1 w5)\<rparr>
   }"

definition pg_nm_sp_cam_parse_item :: "u16 \<Rightarrow> u8 list \<Rightarrow> nat \<Rightarrow> ice_pg_nm_cam_item option" where
  "pg_nm_sp_cam_parse_item idx mem buf = do {
     d64 \<leftarrow> ld 8 mem buf;
     w7 \<leftarrow> ld 8 mem (buf + 7);
     Some \<lparr>ni_idx = idx, ni_key = pg_nm_cam_key_init w7, ni_action = pg_cam_action_init d64\<rparr>
   }"

text \<open>\<open>_pg_cam_match\<close> and \<open>_pg_nm_cam_match\<close> of \<open>ice_pg_cam.c\<close>: one item against a key.\<close>

definition pg_cam_item_match :: "ice_pg_cam_item \<Rightarrow> ice_pg_cam_key \<Rightarrow> bool" where
  "pg_cam_item_match item key =
     (if \<not> k_valid (ci_key item) \<or>
         k_node_id (ci_key item) \<noteq> k_node_id key \<or>
         k_flag0 (ci_key item) \<noteq> k_flag0 key \<or>
         k_flag1 (ci_key item) \<noteq> k_flag1 key \<or>
         k_flag2 (ci_key item) \<noteq> k_flag2 key \<or>
         k_flag3 (ci_key item) \<noteq> k_flag3 key \<or>
         k_boost_idx (ci_key item) \<noteq> k_boost_idx key \<or>
         k_alu_reg (ci_key item) \<noteq> k_alu_reg key \<or>
         k_next_proto (ci_key item) \<noteq> k_next_proto key
      then False else True)"

definition pg_nm_cam_item_match :: "ice_pg_nm_cam_item \<Rightarrow> ice_pg_cam_key \<Rightarrow> bool" where
  "pg_nm_cam_item_match item key =
     (if \<not> k_valid (ni_key item) \<or>
         k_node_id (ni_key item) \<noteq> k_node_id key \<or>
         k_flag0 (ni_key item) \<noteq> k_flag0 key \<or>
         k_flag1 (ni_key item) \<noteq> k_flag1 key \<or>
         k_flag2 (ni_key item) \<noteq> k_flag2 key \<or>
         k_flag3 (ni_key item) \<noteq> k_flag3 key \<or>
         k_boost_idx (ni_key item) \<noteq> k_boost_idx key \<or>
         k_alu_reg (ni_key item) \<noteq> k_alu_reg key
      then False else True)"

text \<open>
  The searches scan the first \<open>sz\<close> items; a table is the array of that many
  items its \<open>_table_get\<close> function allocates.
\<close>

definition ice_pg_cam_match :: "ice_pg_cam_item list \<Rightarrow> nat \<Rightarrow> ice_pg_cam_key \<Rightarrow> ice_pg_cam_item option" where
  "ice_pg_cam_match table sz key = List.find (\<lambda>item. pg_cam_item_match item key) (take sz table)"

definition ice_pg_nm_cam_match ::
  "ice_pg_nm_cam_item list \<Rightarrow> nat \<Rightarrow> ice_pg_cam_key \<Rightarrow> ice_pg_nm_cam_item option" where
  "ice_pg_nm_cam_match table sz key = List.find (\<lambda>item. pg_nm_cam_item_match item key) (take sz table)"

section \<open>Ternary match (\<open>ice_tmatch.h\<close>)\<close>

text \<open>One iteration of the bit loop: \<open>True\<close> where the loop goes on.\<close>

definition ternary_bit :: "u8 \<Rightarrow> u8 \<Rightarrow> u8 \<Rightarrow> nat \<Rightarrow> bool" where
  "ternary_bit key key_inv pat i =
     (let k1 = key AND push_bit i 1; k2 = key_inv AND push_bit i 1; v = pat AND push_bit i 1 in
      if k1 \<noteq> 0 \<and> k2 \<noteq> 0 then True
      else if k1 = 0 \<and> k2 = 0 then False
      else if k1 = v then False
      else True)"

definition ice_ternary_match_byte :: "u8 \<Rightarrow> u8 \<Rightarrow> u8 \<Rightarrow> bool" where
  "ice_ternary_match_byte key key_inv pat = list_all (ternary_bit key key_inv pat) [0..<8]"

definition ice_ternary_match :: "u8 list \<Rightarrow> u8 list \<Rightarrow> u8 list \<Rightarrow> nat \<Rightarrow> bool" where
  "ice_ternary_match key key_inv pat len =
     list_all (\<lambda>i. ice_ternary_match_byte (key ! i) (key_inv ! i) (pat ! i)) [0..<len]"

text \<open>
  The encoding of a ternary bit: \<open>key\<close> says that a 0 is accepted, \<open>key_inv\<close> that
  a 1 is.
\<close>

lemma ternary_bit_iff:
  assumes "i < 8"
  shows "ternary_bit key key_inv pat i \<longleftrightarrow> (if bit pat i then bit key_inv i else bit key i)"
proof -
  have m: "x AND push_bit i 1 = (if bit x i then push_bit i 1 else 0)" for x :: u8
    by (rule and_push_bit_1)
  have "push_bit i (1 :: u8) \<noteq> 0" using push_bit_1_neq_0 [of i, where 'a = 8] assms by simp
  then show ?thesis unfolding ternary_bit_def Let_def m by (simp del: push_bit_of_1)
qed

lemma ternary_match_byte_iff:
  "ice_ternary_match_byte key key_inv pat \<longleftrightarrow> (pat AND key_inv) OR (NOT pat AND key) = - 1"
proof -
  have "ice_ternary_match_byte key key_inv pat \<longleftrightarrow>
      (\<forall>i < 8. if bit pat i then bit key_inv i else bit key i)"
    by (auto simp: ice_ternary_match_byte_def list_all_iff ternary_bit_iff)
  also have "\<dots> \<longleftrightarrow> (\<forall>i < LENGTH(8). bit ((pat AND key_inv) OR (NOT pat AND key)) i = bit (- 1 :: u8) i)"
    by (auto simp: bit_simps)
  also have "\<dots> \<longleftrightarrow> (pat AND key_inv) OR (NOT pat AND key) = - 1"
    by (metis bit_word_eqI)
  finally show ?thesis .
qed

lemma ternary_match_iff:
  "ice_ternary_match key key_inv pat len \<longleftrightarrow>
     (\<forall>i < len. (pat ! i AND key_inv ! i) OR (NOT (pat ! i) AND key ! i) = - 1)"
  by (auto simp: ice_ternary_match_def list_all_iff ternary_match_byte_iff)

section \<open>Boost TCAM and packet-type searches\<close>

abbreviation (input) ICE_BST_TCAM_TABLE_SIZE :: nat where "ICE_BST_TCAM_TABLE_SIZE \<equiv> 256"
abbreviation (input) ICE_PTYPE_MK_TCAM_TABLE_SIZE :: nat where "ICE_PTYPE_MK_TCAM_TABLE_SIZE \<equiv> 1024"

record ice_lbl_item =
  lbl_idx :: u16
  lbl_label :: "u8 list"

definition parse_lbl_item :: "u16 \<Rightarrow> u8 list \<Rightarrow> nat \<Rightarrow> ice_lbl_item option" where
  "parse_lbl_item idx mem data = do {
     i \<leftarrow> ld 2 mem data;
     l \<leftarrow> ld_bytes 64 mem (data + 2);
     Some \<lparr>lbl_idx = i, lbl_label = l\<rparr>
   }"

definition ice_bst_tcam_match :: "ice_bst_tcam_item list \<Rightarrow> u8 list \<Rightarrow> ice_bst_tcam_item option" where
  "ice_bst_tcam_match tcam_table pat =
     List.find (\<lambda>item. hit_idx_grp item \<noteq> 0 \<and> ice_ternary_match (ti_key item) (ti_key_inv item) pat 20)
       (take ICE_BST_TCAM_TABLE_SIZE tcam_table)"

text \<open>C strings: the bytes before the first NUL.\<close>

definition c_string :: "u8 list \<Rightarrow> u8 list" where
  "c_string bs = takeWhile (\<lambda>b. b \<noteq> 0) bs"

definition start_with :: "u8 list \<Rightarrow> u8 list \<Rightarrow> bool" where
  "start_with prefix str =
     (let len1 = length (c_string prefix); len2 = length (c_string str) in
      if len2 < len1 then False else take len1 prefix = take len1 str)"

text \<open>
  \<open>ice_bst_tcam_search\<close> returns the position of the label and the index of the
  boost entry the label names; the entry itself is \<open>tcam_table\<close> at that index.
\<close>

definition ice_bst_tcam_search :: "ice_lbl_item list \<Rightarrow> u8 list \<Rightarrow> nat \<Rightarrow> (nat \<times> nat) option" where
  "ice_bst_tcam_search lbl_table prefix start =
     map_option (\<lambda>i. (i, unat (lbl_idx (lbl_table ! i))))
       (List.find (\<lambda>i. start_with prefix (lbl_label (lbl_table ! i))) [start..<ICE_BST_TCAM_TABLE_SIZE])"

record ice_ptype_mk_tcam_item =
  mt_address :: u16
  mt_ptype :: u16
  mt_key :: "u8 list"
  mt_key_inv :: "u8 list"

definition parse_ptype_mk_tcam_item :: "u16 \<Rightarrow> u8 list \<Rightarrow> nat \<Rightarrow> ice_ptype_mk_tcam_item option" where
  "parse_ptype_mk_tcam_item idx mem data = do {
     a \<leftarrow> ld 2 mem data;
     p \<leftarrow> ld 2 mem (data + 2);
     k \<leftarrow> ld_bytes 10 mem (data + 4);
     ki \<leftarrow> ld_bytes 10 mem (data + 14);
     Some \<lparr>mt_address = a, mt_ptype = p, mt_key = k, mt_key_inv = ki\<rparr>
   }"

definition ice_ptype_mk_tcam_match ::
  "ice_ptype_mk_tcam_item list \<Rightarrow> u8 list \<Rightarrow> nat \<Rightarrow> ice_ptype_mk_tcam_item option" where
  "ice_ptype_mk_tcam_match table pat len =
     List.find (\<lambda>item. ice_ternary_match (mt_key item) (mt_key_inv item) pat len)
       (take ICE_PTYPE_MK_TCAM_TABLE_SIZE table)"

section \<open>Marker and protocol groups (\<open>ice_mk_grp.c\<close>, \<open>ice_proto_grp.c\<close>)\<close>

abbreviation (input) ICE_MK_GRP_TABLE_SIZE :: nat where "ICE_MK_GRP_TABLE_SIZE \<equiv> 128"
abbreviation (input) ICE_PROTO_GRP_TABLE_SIZE :: nat where "ICE_PROTO_GRP_TABLE_SIZE \<equiv> 192"

record ice_mk_grp_item =
  mg_idx :: int
  markers :: "u8 list"

definition mk_grp_parse_item :: "u16 \<Rightarrow> u8 list \<Rightarrow> nat \<Rightarrow> ice_mk_grp_item option" where
  "mk_grp_parse_item idx mem data = do {
     ms \<leftarrow> ld_bytes 8 mem data;
     Some \<lparr>mg_idx = uint idx, markers = ms\<rparr>
   }"

record ice_proto_off =
  po_polarity :: bool
  po_proto_id :: u8
  po_offset :: u16

record ice_proto_grp_item =
  pgi_idx :: u16
  pgi_po :: "ice_proto_off list"

definition proto_off_parse :: "u32 \<Rightarrow> ice_proto_off" where
  "proto_off_parse data =
     \<lparr>po_polarity = data AND 0x1 \<noteq> 0,
      po_proto_id = ucast (drop_bit 1 data AND 0xff),
      po_offset = ucast (drop_bit 12 data AND 0x3ff)\<rparr>"

definition proto_grp_parse_item :: "u16 \<Rightarrow> u8 list \<Rightarrow> nat \<Rightarrow> ice_proto_grp_item option" where
  "proto_grp_parse_item idx mem buf = do {
     d0 \<leftarrow> ld 4 mem buf;
     d1 \<leftarrow> ld 4 mem (buf + 2);
     d2 \<leftarrow> ld 4 mem (buf + 5);
     d3 \<leftarrow> ld 4 mem (buf + 8);
     d4 \<leftarrow> ld 4 mem (buf + 11);
     d5 \<leftarrow> ld 4 mem (buf + 13);
     d6 \<leftarrow> ld 4 mem (buf + 16);
     d7 \<leftarrow> ld 4 mem (buf + 19);
     Some \<lparr>pgi_idx = idx,
       pgi_po = [proto_off_parse d0, proto_off_parse (drop_bit 6 d1), proto_off_parse (drop_bit 4 d2),
                 proto_off_parse (drop_bit 2 d3), proto_off_parse d4, proto_off_parse (drop_bit 6 d5),
                 proto_off_parse (drop_bit 4 d6), proto_off_parse (drop_bit 2 d7)]\<rparr>
   }"

text \<open>The documented layout: eight entries of 22 bits each.\<close>

definition proto_off_layout :: "u8 list \<Rightarrow> nat \<Rightarrow> ice_proto_off" where
  "proto_off_layout e p =
     \<lparr>po_polarity = entry_bit e p, po_proto_id = entry_field e (p + 1) 8,
      po_offset = entry_field e (p + 12) 10\<rparr>"

lemma proto_grp_parse_item_layout:
  assumes "off + 23 \<le> length mem"
  shows "proto_grp_parse_item idx mem off =
    Some \<lparr>pgi_idx = idx, pgi_po = map (\<lambda>i. proto_off_layout (drop off mem) (22 * i)) [0..<8]\<rparr>"
  using assms
  by (simp add: proto_grp_parse_item_def proto_off_parse_def proto_off_layout_def ld_def decode_simps
      upt_conv_Cons del: add_2_eq_Suc')

section \<open>Flag redirection (\<open>ice_flg_rd.c\<close>)\<close>

abbreviation (input) ICE_FLG_RD_TABLE_SIZE :: nat where "ICE_FLG_RD_TABLE_SIZE \<equiv> 64"

record ice_flg_rd_item =
  rdi_idx :: u16
  expose :: bool
  intr_flg_id :: u8

definition flg_rd_parse_item :: "u16 \<Rightarrow> u8 list \<Rightarrow> nat \<Rightarrow> ice_flg_rd_item option" where
  "flg_rd_parse_item idx mem data = do {
     d8 \<leftarrow> ld 1 mem data;
     Some \<lparr>rdi_idx = idx, expose = (d8 :: u8) AND 0x1 \<noteq> 0, intr_flg_id = drop_bit 1 d8 AND 0x3f\<rparr>
   }"

definition flg_redirect_step :: "ice_flg_rd_item list \<Rightarrow> u64 \<Rightarrow> nat \<Rightarrow> u64 \<Rightarrow> u64" where
  "flg_redirect_step table psr_flg i flg =
     (let item = table ! i in
      if \<not> expose item then flg
      else if psr_flg AND push_bit (unat (intr_flg_id item)) 1 \<noteq> 0 then flg OR push_bit i 1
      else flg)"

definition ice_flg_redirect :: "ice_flg_rd_item list \<Rightarrow> u64 \<Rightarrow> u64" where
  "ice_flg_redirect table psr_flg = fold (flg_redirect_step table psr_flg) [0..<64] 0"

section \<open>Key builders (\<open>ice_xlt_kb.c\<close>)\<close>

record ice_xlt_kb_entry =
  xlt1_ad_sel :: u8
  xlt2_ad_sel :: u8
  flg0_14_sel :: "u16 list"
  xlt1_md_sel :: u8
  xlt2_md_sel :: u8

record ice_xlt_kb =
  xlt1_pm :: u8
  xlt2_pm :: u8
  prof_id_pm :: u8
  flag15 :: u64
  kb_entries :: "ice_xlt_kb_entry list"

definition kb_entry_init :: "u8 list \<Rightarrow> nat \<Rightarrow> ice_xlt_kb_entry option" where
  "kb_entry_init mem data = do {
     d64 \<leftarrow> ld 8 mem (data + 4);
     w11 \<leftarrow> ld 8 mem (data + 11);
     w18 \<leftarrow> ld 8 mem (data + 18);
     let e64 = drop_bit 4 (w11 :: u64);
     let f64 = drop_bit 2 (w18 :: u64);
     Some \<lparr>xlt1_ad_sel = ucast ((d64 :: u64) AND 0x7),
      xlt2_ad_sel = ucast (drop_bit 3 d64 AND 0x7),
      flg0_14_sel =
        [ucast (drop_bit 6 d64 AND 0x1ff), ucast (drop_bit 15 d64 AND 0x1ff),
         ucast (drop_bit 24 d64 AND 0x1ff), ucast (drop_bit 33 d64 AND 0x1ff),
         ucast (drop_bit 42 d64 AND 0x1ff), ucast (drop_bit 51 d64 AND 0x1ff),
         ucast (e64 AND 0x1ff), ucast (drop_bit 9 e64 AND 0x1ff),
         ucast (drop_bit 18 e64 AND 0x1ff), ucast (drop_bit 27 e64 AND 0x1ff),
         ucast (drop_bit 36 e64 AND 0x1ff), ucast (drop_bit 45 e64 AND 0x1ff),
         ucast (f64 AND 0x1ff), ucast (drop_bit 9 f64 AND 0x1ff),
         ucast (drop_bit 18 f64 AND 0x1ff)],
      xlt1_md_sel = ucast (drop_bit 36 f64 AND 0x1f),
      xlt2_md_sel = ucast (drop_bit 41 f64 AND 0x1f)\<rparr>
   }"

primrec kb_entries_init :: "nat \<Rightarrow> u8 list \<Rightarrow> nat \<Rightarrow> ice_xlt_kb_entry list option" where
  "kb_entries_init 0 mem buf = Some []"
| "kb_entries_init (Suc n) mem buf = do {
     es \<leftarrow> kb_entries_init n mem buf;
     e \<leftarrow> kb_entry_init mem (buf + (12 + n * 24));
     Some (es @ [e])
   }"

definition parse_kb_data :: "u8 list \<Rightarrow> nat \<Rightarrow> ice_xlt_kb option" where
  "parse_kb_data mem buf = do {
     b0 \<leftarrow> ld 1 mem buf;
     b1 \<leftarrow> ld 1 mem (buf + 1);
     b2 \<leftarrow> ld 1 mem (buf + 2);
     f15 \<leftarrow> ld 8 mem (buf + 4);
     es \<leftarrow> kb_entries_init 8 mem buf;
     Some \<lparr>xlt1_pm = b0, xlt2_pm = b1, prof_id_pm = b2, flag15 = f15, kb_entries = es\<rparr>
   }"

definition xlt_kb_flag_step :: "ice_xlt_kb_entry \<Rightarrow> u64 \<Rightarrow> nat \<Rightarrow> u16 \<Rightarrow> u16" where
  "xlt_kb_flag_step entry pkt_flag i flg =
     (let idx = flg0_14_sel entry ! i AND 0x3f in
      if pkt_flag AND push_bit (unat idx) 1 \<noteq> 0 then flg OR push_bit i 1 else flg)"

definition ice_xlt_kb_flag_get :: "ice_xlt_kb \<Rightarrow> u64 \<Rightarrow> u16" where
  "ice_xlt_kb_flag_get kb pkt_flag =
     (let entry = kb_entries kb ! 0;
          flg = if flag15 kb AND pkt_flag \<noteq> 0 then push_bit 15 1 else 0 in
      fold (xlt_kb_flag_step entry pkt_flag) [0..<15] flg)"

section \<open>Reference layout of the CAM and key-builder entries\<close>

text \<open>
  The bit ranges the code uses.  They are the documented ones, but for two
  entries: the comment on the CAM action places every field after
  \<open>next_node\<close> one bit higher than the code does, and the comment on the metadata
  entry gives the root node eleven bits of which the code keeps ten.
\<close>

definition action_layout :: "u8 list \<Rightarrow> nat \<Rightarrow> ice_pg_cam_action" where
  "action_layout e p =
     \<lparr>next_node = entry_field e p 11, next_pc = entry_field e (p + 11) 8, is_pg = entry_bit e (p + 19),
      act_proto_id = entry_field e (p + 23) 8, is_mg = entry_bit e (p + 31),
      marker_id = entry_field e (p + 32) 8, is_last_round = entry_bit e (p + 40),
      ho_polarity = entry_bit e (p + 41), ho_inc = entry_field e (p + 42) 9\<rparr>"

definition nm_key_layout :: "u8 list \<Rightarrow> nat \<Rightarrow> ice_pg_nm_cam_key" where
  "nm_key_layout e p =
     \<lparr>k_valid = entry_bit e p, k_node_id = entry_field e (p + 1) 11,
      k_flag0 = entry_bit e (p + 12), k_flag1 = entry_bit e (p + 13),
      k_flag2 = entry_bit e (p + 14), k_flag3 = entry_bit e (p + 15),
      k_boost_idx = (if entry_bit e (p + 16) then entry_field e (p + 17) 8 else 0),
      k_alu_reg = entry_field e (p + 25) 16\<rparr>"

definition key_layout :: "u8 list \<Rightarrow> nat \<Rightarrow> ice_pg_cam_key" where
  "key_layout e p =
     \<lparr>k_valid = entry_bit e p, k_node_id = entry_field e (p + 1) 11,
      k_flag0 = entry_bit e (p + 12), k_flag1 = entry_bit e (p + 13),
      k_flag2 = entry_bit e (p + 14), k_flag3 = entry_bit e (p + 15),
      k_boost_idx = (if entry_bit e (p + 16) then entry_field e (p + 17) 8 else 0),
      k_alu_reg = entry_field e (p + 25) 16, k_next_proto = entry_field e (p + 41) 32\<rparr>"

text \<open>A field that is put together from two loads.\<close>

lemma entry_field_split:
  assumes "a + b = n" "n \<le> LENGTH('a)"
  shows "(entry_field e lo n :: 'a::len word) = entry_field e lo a OR push_bit a (entry_field e (lo + a) b)"
  using assms
  by (intro bit_word_eqI) (auto simp: bit_simps bit_entry_field not_less)

lemma take_bit_shifted_load:
  fixes off b w s :: nat
  assumes "8 * w = LENGTH('a)" "s \<le> 8 * w"
  shows "drop_bit s (le_field (off + b) w mem :: 'a::len word)
       = entry_field (drop off mem) (8 * b + s) (8 * w - s)"
proof -
  have "drop_bit s (le_field (off + b) w mem :: 'a word)
      = take_bit (8 * w - s) (drop_bit s (le_field (off + b) w mem :: 'a word))"
    using assms by (intro bit_word_eqI) (auto simp: bit_simps dest: bit_imp_le_length)
  then show ?thesis using load_field_plain [where 'a = 'a and s = s and n = "8 * w - s" and w = w] assms
    by simp
qed

lemma pg_cam_key_layout:
  assumes "off + 10 \<le> length mem"
  shows "pg_cam_key_init mem off = Some (key_layout (drop off mem) 0)"
proof -
  let ?e = "drop off mem"
  have w: "drop_bit 1 (le_field (off + 5) 4 mem :: u32) = entry_field ?e 41 31"
    using take_bit_shifted_load [where 'a = 32 and w = 4 and s = 1 and off = off and b = 5 and mem = mem]
    by simp
  have b: "(ucast (le_field (off + 9) 1 mem AND 1 :: u8) :: u32) = entry_field ?e 72 1"
    using load_field0 [where 'a = 8 and 'b = 32 and n = 1 and w = 1 and off = off and b = 9 and mem = mem]
    by (simp add: take_bit_eq_mask)
  have "(entry_field ?e 41 32 :: u32)
      = drop_bit 1 (le_field (off + 5) 4 mem) OR push_bit 31 (ucast (le_field (off + 9) 1 mem AND 1 :: u8))"
    unfolding w b using entry_field_split [where 'a = 32 and a = 31 and b = 1 and n = 32 and e = ?e and lo = 41]
    by simp
  then show ?thesis
    using assms by (simp add: pg_cam_key_init_def key_layout_def ld_def decode_simps)
qed

lemma key_layout_drop: "key_layout (drop (off + b) mem) p = key_layout (drop off mem) (8 * b + p)"
  by (simp add: key_layout_def decode_simps add.assoc)

lemma pg_cam_parse_item_layout:
  assumes "off + 17 \<le> length mem"
  shows "pg_cam_parse_item idx mem off = Some \<lparr>ci_idx = idx, ci_key = key_layout (drop off mem) 0,
    ci_action = action_layout (drop off mem) 73\<rparr>"
  using assms
  by (simp add: pg_cam_parse_item_def pg_cam_key_layout pg_cam_action_init_def action_layout_def ld_def
      decode_simps)

lemma pg_sp_cam_parse_item_layout:
  assumes "off + 17 \<le> length mem"
  shows "pg_sp_cam_parse_item idx mem off = Some \<lparr>ci_idx = idx, ci_key = key_layout (drop off mem) 56,
    ci_action = action_layout (drop off mem) 0\<rparr>"
  using assms
  by (simp add: pg_sp_cam_parse_item_def pg_cam_key_layout key_layout_drop pg_cam_action_init_def
      action_layout_def ld_def decode_simps)

lemma pg_nm_cam_parse_item_layout:
  assumes "off + 13 \<le> length mem"
  shows "pg_nm_cam_parse_item idx mem off = Some \<lparr>ni_idx = idx, ni_key = nm_key_layout (drop off mem) 0,
    ni_action = action_layout (drop off mem) 41\<rparr>"
  using assms
  by (simp add: pg_nm_cam_parse_item_def nm_key_layout_def pg_nm_cam_key_init_def pg_cam_action_init_def
      action_layout_def ld_def decode_simps)

lemma pg_nm_sp_cam_parse_item_layout:
  assumes "off + 15 \<le> length mem"
  shows "pg_nm_sp_cam_parse_item idx mem off = Some \<lparr>ni_idx = idx, ni_key = nm_key_layout (drop off mem) 56,
    ni_action = action_layout (drop off mem) 0\<rparr>"
  using assms
  by (simp add: pg_nm_sp_cam_parse_item_def nm_key_layout_def pg_nm_cam_key_init_def
      pg_cam_action_init_def action_layout_def ld_def decode_simps)

definition kb_entry_layout :: "u8 list \<Rightarrow> nat \<Rightarrow> ice_xlt_kb_entry" where
  "kb_entry_layout e p =
     \<lparr>xlt1_ad_sel = entry_field e (p + 32) 3, xlt2_ad_sel = entry_field e (p + 35) 3,
      flg0_14_sel = map (\<lambda>i. entry_field e (p + 38 + 9 * i) 9) [0..<15],
      xlt1_md_sel = entry_field e (p + 182) 5, xlt2_md_sel = entry_field e (p + 187) 5\<rparr>"

lemma kb_entry_layout:
  assumes "off + 26 \<le> length mem"
  shows "kb_entry_init mem off = Some (kb_entry_layout (drop off mem) 0)"
  using assms
  by (simp add: kb_entry_init_def kb_entry_layout_def ld_def decode_simps upt_conv_Cons)

definition metainit_layout :: "u16 \<Rightarrow> u8 list \<Rightarrow> ice_metainit_item" where
  "metainit_layout idx e =
     \<lparr>mi_idx = idx, mi_tsr = entry_field e 0 8, mi_ho = entry_field e 8 9, mi_pc = entry_field e 17 8,
      mi_pg_rn = entry_field e 25 10, mi_cd = entry_field e 36 3,
      gpr_a_ctrl = entry_bit e 39, gpr_a_data_mdid = entry_field e 40 5,
      gpr_a_data_start = entry_field e 45 4, gpr_a_data_len = entry_field e 49 5, gpr_a_id = entry_field e 56 4,
      gpr_b_ctrl = entry_bit e 60, gpr_b_data_mdid = entry_field e 61 5,
      gpr_b_data_start = entry_field e 66 4, gpr_b_data_len = entry_field e 70 5, gpr_b_id = entry_field e 77 4,
      gpr_c_ctrl = entry_bit e 81, gpr_c_data_mdid = entry_field e 82 5,
      gpr_c_data_start = entry_field e 87 4, gpr_c_data_len = entry_field e 91 5, gpr_c_id = entry_field e 98 4,
      gpr_d_ctrl = entry_bit e 102, gpr_d_data_mdid = entry_field e 103 5,
      gpr_d_data_start = entry_field e 108 4, gpr_d_data_len = entry_field e 112 5, gpr_d_id = entry_field e 119 4,
      mi_flags = entry_field e 123 64\<rparr>"

lemma metainit_parse_item_layout:
  assumes "off + 24 \<le> length mem"
  shows "metainit_parse_item idx mem off = Some (metainit_layout idx (drop off mem))"
proof -
  let ?e = "drop off mem"
  have l: "drop_bit 3 (le_field (off + 15) 8 mem :: u64) = entry_field ?e 123 61"
    using take_bit_shifted_load [where 'a = 64 and w = 8 and s = 3 and off = off and b = 15 and mem = mem]
    by simp
  have h: "drop_bit 56 (le_field (off + 16) 8 mem :: u64) AND 7 = entry_field ?e 184 3"
    by (simp add: decode_simps)
  have "(entry_field ?e 123 64 :: u64) = drop_bit 3 (le_field (off + 15) 8 mem)
      OR push_bit 61 (drop_bit 56 (le_field (off + 16) 8 mem) AND 7)"
    unfolding l h using entry_field_split [where 'a = 64 and a = 61 and b = 3 and n = 64 and e = ?e and lo = 123]
    by simp
  then show ?thesis
    using assms by (simp add: metainit_parse_item_def metainit_layout_def ld_def decode_simps)
qed

section \<open>Flag aggregation\<close>

text \<open>Packet flag \<open>i\<close> is the parser flag its redirection item selects, if exposed.\<close>

lemma fold_set_bits:
  assumes step: "\<And>i f. i < n \<Longrightarrow> step i f = (if P i then f OR push_bit i 1 else f)" and n: "n \<le> LENGTH('a)"
  shows "bit (fold step [0..<n] (f0 :: 'a::len word)) k \<longleftrightarrow> (k < n \<and> P k) \<or> bit f0 k"
  using assms
proof (induction n arbitrary: k)
  case (Suc n)
  have "bit (fold step [0..<Suc n] f0) k \<longleftrightarrow> bit (step n (fold step [0..<n] f0)) k" by simp
  also have "\<dots> \<longleftrightarrow> (k = n \<and> P n) \<or> bit (fold step [0..<n] f0) k"
    using Suc.prems by (auto simp: bit_or_iff bit_push_bit_1 simp del: push_bit_of_1)
  also have "\<dots> \<longleftrightarrow> (k < Suc n \<and> P k) \<or> bit f0 k" using Suc by (auto simp: less_Suc_eq)
  finally show ?case .
qed simp

lemma bit_ice_flg_redirect:
  assumes "\<And>i. i < 64 \<Longrightarrow> unat (intr_flg_id (table ! i)) < 64"
  shows "bit (ice_flg_redirect table f) i \<longleftrightarrow>
    i < 64 \<and> expose (table ! i) \<and> bit f (unat (intr_flg_id (table ! i)))"
  unfolding ice_flg_redirect_def
  by (subst fold_set_bits [where P = "\<lambda>i. expose (table ! i) \<and> bit f (unat (intr_flg_id (table ! i)))"])
     (auto simp: flg_redirect_step_def Let_def and_push_bit_1_eq_0 assms simp del: push_bit_of_1)

lemma unat_and_3f: "unat ((x :: u16) AND 0x3f) < 64"
proof -
  have "x AND 0x3f \<le> 0x3f" by (rule word_and_le1)
  then show ?thesis by (simp add: word_le_nat_alt)
qed

lemma bit_ice_xlt_kb_flag_get:
  "bit (ice_xlt_kb_flag_get kb f) i \<longleftrightarrow>
     (i < 15 \<and> bit f (unat (flg0_14_sel (kb_entries kb ! 0) ! i AND 0x3f))) \<or>
     (i = 15 \<and> flag15 kb AND f \<noteq> 0)"
  unfolding ice_xlt_kb_flag_get_def Let_def
  by (subst fold_set_bits [where P = "\<lambda>i. bit f (unat (flg0_14_sel (kb_entries kb ! 0) ! i AND 0x3f))"])
     (auto simp: xlt_kb_flag_step_def Let_def and_push_bit_1_eq_0 unat_and_3f bit_push_bit_1
           simp del: push_bit_of_1)

section \<open>Properties of the tables\<close>



lemma find_take_Some:
  "List.find P (take n xs) = Some x \<longleftrightarrow>
     (\<exists>i < min n (length xs). x = xs ! i \<and> P x \<and> (\<forall>j < i. \<not> P (xs ! j)))"
  by (auto simp: find_Some_iff)

text \<open>
  The ternary searches return the first entry that matches, bit by bit.
  A boost entry is returned exactly when it is enabled, at every bit of the
  20 key bytes \<open>key_inv\<close> allows a set pattern bit and \<open>key\<close> a clear one, and no
  entry before it has these properties; the packet-type search is the same over
  the given number of marker bytes.
\<close>

theorem tcam_first_match:
  "(ice_bst_tcam_match table pat = Some item \<longleftrightarrow>
      (\<exists>i < min 256 (length table). item = table ! i \<and> hit_idx_grp item \<noteq> 0 \<and>
        (\<forall>b < 20. (pat ! b AND ti_key_inv item ! b) OR (NOT (pat ! b) AND ti_key item ! b) = - 1) \<and>
        (\<forall>j < i. hit_idx_grp (table ! j) = 0 \<or>
          (\<exists>b < 20. (pat ! b AND ti_key_inv (table ! j) ! b) OR (NOT (pat ! b) AND ti_key (table ! j) ! b) \<noteq> - 1)))) \<and>
   (ice_ptype_mk_tcam_match ptable pat n = Some pitem \<longleftrightarrow>
      (\<exists>i < min 1024 (length ptable). pitem = ptable ! i \<and>
        (\<forall>b < n. (pat ! b AND mt_key_inv pitem ! b) OR (NOT (pat ! b) AND mt_key pitem ! b) = - 1) \<and>
        (\<forall>j < i. \<exists>b < n. (pat ! b AND mt_key_inv (ptable ! j) ! b) OR (NOT (pat ! b) AND mt_key (ptable ! j) ! b) \<noteq> - 1)))"
  unfolding ice_bst_tcam_match_def ice_ptype_mk_tcam_match_def find_take_Some ternary_match_iff by blast

text \<open>A key that accepts one value of its first byte and anything in the rest.\<close>

definition demo_mk :: "u8 \<Rightarrow> u16 \<Rightarrow> ice_ptype_mk_tcam_item" where
  "demo_mk v p = \<lparr>mt_address = 0, mt_ptype = p, mt_key = NOT v # replicate 9 (- 1), mt_key_inv = v # replicate 9 (- 1)\<rparr>"

theorem tcam_first_match_witness:
  "ice_ptype_mk_tcam_match [demo_mk 1 10, demo_mk 2 20] [2, 0, 0, 0, 0, 0, 0, 0, 0] 9 = Some (demo_mk 2 20)"
proof -
  have or_not: "x OR NOT x = - 1" for x :: u8 by simp
  have m: "\<forall>b < 9. ([2, 0, 0, 0, 0, 0, 0, 0, 0] ! b AND mt_key_inv (demo_mk 2 20) ! b) OR
      (NOT ([2, 0, 0, 0, 0, 0, 0, 0, 0] ! b) AND mt_key (demo_mk 2 20) ! b) = - 1"
  proof (intro allI impI)
    fix b :: nat
    assume "b < 9"
    then show "([2, 0, 0, 0, 0, 0, 0, 0, 0] ! b AND mt_key_inv (demo_mk 2 20) ! b) OR
      (NOT ([2, 0, 0, 0, 0, 0, 0, 0, 0] ! b) AND mt_key (demo_mk 2 20) ! b) = - 1"
      by (cases b) (simp_all add: demo_mk_def or_not)
  qed
  have n: "\<exists>b < 9. ([2, 0, 0, 0, 0, 0, 0, 0, 0] ! b AND mt_key_inv (demo_mk 1 10) ! b) OR
      (NOT ([2, 0, 0, 0, 0, 0, 0, 0, 0] ! b) AND mt_key (demo_mk 1 10) ! b) \<noteq> (- 1 :: u8)"
    by (rule exI [of _ 0]) (simp add: demo_mk_def)
  show ?thesis
    by (rule iffD2 [OF conjunct2 [OF tcam_first_match]], rule exI [of _ 1]) (use m n in simp)
qed

end
