(* ===== verification/Ice_Parser_Rt.thy ===== *)
theory Ice_Parser_Rt
  imports Ice_Parser_Cam
begin

text \<open>
  The parser runtime (\<open>ice_parser_rt.c\<close>, \<open>ice_parser_rt.h\<close>): a machine with 128
  registers of 16 bits that walks the parse graph over a packet.  Every round
  builds a boost key and a parse-graph key, looks the action up, executes three
  ALU instructions and the action with pending updates, and records markers and
  protocol offsets.

  An access outside of an array, or a shift by the width of its operand or
  more, makes a function \<open>None\<close>.  Pointers into the tables are represented by the
  items they point to, as no round changes a table.
\<close>

section \<open>State\<close>

abbreviation (input) GPR_HB_IDX :: nat where "GPR_HB_IDX \<equiv> 64"
abbreviation (input) GPR_ERR_IDX :: nat where "GPR_ERR_IDX \<equiv> 84"
abbreviation (input) GPR_FLG_IDX :: nat where "GPR_FLG_IDX \<equiv> 104"
abbreviation (input) GPR_TSR_IDX :: nat where "GPR_TSR_IDX \<equiv> 108"
abbreviation (input) GPR_NN_IDX :: nat where "GPR_NN_IDX \<equiv> 109"
abbreviation (input) GPR_HO_IDX :: nat where "GPR_HO_IDX \<equiv> 110"
abbreviation (input) GPR_NP_IDX :: nat where "GPR_NP_IDX \<equiv> 111"
abbreviation (input) ICE_PARSER_MAX_PKT_LEN :: nat where "ICE_PARSER_MAX_PKT_LEN \<equiv> 504"
abbreviation (input) ICE_PARSER_GPR_NUM :: nat where "ICE_PARSER_GPR_NUM \<equiv> 128"
abbreviation (input) ICE_PARSER_HDR_BUF_LEN :: nat where "ICE_PARSER_HDR_BUF_LEN \<equiv> 32"
abbreviation (input) ICE_PARSER_BST_KEY_LEN :: nat where "ICE_PARSER_BST_KEY_LEN \<equiv> 20"
abbreviation (input) ICE_PARSER_MARKER_NUM_IN_BYTES :: nat where "ICE_PARSER_MARKER_NUM_IN_BYTES \<equiv> 9"
abbreviation (input) ICE_PARSER_PROTO_NUM :: nat where "ICE_PARSER_PROTO_NUM \<equiv> 256"

record ice_gpr_pu =
  gpr_val_upd :: "bool list"
  gpr_val :: "u16 list"
  flg_msk :: u64
  flg_val :: u64
  err_msk :: u16
  err_val :: u16

record ice_parser_rt =
  gpr :: "u16 list"
  pkt_buf :: "u8 list"
  pkt_len :: u16
  po :: u16
  bst_key :: "u8 list"
  pg_key :: ice_pg_cam_key
  alu0 :: "ice_alu option"
  alu1 :: "ice_alu option"
  alu2 :: "ice_alu option"
  action :: "ice_pg_cam_action option"
  pg :: u8
  pu :: ice_gpr_pu
  rt_markers :: "u8 list"
  protocols :: "bool list"
  offsets :: "u16 list"

record ice_parser =
  imem_table :: "ice_imem_item list"
  mi_table :: "ice_metainit_item list"
  pg_cam_table :: "ice_pg_cam_item list"
  pg_sp_cam_table :: "ice_pg_cam_item list"
  pg_nm_cam_table :: "ice_pg_nm_cam_item list"
  pg_nm_sp_cam_table :: "ice_pg_nm_cam_item list"
  bst_tcam_table :: "ice_bst_tcam_item list"
  bst_lbl_table :: "ice_lbl_item list"
  ptype_mk_tcam_table :: "ice_ptype_mk_tcam_item list"
  mk_grp_table :: "ice_mk_grp_item list"
  proto_grp_table :: "ice_proto_grp_item list"
  flg_rd_table :: "ice_flg_rd_item list"
  xlt_kb_sw :: ice_xlt_kb
  xlt_kb_acl :: ice_xlt_kb
  xlt_kb_fd :: ice_xlt_kb
  xlt_kb_rss :: ice_xlt_kb

datatype ice_status = ICE_SUCCESS | ICE_ERR_PARAM | ICE_ERR_NO_MEMORY

text \<open>
  The result; \<open>r_po\<close> holds the pairs written so far, so that \<open>po_num\<close> is its
  length and a 17th pair would leave the array of 16.
\<close>

record ice_parser_proto_off =
  rpo_proto_id :: u8
  rpo_offset :: u16

record ice_parser_result =
  ptype :: u16
  r_po :: "ice_parser_proto_off list"
  flags_psr :: u64
  flags_pkt :: u64
  flags_sw :: u16
  flags_acl :: u16
  flags_fd :: u16
  flags_rss :: u16

definition zero_pg_key :: ice_pg_cam_key where
  "zero_pg_key = \<lparr>k_valid = False, k_node_id = 0, k_flag0 = False, k_flag1 = False, k_flag2 = False,
     k_flag3 = False, k_boost_idx = 0, k_alu_reg = 0, k_next_proto = 0\<rparr>"

definition zero_pu :: ice_gpr_pu where
  "zero_pu = \<lparr>gpr_val_upd = replicate ICE_PARSER_GPR_NUM False, gpr_val = replicate ICE_PARSER_GPR_NUM 0,
     flg_msk = 0, flg_val = 0, err_msk = 0, err_val = 0\<rparr>"

definition zero_rt :: ice_parser_rt where
  "zero_rt = \<lparr>gpr = replicate ICE_PARSER_GPR_NUM 0,
     pkt_buf = replicate (ICE_PARSER_MAX_PKT_LEN + ICE_PARSER_HDR_BUF_LEN) 0,
     pkt_len = 0, po = 0, bst_key = replicate ICE_PARSER_BST_KEY_LEN 0, pg_key = zero_pg_key,
     alu0 = None, alu1 = None, alu2 = None, action = None, pg = 0, pu = zero_pu,
     rt_markers = replicate ICE_PARSER_MARKER_NUM_IN_BYTES 0,
     protocols = replicate ICE_PARSER_PROTO_NUM False, offsets = replicate ICE_PARSER_PROTO_NUM 0\<rparr>"

section \<open>Register access\<close>

definition rt_tsr_set :: "u16 \<Rightarrow> ice_parser_rt \<Rightarrow> ice_parser_rt" where
  "rt_tsr_set tsr rt = rt\<lparr>gpr := (gpr rt)[GPR_TSR_IDX := tsr]\<rparr>"

text \<open>Copying the 32 bytes of the header buffer into the registers from \<open>GPR_HB_IDX\<close> on.\<close>

definition hb_load :: "u16 list \<Rightarrow> u8 list \<Rightarrow> u16 list" where
  "hb_load g hb = take GPR_HB_IDX g @ map (\<lambda>i. le_field (2 * i) 2 hb) [0..<16] @ drop (GPR_HB_IDX + 16) g"

definition rt_ho_set :: "u16 \<Rightarrow> ice_parser_rt \<Rightarrow> ice_parser_rt option" where
  "rt_ho_set ho rt = do {
     hb \<leftarrow> ld_bytes 32 (pkt_buf rt) (unat ho);
     Some (rt\<lparr>gpr := hb_load ((gpr rt)[GPR_HO_IDX := ho]) hb\<rparr>)
   }"

definition rt_np_set :: "u16 \<Rightarrow> ice_parser_rt \<Rightarrow> ice_parser_rt" where
  "rt_np_set pc rt = rt\<lparr>gpr := (gpr rt)[GPR_NP_IDX := pc]\<rparr>"

definition rt_nn_set :: "u16 \<Rightarrow> ice_parser_rt \<Rightarrow> ice_parser_rt" where
  "rt_nn_set node rt = rt\<lparr>gpr := (gpr rt)[GPR_NN_IDX := node]\<rparr>"

definition rt_flag_set :: "nat \<Rightarrow> bool \<Rightarrow> ice_parser_rt \<Rightarrow> ice_parser_rt" where
  "rt_flag_set idx val rt =
     (let y = idx div 16; x = idx mod 16; r = gpr rt ! (GPR_FLG_IDX + y) in
      rt\<lparr>gpr := (gpr rt)[GPR_FLG_IDX + y :=
        (if val then r OR push_bit x 1 else r AND NOT (push_bit x 1))]\<rparr>)"

definition rt_gpr_set :: "nat \<Rightarrow> u16 \<Rightarrow> ice_parser_rt \<Rightarrow> ice_parser_rt option" where
  "rt_gpr_set idx val rt =
     (if idx = GPR_HO_IDX then rt_ho_set val rt
      else do { g \<leftarrow> arr_put (gpr rt) idx val; Some (rt\<lparr>gpr := g\<rparr>) })"

definition rt_err_set :: "nat \<Rightarrow> bool \<Rightarrow> ice_parser_rt \<Rightarrow> ice_parser_rt" where
  "rt_err_set idx val rt =
     (let r = gpr rt ! GPR_ERR_IDX in
      rt\<lparr>gpr := (gpr rt)[GPR_ERR_IDX :=
        (if val then r OR push_bit idx 1 else r AND NOT (push_bit idx 1))]\<rparr>)"

definition ice_parser_rt_reset :: "ice_parser \<Rightarrow> ice_parser_rt option" where
  "ice_parser_rt_reset psr = do {
     mi \<leftarrow> arr_get (mi_table psr) 0;
     rt \<leftarrow> rt_ho_set (mi_ho mi) (rt_tsr_set (ucast (mi_tsr mi)) zero_rt);
     let rt = rt_nn_set (mi_pg_rn mi) (rt_np_set (mi_pc mi) rt);
     Some (fold (\<lambda>i rt. if mi_flags mi AND push_bit i 1 \<noteq> 0 then rt_flag_set i True rt else rt) [0..<64] rt)
   }"

definition ice_parser_rt_pktbuf_set :: "u8 list \<Rightarrow> int \<Rightarrow> ice_parser_rt \<Rightarrow> ice_parser_rt option" where
  "ice_parser_rt_pktbuf_set buf len rt =
     (let n = min (int ICE_PARSER_MAX_PKT_LEN) len; ho = gpr rt ! GPR_HO_IDX in
      if n < 0 then None
      else do {
        bytes \<leftarrow> ld_bytes (nat n) buf 0;
        let rt = rt\<lparr>pkt_buf := bytes @ drop (nat n) (pkt_buf rt), pkt_len := word_of_int len\<rparr>;
        hb \<leftarrow> ld_bytes ICE_PARSER_HDR_BUF_LEN (pkt_buf rt) (unat ho);
        Some (rt\<lparr>gpr := hb_load (gpr rt) hb\<rparr>)
      })"

section \<open>Key construction\<close>

definition bst_key_init :: "ice_imem_item \<Rightarrow> ice_parser_rt \<Rightarrow> ice_parser_rt" where
  "bst_key_init imem rt =
     (let tsr = ucast (gpr rt ! GPR_TSR_IDX) :: u8; ho = unat (gpr rt ! GPR_HO_IDX);
          last = if tsr_ctrl (b_kb imem) then tsr else bkb_priority (b_kb imem) in
      rt\<lparr>bst_key := map (\<lambda>i. let j = ho + 18 - i in
          if j < ICE_PARSER_MAX_PKT_LEN then pkt_buf rt ! j else 0) [0..<19] @ [last]\<rparr>)"

text \<open>
  The bit-reversal loops, by the number of iterations left: an iteration with
  \<open>n\<close> more to come moves the lowest bit of \<open>v\<close> to bit \<open>n\<close> of the result.
\<close>

primrec bit_rev_loop :: "nat \<Rightarrow> 'a::len word \<Rightarrow> 'a word \<Rightarrow> 'a word" where
  "bit_rev_loop 0 v r = r"
| "bit_rev_loop (Suc n) v r = bit_rev_loop n (drop_bit 1 v) (r OR push_bit n (v AND 0x1))"

definition bit_rev_u8 :: "u8 \<Rightarrow> u8" where
  "bit_rev_u8 v = bit_rev_loop 8 v 0"

text \<open>\<open>_bit_rev_u16\<close> is declared to return \<open>u8\<close>.\<close>

definition bit_rev_u16 :: "u16 \<Rightarrow> nat \<Rightarrow> u8" where
  "bit_rev_u16 v len = ucast (bit_rev_loop len v 0)"

definition bit_rev_u32 :: "u32 \<Rightarrow> nat \<Rightarrow> u32 option" where
  "bit_rev_u32 v len = (if len \<le> 32 then Some (bit_rev_loop len v 0) else None)"

text \<open>The bytes of \<open>n\<close> registers from \<open>idx\<close> on, as \<open>memcpy\<close> sees them.\<close>

definition gpr_bytes :: "u16 list \<Rightarrow> nat \<Rightarrow> nat \<Rightarrow> u8 list option" where
  "gpr_bytes g idx n =
     (if idx + n \<le> length g then Some (concat (map (le_bytes 2) (take n (drop idx g)))) else None)"

definition hv_bit_sel :: "ice_parser_rt \<Rightarrow> nat \<Rightarrow> nat \<Rightarrow> u32 option" where
  "hv_bit_sel rt start len = do {
     b \<leftarrow> gpr_bytes (gpr rt) (GPR_HB_IDX + start div 16) 4;
     let d64 = (le_word (map bit_rev_u8 b) :: u64);
     (if len < 64 then bit_rev_u32 (ucast (drop_bit (start mod 16) d64 AND (push_bit len 1 - 1))) len
      else None)
   }"

definition pk_build :: "ice_parser_rt \<Rightarrow> ice_np_keybuilder \<Rightarrow> u32 option" where
  "pk_build rt kb =
     (if ops kb = 0 then hv_bit_sel rt (unat (start_or_reg0 kb)) (unat (len_or_reg1 kb))
      else if ops kb = 1 then do {
        a \<leftarrow> arr_get (gpr rt) (unat (start_or_reg0 kb));
        b \<leftarrow> arr_get (gpr rt) (unat (len_or_reg1 kb));
        Some (ucast a OR push_bit 16 (ucast b))
      }
      else if ops kb = 2 then Some 0
      else Some 0xffffffff)"

definition flag_get :: "ice_parser_rt \<Rightarrow> nat \<Rightarrow> bool option" where
  "flag_get rt index = do {
     r \<leftarrow> arr_get (gpr rt) (GPR_FLG_IDX + index div 16);
     Some (r AND push_bit (index mod 16) 1 \<noteq> 0)
   }"

definition flag_sel :: "ice_parser_rt \<Rightarrow> bool \<Rightarrow> u8 \<Rightarrow> bool option" where
  "flag_sel rt ena idx = (if ena then flag_get rt (unat idx) else Some False)"

text \<open>
  \<open>_imem_pgk_init\<close> and \<open>_bst_pgk_init\<close>: both fill the key from a pair of key
  builders, the second with the boost index of the entry.
\<close>

definition pgk_init :: "u8 \<Rightarrow> ice_np_keybuilder \<Rightarrow> ice_pg_keybuilder \<Rightarrow> ice_parser_rt \<Rightarrow> ice_parser_rt option" where
  "pgk_init boost np pgk rt = do {
     p \<leftarrow> pk_build rt np;
     f0 \<leftarrow> flag_sel rt (flag0_ena pgk) (flag0_idx pgk);
     f1 \<leftarrow> flag_sel rt (flag1_ena pgk) (flag1_idx pgk);
     f2 \<leftarrow> flag_sel rt (flag2_ena pgk) (flag2_idx pgk);
     f3 \<leftarrow> flag_sel rt (flag3_ena pgk) (flag3_idx pgk);
     a \<leftarrow> arr_get (gpr rt) (unat (alu_reg_idx pgk));
     Some (rt\<lparr>pg_key := \<lparr>k_valid = False, k_node_id = gpr rt ! GPR_NN_IDX, k_flag0 = f0, k_flag1 = f1,
       k_flag2 = f2, k_flag3 = f3, k_boost_idx = boost, k_alu_reg = a, k_next_proto = p\<rparr>\<rparr>)
   }"

definition imem_pgk_init :: "ice_imem_item \<Rightarrow> ice_parser_rt \<Rightarrow> ice_parser_rt option" where
  "imem_pgk_init imem = pgk_init 0 (ii_np_kb imem) (ii_pg_kb imem)"

definition bst_pgk_init :: "ice_bst_tcam_item \<Rightarrow> ice_parser_rt \<Rightarrow> ice_parser_rt option" where
  "bst_pgk_init bst = pgk_init (hit_idx_grp bst) (ti_np_kb bst) (ti_pg_kb bst)"

definition imem_alu0_set :: "ice_imem_item \<Rightarrow> ice_parser_rt \<Rightarrow> ice_parser_rt" where
  "imem_alu0_set imem rt = rt\<lparr>alu0 := Some (ii_alu0 imem)\<rparr>"

definition imem_alu1_set :: "ice_imem_item \<Rightarrow> ice_parser_rt \<Rightarrow> ice_parser_rt" where
  "imem_alu1_set imem rt = rt\<lparr>alu1 := Some (ii_alu1 imem)\<rparr>"

definition imem_alu2_set :: "ice_imem_item \<Rightarrow> ice_parser_rt \<Rightarrow> ice_parser_rt" where
  "imem_alu2_set imem rt = rt\<lparr>alu2 := Some (ii_alu2 imem)\<rparr>"

definition imem_pgp_set :: "ice_imem_item \<Rightarrow> ice_parser_rt \<Rightarrow> ice_parser_rt" where
  "imem_pgp_set imem rt = rt\<lparr>pg := ii_pg imem\<rparr>"

definition bst_alu0_set :: "ice_bst_tcam_item \<Rightarrow> ice_parser_rt \<Rightarrow> ice_parser_rt" where
  "bst_alu0_set bst rt = rt\<lparr>alu0 := Some (ti_alu0 bst)\<rparr>"

definition bst_alu1_set :: "ice_bst_tcam_item \<Rightarrow> ice_parser_rt \<Rightarrow> ice_parser_rt" where
  "bst_alu1_set bst rt = rt\<lparr>alu1 := Some (ti_alu1 bst)\<rparr>"

definition bst_alu2_set :: "ice_bst_tcam_item \<Rightarrow> ice_parser_rt \<Rightarrow> ice_parser_rt" where
  "bst_alu2_set bst rt = rt\<lparr>alu2 := Some (ti_alu2 bst)\<rparr>"

definition bst_pgp_set :: "ice_bst_tcam_item \<Rightarrow> ice_parser_rt \<Rightarrow> ice_parser_rt" where
  "bst_pgp_set bst rt = rt\<lparr>pg := pg_pri bst\<rparr>"

section \<open>Parse-graph lookup\<close>

definition rt_pg_cam_match :: "ice_parser \<Rightarrow> ice_parser_rt \<Rightarrow> ice_pg_cam_item option" where
  "rt_pg_cam_match psr rt =
     (case ice_pg_cam_match (pg_cam_table psr) ICE_PG_CAM_TABLE_SIZE (pg_key rt) of
        Some item \<Rightarrow> Some item
      | None \<Rightarrow> ice_pg_cam_match (pg_sp_cam_table psr) ICE_PG_SP_CAM_TABLE_SIZE (pg_key rt))"

definition rt_pg_nm_cam_match :: "ice_parser \<Rightarrow> ice_parser_rt \<Rightarrow> ice_pg_nm_cam_item option" where
  "rt_pg_nm_cam_match psr rt =
     (case ice_pg_nm_cam_match (pg_nm_cam_table psr) ICE_PG_NM_CAM_TABLE_SIZE (pg_key rt) of
        Some item \<Rightarrow> Some item
      | None \<Rightarrow> ice_pg_nm_cam_match (pg_nm_sp_cam_table psr) ICE_PG_NM_SP_CAM_TABLE_SIZE (pg_key rt))"

section \<open>Pending updates and ALU instructions\<close>

definition gpr_add :: "nat \<Rightarrow> u16 \<Rightarrow> ice_parser_rt \<Rightarrow> ice_parser_rt option" where
  "gpr_add idx val rt = do {
     us \<leftarrow> arr_put (gpr_val_upd (pu rt)) idx True;
     vs \<leftarrow> arr_put (gpr_val (pu rt)) idx val;
     Some (rt\<lparr>pu := (pu rt)\<lparr>gpr_val_upd := us, gpr_val := vs\<rparr>\<rparr>)
   }"

definition pg_exe :: "ice_pg_cam_action \<Rightarrow> ice_parser_rt \<Rightarrow> ice_parser_rt option" where
  "pg_exe act rt = do {
     rt \<leftarrow> gpr_add GPR_NP_IDX (ucast (next_pc act)) rt;
     gpr_add GPR_NN_IDX (next_node act) rt
   }"

definition flg_add :: "nat \<Rightarrow> bool \<Rightarrow> ice_parser_rt \<Rightarrow> ice_parser_rt option" where
  "flg_add idx val rt =
     (if idx < 64 then
        Some (rt\<lparr>pu := (pu rt)\<lparr>flg_msk := flg_msk (pu rt) OR push_bit idx 1,
          flg_val := (if val then flg_val (pu rt) OR push_bit idx 1
                      else flg_val (pu rt) AND NOT (push_bit idx 1))\<rparr>\<rparr>)
      else None)"

definition flg_update :: "ice_alu \<Rightarrow> ice_parser_rt \<Rightarrow> ice_parser_rt option" where
  "flg_update alu rt =
     (if \<not> dedicate_flags_ena alu then Some rt
      else if flags_extr_imm alu then
        ofold (\<lambda>i rt. if i < 32 then
            flg_add (unat (dst_start alu) + i) ((ucast (flags_start_imm alu) :: u32) AND push_bit i 1 \<noteq> 0) rt
          else None) [0..<unat (dst_len alu)] rt
      else
        ofold (\<lambda>i rt. do {
            v \<leftarrow> hv_bit_sel rt (unat (flags_start_imm alu) + i) 1;
            flg_add (unat (dst_start alu) + i) (v \<noteq> 0) rt
          }) [0..<unat (dst_len alu)] rt)"

definition alu_po_update :: "ice_alu \<Rightarrow> ice_parser_rt \<Rightarrow> ice_parser_rt" where
  "alu_po_update alu rt =
     (let ho = gpr rt ! GPR_HO_IDX in
      if proto_offset_opc alu = 1 then rt\<lparr>po := ho + ucast (proto_offset alu)\<rparr>
      else if proto_offset_opc alu = 2 then rt\<lparr>po := ho - ucast (proto_offset alu)\<rparr>
      else if proto_offset_opc alu = 0 then rt\<lparr>po := ho\<rparr>
      else rt)"

definition reg_bit_sel :: "ice_parser_rt \<Rightarrow> nat \<Rightarrow> nat \<Rightarrow> nat \<Rightarrow> u16 option" where
  "reg_bit_sel rt reg_idx start len = do {
     b \<leftarrow> gpr_bytes (gpr rt) (reg_idx + start div 16) 2;
     let d32 = (le_word (map bit_rev_u8 b) :: u32);
     (if len < 32 then
        Some (ucast (bit_rev_u16 (ucast (drop_bit (start mod 16) d32 AND (push_bit len 1 - 1))) len))
      else None)
   }"

text \<open>\<open>_err_add\<close> records the mask of the error and writes its value into \<open>flg_val\<close>.\<close>

definition err_add :: "nat \<Rightarrow> bool \<Rightarrow> ice_parser_rt \<Rightarrow> ice_parser_rt" where
  "err_add idx val rt =
     rt\<lparr>pu := (pu rt)\<lparr>err_msk := err_msk (pu rt) OR push_bit idx 1,
       flg_val := (if val then flg_val (pu rt) OR push_bit idx 1
                   else flg_val (pu rt) AND NOT (push_bit idx 1))\<rparr>\<rparr>"

definition dst_reg_bit_set :: "ice_alu \<Rightarrow> bool \<Rightarrow> ice_parser_rt \<Rightarrow> ice_parser_rt option" where
  "dst_reg_bit_set alu val rt =
     (if dedicate_flags_ena alu then Some rt
      else if dst_reg_id alu = of_nat GPR_ERR_IDX then
        (if dst_start alu \<ge> 16 then Some rt else Some (err_add (unat (dst_start alu)) val rt))
      else if dst_reg_id alu \<ge> of_nat GPR_FLG_IDX then
        (let flg_idx = push_bit 4 (ucast (dst_reg_id alu) - of_nat GPR_FLG_IDX) + ucast (dst_start alu) :: u16 in
         if flg_idx \<ge> 64 then Some rt else flg_add (unat flg_idx) val rt)
      else Some rt)"

text \<open>\<open>src << shift\<close> is an \<open>int\<close> in C; a sum that is not representable is \<open>None\<close>.\<close>

definition shift_add :: "u16 \<Rightarrow> nat \<Rightarrow> u16 \<Rightarrow> u16 option" where
  "shift_add src shift i =
     (let v = uint src * 2 ^ shift + uint i in if v < 2 ^ 31 then Some (word_of_int v) else None)"

definition alu_exe :: "ice_alu \<Rightarrow> ice_parser_rt \<Rightarrow> ice_parser_rt option" where
  "alu_exe alu rt =
     (if shift_xlate_select alu then Some rt
      else do {
        rt \<leftarrow> flg_update alu (alu_po_update alu rt);
        dst \<leftarrow> arr_get (gpr rt) (unat (dst_reg_id alu));
        src \<leftarrow> reg_bit_sel rt (unat (src_reg_id alu)) (unat (src_start alu)) (unat (src_len alu));
        let shift = unat (shift_xlate_key alu);
        (if opc alu = ICE_ALU_PARK then Some rt
        else if opc alu = ICE_ALU_MOV_ADD then do {
          d \<leftarrow> shift_add src shift (imm alu);
          gpr_add (unat (dst_reg_id alu)) d rt
        }
        else if opc alu = ICE_ALU_ADD then do {
          d \<leftarrow> shift_add src shift (imm alu);
          gpr_add (unat (dst_reg_id alu)) (dst + d) rt
        }
        else if opc alu = ICE_ALU_ORLT then do {
          rt \<leftarrow> (if src < imm alu then dst_reg_bit_set alu True rt else Some rt);
          gpr_add GPR_NP_IDX (ucast (branch_addr alu)) rt
        }
        else if opc alu = ICE_ALU_OREQ then do {
          rt \<leftarrow> (if src = imm alu then dst_reg_bit_set alu True rt else Some rt);
          gpr_add GPR_NP_IDX (ucast (branch_addr alu)) rt
        }
        else if opc alu = ICE_ALU_SETEQ then do {
          rt \<leftarrow> dst_reg_bit_set alu (src = imm alu) rt;
          gpr_add GPR_NP_IDX (ucast (branch_addr alu)) rt
        }
        else if opc alu = ICE_ALU_MOV_XOR then do {
          d \<leftarrow> shift_add src shift 0;
          gpr_add (unat (dst_reg_id alu)) (d XOR imm alu) rt
        }
        else Some rt)
      })"

definition alu0_exe :: "ice_parser_rt \<Rightarrow> ice_parser_rt option" where
  "alu0_exe rt = do { alu \<leftarrow> alu0 rt; alu_exe alu rt }"

definition alu1_exe :: "ice_parser_rt \<Rightarrow> ice_parser_rt option" where
  "alu1_exe rt = do { alu \<leftarrow> alu1 rt; alu_exe alu rt }"

definition alu2_exe :: "ice_parser_rt \<Rightarrow> ice_parser_rt option" where
  "alu2_exe rt = do { alu \<leftarrow> alu2 rt; alu_exe alu rt }"

text \<open>
  \<open>_pu_exe\<close>: the three loops.  The condition of the error loop tests bit 1 of
  the mask in every iteration.
\<close>

definition pu_gpr_loop :: "ice_gpr_pu \<Rightarrow> ice_parser_rt \<Rightarrow> ice_parser_rt option" where
  "pu_gpr_loop p = ofold (\<lambda>i rt. if gpr_val_upd p ! i then rt_gpr_set i (gpr_val p ! i) rt else Some rt)
     [0..<ICE_PARSER_GPR_NUM]"

definition pu_flg_loop :: "ice_gpr_pu \<Rightarrow> ice_parser_rt \<Rightarrow> ice_parser_rt" where
  "pu_flg_loop p = fold (\<lambda>i rt. if flg_msk p AND push_bit i 1 \<noteq> 0
       then rt_flag_set i (flg_val p AND push_bit i 1 \<noteq> 0) rt else rt) [0..<64]"

definition pu_err_loop :: "ice_gpr_pu \<Rightarrow> ice_parser_rt \<Rightarrow> ice_parser_rt" where
  "pu_err_loop p = fold (\<lambda>i rt. if err_msk p AND push_bit 1 1 \<noteq> 0
       then rt_err_set i (err_val p AND push_bit i 1 \<noteq> 0) rt else rt) [0..<16]"

definition pu_exe :: "ice_parser_rt \<Rightarrow> ice_parser_rt option" where
  "pu_exe rt = do {
     rt' \<leftarrow> pu_gpr_loop (pu rt) rt;
     Some (pu_err_loop (pu rt) (pu_flg_loop (pu rt) rt'))
   }"

definition alu_pg_order :: "ice_pg_cam_action \<Rightarrow> ice_parser_rt \<Rightarrow> ice_parser_rt option" where
  "alu_pg_order act rt =
     (if pg rt = 0 then do { rt \<leftarrow> pg_exe act rt; rt \<leftarrow> alu0_exe rt; rt \<leftarrow> alu1_exe rt; alu2_exe rt }
      else if pg rt = 1 then do { rt \<leftarrow> alu0_exe rt; rt \<leftarrow> pg_exe act rt; rt \<leftarrow> alu1_exe rt; alu2_exe rt }
      else if pg rt = 2 then do { rt \<leftarrow> alu0_exe rt; rt \<leftarrow> alu1_exe rt; rt \<leftarrow> pg_exe act rt; alu2_exe rt }
      else if pg rt = 3 then do { rt \<leftarrow> alu0_exe rt; rt \<leftarrow> alu1_exe rt; rt \<leftarrow> alu2_exe rt; pg_exe act rt }
      else Some rt)"

definition alu_pg_exe :: "ice_pg_cam_action \<Rightarrow> ice_parser_rt \<Rightarrow> ice_parser_rt option" where
  "alu_pg_exe act rt = do {
     rt \<leftarrow> alu_pg_order act (rt\<lparr>pu := zero_pu\<rparr>);
     rt \<leftarrow> pu_exe rt;
     (if ho_inc act = 0 then Some rt
      else if ho_polarity act then rt_ho_set (gpr rt ! GPR_HO_IDX + ho_inc act) rt
      else rt_ho_set (gpr rt ! GPR_HO_IDX - ho_inc act) rt)
   }"

section \<open>Protocols and markers\<close>

definition proto_set :: "u8 \<Rightarrow> u16 \<Rightarrow> ice_parser_rt \<Rightarrow> ice_parser_rt" where
  "proto_set p off rt = rt\<lparr>protocols := (protocols rt)[unat p := True], offsets := (offsets rt)[unat p := off]\<rparr>"

fun proto_grp_loop :: "ice_proto_off list \<Rightarrow> ice_parser_rt \<Rightarrow> ice_parser_rt" where
  "proto_grp_loop [] rt = rt"
| "proto_grp_loop (entry # es) rt =
     (if po_proto_id entry = 0xff then rt
      else proto_grp_loop es (proto_set (po_proto_id entry)
        (if \<not> po_polarity entry then po rt + po_offset entry else po rt - po_offset entry) rt))"

definition proto_off_update :: "ice_parser \<Rightarrow> ice_pg_cam_action \<Rightarrow> ice_parser_rt \<Rightarrow> ice_parser_rt option" where
  "proto_off_update psr act rt =
     (if is_pg act then do {
        grp \<leftarrow> arr_get (proto_grp_table psr) (unat (act_proto_id act));
        Some (proto_grp_loop (pgi_po grp) rt)
      }
      else Some (proto_set (act_proto_id act) (po rt) rt))"

definition marker_set :: "nat \<Rightarrow> ice_parser_rt \<Rightarrow> ice_parser_rt option" where
  "marker_set idx rt = do {
     b \<leftarrow> arr_get (rt_markers rt) (idx div 8);
     Some (rt\<lparr>rt_markers := (rt_markers rt)[idx div 8 := b OR push_bit (idx mod 8) 1]\<rparr>)
   }"

fun mk_grp_loop :: "u8 list \<Rightarrow> ice_parser_rt \<Rightarrow> ice_parser_rt option" where
  "mk_grp_loop [] rt = Some rt"
| "mk_grp_loop (marker # ms) rt =
     (if marker = 71 then Some rt
      else do { rt \<leftarrow> marker_set (unat marker) rt; mk_grp_loop ms rt })"

definition marker_update :: "ice_parser \<Rightarrow> ice_pg_cam_action \<Rightarrow> ice_parser_rt \<Rightarrow> ice_parser_rt option" where
  "marker_update psr act rt =
     (if is_mg act then do {
        grp \<leftarrow> arr_get (mk_grp_table psr) (unat (marker_id act));
        mk_grp_loop (markers grp) rt
      }
      else if marker_id act \<noteq> 71 then marker_set (unat (marker_id act)) rt
      else Some rt)"

section \<open>Result\<close>

definition ptype_resolve :: "ice_parser \<Rightarrow> ice_parser_rt \<Rightarrow> u16" where
  "ptype_resolve psr rt =
     (case ice_ptype_mk_tcam_match (ptype_mk_tcam_table psr) (rt_markers rt) 9 of
        Some item \<Rightarrow> mt_ptype item
      | None \<Rightarrow> 0xffff)"

definition proto_off_resolve :: "ice_parser_rt \<Rightarrow> ice_parser_result \<Rightarrow> ice_parser_result option" where
  "proto_off_resolve rt = ofold (\<lambda>i rslt.
     if protocols rt ! i then
       (if length (r_po rslt) < 16 then
          Some (rslt\<lparr>r_po := r_po rslt @ [\<lparr>rpo_proto_id = of_nat i, rpo_offset = offsets rt ! i\<rparr>]\<rparr>)
        else None)
     else Some rslt) [0..<255]"

definition gpr_flags :: "u16 list \<Rightarrow> u64" where
  "gpr_flags g = le_word (concat (map (le_bytes 2) (take 4 (drop GPR_FLG_IDX g))))"

definition result_resolve :: "ice_parser \<Rightarrow> ice_parser_rt \<Rightarrow> ice_parser_result option" where
  "result_resolve psr rt =
     (let fpsr = gpr_flags (gpr rt); fpkt = ice_flg_redirect (flg_rd_table psr) fpsr in
      proto_off_resolve rt
        \<lparr>ptype = ptype_resolve psr rt, r_po = [], flags_psr = fpsr, flags_pkt = fpkt,
         flags_sw = ice_xlt_kb_flag_get (xlt_kb_sw psr) fpkt, flags_acl = 0,
         flags_fd = ice_xlt_kb_flag_get (xlt_kb_fd psr) fpkt,
         flags_rss = ice_xlt_kb_flag_get (xlt_kb_rss psr) fpkt\<rparr>)"

section \<open>The execution loop\<close>

text \<open>Loading the keys and instructions of a round from the boost entry and the instruction memory.\<close>

definition round_load :: "ice_parser \<Rightarrow> ice_imem_item \<Rightarrow> ice_parser_rt \<Rightarrow> ice_parser_rt option" where
  "round_load psr imem rt =
     (let rt = bst_key_init imem rt in
      case ice_bst_tcam_match (bst_tcam_table psr) (bst_key rt) of
        None \<Rightarrow> do {
          rt \<leftarrow> imem_pgk_init imem rt;
          Some (imem_pgp_set imem (imem_alu2_set imem (imem_alu1_set imem (imem_alu0_set imem rt))))
        }
      | Some bst \<Rightarrow> do {
          rt \<leftarrow> (if bm_pg (b_m imem) then map_option (bst_pgp_set bst) (bst_pgk_init bst rt)
                 else map_option (imem_pgp_set imem) (imem_pgk_init imem rt));
          let rt = (if al0 (b_m imem) then bst_alu0_set bst rt else imem_alu0_set imem rt);
          let rt = (if al1 (b_m imem) then bst_alu1_set bst rt else imem_alu1_set imem rt);
          Some (if al2 (b_m imem) then bst_alu2_set bst rt else imem_alu2_set imem rt)
        })"

definition round_action :: "ice_parser \<Rightarrow> ice_parser_rt \<Rightarrow> ice_pg_cam_action option" where
  "round_action psr rt =
     (case rt_pg_cam_match psr rt of
        None \<Rightarrow> map_option ni_action (rt_pg_nm_cam_match psr rt)
      | Some pg_cam \<Rightarrow> Some (ci_action pg_cam))"

text \<open>One iteration of the loop; the status is \<open>Some\<close> where the loop is left.\<close>

definition rt_round :: "ice_parser \<Rightarrow> ice_parser_rt \<Rightarrow> (ice_parser_rt \<times> ice_status option) option" where
  "rt_round psr rt = do {
     imem \<leftarrow> arr_get (imem_table psr) (unat (gpr rt ! GPR_NP_IDX));
     rt \<leftarrow> round_load psr imem rt;
     let rt = rt\<lparr>action := round_action psr rt\<rparr>;
     (case action rt of
        None \<Rightarrow> Some (rt, Some ICE_ERR_PARAM)
      | Some act \<Rightarrow> do {
          rt \<leftarrow> alu_pg_exe act rt;
          rt \<leftarrow> marker_update psr act rt;
          rt \<leftarrow> proto_off_update psr act rt;
          Some (rt, if is_last_round act \<or> gpr rt ! GPR_HO_IDX \<ge> pkt_len rt then Some ICE_SUCCESS else None)
        })
   }"

text \<open>
  The loop has no bound of its own: \<open>rt_loop\<close> runs at most the given number of
  rounds.
\<close>

datatype loop_result = Fault | OutOfFuel | Done ice_parser_rt ice_status

fun rt_loop :: "nat \<Rightarrow> ice_parser \<Rightarrow> ice_parser_rt \<Rightarrow> loop_result" where
  "rt_loop 0 psr rt = OutOfFuel"
| "rt_loop (Suc n) psr rt =
     (case rt_round psr rt of
        None \<Rightarrow> Fault
      | Some (rt', Some status) \<Rightarrow> Done rt' status
      | Some (rt', None) \<Rightarrow> rt_loop n psr rt')"

definition ice_parser_rt_execute ::
  "nat \<Rightarrow> ice_parser \<Rightarrow> ice_parser_rt \<Rightarrow> (ice_parser_rt \<times> ice_parser_result \<times> ice_status) option" where
  "ice_parser_rt_execute fuel psr rt =
     (case rt_loop fuel psr rt of
        Done rt' status \<Rightarrow> map_option (\<lambda>rslt. (rt', rslt, status)) (result_resolve psr rt')
      | Fault \<Rightarrow> None
      | OutOfFuel \<Rightarrow> None)"

definition ice_parser_run ::
  "nat \<Rightarrow> ice_parser \<Rightarrow> u8 list \<Rightarrow> int \<Rightarrow> (ice_parser_rt \<times> ice_parser_result \<times> ice_status) option" where
  "ice_parser_run fuel psr buf len = do {
     rt \<leftarrow> ice_parser_rt_reset psr;
     rt \<leftarrow> ice_parser_rt_pktbuf_set buf len rt;
     ice_parser_rt_execute fuel psr rt
   }"

end
