(* ===== verification/Ice_Parser_Fields.thy ===== *)
theory Ice_Parser_Fields
  imports Ice_Parser_Rt
begin

text \<open>
  What the parser runtime extracts: header fields in network bit order, the
  64 parser flags, the protocol list and the register updates of a round.
\<close>

section \<open>Bit order\<close>

lemma bit_bit_rev_loop:
  "bit (bit_rev_loop n v r :: 'a::len word) k \<longleftrightarrow> bit r k \<or> (k < n \<and> k < LENGTH('a) \<and> bit v (n - 1 - k))"
proof (induction n arbitrary: v r)
  case (Suc n)
  have low: "bit (push_bit n (v AND 1)) k \<longleftrightarrow> k = n \<and> n < LENGTH('a) \<and> bit v 0"
    unfolding bit_push_bit_iff bit_and_iff bit_1_iff by auto
  have "bit (bit_rev_loop (Suc n) v r) k \<longleftrightarrow>
      bit r k \<or> (k = n \<and> n < LENGTH('a) \<and> bit v 0) \<or> (k < n \<and> k < LENGTH('a) \<and> bit v (1 + (n - 1 - k)))"
    using Suc.IH [of "drop_bit 1 v" "r OR push_bit n (v AND 1)"] low
    by (simp add: bit_or_iff bit_drop_bit_eq del: push_bit_and)
  also have "\<dots> \<longleftrightarrow> bit r k \<or> (k < Suc n \<and> k < LENGTH('a) \<and> bit v (Suc n - 1 - k))"
    by (cases "k < n") (auto simp: less_Suc_eq Suc_diff_Suc)
  finally show ?case .
qed simp

lemma bit_bit_rev_u8: "bit (bit_rev_u8 v) k \<longleftrightarrow> k < 8 \<and> bit v (7 - k)"
  by (auto simp: bit_rev_u8_def bit_bit_rev_loop simp del: bit_rev_loop.simps)

lemma bit_rev_u8_involution: "bit_rev_u8 (bit_rev_u8 v) = v"
  by (rule bit_word_eqI) (auto simp: bit_bit_rev_u8)

text \<open>
  Bit \<open>k\<close> of a register file read as a byte stream in network order: the bytes
  of the registers in memory order, each from its most significant bit on.
\<close>

definition stream_bit :: "u16 list \<Rightarrow> nat \<Rightarrow> bool" where
  "stream_bit g k = bit (g ! (k div 16)) (8 * (k div 8 mod 2) + (7 - k mod 8))"

lemma nth_concat_le_bytes2:
  "j < 2 * length ws \<Longrightarrow> concat (map (le_bytes 2) ws) ! j = le_bytes 2 (ws ! (j div 2)) ! (j mod 2)"
proof (induction ws arbitrary: j)
  case (Cons w ws)
  show ?case
  proof (cases "j < 2")
    case True
    then show ?thesis by (simp add: nth_append)
  next
    case False
    then have "j div 2 = Suc ((j - 2) div 2)" "(j - 2) mod 2 = j mod 2"
      by (auto simp: le_div_geq le_mod_geq)
    with False Cons show ?thesis by (simp add: nth_append)
  qed
qed simp

lemma length_concat_le_bytes2 [simp]: "length (concat (map (le_bytes 2) ws)) = 2 * length ws"
  by (induction ws) auto

lemma bit_le_bytes2: "j < 2 \<Longrightarrow> bit (le_bytes 2 (w :: u16) ! j) k \<longleftrightarrow> k < 8 \<and> bit w (8 * j + k)"
  by (auto simp: le_bytes_def bit_simps)

lemma bit_reversed_regs:
  assumes "gpr_bytes g i n = Some b" "k < 16 * n" "k < LENGTH('a)"
  shows "bit (le_word (map bit_rev_u8 b) :: 'a::len word) k = stream_bit (drop i g) k"
proof -
  have b: "b = concat (map (le_bytes 2) (take n (drop i g)))" and len: "i + n \<le> length g"
    using assms(1) by (auto simp: gpr_bytes_def split: if_splits)
  have lb: "length b = 2 * n" using len by (simp add: b)
  have kb: "k div 8 < 2 * n" using assms(2) by auto
  have idx: "k div 8 div 2 = k div 16" by (simp add: div_mult2_eq [symmetric])
  have kn: "k div 16 < n" using assms(2) by auto
  have nth: "b ! (k div 8) = le_bytes 2 (g ! (i + k div 16)) ! (k div 8 mod 2)"
    using kb len kn by (simp add: b nth_concat_le_bytes2 idx)
  have "bit (bit_rev_u8 (b ! (k div 8))) (k mod 8)
      = bit (g ! (i + k div 16)) (8 * (k div 8 mod 2) + (7 - k mod 8))"
    unfolding nth bit_bit_rev_u8 using bit_le_bytes2 [of "k div 8 mod 2"] by (auto simp: less_imp_diff_less)
  then show ?thesis using assms kb lb len kn by (simp add: bit_le_word stream_bit_def)
qed

lemma bit_len_mask: "len < LENGTH('a) \<Longrightarrow> bit (push_bit len 1 - 1 :: 'a::len word) k \<longleftrightarrow> k < len"
  using bit_mask_iff [of len k, where 'a = "'a word"] by (auto simp: mask_eq_exp_minus_1)

lemma stream_bit_shift:
  assumes "p + start div 16 + (start mod 16 + i) div 16 < length g"
  shows "stream_bit (drop (p + start div 16) g) (start mod 16 + i) = stream_bit (drop p g) (start + i)"
proof -
  define q x where "q = start div 16" and "x = start mod 16 + i"
  have sx: "start + i = 16 * q + x" by (simp add: q_def x_def)
  have "(8 * (2 * q) + x) div 8 = 2 * q + x div 8" by (simp only: div_mult_self4 [of 8] zero_neq_numeral)
  moreover have "(8 * (2 * q) + x) mod 8 = x mod 8" by (simp only: mod_mult_self4)
  ultimately have e: "(start + i) div 16 = q + x div 16" "(start + i) div 8 mod 2 = x div 8 mod 2"
    "(start + i) mod 8 = x mod 8"
    unfolding sx by simp_all
  show ?thesis using assms by (simp add: stream_bit_def e q_def x_def add.assoc)
qed

text \<open>\<open>_hv_bit_sel\<close> reads a field of the header buffer in network order.\<close>

lemma hv_bit_sel_spec:
  assumes g: "length (gpr rt) = 128" and s: "start < 960" and l: "len \<le> 32"
  shows "\<exists>v. hv_bit_sel rt start len = Some v \<and>
    (\<forall>j. bit v j \<longleftrightarrow> j < len \<and> stream_bit (drop 64 (gpr rt)) (start + (len - 1 - j)))"
proof -
  have "start div 16 < 60" using s by auto
  then obtain b where b: "gpr_bytes (gpr rt) (64 + start div 16) 4 = Some b"
    using g by (simp add: gpr_bytes_def)
  let ?d = "le_word (map bit_rev_u8 b) :: u64"
  let ?v = "bit_rev_loop len (ucast (drop_bit (start mod 16) ?d AND (push_bit len 1 - 1)) :: u32) 0"
  have db: "bit ?d (start mod 16 + i) = stream_bit (drop 64 (gpr rt)) (start + i)" if "i < 32" for i
  proof -
    have i: "start mod 16 + i < 64" using that mod_less_divisor [of 16 start] by linarith
    then have "(start mod 16 + i) div 16 < 4" by auto
    with \<open>start div 16 < 60\<close> g have "64 + start div 16 + (start mod 16 + i) div 16 < length (gpr rt)" by linarith
    then show ?thesis using bit_reversed_regs [OF b, where 'a = 64, of "start mod 16 + i"] i stream_bit_shift by simp
  qed
  have mb: "bit (ucast (drop_bit (start mod 16) ?d AND (push_bit len 1 - 1)) :: u32) i
      \<longleftrightarrow> i < len \<and> stream_bit (drop 64 (gpr rt)) (start + i)" if "i < 32" for i
    unfolding bit_unsigned_iff bit_and_iff bit_drop_bit_eq comp_def
    using l that db [OF that] bit_len_mask [of len, where 'a = 64] by (auto simp del: push_bit_of_1)
  have "bit ?v j \<longleftrightarrow> j < len \<and> stream_bit (drop 64 (gpr rt)) (start + (len - 1 - j))" for j
    unfolding bit_bit_rev_loop using l mb [of "len - 1 - j"] by (cases "j < len") (auto simp del: push_bit_of_1)
  moreover have "hv_bit_sel rt start len = Some ?v"
    using b l by (simp add: hv_bit_sel_def bit_rev_u32_def)
  ultimately show ?thesis by blast
qed

text \<open>
  \<open>_reg_bit_sel\<close> reads a field of at most 16 bits from a register in the same
  order, but only its eight low bits survive: \<open>_bit_rev_u16\<close> returns a byte.
\<close>

lemma reg_bit_sel_spec:
  assumes g: "length (gpr rt) = 128" and r: "r + start div 16 < 127" and l: "len \<le> 16"
  shows "\<exists>v. reg_bit_sel rt r start len = Some v \<and>
    (\<forall>j. bit v j \<longleftrightarrow> j < 8 \<and> j < len \<and> stream_bit (drop r (gpr rt)) (start + (len - 1 - j)))"
proof -
  obtain b where b: "gpr_bytes (gpr rt) (r + start div 16) 2 = Some b"
    using g r by (simp add: gpr_bytes_def)
  let ?d = "le_word (map bit_rev_u8 b) :: u32"
  define w where "w = (ucast (drop_bit (start mod 16) ?d AND (push_bit len 1 - 1)) :: u16)"
  have db: "bit ?d (start mod 16 + i) = stream_bit (drop r (gpr rt)) (start + i)" if "i < 16" for i
  proof -
    have i: "start mod 16 + i < 32" using that mod_less_divisor [of 16 start] by linarith
    then have "(start mod 16 + i) div 16 < 2" by auto
    with r g have "r + start div 16 + (start mod 16 + i) div 16 < length (gpr rt)" by linarith
    then show ?thesis using bit_reversed_regs [OF b, where 'a = 32, of "start mod 16 + i"] i stream_bit_shift by simp
  qed
  have mb: "bit w i \<longleftrightarrow> i < len \<and> stream_bit (drop r (gpr rt)) (start + i)" if "i < 16" for i
    unfolding w_def bit_unsigned_iff bit_and_iff bit_drop_bit_eq comp_def
    using l that db [OF that] bit_len_mask [of len, where 'a = 32] by (auto simp del: push_bit_of_1)
  have "bit (ucast (bit_rev_u16 w len) :: u16) j
      \<longleftrightarrow> j < 8 \<and> j < len \<and> stream_bit (drop r (gpr rt)) (start + (len - 1 - j))" for j
    unfolding bit_rev_u16_def bit_unsigned_iff bit_bit_rev_loop using l mb [of "len - 1 - j"]
    by (cases "j < len") auto
  moreover have "reg_bit_sel rt r start len = Some (ucast (bit_rev_u16 w len))"
    using b l by (simp add: reg_bit_sel_def w_def)
  ultimately show ?thesis by blast
qed

section \<open>Header buffer\<close>

lemma length_hb_load [simp]: "length g = 128 \<Longrightarrow> length (hb_load g hb) = 128"
  by (simp add: hb_load_def)

lemma nth_hb_load:
  assumes "length g = 128" "i < 128"
  shows "hb_load g hb ! i = (if 64 \<le> i \<and> i < 80 then le_field (2 * (i - 64)) 2 hb else g ! i)"
  using assms by (auto simp: hb_load_def nth_append)

text \<open>Bit \<open>k\<close> of a packet in network order.\<close>

definition packet_bit :: "u8 list \<Rightarrow> nat \<Rightarrow> bool" where
  "packet_bit bs k = bit (bs ! (k div 8)) (7 - k mod 8)"

lemma stream_bit_hb_load:
  assumes "length g = 128" "ld_bytes 32 bs off = Some hb" "k < 256"
  shows "stream_bit (drop 64 (hb_load g hb)) k = packet_bit bs (8 * off + k)"
proof -
  have hb: "hb = take 32 (drop off bs)" "off + 32 \<le> length bs"
    using assms(2) by (auto simp: ld_bytes_def split: if_splits)
  have k: "k div 16 < 16" "k div 8 < 32" using assms(3) by auto
  have kk: "2 * (k div 16) + k div 8 mod 2 = k div 8"
    by (metis div_mult2_eq mult_div_mod_eq mult_2_right numeral_Bit0)
  define y z where "y = k div 8 mod 2" and "z = 7 - k mod 8"
  have e: "(8 * off + k) div 8 = off + k div 8" "(8 * off + k) mod 8 = k mod 8" by auto
  have yz: "y < 2" "z < 8" by (auto simp: y_def z_def less_imp_diff_less)
  then have jd: "(8 * y + z) div 8 = y" "(8 * y + z) mod 8 = z" by auto
  have "bit (le_field (2 * (k div 16)) 2 hb :: u16) (8 * y + z) = bit (hb ! (2 * (k div 16) + y)) z"
    using k hb kk yz by (auto simp: bit_le_field entry_bit_def jd y_def)
  then have "bit (le_field (2 * (k div 16)) 2 hb :: u16) (8 * (k div 8 mod 2) + (7 - k mod 8))
      = bit (hb ! (k div 8)) (7 - k mod 8)"
    using kk by (simp add: y_def z_def)
  then show ?thesis
    using assms(1) k hb by (simp add: stream_bit_def nth_hb_load packet_bit_def e kk)
qed

section \<open>Flags\<close>

text \<open>Parser flag \<open>i\<close>, kept in the four registers from \<open>GPR_FLG_IDX\<close> on.\<close>

definition flag_of :: "u16 list \<Rightarrow> nat \<Rightarrow> bool" where
  "flag_of g i = bit (g ! (104 + i div 16)) (i mod 16)"

lemma flag_get_flag_of:
  assumes "length (gpr rt) = 128" "i < 64"
  shows "flag_get rt i = Some (flag_of (gpr rt) i)"
proof -
  have "i div 16 < 4" using assms by auto
  then show ?thesis using assms
    by (simp add: flag_get_def flag_of_def and_push_bit_1_eq_0 del: push_bit_of_1)
qed

lemma bit_gpr_flags:
  assumes "length g = 128"
  shows "bit (gpr_flags g) i \<longleftrightarrow> i < 64 \<and> flag_of g i"
proof (cases "i < 64")
  case True
  have d: "i div 8 div 2 = i div 16" by (simp add: div_mult2_eq [symmetric])
  have k: "i div 8 < 8" "i div 16 < 4" using True by auto
  define y z where "y = i div 8 mod 2" and "z = i mod 8"
  have yz: "y < 2" "z < 8" by (auto simp: y_def z_def)
  have m: "8 * y + z = i mod 16"
    unfolding y_def z_def using mod_mult2_eq [of i 8 2] by simp
  let ?b = "concat (map (le_bytes 2) (take 4 (drop 104 g)))"
  have "?b ! (i div 8) = le_bytes 2 (g ! (104 + i div 16)) ! y"
    using assms k by (simp add: nth_concat_le_bytes2 d y_def)
  then have "bit (?b ! (i div 8)) (i mod 8) = flag_of g i"
    using bit_le_bytes2 [of y "g ! (104 + i div 16)" z] yz m by (simp add: z_def flag_of_def)
  then show ?thesis using assms True k by (simp add: gpr_flags_def bit_le_word)
next
  case False
  then show ?thesis using bit_imp_le_length [of "gpr_flags g" i] by auto
qed

lemma gpr_rt_flag_set:
  assumes "length (gpr rt) = 128" "i < 64"
  shows "length (gpr (rt_flag_set i v rt)) = 128"
    and "j < 64 \<Longrightarrow> flag_of (gpr (rt_flag_set i v rt)) j = (if j = i then v else flag_of (gpr rt) j)"
    and "k < 104 \<or> 108 \<le> k \<Longrightarrow> gpr (rt_flag_set i v rt) ! k = gpr rt ! k"
    and "rt_flag_set i v rt = rt\<lparr>gpr := gpr (rt_flag_set i v rt)\<rparr>"
proof -
  have i: "i div 16 < 4" using assms by auto
  show "length (gpr (rt_flag_set i v rt)) = 128" using assms by (simp add: rt_flag_set_def Let_def)
  show "flag_of (gpr (rt_flag_set i v rt)) j = (if j = i then v else flag_of (gpr rt) j)" if "j < 64"
  proof (cases "j div 16 = i div 16")
    case True
    then have "j = i \<longleftrightarrow> j mod 16 = i mod 16" by (metis mult_div_mod_eq)
    then show ?thesis using True assms i
      by (auto simp: flag_of_def rt_flag_set_def Let_def bit_or_iff bit_and_iff bit_not_iff bit_push_bit_1
          simp del: push_bit_of_1)
  next
    case False
    then show ?thesis using assms i by (auto simp: flag_of_def rt_flag_set_def Let_def)
  qed
  show "gpr (rt_flag_set i v rt) ! k = gpr rt ! k" if "k < 104 \<or> 108 \<le> k"
    using that i by (auto simp: rt_flag_set_def Let_def)
  show "rt_flag_set i v rt = rt\<lparr>gpr := gpr (rt_flag_set i v rt)\<rparr>"
    by (simp add: rt_flag_set_def Let_def)
qed

text \<open>The flag loop of \<open>_pu_exe\<close> writes exactly the masked flags.\<close>

lemma pu_flg_loop_prefix:
  fixes p :: ice_gpr_pu
  assumes g: "length (gpr rt) = 128" and n: "n \<le> 64"
  defines "rt' \<equiv> fold (\<lambda>i rt. if flg_msk p AND push_bit i 1 \<noteq> 0
       then rt_flag_set i (flg_val p AND push_bit i 1 \<noteq> 0) rt else rt) [0..<n] rt"
  shows "length (gpr rt') = 128 \<and> rt' = rt\<lparr>gpr := gpr rt'\<rparr> \<and>
    (\<forall>j < 64. flag_of (gpr rt') j =
       (if j < n \<and> bit (flg_msk p) j then bit (flg_val p) j else flag_of (gpr rt) j)) \<and>
    (\<forall>k. k < 104 \<or> 108 \<le> k \<longrightarrow> gpr rt' ! k = gpr rt ! k)"
  using n unfolding rt'_def
proof (induction n)
  case (Suc n)
  let ?f = "\<lambda>i rt. if flg_msk p AND push_bit i 1 \<noteq> 0
       then rt_flag_set i (flg_val p AND push_bit i 1 \<noteq> 0) rt else rt"
  define s where "s = fold ?f [0..<n] rt"
  have n: "n < 64" using Suc.prems by simp
  have IH: "length (gpr s) = 128" "s = rt\<lparr>gpr := gpr s\<rparr>"
    "\<forall>j < 64. flag_of (gpr s) j = (if j < n \<and> bit (flg_msk p) j then bit (flg_val p) j else flag_of (gpr rt) j)"
    "\<forall>k. k < 104 \<or> 108 \<le> k \<longrightarrow> gpr s ! k = gpr rt ! k"
    using Suc.IH Suc.prems unfolding s_def by auto
  have fs: "fold ?f [0..<Suc n] rt =
      (if bit (flg_msk p) n then rt_flag_set n (bit (flg_val p) n) s else s)"
    using n by (simp add: s_def and_push_bit_1_eq_0 del: push_bit_of_1)
  show ?case
  proof (cases "bit (flg_msk p) n")
    case True
    note R = gpr_rt_flag_set [OF IH(1) n, where v = "bit (flg_val p) n"]
    have "rt_flag_set n (bit (flg_val p) n) s = rt\<lparr>gpr := gpr (rt_flag_set n (bit (flg_val p) n) s)\<rparr>"
      using R(4) IH(2) by (metis ice_parser_rt.surjective ice_parser_rt.update_convs(1))
    then show ?thesis unfolding fs using True R(1,2,3) IH(3,4) by (auto simp: less_Suc_eq)
  next
    case False
    then show ?thesis unfolding fs using IH by (auto simp: less_Suc_eq)
  qed
qed (simp add: g)

lemma pu_flg_loop_spec:
  assumes "length (gpr rt) = 128"
  shows "length (gpr (pu_flg_loop p rt)) = 128"
    and "pu_flg_loop p rt = rt\<lparr>gpr := gpr (pu_flg_loop p rt)\<rparr>"
    and "j < 64 \<Longrightarrow> flag_of (gpr (pu_flg_loop p rt)) j =
       (if bit (flg_msk p) j then bit (flg_val p) j else flag_of (gpr rt) j)"
    and "k < 104 \<or> 108 \<le> k \<Longrightarrow> gpr (pu_flg_loop p rt) ! k = gpr rt ! k"
  using pu_flg_loop_prefix [OF assms, of 64 p] unfolding pu_flg_loop_def by auto

section \<open>Errors\<close>

text \<open>
  With no pending error value, the error loop clears the error register or
  leaves it alone.
\<close>

lemma err_clear_loop:
  assumes f: "\<And>i rt. f i rt = (if B then rt_err_set i False rt else rt)"
    and g: "length (gpr rt) = 128" and n: "n \<le> 16"
  shows "\<exists>r. fold f [0..<n] rt = rt\<lparr>gpr := (gpr rt)[84 := r]\<rparr> \<and>
     (if B then (\<forall>k. bit r k \<longrightarrow> bit (gpr rt ! 84) k \<and> n \<le> k) else r = gpr rt ! 84)"
  using n
proof (induction n)
  case 0
  show ?case by (rule exI [of _ "gpr rt ! 84"]) simp
next
  case (Suc n)
  then obtain r where r: "fold f [0..<n] rt = rt\<lparr>gpr := (gpr rt)[84 := r]\<rparr>"
     "if B then (\<forall>k. bit r k \<longrightarrow> bit (gpr rt ! 84) k \<and> n \<le> k) else r = gpr rt ! 84"
    by auto
  let ?r = "if B then r AND NOT (push_bit n 1) else r"
  have "fold f [0..<Suc n] rt = rt\<lparr>gpr := (gpr rt)[84 := ?r]\<rparr>"
    using r(1) g by (simp add: f rt_err_set_def Let_def del: push_bit_of_1)
  moreover have "if B then (\<forall>k. bit ?r k \<longrightarrow> bit (gpr rt ! 84) k \<and> Suc n \<le> k) else ?r = gpr rt ! 84"
  proof (cases B)
    case True
    have "bit (gpr rt ! 84) k \<and> Suc n \<le> k" if "bit (r AND NOT (push_bit n 1)) k" for k
    proof -
      have "bit r k" "k \<noteq> n" using that Suc.prems
        by (auto simp: bit_and_iff bit_not_iff bit_push_bit_1 simp del: push_bit_of_1)
      with r(2) True show ?thesis by (metis Suc_leI le_neq_implies_less)
    qed
    with True show ?thesis by simp
  next
    case False
    with r(2) show ?thesis by simp
  qed
  ultimately show ?case by blast
qed

lemma pu_err_loop_spec:
  assumes e: "err_val p = 0" and g: "length (gpr rt) = 128"
  shows "pu_err_loop p rt = rt\<lparr>gpr := (gpr rt)[84 := (if bit (err_msk p) 1 then 0 else gpr rt ! 84)]\<rparr>"
proof -
  have m: "err_msk p AND push_bit 1 1 = 0 \<longleftrightarrow> \<not> bit (err_msk p) 1"
    using and_push_bit_1_eq_0 [of 1 "err_msk p"] by simp
  have "\<exists>r. pu_err_loop p rt = rt\<lparr>gpr := (gpr rt)[84 := r]\<rparr> \<and>
     (if bit (err_msk p) 1 then (\<forall>k. bit r k \<longrightarrow> bit (gpr rt ! 84) k \<and> 16 \<le> k) else r = gpr rt ! 84)"
    unfolding pu_err_loop_def
    by (rule err_clear_loop) (use m e g in \<open>auto simp del: push_bit_of_1 push_bit_Suc\<close>)
  then obtain r where r: "pu_err_loop p rt = rt\<lparr>gpr := (gpr rt)[84 := r]\<rparr>"
     "if bit (err_msk p) 1 then (\<forall>k. bit r k \<longrightarrow> bit (gpr rt ! 84) k \<and> 16 \<le> k) else r = gpr rt ! 84"
    by blast
  have "r = 0" if "bit (err_msk p) 1"
    using r(2) that by (intro bit_word_eqI) (auto dest: bit_imp_le_length)
  with r show ?thesis by auto
qed

section \<open>Protocol list\<close>

definition proto_list :: "ice_parser_rt \<Rightarrow> ice_parser_proto_off list" where
  "proto_list rt = map (\<lambda>i. \<lparr>rpo_proto_id = of_nat i, rpo_offset = offsets rt ! i\<rparr>)
     (filter (\<lambda>i. protocols rt ! i) [0..<255])"

lemma proto_off_resolve_loop:
  assumes "length (r_po rslt) \<le> 16"
  shows "ofold (\<lambda>i rslt. if protocols rt ! i then
       (if length (r_po rslt) < 16 then
          Some (rslt\<lparr>r_po := r_po rslt @ [\<lparr>rpo_proto_id = of_nat i, rpo_offset = offsets rt ! i\<rparr>]\<rparr>)
        else None) else Some rslt) xs rslt =
    (let ps = map (\<lambda>i. \<lparr>rpo_proto_id = of_nat i, rpo_offset = offsets rt ! i\<rparr>) (filter (\<lambda>i. protocols rt ! i) xs) in
     if length (r_po rslt) + length ps \<le> 16 then Some (rslt\<lparr>r_po := r_po rslt @ ps\<rparr>) else None)"
  using assms
proof (induction xs arbitrary: rslt)
  case (Cons x xs)
  show ?case
  proof (cases "protocols rt ! x \<and> length (r_po rslt) < 16")
    case True
    then show ?thesis using Cons.IH [of "rslt\<lparr>r_po := r_po rslt @ [\<lparr>rpo_proto_id = of_nat x, rpo_offset = offsets rt ! x\<rparr>]\<rparr>"]
      by (simp add: Let_def)
  next
    case False
    then show ?thesis using Cons by (auto simp: Let_def)
  qed
qed simp

lemma proto_off_resolve_spec:
  assumes "r_po rslt = []"
  shows "proto_off_resolve rt rslt =
    (if length (proto_list rt) \<le> 16 then Some (rslt\<lparr>r_po := proto_list rt\<rparr>) else None)"
  unfolding proto_off_resolve_def proto_list_def
  using proto_off_resolve_loop [of rslt rt "[0..<255]"] assms by (simp add: Let_def)

section \<open>Header fields\<close>

text \<open>
  Once the header offset is set, a selection of \<open>len\<close> bits from bit \<open>start\<close>
  of the header buffer is the field of the packet at that offset in network
  order: bit \<open>j\<close> of the result is bit \<open>start + len - 1 - j\<close> after the header
  offset, counting from the most significant bit of the first byte, and the
  bits above the field are clear.
\<close>

theorem header_field_network_order:
  assumes "rt_ho_set ho rt = Some rt'" "length (gpr rt) = 128" "start + len \<le> 256" "len \<le> 32"
  shows "\<exists>v. hv_bit_sel rt' start len = Some v \<and>
    (\<forall>j. bit v j \<longleftrightarrow> j < len \<and> packet_bit (pkt_buf rt) (8 * unat ho + start + (len - 1 - j)))"
proof -
  obtain hb where hb: "ld_bytes 32 (pkt_buf rt) (unat ho) = Some hb"
    "rt' = rt\<lparr>gpr := hb_load ((gpr rt)[110 := ho]) hb\<rparr>"
    using assms(1) by (auto simp: rt_ho_set_def bind_eq_Some_conv)
  have g: "length ((gpr rt)[110 := ho]) = 128" using assms(2) by simp
  then have "length (gpr rt') = 128" "start < 960" using hb(2) assms(3) by auto
  then obtain v where v: "hv_bit_sel rt' start len = Some v"
    "\<forall>j. bit v j \<longleftrightarrow> j < len \<and> stream_bit (drop 64 (gpr rt')) (start + (len - 1 - j))"
    using hv_bit_sel_spec assms(4) by blast
  have "stream_bit (drop 64 (gpr rt')) (start + (len - 1 - j))
      = packet_bit (pkt_buf rt) (8 * unat ho + start + (len - 1 - j))" if "j < len" for j
    using stream_bit_hb_load [OF g hb(1), of "start + (len - 1 - j)"] that assms(3) hb(2) by (simp add: add.assoc)
  with v show ?thesis by auto
qed

text \<open>The version field of an IPv4 header after an Ethernet header.\<close>

theorem header_field_network_order_witness:
  "\<exists>rt' v. rt_ho_set 14 (zero_rt\<lparr>pkt_buf := replicate 14 0 @ replicate 522 0x45\<rparr>) = Some rt' \<and>
     hv_bit_sel rt' 0 4 = Some v \<and> (\<forall>j. bit v j \<longleftrightarrow> j = 2)"
proof -
  let ?rt = "zero_rt\<lparr>pkt_buf := replicate 14 0 @ replicate 522 0x45\<rparr>"
  obtain rt' where rt': "rt_ho_set 14 ?rt = Some rt'" by (simp add: rt_ho_set_def ld_bytes_def)
  have "length (gpr ?rt) = 128" by (simp add: zero_rt_def)
  then obtain v where v: "hv_bit_sel rt' 0 4 = Some v"
    "\<forall>j. bit v j \<longleftrightarrow> j < 4 \<and> packet_bit (pkt_buf ?rt) (8 * unat (14 :: u16) + 0 + (4 - 1 - j))"
    using header_field_network_order [OF rt', of 0 4] by auto
  define Q where "Q j = packet_bit (pkt_buf ?rt) (8 * unat (14 :: u16) + 0 + (4 - 1 - j))" for j
  have "Q j \<longleftrightarrow> j = 2" if "j < 4" for j
  proof -
    have "j = 0 \<or> j = 1 \<or> j = 2 \<or> j = 3" using that by linarith
    then show ?thesis by (auto simp: Q_def packet_bit_def nth_append)
  qed
  moreover have "bit v j \<longleftrightarrow> j < 4 \<and> Q j" for j using v(2) unfolding Q_def by blast
  ultimately have "\<forall>j. bit v j \<longleftrightarrow> j = 2" by auto
  with rt' v(1) show ?thesis by blast
qed

end
