(* ===== verification/Ice_Parser_Safety.thy ===== *)
theory Ice_Parser_Safety
  imports Ice_Parser_Fields
begin

text \<open>
  Memory safety and termination of the parser: under conditions on the tables
  that can be checked entry by entry, no round leaves an array, every round but
  the last one advances the header offset, and the loop ends after at most one
  round per packet byte.
\<close>

section \<open>What an instruction may change\<close>

definition arith_opc :: "u32 \<Rightarrow> bool" where
  "arith_opc op \<longleftrightarrow> op \<in> {ICE_ALU_MOV_ADD, ICE_ALU_ADD, ICE_ALU_MOV_XOR}"

definition branch_opc :: "u32 \<Rightarrow> bool" where
  "branch_opc op \<longleftrightarrow> op \<in> {ICE_ALU_ORLT, ICE_ALU_OREQ, ICE_ALU_SETEQ}"

definition pu_wf :: "ice_gpr_pu \<Rightarrow> bool" where
  "pu_wf p \<longleftrightarrow> length (gpr_val_upd p) = 128 \<and> length (gpr_val p) = 128"

text \<open>
  An instruction changes nothing but the protocol offset and the pending
  updates; of these it leaves the register part alone except for the register
  it names and, when it branches, the next program counter.
\<close>

definition pu_same_regs :: "ice_gpr_pu \<Rightarrow> ice_gpr_pu \<Rightarrow> bool" where
  "pu_same_regs p q \<longleftrightarrow> gpr_val_upd q = gpr_val_upd p \<and> gpr_val q = gpr_val p \<and> err_val q = err_val p"

definition alu_step :: "ice_alu \<Rightarrow> ice_gpr_pu \<Rightarrow> ice_gpr_pu \<Rightarrow> bool" where
  "alu_step alu p q \<longleftrightarrow> err_val q = err_val p \<and>
     (if \<not> shift_xlate_select alu \<and> arith_opc (opc alu) then
        unat (dst_reg_id alu) < 128 \<and> gpr_val_upd q = (gpr_val_upd p)[unat (dst_reg_id alu) := True] \<and>
        (\<exists>v. gpr_val q = (gpr_val p)[unat (dst_reg_id alu) := v])
      else if \<not> shift_xlate_select alu \<and> branch_opc (opc alu) then
        gpr_val_upd q = (gpr_val_upd p)[111 := True] \<and> gpr_val q = (gpr_val p)[111 := ucast (branch_addr alu)]
      else gpr_val_upd q = gpr_val_upd p \<and> gpr_val q = gpr_val p)"

definition flag_frame :: "ice_parser_rt \<Rightarrow> ice_parser_rt \<Rightarrow> bool" where
  "flag_frame rt rt' \<longleftrightarrow> rt' = rt\<lparr>pu := pu rt'\<rparr> \<and> pu_same_regs (pu rt) (pu rt')"

lemma flag_frame_refl [simp]: "flag_frame rt rt"
  by (simp add: flag_frame_def pu_same_regs_def)

lemma flag_frame_trans: "flag_frame a b \<Longrightarrow> flag_frame b c \<Longrightarrow> flag_frame a c"
  unfolding flag_frame_def pu_same_regs_def by (cases a; cases b; cases c) simp

lemma flg_add_frame: "flg_add i v rt = Some rt' \<Longrightarrow> flag_frame rt rt'"
  by (auto simp: flg_add_def flag_frame_def pu_same_regs_def split: if_splits)

lemma err_add_frame: "flag_frame rt (err_add i v rt)"
  by (simp add: err_add_def flag_frame_def pu_same_regs_def)

lemma ofold_frame:
  assumes "ofold f xs rt = Some rt'" "\<And>x s s'. f x s = Some s' \<Longrightarrow> flag_frame s s'"
  shows "flag_frame rt rt'"
  using ofold_preserves [where P = "flag_frame rt", OF assms(1)] assms(2) flag_frame_trans by auto

lemma flg_update_frame:
  assumes "flg_update alu rt = Some rt'"
  shows "flag_frame rt rt'"
proof (cases "dedicate_flags_ena alu")
  case ded: True
  show ?thesis
  proof (cases "flags_extr_imm alu")
    case True
    then show ?thesis using assms ded unfolding flg_update_def
      by (simp only: if_True if_False not_True_eq_False)
         (erule ofold_frame, auto intro: flg_add_frame split: if_splits simp del: push_bit_of_1)
  next
    case False
    then show ?thesis using assms ded unfolding flg_update_def
      by (simp only: if_True if_False not_True_eq_False)
         (erule ofold_frame, auto intro: flg_add_frame split: bind_splits)
  qed
next
  case False
  then show ?thesis using assms by (simp add: flg_update_def)
qed

lemma dst_reg_bit_set_frame: "dst_reg_bit_set alu v rt = Some rt' \<Longrightarrow> flag_frame rt rt'"
  unfolding dst_reg_bit_set_def
  by (auto simp: Let_def err_add_frame intro: flg_add_frame split: if_splits)

lemma alu_po_update_frame: "\<exists>p. alu_po_update alu rt = rt\<lparr>po := p\<rparr>"
proof -
  have "rt = rt\<lparr>po := po rt\<rparr>" by simp
  then show ?thesis unfolding alu_po_update_def Let_def by metis
qed

lemma gpr_add_Some:
  assumes "gpr_add i v rt = Some rt'" "pu_wf (pu rt)"
  shows "i < 128 \<and> rt' = rt\<lparr>pu := (pu rt)\<lparr>gpr_val_upd := (gpr_val_upd (pu rt))[i := True],
    gpr_val := (gpr_val (pu rt))[i := v]\<rparr>\<rparr>"
  using assms by (auto simp: gpr_add_def pu_wf_def arr_put_def split: bind_splits if_splits)

lemma flag_frameD:
  assumes "flag_frame (rt\<lparr>po := p, pu := q\<rparr>) rt'"
  obtains q' where "rt' = rt\<lparr>po := p, pu := q'\<rparr>" "pu_same_regs q q'"
proof (rule that)
  show "rt' = rt\<lparr>po := p, pu := pu rt'\<rparr>"
    using assms unfolding flag_frame_def by (cases rt; cases rt') simp
  show "pu_same_regs q (pu rt')" using assms by (simp add: flag_frame_def)
qed

text \<open>The flag part of an instruction, up to the fetch of its operands.\<close>

lemma alu_prefix_step:
  assumes "flg_update alu (alu_po_update alu rt) = Some r1"
  obtains p q where "r1 = rt\<lparr>po := p, pu := q\<rparr>" "pu_same_regs (pu rt) q"
proof -
  obtain p where p: "alu_po_update alu rt = rt\<lparr>po := p\<rparr>" using alu_po_update_frame by blast
  have "rt\<lparr>po := p\<rparr> = rt\<lparr>po := p, pu := pu rt\<rparr>" by simp
  then have "flag_frame (rt\<lparr>po := p, pu := pu rt\<rparr>) r1"
    using flg_update_frame [OF assms] p by metis
  then show ?thesis using that by (rule flag_frameD)
qed

lemma gpr_add_step:
  assumes "gpr_add i v (rt\<lparr>po := p, pu := q\<rparr>) = Some rt'" "pu_same_regs (pu rt) q" "pu_wf (pu rt)"
  shows "i < 128 \<and> (\<exists>q'. rt' = rt\<lparr>po := p, pu := q'\<rparr> \<and> err_val q' = err_val (pu rt) \<and>
    gpr_val_upd q' = (gpr_val_upd (pu rt))[i := True] \<and> gpr_val q' = (gpr_val (pu rt))[i := v])"
proof -
  have "pu_wf q" using assms by (simp add: pu_wf_def pu_same_regs_def)
  then show ?thesis
    using gpr_add_Some [OF assms(1)] assms(2)
    by (intro conjI exI [of _ "q\<lparr>gpr_val_upd := (gpr_val_upd (pu rt))[i := True],
        gpr_val := (gpr_val (pu rt))[i := v]\<rparr>"]) (simp_all add: pu_same_regs_def)
qed

lemma arith_not_branch: "branch_opc op \<Longrightarrow> \<not> arith_opc op"
  by (auto simp: branch_opc_def arith_opc_def)

lemma branch_step:
  assumes "\<exists>r. (if c then dst_reg_bit_set alu b (rt\<lparr>po := p, pu := q\<rparr>) else Some (rt\<lparr>po := p, pu := q\<rparr>)) = Some r
      \<and> gpr_add 111 (ucast (branch_addr alu)) r = Some rt'"
    and "pu_same_regs (pu rt) q" "pu_wf (pu rt)" "branch_opc (opc alu)" "\<not> shift_xlate_select alu"
  shows "\<exists>p q. rt' = rt\<lparr>po := p, pu := q\<rparr> \<and> alu_step alu (pu rt) q"
proof -
  obtain r where r: "(if c then dst_reg_bit_set alu b (rt\<lparr>po := p, pu := q\<rparr>) else Some (rt\<lparr>po := p, pu := q\<rparr>)) = Some r"
    "gpr_add 111 (ucast (branch_addr alu)) r = Some rt'"
    using assms(1) by blast
  have "flag_frame (rt\<lparr>po := p, pu := q\<rparr>) r"
    using r(1) dst_reg_bit_set_frame by (cases c) auto
  then obtain q1 where q1: "r = rt\<lparr>po := p, pu := q1\<rparr>" "pu_same_regs q q1" by (rule flag_frameD)
  have "pu_same_regs (pu rt) q1" using q1(2) assms(2) by (simp add: pu_same_regs_def)
  then show ?thesis
    using gpr_add_step [where i = 111 and v = "ucast (branch_addr alu)" and rt = rt and p = p and q = q1 and rt' = rt'] r(2) q1(1) assms(3,4,5) arith_not_branch
    unfolding alu_step_def by (simp add: arith_not_branch) metis
qed

lemma arith_step:
  assumes "gpr_add (unat (dst_reg_id alu)) v (rt\<lparr>po := p, pu := q\<rparr>) = Some rt'"
    and "pu_same_regs (pu rt) q" "pu_wf (pu rt)" "arith_opc (opc alu)" "\<not> shift_xlate_select alu"
  shows "\<exists>p q. rt' = rt\<lparr>po := p, pu := q\<rparr> \<and> alu_step alu (pu rt) q"
  using gpr_add_step [OF assms(1-3)] assms(4,5) unfolding alu_step_def by (simp only: simp_thms if_True) blast

lemma alu_exe_step:
  assumes e: "alu_exe alu rt = Some rt'" and w: "pu_wf (pu rt)"
  shows "\<exists>p q. rt' = rt\<lparr>po := p, pu := q\<rparr> \<and> alu_step alu (pu rt) q"
proof (cases "shift_xlate_select alu")
  case True
  then have "rt' = rt\<lparr>po := po rt, pu := pu rt\<rparr>" "alu_step alu (pu rt) (pu rt)"
    using e by (simp_all add: alu_exe_def alu_step_def)
  then show ?thesis by blast
next
  case False
  let ?n = "unat (shift_xlate_key alu)"
  obtain r1 dst src where r1: "flg_update alu (alu_po_update alu rt) = Some r1"
    and body: "(if opc alu = ICE_ALU_PARK then Some r1
        else if opc alu = ICE_ALU_MOV_ADD then shift_add src ?n (imm alu) \<bind> (\<lambda>d. gpr_add (unat (dst_reg_id alu)) d r1)
        else if opc alu = ICE_ALU_ADD then shift_add src ?n (imm alu) \<bind> (\<lambda>d. gpr_add (unat (dst_reg_id alu)) (dst + d) r1)
        else if opc alu = ICE_ALU_ORLT then (if src < imm alu then dst_reg_bit_set alu True r1 else Some r1)
            \<bind> (\<lambda>rt. gpr_add 111 (ucast (branch_addr alu)) rt)
        else if opc alu = ICE_ALU_OREQ then (if src = imm alu then dst_reg_bit_set alu True r1 else Some r1)
            \<bind> (\<lambda>rt. gpr_add 111 (ucast (branch_addr alu)) rt)
        else if opc alu = ICE_ALU_SETEQ then dst_reg_bit_set alu (src = imm alu) r1
            \<bind> (\<lambda>rt. gpr_add 111 (ucast (branch_addr alu)) rt)
        else if opc alu = ICE_ALU_MOV_XOR then shift_add src ?n 0 \<bind> (\<lambda>d. gpr_add (unat (dst_reg_id alu)) (d XOR imm alu) r1)
        else Some r1) = Some rt'"
    using e False unfolding alu_exe_def Let_def
    by (simp only: if_False bind_eq_Some_conv) blast
  obtain p q where pq: "r1 = rt\<lparr>po := p, pu := q\<rparr>" "pu_same_regs (pu rt) q"
    using alu_prefix_step [OF r1] by blast
  have same: ?thesis if "rt' = r1" "\<not> arith_opc (opc alu)" "\<not> branch_opc (opc alu)"
    using that pq unfolding alu_step_def pu_same_regs_def by auto
  consider "opc alu = ICE_ALU_MOV_ADD" | "opc alu = ICE_ALU_ADD" | "opc alu = ICE_ALU_MOV_XOR"
    | "opc alu = ICE_ALU_ORLT" | "opc alu = ICE_ALU_OREQ" | "opc alu = ICE_ALU_SETEQ"
    | "opc alu \<notin> {ICE_ALU_MOV_ADD, ICE_ALU_ADD, ICE_ALU_MOV_XOR, ICE_ALU_ORLT, ICE_ALU_OREQ, ICE_ALU_SETEQ}"
    by blast
  then show ?thesis
  proof cases
    case 1
    with body False show ?thesis using arith_step pq w by (auto simp: arith_opc_def bind_eq_Some_conv)
  next
    case 2
    with body False show ?thesis using arith_step pq w by (auto simp: arith_opc_def bind_eq_Some_conv)
  next
    case 3
    with body False show ?thesis using arith_step pq w by (auto simp: arith_opc_def bind_eq_Some_conv)
  next
    case 4
    with body have "\<exists>r. (if src < imm alu then dst_reg_bit_set alu True (rt\<lparr>po := p, pu := q\<rparr>)
        else Some (rt\<lparr>po := p, pu := q\<rparr>)) = Some r \<and> gpr_add 111 (ucast (branch_addr alu)) r = Some rt'"
      unfolding pq(1) by (simp add: bind_eq_Some_conv)
    then show ?thesis by (rule branch_step) (use pq w 4 False in \<open>auto simp: branch_opc_def\<close>)
  next
    case 5
    with body have "\<exists>r. (if src = imm alu then dst_reg_bit_set alu True (rt\<lparr>po := p, pu := q\<rparr>)
        else Some (rt\<lparr>po := p, pu := q\<rparr>)) = Some r \<and> gpr_add 111 (ucast (branch_addr alu)) r = Some rt'"
      unfolding pq(1) by (simp add: bind_eq_Some_conv)
    then show ?thesis by (rule branch_step) (use pq w 5 False in \<open>auto simp: branch_opc_def\<close>)
  next
    case 6
    with body have "\<exists>r. (if True then dst_reg_bit_set alu (src = imm alu) (rt\<lparr>po := p, pu := q\<rparr>)
        else Some (rt\<lparr>po := p, pu := q\<rparr>)) = Some r \<and> gpr_add 111 (ucast (branch_addr alu)) r = Some rt'"
      unfolding pq(1) by (simp add: bind_eq_Some_conv)
    then show ?thesis by (rule branch_step) (use pq w 6 False in \<open>auto simp: branch_opc_def\<close>)
  next
    case 7
    then have "rt' = r1" using body by (auto split: if_splits)
    with 7 show ?thesis by (intro same) (auto simp: arith_opc_def branch_opc_def)
  qed
qed

section \<open>Instructions do not fault\<close>

text \<open>What an instruction must satisfy; all of it can be checked on the decoded table.\<close>

definition alu_wf :: "ice_alu \<Rightarrow> bool" where
  "alu_wf alu \<longleftrightarrow> unat (dst_reg_id alu) < 128 \<and>
     unat (src_reg_id alu) + unat (src_start alu) div 16 < 127 \<and> unat (src_len alu) < 32 \<and>
     unat (shift_xlate_key alu) < 16 \<and>
     (dedicate_flags_ena alu \<longrightarrow> unat (dst_start alu) + unat (dst_len alu) \<le> 64 \<and>
       (flags_extr_imm alu \<longrightarrow> unat (dst_len alu) \<le> 32))"

lemma flg_add_ok: "i < 64 \<Longrightarrow> \<exists>rt'. flg_add i v rt = Some rt'"
  by (simp add: flg_add_def)

lemma flg_update_ok:
  assumes w: "alu_wf alu" and g: "length (gpr rt) = 128"
  shows "\<exists>rt'. flg_update alu rt = Some rt'"
proof (cases "dedicate_flags_ena alu")
  case ded: True
  let ?I = "\<lambda>rt. length (gpr rt) = 128"
  have keep: "\<exists>s'. flg_add i v s = Some s' \<and> ?I s'" if "i < 64" "?I s" for i v s
    using flg_add_ok [OF that(1)] flg_add_frame that(2) unfolding flag_frame_def
    by (metis ice_parser_rt.ext_inject ice_parser_rt.surjective ice_parser_rt.update_convs(12))
  have dl: "unat (dst_len alu) + unat (dst_start alu) \<le> 64" using w ded by (simp add: alu_wf_def)
  show ?thesis
  proof (cases "flags_extr_imm alu")
    case True
    have "\<exists>rt'. ofold (\<lambda>i rt. if i < 32 then flg_add (unat (dst_start alu) + i)
          ((ucast (flags_start_imm alu) :: u32) AND push_bit i 1 \<noteq> 0) rt else None)
          [0..<unat (dst_len alu)] rt = Some rt' \<and> ?I rt'"
      by (rule ofold_invariant) (use g w ded True dl keep in \<open>auto simp: alu_wf_def simp del: push_bit_of_1\<close>)
    with ded True show ?thesis by (auto simp: flg_update_def simp del: push_bit_of_1)
  next
    case False
    have hv: "\<exists>v. hv_bit_sel s (unat (flags_start_imm alu) + i) 1 = Some v" if "i < 64" "?I s" for i s
      using hv_bit_sel_spec [of s "unat (flags_start_imm alu) + i" 1] that unat_lt [of "flags_start_imm alu"] by auto
    have "\<exists>rt'. ofold (\<lambda>i rt. do { v \<leftarrow> hv_bit_sel rt (unat (flags_start_imm alu) + i) 1;
          flg_add (unat (dst_start alu) + i) (v \<noteq> 0) rt }) [0..<unat (dst_len alu)] rt = Some rt' \<and> ?I rt'"
    proof (rule ofold_invariant)
      fix i and s :: ice_parser_rt
      assume "i \<in> set [0..<unat (dst_len alu)]" "?I s"
      with dl hv [of i s] keep [of "unat (dst_start alu) + i" s]
      show "\<exists>s'. (do { v \<leftarrow> hv_bit_sel s (unat (flags_start_imm alu) + i) 1;
          flg_add (unat (dst_start alu) + i) (v \<noteq> 0) s }) = Some s' \<and> ?I s'" by fastforce
    qed (rule g)
    with ded False show ?thesis by (auto simp: flg_update_def)
  qed
qed (simp add: flg_update_def)

lemma reg_bit_sel_ok:
  assumes "length (gpr rt) = 128" "r + start div 16 < 127" "len < 32"
  shows "\<exists>v. reg_bit_sel rt r start len = Some v \<and> uint v < 256"
proof -
  have "uint (ucast (b :: u8) :: u16) < 256" for b
    using uint_lt2p [of b] take_bit_int_less_eq_self_iff [of 16 "uint b"]
    by (simp add: unsigned_ucast_eq)
  with assms show ?thesis by (auto simp: reg_bit_sel_def gpr_bytes_def)
qed

lemma shift_add_ok:
  assumes "uint src < 256" "n < 16"
  shows "\<exists>v. shift_add src n i = Some v"
proof -
  have "(2 :: int) ^ n \<le> 2 ^ 15" using assms(2) by (intro power_increasing) auto
  moreover have "uint src \<le> 255" using assms(1) by linarith
  ultimately have "uint src * 2 ^ n \<le> 255 * 2 ^ 15" by (intro mult_mono) auto
  moreover have "uint i < 65536" using uint_lt2p [of i] by simp
  ultimately have "uint src * 2 ^ n + uint i < 2 ^ 31" by simp
  then show ?thesis by (simp add: shift_add_def Let_def)
qed

lemma gpr_add_ok: "i < 128 \<Longrightarrow> pu_wf (pu rt) \<Longrightarrow> \<exists>rt'. gpr_add i v rt = Some rt'"
  by (simp add: gpr_add_def pu_wf_def)

lemma dst_reg_bit_set_ok: "\<exists>rt'. dst_reg_bit_set alu v rt = Some rt'"
proof -
  have "unat x < 64" if "\<not> 64 \<le> x" for x :: u16
    using that by (simp add: word_le_nat_alt)
  then show ?thesis unfolding dst_reg_bit_set_def Let_def by (auto simp: flg_add_def)
qed

lemma alu_exe_ok:
  assumes w: "alu_wf alu" and g: "length (gpr rt) = 128" and p: "pu_wf (pu rt)"
  shows "\<exists>rt'. alu_exe alu rt = Some rt'"
proof (cases "shift_xlate_select alu")
  case False
  have "length (gpr (alu_po_update alu rt)) = 128" using g alu_po_update_frame [of alu rt] by fastforce
  then obtain r1 where r1: "flg_update alu (alu_po_update alu rt) = Some r1" using flg_update_ok [OF w] by blast
  then obtain p' q where pq: "r1 = rt\<lparr>po := p', pu := q\<rparr>" "pu_same_regs (pu rt) q"
    by (rule alu_prefix_step)
  have g1: "length (gpr r1) = 128" "pu_wf (pu r1)" using pq g p by (simp_all add: pu_wf_def pu_same_regs_def)
  obtain src where src: "reg_bit_sel r1 (unat (src_reg_id alu)) (unat (src_start alu)) (unat (src_len alu)) = Some src"
    "uint src < 256"
    using reg_bit_sel_ok [OF g1(1)] w by (metis alu_wf_def)
  have d: "unat (dst_reg_id alu) < 128" "unat (shift_xlate_key alu) < 16" using w by (auto simp: alu_wf_def)
  have sh: "\<exists>v. shift_add src (unat (shift_xlate_key alu)) i = Some v" for i
    by (rule shift_add_ok [OF src(2) d(2)])
  have ga: "\<exists>rt'. gpr_add i v r1 = Some rt'" if "i < 128" for i v by (rule gpr_add_ok [OF that g1(2)])
  have br: "\<exists>rt'. gpr_add 111 v r = Some rt'" if "flag_frame r1 r" for v r
  proof -
    have "pu_wf (pu r)" using that g1(2) by (simp add: flag_frame_def pu_same_regs_def pu_wf_def)
    then show ?thesis by (intro gpr_add_ok) auto
  qed
  have bd: "\<exists>rt'. dst_reg_bit_set alu v r1 \<bind> gpr_add 111 u = Some rt'" for v u
    using dst_reg_bit_set_ok [of alu v r1] dst_reg_bit_set_frame br by fastforce
  have np: "\<exists>rt'. gpr_add 111 u r1 = Some rt'" for u by (rule ga) simp
  have ar: "\<exists>rt'. shift_add src (unat (shift_xlate_key alu)) i \<bind> (\<lambda>d. gpr_add (unat (dst_reg_id alu)) (f d) r1) = Some rt'"
    for i f
  proof -
    obtain v where "shift_add src (unat (shift_xlate_key alu)) i = Some v" using sh by blast
    with ga [OF d(1), of "f v"] show ?thesis by simp
  qed
  have bc: "\<exists>rt'. (if c then dst_reg_bit_set alu v r1 else Some r1) \<bind> gpr_add 111 u = Some rt'" for c v u
    using bd [of v u] np [of u] by (cases c) auto
  have dst: "arr_get (gpr r1) (unat (dst_reg_id alu)) = Some (gpr r1 ! unat (dst_reg_id alu))"
    using g1(1) d(1) by simp
  show ?thesis
    unfolding alu_exe_def Let_def using False r1 dst src(1) bd
      ar [where f = "\<lambda>d. d"] ar [where f = "\<lambda>d. gpr r1 ! unat (dst_reg_id alu) + d"]
      ar [where f = "\<lambda>d. d XOR imm alu"] bc
    by (simp only: if_False bind.bind_lunit split: if_split) blast
qed (simp add: alu_exe_def)

section \<open>The instructions of a round\<close>

lemma alu_step_pu_wf: "alu_step alu p q \<Longrightarrow> pu_wf p \<Longrightarrow> pu_wf q"
  by (auto simp: alu_step_def pu_wf_def split: if_splits)

text \<open>The pending update of the parse-graph action.\<close>

definition pg_pu :: "ice_pg_cam_action \<Rightarrow> ice_gpr_pu \<Rightarrow> ice_gpr_pu" where
  "pg_pu act p = p\<lparr>gpr_val_upd := (gpr_val_upd p)[111 := True, 109 := True],
     gpr_val := (gpr_val p)[111 := ucast (next_pc act), 109 := next_node act]\<rparr>"

lemma pg_exe_eq: "pu_wf (pu rt) \<Longrightarrow> pg_exe act rt = Some (rt\<lparr>pu := pg_pu act (pu rt)\<rparr>)"
  by (simp add: pg_exe_def gpr_add_def pu_wf_def pg_pu_def)

lemma pu_wf_pg_pu: "pu_wf p \<Longrightarrow> pu_wf (pg_pu act p)"
  by (simp add: pu_wf_def pg_pu_def)

text \<open>
  A round's four executions, in whichever order: the state differs from the
  start of the round in the protocol offset and the pending updates only, and
  a property of the pending updates that each execution keeps holds at the end.
\<close>

definition exec_inv :: "(ice_gpr_pu \<Rightarrow> bool) \<Rightarrow> ice_parser_rt \<Rightarrow> ice_parser_rt \<Rightarrow> bool" where
  "exec_inv P rt s \<longleftrightarrow> s = rt\<lparr>po := po s, pu := pu s\<rparr> \<and> pu_wf (pu s) \<and> P (pu s)"

lemma exec_inv_update:
  assumes "exec_inv P rt s" "pu_wf q" "P q"
  shows "exec_inv P rt (s\<lparr>po := p, pu := q\<rparr>)"
  using assms unfolding exec_inv_def by (cases rt; cases s) simp

lemma exec_inv_refl: "pu_wf (pu rt) \<Longrightarrow> P (pu rt) \<Longrightarrow> exec_inv P rt rt"
  by (simp add: exec_inv_def)

lemma exec_invD:
  assumes "exec_inv P rt s"
  shows "pu_wf (pu s)" "P (pu s)" "gpr s = gpr rt" "alu0 s = alu0 rt" "alu1 s = alu1 rt" "alu2 s = alu2 rt" "pg s = pg rt"
  using assms unfolding exec_inv_def by (cases rt; cases s; simp)+

lemma alu_exe_inv:
  assumes "exec_inv P rt s" "alu_exe alu s = Some s'" "\<And>p q. P p \<Longrightarrow> pu_wf p \<Longrightarrow> alu_step alu p q \<Longrightarrow> P q"
  shows "exec_inv P rt s'"
proof -
  obtain p q where pq: "s' = s\<lparr>po := p, pu := q\<rparr>" "alu_step alu (pu s) q"
    using alu_exe_step [OF assms(2)] exec_invD(1) [OF assms(1)] by blast
  then have "pu_wf q \<and> P q" using assms(1,3) alu_step_pu_wf exec_invD(1,2) by blast
  with pq(1) assms(1) show ?thesis by (simp add: exec_inv_update)
qed

lemma pg_exe_inv:
  assumes "exec_inv P rt s" "pg_exe act s = Some s'" "\<And>p. P p \<Longrightarrow> pu_wf p \<Longrightarrow> P (pg_pu act p)"
  shows "exec_inv P rt s'"
proof -
  have "s' = s\<lparr>pu := pg_pu act (pu s)\<rparr>" using assms(1,2) exec_invD(1) pg_exe_eq by fastforce
  then have "s' = s\<lparr>po := po s, pu := pg_pu act (pu s)\<rparr>" by simp
  moreover have "pu_wf (pg_pu act (pu s))" "P (pg_pu act (pu s))"
    using exec_invD(1,2) [OF assms(1)] assms(3) pu_wf_pg_pu by blast+
  ultimately show ?thesis using exec_inv_update [OF assms(1)] by metis
qed

lemma bind_all:
  assumes "pred_option J m" "\<And>s. J s \<Longrightarrow> pred_option J (f s)"
  shows "pred_option J (m \<bind> f)"
  using assms by (cases m) auto

lemma alu_pg_order_inv:
  assumes e: "alu_pg_order act rt = Some rt'" and i: "pu_wf (pu rt)" "P (pu rt)"
    and a: "\<And>alu p q. Some alu \<in> {alu0 rt, alu1 rt, alu2 rt} \<Longrightarrow> P p \<Longrightarrow> pu_wf p \<Longrightarrow> alu_step alu p q \<Longrightarrow> P q"
    and g: "\<And>p. P p \<Longrightarrow> pu_wf p \<Longrightarrow> P (pg_pu act p)"
  shows "exec_inv P rt rt'"
proof -
  have i0: "exec_inv P rt rt" using i by (rule exec_inv_refl)
  have s0: "exec_inv P rt s'" if "exec_inv P rt s" "alu0_exe s = Some s'" for s s'
    using that(2) exec_invD(4) [OF that(1)] unfolding alu0_exe_def bind_eq_Some_conv
    by (elim exE conjE) (erule alu_exe_inv [OF that(1)], rule a, auto)
  have s1: "exec_inv P rt s'" if "exec_inv P rt s" "alu1_exe s = Some s'" for s s'
    using that(2) exec_invD(5) [OF that(1)] unfolding alu1_exe_def bind_eq_Some_conv
    by (elim exE conjE) (erule alu_exe_inv [OF that(1)], rule a, auto)
  have s2: "exec_inv P rt s'" if "exec_inv P rt s" "alu2_exe s = Some s'" for s s'
    using that(2) exec_invD(6) [OF that(1)] unfolding alu2_exe_def bind_eq_Some_conv
    by (elim exE conjE) (erule alu_exe_inv [OF that(1)], rule a, auto)
  have sg: "exec_inv P rt s'" if "exec_inv P rt s" "pg_exe act s = Some s'" for s s'
    using pg_exe_inv [OF that g] by blast
  have st: "pred_option (exec_inv P rt) (alu0_exe s)" "pred_option (exec_inv P rt) (alu1_exe s)"
    "pred_option (exec_inv P rt) (alu2_exe s)" "pred_option (exec_inv P rt) (pg_exe act s)"
    if "exec_inv P rt s" for s
    using s0 [OF that] s1 [OF that] s2 [OF that] sg [OF that] by (auto simp: option.pred_set)
  have "pred_option (exec_inv P rt) (alu_pg_order act rt)"
    unfolding alu_pg_order_def using i0 by (auto intro!: bind_all intro: st)
  with e show ?thesis by simp
qed

lemma bind_ok:
  assumes "\<exists>s. m = Some s \<and> J s" "\<And>s. J s \<Longrightarrow> \<exists>t. f s = Some t \<and> J t"
  shows "\<exists>t. m \<bind> f = Some t \<and> J t"
  using assms by fastforce

lemma alu_pg_order_ok:
  assumes w: "alu0 rt = Some a0" "alu1 rt = Some a1" "alu2 rt = Some a2" "alu_wf a0" "alu_wf a1" "alu_wf a2"
    and g: "length (gpr rt) = 128" and p: "pu_wf (pu rt)"
  shows "\<exists>rt'. alu_pg_order act rt = Some rt'"
proof -
  let ?J = "exec_inv (\<lambda>_. True) rt"
  have i0: "?J rt" using p by (simp add: exec_inv_refl)
  have al: "\<exists>s'. alu_exe alu s = Some s' \<and> ?J s'" if "?J s" "alu_wf alu" for alu s
    using alu_exe_ok [OF that(2)] alu_exe_inv [OF that(1)] exec_invD [OF that(1)] g by metis
  have J0: "\<exists>s'. alu0_exe s = Some s' \<and> ?J s'" if "?J s" for s
    using al [OF that w(4)] exec_invD(4) [OF that] w(1) by (simp add: alu0_exe_def)
  have J1: "\<exists>s'. alu1_exe s = Some s' \<and> ?J s'" if "?J s" for s
    using al [OF that w(5)] exec_invD(5) [OF that] w(2) by (simp add: alu1_exe_def)
  have J2: "\<exists>s'. alu2_exe s = Some s' \<and> ?J s'" if "?J s" for s
    using al [OF that w(6)] exec_invD(6) [OF that] w(3) by (simp add: alu2_exe_def)
  have Jg: "\<exists>s'. pg_exe act s = Some s' \<and> ?J s'" if "?J s" for s
    using pg_exe_eq [OF exec_invD(1) [OF that]] pg_exe_inv [OF that] by blast
  have "\<exists>rt'. alu_pg_order act rt = Some rt' \<and> ?J rt'"
    unfolding alu_pg_order_def using i0 by (auto intro!: bind_ok J0 J1 J2 Jg)
  then show ?thesis by blast
qed

section \<open>Committing the pending updates\<close>

text \<open>The registers after the first loop of \<open>_pu_exe\<close>, if the header offset has no pending update.\<close>

definition pend_gpr :: "ice_gpr_pu \<Rightarrow> u16 list \<Rightarrow> nat \<Rightarrow> u16 list" where
  "pend_gpr p g n = map (\<lambda>i. if i < n \<and> gpr_val_upd p ! i then gpr_val p ! i else g ! i) [0..<128]"

lemma pu_gpr_loop_spec:
  assumes g: "length (gpr rt) = 128" and h: "\<not> gpr_val_upd p ! 110"
  shows "pu_gpr_loop p rt = Some (rt\<lparr>gpr := pend_gpr p (gpr rt) 128\<rparr>)"
proof -
  let ?f = "\<lambda>i rt. if gpr_val_upd p ! i then rt_gpr_set i (gpr_val p ! i) rt else Some rt"
  have "ofold ?f [0..<n] rt = Some (rt\<lparr>gpr := pend_gpr p (gpr rt) n\<rparr>)" if "n \<le> 128" for n
    using that
  proof (induction n)
    case 0
    have "gpr rt = pend_gpr p (gpr rt) 0" using g by (simp add: pend_gpr_def list_eq_iff_nth_eq)
    then show ?case by simp
  next
    case (Suc n)
    have "?f n (rt\<lparr>gpr := pend_gpr p (gpr rt) n\<rparr>) = Some (rt\<lparr>gpr := pend_gpr p (gpr rt) (Suc n)\<rparr>)"
    proof (cases "gpr_val_upd p ! n")
      case True
      have "(pend_gpr p (gpr rt) n)[n := gpr_val p ! n] = pend_gpr p (gpr rt) (Suc n)"
        using Suc.prems True by (auto simp: pend_gpr_def list_eq_iff_nth_eq nth_list_update less_Suc_eq)
      moreover have "n \<noteq> 110" using True h by metis
      ultimately show ?thesis using True Suc.prems by (simp add: rt_gpr_set_def pend_gpr_def)
    next
      case False
      then have "pend_gpr p (gpr rt) n = pend_gpr p (gpr rt) (Suc n)"
        by (auto simp: pend_gpr_def less_Suc_eq)
      with False show ?thesis by simp
    qed
    with Suc show ?case by (simp add: ofold_snoc del: upt_Suc add: upt_Suc_append)
  qed
  then show ?thesis by (simp add: pu_gpr_loop_def)
qed

lemma length_pend_gpr [simp]: "length (pend_gpr p g n) = 128"
  by (simp add: pend_gpr_def)

lemma nth_pend_gpr:
  "i < 128 \<Longrightarrow> pend_gpr p g 128 ! i = (if gpr_val_upd p ! i then gpr_val p ! i else g ! i)"
  by (simp add: pend_gpr_def)

lemma pu_exe_spec:
  assumes "length (gpr rt) = 128" "\<not> gpr_val_upd (pu rt) ! 110" "err_val (pu rt) = 0"
  shows "\<exists>g. pu_exe rt = Some (rt\<lparr>gpr := g\<rparr>) \<and> length g = 128 \<and>
    (\<forall>j < 64. flag_of g j = (if bit (flg_msk (pu rt)) j then bit (flg_val (pu rt)) j
       else flag_of (pend_gpr (pu rt) (gpr rt) 128) j)) \<and>
    (\<forall>k < 128. k \<noteq> 84 \<and> (k < 104 \<or> 108 \<le> k) \<longrightarrow> g ! k = pend_gpr (pu rt) (gpr rt) 128 ! k)"
proof -
  let ?p = "pu rt"
  define r1 where "r1 = rt\<lparr>gpr := pend_gpr ?p (gpr rt) 128\<rparr>"
  define r2 where "r2 = pu_flg_loop ?p r1"
  have l1: "length (gpr r1) = 128" by (simp add: r1_def)
  note F = pu_flg_loop_spec [OF l1, where p = ?p, folded r2_def]
  define e where "e = (if bit (err_msk ?p) 1 then 0 else gpr r2 ! 84)"
  have r2: "r2 = rt\<lparr>gpr := gpr r2\<rparr>" using F(2) by (cases rt; cases r2) (simp add: r1_def)
  have "pu_exe rt = Some (pu_err_loop ?p r2)"
    using pu_gpr_loop_spec [OF assms(1,2)] by (simp add: pu_exe_def r1_def r2_def)
  also have "pu_err_loop ?p r2 = r2\<lparr>gpr := (gpr r2)[84 := e]\<rparr>"
    unfolding e_def by (rule pu_err_loop_spec [OF assms(3) F(1)])
  also have "\<dots> = rt\<lparr>gpr := (gpr r2)[84 := e]\<rparr>" using r2 by (cases rt; cases r2) simp
  finally have ex: "pu_exe rt = Some (rt\<lparr>gpr := (gpr r2)[84 := e]\<rparr>)" .
  have fl: "flag_of ((gpr r2)[84 := e]) j = flag_of (gpr r2) j" for j by (simp add: flag_of_def)
  show ?thesis
    by (rule exI [of _ "(gpr r2)[84 := e]"]) (use ex F fl in \<open>simp add: r1_def\<close>)
qed

text \<open>
  In general a pending update of the header offset reloads the header buffer;
  the registers outside of it are committed all the same.
\<close>

definition plain_reg :: "nat \<Rightarrow> bool" where
  "plain_reg k \<longleftrightarrow> k < 128 \<and> (k < 64 \<or> 80 \<le> k) \<and> k \<noteq> 110"

lemma rt_gpr_set_nth:
  assumes "rt_gpr_set i v rt = Some rt'" "length (gpr rt) = 128"
  shows "length (gpr rt') = 128" "plain_reg k \<Longrightarrow> gpr rt' ! k = (if k = i then v else gpr rt ! k)" "pu rt' = pu rt"
  using assms
  by (auto simp: rt_gpr_set_def rt_ho_set_def plain_reg_def nth_hb_load nth_list_update arr_put_def
      split: if_splits bind_splits)

lemma pu_gpr_loop_nth:
  assumes "pu_gpr_loop p rt = Some rt'" "length (gpr rt) = 128"
  shows "length (gpr rt') = 128 \<and> (\<forall>k. plain_reg k \<longrightarrow> gpr rt' ! k = pend_gpr p (gpr rt) 128 ! k)"
proof -
  let ?f = "\<lambda>i rt. if gpr_val_upd p ! i then rt_gpr_set i (gpr_val p ! i) rt else Some rt"
  have "length (gpr r) = 128 \<and> (\<forall>k. plain_reg k \<longrightarrow> gpr r ! k = pend_gpr p (gpr rt) n ! k)"
    if "ofold ?f [0..<n] rt = Some r" "n \<le> 128" for n r
    using that
  proof (induction n arbitrary: r)
    case 0
    then show ?case using assms(2) by (auto simp: pend_gpr_def plain_reg_def)
  next
    case (Suc n)
    then obtain r1 where r1: "ofold ?f [0..<n] rt = Some r1" "?f n r1 = Some r"
      by (auto simp: ofold_snoc upt_Suc_append simp del: upt_Suc split: option.splits)
    have IH: "length (gpr r1) = 128" "\<forall>k. plain_reg k \<longrightarrow> gpr r1 ! k = pend_gpr p (gpr rt) n ! k"
      using Suc.IH [OF r1(1)] Suc.prems by auto
    show ?case
    proof (cases "gpr_val_upd p ! n")
      case True
      then show ?thesis using r1(2) rt_gpr_set_nth [of n "gpr_val p ! n" r1 r] IH
        by (auto simp: pend_gpr_def plain_reg_def less_Suc_eq)
    next
      case False
      then show ?thesis using r1(2) IH by (auto simp: pend_gpr_def plain_reg_def less_Suc_eq)
    qed
  qed
  then show ?thesis using assms(1) by (simp add: pu_gpr_loop_def)
qed

lemma rt_err_set_nth:
  "length (gpr (rt_err_set i v rt)) = length (gpr rt)" "k \<noteq> 84 \<Longrightarrow> gpr (rt_err_set i v rt) ! k = gpr rt ! k"
  by (simp_all add: rt_err_set_def Let_def)

lemma pu_err_loop_nth:
  "length (gpr (pu_err_loop p rt)) = length (gpr rt) \<and> (\<forall>k. k \<noteq> 84 \<longrightarrow> gpr (pu_err_loop p rt) ! k = gpr rt ! k)"
  unfolding pu_err_loop_def
  by (rule fold_invariant [where P = "\<lambda>s. length (gpr s) = length (gpr rt) \<and> (\<forall>k. k \<noteq> 84 \<longrightarrow> gpr s ! k = gpr rt ! k)"
        and Q = "\<lambda>_. True"]) (auto simp: rt_err_set_nth)

lemma alu_pg_exe_nth:
  assumes "alu_pg_exe act rt = Some rt'" "length (gpr rt) = 128"
  shows "\<exists>s. alu_pg_order act (rt\<lparr>pu := zero_pu\<rparr>) = Some s \<and> gpr s = gpr rt \<and> pu_wf (pu s) \<and>
    (\<forall>k. plain_reg k \<and> k \<noteq> 84 \<and> (k < 104 \<or> 108 \<le> k) \<longrightarrow> gpr rt' ! k = pend_gpr (pu s) (gpr rt) 128 ! k) \<and>
    (err_val (pu s) = 0 \<longrightarrow> gpr rt' ! 84 = (if bit (err_msk (pu s)) 1 then 0 else pend_gpr (pu s) (gpr rt) 128 ! 84))"
proof -
  obtain s r where s: "alu_pg_order act (rt\<lparr>pu := zero_pu\<rparr>) = Some s" and r: "pu_exe s = Some r"
    and t: "(if ho_inc act = 0 then Some r
      else if ho_polarity act then rt_ho_set (gpr r ! 110 + ho_inc act) r
      else rt_ho_set (gpr r ! 110 - ho_inc act) r) = Some rt'"
    using assms(1) unfolding alu_pg_exe_def bind_eq_Some_conv by blast
  have z: "pu_wf zero_pu" by (simp add: pu_wf_def zero_pu_def)
  have inv: "exec_inv (\<lambda>_. True) (rt\<lparr>pu := zero_pu\<rparr>) s"
    by (rule alu_pg_order_inv [where P = "\<lambda>_. True", OF s]) (simp_all add: z)
  have gs: "gpr s = gpr rt" "pu_wf (pu s)" using exec_invD [OF inv] by auto
  obtain r1 where r1: "pu_gpr_loop (pu s) s = Some r1" "r = pu_err_loop (pu s) (pu_flg_loop (pu s) r1)"
    using r by (auto simp: pu_exe_def bind_eq_Some_conv)
  have l1: "length (gpr r1) = 128" "\<forall>k. plain_reg k \<longrightarrow> gpr r1 ! k = pend_gpr (pu s) (gpr rt) 128 ! k"
    using pu_gpr_loop_nth [OF r1(1)] gs(1) assms(2) by auto
  note F = pu_flg_loop_spec [OF l1(1), where p = "pu s"]
  have r2: "gpr r ! k = pend_gpr (pu s) (gpr rt) 128 ! k" if "plain_reg k" "k \<noteq> 84" "k < 104 \<or> 108 \<le> k" for k
    using pu_err_loop_nth [of "pu s" "pu_flg_loop (pu s) r1"] that F(4) l1(2) r1(2) by auto
  have r84: "gpr r ! 84 = (if bit (err_msk (pu s)) 1 then 0 else pend_gpr (pu s) (gpr rt) 128 ! 84)" if "err_val (pu s) = 0"
    using pu_err_loop_spec [OF that F(1)] F(4) [of 84] l1(2) F(1) r1(2) by (simp add: plain_reg_def)
  have lr: "length (gpr r) = 128" using pu_err_loop_nth [of "pu s" "pu_flg_loop (pu s) r1"] F(1) r1(2) by simp
  have "gpr rt' ! k = gpr r ! k" if "plain_reg k" for k
    using t that lr by (auto simp: rt_ho_set_def plain_reg_def nth_hb_load split: if_splits bind_splits)
  with s gs r2 r84 show ?thesis by (auto simp: plain_reg_def)
qed

section \<open>Priority of the parse-graph action\<close>

lemma bind_SomeD: "m \<bind> f = Some y \<Longrightarrow> \<exists>x. m = Some x \<and> f x = Some y"
  by (cases m) auto

lemma alu_pg_order_3:
  "pg rt = 3 \<Longrightarrow> alu_pg_order act rt = (alu0_exe rt \<bind> alu1_exe \<bind> alu2_exe) \<bind> pg_exe act"
  by (simp add: alu_pg_order_def)

lemma alu_pg_order_0:
  "pg rt = 0 \<Longrightarrow> alu_pg_order act rt = (pg_exe act rt \<bind> alu0_exe \<bind> alu1_exe) \<bind> alu2_exe"
  by (simp add: alu_pg_order_def)

lemma exec_steps_inv:
  assumes "exec_inv (\<lambda>_. True) rt s"
  shows "pred_option (exec_inv (\<lambda>_. True) rt) (alu0_exe s)" "pred_option (exec_inv (\<lambda>_. True) rt) (alu1_exe s)"
    "pred_option (exec_inv (\<lambda>_. True) rt) (alu2_exe s)" "pred_option (exec_inv (\<lambda>_. True) rt) (pg_exe act s)"
  using alu_exe_inv [OF assms] pg_exe_inv [OF assms]
  by (auto simp: option.pred_set alu0_exe_def alu1_exe_def alu2_exe_def bind_eq_Some_conv)

end
