(* ===== verification/Ice_Parser_Run.thy ===== *)
theory Ice_Parser_Run
  imports Ice_Parser_Safety
begin

text \<open>
  A whole run of the parser: conditions on the tables under which a round
  neither faults nor stalls, and the theorem that \<open>ice_parser_run\<close> then returns
  for every packet short enough for the packet buffer.
\<close>

section \<open>Conditions on the tables\<close>

definition alu_fwd :: "ice_alu \<Rightarrow> bool" where
  "alu_fwd alu \<longleftrightarrow> (arith_opc (opc alu) \<longrightarrow> unat (dst_reg_id alu) \<noteq> 110 \<and> unat (dst_reg_id alu) \<noteq> 111) \<and>
     (branch_opc (opc alu) \<longrightarrow> unat (branch_addr alu) < 192)"

definition npkb_wf :: "ice_np_keybuilder \<Rightarrow> bool" where
  "npkb_wf kb \<longleftrightarrow> (ops kb = 0 \<longrightarrow> unat (len_or_reg1 kb) \<le> 32) \<and>
     (ops kb = 1 \<longrightarrow> unat (start_or_reg0 kb) < 128 \<and> unat (len_or_reg1 kb) < 128)"

definition pgkb_wf :: "ice_pg_keybuilder \<Rightarrow> bool" where
  "pgkb_wf kb \<longleftrightarrow> unat (flag0_idx kb) < 64 \<and> unat (flag1_idx kb) < 64 \<and> unat (flag2_idx kb) < 64 \<and>
     unat (flag3_idx kb) < 64 \<and> unat (alu_reg_idx kb) < 128"

definition imem_wf :: "ice_imem_item \<Rightarrow> bool" where
  "imem_wf i \<longleftrightarrow> npkb_wf (ii_np_kb i) \<and> pgkb_wf (ii_pg_kb i) \<and>
     list_all (\<lambda>a. alu_wf a \<and> alu_fwd a) [ii_alu0 i, ii_alu1 i, ii_alu2 i]"

definition bst_wf :: "ice_bst_tcam_item \<Rightarrow> bool" where
  "bst_wf i \<longleftrightarrow> npkb_wf (ti_np_kb i) \<and> pgkb_wf (ti_pg_kb i) \<and>
     list_all (\<lambda>a. alu_wf a \<and> alu_fwd a) [ti_alu0 i, ti_alu1 i, ti_alu2 i]"

text \<open>An action advances the header by at most \<open>m\<close> bytes, and by none only when it ends the run.\<close>

definition action_fwd :: "nat \<Rightarrow> ice_pg_cam_action \<Rightarrow> bool" where
  "action_fwd m act \<longleftrightarrow> unat (next_pc act) < 192 \<and> (ho_inc act = 0 \<or> ho_polarity act) \<and>
     unat (ho_inc act) \<le> m \<and> (is_last_round act \<or> ho_inc act \<noteq> 0)"

text \<open>The groups an action names exist, its markers are below 72 and its protocols are among \<open>ps\<close>.\<close>

definition action_wf :: "ice_parser \<Rightarrow> nat list \<Rightarrow> ice_pg_cam_action \<Rightarrow> bool" where
  "action_wf psr ps act \<longleftrightarrow>
     (if is_pg act then unat (act_proto_id act) < length (proto_grp_table psr) \<and>
        list_all (\<lambda>e. unat (po_proto_id e) \<in> set ps) (pgi_po (proto_grp_table psr ! unat (act_proto_id act)))
      else unat (act_proto_id act) \<in> set ps) \<and>
     (if is_mg act then unat (marker_id act) < length (mk_grp_table psr) \<and>
        list_all (\<lambda>m. unat m < 72) (markers (mk_grp_table psr ! unat (marker_id act)))
      else unat (marker_id act) < 72)"

definition psr_actions :: "ice_parser \<Rightarrow> ice_pg_cam_action list" where
  "psr_actions psr = map ci_action (pg_cam_table psr @ pg_sp_cam_table psr) @
     map ni_action (pg_nm_cam_table psr @ pg_nm_sp_cam_table psr)"

definition psr_wf :: "nat \<Rightarrow> nat list \<Rightarrow> ice_parser \<Rightarrow> bool" where
  "psr_wf m ps psr \<longleftrightarrow> length (imem_table psr) = 192 \<and> list_all imem_wf (imem_table psr) \<and>
     list_all bst_wf (bst_tcam_table psr) \<and>
     list_all (\<lambda>act. action_fwd m act \<and> action_wf psr ps act) (psr_actions psr)"

definition rt_wf :: "ice_parser_rt \<Rightarrow> bool" where
  "rt_wf rt \<longleftrightarrow> length (gpr rt) = 128 \<and> length (pkt_buf rt) = 536 \<and> length (rt_markers rt) = 9 \<and>
     length (protocols rt) = 256 \<and> length (offsets rt) = 256"

section \<open>Loading a round\<close>

definition same_core :: "ice_parser_rt \<Rightarrow> ice_parser_rt \<Rightarrow> bool" where
  "same_core rt rt' \<longleftrightarrow> gpr rt' = gpr rt \<and> pkt_buf rt' = pkt_buf rt \<and> pkt_len rt' = pkt_len rt \<and>
     rt_markers rt' = rt_markers rt \<and> protocols rt' = protocols rt \<and> offsets rt' = offsets rt"

lemma pk_build_ok:
  assumes "npkb_wf kb" "length (gpr rt) = 128"
  shows "\<exists>v. pk_build rt kb = Some v"
proof (cases "ops kb = 0")
  case True
  have "unat (start_or_reg0 kb) < 960" using unat_lt [of "start_or_reg0 kb"] by simp
  with True assms show ?thesis
    using hv_bit_sel_spec [of rt "unat (start_or_reg0 kb)" "unat (len_or_reg1 kb)"]
    by (auto simp: pk_build_def npkb_wf_def)
next
  case False
  with assms show ?thesis by (auto simp: pk_build_def npkb_wf_def)
qed

lemma pgk_init_ok:
  assumes "npkb_wf np" "pgkb_wf pgk" "length (gpr rt) = 128"
  shows "\<exists>k. pgk_init b np pgk rt = Some (rt\<lparr>pg_key := k\<rparr>)"
proof -
  have f: "\<exists>v. flag_sel rt e i = Some v" if "unat i < 64" for e i
    using that flag_get_flag_of [OF assms(3)] by (auto simp: flag_sel_def)
  obtain v where "pk_build rt np = Some v" using pk_build_ok [OF assms(1,3)] by blast
  moreover obtain f0 where "flag_sel rt (flag0_ena pgk) (flag0_idx pgk) = Some f0"
    using f assms(2) pgkb_wf_def by blast
  moreover obtain f1 where "flag_sel rt (flag1_ena pgk) (flag1_idx pgk) = Some f1"
    using f assms(2) pgkb_wf_def by blast
  moreover obtain f2 where "flag_sel rt (flag2_ena pgk) (flag2_idx pgk) = Some f2"
    using f assms(2) pgkb_wf_def by blast
  moreover obtain f3 where "flag_sel rt (flag3_ena pgk) (flag3_idx pgk) = Some f3"
    using f assms(2) pgkb_wf_def by blast
  ultimately show ?thesis using assms(2,3) by (auto simp: pgk_init_def pgkb_wf_def)
qed

lemma round_load_ok:
  assumes i: "imem_wf imem" and b: "list_all bst_wf (bst_tcam_table psr)" and g: "length (gpr rt) = 128"
  shows "\<exists>rt' a0 a1 a2. round_load psr imem rt = Some rt' \<and> same_core rt rt' \<and>
    alu0 rt' = Some a0 \<and> alu1 rt' = Some a1 \<and> alu2 rt' = Some a2 \<and>
    list_all (\<lambda>a. alu_wf a \<and> alu_fwd a) [a0, a1, a2]"
proof -
  let ?r = "bst_key_init imem rt"
  have g': "length (gpr ?r) = 128" using g by (simp add: bst_key_init_def Let_def)
  obtain k where k: "imem_pgk_init imem ?r = Some (?r\<lparr>pg_key := k\<rparr>)"
    using pgk_init_ok [OF _ _ g'] i by (metis imem_pgk_init_def imem_wf_def)
  show ?thesis
  proof (cases "ice_bst_tcam_match (bst_tcam_table psr) (bst_key ?r)")
    case None
    with k i show ?thesis
      by (simp add: round_load_def Let_def same_core_def imem_alu0_set_def imem_alu1_set_def
          imem_alu2_set_def imem_pgp_set_def bst_key_init_def imem_wf_def)
  next
    case (Some t)
    then have "t \<in> set (bst_tcam_table psr)"
      by (auto simp: ice_bst_tcam_match_def find_Some_iff dest!: in_set_takeD nth_mem)
    then have t: "bst_wf t" using b by (simp add: list_all_iff)
    obtain k' where k': "bst_pgk_init t ?r = Some (?r\<lparr>pg_key := k'\<rparr>)"
      using pgk_init_ok [OF _ _ g'] t by (metis bst_pgk_init_def bst_wf_def)
    show ?thesis
      using Some k k' i t
      by (simp add: round_load_def Let_def same_core_def imem_alu0_set_def imem_alu1_set_def
          imem_alu2_set_def imem_pgp_set_def bst_alu0_set_def bst_alu1_set_def bst_alu2_set_def
          bst_pgp_set_def bst_key_init_def imem_wf_def bst_wf_def)
  qed
qed

section \<open>Executing a round\<close>

text \<open>The pending updates of a round leave the header offset alone and stay inside the instruction memory.\<close>

definition pend_ok :: "ice_gpr_pu \<Rightarrow> bool" where
  "pend_ok q \<longleftrightarrow> err_val q = 0 \<and> \<not> gpr_val_upd q ! 110 \<and>
     (gpr_val_upd q ! 111 \<longrightarrow> unat (gpr_val q ! 111) < 192)"

lemma pend_ok_zero: "pend_ok zero_pu" "pu_wf zero_pu"
  by (simp_all add: pend_ok_def zero_pu_def pu_wf_def nth_replicate)

lemma alu_step_pend_ok:
  assumes "alu_fwd alu" "pend_ok p" "pu_wf p" "alu_step alu p q"
  shows "pend_ok q"
proof -
  note u = unat_u8_u16 [of "branch_addr alu"]
  show ?thesis using assms u by (auto simp: alu_step_def pend_ok_def alu_fwd_def pu_wf_def split: if_splits)
qed

lemma pg_pu_pend_ok:
  assumes "unat (next_pc act) < 192" "pend_ok p" "pu_wf p"
  shows "pend_ok (pg_pu act p)"
  using assms unat_u8_u16 [of "next_pc act"] by (simp add: pend_ok_def pg_pu_def pu_wf_def)

lemma rt_ho_set_spec:
  assumes "length (gpr rt) = 128" "length (pkt_buf rt) = 536" "unat ho \<le> 504"
  shows "\<exists>g. rt_ho_set ho rt = Some (rt\<lparr>gpr := g\<rparr>) \<and> length g = 128 \<and> g ! 110 = ho \<and>
    (\<forall>k < 128. (k < 64 \<or> 80 \<le> k) \<and> k \<noteq> 110 \<longrightarrow> g ! k = gpr rt ! k)"
  using assms by (auto simp: rt_ho_set_def ld_bytes_def nth_hb_load)

lemma ho_advance:
  fixes h i :: u16
  assumes "unat h + unat i \<le> 504"
  shows "unat (h + i) = unat h + unat i"
  using assms by (simp add: unat_word_ariths(1))

definition core_but_gpr :: "ice_parser_rt \<Rightarrow> ice_parser_rt \<Rightarrow> bool" where
  "core_but_gpr rt rt' \<longleftrightarrow> pkt_buf rt' = pkt_buf rt \<and> pkt_len rt' = pkt_len rt \<and>
     rt_markers rt' = rt_markers rt \<and> protocols rt' = protocols rt \<and> offsets rt' = offsets rt"

text \<open>The action and the instructions of a well-formed round: where the machine goes next.\<close>

lemma alu_pg_exe_ok:
  assumes rt: "rt_wf rt" "alu0 rt = Some a0" "alu1 rt = Some a1" "alu2 rt = Some a2"
    and a: "list_all (\<lambda>a. alu_wf a \<and> alu_fwd a) [a0, a1, a2]"
    and act: "action_fwd m act" and ho: "unat (gpr rt ! 110) + m \<le> 504" and np: "unat (gpr rt ! 111) < 192"
  shows "\<exists>rt'. alu_pg_exe act rt = Some rt' \<and> length (gpr rt') = 128 \<and> core_but_gpr rt rt' \<and>
    unat (gpr rt' ! 110) = unat (gpr rt ! 110) + unat (ho_inc act) \<and> unat (gpr rt' ! 111) < 192"
proof -
  define s where "s = rt\<lparr>pu := zero_pu\<rparr>"
  have s: "length (gpr s) = 128" "pu_wf (pu s)" "pend_ok (pu s)" "alu0 s = Some a0" "alu1 s = Some a1" "alu2 s = Some a2"
    using rt pend_ok_zero by (simp_all add: s_def rt_wf_def)
  obtain s1 where s1: "alu_pg_order act s = Some s1"
    using alu_pg_order_ok [OF s(4-6) _ _ _ s(1,2)] a by auto
  have inv: "exec_inv pend_ok s s1"
  proof (rule alu_pg_order_inv [where P = pend_ok, OF s1 s(2,3)])
    fix alu p q
    assume "Some alu \<in> {alu0 s, alu1 s, alu2 s}" and h: "pend_ok p" "pu_wf p" "alu_step alu p q"
    then have "alu_fwd alu" using s(4-6) a by auto
    then show "pend_ok q" using h by (rule alu_step_pend_ok)
  qed (use act pg_pu_pend_ok in \<open>auto simp: action_fwd_def\<close>)
  have eqs: "gpr s1 = gpr rt" "core_but_gpr rt s1"
    using inv unfolding exec_inv_def core_but_gpr_def s_def by (cases rt; cases s1; simp)+
  have p: "pend_ok (pu s1)" using inv by (simp add: exec_inv_def)
  obtain g where g: "pu_exe s1 = Some (s1\<lparr>gpr := g\<rparr>)" "length g = 128"
    "\<forall>k < 128. k \<noteq> 84 \<and> (k < 104 \<or> 108 \<le> k) \<longrightarrow> g ! k = pend_gpr (pu s1) (gpr s1) 128 ! k"
    using pu_exe_spec [of s1] p eqs(1) rt(1) unfolding pend_ok_def rt_wf_def by auto
  have g110: "g ! 110 = gpr rt ! 110" and g111: "unat (g ! 111) < 192"
    using g(3) p np eqs(1) by (auto simp: nth_pend_gpr pend_ok_def)
  show ?thesis
  proof (cases "ho_inc act = 0")
    case True
    then have "alu_pg_exe act rt = Some (s1\<lparr>gpr := g\<rparr>)" using s1 g(1) by (simp add: alu_pg_exe_def s_def)
    with True g(2) g110 g111 eqs(2) show ?thesis by (simp add: core_but_gpr_def)
  next
    case False
    have sum: "unat (g ! 110) + unat (ho_inc act) \<le> 504" using act ho g110 by (simp add: action_fwd_def)
    have pol: "ho_polarity act" using act False by (simp add: action_fwd_def)
    have "length (pkt_buf (s1\<lparr>gpr := g\<rparr>)) = 536" using eqs(2) rt(1) by (simp add: core_but_gpr_def rt_wf_def)
    then obtain g' where g': "rt_ho_set (g ! 110 + ho_inc act) (s1\<lparr>gpr := g\<rparr>) = Some (s1\<lparr>gpr := g'\<rparr>)"
      "length g' = 128" "g' ! 110 = g ! 110 + ho_inc act"
      "\<forall>k < 128. (k < 64 \<or> 80 \<le> k) \<and> k \<noteq> 110 \<longrightarrow> g' ! k = g ! k"
      using rt_ho_set_spec [of "s1\<lparr>gpr := g\<rparr>" "g ! 110 + ho_inc act"] g(2) sum ho_advance [OF sum] by auto
    have "alu_pg_exe act rt = Some (s1\<lparr>gpr := g'\<rparr>)"
      using s1 g(1) g'(1) False pol by (simp add: alu_pg_exe_def s_def)
    with g' g111 g110 ho_advance [OF sum] eqs(2) show ?thesis by (simp add: core_but_gpr_def)
  qed
qed

section \<open>Markers and protocols\<close>

lemma marker_set_ok:
  assumes "length (rt_markers rt) = 9" "i < 72"
  shows "\<exists>ms. marker_set i rt = Some (rt\<lparr>rt_markers := ms\<rparr>) \<and> length ms = 9"
proof -
  have "i div 8 < 9" using assms(2) by auto
  with assms(1) show ?thesis
    by (intro exI [of _ "(rt_markers rt)[i div 8 := rt_markers rt ! (i div 8) OR push_bit (i mod 8) 1]"])
       (simp add: marker_set_def)
qed

lemma mk_grp_loop_ok:
  assumes "length (rt_markers rt) = 9" "list_all (\<lambda>m. unat m < 72) ms"
  shows "\<exists>ms'. mk_grp_loop ms rt = Some (rt\<lparr>rt_markers := ms'\<rparr>) \<and> length ms' = 9"
  using assms
proof (induction ms arbitrary: rt)
  case Nil
  show ?case by (rule exI [of _ "rt_markers rt"]) (simp add: Nil.prems(1))
next
  case (Cons m ms)
  show ?case
  proof (cases "m = 71")
    case True
    then show ?thesis by (intro exI [of _ "rt_markers rt"]) (simp add: Cons.prems(1))
  next
    case False
    obtain ms1 where m1: "marker_set (unat m) rt = Some (rt\<lparr>rt_markers := ms1\<rparr>)" "length ms1 = 9"
      using marker_set_ok [of rt "unat m"] Cons.prems by auto
    with False Cons.IH [of "rt\<lparr>rt_markers := ms1\<rparr>"] Cons.prems(2) show ?thesis by simp
  qed
qed

lemma marker_update_ok:
  assumes "length (rt_markers rt) = 9" "action_wf psr ps act"
  shows "\<exists>ms. marker_update psr act rt = Some (rt\<lparr>rt_markers := ms\<rparr>) \<and> length ms = 9"
proof (cases "\<not> is_mg act \<and> marker_id act = 71")
  case True
  then show ?thesis by (intro exI [of _ "rt_markers rt"]) (simp add: marker_update_def assms(1))
next
  case False
  with assms marker_set_ok mk_grp_loop_ok show ?thesis
    by (cases "is_mg act") (simp_all add: marker_update_def action_wf_def)
qed

definition protos_in :: "nat list \<Rightarrow> ice_parser_rt \<Rightarrow> bool" where
  "protos_in ps rt \<longleftrightarrow> length (protocols rt) = 256 \<and> length (offsets rt) = 256 \<and>
     (\<forall>i < 256. protocols rt ! i \<longrightarrow> i \<in> set ps)"

definition but_protos :: "ice_parser_rt \<Rightarrow> ice_parser_rt \<Rightarrow> bool" where
  "but_protos rt rt' \<longleftrightarrow> rt' = rt\<lparr>protocols := protocols rt', offsets := offsets rt'\<rparr>"

lemma proto_set_ok:
  assumes "protos_in ps rt" "unat p \<in> set ps"
  shows "protos_in ps (proto_set p off rt) \<and> but_protos rt (proto_set p off rt)"
proof -
  have "(protocols rt)[unat p := True] ! i \<longrightarrow> i = unat p \<or> protocols rt ! i" for i
    by (cases "i = unat p") auto
  with assms show ?thesis by (auto simp: protos_in_def proto_set_def but_protos_def)
qed

lemma proto_grp_loop_ok:
  assumes "protos_in ps rt" "list_all (\<lambda>e. unat (po_proto_id e) \<in> set ps) es"
  shows "protos_in ps (proto_grp_loop es rt) \<and> but_protos rt (proto_grp_loop es rt)"
  using assms
proof (induction es rt rule: proto_grp_loop.induct)
  case (2 e es rt)
  show ?case
  proof (cases "po_proto_id e = 0xff")
    case True
    with 2 show ?thesis by (simp add: but_protos_def)
  next
    case False
    let ?o = "if \<not> po_polarity e then po rt + po_offset e else po rt - po_offset e"
    let ?r = "proto_set (po_proto_id e) ?o rt"
    have r: "protos_in ps ?r" "but_protos rt ?r" using proto_set_ok [OF "2.prems"(1), of "po_proto_id e" ?o] "2.prems"(2) by auto
    have l: "protos_in ps (proto_grp_loop es ?r)" "but_protos ?r (proto_grp_loop es ?r)"
      using "2.IH" [OF False r(1)] "2.prems"(2) by auto
    have "proto_grp_loop (e # es) rt = proto_grp_loop es ?r" using False by simp
    moreover have "but_protos rt (proto_grp_loop es ?r)"
      using r(2) l(2) unfolding but_protos_def
      by (cases rt; cases ?r; cases "proto_grp_loop es ?r") simp
    ultimately show ?thesis using l(1) by simp
  qed
qed (simp add: but_protos_def)

lemma proto_off_update_ok:
  assumes "protos_in ps rt" "action_wf psr ps act"
  shows "\<exists>rt'. proto_off_update psr act rt = Some rt' \<and> protos_in ps rt' \<and> but_protos rt rt'"
  using assms proto_set_ok [OF assms(1)] proto_grp_loop_ok [OF assms(1)]
  by (cases "is_pg act") (auto simp: proto_off_update_def action_wf_def)

section \<open>The loop\<close>

lemma round_action_in: "round_action psr rt = Some act \<Longrightarrow> act \<in> set (psr_actions psr)"
  by (auto simp: round_action_def rt_pg_cam_match_def rt_pg_nm_cam_match_def ice_pg_cam_match_def
      ice_pg_nm_cam_match_def psr_actions_def find_Some_iff
      split: option.splits dest!: nth_mem in_set_takeD)

lemma but_protosD:
  "but_protos rt rt' \<Longrightarrow> gpr rt' = gpr rt \<and> pkt_buf rt' = pkt_buf rt \<and> pkt_len rt' = pkt_len rt \<and> rt_markers rt' = rt_markers rt"
  unfolding but_protos_def by (cases rt; cases rt') simp

lemma rt_round_ok:
  assumes psr: "psr_wf m ps psr" and rt: "rt_wf rt" "protos_in ps rt"
    and np: "unat (gpr rt ! 111) < 192" and ho: "unat (gpr rt ! 110) + m \<le> 504"
  shows "\<exists>rt' st. rt_round psr rt = Some (rt', st) \<and> rt_wf rt' \<and> protos_in ps rt' \<and> pkt_len rt' = pkt_len rt \<and>
    (st = None \<longrightarrow> unat (gpr rt' ! 111) < 192 \<and> unat (gpr rt ! 110) < unat (gpr rt' ! 110) \<and>
      unat (gpr rt' ! 110) < unat (pkt_len rt'))"
proof -
  let ?imem = "imem_table psr ! unat (gpr rt ! 111)"
  have im: "arr_get (imem_table psr) (unat (gpr rt ! 111)) = Some ?imem" "imem_wf ?imem" "list_all bst_wf (bst_tcam_table psr)"
    using psr np by (auto simp: psr_wf_def list_all_length)
  obtain r1 a0 a1 a2 where r1: "round_load psr ?imem rt = Some r1" "same_core rt r1"
    "alu0 r1 = Some a0" "alu1 r1 = Some a1" "alu2 r1 = Some a2" "list_all (\<lambda>a. alu_wf a \<and> alu_fwd a) [a0, a1, a2]"
    using round_load_ok [OF im(2,3)] rt(1) unfolding rt_wf_def by blast
  define r2 where "r2 = r1\<lparr>action := round_action psr r1\<rparr>"
  have r2: "rt_wf r2" "protos_in ps r2" "gpr r2 = gpr rt" "pkt_len r2 = pkt_len rt"
    "alu0 r2 = Some a0" "alu1 r2 = Some a1" "alu2 r2 = Some a2"
    using r1 rt by (simp_all add: r2_def same_core_def rt_wf_def protos_in_def)
  show ?thesis
  proof (cases "round_action psr r1")
    case None
    have "rt_round psr rt = Some (r2, Some ICE_ERR_PARAM)"
      unfolding rt_round_def using im(1) r1(1) None by (simp add: Let_def r2_def)
    with r2 show ?thesis by simp
  next
    case (Some act)
    then have act: "action_fwd m act" "action_wf psr ps act"
      using psr round_action_in by (auto simp: psr_wf_def list_all_iff)
    obtain r3 where r3: "alu_pg_exe act r2 = Some r3" "length (gpr r3) = 128" "core_but_gpr r2 r3"
      "unat (gpr r3 ! 110) = unat (gpr r2 ! 110) + unat (ho_inc act)" "unat (gpr r3 ! 111) < 192"
      using alu_pg_exe_ok [OF r2(1,5-7) r1(6) act(1)] ho np r2(3) by auto
    obtain ms where r4: "marker_update psr act r3 = Some (r3\<lparr>rt_markers := ms\<rparr>)" "length ms = 9"
      using marker_update_ok [OF _ act(2), of r3] r3(3) r2(1) by (auto simp: core_but_gpr_def rt_wf_def)
    let ?r4 = "r3\<lparr>rt_markers := ms\<rparr>"
    have "protos_in ps ?r4" using r2(2) r3(3) by (simp add: protos_in_def core_but_gpr_def)
    then obtain r5 where r5: "proto_off_update psr act ?r4 = Some r5" "protos_in ps r5" "but_protos ?r4 r5"
      using proto_off_update_ok [OF _ act(2)] by blast
    have r5e: "gpr r5 = gpr r3" "pkt_buf r5 = pkt_buf r3" "pkt_len r5 = pkt_len r3" "rt_markers r5 = ms"
      using but_protosD [OF r5(3)] by auto
    let ?st = "if is_last_round act \<or> gpr r5 ! 110 \<ge> pkt_len r5 then Some ICE_SUCCESS else None"
    have "rt_round psr rt = Some (r5, ?st)"
      unfolding rt_round_def using im(1) r1(1) Some r3(1) r4(1) r5(1) by (simp add: Let_def r2_def)
    moreover have "rt_wf r5" using r5e r3(2,3) r4(2) r2(1) r5(2)
      by (simp add: rt_wf_def core_but_gpr_def protos_in_def)
    moreover have "unat (ho_inc act) \<noteq> 0" if "\<not> is_last_round act"
      using act(1) that by (simp add: action_fwd_def unat_eq_zero)
    ultimately show ?thesis
      using r3 r5e r5(2) r2(3,4) by (simp add: core_but_gpr_def word_le_nat_alt not_le)
  qed
qed

lemma rt_loop_done:
  assumes psr: "psr_wf m ps psr"
  shows "rt_wf rt \<Longrightarrow> protos_in ps rt \<Longrightarrow> unat (gpr rt ! 111) < 192 \<Longrightarrow>
    unat (gpr rt ! 110) + m \<le> 504 \<Longrightarrow> unat (pkt_len rt) + m \<le> 505 \<Longrightarrow>
    unat (pkt_len rt) - unat (gpr rt ! 110) < n \<Longrightarrow>
    \<exists>rt' st. rt_loop n psr rt = Done rt' st \<and> rt_wf rt' \<and> protos_in ps rt'"
proof (induction n arbitrary: rt)
  case (Suc n)
  obtain rt' st where r: "rt_round psr rt = Some (rt', st)" "rt_wf rt'" "protos_in ps rt'" "pkt_len rt' = pkt_len rt"
    "st = None \<longrightarrow> unat (gpr rt' ! 111) < 192 \<and> unat (gpr rt ! 110) < unat (gpr rt' ! 110) \<and>
      unat (gpr rt' ! 110) < unat (pkt_len rt')"
    using rt_round_ok [OF psr Suc.prems(1-4)] by blast
  show ?case
  proof (cases st)
    case None
    with r(4,5) Suc.prems(5,6) have "unat (pkt_len rt') - unat (gpr rt' ! 110) < n" by auto
    with None show ?thesis using Suc.IH [OF r(2,3)] r(1,4,5) Suc.prems(5) by auto
  next
    case (Some s)
    with r show ?thesis by simp
  qed
qed simp

section \<open>The run\<close>

lemma flags_init:
  fixes c :: "nat \<Rightarrow> bool"
  assumes "length (gpr rt) = 128" "\<forall>i \<in> set is. i < 64"
  defines "rt' \<equiv> fold (\<lambda>i rt. if c i then rt_flag_set i True rt else rt) is rt"
  shows "rt' = rt\<lparr>gpr := gpr rt'\<rparr> \<and> length (gpr rt') = 128 \<and> (\<forall>k \<ge> 108. gpr rt' ! k = gpr rt ! k)"
  using assms(1,2) unfolding rt'_def
proof (induction "is" arbitrary: rt)
  case (Cons i "is")
  let ?r = "if c i then rt_flag_set i True rt else rt"
  have i: "i < 64" using Cons.prems by simp
  have r: "?r = rt\<lparr>gpr := gpr ?r\<rparr>" "length (gpr ?r) = 128" "\<forall>k \<ge> 108. gpr ?r ! k = gpr rt ! k"
    using gpr_rt_flag_set [OF Cons.prems(1) i] Cons.prems(1) by auto
  let ?l = "fold (\<lambda>i rt. if c i then rt_flag_set i True rt else rt) is ?r"
  have l: "?l = ?r\<lparr>gpr := gpr ?l\<rparr>" "length (gpr ?l) = 128" "\<forall>k \<ge> 108. gpr ?l ! k = gpr ?r ! k"
    using Cons.IH [OF r(2)] Cons.prems(2) by auto
  have "?l = rt\<lparr>gpr := gpr ?l\<rparr>" using l(1) r(1) by (cases rt; cases ?r; cases ?l) simp
  with l r(3) show ?case by simp
qed simp

text \<open>What the initialisation of a run establishes.\<close>

definition mi_ok :: "nat \<Rightarrow> ice_parser \<Rightarrow> bool" where
  "mi_ok m psr \<longleftrightarrow> mi_table psr \<noteq> [] \<and> unat (mi_pc (mi_table psr ! 0)) < 192 \<and>
     unat (mi_ho (mi_table psr ! 0)) + m \<le> 504"

lemma rt_reset_ok:
  assumes "mi_ok m psr"
  shows "\<exists>rt. ice_parser_rt_reset psr = Some rt \<and> rt_wf rt \<and> protos_in ps rt \<and>
    unat (gpr rt ! 110) + m \<le> 504 \<and> unat (gpr rt ! 111) < 192"
proof -
  let ?mi = "mi_table psr ! 0"
  define z where "z = rt_tsr_set (ucast (mi_tsr ?mi)) zero_rt"
  have z: "length (gpr z) = 128" "length (pkt_buf z) = 536" "z = zero_rt\<lparr>gpr := gpr z\<rparr>"
    by (simp_all add: z_def rt_tsr_set_def zero_rt_def)
  have ho: "unat (mi_ho ?mi) \<le> 504" using assms by (simp add: mi_ok_def)
  obtain g where g: "rt_ho_set (mi_ho ?mi) z = Some (z\<lparr>gpr := g\<rparr>)" "length g = 128" "g ! 110 = mi_ho ?mi"
    using rt_ho_set_spec [OF z(1,2) ho] by blast
  define r where "r = rt_nn_set (mi_pg_rn ?mi) (rt_np_set (mi_pc ?mi) (z\<lparr>gpr := g\<rparr>))"
  have r: "length (gpr r) = 128" "gpr r ! 110 = mi_ho ?mi" "gpr r ! 111 = mi_pc ?mi" "r = zero_rt\<lparr>gpr := gpr r\<rparr>"
    using g by (simp_all add: r_def rt_nn_set_def rt_np_set_def z_def rt_tsr_set_def zero_rt_def)
  let ?c = "\<lambda>i. mi_flags ?mi AND push_bit i 1 \<noteq> 0"
  define f where "f = fold (\<lambda>i rt. if ?c i then rt_flag_set i True rt else rt) [0..<64] r"
  have f: "f = r\<lparr>gpr := gpr f\<rparr>" "length (gpr f) = 128" "\<forall>k \<ge> 108. gpr f ! k = gpr r ! k"
    using flags_init [OF r(1), of "[0..<64]" ?c] unfolding f_def by auto
  have ff: "f = zero_rt\<lparr>gpr := gpr f\<rparr>" using f(1) r(4) by (cases r; cases f) simp
  have "ice_parser_rt_reset psr = Some f"
    using assms g(1) unfolding ice_parser_rt_reset_def f_def r_def z_def by (simp add: mi_ok_def Let_def)
  moreover have "rt_wf f" "protos_in ps f"
    by (subst ff, use f(2) in \<open>simp add: rt_wf_def zero_rt_def protos_in_def\<close>)+
  ultimately show ?thesis using f(3) r(2,3) assms by (simp add: mi_ok_def)
qed

lemma pktbuf_set_ok:
  assumes "rt_wf rt" "protos_in ps rt" "unat (gpr rt ! 110) + m \<le> 504" "0 \<le> len" "nat len \<le> length buf" "nat len \<le> 505"
  shows "\<exists>rt'. ice_parser_rt_pktbuf_set buf len rt = Some rt' \<and> rt_wf rt' \<and> protos_in ps rt' \<and>
    gpr rt' ! 110 = gpr rt ! 110 \<and> gpr rt' ! 111 = gpr rt ! 111 \<and> unat (pkt_len rt') = nat len"
proof -
  have l: "unat (word_of_int len :: u16) = nat len"
  proof -
    have "word_of_int len = (word_of_nat (nat len) :: u16)" using assms(4) by simp
    then show ?thesis using assms(6) by (simp add: unat_of_nat)
  qed
  show ?thesis
    using assms l by (auto simp: ice_parser_rt_pktbuf_set_def Let_def ld_bytes_def rt_wf_def protos_in_def nth_hb_load min_def)
qed

lemma proto_list_bound:
  assumes "protos_in ps rt"
  shows "length (proto_list rt) \<le> length ps"
proof -
  have "set (filter (\<lambda>i. protocols rt ! i) [0..<255]) \<subseteq> set ps" using assms by (auto simp: protos_in_def)
  then have "card (set (filter (\<lambda>i. protocols rt ! i) [0..<255])) \<le> card (set ps)" by (intro card_mono) auto
  also have "\<dots> \<le> length ps" by (rule card_length)
  finally show ?thesis
    using distinct_card [of "filter (\<lambda>i. protocols rt ! i) [0..<255]"] by (simp add: proto_list_def)
qed

lemma result_resolve_spec:
  assumes "length (proto_list rt) \<le> 16"
  shows "\<exists>rslt. result_resolve psr rt = Some rslt \<and> r_po rslt = proto_list rt \<and>
    flags_psr rslt = gpr_flags (gpr rt) \<and> flags_pkt rslt = ice_flg_redirect (flg_rd_table psr) (gpr_flags (gpr rt)) \<and>
    ptype rslt = ptype_resolve psr rt"
  using assms by (simp add: result_resolve_def Let_def proto_off_resolve_spec)

section \<open>Properties of a run\<close>

text \<open>
  A small parser: every instruction builds the key from the EtherType; the
  parse graph knows IPv4 after Ethernet and treats everything else as the end.
\<close>

definition demo_alu :: ice_alu where
  "demo_alu = \<lparr>opc = ICE_ALU_PARK, src_start = 0, src_len = 0, shift_xlate_select = False, shift_xlate_key = 0,
     src_reg_id = 0, dst_reg_id = 0, inc0 = False, inc1 = False, proto_offset_opc = 0, proto_offset = 0,
     branch_addr = 7, imm = 0, dedicate_flags_ena = False, dst_start = 3, dst_len = 0,
     flags_extr_imm = False, flags_start_imm = 0\<rparr>"

definition demo_imem :: ice_imem_item where
  "demo_imem = \<lparr>ii_idx = 0, b_m = \<lparr>al0 = False, al1 = False, al2 = False, bm_pg = False\<rparr>,
     b_kb = \<lparr>bkb_priority = 0, tsr_ctrl = False\<rparr>, ii_pg = 0,
     ii_np_kb = \<lparr>ops = 0, start_or_reg0 = 96, len_or_reg1 = 16\<rparr>,
     ii_pg_kb = \<lparr>flag0_ena = False, flag1_ena = False, flag2_ena = False, flag3_ena = False,
       flag0_idx = 0, flag1_idx = 0, flag2_idx = 0, flag3_idx = 0, alu_reg_idx = 0\<rparr>,
     ii_alu0 = demo_alu, ii_alu1 = demo_alu, ii_alu2 = demo_alu\<rparr>"

definition demo_action :: ice_pg_cam_action where
  "demo_action = \<lparr>next_node = 5, next_pc = 2, is_pg = False, act_proto_id = 1, is_mg = False, marker_id = 4,
     is_last_round = False, ho_polarity = True, ho_inc = 14\<rparr>"

definition demo_psr :: ice_parser where
  "demo_psr = (let kb = \<lparr>xlt1_pm = 0, xlt2_pm = 0, prof_id_pm = 0, flag15 = 0,
       kb_entries = [\<lparr>xlt1_ad_sel = 0, xlt2_ad_sel = 0, flg0_14_sel = replicate 15 0, xlt1_md_sel = 0, xlt2_md_sel = 0\<rparr>]\<rparr> in
     \<lparr>imem_table = replicate 192 demo_imem,
      mi_table = [\<lparr>mi_idx = 0, mi_tsr = 0, mi_ho = 0, mi_pc = 0, mi_pg_rn = 0, mi_cd = 0,
        gpr_a_ctrl = False, gpr_a_data_mdid = 0, gpr_a_data_start = 0, gpr_a_data_len = 0, gpr_a_id = 0,
        gpr_b_ctrl = False, gpr_b_data_mdid = 0, gpr_b_data_start = 0, gpr_b_data_len = 0, gpr_b_id = 0,
        gpr_c_ctrl = False, gpr_c_data_mdid = 0, gpr_c_data_start = 0, gpr_c_data_len = 0, gpr_c_id = 0,
        gpr_d_ctrl = False, gpr_d_data_mdid = 0, gpr_d_data_start = 0, gpr_d_data_len = 0, gpr_d_id = 0, mi_flags = 3\<rparr>],
      pg_cam_table = [\<lparr>ci_idx = 0, ci_key = zero_pg_key\<lparr>k_valid := True, k_next_proto := 0x0800\<rparr>, ci_action = demo_action\<rparr>],
      pg_sp_cam_table = [],
      pg_nm_cam_table = [\<lparr>ni_idx = 0, ni_key = \<lparr>k_valid = True, k_node_id = 5, k_flag0 = False, k_flag1 = False,
        k_flag2 = False, k_flag3 = False, k_boost_idx = 0, k_alu_reg = 0\<rparr>,
        ni_action = demo_action\<lparr>act_proto_id := 32, is_last_round := True, ho_inc := 0\<rparr>\<rparr>],
      pg_nm_sp_cam_table = [], bst_tcam_table = [], bst_lbl_table = [], ptype_mk_tcam_table = [], mk_grp_table = [],
      proto_grp_table = [], flg_rd_table = replicate 64 \<lparr>rdi_idx = 0, expose = False, intr_flg_id = 0\<rparr>,
      xlt_kb_sw = kb, xlt_kb_acl = kb, xlt_kb_fd = kb, xlt_kb_rss = kb\<rparr>)"

lemma demo_alu_ok: "alu_wf demo_alu" "alu_fwd demo_alu"
  by (simp_all add: alu_wf_def alu_fwd_def demo_alu_def arith_opc_def branch_opc_def)

lemma demo_psr_wf: "psr_wf 14 [1, 32] demo_psr" "mi_ok 14 demo_psr"
  by (simp_all add: psr_wf_def demo_psr_def Let_def imem_wf_def demo_imem_def demo_alu_ok npkb_wf_def pgkb_wf_def
      psr_actions_def action_fwd_def action_wf_def demo_action_def mi_ok_def list_all_iff)



text \<open>
  The priority field decides who names the next instruction and the next
  node.  With priority 3 the parse-graph action is executed last and its next
  program counter and node are committed, whatever the three instructions wrote.
  With priority 0 it is executed first, and a branch in the third instruction
  overrides its program counter.
\<close>

theorem pg_priority:
  assumes "alu_pg_exe act rt = Some rt'" "length (gpr rt) = 128"
  shows "(pg rt = 3 \<longrightarrow> gpr rt' ! GPR_NP_IDX = ucast (next_pc act) \<and> gpr rt' ! GPR_NN_IDX = next_node act) \<and>
    (pg rt = 0 \<and> alu2 rt = Some alu \<and> \<not> shift_xlate_select alu \<and> branch_opc (opc alu) \<longrightarrow>
      gpr rt' ! GPR_NP_IDX = ucast (branch_addr alu))"
proof -
  let ?z = "rt\<lparr>pu := zero_pu\<rparr>"
  obtain s where s: "alu_pg_order act ?z = Some s"
    "\<forall>k. plain_reg k \<and> k \<noteq> 84 \<and> (k < 104 \<or> 108 \<le> k) \<longrightarrow> gpr rt' ! k = pend_gpr (pu s) (gpr rt) 128 ! k"
    using alu_pg_exe_nth [OF assms] by blast
  have nth: "gpr rt' ! k = (if gpr_val_upd (pu s) ! k then gpr_val (pu s) ! k else gpr rt ! k)" if "k = 109 \<or> k = 111" for k
    using s(2) that by (auto simp: plain_reg_def nth_pend_gpr)
  have z: "exec_inv (\<lambda>_. True) ?z ?z" by (simp add: exec_inv_def pu_wf_def zero_pu_def)
  have "gpr rt' ! 111 = ucast (next_pc act) \<and> gpr rt' ! 109 = next_node act" if "pg rt = 3"
  proof -
    have ord: "alu_pg_order act ?z = (alu0_exe ?z \<bind> alu1_exe \<bind> alu2_exe) \<bind> pg_exe act"
      using that by (intro alu_pg_order_3) simp
    obtain r where r: "alu0_exe ?z \<bind> alu1_exe \<bind> alu2_exe = Some r" "pg_exe act r = Some s"
      using bind_SomeD [OF s(1) [unfolded ord]] by blast
    have "pred_option (exec_inv (\<lambda>_. True) ?z) (alu0_exe ?z \<bind> alu1_exe \<bind> alu2_exe)"
      by (intro bind_all exec_steps_inv z)
    then have w: "pu_wf (pu r)" unfolding r(1) using exec_invD(1) by auto
    then have "pu s = pg_pu act (pu r)" using pg_exe_eq r(2) by force
    with w nth show ?thesis by (simp add: pg_pu_def pu_wf_def)
  qed
  moreover have "gpr rt' ! 111 = ucast (branch_addr alu)"
    if c: "pg rt = 0" "alu2 rt = Some alu" "\<not> shift_xlate_select alu" "branch_opc (opc alu)"
  proof -
    have ord: "alu_pg_order act ?z = (pg_exe act ?z \<bind> alu0_exe \<bind> alu1_exe) \<bind> alu2_exe"
      using c(1) by (intro alu_pg_order_0) simp
    obtain r where r: "pg_exe act ?z \<bind> alu0_exe \<bind> alu1_exe = Some r" "alu2_exe r = Some s"
      using bind_SomeD [OF s(1) [unfolded ord]] by blast
    have "pred_option (exec_inv (\<lambda>_. True) ?z) (pg_exe act ?z \<bind> alu0_exe \<bind> alu1_exe)"
      by (intro bind_all exec_steps_inv z)
    then have i: "exec_inv (\<lambda>_. True) ?z r" unfolding r(1) by simp
    have "alu_exe alu r = Some s" using r(2) exec_invD(6) [OF i] c(2) by (simp add: alu2_exe_def)
    then obtain p q where "s = r\<lparr>po := p, pu := q\<rparr>" "alu_step alu (pu r) q"
      using alu_exe_step exec_invD(1) [OF i] by blast
    with c exec_invD(1) [OF i] nth arith_not_branch show ?thesis by (simp add: alu_step_def pu_wf_def)
  qed
  ultimately show ?thesis by blast
qed

definition demo_rt :: ice_parser_rt where
  "demo_rt = zero_rt\<lparr>alu0 := Some demo_alu, alu1 := Some demo_alu, alu2 := Some demo_alu, pg := 3\<rparr>"

lemma demo_rt_runs:
  assumes "alu_wf a" "alu_fwd a"
  shows "\<exists>rt'. alu_pg_exe demo_action (demo_rt\<lparr>alu2 := Some a\<rparr>) = Some rt'"
proof -
  have "rt_wf (demo_rt\<lparr>alu2 := Some a\<rparr>)" by (simp add: rt_wf_def demo_rt_def zero_rt_def)
  moreover have "action_fwd 14 demo_action" by (simp add: action_fwd_def demo_action_def)
  ultimately show ?thesis
    using alu_pg_exe_ok [of "demo_rt\<lparr>alu2 := Some a\<rparr>" demo_alu demo_alu a 14 demo_action] assms demo_alu_ok
    by (auto simp: demo_rt_def zero_rt_def)
qed

theorem pg_priority_witness:
  "\<exists>rt'. alu_pg_exe demo_action (demo_rt\<lparr>alu2 := Some demo_alu\<rparr>) = Some rt' \<and>
     gpr rt' ! GPR_NP_IDX = 2 \<and> gpr rt' ! GPR_NN_IDX = 5"
proof -
  obtain rt' where rt': "alu_pg_exe demo_action (demo_rt\<lparr>alu2 := Some demo_alu\<rparr>) = Some rt'"
    using demo_rt_runs demo_alu_ok by blast
  moreover have "length (gpr (demo_rt\<lparr>alu2 := Some demo_alu\<rparr>)) = 128" by (simp add: demo_rt_def zero_rt_def)
  ultimately show ?thesis using pg_priority [OF rt'] by (simp add: demo_rt_def demo_action_def)
qed

text \<open>
  Parser errors are never recorded.  An instruction that sets a bit of the
  error register leaves its value among the pending flags, and the commit tests
  the mask of error 1 for all sixteen bits: unless an arithmetic instruction
  writes register 84 itself, a round leaves the error register as it was or
  clears it.
\<close>

theorem error_never_recorded:
  assumes "alu_pg_exe act rt = Some rt'" "length (gpr rt) = 128"
    and "\<forall>alu. Some alu \<in> {alu0 rt, alu1 rt, alu2 rt} \<longrightarrow> arith_opc (opc alu) \<longrightarrow> unat (dst_reg_id alu) \<noteq> GPR_ERR_IDX"
  shows "gpr rt' ! GPR_ERR_IDX = gpr rt ! GPR_ERR_IDX \<or> gpr rt' ! GPR_ERR_IDX = 0"
proof -
  let ?z = "rt\<lparr>pu := zero_pu\<rparr>" and ?P = "\<lambda>q. err_val q = 0 \<and> \<not> gpr_val_upd q ! 84"
  obtain s where s: "alu_pg_order act ?z = Some s"
    "err_val (pu s) = 0 \<longrightarrow> gpr rt' ! 84 = (if bit (err_msk (pu s)) 1 then 0 else pend_gpr (pu s) (gpr rt) 128 ! 84)"
    using alu_pg_exe_nth [OF assms(1,2)] by blast
  have "exec_inv ?P ?z s"
  proof (rule alu_pg_order_inv [where P = ?P, OF s(1)])
    fix alu p q
    assume "Some alu \<in> {alu0 ?z, alu1 ?z, alu2 ?z}" "?P p" "pu_wf p" "alu_step alu p q"
    with assms(3) show "?P q" by (auto simp: alu_step_def pu_wf_def split: if_splits)
  qed (auto simp: pu_wf_def zero_pu_def pg_pu_def)
  then have "?P (pu s)" by (rule exec_invD(2))
  with s(2) show ?thesis by (auto simp: nth_pend_gpr)
qed

definition demo_err_alu :: ice_alu where
  "demo_err_alu = demo_alu\<lparr>opc := ICE_ALU_OREQ, dst_reg_id := 84\<rparr>"

theorem error_never_recorded_witness:
  "\<exists>rt'. alu_pg_exe demo_action (demo_rt\<lparr>alu2 := Some demo_err_alu\<rparr>) = Some rt' \<and> gpr rt' ! GPR_ERR_IDX = 0"
proof -
  have "alu_wf demo_err_alu" "alu_fwd demo_err_alu"
    by (simp_all add: alu_wf_def alu_fwd_def demo_err_alu_def demo_alu_def arith_opc_def branch_opc_def)
  then obtain rt' where rt': "alu_pg_exe demo_action (demo_rt\<lparr>alu2 := Some demo_err_alu\<rparr>) = Some rt'"
    using demo_rt_runs by blast
  moreover have "length (gpr (demo_rt\<lparr>alu2 := Some demo_err_alu\<rparr>)) = 128" "gpr demo_rt ! 84 = 0"
    by (simp_all add: demo_rt_def zero_rt_def)
  moreover have "\<forall>alu. Some alu \<in> {alu0 (demo_rt\<lparr>alu2 := Some demo_err_alu\<rparr>), alu1 (demo_rt\<lparr>alu2 := Some demo_err_alu\<rparr>),
      alu2 (demo_rt\<lparr>alu2 := Some demo_err_alu\<rparr>)} \<longrightarrow> arith_opc (opc alu) \<longrightarrow> unat (dst_reg_id alu) \<noteq> GPR_ERR_IDX"
    by (auto simp: demo_rt_def demo_err_alu_def demo_alu_def arith_opc_def)
  ultimately show ?thesis using error_never_recorded [OF rt'] by auto
qed

end
