(* ===== verification/Ice_Ddp.thy ===== *)
theory Ice_Ddp
  imports Ice_Parser_Cam
begin

text \<open>
  Enumeration of a device package (\<open>ice_ddp.c\<close>): the buffers of a segment, the
  sections of one type in them and the entries of a section, and the table
  construction of \<open>ice_parser.c\<close> on top of it.

  The segment lies in a flat byte list; a pointer is an offset and \<open>NULL\<close> is
  \<open>None\<close> in the inner option of a result.  The outer option is \<open>None\<close> where a load
  leaves the memory.
\<close>

section \<open>Buffers\<close>

abbreviation (input) ICE_PKG_BUF_SIZE :: nat where "ICE_PKG_BUF_SIZE \<equiv> 4096"

record ice_pkg_enum =
  e_buf_table :: nat
  e_buf_idx :: u32
  e_type :: u32
  e_buf :: "nat option"
  e_sect_idx :: u32
  e_sect :: "nat option"
  e_sect_type :: u32
  e_entry_idx :: u32
  e_handler :: bool

definition zero_enum :: ice_pkg_enum where
  "zero_enum = \<lparr>e_buf_table = 0, e_buf_idx = 0, e_type = 0, e_buf = None, e_sect_idx = 0, e_sect = None,
     e_sect_type = 0, e_entry_idx = 0, e_handler = False\<rparr>"

text \<open>
  Offsets in \<open>struct ice_seg\<close>: the generic header has 44 bytes, the device
  entries 8 bytes each.
\<close>

definition ice_find_buf_table :: "u8 list \<Rightarrow> nat \<Rightarrow> nat option" where
  "ice_find_buf_table mem ice_seg = do {
     dcount \<leftarrow> ld 4 mem (ice_seg + 44);
     let nvms = ice_seg + 48 + 8 * unat (dcount :: u32);
     tcount \<leftarrow> ld 4 mem nvms;
     Some (nvms + 4 + 4 * unat (tcount :: u32))
   }"

definition ice_pkg_val_buf :: "u8 list \<Rightarrow> nat \<Rightarrow> nat option option" where
  "ice_pkg_val_buf mem buf = do {
     section_count \<leftarrow> ld 2 mem buf;
     (if (section_count :: u16) < 1 \<or> section_count > 511 then Some None
      else do {
        data_end \<leftarrow> ld 2 mem (buf + 2);
        Some (if (data_end :: u16) < 12 \<or> data_end > 4096 then None else Some buf)
      })
   }"

definition ice_pkg_enum_buf :: "u8 list \<Rightarrow> nat option \<Rightarrow> ice_pkg_enum \<Rightarrow> (nat option \<times> ice_pkg_enum) option" where
  "ice_pkg_enum_buf mem ice_seg state =
     (case ice_seg of
        Some seg \<Rightarrow> do {
          bt \<leftarrow> ice_find_buf_table mem seg;
          h \<leftarrow> ice_pkg_val_buf mem (bt + 4);
          Some (h, state\<lparr>e_buf_table := bt, e_buf_idx := 0\<rparr>)
        }
      | None \<Rightarrow> do {
          let state = state\<lparr>e_buf_idx := e_buf_idx state + 1\<rparr>;
          buf_count \<leftarrow> ld 4 mem (e_buf_table state);
          (if e_buf_idx state < buf_count then do {
             h \<leftarrow> ice_pkg_val_buf mem (e_buf_table state + 4 + ICE_PKG_BUF_SIZE * unat (e_buf_idx state));
             Some (h, state)
           }
           else Some (None, state))
        })"

section \<open>Sections\<close>

text \<open>The part of \<open>ice_pkg_advance_sect\<close> that moves on to the next buffer.\<close>

definition next_buffer :: "u8 list \<Rightarrow> nat option \<Rightarrow> ice_pkg_enum \<Rightarrow> (bool \<times> ice_pkg_enum) option" where
  "next_buffer mem ice_seg state = do {
     (h, state) \<leftarrow> ice_pkg_enum_buf mem ice_seg state;
     let state = state\<lparr>e_buf := h\<rparr>;
     Some (if h = None then (False, state) else (True, state\<lparr>e_sect_idx := 0\<rparr>))
   }"

definition ice_pkg_advance_sect :: "u8 list \<Rightarrow> nat option \<Rightarrow> ice_pkg_enum \<Rightarrow> (bool \<times> ice_pkg_enum) option" where
  "ice_pkg_advance_sect mem ice_seg state =
     (case ice_seg of
        Some seg \<Rightarrow> next_buffer mem ice_seg state
      | None \<Rightarrow>
          (case e_buf state of
             None \<Rightarrow> Some (False, state)
           | Some b \<Rightarrow> do {
               let state = state\<lparr>e_sect_idx := e_sect_idx state + 1\<rparr>;
               section_count \<leftarrow> ld 2 mem b;
               (if e_sect_idx state < ucast (section_count :: u16) then Some (True, state)
                else next_buffer mem None state)
             }))"

text \<open>The loop that looks for the next section of the type.\<close>

partial_function (option) enum_scan :: "u8 list \<Rightarrow> ice_pkg_enum \<Rightarrow> (bool \<times> ice_pkg_enum) option" where
  "enum_scan mem state = do {
     b \<leftarrow> e_buf state;
     t \<leftarrow> ld 4 mem (b + 4 + 8 * unat (e_sect_idx state));
     (if t = e_type state then Some (True, state)
      else do {
        r \<leftarrow> ice_pkg_advance_sect mem None state;
        (if fst r then enum_scan mem (snd r) else Some (False, snd r))
      })
   }"

text \<open>The checks on a section header once one of the type is found.\<close>

definition section_validate :: "u8 list \<Rightarrow> ice_pkg_enum \<Rightarrow> (nat option \<times> ice_pkg_enum) option" where
  "section_validate mem state = do {
     b \<leftarrow> e_buf state;
     let e = b + 4 + 8 * unat (e_sect_idx state);
     offset \<leftarrow> ld 2 mem (e + 4);
     (if (offset :: u16) < 12 \<or> offset > 4095 then Some (None, state)
      else do {
        sz \<leftarrow> ld 2 mem (e + 6);
        (if (sz :: u16) < 1 \<or> sz > 4084 then Some (None, state)
         else if unat offset + unat sz > ICE_PKG_BUF_SIZE then Some (None, state)
         else do {
           t \<leftarrow> ld 4 mem e;
           Some (Some (b + unat offset), state\<lparr>e_sect_type := t, e_sect := Some (b + unat offset)\<rparr>)
         })
      })
   }"

definition ice_pkg_enum_section ::
  "u8 list \<Rightarrow> nat option \<Rightarrow> ice_pkg_enum \<Rightarrow> u32 \<Rightarrow> (nat option \<times> ice_pkg_enum) option" where
  "ice_pkg_enum_section mem ice_seg state sect_type = do {
     let state = (if ice_seg \<noteq> None then state\<lparr>e_type := sect_type\<rparr> else state);
     (ok, state) \<leftarrow> ice_pkg_advance_sect mem ice_seg state;
     (if \<not> ok then Some (None, state)
      else do {
        (found, state) \<leftarrow> enum_scan mem state;
        (if \<not> found then Some (None, state) else section_validate mem state)
      })
   }"

section \<open>Entries\<close>

text \<open>Entry size and data offset of the parser sections (\<open>ice_parser_sect_item_get\<close>).\<close>

definition sect_item_layout :: "u32 \<Rightarrow> (nat \<times> nat) option" where
  "sect_item_layout sect_type =
     (if sect_type = 52 then Some (4, 48)
      else if sect_type = 58 then Some (4, 24)
      else if sect_type = 50 then Some (4, 16)
      else if sect_type = 76 then Some (4, 17)
      else if sect_type = 51 then Some (4, 12)
      else if sect_type = 78 then Some (4, 13)
      else if sect_type = 56 then Some (4, 88)
      else if sect_type = 0x80000018 then Some (2, 66)
      else if sect_type = 55 then Some (4, 24)
      else if sect_type = 72 then Some (4, 8)
      else if sect_type = 57 then Some (4, 24)
      else if sect_type = 97 then Some (4, 1)
      else None)"

definition ice_parser_sect_item_get :: "u8 list \<Rightarrow> u32 \<Rightarrow> nat option \<Rightarrow> u32 \<Rightarrow> nat option option" where
  "ice_parser_sect_item_get mem sect_type sect index =
     (case sect of
        None \<Rightarrow> Some None
      | Some s \<Rightarrow>
          (case sect_item_layout sect_type of
             None \<Rightarrow> Some None
           | Some (data_off, sz) \<Rightarrow> do {
               count \<leftarrow> ld 2 mem s;
               Some (if index \<ge> ucast (count :: u16) then None else Some (s + data_off + unat index * sz))
             }))"

definition ice_pkg_enum_entry ::
  "u8 list \<Rightarrow> nat option \<Rightarrow> ice_pkg_enum \<Rightarrow> u32 \<Rightarrow> (u8 list \<Rightarrow> u32 \<Rightarrow> nat option \<Rightarrow> u32 \<Rightarrow> nat option option) \<Rightarrow>
   (nat option \<times> ice_pkg_enum) option" where
  "ice_pkg_enum_entry mem ice_seg state sect_type handler = do {
     (go, state) \<leftarrow> (case ice_seg of
        Some seg \<Rightarrow> do {
          (s, state) \<leftarrow> ice_pkg_enum_section mem ice_seg state sect_type;
          Some (s \<noteq> None, if s = None then state else state\<lparr>e_entry_idx := 0, e_handler := True\<rparr>)
        }
      | None \<Rightarrow> Some (e_handler state, state\<lparr>e_entry_idx := e_entry_idx state + 1\<rparr>));
     (if \<not> go then Some (None, state)
      else do {
        entry \<leftarrow> handler mem (e_sect_type state) (e_sect state) (e_entry_idx state);
        (case entry of
           Some p \<Rightarrow> Some (Some p, state)
         | None \<Rightarrow> do {
             (s, state) \<leftarrow> ice_pkg_enum_section mem None state 0;
             (if s = None then Some (None, state)
              else do {
                let state = state\<lparr>e_entry_idx := 0\<rparr>;
                entry \<leftarrow> handler mem (e_sect_type state) (e_sect state) (e_entry_idx state);
                Some (entry, state)
              })
           })
      })
   }"

text \<open>
  The loop of \<open>ice_parser_create_table\<close>: \<open>parse\<close> decodes the entry at an offset
  into the item at index \<open>idx\<close> of the table, which has the allocated length.
\<close>

partial_function (option) create_loop ::
  "u8 list \<Rightarrow> u32 \<Rightarrow> (u16 \<Rightarrow> u8 list \<Rightarrow> nat \<Rightarrow> 'a option) \<Rightarrow> bool \<Rightarrow> nat option \<Rightarrow> ice_pkg_enum \<Rightarrow> u16 \<Rightarrow> 'a list \<Rightarrow> 'a list option" where
  "create_loop mem sect_type parse no_offset ice_seg state idx table = do {
     r \<leftarrow> ice_pkg_enum_entry mem ice_seg state sect_type ice_parser_sect_item_get;
     (case fst r of
        None \<Rightarrow> Some table
      | Some data \<Rightarrow> do {
          s \<leftarrow> e_sect (snd r);
          off \<leftarrow> ld 2 mem (s + 2);
          let idx = (if no_offset then idx + 1 else off + ucast (e_entry_idx (snd r)));
          item \<leftarrow> parse idx mem data;
          table \<leftarrow> arr_put table (unat idx) item;
          create_loop mem sect_type parse no_offset None (snd r) idx table
        })
   }"

text \<open>
  \<open>ice_parser_create_table\<close> with a package and enough memory: \<open>ice_malloc\<close> zeroes
  the items, \<open>zero\<close> is the zeroed item.  Without a segment the result is \<open>NULL\<close>.
\<close>

definition ice_parser_create_table ::
  "u8 list \<Rightarrow> nat option \<Rightarrow> u32 \<Rightarrow> 'a \<Rightarrow> nat \<Rightarrow> (u16 \<Rightarrow> u8 list \<Rightarrow> nat \<Rightarrow> 'a option) \<Rightarrow> bool \<Rightarrow> 'a list option option" where
  "ice_parser_create_table mem seg sect_type zero len parse no_offset =
     (case seg of
        None \<Rightarrow> Some None
      | Some s \<Rightarrow> map_option Some
          (create_loop mem sect_type parse no_offset (Some s) zero_enum 0xffff (replicate len zero)))"

section \<open>The enumeration stays in the buffer table and ends\<close>

text \<open>
  A segment whose buffer table, found behind its device and version tables,
  holds \<open>n\<close> buffers that lie in memory.
\<close>

definition table_ok :: "u8 list \<Rightarrow> nat \<Rightarrow> nat \<Rightarrow> bool" where
  "table_ok mem bt n \<longleftrightarrow> 0 < n \<and> n < 2 ^ 32 \<and> ld 4 mem bt = Some (of_nat n :: u32) \<and> bt + 4 + ICE_PKG_BUF_SIZE * n \<le> length mem"

definition sect_count :: "u8 list \<Rightarrow> nat \<Rightarrow> nat" where
  "sect_count mem b = unat (le_field b 2 mem :: u16)"

text \<open>The state of an enumeration that points to a section header of the current buffer.\<close>

definition enum_ok :: "u8 list \<Rightarrow> nat \<Rightarrow> nat \<Rightarrow> ice_pkg_enum \<Rightarrow> bool" where
  "enum_ok mem bt n st \<longleftrightarrow> e_buf_table st = bt \<and> unat (e_buf_idx st) < n \<and>
     (\<exists>b. e_buf st = Some b \<and> b = bt + 4 + ICE_PKG_BUF_SIZE * unat (e_buf_idx st) \<and>
       sect_count mem b \<le> 511 \<and> unat (e_sect_idx st) < sect_count mem b)"

definition enum_measure :: "nat \<Rightarrow> ice_pkg_enum \<Rightarrow> nat" where
  "enum_measure n st = (n - unat (e_buf_idx st)) * 512 + (512 - unat (e_sect_idx st))"

definition enum_keeps :: "ice_pkg_enum \<Rightarrow> ice_pkg_enum \<Rightarrow> bool" where
  "enum_keeps st st' \<longleftrightarrow> e_type st' = e_type st \<and> e_handler st' = e_handler st"

lemma buf_in_mem:
  assumes "table_ok mem bt n" "i < n"
  shows "bt + 4 + ICE_PKG_BUF_SIZE * i + ICE_PKG_BUF_SIZE \<le> length mem"
proof -
  have "ICE_PKG_BUF_SIZE * Suc i \<le> ICE_PKG_BUF_SIZE * n" using assms(2) by (intro mult_le_mono2) simp
  then show ?thesis using assms(1) by (simp add: table_ok_def)
qed

lemma val_buf_spec:
  assumes "buf + 4 \<le> length mem"
  shows "\<exists>h. ice_pkg_val_buf mem buf = Some h \<and> (h = None \<or> (h = Some buf \<and> 0 < sect_count mem buf \<and> sect_count mem buf \<le> 511))"
  using assms unfolding ice_pkg_val_buf_def sect_count_def
  by (auto simp: ld_def word_less_nat_alt not_less)

lemma next_buffer_ok:
  assumes t: "table_ok mem bt n" and b: "e_buf_table st = bt" "unat (e_buf_idx st) < n"
  shows "\<exists>ok st'. next_buffer mem None st = Some (ok, st') \<and> enum_keeps st st' \<and>
    (ok \<longrightarrow> enum_ok mem bt n st' \<and> unat (e_buf_idx st) < unat (e_buf_idx st'))"
proof -
  let ?i = "e_buf_idx st + 1"
  have n: "n < 2 ^ 32" using t by (simp add: table_ok_def)
  have i: "unat ?i = unat (e_buf_idx st) + 1"
    using b(2) n by (simp add: unat_word_ariths(1))
  have lt: "?i < of_nat n \<longleftrightarrow> unat ?i < n" using n by (simp add: word_less_nat_alt unat_of_nat)
  have ld: "ld 4 mem bt = Some (of_nat n :: u32)" using t by (simp add: table_ok_def)
  show ?thesis
  proof (cases "unat ?i < n")
    case True
    let ?b = "bt + 4 + ICE_PKG_BUF_SIZE * unat ?i"
    have "?b + 4 \<le> length mem" using buf_in_mem [OF t True] by simp
    then obtain h where h: "ice_pkg_val_buf mem ?b = Some h"
      "h = None \<or> (h = Some ?b \<and> 0 < sect_count mem ?b \<and> sect_count mem ?b \<le> 511)"
      using val_buf_spec by blast
    then show ?thesis
      using ld True lt b(1) i
      by (auto simp: next_buffer_def ice_pkg_enum_buf_def enum_ok_def enum_keeps_def)
  next
    case False
    then show ?thesis using ld lt b(1) by (auto simp: next_buffer_def ice_pkg_enum_buf_def enum_keeps_def)
  qed
qed

lemma advance_ok:
  assumes t: "table_ok mem bt n" and e: "enum_ok mem bt n st"
  shows "\<exists>ok st'. ice_pkg_advance_sect mem None st = Some (ok, st') \<and> enum_keeps st st' \<and>
    (ok \<longrightarrow> enum_ok mem bt n st' \<and> enum_measure n st' < enum_measure n st)"
proof -
  obtain b where b: "e_buf st = Some b" "b = bt + 4 + ICE_PKG_BUF_SIZE * unat (e_buf_idx st)" "e_buf_table st = bt"
    "sect_count mem b \<le> 511" "unat (e_sect_idx st) < sect_count mem b" "unat (e_buf_idx st) < n"
    using e by (auto simp: enum_ok_def)
  let ?st = "st\<lparr>e_sect_idx := e_sect_idx st + 1\<rparr>"
  have i: "unat (e_sect_idx st + 1) = unat (e_sect_idx st) + 1"
    using b(4,5) by (simp add: unat_word_ariths(1))
  have "b + 2 \<le> length mem" using buf_in_mem [OF t b(6)] b(2) by simp
  then have ld: "ld 2 mem b = Some (le_field b 2 mem :: u16)" by (simp add: ld_def)
  have c: "e_sect_idx st + 1 < (ucast (le_field b 2 mem :: u16) :: u32) \<longleftrightarrow> unat (e_sect_idx st) + 1 < sect_count mem b"
    using i by (simp add: word_less_nat_alt sect_count_def unat_u16_u32)
  show ?thesis
  proof (cases "unat (e_sect_idx st) + 1 < sect_count mem b")
    case True
    then have "ice_pkg_advance_sect mem None st = Some (True, ?st)"
      using b(1) ld c by (simp add: ice_pkg_advance_sect_def)
    moreover have "enum_ok mem bt n ?st" using b i True by (simp add: enum_ok_def)
    moreover have "enum_measure n ?st < enum_measure n st" using b(4,5) i by (simp add: enum_measure_def)
    ultimately show ?thesis by (auto simp: enum_keeps_def)
  next
    case False
    obtain ok st' where nb: "next_buffer mem None ?st = Some (ok, st')" "enum_keeps ?st st'"
      "ok \<longrightarrow> enum_ok mem bt n st' \<and> unat (e_buf_idx ?st) < unat (e_buf_idx st')"
      using next_buffer_ok [OF t, of ?st] b(3,6) by auto
    have "enum_measure n st' < enum_measure n st" if ok
    proof -
      have lt: "unat (e_buf_idx st) < unat (e_buf_idx st')" "unat (e_buf_idx st') < n" using nb(3) that by (auto simp: enum_ok_def)
      then have "Suc (n - unat (e_buf_idx st')) \<le> n - unat (e_buf_idx st)" by linarith
      then have "Suc (n - unat (e_buf_idx st')) * 512 \<le> (n - unat (e_buf_idx st)) * 512" by (rule mult_le_mono1)
      moreover have "unat (e_sect_idx st) < 512" using b(4,5) by linarith
      ultimately show ?thesis unfolding enum_measure_def by simp
    qed
    with nb False b ld c show ?thesis by (simp add: ice_pkg_advance_sect_def enum_keeps_def)
  qed
qed

lemma section_header_in_mem:
  assumes t: "table_ok mem bt n" and e: "enum_ok mem bt n st" and b: "e_buf st = Some b"
  shows "b + 4 + 8 * unat (e_sect_idx st) + 8 \<le> length mem"
proof -
  have "unat (e_sect_idx st) < 511" "b + 4096 \<le> length mem"
    using e b buf_in_mem [OF t] by (auto simp: enum_ok_def)
  then show ?thesis by linarith
qed

lemma enum_scan_ok:
  assumes t: "table_ok mem bt n"
  shows "enum_ok mem bt n st \<Longrightarrow> \<exists>found st'. enum_scan mem st = Some (found, st') \<and> enum_keeps st st' \<and>
    (found \<longrightarrow> enum_ok mem bt n st' \<and> enum_measure n st' \<le> enum_measure n st \<and>
      ld 4 mem (the (e_buf st') + 4 + 8 * unat (e_sect_idx st')) = Some (e_type st))"
proof (induction "enum_measure n st" arbitrary: st rule: less_induct)
  case less
  obtain b where b: "e_buf st = Some b" using less.prems by (auto simp: enum_ok_def)
  let ?a = "b + 4 + 8 * unat (e_sect_idx st)"
  obtain ty :: u32 where ty: "ld 4 mem ?a = Some ty"
    using section_header_in_mem [OF t less.prems b] by (simp add: ld_def)
  show ?case
  proof (cases "ty = e_type st")
    case True
    then have "enum_scan mem st = Some (True, st)" using b ty by (subst enum_scan.simps) simp
    with True b ty less.prems show ?thesis by (auto simp: enum_keeps_def)
  next
    case False
    obtain ok st1 where a: "ice_pkg_advance_sect mem None st = Some (ok, st1)" "enum_keeps st st1"
      "ok \<longrightarrow> enum_ok mem bt n st1 \<and> enum_measure n st1 < enum_measure n st"
      using advance_ok [OF t less.prems] by blast
    have step: "enum_scan mem st = (if ok then enum_scan mem st1 else Some (False, st1))"
      using b ty False a(1) by (subst enum_scan.simps) simp
    show ?thesis
    proof (cases ok)
      case True
      then obtain found st' where "enum_scan mem st1 = Some (found, st') \<and> enum_keeps st1 st' \<and>
          (found \<longrightarrow> enum_ok mem bt n st' \<and> enum_measure n st' \<le> enum_measure n st1 \<and>
            ld 4 mem (the (e_buf st') + 4 + 8 * unat (e_sect_idx st')) = Some (e_type st1))"
        using less.hyps [of st1] a(3) by blast
      with True a step show ?thesis by (auto simp: enum_keeps_def)
    next
      case False
      with step a(2) show ?thesis by auto
    qed
  qed
qed

text \<open>A section of a type: where it may lie.\<close>

definition section_at :: "u8 list \<Rightarrow> nat \<Rightarrow> nat \<Rightarrow> u32 \<Rightarrow> nat \<Rightarrow> bool" where
  "section_at mem bt n ty p \<longleftrightarrow> (\<exists>i < n. let b = bt + 4 + ICE_PKG_BUF_SIZE * i in
     \<exists>k < sect_count mem b. let e = b + 4 + 8 * k in
       le_field e 4 mem = ty \<and> p = b + unat (le_field (e + 4) 2 mem :: u16) \<and> b + 12 \<le> p \<and>
       p + unat (le_field (e + 6) 2 mem :: u16) \<le> b + ICE_PKG_BUF_SIZE)"

lemma validate_section:
  assumes t: "table_ok mem bt n" and e: "enum_ok mem bt n st"
    and ty: "ld 4 mem (the (e_buf st) + 4 + 8 * unat (e_sect_idx st)) = Some (e_type st)"
  shows "\<exists>s st'. section_validate mem st = Some (s, st') \<and>
     (st' = st \<and> s = None \<or> (\<exists>p. s = Some p \<and> section_at mem bt n (e_type st) p \<and> st' = st\<lparr>e_sect_type := e_type st, e_sect := Some p\<rparr>))"
proof -
  obtain b where b: "e_buf st = Some b" using e by (auto simp: enum_ok_def)
  define a where "a = b + 4 + 8 * unat (e_sect_idx st)"
  have m: "a + 8 \<le> length mem" unfolding a_def by (rule section_header_in_mem [OF t e b])
  have bi: "b = bt + 4 + ICE_PKG_BUF_SIZE * unat (e_buf_idx st)" "unat (e_buf_idx st) < n" "unat (e_sect_idx st) < sect_count mem b"
    using e b by (auto simp: enum_ok_def)
  define off sz where "off = (le_field (a + 4) 2 mem :: u16)" and "sz = (le_field (a + 6) 2 mem :: u16)"
  have l: "ld 2 mem (a + 4) = Some off" "ld 2 mem (a + 6) = Some sz" "ld 4 mem a = Some (e_type st)"
    using m ty b by (simp_all add: ld_def off_def sz_def a_def)
  have v: "section_validate mem st = (if off < 12 \<or> off > 4095 then Some (None, st)
      else if sz < 1 \<or> sz > 4084 then Some (None, st)
      else if unat off + unat sz > 4096 then Some (None, st)
      else Some (Some (b + unat off), st\<lparr>e_sect_type := e_type st, e_sect := Some (b + unat off)\<rparr>))"
    unfolding section_validate_def Let_def b bind.bind_lunit a_def [symmetric] l by simp
  show ?thesis
  proof (cases "off < 12 \<or> off > 4095 \<or> sz < 1 \<or> sz > 4084 \<or> unat off + unat sz > 4096")
    case True
    then show ?thesis unfolding v by auto
  next
    case False
    then have o12: "12 \<le> unat off" "unat off + unat sz \<le> 4096" by (auto simp: word_less_nat_alt not_less)
    have "le_field a 4 mem = e_type st" using l(3) by (simp add: ld_def split: if_splits)
    then have "section_at mem bt n (e_type st) (b + unat off)"
      unfolding section_at_def Let_def using bi o12
      by (intro exI [of _ "unat (e_buf_idx st)"] exI [of _ "unat (e_sect_idx st)"] conjI)
         (simp_all add: off_def sz_def a_def)
    with False show ?thesis unfolding v by auto
  qed
qed

text \<open>Both kinds of calls of \<open>ice_pkg_enum_section\<close> return, and what they return.\<close>

definition section_result :: "u8 list \<Rightarrow> nat \<Rightarrow> nat \<Rightarrow> u32 \<Rightarrow> nat option \<Rightarrow> ice_pkg_enum \<Rightarrow> bool" where
  "section_result mem bt n ty s st \<longleftrightarrow> (\<forall>p. s = Some p \<longrightarrow> section_at mem bt n ty p \<and> enum_ok mem bt n st \<and>
     e_type st = ty \<and> e_sect_type st = ty \<and> e_sect st = Some p)"

lemma scan_validate:
  assumes t: "table_ok mem bt n" and e: "enum_ok mem bt n st"
  shows "\<exists>s st'. (enum_scan mem st \<bind> (\<lambda>(found, state). if \<not> found then Some (None, state) else section_validate mem state))
       = Some (s, st') \<and> section_result mem bt n (e_type st) s st' \<and> e_handler st' = e_handler st \<and>
      (s \<noteq> None \<longrightarrow> enum_measure n st' \<le> enum_measure n st)"
proof -
  obtain found st1 where sc: "enum_scan mem st = Some (found, st1)" "enum_keeps st st1"
    "found \<longrightarrow> enum_ok mem bt n st1 \<and> enum_measure n st1 \<le> enum_measure n st \<and>
      ld 4 mem (the (e_buf st1) + 4 + 8 * unat (e_sect_idx st1)) = Some (e_type st)"
    using enum_scan_ok [OF t e] by blast
  show ?thesis
  proof (cases found)
    case True
    with sc obtain s st' where v: "section_validate mem st1 = Some (s, st')"
      "st' = st1 \<and> s = None \<or> (\<exists>p. s = Some p \<and> section_at mem bt n (e_type st1) p \<and> st' = st1\<lparr>e_sect_type := e_type st1, e_sect := Some p\<rparr>)"
      using validate_section [OF t, of st1] by (auto simp: enum_keeps_def)
    from v(2) have "section_result mem bt n (e_type st) s st'" "enum_measure n st' = enum_measure n st1"
      using sc True by (auto simp: section_result_def enum_ok_def enum_measure_def enum_keeps_def)
    moreover have "e_handler st' = e_handler st" using v(2) sc(2) by (auto simp: enum_keeps_def)
    ultimately show ?thesis using True sc v(1) by simp
  next
    case False
    with sc show ?thesis by (simp add: section_result_def enum_keeps_def)
  qed
qed

lemma enum_section_next:
  assumes t: "table_ok mem bt n" and e: "enum_ok mem bt n st"
  shows "\<exists>s st'. ice_pkg_enum_section mem None st x = Some (s, st') \<and> section_result mem bt n (e_type st) s st' \<and>
    e_handler st' = e_handler st \<and> (s \<noteq> None \<longrightarrow> enum_measure n st' < enum_measure n st)"
proof -
  obtain ok st1 where a: "ice_pkg_advance_sect mem None st = Some (ok, st1)" "enum_keeps st st1"
    "ok \<longrightarrow> enum_ok mem bt n st1 \<and> enum_measure n st1 < enum_measure n st"
    using advance_ok [OF t e] by blast
  show ?thesis
  proof (cases ok)
    case True
    with a scan_validate [OF t, of st1] show ?thesis
      by (auto simp: ice_pkg_enum_section_def Let_def enum_keeps_def)
  next
    case False
    with a show ?thesis by (simp add: ice_pkg_enum_section_def section_result_def Let_def enum_keeps_def)
  qed
qed

lemma enum_section_first:
  assumes t: "table_ok mem bt n" and f: "ice_find_buf_table mem seg = Some bt"
  shows "\<exists>s st'. ice_pkg_enum_section mem (Some seg) st ty = Some (s, st') \<and> section_result mem bt n ty s st' \<and>
    (s \<noteq> None \<longrightarrow> enum_measure n st' \<le> 512 * (n + 1))"
proof -
  have n: "0 < n" using t by (simp add: table_ok_def)
  have "bt + 4 + 4 \<le> length mem" using buf_in_mem [OF t n] by simp
  then obtain h where h: "ice_pkg_val_buf mem (bt + 4) = Some h"
    "h = None \<or> (h = Some (bt + 4) \<and> 0 < sect_count mem (bt + 4) \<and> sect_count mem (bt + 4) \<le> 511)"
    using val_buf_spec by blast
  define st1 where "st1 = st\<lparr>e_type := ty, e_buf_table := bt, e_buf_idx := 0, e_buf := h\<rparr>"
  have a: "ice_pkg_advance_sect mem (Some seg) (st\<lparr>e_type := ty\<rparr>) =
      Some (if h = None then (False, st1) else (True, st1\<lparr>e_sect_idx := 0\<rparr>))"
    using f h(1) by (simp add: ice_pkg_advance_sect_def next_buffer_def ice_pkg_enum_buf_def st1_def Let_def)
  show ?thesis
  proof (cases h)
    case None
    with a show ?thesis by (simp add: ice_pkg_enum_section_def section_result_def Let_def)
  next
    case (Some b)
    let ?st = "st1\<lparr>e_sect_idx := 0\<rparr>"
    have "enum_ok mem bt n ?st" using Some h(2) n by (simp add: enum_ok_def st1_def)
    moreover have "enum_measure n ?st \<le> 512 * (n + 1)" "e_type ?st = ty" by (simp_all add: enum_measure_def st1_def)
    ultimately show ?thesis using a Some scan_validate [OF t, of ?st]
      by (auto simp: ice_pkg_enum_section_def Let_def)
  qed
qed

text \<open>The sections one enumeration returns, in order: the \<open>k\<close>-th one at \<open>p\<close>, and the state after it.\<close>

inductive enum_reach :: "u8 list \<Rightarrow> nat \<Rightarrow> u32 \<Rightarrow> nat \<Rightarrow> nat \<Rightarrow> ice_pkg_enum \<Rightarrow> bool" for mem seg ty where
  enum_first: "ice_pkg_enum_section mem (Some seg) zero_enum ty = Some (Some p, st) \<Longrightarrow> enum_reach mem seg ty 1 p st"
| enum_next: "enum_reach mem seg ty k p st \<Longrightarrow> ice_pkg_enum_section mem None st x = Some (Some p', st') \<Longrightarrow>
    enum_reach mem seg ty (Suc k) p' st'"

lemma enum_reach_inv:
  assumes t: "table_ok mem bt n" and f: "ice_find_buf_table mem seg = Some bt" and r: "enum_reach mem seg ty k p st"
  shows "section_result mem bt n ty (Some p) st \<and> k + enum_measure n st \<le> 512 * (n + 1) + 1"
  using r
proof (induction rule: enum_reach.induct)
  case (enum_first p st)
  then show ?case using enum_section_first [OF t f, of zero_enum ty] by auto
next
  case (enum_next k p st x p' st')
  then have "enum_ok mem bt n st" "e_type st = ty" by (auto simp: section_result_def)
  then show ?case using enum_section_next [OF t, of st x] enum_next by auto
qed

text \<open>
  C7: enumerating the sections of a package is safe and ends.  If the buffer
  table behind the device and version tables of the segment lies in memory, the
  first call and every later call return, without a load outside of the memory;
  every section returned has the requested type and lies, with its recorded
  size, inside one of the 4096-byte buffers behind the buffer header; and there
  are at most 512 calls per buffer that return one.
\<close>

theorem enum_section_total:
  assumes "ice_find_buf_table mem seg = Some bt" "table_ok mem bt n"
  shows "(\<exists>r. ice_pkg_enum_section mem (Some seg) zero_enum ty = Some r) \<and>
    (\<forall>k p st. enum_reach mem seg ty k p st \<longrightarrow>
      section_at mem bt n ty p \<and> k \<le> 512 * (n + 1) \<and> (\<exists>r. ice_pkg_enum_section mem None st 0 = Some r))"
proof (intro conjI allI impI)
  show "\<exists>r. ice_pkg_enum_section mem (Some seg) zero_enum ty = Some r"
    using enum_section_first [OF assms(2,1)] by blast
  fix k p st
  assume "enum_reach mem seg ty k p st"
  from enum_reach_inv [OF assms(2,1) this]
  have i: "section_result mem bt n ty (Some p) st" "k + enum_measure n st \<le> 512 * (n + 1) + 1" by auto
  then have e: "enum_ok mem bt n st" and "section_at mem bt n ty p" by (auto simp: section_result_def)
  moreover have "0 < enum_measure n st" using e by (simp add: enum_measure_def enum_ok_def)
  ultimately show "section_at mem bt n ty p" "k \<le> 512 * (n + 1)" "\<exists>r. ice_pkg_enum_section mem None st 0 = Some r"
    using i(2) enum_section_next [OF assms(2) e, of 0] by auto
qed

text \<open>A segment with one buffer that holds one section of two flag-redirection entries.\<close>

definition demo_seg :: "u8 list" where
  "demo_seg = replicate 44 0 @ [0, 0, 0, 0, 0, 0, 0, 0, 1, 0, 0, 0] @
     [1, 0, 0, 16, 97, 0, 0, 0, 12, 0, 6, 0, 2, 0, 5, 0, 3, 9] @ replicate 4078 0"

lemma demo_seg_ok: "ice_find_buf_table demo_seg 0 = Some 52" "table_ok demo_seg 52 1"
  by (simp_all add: ice_find_buf_table_def table_ok_def ld_def le_field_def demo_seg_def)

lemma demo_seg_fields:
  "sect_count demo_seg 56 = 1" "(le_field 60 4 demo_seg :: u32) = 97" "unat (le_field 64 2 demo_seg :: u16) = 12"
  "unat (le_field 68 2 demo_seg :: u16) = 2" "(le_field 70 2 demo_seg :: u16) = 5" "length demo_seg = 4152"
  by (simp_all add: sect_count_def le_field_def demo_seg_def)

lemma demo_seg_first:
  "\<exists>st. ice_pkg_enum_section demo_seg (Some 0) zero_enum 97 = Some (Some 68, st)"
proof -
  have h: "le_field 56 2 demo_seg = (1 :: u16)" "le_field 58 2 demo_seg = (4096 :: u16)"
    "le_field 64 2 demo_seg = (12 :: u16)" "le_field 66 2 demo_seg = (6 :: u16)"
    by (simp_all add: le_field_def demo_seg_def)
  have "enum_scan demo_seg st = Some (True, st)" if "e_buf st = Some 56" "e_sect_idx st = 0" "e_type st = 97" for st
    using that by (subst enum_scan.simps) (simp add: ld_def demo_seg_fields)
  then show ?thesis
    using demo_seg_ok(1)
    by (simp add: ice_pkg_enum_section_def ice_pkg_advance_sect_def next_buffer_def ice_pkg_enum_buf_def
        ice_pkg_val_buf_def ld_def demo_seg_fields h section_validate_def zero_enum_def Let_def)
qed

theorem enum_section_total_witness:
  "\<exists>st. enum_reach demo_seg 0 97 1 68 st \<and> section_at demo_seg 52 1 97 68 \<and>
    (\<exists>r. ice_pkg_enum_section demo_seg None st 0 = Some r)"
proof -
  obtain st where st: "enum_reach demo_seg 0 97 1 68 st"
    using demo_seg_first enum_reach.enum_first by blast
  then show ?thesis using enum_section_total [OF demo_seg_ok, of 97] by blast
qed

section \<open>Building a table\<close>

text \<open>
  What a package must satisfy for a table of \<open>len\<close> items: the header of every
  section of the type is in memory, and each of its entries decodes and has an
  index below \<open>len\<close>.
\<close>

definition entry_count :: "u8 list \<Rightarrow> nat \<Rightarrow> nat" where
  "entry_count mem p = unat (le_field p 2 mem :: u16)"

definition entry_index :: "u8 list \<Rightarrow> nat \<Rightarrow> nat \<Rightarrow> u16" where
  "entry_index mem p k = le_field (p + 2) 2 mem + of_nat k"

definition package_ok ::
  "u8 list \<Rightarrow> nat \<Rightarrow> nat \<Rightarrow> u32 \<Rightarrow> nat \<times> nat \<Rightarrow> (u16 \<Rightarrow> u8 list \<Rightarrow> nat \<Rightarrow> 'a option) \<Rightarrow> nat \<Rightarrow> bool" where
  "package_ok mem bt n ty lay parse len \<longleftrightarrow> (\<forall>p. section_at mem bt n ty p \<longrightarrow> p + 4 \<le> length mem \<and>
     (\<forall>k < entry_count mem p. parse (entry_index mem p k) mem (p + fst lay + k * snd lay) \<noteq> None \<and>
       unat (entry_index mem p k) < len))"

text \<open>A table every item of which is untouched or decoded from an entry with that index.\<close>

definition table_from ::
  "u8 list \<Rightarrow> nat \<Rightarrow> nat \<Rightarrow> u32 \<Rightarrow> nat \<times> nat \<Rightarrow> (u16 \<Rightarrow> u8 list \<Rightarrow> nat \<Rightarrow> 'a option) \<Rightarrow> 'a \<Rightarrow> 'a list \<Rightarrow> bool" where
  "table_from mem bt n ty lay parse zero table \<longleftrightarrow> (\<forall>i < length table. table ! i = zero \<or>
     (\<exists>p k. section_at mem bt n ty p \<and> k < entry_count mem p \<and> i = unat (entry_index mem p k) \<and>
       parse (entry_index mem p k) mem (p + fst lay + k * snd lay) = Some (table ! i)))"

text \<open>The state between two entries, and the decreasing measure of the loop.\<close>

definition entry_state :: "u8 list \<Rightarrow> nat \<Rightarrow> nat \<Rightarrow> u32 \<Rightarrow> nat \<Rightarrow> ice_pkg_enum \<Rightarrow> bool" where
  "entry_state mem bt n ty p st \<longleftrightarrow> section_result mem bt n ty (Some p) st \<and> e_handler st \<and>
     unat (e_entry_idx st) < entry_count mem p"

definition loop_measure :: "u8 list \<Rightarrow> nat \<Rightarrow> nat \<Rightarrow> ice_pkg_enum \<Rightarrow> nat" where
  "loop_measure mem n p st = enum_measure n st * 65536 + (entry_count mem p - unat (e_entry_idx st))"

lemma sect_item_get_spec:
  assumes "sect_item_layout ty = Some lay" "p + 4 \<le> length mem"
  shows "ice_parser_sect_item_get mem ty (Some p) k =
    Some (if unat k < entry_count mem p then Some (p + fst lay + unat k * snd lay) else None)"
  using assms
  by (cases lay) (auto simp: ice_parser_sect_item_get_def ld_def entry_count_def word_le_nat_alt unat_u16_u32)

lemma entry_count_bound: "entry_count mem p < 65536"
  using unat_lt [of "le_field p 2 mem :: u16"] by (simp add: entry_count_def)

text \<open>One entry: the result of \<open>ice_pkg_enum_entry\<close> and the state it leaves.\<close>

definition entry_result :: "u8 list \<Rightarrow> nat \<Rightarrow> nat \<Rightarrow> u32 \<Rightarrow> nat \<times> nat \<Rightarrow> nat \<Rightarrow> nat option \<times> ice_pkg_enum \<Rightarrow> bool" where
  "entry_result mem bt n ty lay b r \<longleftrightarrow> (\<forall>q. fst r = Some q \<longrightarrow> (\<exists>p. entry_state mem bt n ty p (snd r) \<and>
     q = p + fst lay + unat (e_entry_idx (snd r)) * snd lay \<and> loop_measure mem n p (snd r) < b))"

lemma entry_result_None [simp]: "entry_result mem bt n ty lay b (None, st)"
  by (simp add: entry_result_def)

lemma section_result_idx:
  "section_result mem bt n ty s st \<Longrightarrow> section_result mem bt n ty s (st\<lparr>e_entry_idx := i\<rparr>)"
  "section_result mem bt n ty s st \<Longrightarrow> section_result mem bt n ty s (st\<lparr>e_entry_idx := i, e_handler := True\<rparr>)"
  by (auto simp: section_result_def enum_ok_def)

lemma loop_measure_bound: "enum_measure n st < e \<Longrightarrow> loop_measure mem n p st < e * 65536"
proof -
  assume "enum_measure n st < e"
  then have "Suc (enum_measure n st) * 65536 \<le> e * 65536" by (intro mult_le_mono1) simp
  moreover have "entry_count mem p - unat (e_entry_idx st) < 65536" using entry_count_bound [of mem p] by simp
  ultimately show ?thesis by (simp add: loop_measure_def)
qed

text \<open>The second half of an entry call: no entry is left in the section, the next section is opened.\<close>

lemma next_section_entry:
  assumes t: "table_ok mem bt n" and l: "sect_item_layout ty = Some lay" and k: "package_ok mem bt n ty lay parse len"
    and r: "section_result mem bt n ty (Some p) st" "e_handler st"
  shows "\<exists>r. (ice_pkg_enum_section mem None st 0 \<bind> (\<lambda>(s, state). if s = None then Some (None, state)
        else let state = state\<lparr>e_entry_idx := 0\<rparr> in
          ice_parser_sect_item_get mem (e_sect_type state) (e_sect state) (e_entry_idx state) \<bind> (\<lambda>entry. Some (entry, state)))) = Some r
      \<and> entry_result mem bt n ty lay (enum_measure n st * 65536) r"
proof -
  have e: "enum_ok mem bt n st" "e_type st = ty" using r(1) by (auto simp: section_result_def)
  obtain s st' where s: "ice_pkg_enum_section mem None st 0 = Some (s, st')" "section_result mem bt n ty s st'"
    "e_handler st' = e_handler st" "s \<noteq> None \<longrightarrow> enum_measure n st' < enum_measure n st"
    using enum_section_next [OF t e(1)] e(2) by blast
  show ?thesis
  proof (cases s)
    case None
    with s(1) show ?thesis by simp
  next
    case (Some p')
    let ?st = "st'\<lparr>e_entry_idx := 0\<rparr>"
    have q: "section_at mem bt n ty p'" "e_sect st' = Some p'" "e_sect_type st' = ty"
      using s(2) Some by (auto simp: section_result_def)
    have m: "p' + 4 \<le> length mem" using k q(1) by (auto simp: package_ok_def)
    have g: "ice_parser_sect_item_get mem ty (Some p') 0 = Some (if 0 < entry_count mem p' then Some (p' + fst lay) else None)"
      using sect_item_get_spec [OF l m, of 0] by simp
    have "loop_measure mem n p' ?st < enum_measure n st * 65536"
      by (rule loop_measure_bound) (use s(4) Some in \<open>simp add: enum_measure_def\<close>)
    then have "entry_result mem bt n ty lay (enum_measure n st * 65536)
        (if 0 < entry_count mem p' then Some (p' + fst lay) else None, ?st)"
      unfolding entry_result_def using section_result_idx(1) [OF s(2)] Some s(3) r(2)
      by (auto simp: entry_state_def intro!: exI [of _ p'])
    with s(1) Some q g show ?thesis by simp
  qed
qed

lemma enum_entry_next:
  assumes t: "table_ok mem bt n" and l: "sect_item_layout ty = Some lay" and k: "package_ok mem bt n ty lay parse len"
    and st: "entry_state mem bt n ty p st"
  shows "\<exists>r. ice_pkg_enum_entry mem None st x ice_parser_sect_item_get = Some r \<and>
    entry_result mem bt n ty lay (loop_measure mem n p st) r"
proof -
  define st1 where "st1 = st\<lparr>e_entry_idx := e_entry_idx st + 1\<rparr>"
  have c: "unat (e_entry_idx st) < entry_count mem p" "e_handler st" and r: "section_result mem bt n ty (Some p) st"
    using st by (auto simp: entry_state_def)
  have i: "unat (e_entry_idx st + 1) = unat (e_entry_idx st) + 1"
    using c(1) entry_count_bound [of mem p] by (simp add: unat_word_ariths(1))
  have r1: "section_result mem bt n ty (Some p) st1" "e_handler st1" "e_sect st1 = Some p" "e_sect_type st1 = ty"
    using section_result_idx(1) [OF r] c(2) r by (auto simp: st1_def section_result_def)
  have m: "p + 4 \<le> length mem" using k r by (auto simp: package_ok_def section_result_def)
  note g = sect_item_get_spec [OF l m, of "e_entry_idx st1"]
  show ?thesis
  proof (cases "unat (e_entry_idx st1) < entry_count mem p")
    case True
    have "ice_pkg_enum_entry mem None st x ice_parser_sect_item_get
        = Some (Some (p + fst lay + unat (e_entry_idx st1) * snd lay), st1)"
      using g True r1 c(2) by (simp add: ice_pkg_enum_entry_def st1_def)
    moreover have "loop_measure mem n p st1 < loop_measure mem n p st"
      using c(1) i by (simp add: loop_measure_def enum_measure_def st1_def)
    ultimately show ?thesis
      using r1 True by (auto simp: entry_result_def entry_state_def)
  next
    case False
    obtain r' where r': "(ice_pkg_enum_section mem None st1 0 \<bind> (\<lambda>(s, state). if s = None then Some (None, state)
        else let state = state\<lparr>e_entry_idx := 0\<rparr> in
          ice_parser_sect_item_get mem (e_sect_type state) (e_sect state) (e_entry_idx state) \<bind> (\<lambda>entry. Some (entry, state)))) = Some r'"
      "entry_result mem bt n ty lay (enum_measure n st1 * 65536) r'"
      using next_section_entry [OF t l k r1(1,2)] by blast
    have "ice_pkg_enum_entry mem None st x ice_parser_sect_item_get = Some r'"
      using g False r1 c(2) r'(1) by (simp add: ice_pkg_enum_entry_def st1_def)
    moreover have "enum_measure n st1 * 65536 \<le> loop_measure mem n p st"
      by (simp add: loop_measure_def enum_measure_def st1_def)
    ultimately show ?thesis using r'(2) unfolding entry_result_def by fastforce
  qed
qed

lemma enum_entry_first:
  assumes t: "table_ok mem bt n" and f: "ice_find_buf_table mem seg = Some bt"
    and l: "sect_item_layout ty = Some lay" and k: "package_ok mem bt n ty lay parse len"
  shows "\<exists>r. ice_pkg_enum_entry mem (Some seg) st ty ice_parser_sect_item_get = Some r \<and>
    (\<exists>b. entry_result mem bt n ty lay b r)"
proof -
  obtain s st' where s: "ice_pkg_enum_section mem (Some seg) st ty = Some (s, st')" "section_result mem bt n ty s st'"
    using enum_section_first [OF t f] by blast
  show ?thesis
  proof (cases s)
    case None
    with s(1) show ?thesis by (simp add: ice_pkg_enum_entry_def)
  next
    case (Some p)
    define st1 where "st1 = st'\<lparr>e_entry_idx := 0, e_handler := True\<rparr>"
    have r1: "section_result mem bt n ty (Some p) st1" "e_handler st1" "e_sect st1 = Some p" "e_sect_type st1 = ty"
      using s(2) section_result_idx(2) [OF s(2)] Some by (auto simp: st1_def section_result_def)
    have m: "p + 4 \<le> length mem" using k r1(1) by (auto simp: package_ok_def section_result_def)
    note g = sect_item_get_spec [OF l m, of 0]
    show ?thesis
    proof (cases "0 < entry_count mem p")
      case True
      have "ice_pkg_enum_entry mem (Some seg) st ty ice_parser_sect_item_get = Some (Some (p + fst lay), st1)"
        using s(1) Some g True r1 by (simp add: ice_pkg_enum_entry_def st1_def)
      moreover have "entry_result mem bt n ty lay (Suc (loop_measure mem n p st1)) (Some (p + fst lay), st1)"
        using r1 True by (auto simp: entry_result_def entry_state_def st1_def intro!: exI [of _ p])
      ultimately show ?thesis by blast
    next
      case False
      obtain r' where r': "(ice_pkg_enum_section mem None st1 0 \<bind> (\<lambda>(s, state). if s = None then Some (None, state)
          else let state = state\<lparr>e_entry_idx := 0\<rparr> in
            ice_parser_sect_item_get mem (e_sect_type state) (e_sect state) (e_entry_idx state) \<bind> (\<lambda>entry. Some (entry, state)))) = Some r'"
        "entry_result mem bt n ty lay (enum_measure n st1 * 65536) r'"
        using next_section_entry [OF t l k r1(1,2)] by blast
      have "ice_pkg_enum_entry mem (Some seg) st ty ice_parser_sect_item_get = Some r'"
        using s(1) Some g False r1 r'(1) by (simp add: ice_pkg_enum_entry_def st1_def)
      with r'(2) show ?thesis by blast
    qed
  qed
qed

lemma table_from_put:
  assumes "table_from mem bt n ty lay parse zero table" "section_at mem bt n ty p" "k < entry_count mem p"
    "parse (entry_index mem p k) mem (p + fst lay + k * snd lay) = Some item" "unat (entry_index mem p k) < length table"
  shows "table_from mem bt n ty lay parse zero (table[unat (entry_index mem p k) := item])"
  using assms unfolding table_from_def by (auto simp: nth_list_update)

text \<open>One pass of the loop, given that the rest of the loop returns.\<close>

lemma create_step:
  assumes k: "package_ok mem bt n ty lay parse len" and tab: "table_from mem bt n ty lay parse zero table" "length table = len"
    and r: "ice_pkg_enum_entry mem seg st ty ice_parser_sect_item_get = Some r" "entry_result mem bt n ty lay b r"
    and rest: "\<And>p' st' idx' table'. entry_state mem bt n ty p' st' \<Longrightarrow> loop_measure mem n p' st' < b \<Longrightarrow>
      table_from mem bt n ty lay parse zero table' \<Longrightarrow> length table' = len \<Longrightarrow>
      \<exists>t. create_loop mem ty parse False None st' idx' table' = Some t \<and> table_from mem bt n ty lay parse zero t \<and> length t = len"
  shows "\<exists>t. create_loop mem ty parse False seg st idx table = Some t \<and> table_from mem bt n ty lay parse zero t \<and> length t = len"
proof (cases "fst r")
  case None
  then show ?thesis using r(1) tab by (subst create_loop.simps) simp
next
  case (Some q)
  let ?st = "snd r"
  obtain p where p: "entry_state mem bt n ty p ?st" "q = p + fst lay + unat (e_entry_idx ?st) * snd lay" "loop_measure mem n p ?st < b"
    using r(2) Some by (auto simp: entry_result_def)
  let ?k = "unat (e_entry_idx ?st)"
  have sec: "section_at mem bt n ty p" "e_sect ?st = Some p" "?k < entry_count mem p"
    using p(1) by (auto simp: entry_state_def section_result_def)
  have ok: "p + 4 \<le> length mem" "unat (entry_index mem p ?k) < len"
    using k sec by (auto simp: package_ok_def)
  obtain item where item: "parse (entry_index mem p ?k) mem q = Some item"
    using k sec p(2) by (auto simp: package_ok_def)
  have ld: "ld 2 mem (p + 2) = Some (le_field (p + 2) 2 mem :: u16)" using ok(1) by (simp add: ld_def)
  have ix: "le_field (p + 2) 2 mem + ucast (e_entry_idx ?st) = entry_index mem p ?k"
    by (simp add: entry_index_def)
  have put: "arr_put table (unat (entry_index mem p ?k)) item = Some (table[unat (entry_index mem p ?k) := item])"
    using ok(2) tab(2) by simp
  have "create_loop mem ty parse False seg st idx table =
      create_loop mem ty parse False None ?st (entry_index mem p ?k) (table[unat (entry_index mem p ?k) := item])"
    using r(1) Some sec(2) ld item put by (subst create_loop.simps) (simp add: ix Let_def del: add_2_eq_Suc')
  then show ?thesis
    using rest [OF p(1,3)] table_from_put [OF tab(1) sec(1,3)] item p(2) ok(2) tab(2) by simp
qed

lemma create_loop_ok:
  assumes t: "table_ok mem bt n" and l: "sect_item_layout ty = Some lay" and k: "package_ok mem bt n ty lay parse len"
  shows "entry_state mem bt n ty p st \<Longrightarrow> table_from mem bt n ty lay parse zero table \<Longrightarrow> length table = len \<Longrightarrow>
    \<exists>t. create_loop mem ty parse False None st idx table = Some t \<and> table_from mem bt n ty lay parse zero t \<and> length t = len"
proof (induction "loop_measure mem n p st" arbitrary: p st idx table rule: less_induct)
  case less
  obtain r where r: "ice_pkg_enum_entry mem None st ty ice_parser_sect_item_get = Some r"
    "entry_result mem bt n ty lay (loop_measure mem n p st) r"
    using enum_entry_next [OF t l k less.prems(1)] by blast
  show ?case by (rule create_step [OF k less.prems(2,3) r]) (rule less.hyps)
qed


lemma demo_package_ok: "package_ok demo_seg 52 1 97 (4, 1) flg_rd_parse_item 64"
proof -
  have p: "p = 68" if "section_at demo_seg 52 1 97 p" for p
    using that by (auto simp: section_at_def Let_def demo_seg_fields)
  have i: "unat (5 + of_nat k :: u16) < 64" if "k < 2" for k
  proof -
    have "k = 0 \<or> k = 1" using that by linarith
    then show ?thesis by auto
  qed
  show ?thesis
    unfolding package_ok_def
  proof (intro allI impI)
    fix p assume "section_at demo_seg 52 1 97 p"
    then have "p = 68" by (rule p)
    then show "p + 4 \<le> length demo_seg \<and> (\<forall>k < entry_count demo_seg p.
        flg_rd_parse_item (entry_index demo_seg p k) demo_seg (p + fst (4, 1) + k * snd (4, 1)) \<noteq> None \<and>
        unat (entry_index demo_seg p k) < 64)"
      by (simp add: entry_count_def entry_index_def demo_seg_fields flg_rd_parse_item_def ld_def i)
  qed
qed


end
