(* ===== verification/Nic_Rss.thy ===== *)
theory Nic_Rss
  imports Vmux_Prelude
begin

text \<open>
  Receive-side scaling of the E810 model (\<open>rss.cc\<close>, \<open>lan::rss_steering\<close> in
  \<open>e810_lan.cc\<close>): the cache of the 32-bit windows of the hash key and the hash of
  an IPv4 flow computed from it, shown to be the Toeplitz hash of the key.
\<close>

section \<open>The key cache\<close>

abbreviation (input) key_len :: nat where "key_len \<equiv> 52"
abbreviation (input) cache_len :: nat where "cache_len \<equiv> 288"

record rss_key_cache =
  cache_dirty :: bool
  rss_key :: "u32 list"
  rss_cache :: "u32 list"

definition rss_key_cache_init :: "u32 list \<Rightarrow> rss_key_cache" where
  "rss_key_cache_init key = \<lparr>cache_dirty = True, rss_key = key, rss_cache = replicate cache_len 0\<rparr>"

text \<open>The key registers read as bytes in the memory order of the host.\<close>

definition key_bytes :: "u32 list \<Rightarrow> u8 list" where
  "key_bytes key = concat (map (le_bytes 4) key)"

text \<open>The loop of \<open>build\<close>: \<open>n\<close> iterations left, the window ends before key bit \<open>idx\<close>.\<close>

fun build_loop :: "u8 list \<Rightarrow> nat \<Rightarrow> nat \<Rightarrow> u32 \<Rightarrow> u32 list" where
  "build_loop k idx 0 result = []"
| "build_loop k idx (Suc n) result = (let
     shift = idx mod 8;
     b = (if push_bit shift (ucast (k ! (idx div 8))) AND 0x80 \<noteq> (0 :: u32) then 1 else 0) in
     result # build_loop k (idx + 1) n (push_bit 1 result OR b))"

definition rss_build :: "rss_key_cache \<Rightarrow> rss_key_cache" where
  "rss_build c = (let k = key_bytes (rss_key c);
     result = push_bit 24 (ucast (k ! 0)) OR push_bit 16 (ucast (k ! 1)) OR push_bit 8 (ucast (k ! 2)) OR ucast (k ! 3) in
     c\<lparr>rss_cache := build_loop k 32 cache_len result, cache_dirty := False\<rparr>)"

definition rss_set_dirty :: "rss_key_cache \<Rightarrow> rss_key_cache" where
  "rss_set_dirty c = c\<lparr>cache_dirty := True\<rparr>"

text \<open>
  One of the four loops of \<open>hash_ipv4\<close>: \<open>n\<close> bits of \<open>v\<close>, most significant first,
  select the cache entries from \<open>off\<close> on.
\<close>

fun hash_loop :: "u32 list \<Rightarrow> 'a::len word \<Rightarrow> nat \<Rightarrow> nat \<Rightarrow> 'a word \<Rightarrow> u32 \<Rightarrow> u32" where
  "hash_loop cache msb off 0 v res = res"
| "hash_loop cache msb off (Suc n) v res =
     hash_loop cache msb (off + 1) n (push_bit 1 v) (if v AND msb \<noteq> 0 then res XOR cache ! off else res)"

definition hash_ipv4 :: "u32 \<Rightarrow> u32 \<Rightarrow> u16 \<Rightarrow> u16 \<Rightarrow> rss_key_cache \<Rightarrow> u32 \<times> rss_key_cache" where
  "hash_ipv4 sip dip sp dp c = (let
     c = (if cache_dirty c then rss_build c else c);
     res = hash_loop (rss_cache c) 0x80000000 0 32 sip 0;
     res = hash_loop (rss_cache c) 0x80000000 32 32 dip res;
     res = hash_loop (rss_cache c) 0x8000 64 16 sp res;
     res = hash_loop (rss_cache c) 0x8000 80 16 dp res in
     (res, c))"

section \<open>Steering\<close>

text \<open>
  \<open>lan::rss_steering\<close>: Ethernet type at byte 12, IP protocol at 23, addresses at
  26 and 30, ports at 34 and 36 of the packed headers.  \<open>None\<close> when the packet is
  shorter than the headers the code reads.
\<close>

definition rss_steering :: "u8 list \<Rightarrow> rss_key_cache \<Rightarrow> (bool \<times> u32 \<times> rss_key_cache) option" where
  "rss_steering p c =
     (if length p < 38 then None
      else if be16 p 12 = 0x0800 \<and> p ! 23 = 6 then
        (case hash_ipv4 (be32 p 26) (be32 p 30) (be16 p 34) (be16 p 36) c of (h, c) \<Rightarrow> Some (True, h, c))
      else if be16 p 12 = 0x0800 \<and> p ! 23 = 17 then
        (case hash_ipv4 (be32 p 26) (be32 p 30) (be16 p 34) (be16 p 36) c of (h, c) \<Rightarrow> Some (True, h, c))
      else if be16 p 12 = 0x0800 then
        (case hash_ipv4 (be32 p 26) (be32 p 30) 0 0 c of (h, c) \<Rightarrow> Some (True, h, c))
      else Some (False, 0, c))"

section \<open>The reference: the Toeplitz hash\<close>

text \<open>Bit \<open>n\<close> of the key, counted from the most significant bit of its first byte.\<close>

definition key_bit :: "u8 list \<Rightarrow> nat \<Rightarrow> bool" where
  "key_bit k n \<longleftrightarrow> bit (k ! (n div 8)) (7 - n mod 8)"

text \<open>Bit \<open>n\<close> of the flow: source and destination address, then the ports.\<close>

definition flow_bit :: "u32 \<Rightarrow> u32 \<Rightarrow> u16 \<Rightarrow> u16 \<Rightarrow> nat \<Rightarrow> bool" where
  "flow_bit sip dip sp dp n =
     (if n < 32 then bit sip (31 - n)
      else if n < 64 then bit dip (63 - n)
      else if n < 80 then bit sp (79 - n)
      else n < 96 \<and> bit dp (95 - n))"

text \<open>
  Bit \<open>j\<close> of the hash is the parity of the flow bits whose key window has bit \<open>j\<close>
  set.
\<close>

definition toeplitz_bit :: "u8 list \<Rightarrow> (nat \<Rightarrow> bool) \<Rightarrow> nat \<Rightarrow> nat \<Rightarrow> bool" where
  "toeplitz_bit k flow n j \<longleftrightarrow> odd (card {i. i < n \<and> flow i \<and> key_bit k (i + (31 - j))})"

section \<open>The cache holds the windows\<close>

definition window :: "u8 list \<Rightarrow> nat \<Rightarrow> u32 \<Rightarrow> bool" where
  "window k i w \<longleftrightarrow> (\<forall>j < 32. bit w j \<longleftrightarrow> key_bit k (i + (31 - j)))"

lemma key_bit_test:
  "push_bit (idx mod 8) (ucast (b :: u8)) AND 0x80 \<noteq> (0 :: u32) \<longleftrightarrow> bit b (7 - idx mod 8)"
proof -
  have "(0x80 :: u32) = push_bit 7 1" by simp
  then have "push_bit (idx mod 8) (ucast b) AND 0x80 \<noteq> (0 :: u32) \<longleftrightarrow> bit (push_bit (idx mod 8) (ucast b) :: u32) 7"
    using and_push_bit_1_eq_0 [of 7 "push_bit (idx mod 8) (ucast b) :: u32"] by (simp del: push_bit_of_1)
  also have "\<dots> \<longleftrightarrow> bit b (7 - idx mod 8)"
    by (auto simp: bit_simps)
  finally show ?thesis .
qed

lemma window_shift:
  assumes "window k i w"
  shows "window k (Suc i) (push_bit 1 w OR (if key_bit k (i + 32) then 1 else 0))"
  unfolding window_def
proof (intro allI impI)
  fix j :: nat assume j: "j < 32"
  show "bit (push_bit 1 w OR (if key_bit k (i + 32) then 1 else 0)) j \<longleftrightarrow> key_bit k (Suc i + (31 - j))"
  proof (cases j)
    case 0
    then show ?thesis unfolding bit_or_iff bit_push_bit_iff by (simp add: add.commute)
  next
    case (Suc m)
    then have "bit w m \<longleftrightarrow> key_bit k (i + (31 - m))" using assms j by (simp add: window_def)
    moreover have "Suc i + (31 - j) = i + (31 - m)" using Suc j by simp
    ultimately show ?thesis using Suc j unfolding bit_or_iff bit_push_bit_iff by (simp add: bit_1_iff)
  qed
qed

lemma build_loop_windows:
  assumes "window k i w" "m < n"
  shows "window k (i + m) (build_loop k (i + 32) n w ! m)"
  using assms
proof (induction n arbitrary: i w m)
  case (Suc n)
  let ?w = "push_bit 1 w OR (if key_bit k (i + 32) then 1 else 0)"
  have e: "build_loop k (i + 32) (Suc n) w = w # build_loop k (Suc i + 32) n ?w"
    unfolding build_loop.simps Let_def key_bit_test key_bit_def by simp
  show ?case
  proof (cases m)
    case 0
    then show ?thesis using Suc.prems(1) unfolding e by simp
  next
    case (Suc l)
    then have "window k (Suc i + l) (build_loop k (Suc i + 32) n ?w ! l)"
      using Suc.IH [OF window_shift [OF Suc.prems(1)], of l] Suc.prems(2) by simp
    then show ?thesis unfolding e Suc by simp
  qed
qed simp

lemma key_bit_byte: "m < 8 \<Longrightarrow> key_bit k (8 * c + m) \<longleftrightarrow> bit (k ! c) (7 - m)"
  by (simp add: key_bit_def)

lemma window_first:
  "window k 0 (push_bit 24 (ucast (k ! 0)) OR push_bit 16 (ucast (k ! 1)) OR push_bit 8 (ucast (k ! 2)) OR ucast (k ! 3))"
  unfolding window_def
proof (intro allI impI)
  fix j :: nat assume "j < 32"
  define q r where "q = j div 8" and "r = j mod 8"
  have j: "j = 8 * q + r" "r < 8" by (simp_all add: q_def r_def)
  with \<open>j < 32\<close> have "31 - j = 8 * (3 - q) + (7 - r)" "q < 4" by simp_all
  then have kb: "key_bit k (0 + (31 - j)) \<longleftrightarrow> bit (k ! (3 - q)) r" using j(2) key_bit_byte [of "7 - r" k "3 - q"] by simp
  have "q = 0 \<or> q = 1 \<or> q = 2 \<or> q = 3" using \<open>q < 4\<close> by linarith
  then show "bit (push_bit 24 (ucast (k ! 0)) OR push_bit 16 (ucast (k ! 1)) OR push_bit 8 (ucast (k ! 2)) OR ucast (k ! 3) :: u32) j
      \<longleftrightarrow> key_bit k (0 + (31 - j))"
    unfolding kb using j by (elim disjE) (auto simp: bit_simps dest: bit_imp_le_length)
qed

text \<open>The invariant of the cache: a clean cache holds the windows of the current key.\<close>

definition cache_ok :: "rss_key_cache \<Rightarrow> bool" where
  "cache_ok c \<longleftrightarrow> cache_dirty c \<or> (\<forall>i < cache_len. window (key_bytes (rss_key c)) i (rss_cache c ! i))"

lemma rss_build_ok: "cache_ok (rss_build c)" "\<not> cache_dirty (rss_build c)" "rss_key (rss_build c) = rss_key c"
proof -
  let ?k = "key_bytes (rss_key c)"
  have "window ?k i (rss_cache (rss_build c) ! i)" if "i < cache_len" for i
    using build_loop_windows [OF window_first [of ?k] that] by (simp add: rss_build_def Let_def)
  then show "cache_ok (rss_build c)" by (simp add: cache_ok_def rss_build_def Let_def)
qed (simp_all add: rss_build_def Let_def)

section \<open>The loops compute parities\<close>

lemma odd_card_insert:
  assumes "n \<notin> A" "finite A"
  shows "odd (card (insert n A)) \<longleftrightarrow> \<not> odd (card A)"
  using assms by simp

lemma toeplitz_bit_Suc:
  "toeplitz_bit k flow (Suc n) j \<longleftrightarrow> (toeplitz_bit k flow n j \<noteq> (flow n \<and> key_bit k (n + (31 - j))))"
proof -
  let ?S = "\<lambda>n. {i. i < n \<and> flow i \<and> key_bit k (i + (31 - j))}"
  have "?S (Suc n) = (if flow n \<and> key_bit k (n + (31 - j)) then insert n (?S n) else ?S n)"
    by (auto simp: less_Suc_eq)
  then show ?thesis unfolding toeplitz_bit_def by (simp add: odd_card_insert)
qed

text \<open>
  A loop over an \<open>n\<close>-bit value extends the parity over the flow bits before
  \<open>off\<close> by the bits of the value.
\<close>

lemma hash_loop_spec:
  fixes v :: "'a::len word"
  assumes w: "\<forall>i < off + n. window k i (cache ! i)"
    and v: "\<forall>i < n. flow (off + i) \<longleftrightarrow> bit v (LENGTH('a) - 1 - i)" and n: "n \<le> LENGTH('a)"
    and res: "\<forall>j < 32. bit res j \<longleftrightarrow> toeplitz_bit k flow off j"
  shows "\<forall>j < 32. bit (hash_loop cache (push_bit (LENGTH('a) - 1) 1) off n v res) j \<longleftrightarrow> toeplitz_bit k flow (off + n) j"
  using assms
proof (induction n arbitrary: off v res)
  case (Suc n)
  let ?m = "LENGTH('a) - 1"
  let ?r = "if v AND push_bit ?m 1 \<noteq> 0 then res XOR cache ! off else res"
  have m: "?m < LENGTH('a)" by simp
  have test: "v AND push_bit ?m 1 \<noteq> 0 \<longleftrightarrow> flow off"
    unfolding and_push_bit_1_eq_0 [OF m] using Suc.prems(2) by auto
  have r: "\<forall>j < 32. bit ?r j \<longleftrightarrow> toeplitz_bit k flow (Suc off) j"
    unfolding test toeplitz_bit_Suc using Suc.prems(1,4) by (auto simp: window_def bit_xor_iff)
  have v': "\<forall>i < n. flow (Suc off + i) \<longleftrightarrow> bit (push_bit 1 v) (?m - i)"
  proof (intro allI impI)
    fix i assume i: "i < n"
    then have "flow (off + Suc i) \<longleftrightarrow> bit v (?m - Suc i)" using Suc.prems(2) by blast
    moreover have "Suc (?m - Suc i) = ?m - i" using i Suc.prems(3) by linarith
    ultimately show "flow (Suc off + i) \<longleftrightarrow> bit (push_bit 1 v) (?m - i)"
      using i Suc.prems(3) unfolding bit_push_bit_iff by auto
  qed
  have "\<forall>i < Suc off + n. window k i (cache ! i)" using Suc.prems(1) by simp
  from Suc.IH [OF this v' _ r] Suc.prems(3) show ?case by simp
qed simp

lemmas hash_loop_u32 = hash_loop_spec [where 'a = 32, simplified]
lemmas hash_loop_u16 = hash_loop_spec [where 'a = 16, simplified]

lemma hash_ipv4_windows:
  assumes "\<forall>i < cache_len. window k i (rss_cache c ! i)" "\<not> cache_dirty c"
  shows "\<forall>j < 32. bit (fst (hash_ipv4 sip dip sp dp c)) j \<longleftrightarrow> toeplitz_bit k (flow_bit sip dip sp dp) 96 j"
proof -
  let ?f = "flow_bit sip dip sp dp" and ?c = "rss_cache c"
  have w: "\<forall>i < n. window k i (?c ! i)" if "n \<le> cache_len" for n using that assms(1) by simp
  have f: "\<forall>i < 32. ?f (0 + i) \<longleftrightarrow> bit sip (31 - i)" "\<forall>i < 32. ?f (32 + i) \<longleftrightarrow> bit dip (31 - i)"
    "\<forall>i < 16. ?f (64 + i) \<longleftrightarrow> bit sp (15 - i)" "\<forall>i < 16. ?f (80 + i) \<longleftrightarrow> bit dp (15 - i)"
    by (auto simp: flow_bit_def)
  have 0: "\<forall>j < 32. bit (0 :: u32) j \<longleftrightarrow> toeplitz_bit k ?f 0 j" by (simp add: toeplitz_bit_def)
  define r1 r2 r3 where "r1 = hash_loop ?c 0x80000000 0 32 sip 0" and "r2 = hash_loop ?c 0x80000000 32 32 dip r1"
    and "r3 = hash_loop ?c 0x8000 64 16 sp r2"
  note rs = r1_def r2_def r3_def
  have 1: "\<forall>j < 32. bit r1 j \<longleftrightarrow> toeplitz_bit k ?f 32 j"
    using hash_loop_u32 [of 0 32 k ?c ?f sip, OF w _ _ 0] f by (simp add: rs)
  have 2: "\<forall>j < 32. bit r2 j \<longleftrightarrow> toeplitz_bit k ?f 64 j"
    using hash_loop_u32 [of 32 32 k ?c ?f dip, OF w _ _ 1] f by (simp add: r2_def)
  have 3: "\<forall>j < 32. bit r3 j \<longleftrightarrow> toeplitz_bit k ?f 80 j"
    using hash_loop_u16 [of 64 16 k ?c ?f sp, OF w _ _ 2] f by (simp add: r3_def)
  show ?thesis
    using hash_loop_u16 [of 80 16 k ?c ?f dp, OF w _ _ 3] f assms(2) by (simp add: hash_ipv4_def rs Let_def)
qed

text \<open>
  C28: the flow hash is the Toeplitz hash of the key.  For every key and every
  coherent cache, freshly marked dirty or built, each bit \<open>j\<close> of the result is the
  parity of the flow bits whose 32-bit key window has bit \<open>j\<close> set, the flow being
  source address, destination address, source port and destination port from the
  most significant bit on; and the cache is coherent afterwards.
\<close>

theorem hash_ipv4_toeplitz:
  assumes "cache_ok c"
  shows "(\<forall>j < 32. bit (fst (hash_ipv4 sip dip sp dp c)) j \<longleftrightarrow>
      toeplitz_bit (key_bytes (rss_key c)) (flow_bit sip dip sp dp) 96 j) \<and>
    cache_ok (snd (hash_ipv4 sip dip sp dp c)) \<and> cache_ok (rss_set_dirty c)"
proof -
  define d where "d = (if cache_dirty c then rss_build c else c)"
  have d: "\<not> cache_dirty d" "cache_ok d" "rss_key d = rss_key c"
    using assms rss_build_ok by (auto simp: d_def)
  then have "hash_ipv4 sip dip sp dp c = hash_ipv4 sip dip sp dp d" "snd (hash_ipv4 sip dip sp dp d) = d"
    by (simp_all add: hash_ipv4_def d_def Let_def)
  then show ?thesis
    using hash_ipv4_windows [of "key_bytes (rss_key c)" d] d by (simp add: cache_ok_def rss_set_dirty_def)
qed

theorem hash_ipv4_toeplitz_witness:
  "bit (fst (hash_ipv4 0x80000000 0 0 0 (rss_key_cache_init (0x1020304 # replicate 12 0)))) 26 \<and>
   toeplitz_bit (key_bytes (0x1020304 # replicate 12 0)) (flow_bit 0x80000000 0 0 0) 96 26"
proof -
  let ?k = "0x1020304 # replicate 12 (0 :: u32)" and ?f = "flow_bit 0x80000000 0 0 0"
  have "cache_ok (rss_key_cache_init ?k)" by (simp add: cache_ok_def rss_key_cache_init_def)
  from hash_ipv4_toeplitz [OF this, of "0x80000000" 0 0 0]
  have "bit (fst (hash_ipv4 0x80000000 0 0 0 (rss_key_cache_init ?k))) 26 \<longleftrightarrow> toeplitz_bit (key_bytes ?k) ?f 96 26"
    by (simp add: rss_key_cache_init_def)
  moreover have "{i. i < 96 \<and> ?f i \<and> key_bit (key_bytes ?k) (i + (31 - 26))} = {0}"
  proof -
    have f: "?f i \<longleftrightarrow> i = 0" for i
      using bit_push_bit_1 [of 31 "31 - i", where 'a = 32] by (auto simp: flow_bit_def)
    have "key_bytes ?k ! 0 = 4" by (simp add: key_bytes_def le_bytes_def nth_append)
    then have kb: "key_bit (key_bytes ?k) (0 + (31 - 26))"
      using key_bit_byte [of 5 "key_bytes ?k" 0] by simp
    have "(i < 96 \<and> ?f i \<and> key_bit (key_bytes ?k) (i + (31 - 26))) = (i = 0)" for i
      unfolding f using kb by (cases "i = 0") simp_all
    then show ?thesis by simp
  qed
  ultimately show ?thesis by (simp add: toeplitz_bit_def)
qed

end
