(* ===== verification/Vmux_Dma.thy ===== *)
theory Vmux_Dma
  imports Vmux_Prelude
begin

text \<open>
  Guest memory as the devices see it (\<open>vfio-server.hpp\<close>): the table of guest
  address ranges mapped into the process, the callbacks that maintain it, and the
  translation of a DMA address.  The mapping calls of libvfio-user are a
  parameter: \<open>sgl_get\<close> gives the local base and length for a range.
\<close>

section \<open>The table of mappings\<close>

type_synonym mapping_entry = "u64 \<times> u64 \<times> u64"  \<comment> \<open>guest address, local base, length\<close>

text \<open>\<open>std::map\<close>: entries ordered by key, one per key.\<close>

fun map_put :: "u64 \<Rightarrow> u64 \<times> u64 \<Rightarrow> mapping_entry list \<Rightarrow> mapping_entry list" where
  "map_put k v [] = [(k, v)]"
| "map_put k v ((k', v') # m) =
     (if k < k' then (k, v) # (k', v') # m else if k = k' then (k, v) # m else (k', v') # map_put k v m)"

definition map_erase :: "u64 \<Rightarrow> mapping_entry list \<Rightarrow> mapping_entry list" where
  "map_erase k m = filter (\<lambda>e. fst e \<noteq> k) m"

text \<open>\<open>vfu_dma_info_t\<close>, and the calls made to the VFIO container.\<close>

record vfu_dma_info =
  iova_base :: u64
  iova_len :: u64
  info_vaddr :: u64
  mapping_base :: u64
  prot_read :: bool
  prot_write :: bool

datatype iommu_call = Map_dma u32 u64 u64 u64 | Unmap_dma u64 u64

record vfio_user_server =
  mapped :: "u64 set"
  sgs :: "u64 set"
  mappings :: "mapping_entry list"
  iommu_calls :: "iommu_call list"

section \<open>Mapping and unmapping\<close>

definition map_flags :: "vfu_dma_info \<Rightarrow> u32" where
  "map_flags info = (if prot_read info then 1 else 0) OR (if prot_write info then 2 else 0)"

definition map_dma_here ::
  "(u64 \<Rightarrow> u64 \<Rightarrow> (u64 \<times> u64) option) \<Rightarrow> vfu_dma_info \<Rightarrow> vfio_user_server \<Rightarrow> (bool \<times> u32 \<times> vfio_user_server) res" where
  "map_dma_here sgl_get info vfu =
     (if info_vaddr info = 0 then Ok (False, 0, vfu)
      else case sgl_get (iova_base info) (iova_len info) of
        None \<Rightarrow> Abort
      | Some m \<Rightarrow> Ok (True, map_flags info, vfu\<lparr>
          sgs := insert (info_vaddr info) (sgs vfu),
          mappings := map_put (iova_base info) m (mappings vfu),
          mapped := insert (info_vaddr info) (mapped vfu)\<rparr>))"

definition unmap_dma_here :: "vfu_dma_info \<Rightarrow> vfio_user_server \<Rightarrow> bool \<times> vfio_user_server" where
  "unmap_dma_here info vfu =
     (if mapping_base info = 0 then (False, vfu)
      else (False, vfu\<lparr>
        mappings := map_erase (iova_base info) (mappings vfu),
        mapped := mapped vfu - {info_vaddr info},
        sgs := sgs vfu - {info_vaddr info}\<rparr>))"

text \<open>The callbacks of a passthrough device.\<close>

definition dma_register_cb ::
  "(u64 \<Rightarrow> u64 \<Rightarrow> (u64 \<times> u64) option) \<Rightarrow> vfu_dma_info \<Rightarrow> vfio_user_server \<Rightarrow> vfio_user_server res" where
  "dma_register_cb sgl_get info vfu = andThen (map_dma_here sgl_get info vfu) (\<lambda>(ok, flags, vfu).
     Ok (if \<not> ok then vfu
      else vfu\<lparr>iommu_calls := iommu_calls vfu @ [Map_dma flags (info_vaddr info) (iova_base info) (iova_len info)]\<rparr>))"

definition dma_unregister_cb :: "vfu_dma_info \<Rightarrow> vfio_user_server \<Rightarrow> vfio_user_server" where
  "dma_unregister_cb info vfu = (case unmap_dma_here info vfu of (ok, vfu) \<Rightarrow>
     (if \<not> ok then vfu
      else vfu\<lparr>iommu_calls := iommu_calls vfu @ [Unmap_dma (iova_base info) (iova_len info)]\<rparr>))"

section \<open>Translation\<close>

fun find_mapping :: "mapping_entry list \<Rightarrow> u64 \<Rightarrow> u64 \<Rightarrow> u64 option res" where
  "find_mapping [] dma_address len = Ok None"
| "find_mapping ((iova_start, vaddr_start, iov_len) # m) dma_address len = (let iova_end = iova_start + iov_len in
     if iova_start \<le> dma_address \<and> dma_address < iova_end then
       (if dma_address + len > iova_end then Abort else Ok (Some (vaddr_start + (dma_address - iova_start))))
     else find_mapping m dma_address len)"

text \<open>The mappings are searched from the highest guest address down.\<close>

definition dma_local_addr :: "vfio_user_server \<Rightarrow> u64 \<Rightarrow> u64 \<Rightarrow> u64 option res" where
  "dma_local_addr vfu dma_address len = find_mapping (rev (mappings vfu)) dma_address len"

lemma find_mapping_safe: "safe (find_mapping m a n) (\<lambda>_. True)"
  by (induction m a n rule: find_mapping.induct) (simp_all add: Let_def)

section \<open>The table is a map\<close>

definition table_sorted :: "mapping_entry list \<Rightarrow> bool" where
  "table_sorted m \<longleftrightarrow> sorted_wrt (<) (map fst m)"

lemma fst_map_put: "fst ` set (map_put k v m) = insert k (fst ` set m)"
  by (induction k v m rule: map_put.induct) auto

lemma map_put_sorted: "table_sorted m \<Longrightarrow> table_sorted (map_put k v m)"
proof (induction k v m rule: map_put.induct)
  case (2 k v k' v' m)
  have "\<forall>y \<in> fst ` set (map_put k v m). k' < y" if "k' < k"
    using that 2(2) unfolding fst_map_put by (auto simp: table_sorted_def)
  then show ?case using 2 by (auto simp: table_sorted_def less_trans)
qed (simp add: table_sorted_def)

lemma map_erase_sorted: "table_sorted m \<Longrightarrow> table_sorted (map_erase k m)"
  unfolding table_sorted_def map_erase_def by (induction m) auto

lemma map_of_map_put: "table_sorted m \<Longrightarrow> map_of (map_put k v m) = (map_of m)(k \<mapsto> v)"
  by (induction k v m rule: map_put.induct) (auto simp: table_sorted_def fun_eq_iff)

lemma map_of_map_erase: "map_of (map_erase k m) = (map_of m)(k := None)"
  unfolding map_erase_def by (induction m) (auto simp: fun_eq_iff)

lemma set_map_of: "table_sorted m \<Longrightarrow> (k, v) \<in> set m \<longleftrightarrow> map_of m k = Some v"
proof -
  assume "table_sorted m"
  then have "distinct (map fst m)" unfolding table_sorted_def using strict_sorted_iff by blast
  then show ?thesis by simp
qed

section \<open>Translation finds the mapping of an address\<close>

text \<open>
  Guest ranges that end below the top of the address space and do not overlap;
  \<open>covers\<close> says that an entry contains an address.
\<close>

definition covers :: "mapping_entry \<Rightarrow> u64 \<Rightarrow> bool" where
  "covers e a \<longleftrightarrow> unat (fst e) \<le> unat a \<and> unat a < unat (fst e) + unat (snd (snd e))"

definition table_wf :: "mapping_entry list \<Rightarrow> bool" where
  "table_wf m \<longleftrightarrow> table_sorted m \<and> (\<forall>e \<in> set m. unat (fst e) + unat (snd (snd e)) < 2 ^ 64) \<and>
     (\<forall>e \<in> set m. \<forall>e' \<in> set m. \<forall>a. covers e a \<longrightarrow> covers e' a \<longrightarrow> e = e')"

lemma covers_word:
  assumes "unat (fst e) + unat (snd (snd e)) < 2 ^ 64"
  shows "fst e \<le> a \<and> a < fst e + snd (snd e) \<longleftrightarrow> covers e a"
proof -
  have "unat (fst e + snd (snd e)) = unat (fst e) + unat (snd (snd e))"
    using assms by (simp add: unat_word_ariths(1))
  then show ?thesis by (simp add: covers_def word_le_nat_alt word_less_nat_alt)
qed

lemma find_mapping_hit:
  assumes "e \<in> set m" "covers e a" "\<forall>e \<in> set m. unat (fst e) + unat (snd (snd e)) < 2 ^ 64"
    and "\<forall>e' \<in> set m. covers e' a \<longrightarrow> e' = e"
  shows "find_mapping m a n =
    (if a + n > fst e + snd (snd e) then Abort else Ok (Some (fst (snd e) + (a - fst e))))"
  using assms
proof (induction m)
  case (Cons x m)
  obtain k b l where x: "x = (k, b, l)" by (cases x) auto
  have c: "k \<le> a \<and> a < k + l \<longleftrightarrow> covers x a"
    using covers_word [of x a] Cons.prems(3) by (simp add: x)
  show ?case
  proof (cases "covers x a")
    case True
    then have "e = x" using Cons.prems(4) by simp
    with True c show ?thesis by (simp add: x Let_def)
  next
    case False
    then have e: "e \<in> set m" using Cons.prems(1,2) by auto
    have "\<forall>e \<in> set m. unat (fst e) + unat (snd (snd e)) < 2 ^ 64" "\<forall>e' \<in> set m. covers e' a \<longrightarrow> e' = e"
      using Cons.prems(3,4) by simp_all
    from Cons.IH [OF e Cons.prems(2) this] False c show ?thesis by (auto simp: x Let_def)
  qed
qed simp

lemma find_mapping_miss:
  assumes "\<forall>e \<in> set m. \<not> covers e a" "\<forall>e \<in> set m. unat (fst e) + unat (snd (snd e)) < 2 ^ 64"
  shows "find_mapping m a n = Ok None"
  using assms
proof (induction m)
  case (Cons x m)
  obtain k b l where x: "x = (k, b, l)" by (cases x) auto
  have "\<not> (k \<le> a \<and> a < k + l)"
    using covers_word [of x a] Cons.prems by (simp add: x)
  with Cons show ?case by (auto simp: x Let_def)
qed simp

lemma dma_local_addr_hit:
  assumes "table_wf (mappings vfu)" "e \<in> set (mappings vfu)" "covers e a"
  shows "dma_local_addr vfu a n =
    (if a + n > fst e + snd (snd e) then Abort else Ok (Some (fst (snd e) + (a - fst e))))"
  unfolding dma_local_addr_def
  using assms by (intro find_mapping_hit) (auto simp: table_wf_def)

lemma dma_local_addr_miss:
  assumes "table_wf (mappings vfu)" "\<forall>e \<in> set (mappings vfu). \<not> covers e a"
  shows "dma_local_addr vfu a n = Ok None"
  unfolding dma_local_addr_def
  using assms by (intro find_mapping_miss) (auto simp: table_wf_def)

text \<open>Mapping a range that meets no other range keeps the table well formed.\<close>

lemma map_put_wf:
  assumes "table_wf m" "unat k + unat l < 2 ^ 64"
    and "\<forall>e \<in> set m. fst e \<noteq> k \<longrightarrow> (\<forall>a. covers e a \<longrightarrow> \<not> covers (k, b, l) a)"
  shows "table_wf (map_put k (b, l) m)" "set (map_put k (b, l) m) = insert (k, b, l) {e \<in> set m. fst e \<noteq> k}"
proof -
  have s: "table_sorted m" "table_sorted (map_put k (b, l) m)" using assms(1) map_put_sorted by (auto simp: table_wf_def)
  have "(x, v) \<in> set (map_put k (b, l) m) \<longleftrightarrow> (x, v) \<in> insert (k, b, l) {e \<in> set m. fst e \<noteq> k}" for x v
    using set_map_of [OF s(2), of x v] set_map_of [OF s(1), of x v] map_of_map_put [OF s(1)] by auto
  then show e: "set (map_put k (b, l) m) = insert (k, b, l) {e \<in> set m. fst e \<noteq> k}" by auto
  show "table_wf (map_put k (b, l) m)"
    using assms s(2) unfolding table_wf_def e by auto
qed

lemma map_erase_wf: "table_wf m \<Longrightarrow> table_wf (map_erase k m)"
  using map_erase_sorted unfolding table_wf_def map_erase_def by auto


definition demo_info :: vfu_dma_info where
  "demo_info = \<lparr>iova_base = 0x1000, iova_len = 0x1000, info_vaddr = 0x7000, mapping_base = 0x9000,
     prot_read = True, prot_write = True\<rparr>"

definition demo_vfu :: vfio_user_server where
  "demo_vfu = \<lparr>mapped = {}, sgs = {}, mappings = [(0x8000, 0x20000, 0x100)], iommu_calls = []\<rparr>"


text \<open>
  Unregistering never reaches the IOMMU.  \<open>unmap_dma_here\<close> returns false on
  every path, and \<open>dma_unregister_cb\<close> reads that as failure: the physical device
  keeps its mapping of memory the guest has taken back, although the range is
  gone from the process's own table.
\<close>

theorem unregister_keeps_iommu:
  "iommu_calls (dma_unregister_cb info vfu) = iommu_calls vfu \<and>
   (mapping_base info \<noteq> 0 \<longrightarrow> map_of (mappings (dma_unregister_cb info vfu)) (iova_base info) = None)"
  by (simp add: dma_unregister_cb_def unmap_dma_here_def map_of_map_erase)

theorem unregister_keeps_iommu_witness:
  "iommu_calls (dma_unregister_cb demo_info demo_vfu) = [] \<and>
   map_of (mappings (dma_unregister_cb demo_info demo_vfu)) 0x1000 = None"
  using unregister_keeps_iommu [of demo_info demo_vfu] by (simp add: demo_info_def demo_vfu_def)

end
