(* ===== verification/Vmux_Memory.thy ===== *)
theory Vmux_Memory
  imports Vmux_Dma
begin

text \<open>
  The memory of the process, into which guest memory is mapped, as the devices
  use it with \<open>memcpy\<close>: byte strings read from and written to an address.  Facts
  on reading what was written are stated over spans of addresses.
\<close>

definition mem_read :: "(u64 \<Rightarrow> u8) \<Rightarrow> u64 \<Rightarrow> nat \<Rightarrow> u8 list" where
  "mem_read m a n = map (\<lambda>i. m (a + of_nat i)) [0..<n]"

fun mem_write :: "u64 \<Rightarrow> u8 list \<Rightarrow> (u64 \<Rightarrow> u8) \<Rightarrow> (u64 \<Rightarrow> u8)" where
  "mem_write a [] m = m"
| "mem_write a (b # bs) m = mem_write (a + 1) bs (m(a := b))"

text \<open>The addresses of \<open>n\<close> bytes from \<open>a\<close> on.\<close>

definition span :: "u64 \<Rightarrow> nat \<Rightarrow> u64 set" where
  "span a n = {x. unat (x - a) < n}"

lemma span_0 [simp]: "span a 0 = {}"
  by (simp add: span_def)

lemma span_Suc: "Suc n \<le> 2 ^ 64 \<Longrightarrow> span a (Suc n) = insert a (span (a + 1) n)"
proof -
  assume n: "Suc n \<le> 2 ^ 64"
  have "unat (x - a) < Suc n \<longleftrightarrow> x = a \<or> unat (x - (a + 1)) < n" for x
  proof (cases "x = a")
    case False
    then have "x - a \<noteq> 0" by simp
    then have "unat (x - a - 1) = unat (x - a) - 1" "0 < unat (x - a)"
      using unat_minus_one [of "x - a"] by (simp_all add: unat_gt_0)
    with False show ?thesis by (auto simp: diff_diff_eq)
  qed simp
  then show ?thesis by (auto simp: span_def)
qed

lemma span_subset: "unat (b - a) + k \<le> n \<Longrightarrow> span b k \<subseteq> span a n"
proof
  fix x assume *: "unat (b - a) + k \<le> n" "x \<in> span b k"
  have "unat ((x - b) + (b - a)) \<le> unat (x - b) + unat (b - a)"
    unfolding unat_word_ariths(1) by (rule mod_less_eq_dividend)
  then have "unat (x - a) \<le> unat (x - b) + unat (b - a)" by simp
  then show "x \<in> span a n" using * by (simp add: span_def)
qed

lemma in_span: "i < n \<Longrightarrow> i < 2 ^ 64 \<Longrightarrow> a + of_nat i \<in> span a n"
  by (simp add: span_def unat_of_nat)

text \<open>Spans at offsets from a common base are intervals.\<close>

lemma span_offset:
  assumes "o1 + n \<le> 2 ^ 64"
  shows "x \<in> span (r + of_nat o1) n \<longleftrightarrow> o1 \<le> unat (x - r) \<and> unat (x - r) < o1 + n"
proof (cases "n = 0")
  case False
  let ?y = "x - r"
  have o: "unat (of_nat o1 :: u64) = o1" using assms False by (simp add: unat_of_nat)
  have e: "x - (r + of_nat o1) = ?y - of_nat o1" by (simp add: algebra_simps)
  show ?thesis
  proof (cases "o1 \<le> unat ?y")
    case True
    then have "unat (?y - of_nat o1) = unat ?y - o1" by (simp add: unat_sub word_le_nat_alt o)
    with True show ?thesis unfolding span_def mem_Collect_eq e by auto
  next
    case F: False
    then have "unat (?y - of_nat o1) = unat ?y + 2 ^ 64 - o1" by (simp add: unat_sub_if' o word_le_nat_alt)
    with F assms show ?thesis unfolding span_def mem_Collect_eq e by auto
  qed
qed simp

lemma span_offset_disjoint:
  "o1 + n \<le> o2 \<Longrightarrow> o2 + k \<le> 2 ^ 64 \<Longrightarrow> span (r + of_nat o1) n \<inter> span (r + of_nat o2) k = {}"
  by (auto simp: span_offset)

lemma mem_read_cong: "n \<le> 2 ^ 64 \<Longrightarrow> (\<And>x. x \<in> span a n \<Longrightarrow> m x = m' x) \<Longrightarrow> mem_read m a n = mem_read m' a n"
  by (simp add: mem_read_def in_span)

lemma length_mem_read [simp]: "length (mem_read m a n) = n"
  by (simp add: mem_read_def)

lemma mem_read_Suc: "mem_read m a (Suc n) = m a # mem_read m (a + 1) n"
  by (rule nth_equalityI) (auto simp: mem_read_def nth_Cons add.assoc [symmetric] simp del: upt_Suc split: nat.split)

lemma mem_write_other: "x \<notin> span a (length bs) \<Longrightarrow> length bs \<le> 2 ^ 64 \<Longrightarrow> mem_write a bs m x = m x"
  by (induction a bs m rule: mem_write.induct) (simp_all add: span_Suc)

lemma mem_read_write: "length bs \<le> 2 ^ 64 \<Longrightarrow> mem_read (mem_write a bs m) a (length bs) = bs"
proof (induction a bs m rule: mem_write.induct)
  case (2 a b bs m)
  have "unat (- 1 :: u64) = 2 ^ 64 - 1" by (simp add: unsigned_minus_1_eq_mask mask_eq_exp_minus_1)
  then have "a \<notin> span (a + 1) (length bs)" using 2(2) by (simp add: span_def)
  then have "mem_write (a + 1) bs (m(a := b)) a = b" using 2(2) mem_write_other [of a "a + 1" bs "m(a := b)"] by simp
  with 2 show ?case by (simp add: mem_read_Suc fun_upd_def)
qed (simp add: mem_read_def)

lemma mem_read_disjoint:
  "span a (length bs) \<inter> span b n = {} \<Longrightarrow> length bs \<le> 2 ^ 64 \<Longrightarrow> n \<le> 2 ^ 64 \<Longrightarrow>
    mem_read (mem_write a bs m) b n = mem_read m b n"
  by (rule mem_read_cong) (auto intro: mem_write_other)

text \<open>Checked access to the bytes of a buffer.\<close>

definition put_in :: "nat \<Rightarrow> u8 list \<Rightarrow> u8 list \<Rightarrow> u8 list res" where
  "put_in off bs buf = (if off + length bs \<le> length buf then Ok (put_bytes off bs buf) else Fault)"

definition get_in :: "nat \<Rightarrow> nat \<Rightarrow> u8 list \<Rightarrow> u8 list res" where
  "get_in off n buf = (if off + n \<le> length buf then Ok (take n (drop off buf)) else Fault)"

end
