(* ===== verification/E810_Queues.thy ===== *)
theory E810_Queues
  imports Vmux_Memory
begin

text \<open>
  Descriptor queues of the E810 model (\<open>queue_base\<close> in \<open>e810_queues.cc\<close>): a ring of
  descriptors in guest memory, up to 128 of which are active in the device and
  move through the states of \<open>desc_ctx\<close>; fetch, processing and write-back of
  descriptors; and the completion handlers of the DMA operations.

  A context is named by its position in \<open>desc_ctxs\<close>.  Virtual functions are the
  fields of a \<open>vtable\<close>; issuing a DMA operation is a parameter \<open>iss\<close> of the
  operations, since \<open>CallbackAdaptor::IssueDma\<close> (\<open>nicbm.h\<close>), modelled at the end of
  the theory, completes an operation before it returns and so re-enters the queue.
  32-bit arithmetic that can wrap is written with \<open>add32\<close> and \<open>sub32\<close>.
\<close>

section \<open>State\<close>

definition add32 :: "nat \<Rightarrow> nat \<Rightarrow> nat" where
  "add32 a b = (a + b) mod 2 ^ 32"

definition sub32 :: "nat \<Rightarrow> nat \<Rightarrow> nat" where
  "sub32 a b = (a + (2 ^ 32 - b)) mod 2 ^ 32"

lemma add32_small [simp]: "a + b < 2 ^ 32 \<Longrightarrow> add32 a b = a + b"
  by (simp add: add32_def)

lemma sub32_small [simp]: "b \<le> a \<Longrightarrow> a < 2 ^ 32 \<Longrightarrow> sub32 a b = a - b"
proof -
  assume "b \<le> a" "a < 2 ^ 32"
  then have "a + (2 ^ 32 - b) = (a - b) + 2 ^ 32" "a - b < 2 ^ 32" by simp_all
  then show ?thesis by (simp add: sub32_def)
qed

datatype desc_state = DESC_EMPTY | DESC_FETCHING | DESC_PREPARING | DESC_PREPARED | DESC_PROCESSING | DESC_PROCESSED
  | DESC_WRITING_BACK | DESC_WRITTEN_BACK

text \<open>The numeric values of the enumeration, which the code compares.\<close>

fun state_num :: "desc_state \<Rightarrow> nat" where
  "state_num DESC_EMPTY = 0"
| "state_num DESC_FETCHING = 1"
| "state_num DESC_PREPARING = 2"
| "state_num DESC_PREPARED = 3"
| "state_num DESC_PROCESSING = 4"
| "state_num DESC_PROCESSED = 5"
| "state_num DESC_WRITING_BACK = 6"
| "state_num DESC_WRITTEN_BACK = 7"

lemma state_num_eq: "state_num a = state_num b \<longleftrightarrow> a = b"
  by (cases a; cases b) simp_all

instantiation desc_state :: linorder
begin

definition less_eq_desc_state :: "desc_state \<Rightarrow> desc_state \<Rightarrow> bool" where
  "less_eq_desc_state a b \<longleftrightarrow> state_num a \<le> state_num b"

definition less_desc_state :: "desc_state \<Rightarrow> desc_state \<Rightarrow> bool" where
  "less_desc_state a b \<longleftrightarrow> state_num a < state_num b"

instance
  by standard (auto simp: less_eq_desc_state_def less_desc_state_def state_num_eq)

end

record desc_ctx =
  c_state :: desc_state
  c_index :: nat
  c_desc :: "u8 list"
  c_data :: "u8 list"

text \<open>
  Operations on guest memory: descriptor fetch and write-back, fetch and write of
  packet data, and the write-back of the head index (\<open>lan_queue_tx::dma_hwb\<close>).
\<close>

datatype dma_op =
    dma_fetch nat u64 nat
  | dma_wb nat u64 "u8 list"
  | dma_data_fetch nat u64 nat nat nat
  | dma_data_wb nat u64 "u8 list"
  | dma_hwb nat nat nat u64

text \<open>What the queue does that the guest or the network can see, in order.\<close>

datatype event = Ev_data u64 "u8 list" | Ev_writeback u64 "u8 list" | Ev_send "u8 list" | Ev_send_tso "u8 list" bool | Ev_irq nat nat

record queue_base =
  q_vfu :: vfio_user_server
  q_mem :: "u64 \<Rightarrow> u8"
  q_events :: "event list"
  desc_ctxs :: "desc_ctx list"
  active_first_pos :: nat
  active_first_idx :: nat
  active_cnt :: nat
  q_base :: u64
  q_len :: nat
  reg_head :: nat
  reg_tail :: nat
  q_enabled :: bool
  desc_len :: nat

abbreviation (input) MAX_ACTIVE_DESCS :: nat where "MAX_ACTIVE_DESCS \<equiv> 128"
abbreviation (input) MAX_DMA_SIZE :: nat where "MAX_DMA_SIZE \<equiv> 9024"
abbreviation (input) UINT32_MAX :: nat where "UINT32_MAX \<equiv> 4294967295"

text \<open>The state of the context at a ring position, and its update.\<close>

definition st_at :: "'a queue_base_scheme \<Rightarrow> nat \<Rightarrow> desc_state" where
  "st_at s p = c_state (desc_ctxs s ! (p mod MAX_ACTIVE_DESCS))"

definition upd_ctx :: "nat \<Rightarrow> (desc_ctx \<Rightarrow> desc_ctx) \<Rightarrow> 'a queue_base_scheme \<Rightarrow> 'a queue_base_scheme" where
  "upd_ctx p f s = s\<lparr>desc_ctxs := (desc_ctxs s)[p mod MAX_ACTIVE_DESCS := f (desc_ctxs s ! (p mod MAX_ACTIVE_DESCS))]\<rparr>"

definition set_state :: "nat \<Rightarrow> desc_state \<Rightarrow> 'a queue_base_scheme \<Rightarrow> 'a queue_base_scheme" where
  "set_state p d = upd_ctx p (\<lambda>c. c\<lparr>c_state := d\<rparr>)"

text \<open>Virtual functions, by position of the context they are called on.\<close>

record 's vtable =
  v_prepare :: "nat \<Rightarrow> 's \<Rightarrow> 's res"
  v_process :: "nat \<Rightarrow> 's \<Rightarrow> 's res"
  v_processed :: "nat \<Rightarrow> 's \<Rightarrow> 's res"
  v_do_writeback :: "nat \<Rightarrow> nat \<Rightarrow> nat \<Rightarrow> 's \<Rightarrow> 's res"
  v_interrupt :: "'s \<Rightarrow> 's res"

section \<open>The stages\<close>

definition max_fetch_capacity :: nat where "max_fetch_capacity = UINT32_MAX"
definition max_active_capacity :: nat where "max_active_capacity = UINT32_MAX"
definition max_writeback_capacity :: nat where "max_writeback_capacity = UINT32_MAX"

definition next_idx :: "'a queue_base_scheme \<Rightarrow> nat" where
  "next_idx s = add32 (active_first_idx s) (active_cnt s) mod q_len s"

definition fetch_cnt :: "'a queue_base_scheme \<Rightarrow> nat" where
  "fetch_cnt s = (let
     desc_avail = sub32 (reg_tail s) (next_idx s) mod q_len s;
     cnt = min desc_avail (sub32 MAX_ACTIVE_DESCS (active_cnt s));
     cnt = (if max_active_capacity \<le> active_cnt s then min cnt (sub32 max_active_capacity (active_cnt s)) else cnt);
     cnt = min cnt max_fetch_capacity in
     if add32 (next_idx s) cnt > q_len s then sub32 (q_len s) (next_idx s) else cnt)"

definition mark_fetching :: "nat \<Rightarrow> nat \<Rightarrow> nat \<Rightarrow> 'a queue_base_scheme \<Rightarrow> 'a queue_base_scheme res" where
  "mark_fetching first_pos idx i s = andThen (assertR (st_at s (first_pos + i) = DESC_EMPTY) s)
     (\<lambda>s. Ok (upd_ctx (first_pos + i) (\<lambda>c. c\<lparr>c_state := DESC_FETCHING, c_index := add32 idx i mod q_len s\<rparr>) s))"

definition trigger_fetch :: "(dma_op \<Rightarrow> 'a queue_base_scheme \<Rightarrow> 'a queue_base_scheme res) \<Rightarrow>
    'a queue_base_scheme \<Rightarrow> 'a queue_base_scheme res" where
  "trigger_fetch iss s =
     (if \<not> q_enabled s then Ok s
      else if q_len s = 0 then Fault
      else let idx = next_idx s; cnt = fetch_cnt s in
        if cnt = 0 then Ok s
        else let first_pos = (active_first_pos s + active_cnt s) mod MAX_ACTIVE_DESCS in
          andThen (rfold (mark_fetching first_pos idx) [0..<cnt] s) (\<lambda>s.
            iss (dma_fetch first_pos (q_base s + of_nat (idx * desc_len s)) (desc_len s * cnt))
              (s\<lparr>active_cnt := add32 (active_cnt s) cnt\<rparr>)))"

text \<open>
  The loop over prepared contexts from the \<open>k\<close>-th active one.  A context is
  processed at most once per round of the loop, so as many rounds as there are
  contexts suffice; running out of them is a fault.
\<close>

primrec process_loop :: "'a queue_base_scheme vtable \<Rightarrow> nat \<Rightarrow> nat \<Rightarrow> 'a queue_base_scheme \<Rightarrow> 'a queue_base_scheme res" where
  "process_loop vt 0 k s = (if k < active_cnt s then Fault else Ok s)"
| "process_loop vt (Suc n) k s =
     (if k < active_cnt s then
        let p = (active_first_pos s + k) mod MAX_ACTIVE_DESCS in
        if st_at s p \<noteq> DESC_PREPARED then Ok s
        else andThen (v_process vt p (set_state p DESC_PROCESSING s)) (process_loop vt n (k + 1))
      else Ok s)"

text \<open>Counting loops that stop at the first active context with another state.\<close>

definition count_while :: "(desc_state \<Rightarrow> bool) \<Rightarrow> 'a queue_base_scheme \<Rightarrow> nat" where
  "count_while P s = length (takeWhile (\<lambda>i. P (st_at s (active_first_pos s + i))) [0..<active_cnt s])"

definition trigger_process :: "'a queue_base_scheme vtable \<Rightarrow> 'a queue_base_scheme \<Rightarrow> 'a queue_base_scheme res" where
  "trigger_process vt s =
     (if \<not> q_enabled s then Ok s
      else let i = count_while (\<lambda>d. \<not> d \<le> DESC_PREPARED) s in process_loop vt (MAX_ACTIVE_DESCS - i) i s)"

definition writeback_cnt :: "'a queue_base_scheme \<Rightarrow> nat" where
  "writeback_cnt s = (let
     avail = count_while (\<lambda>d. d = DESC_PROCESSED) s;
     cnt = min avail max_writeback_capacity in
     if add32 (active_first_idx s) cnt > q_len s then sub32 (q_len s) (active_first_idx s) else cnt)"

definition trigger_writeback :: "'a queue_base_scheme vtable \<Rightarrow> 'a queue_base_scheme \<Rightarrow> 'a queue_base_scheme res" where
  "trigger_writeback vt s =
     (if \<not> q_enabled s then Ok s
      else let cnt = writeback_cnt s in
        if cnt = 0 then Ok s
        else let s = fold (\<lambda>i. set_state (active_first_pos s + i) DESC_WRITING_BACK) [0..<cnt] s in
          v_do_writeback vt (active_first_idx s) (active_first_pos s) cnt s)"

definition trigger :: "'a queue_base_scheme vtable \<Rightarrow> (dma_op \<Rightarrow> 'a queue_base_scheme \<Rightarrow> 'a queue_base_scheme res) \<Rightarrow>
    'a queue_base_scheme \<Rightarrow> 'a queue_base_scheme res" where
  "trigger vt iss s = andThen (trigger_fetch iss s) (\<lambda>s. andThen (trigger_process vt s) (trigger_writeback vt))"

definition queue_reset :: "'a queue_base_scheme \<Rightarrow> 'a queue_base_scheme" where
  "queue_reset s = s\<lparr>q_enabled := False, active_first_pos := 0, active_first_idx := 0, active_cnt := 0,
     desc_ctxs := map (\<lambda>c. c\<lparr>c_state := DESC_EMPTY\<rparr>) (desc_ctxs s)\<rparr>"

definition reg_updated :: "'a queue_base_scheme vtable \<Rightarrow> (dma_op \<Rightarrow> 'a queue_base_scheme \<Rightarrow> 'a queue_base_scheme res) \<Rightarrow>
    'a queue_base_scheme \<Rightarrow> 'a queue_base_scheme res" where
  "reg_updated vt iss s = (if \<not> q_enabled s then Ok s else trigger vt iss s)"

definition do_writeback :: "(dma_op \<Rightarrow> 'a queue_base_scheme \<Rightarrow> 'a queue_base_scheme res) \<Rightarrow>
    nat \<Rightarrow> nat \<Rightarrow> nat \<Rightarrow> 'a queue_base_scheme \<Rightarrow> 'a queue_base_scheme res" where
  "do_writeback iss first_idx first_pos cnt s =
     andThen (assertR (\<forall>i < cnt. st_at s (first_pos + i) = DESC_WRITING_BACK) s) (\<lambda>s.
       iss (dma_wb first_pos (q_base s + of_nat (first_idx * desc_len s))
         (concat (map (\<lambda>i. c_desc (desc_ctxs s ! ((first_pos + i) mod MAX_ACTIVE_DESCS))) [0..<cnt]))) s)"

definition writeback_done :: "'a queue_base_scheme vtable \<Rightarrow> nat \<Rightarrow> nat \<Rightarrow> 'a queue_base_scheme \<Rightarrow> 'a queue_base_scheme res" where
  "writeback_done vt first_pos cnt s =
     (if \<not> q_enabled s then Ok s
      else andThen (rfold (\<lambda>i s. andThen (assertR (st_at s (first_pos + i) = DESC_WRITING_BACK) s)
                                   (\<lambda>s. Ok (set_state (first_pos + i) DESC_WRITTEN_BACK s))) [0..<cnt] s)
        (\<lambda>s. let
           bump_cnt = count_while (\<lambda>d. d = DESC_WRITTEN_BACK) s;
           afp = active_first_pos s;
           s = fold (\<lambda>i. set_state (afp + i) DESC_EMPTY) [0..<bump_cnt] s;
           idx = add32 (active_first_idx s) bump_cnt mod q_len s in
           v_interrupt vt (s\<lparr>active_first_pos := (afp + bump_cnt) mod MAX_ACTIVE_DESCS, active_first_idx := idx,
             active_cnt := sub32 (active_cnt s) bump_cnt, reg_head := idx\<rparr>)))"

section \<open>Contexts\<close>

definition prepared :: "nat \<Rightarrow> 'a queue_base_scheme \<Rightarrow> 'a queue_base_scheme res" where
  "prepared p s = andThen (assertR (st_at s p = DESC_PREPARING) s) (\<lambda>s. Ok (set_state p DESC_PREPARED s))"

definition processed :: "nat \<Rightarrow> 'a queue_base_scheme \<Rightarrow> 'a queue_base_scheme res" where
  "processed p s = andThen (assertR (st_at s p = DESC_PROCESSING) s) (\<lambda>s. Ok (set_state p DESC_PROCESSED s))"

text \<open>A new buffer is not initialised by the code; the transfer overwrites it.\<close>

definition data_fetch :: "(dma_op \<Rightarrow> 'a queue_base_scheme \<Rightarrow> 'a queue_base_scheme res) \<Rightarrow> nat \<Rightarrow> u64 \<Rightarrow> nat \<Rightarrow>
    'a queue_base_scheme \<Rightarrow> 'a queue_base_scheme res" where
  "data_fetch iss p addr data_len s =
     iss (dma_data_fetch p addr (min data_len MAX_DMA_SIZE) data_len 0)
       (if length (c_data (desc_ctxs s ! (p mod MAX_ACTIVE_DESCS))) < data_len
        then upd_ctx p (\<lambda>c. c\<lparr>c_data := replicate data_len 0\<rparr>) s else s)"

definition data_write :: "(dma_op \<Rightarrow> 'a queue_base_scheme \<Rightarrow> 'a queue_base_scheme res) \<Rightarrow> nat \<Rightarrow> u64 \<Rightarrow> u8 list \<Rightarrow>
    'a queue_base_scheme \<Rightarrow> 'a queue_base_scheme res" where
  "data_write iss p addr buf s = iss (dma_data_wb p addr buf) s"

section \<open>Completion of DMA operations\<close>

definition fetch_one :: "'a queue_base_scheme vtable \<Rightarrow> nat \<Rightarrow> u8 list \<Rightarrow> nat \<Rightarrow> 'a queue_base_scheme \<Rightarrow> 'a queue_base_scheme res" where
  "fetch_one vt pos buf i s = (let p = (pos + i) mod MAX_ACTIVE_DESCS in
     v_prepare vt p (upd_ctx p (\<lambda>c. c\<lparr>c_desc := take (desc_len s) (drop (desc_len s * i) buf), c_state := DESC_PREPARING\<rparr>) s))"

text \<open>
  The \<open>done\<close> methods.  \<open>bytes\<close> is what a read returned.  A data fetch longer than
  one transfer is reissued for its next part; \<open>dma_data_wb::done\<close> goes through
  \<open>data_written\<close>, which calls \<open>processed\<close>.
\<close>

definition store_part :: "nat \<Rightarrow> nat \<Rightarrow> u8 list \<Rightarrow> 'a queue_base_scheme \<Rightarrow> 'a queue_base_scheme" where
  "store_part p part_offset bytes = upd_ctx p (\<lambda>c. c\<lparr>c_data := put_bytes part_offset bytes (c_data c)\<rparr>)"

fun dma_done :: "'a queue_base_scheme vtable \<Rightarrow> (dma_op \<Rightarrow> 'a queue_base_scheme \<Rightarrow> 'a queue_base_scheme res) \<Rightarrow>
    dma_op \<Rightarrow> u8 list \<Rightarrow> 'a queue_base_scheme \<Rightarrow> 'a queue_base_scheme res" where
  "dma_done vt iss (dma_fetch pos addr len) bytes s =
     andThen (rfold (fetch_one vt pos bytes) [0..<len div desc_len s] s) (trigger vt iss)"
| "dma_done vt iss (dma_wb pos addr data) bytes s =
     andThen (writeback_done vt pos (length data div desc_len s) s) (trigger vt iss)"
| "dma_done vt iss (dma_data_fetch p addr len total_len part_offset) bytes s =
     (let part_offset = part_offset + len; addr = addr + of_nat len in
      if part_offset < total_len
      then iss (dma_data_fetch p addr (min (total_len - part_offset) MAX_DMA_SIZE) total_len part_offset) s
      else andThen (prepared p s) (trigger vt iss))"
| "dma_done vt iss (dma_data_wb p addr data) bytes s =
     andThen (v_processed vt p s) (trigger vt iss)"
| "dma_done vt iss (dma_hwb pos cnt next_head addr) bytes s =
     andThen (writeback_done vt pos cnt s) (trigger vt iss)"

section \<open>DMA through the process's mappings\<close>

fun dma_addr :: "dma_op \<Rightarrow> u64" where
  "dma_addr (dma_fetch _ a _) = a"
| "dma_addr (dma_wb _ a _) = a"
| "dma_addr (dma_data_fetch _ a _ _ _) = a"
| "dma_addr (dma_data_wb _ a _) = a"
| "dma_addr (dma_hwb _ _ _ a) = a"

text \<open>The bytes of a write, or the length of a read.\<close>

fun dma_data :: "dma_op \<Rightarrow> u8 list + nat" where
  "dma_data (dma_fetch _ _ n) = Inr n"
| "dma_data (dma_wb _ _ d) = Inl d"
| "dma_data (dma_data_fetch _ _ n _ _) = Inr n"
| "dma_data (dma_data_wb _ _ d) = Inl d"
| "dma_data (dma_hwb _ _ next_head _) = Inl (le_bytes 4 (of_nat next_head :: u32))"

text \<open>A write to guest memory as an event: packet data, or descriptors and head index.\<close>

fun dma_event :: "dma_op \<Rightarrow> u8 list \<Rightarrow> event" where
  "dma_event (dma_data_wb _ a _) d = Ev_data a d"
| "dma_event op d = Ev_writeback (dma_addr op) d"

text \<open>A read fills the buffer of the operation, which for packet data is the buffer of the context.\<close>

fun fill_buffer :: "dma_op \<Rightarrow> u8 list \<Rightarrow> 'a queue_base_scheme \<Rightarrow> 'a queue_base_scheme" where
  "fill_buffer (dma_data_fetch p _ _ _ part_offset) bytes s = store_part p part_offset bytes s"
| "fill_buffer _ _ s = s"

text \<open>
  \<open>CallbackAdaptor::IssueDma\<close>: translate, copy, complete.  \<open>vt_of\<close> gives the virtual
  functions for an issuer.  The depth of nested completions is bounded by the
  fuel \<open>n\<close>; running out of it is a fault.
\<close>

primrec IssueDma :: "((dma_op \<Rightarrow> 'a queue_base_scheme \<Rightarrow> 'a queue_base_scheme res) \<Rightarrow> 'a queue_base_scheme vtable) \<Rightarrow>
    nat \<Rightarrow> dma_op \<Rightarrow> 'a queue_base_scheme \<Rightarrow> 'a queue_base_scheme res" where
  "IssueDma vt_of 0 op s = Fault"
| "IssueDma vt_of (Suc n) op s =
     andThen (dma_local_addr (q_vfu s) (dma_addr op) (case dma_data op of Inl d \<Rightarrow> of_nat (length d) | Inr l \<Rightarrow> of_nat l))
       (\<lambda>local. case local of
          None \<Rightarrow> Abort
        | Some a \<Rightarrow> (case dma_data op of
            Inl d \<Rightarrow> dma_done (vt_of (IssueDma vt_of n)) (IssueDma vt_of n) op []
              (s\<lparr>q_mem := mem_write a d (q_mem s), q_events := q_events s @ [dma_event op d]\<rparr>)
          | Inr l \<Rightarrow> dma_done (vt_of (IssueDma vt_of n)) (IssueDma vt_of n) op (mem_read (q_mem s) a l)
              (fill_buffer op (mem_read (q_mem s) a l) s)))"

end
