(* ===== verification/E810_Queue_Inv.thy ===== *)
theory E810_Queue_Inv
  imports E810_Queues "HOL-Library.Multiset"
begin

text \<open>
  The invariant of a descriptor queue: the shape of the ring of active contexts,
  who holds each context that waits, the measure of the remaining work, and how
  each single change of the queue keeps them.
\<close>

section \<open>Positions and context updates\<close>

lemma pos_window:
  fixes q fp :: nat
  assumes "q < 128"
  obtains j where "j < 128" "q = (fp + j) mod 128"
proof
  let ?r = "fp mod 128"
  let ?j = "(q + (128 - ?r)) mod 128"
  show "?j < 128" by simp
  have "(fp + ?j) mod 128 = (?r + (q + (128 - ?r))) mod 128" by (simp only: mod_add_left_eq mod_add_right_eq)
  also have "?r + (q + (128 - ?r)) = q + 128" by (simp add: mod_less_divisor less_imp_le_nat)
  finally show "q = (fp + ?j) mod 128" using assms by simp
qed

lemma pos_inj: "i < (128 :: nat) \<Longrightarrow> j < 128 \<Longrightarrow> (fp + i) mod 128 = (fp + j) mod 128 \<longleftrightarrow> i = j"
  using mod_window_neq [of fp "fp + i" 128 "fp + j"] by auto

lemma ctxs_upd_ctx [simp]:
  "desc_ctxs (upd_ctx p f s) = (desc_ctxs s)[p mod 128 := f (desc_ctxs s ! (p mod 128))]"
  by (simp add: upd_ctx_def)

text \<open>Everything but the contexts is left alone.\<close>

definition same_frame :: "'a queue_base_scheme \<Rightarrow> 'a queue_base_scheme \<Rightarrow> bool" where
  "same_frame s s' \<longleftrightarrow> (\<exists>cs. s' = s\<lparr>desc_ctxs := cs\<rparr>)"

lemma same_frame_refl: "same_frame s s"
  unfolding same_frame_def by (rule exI [of _ "desc_ctxs s"]) simp

lemma same_frame_upd_ctx: "same_frame s s' \<Longrightarrow> same_frame s (upd_ctx p f s')"
  by (auto simp: same_frame_def upd_ctx_def)

lemma same_frameD:
  assumes "same_frame s s'"
  shows "queue_base.more s' = queue_base.more s" "active_first_pos s' = active_first_pos s"
    "active_first_idx s' = active_first_idx s" "active_cnt s' = active_cnt s" "q_len s' = q_len s" "reg_tail s' = reg_tail s"
    "q_enabled s' = q_enabled s" "desc_len s' = desc_len s" "q_base s' = q_base s" "q_vfu s' = q_vfu s"
    "q_mem s' = q_mem s" "q_events s' = q_events s"
  using assms by (auto simp: same_frame_def)

text \<open>Updating a window of contexts, as the loops of the queue do.\<close>

definition fold_ctx :: "nat \<Rightarrow> (nat \<Rightarrow> desc_ctx \<Rightarrow> desc_ctx) \<Rightarrow> nat \<Rightarrow> 'a queue_base_scheme \<Rightarrow> 'a queue_base_scheme" where
  "fold_ctx fp f cnt s = fold (\<lambda>i. upd_ctx (fp + i) (f i)) [0..<cnt] s"

lemma fold_ctx_0 [simp]: "fold_ctx fp f 0 s = s"
  by (simp add: fold_ctx_def)

lemma fold_ctx_Suc: "fold_ctx fp f (Suc n) s = upd_ctx (fp + n) (f n) (fold_ctx fp f n s)"
  by (simp add: fold_ctx_def)

lemma fold_ctx_frame: "same_frame s (fold_ctx fp f n s)"
  by (induction n) (simp_all add: same_frame_refl same_frame_upd_ctx fold_ctx_Suc)

lemma length_fold_ctx [simp]: "length (desc_ctxs (fold_ctx fp f n s)) = length (desc_ctxs s)"
  by (induction n) (simp_all add: fold_ctx_Suc)

lemma nth_fold_ctx:
  assumes "length (desc_ctxs s) = 128" "n \<le> 128" "j < 128"
  shows "desc_ctxs (fold_ctx fp f n s) ! ((fp + j) mod 128) =
    (if j < n then f j (desc_ctxs s ! ((fp + j) mod 128)) else desc_ctxs s ! ((fp + j) mod 128))"
  using assms
proof (induction n)
  case (Suc n)
  then show ?case using pos_inj [of n j fp] by (auto simp: fold_ctx_Suc nth_list_update less_Suc_eq)
qed simp

section \<open>The measure\<close>

text \<open>Remaining work: descriptors still to fetch, and the stages the active ones have before them.\<close>

fun weight :: "desc_state \<Rightarrow> nat" where
  "weight DESC_EMPTY = 0"
| "weight DESC_FETCHING = 19"
| "weight DESC_PREPARING = 6"
| "weight DESC_PREPARED = 5"
| "weight DESC_PROCESSING = 4"
| "weight DESC_PROCESSED = 3"
| "weight DESC_WRITING_BACK = 2"
| "weight DESC_WRITTEN_BACK = 1"

definition wsum :: "'a queue_base_scheme \<Rightarrow> nat" where
  "wsum s = sum_list (map (\<lambda>c. weight (c_state c)) (desc_ctxs s))"

text \<open>The number of descriptors from the next index up to the tail.\<close>

definition true_avail :: "'a queue_base_scheme \<Rightarrow> nat" where
  "true_avail s = (reg_tail s mod q_len s + (q_len s - next_idx s)) mod q_len s"

definition work :: "'a queue_base_scheme \<Rightarrow> nat" where
  "work s = 20 * true_avail s + wsum s"

lemma wsum_upd_ctx:
  assumes "p mod 128 < length (desc_ctxs s)"
  shows "wsum (upd_ctx p f s) + weight (st_at s p) = wsum s + weight (c_state (f (desc_ctxs s ! (p mod 128))))"
proof -
  let ?w = "map (\<lambda>c. weight (c_state c)) (desc_ctxs s)"
  have "?w ! (p mod 128) \<le> sum_list ?w" using assms by (intro elem_le_sum_list) simp
  then show ?thesis
    using assms by (simp add: wsum_def map_update sum_list_update st_at_def)
qed

lemma wsum_fold_ctx:
  assumes len: "length (desc_ctxs s) = 128" and n: "n \<le> 128"
    and old: "\<forall>j < n. st_at s (fp + j) = d" and new: "\<forall>j c. c_state (f j c) = d'"
  shows "wsum (fold_ctx fp f n s) + n * weight d = wsum s + n * weight d'"
  using n old
proof (induction n)
  case (Suc n)
  have "st_at (fold_ctx fp f n s) (fp + n) = d"
    using nth_fold_ctx [OF len, of n n fp f] Suc.prems by (simp add: st_at_def)
  moreover have "(fp + n) mod 128 < length (desc_ctxs (fold_ctx fp f n s))" using len by simp
  ultimately show ?case
    using wsum_upd_ctx [of "fp + n" "fold_ctx fp f n s" "f n"] Suc new by (simp add: fold_ctx_Suc)
qed simp

section \<open>Who holds a context\<close>

text \<open>
  A context in one of these states is waiting for somebody: a DMA operation in
  flight, a loop that has not reached it yet, or a list of the derived class.
\<close>

definition busy :: "desc_state \<Rightarrow> bool" where
  "busy d \<longleftrightarrow> d \<in> {DESC_FETCHING, DESC_PREPARING, DESC_PROCESSING, DESC_WRITING_BACK}"

lemma busy_simps [simp]:
  "busy DESC_FETCHING" "busy DESC_PREPARING" "busy DESC_PROCESSING" "busy DESC_WRITING_BACK"
  "\<not> busy DESC_EMPTY" "\<not> busy DESC_PREPARED" "\<not> busy DESC_PROCESSED" "\<not> busy DESC_WRITTEN_BACK"
  by (simp_all add: busy_def)

text \<open>The list names each waiting context once, with its state.\<close>

definition owns :: "(nat \<times> desc_state) list \<Rightarrow> 'a queue_base_scheme \<Rightarrow> bool" where
  "owns L s \<longleftrightarrow> distinct (map fst L) \<and> set L = {(p, st_at s p) | p. p < 128 \<and> busy (st_at s p)}"

lemma owns_mset: "mset L = mset L' \<Longrightarrow> owns L s \<Longrightarrow> owns L' s"
  unfolding owns_def by (metis mset_eq_imp_distinct_iff mset_eq_setD mset_map)

lemma owns_cong: "(\<And>p. p < 128 \<Longrightarrow> st_at s' p = st_at s p) \<Longrightarrow> owns L s \<Longrightarrow> owns L s'"
  unfolding owns_def by auto

lemma owns_cong_idle:
  assumes "\<And>p. p < 128 \<Longrightarrow> st_at s' p = st_at s p \<or> \<not> busy (st_at s' p) \<and> \<not> busy (st_at s p)" "owns L s"
  shows "owns L s'"
proof -
  have "{(p, st_at s' p) | p. p < 128 \<and> busy (st_at s' p)} = {(p, st_at s p) | p. p < 128 \<and> busy (st_at s p)}"
    using assms(1) by fastforce
  then show ?thesis using assms(2) by (simp add: owns_def)
qed

lemma ownsD: "owns L s \<Longrightarrow> (p, d) \<in> set L \<Longrightarrow> p < 128 \<and> st_at s p = d \<and> busy d"
  by (auto simp: owns_def)

lemma st_at_upd_ctx:
  assumes "length (desc_ctxs s) = 128"
  shows "st_at (upd_ctx p f s) q =
    (if q mod 128 = p mod 128 then c_state (f (desc_ctxs s ! (p mod 128))) else st_at s q)"
  using assms by (simp add: st_at_def)

lemma st_at_mod [simp]: "st_at s (p mod 128) = st_at s p"
  by (simp add: st_at_def)

lemma upd_ctx_mod [simp]: "upd_ctx (p mod 128) f s = upd_ctx p f s"
  by (simp add: upd_ctx_def)

lemma owns_acquire:
  assumes "owns L s" "length (desc_ctxs s) = 128" "\<not> busy (st_at s p)"
    and "c_state (f (desc_ctxs s ! (p mod 128))) = d" "busy d"
  shows "owns ((p mod 128, d) # L) (upd_ctx p f s)"
proof -
  have "p mod 128 \<notin> fst ` set L" using ownsD [OF assms(1)] assms(3) by fastforce
  then show ?thesis using assms by (auto simp: owns_def st_at_upd_ctx)
qed

lemma owns_release:
  assumes "owns ((p, d) # L) s" "length (desc_ctxs s) = 128" "\<not> busy (c_state (f (desc_ctxs s ! (p mod 128))))"
  shows "owns L (upd_ctx p f s)"
proof -
  have p: "p < 128" using ownsD [OF assms(1), of p d] by simp
  have L: "p \<notin> fst ` set L" using assms(1) unfolding owns_def by simp
  have "set L = {(q, st_at (upd_ctx p f s) q) | q. q < 128 \<and> busy (st_at (upd_ctx p f s) q)}"
  proof (rule set_eqI)
    fix x :: "nat \<times> desc_state"
    obtain q e where x: "x = (q, e)" by (cases x)
    have "x \<in> set ((p, d) # L) \<longleftrightarrow> q < 128 \<and> busy (st_at s q) \<and> e = st_at s q"
      using assms(1) unfolding owns_def x by auto
    moreover have "x \<in> set L \<Longrightarrow> q \<noteq> p" using L unfolding x by force
    ultimately have "x \<in> set L \<longleftrightarrow> q < 128 \<and> busy (st_at s q) \<and> e = st_at s q \<and> q \<noteq> p"
      using ownsD [OF assms(1), of p d] unfolding x by auto
    then show "x \<in> set L \<longleftrightarrow> x \<in> {(q, st_at (upd_ctx p f s) q) | q. q < 128 \<and> busy (st_at (upd_ctx p f s) q)}"
      using assms(2,3) p unfolding x by (auto simp: st_at_upd_ctx)
  qed
  then show ?thesis using assms(1) by (simp add: owns_def)
qed

lemma owns_change:
  assumes "owns ((p, d) # L) s" "length (desc_ctxs s) = 128"
    and "c_state (f (desc_ctxs s ! (p mod 128))) = d'" "busy d'"
  shows "owns ((p, d') # L) (upd_ctx p f s)"
proof -
  have p: "p < 128" using ownsD [OF assms(1), of p d] by simp
  let ?e = "\<lambda>c. c\<lparr>c_state := DESC_EMPTY\<rparr>"
  have "owns L (upd_ctx p ?e s)" using assms by (intro owns_release [of p d]) auto
  then have "owns ((p mod 128, d') # L) (upd_ctx p (\<lambda>_. f (desc_ctxs s ! (p mod 128))) (upd_ctx p ?e s))"
    using assms p by (intro owns_acquire) (auto simp: st_at_upd_ctx)
  then have "owns ((p, d') # L) (upd_ctx p (\<lambda>_. f (desc_ctxs s ! (p mod 128))) (upd_ctx p ?e s))" using p by simp
  then show ?thesis by (rule owns_cong [rotated]) (use assms p in \<open>auto simp: st_at_upd_ctx\<close>)
qed

text \<open>A window of contexts, as claimed by one DMA operation.\<close>

definition window_claims :: "nat \<Rightarrow> nat \<Rightarrow> desc_state \<Rightarrow> (nat \<times> desc_state) list" where
  "window_claims fp n d = map (\<lambda>i. ((fp + i) mod 128, d)) [0..<n]"

lemma window_claims_Suc: "window_claims fp (Suc n) d = window_claims fp n d @ [((fp + n) mod 128, d)]"
  by (simp add: window_claims_def)

lemma window_claims_Cons: "window_claims fp (Suc n) d = (fp mod 128, d) # window_claims (Suc fp) n d"
proof -
  have "[0..<Suc n] = 0 # map Suc [0..<n]" by (simp add: map_Suc_upt upt_conv_Cons)
  then show ?thesis by (simp add: window_claims_def)
qed

lemma st_at_fold_ctx:
  assumes "length (desc_ctxs s) = 128" "n \<le> 128" "j < 128" "\<forall>j c. c_state (f j c) = d"
  shows "st_at (fold_ctx fp f n s) (fp + j) = (if j < n then d else st_at s (fp + j))"
  using nth_fold_ctx [OF assms(1-3), of fp f] assms(4) by (simp add: st_at_def)

lemma owns_acquire_window:
  assumes len: "length (desc_ctxs s) = 128" and L: "owns L s" and n: "n \<le> 128"
    and old: "\<forall>j < n. \<not> busy (st_at s (fp + j))" and new: "\<forall>j c. c_state (f j c) = d" "busy d"
  shows "owns (window_claims fp n d @ L) (fold_ctx fp f n s)"
  using n old
proof (induction n)
  case (Suc n)
  then have IH: "owns (window_claims fp n d @ L) (fold_ctx fp f n s)" by simp
  have "\<not> busy (st_at (fold_ctx fp f n s) (fp + n))"
    using st_at_fold_ctx [OF len, of n n f d fp] Suc.prems new by simp
  then have "owns (((fp + n) mod 128, d) # window_claims fp n d @ L) (fold_ctx fp f (Suc n) s)"
    unfolding fold_ctx_Suc using len new IH by (intro owns_acquire) auto
  then show ?case by (rule owns_mset [rotated]) (simp add: window_claims_Suc)
qed (use L in \<open>simp add: window_claims_def\<close>)

lemma owns_release_window:
  assumes "length (desc_ctxs s) = 128" "owns (window_claims fp n d @ L) s" "\<forall>j c. \<not> busy (c_state (f j c))"
  shows "owns L (fold_ctx fp f n s)"
  using assms(2)
proof (induction n arbitrary: L)
  case (Suc n)
  then have "owns (((fp + n) mod 128, d) # L) (fold_ctx fp f n s)"
    by (simp add: window_claims_Suc)
  then show ?case
    unfolding fold_ctx_Suc
    using owns_release [of "(fp + n) mod 128" d L "fold_ctx fp f n s" "f n"] assms(1,3) by simp
qed (simp add: window_claims_def)

lemma owns_window_le: "owns (window_claims fp n d @ L) s \<Longrightarrow> n \<le> 128"
proof -
  assume o: "owns (window_claims fp n d @ L) s"
  then have "distinct (map fst (window_claims fp n d))" by (simp add: owns_def)
  moreover have "set (map fst (window_claims fp n d)) \<subseteq> {..<128}" by (auto simp: window_claims_def)
  ultimately have "length (map fst (window_claims fp n d)) \<le> card {..<128 :: nat}"
    by (metis card_mono distinct_card finite_lessThan)
  then show ?thesis by (simp add: window_claims_def)
qed

lemma owns_window_st: "owns (window_claims fp n d @ L) s \<Longrightarrow> j < n \<Longrightarrow> st_at s (fp + j) = d"
  using ownsD [of "window_claims fp n d @ L" s "(fp + j) mod 128" d] by (auto simp: window_claims_def)

section \<open>The ring\<close>

text \<open>
  The active contexts are the \<open>active_cnt\<close> ones from \<open>active_first_pos\<close> on; they
  stand for consecutive ring indices, and all others are empty.
\<close>

definition ring_ok :: "'a queue_base_scheme \<Rightarrow> bool" where
  "ring_ok s \<longleftrightarrow> length (desc_ctxs s) = 128 \<and> active_first_pos s < 128 \<and> active_cnt s \<le> 128 \<and>
     0 < q_len s \<and> q_len s \<le> 2 ^ 14 \<and> active_first_idx s < q_len s \<and> reg_tail s < 2 ^ 32 \<and>
     (\<forall>k < active_cnt s. st_at s (active_first_pos s + k) \<noteq> DESC_EMPTY \<and>
       c_index (desc_ctxs s ! ((active_first_pos s + k) mod 128)) = (active_first_idx s + k) mod q_len s) \<and>
     (\<forall>k. active_cnt s \<le> k \<and> k < 128 \<longrightarrow> st_at s (active_first_pos s + k) = DESC_EMPTY)"

lemma ring_okD:
  assumes "ring_ok s"
  shows "length (desc_ctxs s) = 128" "active_first_pos s < 128" "active_cnt s \<le> 128" "0 < q_len s" "q_len s \<le> 16384"
    "active_first_idx s < q_len s" "reg_tail s < 2 ^ 32"
  using assms by (auto simp: ring_ok_def)

lemma ring_ok_upd:
  assumes r: "ring_ok s" and old: "st_at s p \<noteq> DESC_EMPTY"
    and new: "c_state (f (desc_ctxs s ! (p mod 128))) \<noteq> DESC_EMPTY" "c_index (f (desc_ctxs s ! (p mod 128))) = c_index (desc_ctxs s ! (p mod 128))"
  shows "ring_ok (upd_ctx p f s)"
proof -
  note len = ring_okD(1) [OF r]
  have f: "same_frame s (upd_ctx p f s)" by (simp add: same_frame_upd_ctx same_frame_refl)
  have i: "c_index (desc_ctxs (upd_ctx p f s) ! (q mod 128)) = c_index (desc_ctxs s ! (q mod 128))" for q
    using len new(2) by (cases "q mod 128 = p mod 128") simp_all
  have "st_at (upd_ctx p f s) q = DESC_EMPTY \<longleftrightarrow> st_at s q = DESC_EMPTY" for q
    using len old new(1) by (metis st_at_mod st_at_upd_ctx)
  then show ?thesis using r i unfolding ring_ok_def same_frameD [OF f] by simp
qed

definition stable :: "'a queue_base_scheme \<Rightarrow> 'a queue_base_scheme \<Rightarrow> bool" where
  "stable s s' \<longleftrightarrow> q_enabled s' = q_enabled s \<and> q_len s' = q_len s \<and> reg_tail s' = reg_tail s \<and>
     desc_len s' = desc_len s \<and> q_base s' = q_base s \<and> q_vfu s' = q_vfu s"

text \<open>A step of the queue: the configuration stays, and the work does not grow.\<close>

definition prog :: "'a queue_base_scheme \<Rightarrow> 'a queue_base_scheme \<Rightarrow> bool" where
  "prog s s' \<longleftrightarrow> stable s s' \<and> work s' \<le> work s"

lemma prog_refl [simp]: "prog s s"
  by (simp add: prog_def stable_def)

lemma prog_trans: "prog s s' \<Longrightarrow> prog s' s'' \<Longrightarrow> prog s s''"
  by (auto simp: prog_def stable_def)

lemma same_frame_stable: "same_frame s s' \<Longrightarrow> stable s s'"
  by (simp add: stable_def same_frameD)

lemma same_frame_avail: "same_frame s s' \<Longrightarrow> true_avail s' = true_avail s"
  by (simp add: true_avail_def next_idx_def same_frameD)

lemma upd_ctx_prog:
  assumes "length (desc_ctxs s) = 128" "weight (c_state (f (desc_ctxs s ! (p mod 128)))) \<le> weight (st_at s p)"
  shows "prog s (upd_ctx p f s)"
    and "work (upd_ctx p f s) + weight (st_at s p) = work s + weight (c_state (f (desc_ctxs s ! (p mod 128))))"
proof -
  have f: "same_frame s (upd_ctx p f s)" by (simp add: same_frame_upd_ctx same_frame_refl)
  show w: "work (upd_ctx p f s) + weight (st_at s p) = work s + weight (c_state (f (desc_ctxs s ! (p mod 128))))"
    using wsum_upd_ctx [of p s f] assms(1) by (simp add: work_def same_frame_avail [OF f])
  then show "prog s (upd_ctx p f s)" using assms(2) same_frame_stable [OF f] by (simp add: prog_def)
qed

section \<open>Fetching\<close>

lemma next_idx_eq: "ring_ok s \<Longrightarrow> next_idx s = (active_first_idx s + active_cnt s) mod q_len s"
  using ring_okD [of s] by (simp add: next_idx_def)

lemma sub32_wrap: "a < b \<Longrightarrow> b < 2 ^ 32 \<Longrightarrow> sub32 a b = a + (2 ^ 32 - b)"
  by (simp add: sub32_def)

lemma mod_sub_eq:
  fixes t n l :: nat
  assumes "n < l" "n \<le> t"
  shows "(t mod l + (l - n)) mod l = (t - n) mod l"
proof -
  have "(t mod l + (l - n)) mod l = (t + (l - n)) mod l" by (rule mod_add_left_eq)
  also have "t + (l - n) = (t - n) + l" using assms by simp
  finally show ?thesis by simp
qed

text \<open>
  The number of descriptors fetched fits the free contexts and the end of the
  ring, and never passes the tail, whatever the driver writes there and whether
  or not the ring size is a power of two.
\<close>

lemma fetch_cnt_bounds:
  assumes "ring_ok s"
  shows "fetch_cnt s \<le> 128 - active_cnt s" "next_idx s + fetch_cnt s \<le> q_len s" "fetch_cnt s \<le> true_avail s"
proof -
  note d = ring_okD [OF assms]
  have n: "next_idx s < q_len s" using d(4) by (simp add: next_idx_def)
  define a where "a = sub32 (reg_tail s) (next_idx s) mod q_len s"
  define c where "c = min a (128 - active_cnt s)"
  have a: "a < q_len s" using d(4) by (simp add: a_def)
  have e: "fetch_cnt s = (if next_idx s + c > q_len s then q_len s - next_idx s else c)"
    using d(3,5) a n
    by (simp add: fetch_cnt_def Let_def max_active_capacity_def max_fetch_capacity_def a_def [symmetric] c_def min_def)
  show "fetch_cnt s \<le> 128 - active_cnt s" "next_idx s + fetch_cnt s \<le> q_len s"
    using n by (auto simp: e c_def)
  show "fetch_cnt s \<le> true_avail s"
  proof (cases "next_idx s \<le> reg_tail s")
    case True
    then have "true_avail s = a" unfolding true_avail_def a_def using d(7) mod_sub_eq [OF n True] by simp
    then show ?thesis using n by (auto simp: e c_def)
  next
    case False
    then have "true_avail s = reg_tail s + (q_len s - next_idx s)" using n by (simp add: true_avail_def)
    then show ?thesis using \<open>next_idx s + fetch_cnt s \<le> q_len s\<close> by linarith
  qed
qed

text \<open>Fetching moves the next index towards the tail.\<close>

lemma avail_advance:
  fixes t n l c :: nat
  assumes "t < l" "n < l" "n + c \<le> l" "c \<le> (t + (l - n)) mod l"
  shows "(t + (l - (n + c) mod l)) mod l + c = (t + (l - n)) mod l"
proof (cases "n \<le> t")
  case True
  have e: "t + (l - n) = (t - n) + l" using True assms(2) by simp
  then have a: "(t + (l - n)) mod l = t - n" unfolding e using assms(1) by (metis less_imp_diff_less mod_add_self2 mod_less)
  then have c: "c \<le> t - n" "n + c < l" using assms True by linarith+
  then have "t + (l - (n + c)) = (t - n - c) + l" using True by simp
  then have "(t + (l - (n + c))) mod l = (t - n - c + l) mod l" by (simp only:)
  also have "\<dots> = t - n - c" using assms(1) by (metis less_imp_diff_less mod_add_self2 mod_less)
  finally show ?thesis using a c by simp
next
  case False
  then have a: "(t + (l - n)) mod l = t + (l - n)" using assms(2) by simp
  show ?thesis
  proof (cases "n + c = l")
    case True
    then show ?thesis using a assms(1) False by simp
  next
    case nl: False
    then have "(n + c) mod l = n + c" "t + (l - (n + c)) < l" using assms(3) False by simp_all
    then show ?thesis using a assms(3) by simp
  qed
qed

section \<open>The invariant of a queue class\<close>

text \<open>
  A class derived from \<open>queue_base\<close> is described by the contexts its own state
  holds (\<open>held\<close>), what a context satisfies once it is prepared (\<open>cinv\<close>), an
  invariant of its own state (\<open>sub\<close>) and the descriptor size (\<open>dl\<close>).  The list
  \<open>L\<close> names the contexts held by operations in flight and by running loops.
\<close>

definition ctx_ok :: "(desc_ctx \<Rightarrow> bool) \<Rightarrow> nat \<Rightarrow> 'a queue_base_scheme \<Rightarrow> bool" where
  "ctx_ok cinv dl s \<longleftrightarrow> (\<forall>p < 128.
     (st_at s p \<in> {DESC_PREPARED, DESC_PROCESSING} \<longrightarrow> cinv (desc_ctxs s ! p)) \<and>
     (st_at s p \<notin> {DESC_EMPTY, DESC_FETCHING} \<longrightarrow> length (c_desc (desc_ctxs s ! p)) = dl))"

definition queue_inv :: "('a \<Rightarrow> (nat \<times> desc_state) list) \<Rightarrow> (desc_ctx \<Rightarrow> bool) \<Rightarrow> ('a \<Rightarrow> bool) \<Rightarrow> nat \<Rightarrow>
    (nat \<times> desc_state) list \<Rightarrow> 'a queue_base_scheme \<Rightarrow> bool" where
  "queue_inv held cinv sub dl L s \<longleftrightarrow> q_enabled s \<and> ring_ok s \<and> desc_len s = dl \<and>
     owns (L @ held (queue_base.more s)) s \<and> ctx_ok cinv dl s \<and> sub (queue_base.more s)"

fun claims :: "nat \<Rightarrow> dma_op \<Rightarrow> (nat \<times> desc_state) list" where
  "claims dl (dma_fetch pos _ n) = window_claims pos (n div dl) DESC_FETCHING"
| "claims dl (dma_wb pos _ d) = window_claims pos (length d div dl) DESC_WRITING_BACK"
| "claims dl (dma_data_fetch p _ _ _ _) = [(p, DESC_PREPARING)]"
| "claims dl (dma_data_wb p _ _) = [(p, DESC_PROCESSING)]"
| "claims dl (dma_hwb pos cnt _ _) = window_claims pos cnt DESC_WRITING_BACK"

fun op_ok :: "(desc_ctx \<Rightarrow> bool) \<Rightarrow> nat \<Rightarrow> dma_op \<Rightarrow> 'a queue_base_scheme \<Rightarrow> bool" where
  "op_ok cinv dl (dma_fetch _ _ n) s = (n mod dl = 0)"
| "op_ok cinv dl (dma_data_fetch p _ n tot part) s \<longleftrightarrow> p < 128 \<and> cinv (desc_ctxs s ! p) \<and> part \<le> tot \<and>
     n = min (tot - part) MAX_DMA_SIZE \<and> tot \<le> length (c_data (desc_ctxs s ! p)) \<and> tot < 65536"
| "op_ok cinv dl _ s = True"

text \<open>A data fetch is issued once per part.\<close>

fun op_cost :: "dma_op \<Rightarrow> nat" where
  "op_cost (dma_data_fetch _ _ _ tot part) = (tot - part + 9023) div 9024"
| "op_cost _ = 0"

text \<open>
  What the derived class wants to know about a step (\<open>rel\<close>), and what an issuer
  promises for states with less than \<open>n\<close> work left.  A write of packet data is
  logged before anything else happens.
\<close>

definition qstep :: "('a queue_base_scheme \<Rightarrow> 'a queue_base_scheme \<Rightarrow> bool) \<Rightarrow> 'a queue_base_scheme \<Rightarrow> 'a queue_base_scheme \<Rightarrow> bool" where
  "qstep rel s s' \<longleftrightarrow> prog s s' \<and> rel s s'"

fun log_op :: "dma_op \<Rightarrow> 'a queue_base_scheme \<Rightarrow> 'a queue_base_scheme" where
  "log_op (dma_data_wb _ a d) s = s\<lparr>q_events := q_events s @ [Ev_data a d]\<rparr>"
| "log_op _ s = s"

definition issue_law :: "('a \<Rightarrow> (nat \<times> desc_state) list) \<Rightarrow> (desc_ctx \<Rightarrow> bool) \<Rightarrow> ('a \<Rightarrow> bool) \<Rightarrow> nat \<Rightarrow>
    ('a queue_base_scheme \<Rightarrow> 'a queue_base_scheme \<Rightarrow> bool) \<Rightarrow>
    (dma_op \<Rightarrow> 'a queue_base_scheme \<Rightarrow> 'a queue_base_scheme res) \<Rightarrow> nat \<Rightarrow> bool" where
  "issue_law held cinv sub dl rel iss n \<longleftrightarrow> (\<forall>L op s. queue_inv held cinv sub dl (claims dl op @ L) s \<longrightarrow>
     op_ok cinv dl op s \<longrightarrow> work s + op_cost op < n \<longrightarrow>
     safe (iss op s) (\<lambda>s'. queue_inv held cinv sub dl L s' \<and> qstep rel (log_op op s) s'))"

text \<open>One context changes its state.\<close>

lemma ctx_ok_upd:
  assumes "ctx_ok cinv dl s" "length (desc_ctxs s) = 128"
    and "c_state (f (desc_ctxs s ! (p mod 128))) \<in> {DESC_PREPARED, DESC_PROCESSING} \<longrightarrow> cinv (f (desc_ctxs s ! (p mod 128)))"
    and "c_state (f (desc_ctxs s ! (p mod 128))) \<notin> {DESC_EMPTY, DESC_FETCHING} \<longrightarrow> length (c_desc (f (desc_ctxs s ! (p mod 128)))) = dl"
  shows "ctx_ok cinv dl (upd_ctx p f s)"
  unfolding ctx_ok_def
proof (intro allI impI)
  fix q :: nat assume q: "q < 128"
  show "(st_at (upd_ctx p f s) q \<in> {DESC_PREPARED, DESC_PROCESSING} \<longrightarrow> cinv (desc_ctxs (upd_ctx p f s) ! q)) \<and>
    (st_at (upd_ctx p f s) q \<notin> {DESC_EMPTY, DESC_FETCHING} \<longrightarrow> length (c_desc (desc_ctxs (upd_ctx p f s) ! q)) = dl)"
  proof (cases "q = p mod 128")
    case True
    then show ?thesis using assms(2-4) by (simp add: st_at_upd_ctx)
  next
    case False
    then show ?thesis using assms(1,2) q by (simp add: st_at_upd_ctx ctx_ok_def)
  qed
qed

lemma queue_inv_release:
  assumes "queue_inv held cinv sub dl ((p, d) # L) s"
    and "d' = c_state (f (desc_ctxs s ! p))" "\<not> busy d'" "d' \<noteq> DESC_EMPTY" "weight d' \<le> weight d"
    and "c_index (f (desc_ctxs s ! p)) = c_index (desc_ctxs s ! p)" "length (c_desc (f (desc_ctxs s ! p))) = dl"
    and "d' = DESC_PREPARED \<longrightarrow> cinv (f (desc_ctxs s ! p))"
  shows "queue_inv held cinv sub dl L (upd_ctx p f s)" "prog s (upd_ctx p f s)"
    "work (upd_ctx p f s) + weight d = work s + weight d'"
proof -
  have i: "ring_ok s" "owns ((p, d) # L @ held (queue_base.more s)) s" "ctx_ok cinv dl s"
    using assms(1) by (auto simp: queue_inv_def)
  note len = ring_okD(1) [OF i(1)]
  have p: "p < 128" "st_at s p = d" "busy d" using ownsD [OF i(2), of p d] by auto
  have f: "same_frame s (upd_ctx p f s)" by (simp add: same_frame_upd_ctx same_frame_refl)
  have "ring_ok (upd_ctx p f s)" using assms p by (intro ring_ok_upd [OF i(1)]) auto
  moreover have "owns (L @ held (queue_base.more s)) (upd_ctx p f s)"
    using assms p len by (intro owns_release [OF i(2)]) auto
  moreover have "ctx_ok cinv dl (upd_ctx p f s)" using assms p len by (intro ctx_ok_upd [OF i(3)]) auto
  ultimately show "queue_inv held cinv sub dl L (upd_ctx p f s)"
    using assms(1) unfolding queue_inv_def same_frameD [OF f] by simp
  show "prog s (upd_ctx p f s)" "work (upd_ctx p f s) + weight d = work s + weight d'"
    using upd_ctx_prog [OF len, of f p] assms p by auto
qed

lemma queue_inv_change:
  assumes "queue_inv held cinv sub dl ((p, d) # L) s"
    and "d' = c_state (f (desc_ctxs s ! p))" "busy d'" "weight d' \<le> weight d"
    and "c_index (f (desc_ctxs s ! p)) = c_index (desc_ctxs s ! p)"
    and "d' \<noteq> DESC_FETCHING \<longrightarrow> length (c_desc (f (desc_ctxs s ! p))) = dl"
    and "d' = DESC_PROCESSING \<longrightarrow> cinv (f (desc_ctxs s ! p))"
  shows "queue_inv held cinv sub dl ((p, d') # L) (upd_ctx p f s)" "prog s (upd_ctx p f s)"
    "work (upd_ctx p f s) + weight d = work s + weight d'"
proof -
  have i: "ring_ok s" "owns ((p, d) # L @ held (queue_base.more s)) s" "ctx_ok cinv dl s"
    using assms(1) by (auto simp: queue_inv_def)
  note len = ring_okD(1) [OF i(1)]
  have p: "p < 128" "st_at s p = d" "busy d" using ownsD [OF i(2), of p d] by auto
  have f: "same_frame s (upd_ctx p f s)" by (simp add: same_frame_upd_ctx same_frame_refl)
  have ne: "d \<noteq> DESC_EMPTY" "d' \<noteq> DESC_EMPTY" using p(3) assms(3) by auto
  have "ring_ok (upd_ctx p f s)" using assms p ne by (intro ring_ok_upd [OF i(1)]) auto
  moreover have "owns ((p, d') # L @ held (queue_base.more s)) (upd_ctx p f s)"
    using assms p len by (intro owns_change [OF i(2)]) auto
  moreover have "d' \<noteq> DESC_PREPARED" using assms(3) by auto
  then have "ctx_ok cinv dl (upd_ctx p f s)" using assms p len by (intro ctx_ok_upd [OF i(3)]) auto
  ultimately show "queue_inv held cinv sub dl ((p, d') # L) (upd_ctx p f s)"
    using assms(1) unfolding queue_inv_def same_frameD [OF f] by simp
  show "prog s (upd_ctx p f s)" "work (upd_ctx p f s) + weight d = work s + weight d'"
    using upd_ctx_prog [OF len, of f p] assms p by auto
qed

section \<open>Batches\<close>

lemma count_while_props:
  "count_while P s \<le> active_cnt s" "i < count_while P s \<Longrightarrow> P (st_at s (active_first_pos s + i))"
proof -
  let ?Q = "\<lambda>i. P (st_at s (active_first_pos s + i))"
  show "count_while P s \<le> active_cnt s"
    unfolding count_while_def using length_takeWhile_le [of ?Q "[0..<active_cnt s]"] by simp
  assume i: "i < count_while P s"
  then have "takeWhile ?Q [0..<active_cnt s] ! i \<in> set (takeWhile ?Q [0..<active_cnt s])"
    unfolding count_while_def by simp
  moreover have "takeWhile ?Q [0..<active_cnt s] ! i = i"
    using i length_takeWhile_le [of ?Q "[0..<active_cnt s]"] unfolding count_while_def
    by (simp add: takeWhile_nth)
  ultimately show "P (st_at s (active_first_pos s + i))" using set_takeWhileD by fastforce
qed

text \<open>Loops whose assertions hold are plain updates of a window.\<close>

lemma rfold_window:
  assumes "length (desc_ctxs s) = 128" "n \<le> 128" "\<forall>j < n. st_at s (fp + j) = d"
    and "\<And>i s'. i < n \<Longrightarrow> same_frame s s' \<Longrightarrow> st_at s' (fp + i) = d \<Longrightarrow> g i s' = Ok (upd_ctx (fp + i) (f i) s')"
  shows "rfold g [0..<n] s = Ok (fold_ctx fp f n s)"
proof -
  have "m \<le> n \<Longrightarrow> rfold g [m..<n] (fold_ctx fp f m s) = Ok (fold_ctx fp f n s)" for m
  proof (induction "n - m" arbitrary: m)
    case (Suc k)
    then have m: "m < n" by simp
    have "st_at (fold_ctx fp f m s) (fp + m) = d"
      using nth_fold_ctx [OF assms(1), of m m fp f] assms(2,3) m by (simp add: st_at_def)
    then have "g m (fold_ctx fp f m s) = Ok (fold_ctx fp f (Suc m) s)"
      using assms(4) [OF m fold_ctx_frame] by (simp add: fold_ctx_Suc)
    then show ?case using Suc.hyps(1) [of "Suc m"] Suc.hyps(2) m by (simp add: upt_conv_Cons)
  qed simp
  from this [of 0] show ?thesis by simp
qed

lemma fold_set_state: "fold (\<lambda>i. set_state (fp + i) d) [0..<n] s = fold_ctx fp (\<lambda>i c. c\<lparr>c_state := d\<rparr>) n s"
  by (simp add: fold_ctx_def set_state_def)

lemma ctx_ok_fold:
  assumes "ctx_ok cinv dl s" "length (desc_ctxs s) = 128" "n \<le> 128"
    and "\<And>j c. c_state (f j c) = d" "d \<notin> {DESC_PREPARED, DESC_PROCESSING}"
    and "d \<notin> {DESC_EMPTY, DESC_FETCHING} \<Longrightarrow> \<forall>j < n. length (c_desc (f j (desc_ctxs s ! ((fp + j) mod 128)))) = dl"
  shows "ctx_ok cinv dl (fold_ctx fp f n s)"
  unfolding ctx_ok_def
proof (intro allI impI)
  fix q :: nat assume "q < 128"
  then obtain j where j: "j < 128" "q = (fp + j) mod 128" by (rule pos_window)
  have n: "desc_ctxs (fold_ctx fp f n s) ! q = (if j < n then f j (desc_ctxs s ! q) else desc_ctxs s ! q)"
    using nth_fold_ctx [OF assms(2,3) j(1), of fp f] j(2) by simp
  have st: "st_at (fold_ctx fp f n s) q = (if j < n then d else st_at s q)"
    using n assms(4) j(2) by (simp add: st_at_def)
  show "(st_at (fold_ctx fp f n s) q \<in> {DESC_PREPARED, DESC_PROCESSING} \<longrightarrow> cinv (desc_ctxs (fold_ctx fp f n s) ! q)) \<and>
    (st_at (fold_ctx fp f n s) q \<notin> {DESC_EMPTY, DESC_FETCHING} \<longrightarrow> length (c_desc (desc_ctxs (fold_ctx fp f n s) ! q)) = dl)"
    unfolding n st using assms(1,5,6) \<open>q < 128\<close> j(2) by (auto simp: ctx_ok_def)
qed

lemma ctx_ok_desc:
  "ctx_ok cinv dl s \<Longrightarrow> st_at s q \<noteq> DESC_EMPTY \<Longrightarrow> st_at s q \<noteq> DESC_FETCHING \<Longrightarrow> length (c_desc (desc_ctxs s ! (q mod 128))) = dl"
  unfolding ctx_ok_def using st_at_mod [of s q] by auto

lemma ring_ok_fold:
  assumes "ring_ok s" "n \<le> 128" "\<forall>j < n. st_at s (fp + j) \<noteq> DESC_EMPTY"
    and "\<And>j c. c_state (f j c) \<noteq> DESC_EMPTY" "\<And>j c. c_index (f j c) = c_index c"
  shows "ring_ok (fold_ctx fp f n s)"
  using assms(2,3)
proof (induction n)
  case (Suc n)
  have "st_at (fold_ctx fp f n s) (fp + n) \<noteq> DESC_EMPTY"
    using nth_fold_ctx [OF ring_okD(1) [OF assms(1)], of n n fp f] Suc.prems by (simp add: st_at_def)
  then show ?case using Suc assms(4,5) by (simp add: fold_ctx_Suc ring_ok_upd)
qed (use assms(1) in simp)

text \<open>Starting a fetch.\<close>

lemma fetch_empty:
  assumes inv: "queue_inv held cinv sub dl L s" and fp: "fp = (active_first_pos s + active_cnt s) mod 128" and "j < fetch_cnt s"
  shows "st_at s (fp + j) = DESC_EMPTY"
proof -
  have r: "ring_ok s" using inv by (simp add: queue_inv_def)
  have "st_at s (active_first_pos s + (active_cnt s + j)) = DESC_EMPTY"
    using r fetch_cnt_bounds(1) [OF r] assms(3) unfolding ring_ok_def by auto
  moreover have "(fp + j) mod 128 = (active_first_pos s + (active_cnt s + j)) mod 128"
    unfolding fp by (simp add: mod_simps add.assoc)
  ultimately show ?thesis by (metis st_at_mod)
qed

lemma fetch_step:
  assumes inv: "queue_inv held cinv sub dl L s" and c: "cnt = fetch_cnt s" "0 < cnt"
    and fp: "fp = (active_first_pos s + active_cnt s) mod 128"
  defines "s1 \<equiv> fold_ctx fp (\<lambda>i c. c\<lparr>c_state := DESC_FETCHING, c_index := add32 (next_idx s) i mod q_len s\<rparr>) cnt s"
  defines "s2 \<equiv> s1\<lparr>active_cnt := add32 (active_cnt s1) cnt\<rparr>"
  shows "rfold (mark_fetching fp (next_idx s)) [0..<cnt] s = Ok s1"
    and "queue_inv held cinv sub dl (window_claims fp cnt DESC_FETCHING @ L) s2" and "stable s s2" and "work s2 + cnt = work s"
proof -
  let ?f = "\<lambda>i c. c\<lparr>c_state := DESC_FETCHING, c_index := add32 (next_idx s) i mod q_len s\<rparr> :: desc_ctx"
  have i: "ring_ok s" "owns (L @ held (queue_base.more s)) s" "ctx_ok cinv dl s" "q_enabled s" "desc_len s = dl"
    using inv by (auto simp: queue_inv_def)
  note d = ring_okD [OF i(1)]
  have b: "cnt \<le> 128 - active_cnt s" "next_idx s + cnt \<le> q_len s" "cnt \<le> true_avail s"
    using fetch_cnt_bounds [OF i(1)] c by simp_all
  then have n: "cnt \<le> 128" by simp
  have pos: "(fp + j) mod 128 = (active_first_pos s + (active_cnt s + j)) mod 128" for j
    unfolding fp by (simp add: mod_simps add.assoc)
  have old: "\<forall>j < cnt. st_at s (fp + j) = DESC_EMPTY" using fetch_empty [OF inv fp] c(1) by blast
  show "rfold (mark_fetching fp (next_idx s)) [0..<cnt] s = Ok s1"
    unfolding s1_def by (rule rfold_window [OF d(1) n old]) (simp add: mark_fetching_def assertR_def same_frameD)
  have f: "same_frame s s1" unfolding s1_def by (rule fold_ctx_frame)
  note fr = same_frameD [OF f]
  have a2: "active_cnt s2 = active_cnt s + cnt" unfolding s2_def using fr d(3) n by simp
  have st2: "st_at s2 q = st_at s1 q" for q by (simp add: s2_def st_at_def)
  have "owns (window_claims fp cnt DESC_FETCHING @ L @ held (queue_base.more s)) s1"
    unfolding s1_def using old by (intro owns_acquire_window [OF d(1) i(2) n]) auto
  then have o2: "owns (window_claims fp cnt DESC_FETCHING @ L @ held (queue_base.more s)) s2"
    by (rule owns_cong [rotated]) (simp add: st2)
  have "ctx_ok cinv dl s1" unfolding s1_def using n by (intro ctx_ok_fold [OF i(3) d(1), where d = DESC_FETCHING]) auto
  then have c2: "ctx_ok cinv dl s2" unfolding ctx_ok_def st2 by (simp add: s2_def)
  have nth: "desc_ctxs s2 ! ((fp + j) mod 128) = (if j < cnt then ?f j (desc_ctxs s ! ((fp + j) mod 128)) else desc_ctxs s ! ((fp + j) mod 128))"
    if "j < 128" for j using nth_fold_ctx [OF d(1) n that, of fp ?f] by (simp add: s2_def s1_def)
  have nx: "next_idx s = (active_first_idx s + active_cnt s) mod q_len s" by (rule next_idx_eq [OF i(1)])
  have nthk: "desc_ctxs s2 ! ((active_first_pos s + k) mod 128) =
      (if active_cnt s \<le> k \<and> k < active_cnt s + cnt then ?f (k - active_cnt s) (desc_ctxs s ! ((active_first_pos s + k) mod 128))
       else desc_ctxs s ! ((active_first_pos s + k) mod 128))" if k: "k < 128" for k
  proof (cases "active_cnt s \<le> k")
    case True
    then have "(fp + (k - active_cnt s)) mod 128 = (active_first_pos s + k) mod 128" unfolding pos using True by simp
    then show ?thesis using nth [of "k - active_cnt s"] True k by auto
  next
    case False
    let ?j = "128 - active_cnt s + k"
    have "active_first_pos s + (active_cnt s + ?j) = active_first_pos s + k + 128" using d(3) by simp
    then have "(fp + ?j) mod 128 = (active_first_pos s + k) mod 128" unfolding pos by (simp only: mod_add_self2)
    then show ?thesis using nth [of ?j] False k b(1) by auto
  qed
  have ix: "add32 (next_idx s) j mod q_len s = (active_first_idx s + (active_cnt s + j)) mod q_len s" if "j < cnt" for j
  proof -
    have "add32 (next_idx s) j = next_idx s + j" using that b(2) d(5) by simp
    then show ?thesis unfolding nx by (simp add: mod_add_left_eq add.assoc)
  qed
  have r2: "ring_ok s2"
    unfolding ring_ok_def
  proof (intro conjI allI impI)
    show "length (desc_ctxs s2) = 128" using d(1) by (simp add: s2_def s1_def)
    show "active_first_pos s2 < 128" "active_cnt s2 \<le> 128" "0 < q_len s2" "q_len s2 \<le> 2 ^ 14" "active_first_idx s2 < q_len s2"
      "reg_tail s2 < 2 ^ 32" using d fr b(1) a2 by (simp_all add: s2_def)
  next
    fix k assume k: "k < active_cnt s2"
    then have lt: "k < 128" "k < active_cnt s + cnt" using a2 b(1) d(3) by simp_all
    show "st_at s2 (active_first_pos s2 + k) \<noteq> DESC_EMPTY"
      using nthk [OF lt(1)] lt(2) i(1) fr by (auto simp: st_at_def ring_ok_def s2_def)
    show "c_index (desc_ctxs s2 ! ((active_first_pos s2 + k) mod 128)) = (active_first_idx s2 + k) mod q_len s2"
      using nthk [OF lt(1)] lt(2) i(1) fr ix [of "k - active_cnt s"] by (auto simp: ring_ok_def s2_def)
  next
    fix k assume "active_cnt s2 \<le> k \<and> k < 128"
    then show "st_at s2 (active_first_pos s2 + k) = DESC_EMPTY"
      using nthk [of k] i(1) fr a2 by (auto simp: st_at_def ring_ok_def s2_def)
  qed
  then show "queue_inv held cinv sub dl (window_claims fp cnt DESC_FETCHING @ L) s2"
    using o2 c2 inv fr by (simp add: queue_inv_def s2_def)
  show "stable s s2" using same_frame_stable [OF f] by (simp add: s2_def stable_def)
  have "next_idx s2 = (next_idx s + cnt) mod q_len s"
    using next_idx_eq [OF r2] fr a2 by (simp add: nx mod_add_left_eq s2_def add.assoc)
  then have "true_avail s2 + cnt = true_avail s"
    using avail_advance [of "reg_tail s mod q_len s" "q_len s" "next_idx s" cnt] b d(4) fr
    by (simp add: true_avail_def s2_def nx)
  moreover have "wsum s2 = wsum s1" by (simp add: wsum_def s2_def)
  moreover have "wsum s1 = wsum s + cnt * 19" unfolding s1_def using wsum_fold_ctx [OF d(1) n old, of ?f DESC_FETCHING] by simp
  ultimately show "work s2 + cnt = work s" by (simp add: work_def)
qed

text \<open>Starting a write-back: processed contexts from the first active one on.\<close>

lemma writeback_step:
  assumes inv: "queue_inv held cinv sub dl L s" and n: "n \<le> active_cnt s"
    and old: "\<forall>j < n. st_at s (active_first_pos s + j) = DESC_PROCESSED"
  defines "s1 \<equiv> fold_ctx (active_first_pos s) (\<lambda>i c. c\<lparr>c_state := DESC_WRITING_BACK\<rparr>) n s"
  shows "queue_inv held cinv sub dl (window_claims (active_first_pos s) n DESC_WRITING_BACK @ L) s1"
    and "stable s s1" and "work s1 + n = work s"
proof -
  let ?f = "\<lambda>i c. c\<lparr>c_state := DESC_WRITING_BACK\<rparr> :: desc_ctx" and ?fp = "active_first_pos s"
  have i: "ring_ok s" "owns (L @ held (queue_base.more s)) s" "ctx_ok cinv dl s" using inv by (auto simp: queue_inv_def)
  note d = ring_okD [OF i(1)]
  have n128: "n \<le> 128" using n d(3) by simp
  have f: "same_frame s s1" unfolding s1_def by (rule fold_ctx_frame)
  note fr = same_frameD [OF f]
  have o: "owns (window_claims ?fp n DESC_WRITING_BACK @ L @ held (queue_base.more s)) s1"
    unfolding s1_def using old by (intro owns_acquire_window [OF d(1) i(2) n128]) auto
  have len: "\<forall>j < n. length (c_desc (desc_ctxs s ! ((?fp + j) mod 128))) = dl"
    using ctx_ok_desc [OF i(3)] old by simp
  then have c: "ctx_ok cinv dl s1"
    unfolding s1_def by (intro ctx_ok_fold [OF i(3) d(1) n128, where d = DESC_WRITING_BACK]) auto
  have "ring_ok s1" unfolding s1_def using old by (intro ring_ok_fold [OF i(1) n128]) auto
  then show "queue_inv held cinv sub dl (window_claims ?fp n DESC_WRITING_BACK @ L) s1"
    using o c inv fr by (simp add: queue_inv_def)
  show "stable s s1" by (rule same_frame_stable [OF f])
  have "wsum s1 + n * 3 = wsum s + n * 2"
    unfolding s1_def using wsum_fold_ctx [OF d(1) n128 old, of ?f DESC_WRITING_BACK] by simp
  then show "work s1 + n = work s" using same_frame_avail [OF f] by (simp add: work_def)
qed

text \<open>The end of a write-back: the window is marked, and the finished contexts at the front are freed.\<close>

lemma written_step:
  assumes inv: "queue_inv held cinv sub dl (window_claims fp n DESC_WRITING_BACK @ L) s"
  defines "s1 \<equiv> fold_ctx fp (\<lambda>i c. c\<lparr>c_state := DESC_WRITTEN_BACK\<rparr>) n s"
  shows "queue_inv held cinv sub dl L s1" and "prog s s1"
    and "rfold (\<lambda>i s. andThen (assertR (st_at s (fp + i) = DESC_WRITING_BACK) s)
      (\<lambda>s. Ok (set_state (fp + i) DESC_WRITTEN_BACK s))) [0..<n] s = Ok s1"
proof -
  let ?f = "\<lambda>i c. c\<lparr>c_state := DESC_WRITTEN_BACK\<rparr> :: desc_ctx"
  have i: "ring_ok s" "owns (window_claims fp n DESC_WRITING_BACK @ L @ held (queue_base.more s)) s" "ctx_ok cinv dl s"
    using inv by (auto simp: queue_inv_def)
  note d = ring_okD [OF i(1)]
  have n: "n \<le> 128" by (rule owns_window_le [OF i(2)])
  have old: "\<forall>j < n. st_at s (fp + j) = DESC_WRITING_BACK" using owns_window_st [OF i(2)] by blast
  have f: "same_frame s s1" unfolding s1_def by (rule fold_ctx_frame)
  have "ring_ok s1" unfolding s1_def using old by (intro ring_ok_fold [OF i(1) n]) auto
  moreover have "owns (L @ held (queue_base.more s)) s1"
    unfolding s1_def by (rule owns_release_window [OF d(1) i(2)]) simp
  moreover have "ctx_ok cinv dl s1" unfolding s1_def
    using ctx_ok_desc [OF i(3)] old by (intro ctx_ok_fold [OF i(3) d(1) n, where d = DESC_WRITTEN_BACK]) auto
  ultimately show "queue_inv held cinv sub dl L s1"
    using inv unfolding queue_inv_def same_frameD [OF f] by simp
  have "wsum s1 + n * 2 = wsum s + n" unfolding s1_def using wsum_fold_ctx [OF d(1) n old, of ?f DESC_WRITTEN_BACK] by simp
  then show "prog s s1"
    using same_frame_stable [OF f] same_frame_avail [OF f] by (simp add: prog_def work_def)
  show "rfold (\<lambda>i s. andThen (assertR (st_at s (fp + i) = DESC_WRITING_BACK) s)
      (\<lambda>s. Ok (set_state (fp + i) DESC_WRITTEN_BACK s))) [0..<n] s = Ok s1"
    unfolding s1_def by (rule rfold_window [OF d(1) n old]) (simp add: assertR_def set_state_def)
qed

lemma bump_step:
  assumes inv: "queue_inv held cinv sub dl L s" and b: "b \<le> active_cnt s"
    and old: "\<forall>j < b. st_at s (active_first_pos s + j) = DESC_WRITTEN_BACK"
  defines "s1 \<equiv> fold_ctx (active_first_pos s) (\<lambda>i c. c\<lparr>c_state := DESC_EMPTY\<rparr>) b s"
  defines "idx \<equiv> add32 (active_first_idx s) b mod q_len s"
  defines "s2 \<equiv> s1\<lparr>active_first_pos := (active_first_pos s + b) mod 128, active_first_idx := idx,
      active_cnt := sub32 (active_cnt s) b, reg_head := idx\<rparr>"
  shows "queue_inv held cinv sub dl L s2" and "prog s s2"
proof -
  let ?f = "\<lambda>i c. c\<lparr>c_state := DESC_EMPTY\<rparr> :: desc_ctx" and ?fp = "active_first_pos s"
  have i: "ring_ok s" "owns (L @ held (queue_base.more s)) s" "ctx_ok cinv dl s" using inv by (auto simp: queue_inv_def)
  note d = ring_okD [OF i(1)]
  have n: "b \<le> 128" using b d(3) by simp
  have f: "same_frame s s1" unfolding s1_def by (rule fold_ctx_frame)
  note fr = same_frameD [OF f]
  have st2: "st_at s2 q = st_at s1 q" for q by (simp add: s2_def st_at_def)
  have idx: "idx = (active_first_idx s + b) mod q_len s" using d n by (simp add: idx_def)
  have a2: "active_cnt s2 = active_cnt s - b" using b d(3) by (simp add: s2_def)
  have st1: "st_at s1 (?fp + j) = (if j < b then DESC_EMPTY else st_at s (?fp + j))" if "j < 128" for j
    unfolding s1_def using st_at_fold_ctx [OF d(1) n that, of ?f DESC_EMPTY ?fp] by simp
  have "owns (L @ held (queue_base.more s)) s2"
  proof (rule owns_cong_idle [OF _ i(2)])
    fix p :: nat assume "p < 128"
    then obtain j where j: "j < 128" "p = (?fp + j) mod 128" by (rule pos_window)
    then show "st_at s2 p = st_at s p \<or> \<not> busy (st_at s2 p) \<and> \<not> busy (st_at s p)"
      using st1 [OF j(1)] old unfolding st2 by (cases "j < b") simp_all
  qed
  moreover have "ctx_ok cinv dl s1"
    unfolding s1_def by (rule ctx_ok_fold [OF i(3) d(1) n, where d = DESC_EMPTY]) auto
  then have "ctx_ok cinv dl s2" unfolding ctx_ok_def st2 by (simp add: s2_def)
  moreover have nth: "st_at s2 ((?fp + b) mod 128 + k) = (if b + k < 128 then st_at s (?fp + (b + k)) else DESC_EMPTY) \<and>
      (b + k < 128 \<longrightarrow> c_index (desc_ctxs s2 ! (((?fp + b) mod 128 + k) mod 128)) = c_index (desc_ctxs s ! ((?fp + (b + k)) mod 128)))"
    if k: "k < 128" for k
  proof -
    have e: "((?fp + b) mod 128 + k) mod 128 = (?fp + (b + k)) mod 128" by (simp add: mod_add_left_eq add.assoc)
    show ?thesis
    proof (cases "b + k < 128")
      case True
      have "st_at s2 ((?fp + b) mod 128 + k) = st_at s1 (?fp + (b + k))"
        unfolding st2 by (metis e st_at_mod)
      moreover have "desc_ctxs s2 ! ((?fp + (b + k)) mod 128) = desc_ctxs s ! ((?fp + (b + k)) mod 128)"
        using nth_fold_ctx [OF d(1) n True, of ?fp ?f] by (simp add: s2_def s1_def)
      ultimately show ?thesis using st1 [OF True] True e by simp
    next
      case False
      then have j: "b + k - 128 < 128" "b + k - 128 < b" using k n by simp_all
      have "?fp + (b + k) = ?fp + (b + k - 128) + 128" using False by simp
      then have "st_at s2 ((?fp + b) mod 128 + k) = st_at s1 (?fp + (b + k - 128))"
        unfolding st2 by (metis e mod_add_self2 st_at_mod)
      then show ?thesis using st1 [OF j(1)] j(2) False by simp
    qed
  qed
  have "ring_ok s2"
    unfolding ring_ok_def
  proof (intro conjI allI impI)
    show "length (desc_ctxs s2) = 128" using d(1) by (simp add: s2_def s1_def)
    show "active_first_pos s2 < 128" "active_cnt s2 \<le> 128" "0 < q_len s2" "q_len s2 \<le> 2 ^ 14" "active_first_idx s2 < q_len s2"
      "reg_tail s2 < 2 ^ 32" using d fr b a2 by (simp_all add: s2_def idx)
  next
    fix k assume "k < active_cnt s2"
    then have k: "k < 128" "b + k < active_cnt s" "b + k < 128" using a2 d(3) by simp_all
    show "st_at s2 (active_first_pos s2 + k) \<noteq> DESC_EMPTY"
      using nth [OF k(1)] k i(1) by (simp add: s2_def ring_ok_def)
    show "c_index (desc_ctxs s2 ! ((active_first_pos s2 + k) mod 128)) = (active_first_idx s2 + k) mod q_len s2"
      using nth [OF k(1)] k i(1) fr by (simp add: s2_def ring_ok_def idx mod_add_left_eq add.assoc)
  next
    fix k assume "active_cnt s2 \<le> k \<and> k < 128"
    then have k: "active_cnt s \<le> b + k" "k < 128" using a2 by linarith+
    then show "st_at s2 (active_first_pos s2 + k) = DESC_EMPTY"
      using nth [OF k(2)] i(1) by (simp add: s2_def ring_ok_def)
  qed
  ultimately show "queue_inv held cinv sub dl L s2" using inv fr by (simp add: queue_inv_def s2_def)
  have "next_idx s2 = next_idx s"
    using next_idx_eq [OF \<open>ring_ok s2\<close>] next_idx_eq [OF i(1)] b fr a2
    by (simp add: s2_def idx mod_add_left_eq add.assoc)
  then have "true_avail s2 = true_avail s" using fr by (simp add: true_avail_def s2_def)
  moreover have "wsum s2 + b = wsum s"
    using wsum_fold_ctx [OF d(1) n old, of ?f DESC_EMPTY] by (simp add: s2_def s1_def wsum_def)
  ultimately show "prog s s2" using fr by (simp add: prog_def work_def stable_def s2_def)
qed

end
