(* ===== verification/E810_Queue_Class.thy ===== *)
theory E810_Queue_Class
  imports E810_Queue_Inv
begin

text \<open>
  The interface between \<open>queue_base\<close> and the classes derived from it, as a locale:
  what their virtual functions promise, and what follows for every queue: no
  operation violates an assertion, and processing ends, however deep the
  synchronous DMA completions nest.
\<close>

section \<open>Contexts of the derived class are left alone\<close>

definition data_events :: "'a queue_base_scheme \<Rightarrow> event list" where
  "data_events s = filter (\<lambda>e. \<exists>a d. e = Ev_data a d) (q_events s)"

text \<open>
  A step of the base class: the state of the derived class and the contexts it
  holds in processing are the same, and no packet data is written.
\<close>

definition frame_ok :: "('a \<Rightarrow> (nat \<times> desc_state) list) \<Rightarrow> 'a queue_base_scheme \<Rightarrow> 'a queue_base_scheme \<Rightarrow> bool" where
  "frame_ok held s s' \<longleftrightarrow> queue_base.more s' = queue_base.more s \<and> data_events s' = data_events s \<and>
     (\<forall>p. (p, DESC_PROCESSING) \<in> set (held (queue_base.more s)) \<longrightarrow> desc_ctxs s' ! p = desc_ctxs s ! p)"

lemma frame_ok_refl [simp]: "frame_ok held s s"
  by (simp add: frame_ok_def)

lemma frame_ok_upd:
  assumes "owns (L @ held (queue_base.more s)) s" "st_at s p \<noteq> DESC_PROCESSING \<or> (p mod 128, DESC_PROCESSING) \<in> set L"
  shows "frame_ok held s (upd_ctx p f s)"
proof -
  have "q \<noteq> p mod 128" if q: "(q, DESC_PROCESSING) \<in> set (held (queue_base.more s))" for q
  proof
    assume e: "q = p mod 128"
    then have "st_at s p = DESC_PROCESSING" using ownsD [OF assms(1), of q DESC_PROCESSING] q by simp
    then have "(q, DESC_PROCESSING) \<in> set L" using assms(2) e by simp
    then show False using assms(1) q unfolding owns_def by force
  qed
  then have "desc_ctxs (upd_ctx p f s) ! q = desc_ctxs s ! q" if "(q, DESC_PROCESSING) \<in> set (held (queue_base.more s))" for q
    using that by (metis ctxs_upd_ctx nth_list_update_neq)
  then show ?thesis by (simp add: frame_ok_def data_events_def upd_ctx_def)
qed

lemma frame_ok_fold:
  assumes o: "owns (L @ held (queue_base.more s)) s" and len: "length (desc_ctxs s) = 128" and n: "n \<le> 128"
    and st: "\<forall>j < n. st_at s (fp + j) \<noteq> DESC_PROCESSING"
  shows "frame_ok held s (fold_ctx fp f n s)"
proof -
  have "desc_ctxs (fold_ctx fp f n s) ! p = desc_ctxs s ! p"
    if "(p, DESC_PROCESSING) \<in> set (held (queue_base.more s))" for p
  proof -
    have p: "p < 128" "st_at s p = DESC_PROCESSING" using ownsD [OF o, of p DESC_PROCESSING] that by auto
    then obtain j where j: "j < 128" "p = (fp + j) mod 128" using pos_window by blast
    then have "\<not> j < n" using st p(2) by auto
    then show ?thesis using nth_fold_ctx [OF len n j(1), of fp f] j(2) by simp
  qed
  then show ?thesis using same_frameD [OF fold_ctx_frame [of s fp f n]] by (simp add: frame_ok_def data_events_def)
qed

section \<open>The virtual functions of the base class\<close>

lemma issue_lawD:
  "issue_law held cinv sub dl rel iss n \<Longrightarrow> queue_inv held cinv sub dl (claims dl op @ L) s \<Longrightarrow> op_ok cinv dl op s \<Longrightarrow>
     work s + op_cost op < n \<Longrightarrow> safe (iss op s) (\<lambda>s'. queue_inv held cinv sub dl L s' \<and> qstep rel (log_op op s) s')"
  unfolding issue_law_def by blast

lemma prepared_base:
  assumes i: "queue_inv held cinv sub dl ((p, DESC_PREPARING) # L) s" and c: "cinv ((desc_ctxs s ! p)\<lparr>c_state := DESC_PREPARED\<rparr>)"
  shows "\<exists>s'. prepared p s = Ok s' \<and> queue_inv held cinv sub dl L s' \<and> prog s s' \<and> frame_ok held s s'"
proof -
  have own: "owns ((p, DESC_PREPARING) # L @ held (queue_base.more s)) s" and ok: "ctx_ok cinv dl s"
    using i by (simp_all add: queue_inv_def)
  have st: "st_at s p = DESC_PREPARING" "p < 128" using ownsD [OF own, of p DESC_PREPARING] by simp_all
  have "length (c_desc (desc_ctxs s ! p)) = dl" using ctx_ok_desc [OF ok, of p] st by simp
  then show ?thesis
    using queue_inv_release [OF i, of DESC_PREPARED "\<lambda>c. c\<lparr>c_state := DESC_PREPARED\<rparr>"] c st
      frame_ok_upd [of "(p, DESC_PREPARING) # L" held s p] own
    by (simp add: prepared_def assertR_def set_state_def)
qed

text \<open>\<open>f\<close> is what a derived class does to the descriptor before it calls the base class.\<close>

lemma processed_base:
  assumes i: "queue_inv held cinv sub dl ((p, DESC_PROCESSING) # L) s"
    and f: "\<And>c. c_state (f c) = c_state c" "\<And>c. c_index (f c) = c_index c" "\<And>c. length (c_desc c) = dl \<Longrightarrow> length (c_desc (f c)) = dl"
  shows "\<exists>s'. processed p (upd_ctx p f s) = Ok s' \<and> queue_inv held cinv sub dl L s' \<and> prog s s' \<and> frame_ok held s s'"
proof -
  have own: "owns ((p, DESC_PROCESSING) # L @ held (queue_base.more s)) s" and ok: "ctx_ok cinv dl s" and r: "ring_ok s"
    using i by (simp_all add: queue_inv_def)
  have st: "st_at s p = DESC_PROCESSING" "p < 128" using ownsD [OF own, of p DESC_PROCESSING] by simp_all
  let ?f = "\<lambda>c. (f c)\<lparr>c_state := DESC_PROCESSED\<rparr>"
  have l: "length (c_desc (desc_ctxs s ! p)) = dl" using ctx_ok_desc [OF ok, of p] st by simp
  have "length (desc_ctxs s) = 128" by (rule ring_okD(1) [OF r])
  then have "processed p (upd_ctx p f s) = Ok (upd_ctx p ?f s)"
    using st f(1) by (simp add: processed_def assertR_def set_state_def st_at_def upd_ctx_def)
  then show ?thesis
    using queue_inv_release [OF i, of DESC_PROCESSED ?f] l f st
      frame_ok_upd [of "(p, DESC_PROCESSING) # L" held s p] own
    by simp
qed

lemma do_writeback_base:
  assumes law: "issue_law held cinv sub dl rel iss n" and i: "queue_inv held cinv sub dl (window_claims fp cnt DESC_WRITING_BACK @ L) s"
    and w: "work s < n" and dl: "0 < dl"
  shows "safe (do_writeback iss idx fp cnt s) (\<lambda>s'. queue_inv held cinv sub dl L s' \<and> qstep rel s s')"
proof -
  have own: "owns (window_claims fp cnt DESC_WRITING_BACK @ L @ held (queue_base.more s)) s" and ok: "ctx_ok cinv dl s"
    using i by (simp_all add: queue_inv_def)
  have st: "\<forall>j < cnt. st_at s (fp + j) = DESC_WRITING_BACK" using owns_window_st [OF own] by blast
  let ?d = "concat (map (\<lambda>i. c_desc (desc_ctxs s ! ((fp + i) mod 128))) [0..<cnt])"
  let ?op = "dma_wb fp (q_base s + of_nat (idx * desc_len s)) ?d"
  have "\<forall>j < cnt. length (c_desc (desc_ctxs s ! ((fp + j) mod 128))) = dl" using ctx_ok_desc [OF ok] st by simp
  then have "length ?d = sum_list (map (\<lambda>_. dl) [0..<cnt])"
    unfolding length_concat map_map by (intro arg_cong [where f = sum_list] map_cong) auto
  then have "length ?d div dl = cnt" using dl by (simp add: sum_list_triv)
  then have "safe (iss ?op s) (\<lambda>s'. queue_inv held cinv sub dl L s' \<and> qstep rel (log_op ?op s) s')"
    using issue_lawD [OF law, of ?op L s] i w by simp
  then show ?thesis using st by (simp add: do_writeback_def)
qed

section \<open>The interface\<close>

locale queue_class =
  fixes held :: "'a \<Rightarrow> (nat \<times> desc_state) list" and cinv :: "desc_ctx \<Rightarrow> bool" and sub :: "'a \<Rightarrow> bool" and dl :: nat
    and rel :: "'a queue_base_scheme \<Rightarrow> 'a queue_base_scheme \<Rightarrow> bool"
    and vt_of :: "(dma_op \<Rightarrow> 'a queue_base_scheme \<Rightarrow> 'a queue_base_scheme res) \<Rightarrow> 'a queue_base_scheme vtable"
  assumes dl_pos: "0 < dl"
    and rel_trans: "rel s1 s2 \<Longrightarrow> rel s2 s3 \<Longrightarrow> rel s1 s3"
    and rel_frame: "frame_ok held s1 s2 \<Longrightarrow> rel s1 s2"
    and cinv_state: "cinv (c\<lparr>c_state := d\<rparr>) = cinv c"
    and cinv_store: "cinv c \<Longrightarrow> off + length bs \<le> length (c_data c) \<Longrightarrow> cinv (c\<lparr>c_data := put_bytes off bs (c_data c)\<rparr>)"
    and prepare_law: "issue_law held cinv sub dl rel iss n \<Longrightarrow> queue_inv held cinv sub dl ((p, DESC_PREPARING) # L) s \<Longrightarrow>
      work s + 8 < n \<Longrightarrow> safe (v_prepare (vt_of iss) p s) (\<lambda>s'. queue_inv held cinv sub dl L s' \<and> qstep rel s s')"
    and process_law: "issue_law held cinv sub dl rel iss n \<Longrightarrow> queue_inv held cinv sub dl ((p, DESC_PROCESSING) # L) s \<Longrightarrow>
      work s < n \<Longrightarrow> safe (v_process (vt_of iss) p s) (\<lambda>s'. queue_inv held cinv sub dl L s' \<and> qstep rel s s')"
    and processed_law: "queue_inv held cinv sub dl ((p, DESC_PROCESSING) # L) s \<Longrightarrow>
      safe (v_processed (vt_of iss) p s) (\<lambda>s'. queue_inv held cinv sub dl L s' \<and> qstep rel s s')"
    and writeback_law: "issue_law held cinv sub dl rel iss n \<Longrightarrow>
      queue_inv held cinv sub dl (window_claims fp cnt DESC_WRITING_BACK @ L) s \<Longrightarrow> work s < n \<Longrightarrow>
      safe (v_do_writeback (vt_of iss) idx fp cnt s) (\<lambda>s'. queue_inv held cinv sub dl L s' \<and> qstep rel s s')"
    and interrupt_law: "queue_inv held cinv sub dl L s \<Longrightarrow>
      safe (v_interrupt (vt_of iss) s) (\<lambda>s'. queue_inv held cinv sub dl L s' \<and> qstep rel s s')"
begin

abbreviation inv :: "(nat \<times> desc_state) list \<Rightarrow> 'a queue_base_scheme \<Rightarrow> bool" where
  "inv \<equiv> queue_inv held cinv sub dl"

abbreviation law :: "(dma_op \<Rightarrow> 'a queue_base_scheme \<Rightarrow> 'a queue_base_scheme res) \<Rightarrow> nat \<Rightarrow> bool" where
  "law \<equiv> issue_law held cinv sub dl rel"

lemma qstep_trans: "qstep rel s s' \<Longrightarrow> qstep rel s' s'' \<Longrightarrow> qstep rel s s''"
  using prog_trans rel_trans unfolding qstep_def by blast

lemma qstep_frame: "prog s s' \<Longrightarrow> frame_ok held s s' \<Longrightarrow> qstep rel s s'"
  using rel_frame by (simp add: qstep_def)

lemma qstep_refl: "qstep rel s s"
  by (rule qstep_frame) simp_all

lemma inv_owns: "inv L s \<Longrightarrow> owns (L @ held (queue_base.more s)) s" "inv L s \<Longrightarrow> length (desc_ctxs s) = 128"
  using ring_okD(1) by (auto simp: queue_inv_def)

lemma inv_frame_upd:
  "inv L s \<Longrightarrow> st_at s p \<noteq> DESC_PROCESSING \<or> (p mod 128, DESC_PROCESSING) \<in> set L \<Longrightarrow> frame_ok held s (upd_ctx p f s)"
  using frame_ok_upd [of L held s p f] inv_owns by blast

lemma inv_frame_fold:
  "inv L s \<Longrightarrow> n \<le> 128 \<Longrightarrow> \<forall>j < n. st_at s (fp + j) \<noteq> DESC_PROCESSING \<Longrightarrow> frame_ok held s (fold_ctx fp f n s)"
  using frame_ok_fold [of L held s n fp f] inv_owns by blast

text \<open>Postconditions of two steps in a row.\<close>

lemma safe_seq:
  assumes "safe r (\<lambda>s'. P s' \<and> qstep rel s s')" "\<And>s'. P s' \<Longrightarrow> qstep rel s s' \<Longrightarrow> safe (f s') (\<lambda>s''. Q s'' \<and> qstep rel s' s'')"
  shows "safe (andThen r f) (\<lambda>s''. Q s'' \<and> qstep rel s s'')"
  unfolding safe_andThen
proof (rule safe_mono [OF assms(1)])
  fix s' assume s': "P s' \<and> qstep rel s s'"
  then have "safe (f s') (\<lambda>s''. Q s'' \<and> qstep rel s' s'')" using assms(2) by blast
  then show "safe (f s') (\<lambda>s''. Q s'' \<and> qstep rel s s'')" by (rule safe_mono) (use s' qstep_trans in blast)
qed

lemma qstep_work: "qstep rel s s' \<Longrightarrow> work s \<le> n \<Longrightarrow> work s' \<le> n"
  by (simp add: prog_def qstep_def)

lemma safe_qstep: "safe r (\<lambda>s'. P s' \<and> qstep rel s1 s') \<Longrightarrow> qstep rel s s1 \<Longrightarrow> safe r (\<lambda>s'. P s' \<and> qstep rel s s')"
  by (erule safe_mono) (use qstep_trans in blast)

lemma trigger_fetch_ok:
  assumes l: "law iss n" and i: "inv L s" and w: "work s \<le> n"
  shows "safe (trigger_fetch iss s) (\<lambda>s'. inv L s' \<and> qstep rel s s')"
proof (cases "fetch_cnt s = 0")
  case True
  then show ?thesis using i ring_okD(4) qstep_refl by (auto simp: trigger_fetch_def queue_inv_def Let_def)
next
  case False
  define fp where "fp = (active_first_pos s + active_cnt s) mod 128"
  define s1 where "s1 = fold_ctx fp (\<lambda>i c. c\<lparr>c_state := DESC_FETCHING, c_index := add32 (next_idx s) i mod q_len s\<rparr>) (fetch_cnt s) s"
  define s2 where "s2 = s1\<lparr>active_cnt := add32 (active_cnt s1) (fetch_cnt s)\<rparr>"
  note step = fetch_step [OF i refl _ fp_def, folded s1_def, folded s2_def]
  have c: "0 < fetch_cnt s" using False by simp
  have q: "q_enabled s" "0 < q_len s" using i ring_okD(4) by (auto simp: queue_inv_def)
  have dl: "desc_len s1 = dl" "q_base s1 = q_base s"
    using i same_frameD [OF fold_ctx_frame] by (auto simp: s1_def queue_inv_def)
  define op where "op = dma_fetch fp (q_base s + of_nat (next_idx s * dl)) (dl * fetch_cnt s)"
  have "claims dl op = window_claims fp (fetch_cnt s) DESC_FETCHING" "op_ok cinv dl op s2" "op_cost op = 0" and log: "log_op op s2 = s2"
    using dl_pos by (simp_all add: op_def)
  then have "safe (iss op s2) (\<lambda>s'. inv L s' \<and> qstep rel s2 s')"
    using issue_lawD [OF l, of op L s2] step(2,4) [OF c] w c log by simp
  moreover have "frame_ok held s s1"
    unfolding s1_def using fetch_empty [OF i fp_def] fetch_cnt_bounds(1) [of s] i
    by (intro inv_frame_fold [OF i]) (auto simp: queue_inv_def)
  then have "qstep rel s s2" using step(3,4) [OF c]
    by (intro qstep_frame) (simp_all add: prog_def s2_def frame_ok_def data_events_def)
  moreover have "trigger_fetch iss s = iss op s2"
    using q False step(1) [OF c] dl
    by (simp add: trigger_fetch_def Let_def fp_def [symmetric] op_def s2_def)
  ultimately show ?thesis using safe_qstep by simp
qed

lemma process_loop_ok:
  assumes l: "law iss n"
  shows "inv L s \<Longrightarrow> work s \<le> n \<Longrightarrow> 128 \<le> k + m \<Longrightarrow> safe (process_loop (vt_of iss) m k s) (\<lambda>s'. inv L s' \<and> qstep rel s s')"
proof (induction m arbitrary: k s)
  case 0
  then show ?case using ring_okD(3) [of s] qstep_refl by (auto simp: queue_inv_def)
next
  case (Suc m)
  let ?p = "(active_first_pos s + k) mod 128"
  show ?case
  proof (cases "k < active_cnt s \<and> st_at s ?p = DESC_PREPARED")
    case True
    let ?s = "set_state ?p DESC_PROCESSING s"
    have i: "ring_ok s" "owns (L @ held (queue_base.more s)) s" "ctx_ok cinv dl s" using Suc.prems(1) by (auto simp: queue_inv_def)
    note len = ring_okD(1) [OF i(1)]
    have f: "same_frame s ?s" by (simp add: set_state_def same_frame_upd_ctx same_frame_refl)
    have p: "?p < 128" by simp
    then have ci: "cinv (desc_ctxs s ! ?p)" using i(3) True unfolding ctx_ok_def by blast
    have dlen: "length (c_desc (desc_ctxs s ! ?p)) = dl" using ctx_ok_desc [OF i(3), of ?p] True by simp
    have "ring_ok ?s" unfolding set_state_def using True by (intro ring_ok_upd [OF i(1)]) auto
    moreover have "owns ((?p, DESC_PROCESSING) # L @ held (queue_base.more s)) ?s"
      unfolding set_state_def using owns_acquire [OF i(2) len, of ?p "\<lambda>c. c\<lparr>c_state := DESC_PROCESSING\<rparr>"] True by simp
    moreover have "ctx_ok cinv dl ?s"
      unfolding set_state_def using ci dlen cinv_state by (intro ctx_ok_upd [OF i(3) len]) auto
    ultimately have i': "inv ((?p, DESC_PROCESSING) # L) ?s"
      using Suc.prems(1) unfolding queue_inv_def same_frameD [OF f] by simp
    have "prog s ?s \<and> work ?s + 1 = work s"
      using upd_ctx_prog [OF len, of "\<lambda>c. c\<lparr>c_state := DESC_PROCESSING\<rparr>" ?p] True by (simp add: set_state_def)
    moreover have "frame_ok held s ?s" unfolding set_state_def using True by (intro inv_frame_upd [OF Suc.prems(1)]) simp
    ultimately have w: "qstep rel s ?s" "work ?s < n" using Suc.prems(2) qstep_frame by auto
    have "safe (v_process (vt_of iss) ?p ?s) (\<lambda>s'. inv L s' \<and> qstep rel s s')"
      using safe_qstep [OF process_law [OF l i' w(2)] w(1)] .
    then have "safe (andThen (v_process (vt_of iss) ?p ?s) (process_loop (vt_of iss) m (k + 1))) (\<lambda>s'. inv L s' \<and> qstep rel s s')"
    proof (rule safe_seq)
      fix s' assume s': "inv L s'" "qstep rel s s'"
      show "safe (process_loop (vt_of iss) m (k + 1) s') (\<lambda>s''. inv L s'' \<and> qstep rel s' s'')"
        using Suc.IH [OF s'(1) qstep_work [OF s'(2) Suc.prems(2)], of "k + 1"] Suc.prems(3) by simp
    qed
    then show ?thesis using True by (simp add: Let_def)
  next
    case False
    then show ?thesis using Suc.prems(1) qstep_refl by (auto simp: Let_def)
  qed
qed

lemma trigger_process_ok:
  assumes "law iss n" "inv L s" "work s \<le> n"
  shows "safe (trigger_process (vt_of iss) s) (\<lambda>s'. inv L s' \<and> qstep rel s s')"
  using process_loop_ok [OF assms] assms(2) by (simp add: trigger_process_def queue_inv_def Let_def)

lemma writeback_cnt_le: "ring_ok s \<Longrightarrow> writeback_cnt s \<le> count_while (\<lambda>d. d = DESC_PROCESSED) s"
proof -
  assume r: "ring_ok s"
  note d = ring_okD [OF r]
  have "count_while (\<lambda>d. d = DESC_PROCESSED) s \<le> 128" using count_while_props(1) d(3) order_trans by blast
  then show ?thesis using d by (auto simp: writeback_cnt_def max_writeback_capacity_def Let_def min_def)
qed

lemma trigger_writeback_ok:
  assumes l: "law iss n" and i: "inv L s" and w: "work s \<le> n"
  shows "safe (trigger_writeback (vt_of iss) s) (\<lambda>s'. inv L s' \<and> qstep rel s s')"
proof (cases "writeback_cnt s = 0")
  case True
  then show ?thesis using i qstep_refl by (simp add: trigger_writeback_def queue_inv_def Let_def)
next
  case False
  let ?n = "writeback_cnt s"
  define s1 where "s1 = fold_ctx (active_first_pos s) (\<lambda>i c. c\<lparr>c_state := DESC_WRITING_BACK\<rparr>) ?n s"
  have r: "ring_ok s" "q_enabled s" using i by (simp_all add: queue_inv_def)
  have n: "?n \<le> count_while (\<lambda>d. d = DESC_PROCESSED) s" by (rule writeback_cnt_le [OF r(1)])
  then have n': "?n \<le> active_cnt s" using count_while_props(1) order_trans by blast
  have old: "\<forall>j < ?n. st_at s (active_first_pos s + j) = DESC_PROCESSED"
    using count_while_props(2) [of _ "\<lambda>d. d = DESC_PROCESSED" s] n by auto
  note step = writeback_step [OF i n' old, folded s1_def]
  have f: "same_frame s s1" unfolding s1_def by (rule fold_ctx_frame)
  have "work s1 < n" using step(3) w False by linarith
  from writeback_law [OF l step(1) this]
  have "safe (v_do_writeback (vt_of iss) (active_first_idx s) (active_first_pos s) ?n s1) (\<lambda>s'. inv L s' \<and> qstep rel s1 s')" .
  moreover have "qstep rel s s1"
    using step(2,3) old n' ring_okD(3) [OF r(1)] unfolding s1_def
    by (intro qstep_frame inv_frame_fold [OF i]) (auto simp: prog_def)
  ultimately show ?thesis
    using False r(2) same_frameD [OF f] safe_qstep
    by (simp add: trigger_writeback_def Let_def fold_set_state s1_def)
qed

lemma trigger_ok:
  assumes l: "law iss n" and i: "inv L s" and w: "work s \<le> n"
  shows "safe (trigger (vt_of iss) iss s) (\<lambda>s'. inv L s' \<and> qstep rel s s')"
  unfolding trigger_def
proof (rule safe_seq [OF trigger_fetch_ok [OF l i w]])
  fix s1 assume s1: "inv L s1" "qstep rel s s1"
  note w1 = qstep_work [OF s1(2) w]
  show "safe (andThen (trigger_process (vt_of iss) s1) (trigger_writeback (vt_of iss))) (\<lambda>s'. inv L s' \<and> qstep rel s1 s')"
    by (rule safe_seq [OF trigger_process_ok [OF l s1(1) w1]]) (use trigger_writeback_ok [OF l] qstep_work [OF _ w1] in blast)
qed

lemma writeback_done_ok:
  assumes i: "inv (window_claims fp cnt DESC_WRITING_BACK @ L) s"
  shows "safe (writeback_done (vt_of iss) fp cnt s) (\<lambda>s'. inv L s' \<and> qstep rel s s')"
proof -
  define s1 where "s1 = fold_ctx fp (\<lambda>i c. c\<lparr>c_state := DESC_WRITTEN_BACK\<rparr>) cnt s"
  note step = written_step [OF i, folded s1_def]
  have own: "owns (window_claims fp cnt DESC_WRITING_BACK @ L @ held (queue_base.more s)) s" using inv_owns(1) [OF i] by simp
  define b where "b = count_while (\<lambda>d. d = DESC_WRITTEN_BACK) s1"
  have b: "b \<le> active_cnt s1" "\<forall>j < b. st_at s1 (active_first_pos s1 + j) = DESC_WRITTEN_BACK"
    using count_while_props(1) [of "\<lambda>d. d = DESC_WRITTEN_BACK" s1]
      count_while_props(2) [of _ "\<lambda>d. d = DESC_WRITTEN_BACK" s1] by (auto simp: b_def)
  define t where "t = fold_ctx (active_first_pos s1) (\<lambda>i c. c\<lparr>c_state := DESC_EMPTY\<rparr>) b s1"
  define s2 where "s2 = t\<lparr>active_first_pos := (active_first_pos s1 + b) mod 128,
      active_first_idx := add32 (active_first_idx s1) b mod q_len s1,
      active_cnt := sub32 (active_cnt s1) b, reg_head := add32 (active_first_idx s1) b mod q_len s1\<rparr>"
  note bump = bump_step [OF step(1) b, folded t_def, folded s2_def]
  have t: "same_frame s1 t" unfolding t_def by (rule fold_ctx_frame)
  have "writeback_done (vt_of iss) fp cnt s = v_interrupt (vt_of iss) s2"
    using i step(3) same_frameD [OF t]
    by (simp add: writeback_done_def queue_inv_def Let_def b_def [symmetric] fold_set_state t_def [symmetric] s2_def)
  moreover have "qstep rel s s1"
    using step(2) owns_window_st [OF own] owns_window_le [OF own]
    unfolding s1_def by (intro qstep_frame inv_frame_fold [OF i]) auto
  moreover have "frame_ok held s1 t"
    unfolding t_def using b ring_okD(3) [of s1] step(1)
    by (intro inv_frame_fold [OF step(1)]) (auto simp: queue_inv_def)
  then have "qstep rel s1 s2" using bump(2)
    by (intro qstep_frame) (simp_all add: s2_def frame_ok_def data_events_def)
  ultimately show ?thesis using safe_qstep [OF interrupt_law [OF bump(1), of iss]] qstep_trans by simp
qed

text \<open>
  The completion of a descriptor fetch hands the contexts over one by one; the
  rest of the window is held by the loop meanwhile.
\<close>

lemma fetch_loop_ok:
  assumes l: "law iss n" and w: "work s \<le> n" and k: "m + k = cnt"
    and i: "inv (window_claims (pos + m) k DESC_FETCHING @ L) s" and len: "length buf = dl * cnt"
  shows "safe (rfold (fetch_one (vt_of iss) pos buf) [m..<cnt] s) (\<lambda>s'. inv L s' \<and> qstep rel s s')"
  using w k i
proof (induction k arbitrary: m s)
  case 0
  then show ?case by (simp add: window_claims_def qstep_refl)
next
  case (Suc k)
  then have m: "m < cnt" by simp
  let ?p = "(pos + m) mod 128"
  let ?f = "\<lambda>c. c\<lparr>c_desc := take (desc_len s) (drop (desc_len s * m) buf), c_state := DESC_PREPARING\<rparr> :: desc_ctx"
  let ?s = "upd_ctx ?p ?f s" and ?L = "window_claims (pos + Suc m) k DESC_FETCHING @ L"
  have i: "inv ((?p, DESC_FETCHING) # ?L) s" using Suc.prems(3) by (simp add: window_claims_Cons)
  have dl: "desc_len s = dl" using i by (simp add: queue_inv_def)
  have "dl * Suc m \<le> length buf" unfolding len using m by (intro mult_le_mono2) simp
  then have "length (take dl (drop (dl * m) buf)) = dl" by simp
  then have ch: "inv ((?p, DESC_PREPARING) # ?L) ?s" "prog s ?s" "work ?s + 19 = work s + 6"
    using queue_inv_change [OF i, of DESC_PREPARING ?f] dl by simp_all
  have "st_at s ?p = DESC_FETCHING" using ownsD [OF inv_owns(1) [OF i], of ?p DESC_FETCHING] by simp
  then have q: "qstep rel s ?s" using ch(2) by (intro qstep_frame inv_frame_upd [OF i]) auto
  have "work ?s + 8 < n" using ch(3) Suc.prems(1) by linarith
  from safe_qstep [OF prepare_law [OF l ch(1) this] q]
  have "safe (v_prepare (vt_of iss) ?p ?s) (\<lambda>s'. inv ?L s' \<and> qstep rel s s')" .
  then have "safe (andThen (v_prepare (vt_of iss) ?p ?s) (rfold (fetch_one (vt_of iss) pos buf) [Suc m..<cnt]))
      (\<lambda>s'. inv L s' \<and> qstep rel s s')"
  proof (rule safe_seq)
    fix s' assume s': "inv ?L s'" "qstep rel s s'"
    show "safe (rfold (fetch_one (vt_of iss) pos buf) [Suc m..<cnt] s') (\<lambda>s''. inv L s'' \<and> qstep rel s' s'')"
      using Suc.IH [of s' "Suc m"] s' qstep_work [OF s'(2) Suc.prems(1)] Suc.prems(2) by simp
  qed
  moreover have "fetch_one (vt_of iss) pos buf m s = v_prepare (vt_of iss) ?p ?s" by (simp add: fetch_one_def Let_def)
  ultimately show ?case using m by (simp only: upt_conv_Cons rfold.simps)
qed

lemma dma_done_ok:
  assumes l: "law iss n" and i: "inv (claims dl op @ L) s" and o: "op_ok cinv dl op s" and w: "work s + op_cost op \<le> n"
    and b: "\<forall>k. dma_data op = Inr k \<longrightarrow> length bytes = k"
  shows "safe (dma_done (vt_of iss) iss op bytes s) (\<lambda>s'. inv L s' \<and> qstep rel s s')"
proof -
  have ds: "desc_len s = dl" using i by (simp add: queue_inv_def)
  have tr: "safe (andThen r (trigger (vt_of iss) iss)) (\<lambda>s'. inv L s' \<and> qstep rel s s')"
    if "safe r (\<lambda>s'. inv L s' \<and> qstep rel s s')" for r
    by (rule safe_seq [OF that]) (use trigger_ok [OF l] qstep_work w in force)
  show ?thesis
  proof (cases op)
    case (dma_fetch pos a len)
    then have "length bytes = dl * (len div dl)" using b o by (auto simp: algebra_simps mult_div_mod_eq)
    then show ?thesis
      using tr fetch_loop_ok [OF l, of s 0 "len div dl" "len div dl" pos L bytes] dma_fetch i w ds by simp
  next
    case (dma_wb pos a d)
    then show ?thesis using tr writeback_done_ok [of pos "length d div dl" L s iss] i ds by simp
  next
    case (dma_data_fetch p a m tot part)
    have o': "p < 128" "cinv (desc_ctxs s ! p)" "part \<le> tot" "m = min (tot - part) 9024"
      "tot \<le> length (c_data (desc_ctxs s ! p))" "tot < 65536" using o dma_data_fetch by auto
    show ?thesis
    proof (cases "part + m < tot")
      case True
      let ?op = "dma_data_fetch p (a + of_nat m) (min (tot - (part + m)) 9024) tot (part + m)"
      have m: "m = 9024" "9024 < tot - part" using True o'(3,4) by auto
      then have "tot - part + 9023 = (tot - (part + m) + 9023) + 9024" by simp
      then have "op_cost op = Suc (op_cost ?op)" using dma_data_fetch by simp
      moreover have "op_ok cinv dl ?op s" using o' True by simp
      ultimately have "safe (iss ?op s) (\<lambda>s'. inv L s' \<and> qstep rel s s')"
        using issue_lawD [OF l, of ?op L s] i w dma_data_fetch by simp
      then show ?thesis using dma_data_fetch True by (simp add: Let_def)
    next
      case False
      have i': "inv ((p, DESC_PREPARING) # L) s" using i dma_data_fetch by simp
      then have own: "owns ((p, DESC_PREPARING) # L @ held (queue_base.more s)) s" and c: "ctx_ok cinv dl s"
        by (simp_all add: queue_inv_def)
      have st: "st_at s p = DESC_PREPARING" using ownsD [OF own, of p DESC_PREPARING] by simp
      have "length (c_desc (desc_ctxs s ! p)) = dl" using ctx_ok_desc [OF c, of p] st o'(1) by simp
      then have "inv L (upd_ctx p (\<lambda>c. c\<lparr>c_state := DESC_PREPARED\<rparr>) s)" "prog s (upd_ctx p (\<lambda>c. c\<lparr>c_state := DESC_PREPARED\<rparr>) s)"
        using queue_inv_release [OF i', of DESC_PREPARED "\<lambda>c. c\<lparr>c_state := DESC_PREPARED\<rparr>"] o'(2) cinv_state by simp_all
      then have "safe (prepared p s) (\<lambda>s'. inv L s' \<and> qstep rel s s')"
        using st qstep_frame [OF _ inv_frame_upd [OF i']] by (simp add: prepared_def set_state_def)
      then show ?thesis using dma_data_fetch False tr by (simp add: Let_def)
    qed
  next
    case (dma_data_wb p a d)
    then show ?thesis using tr processed_law [of p L s iss] i by simp
  next
    case (dma_hwb pos cnt h a)
    then show ?thesis using tr writeback_done_ok [of pos cnt L s iss] i by simp
  qed
qed

lemma inv_mem:
  "inv L (s\<lparr>q_mem := m, q_events := e\<rparr>) = inv L s" "work (s\<lparr>q_mem := m, q_events := e\<rparr>) = work s"
  by (simp_all add: queue_inv_def ring_ok_def owns_def ctx_ok_def st_at_def work_def wsum_def true_avail_def next_idx_def)

lemma op_ok_mem: "op_ok cinv dl op (s\<lparr>q_mem := m, q_events := e\<rparr>) = op_ok cinv dl op s"
  by (cases op) simp_all

lemma fill_buffer_ok:
  assumes i: "inv (claims dl op @ L) s" and o: "op_ok cinv dl op s" and b: "dma_data op = Inr (length bytes)"
  shows "inv (claims dl op @ L) (fill_buffer op bytes s) \<and> op_ok cinv dl op (fill_buffer op bytes s) \<and> qstep rel s (fill_buffer op bytes s)"
proof (cases op)
  case (dma_data_fetch p a m tot part)
  have i': "inv ((p, DESC_PREPARING) # L) s" using i dma_data_fetch by simp
  then have own: "owns ((p, DESC_PREPARING) # L @ held (queue_base.more s)) s" and c: "ctx_ok cinv dl s" and r: "ring_ok s"
    by (simp_all add: queue_inv_def)
  have st: "st_at s p = DESC_PREPARING" "p < 128" using ownsD [OF own, of p DESC_PREPARING] by simp_all
  have len: "length (c_desc (desc_ctxs s ! p)) = dl" using ctx_ok_desc [OF c, of p] st by simp
  have o': "cinv (desc_ctxs s ! p)" "part + length bytes \<le> length (c_data (desc_ctxs s ! p))"
    using o b dma_data_fetch by auto
  let ?f = "\<lambda>c. c\<lparr>c_data := put_bytes part bytes (c_data c)\<rparr> :: desc_ctx"
  have "c_state (?f (desc_ctxs s ! p)) = DESC_PREPARING" using st by (simp add: st_at_def)
  then have "inv ((p, DESC_PREPARING) # L) (upd_ctx p ?f s)" "prog s (upd_ctx p ?f s)"
    using queue_inv_change [OF i', of DESC_PREPARING ?f] len by simp_all
  then have "inv ((p, DESC_PREPARING) # L) (upd_ctx p ?f s)" "qstep rel s (upd_ctx p ?f s)"
    using qstep_frame [OF _ inv_frame_upd [OF i']] st(1) by simp_all
  moreover have "op_ok cinv dl op (upd_ctx p ?f s)"
    using o cinv_store [OF o'] o'(2) st(2) ring_okD(1) [OF r] dma_data_fetch by simp
  ultimately show ?thesis unfolding dma_data_fetch fill_buffer.simps store_part_def claims.simps append.simps by blast
qed (use i o qstep_refl in simp_all)

text \<open>A write is logged, and changes guest memory only.\<close>

lemma write_step:
  assumes "dma_data op = Inl d"
  shows "qstep rel (log_op op s) (s\<lparr>q_mem := m, q_events := q_events s @ [dma_event op d]\<rparr>)"
proof (rule qstep_frame)
  let ?s = "s\<lparr>q_mem := m, q_events := q_events s @ [dma_event op d]\<rparr>"
  have w: "work (s\<lparr>q_events := e\<rparr>) = work s" for e
    by (simp add: work_def wsum_def true_avail_def next_idx_def)
  show "prog (log_op op s) ?s" by (cases op) (simp_all add: prog_def stable_def inv_mem w)
  show "frame_ok held (log_op op s) ?s" using assms by (cases op) (auto simp: frame_ok_def data_events_def)
qed

lemma log_read: "dma_data op = Inr l \<Longrightarrow> log_op op s = s"
  by (cases op) simp_all

theorem IssueDma_law: "law (IssueDma vt_of n) n"
proof (induction n)
  case 0
  then show ?case by (simp add: issue_law_def)
next
  case (Suc n)
  let ?iss = "IssueDma vt_of n"
  show ?case
    unfolding issue_law_def
  proof (intro allI impI)
    fix L op s
    assume i: "inv (claims dl op @ L) s" and o: "op_ok cinv dl op s" and w: "work s + op_cost op < Suc n"
    have wr: "safe (dma_done (vt_of ?iss) ?iss op [] (s\<lparr>q_mem := m, q_events := q_events s @ [dma_event op d]\<rparr>))
        (\<lambda>s'. inv L s' \<and> qstep rel (log_op op s) s')" if "dma_data op = Inl d" for m d
      by (rule safe_qstep [OF dma_done_ok [OF Suc.IH] write_step [OF that]])
         (use i o w that in \<open>auto simp: inv_mem op_ok_mem\<close>)
    have rd: "safe (dma_done (vt_of ?iss) ?iss op (mem_read (q_mem s) a l) (fill_buffer op (mem_read (q_mem s) a l) s))
        (\<lambda>s'. inv L s' \<and> qstep rel (log_op op s) s')" if "dma_data op = Inr l" for a l
    proof -
      let ?b = "mem_read (q_mem s) a l"
      have len: "length ?b = l" by (simp add: mem_read_def)
      then have f: "inv (claims dl op @ L) (fill_buffer op ?b s)" "op_ok cinv dl op (fill_buffer op ?b s)" "qstep rel s (fill_buffer op ?b s)"
        using fill_buffer_ok [OF i o, of ?b] that by auto
      have "work (fill_buffer op ?b s) \<le> work s" using f(3) by (simp add: qstep_def prog_def)
      then have "safe (dma_done (vt_of ?iss) ?iss op ?b (fill_buffer op ?b s)) (\<lambda>s'. inv L s' \<and> qstep rel (fill_buffer op ?b s) s')"
        using w that len by (intro dma_done_ok [OF Suc.IH f(1,2)]) auto
      then show ?thesis unfolding log_read [OF that] using f(3) by (rule safe_qstep)
    qed
    have "safe (dma_local_addr (q_vfu s) a k) (\<lambda>_. True)" for a k
      unfolding dma_local_addr_def by (rule find_mapping_safe)
    then show "safe (IssueDma vt_of (Suc n) op s) (\<lambda>s'. inv L s' \<and> qstep rel (log_op op s) s')"
      unfolding IssueDma.simps safe_andThen
      by (rule safe_mono) (auto simp: wr rd split: option.split sum.split)
  qed
qed

text \<open>A doorbell on an enabled queue, with enough fuel for the work it starts.\<close>

lemma reg_updated_ok:
  assumes "inv L s" "work s \<le> n"
  shows "safe (reg_updated (vt_of (IssueDma vt_of n)) (IssueDma vt_of n) s) (\<lambda>s'. inv L s' \<and> qstep rel s s')"
  using trigger_ok [OF IssueDma_law assms] assms(1) by (simp add: reg_updated_def queue_inv_def)

end

end
