(* ===== verification/E810_Lan_Rx.thy ===== *)
theory E810_Lan_Rx
  imports E810_Queue_Class
begin

text \<open>
  LAN queues of the E810 model (\<open>e810_lan.cc\<close>): what receive and transmit queues
  share, and the receive queue: its contexts wait in \<open>dcache\<close> until a packet
  arrives, which is written over as many buffers as it needs.
\<close>

section \<open>What LAN queues share\<close>

record lan_base =
  enabling :: bool
  lq_idx :: nat
  reg_ena :: u32
  reg_intqctl :: u32
  dyn_ctln :: "u32 list"
  pfint_icr0 :: u32

abbreviation (input) NUM_MSIX_IRQs :: nat where "NUM_MSIX_IRQs \<equiv> 16"

text \<open>
  \<open>lan_queue_base::interrupt\<close>, down to \<open>CallbackAdaptor::MsiXIssue\<close>, which takes the
  vector as 8 bits and indexes the 16 throttlers with it.
\<close>

definition msix_issue :: "nat \<Rightarrow> nat \<Rightarrow> 'a queue_base_scheme \<Rightarrow> 'a queue_base_scheme res" where
  "msix_issue vec itr s = (let v = vec mod 256 in
     if v < NUM_MSIX_IRQs then Ok (s\<lparr>q_events := q_events s @ [Ev_irq v itr]\<rparr>) else Fault)"

definition lan_interrupt :: "'b lan_base_scheme queue_base_scheme \<Rightarrow> 'b lan_base_scheme queue_base_scheme res" where
  "lan_interrupt s = (let
     qctl = reg_intqctl (queue_base.more s);
     index = unat (qctl AND 0x7ff) in
     if \<not> index < length (dyn_ctln (queue_base.more s)) then Fault
     else let gctl = dyn_ctln (queue_base.more s) ! index in
       if \<not> (bit qctl 30 \<and> bit gctl 0) then Ok s
       else let s = (if index = 0 then queue_base.more_update (\<lambda>m. m\<lparr>pfint_icr0 := pfint_icr0 m OR (1 OR push_bit 2 1)\<rparr>) s else s) in
         msix_issue index (unat (drop_bit 11 qctl AND 3)) s)"

text \<open>Enabling: \<open>initialize\<close> reads the queue context; then the queue runs.\<close>

definition ctx_fetched :: "('b lan_base_scheme queue_base_scheme \<Rightarrow> 'b lan_base_scheme queue_base_scheme res) \<Rightarrow>
    'b lan_base_scheme queue_base_scheme vtable \<Rightarrow>
    (dma_op \<Rightarrow> 'b lan_base_scheme queue_base_scheme \<Rightarrow> 'b lan_base_scheme queue_base_scheme res) \<Rightarrow>
    'b lan_base_scheme queue_base_scheme \<Rightarrow> 'b lan_base_scheme queue_base_scheme res" where
  "ctx_fetched initialize vt iss s = andThen (initialize s) (\<lambda>s.
     reg_updated vt iss (queue_base.more_update (\<lambda>m. m\<lparr>enabling := False, reg_ena := reg_ena m OR push_bit 2 1\<rparr>) s\<lparr>q_enabled := True\<rparr>))"

definition lan_enable :: "('b lan_base_scheme queue_base_scheme \<Rightarrow> 'b lan_base_scheme queue_base_scheme res) \<Rightarrow>
    'b lan_base_scheme queue_base_scheme vtable \<Rightarrow>
    (dma_op \<Rightarrow> 'b lan_base_scheme queue_base_scheme \<Rightarrow> 'b lan_base_scheme queue_base_scheme res) \<Rightarrow>
    'b lan_base_scheme queue_base_scheme \<Rightarrow> 'b lan_base_scheme queue_base_scheme res" where
  "lan_enable initialize vt iss s =
     (if enabling (queue_base.more s) \<or> q_enabled s then Ok s
      else ctx_fetched initialize vt iss (queue_base.more_update (\<lambda>m. m\<lparr>enabling := True\<rparr>) s))"

definition lan_disable :: "'b lan_base_scheme queue_base_scheme \<Rightarrow> 'b lan_base_scheme queue_base_scheme" where
  "lan_disable s = queue_base.more_update (\<lambda>m. m\<lparr>reg_ena := reg_ena m AND NOT (push_bit 2 1)\<rparr>) (s\<lparr>q_enabled := False\<rparr>)"

section \<open>The receive queue\<close>

record lan_rx = lan_base +
  dcache :: "nat list"
  dbuff_size :: nat
  hbuff_size :: nat
  rxmax :: nat
  crc_strip :: bool

type_synonym rx_queue = "lan_rx queue_base_scheme"

abbreviation rx_more :: "(lan_rx \<Rightarrow> lan_rx) \<Rightarrow> rx_queue \<Rightarrow> rx_queue" where
  "rx_more \<equiv> queue_base.more_update"

definition rx_reset :: "rx_queue \<Rightarrow> rx_queue" where
  "rx_reset s = queue_reset (rx_more (\<lambda>m. m\<lparr>dcache := []\<rparr>) s)"

text \<open>\<open>initialize\<close>: the fields of the queue context, 8 registers read as 32 bytes.\<close>

definition rx_initialize :: "u32 list \<Rightarrow> rx_queue \<Rightarrow> rx_queue res" where
  "rx_initialize packed_ctx s = (let
     ctx = concat (map (le_bytes 4) packed_ctx);
     hbsz = le_field 13 2 ctx :: u16;
     dtype = drop_bit 10 hbsz AND 3;
     longdesc = bit hbsz 12;
     s = s\<lparr>reg_head := unat ((le_field 0 2 ctx :: u16) AND 0x1fff),
        q_base := ((le_field 4 8 ctx :: u64) AND mask 57) * 128,
        q_len := unat (drop_bit 1 (le_field 11 2 ctx :: u16) AND 0x1fff),
        desc_len := (if longdesc then 32 else 16)\<rparr>;
     s = rx_more (\<lambda>m. m\<lparr>dbuff_size := unat (drop_bit 6 (le_field 12 2 ctx :: u16) AND 0x7f) * 128,
        hbuff_size := unat (drop_bit 5 hbsz AND 0x1f) * 64,
        crc_strip := bit hbsz 13,
        rxmax := unat (drop_bit 6 (le_field 21 4 ctx :: u32) AND 0x3fff) * 128 mod 2 ^ 16\<rparr>) s in
     if \<not> longdesc then Abort else if dtype \<noteq> 0 then Abort else Ok s)"

definition rx_process :: "nat \<Rightarrow> rx_queue \<Rightarrow> rx_queue res" where
  "rx_process p s = Ok (rx_more (\<lambda>m. m\<lparr>dcache := dcache m @ [p]\<rparr>) s)"

definition rx_vt :: "(dma_op \<Rightarrow> rx_queue \<Rightarrow> rx_queue res) \<Rightarrow> rx_queue vtable" where
  "rx_vt iss = \<lparr>v_prepare = prepared, v_process = rx_process, v_processed = processed,
     v_do_writeback = do_writeback iss, v_interrupt = lan_interrupt\<rparr>"

text \<open>
  The descriptor a packet part leaves behind: length and status in the formats
  of both descriptor layouts, and the time stamp if one was taken.
\<close>

definition rx_desc :: "nat \<Rightarrow> u64 option \<Rightarrow> bool \<Rightarrow> u8 list \<Rightarrow> u8 list" where
  "rx_desc pktlen timestamp is_last desc = (let
     d = put_bytes 4 (le_bytes 2 (of_nat pktlen :: u16)) desc;
     q = (le_field 8 8 d :: u64) OR 1 OR push_bit 38 (of_nat pktlen);
     d = put_bytes 8 (le_bytes 8 q) d;
     d = (case timestamp of None \<Rightarrow> d
          | Some time \<Rightarrow> put_bytes 19 [1] (put_bytes 30 (le_bytes 2 (drop_bit 16 time)) (put_bytes 28 (le_bytes 2 time) d)))
     in if is_last then put_bytes 8 (le_bytes 8 ((le_field 8 8 d :: u64) OR 2 OR 8)) d else d)"

definition rx_ctx_packet_received :: "(dma_op \<Rightarrow> rx_queue \<Rightarrow> rx_queue res) \<Rightarrow> nat \<Rightarrow> u8 list \<Rightarrow> u64 option \<Rightarrow> bool \<Rightarrow>
    rx_queue \<Rightarrow> rx_queue res" where
  "rx_ctx_packet_received iss p data timestamp is_last s = (let
     addr = le_field 0 8 (c_desc (desc_ctxs s ! (p mod MAX_ACTIVE_DESCS))) in
     data_write iss p addr data (upd_ctx p (\<lambda>c. c\<lparr>c_desc := rx_desc (length data) timestamp is_last (c_desc c)\<rparr>) s))"

text \<open>One round of the loop of \<open>lan_queue_rx::packet_received\<close>.\<close>

definition rx_part :: "(dma_op \<Rightarrow> rx_queue \<Rightarrow> rx_queue res) \<Rightarrow> u8 list \<Rightarrow> u64 option \<Rightarrow> nat \<Rightarrow> nat \<Rightarrow> nat \<Rightarrow> rx_queue \<Rightarrow> rx_queue res" where
  "rx_part iss data timestamp dbuff num_descs i s =
     (case dcache (queue_base.more s) of
        [] \<Rightarrow> Fault
      | p # ps \<Rightarrow> let s = rx_more (\<lambda>m. m\<lparr>dcache := ps\<rparr>) s in
          if i = num_descs - 1 then rx_ctx_packet_received iss p (drop (dbuff * i) data) timestamp True s
          else rx_ctx_packet_received iss p (take dbuff (drop (dbuff * i) data)) timestamp False s)"

definition rx_packet_received :: "(dma_op \<Rightarrow> rx_queue \<Rightarrow> rx_queue res) \<Rightarrow> u8 list \<Rightarrow> u64 option \<Rightarrow> rx_queue \<Rightarrow> rx_queue res" where
  "rx_packet_received iss data timestamp s = (let dbuff = dbuff_size (queue_base.more s) in
     if dbuff = 0 then Fault
     else let num_descs = (length data + dbuff - 1) div dbuff in
       if \<not> q_enabled s then Ok s
       else if length (dcache (queue_base.more s)) < num_descs then Ok s
       else rfold (rx_part iss data timestamp dbuff num_descs) [0..<num_descs] s)"

text \<open>
  \<open>ptp_should_sample_rx\<close>: both timers enabled, and UDP to a PTP port or the PTP
  Ethernet type.
\<close>

definition ptp_should_sample_rx :: "u32 \<Rightarrow> u32 \<Rightarrow> u8 list \<Rightarrow> bool option" where
  "ptp_should_sample_rx gltsyn_ena0 gltsyn_ena1 p =
     (if \<not> bit gltsyn_ena0 0 \<or> \<not> bit gltsyn_ena1 0 then Some False
      else if length p < 38 then None
      else if be16 p 12 = 0x0800 \<and> p ! 23 = 17 then Some (be16 p 36 = 319 \<or> be16 p 36 = 320)
      else Some (be16 p 12 = 0x88f7))"

section \<open>The receive queue is a queue class\<close>

definition rx_held :: "lan_rx \<Rightarrow> (nat \<times> desc_state) list" where
  "rx_held m = map (\<lambda>p. (p, DESC_PROCESSING)) (dcache m)"

text \<open>The interrupt vector configured for the queue exists.\<close>

definition irq_ok :: "'b lan_base_scheme \<Rightarrow> bool" where
  "irq_ok m \<longleftrightarrow> length (dyn_ctln m) = 2047 \<and> unat (reg_intqctl m AND 0x7ff) mod 256 < NUM_MSIX_IRQs"

text \<open>Contexts waiting in \<open>dcache\<close> keep their place and their descriptor; more may join behind them.\<close>

definition rx_rel :: "rx_queue \<Rightarrow> rx_queue \<Rightarrow> bool" where
  "rx_rel s s' \<longleftrightarrow> (\<exists>new. dcache (queue_base.more s') = dcache (queue_base.more s) @ new) \<and> data_events s' = data_events s \<and>
     (\<forall>p \<in> set (dcache (queue_base.more s)). c_desc (desc_ctxs s' ! p) = c_desc (desc_ctxs s ! p)) \<and>
     dbuff_size (queue_base.more s') = dbuff_size (queue_base.more s)"

abbreviation rx_inv :: "(nat \<times> desc_state) list \<Rightarrow> rx_queue \<Rightarrow> bool" where
  "rx_inv \<equiv> queue_inv rx_held (\<lambda>_. True) irq_ok 32"

lemma rx_rel_trans: "rx_rel s1 s2 \<Longrightarrow> rx_rel s2 s3 \<Longrightarrow> rx_rel s1 s3"
  unfolding rx_rel_def by auto

lemma rx_rel_frame: "frame_ok rx_held s1 s2 \<Longrightarrow> rx_rel s1 s2"
  by (auto simp: rx_rel_def frame_ok_def rx_held_def)

lemma irq_index: "irq_ok m \<Longrightarrow> unat (reg_intqctl m AND 0x7ff) < length (dyn_ctln m)"
proof -
  assume i: "irq_ok m"
  have "unat (reg_intqctl m AND 0x7ff) \<le> unat (0x7ff :: u32)"
    by (simp only: word_le_nat_alt [symmetric] word_and_le1)
  moreover have "unat (reg_intqctl m AND 0x7ff) \<noteq> 2047" using i by (auto simp: irq_ok_def)
  ultimately show ?thesis using i by (simp add: irq_ok_def)
qed

text \<open>Changing the derived state or the event log does not touch the ring.\<close>

lemma work_outer [simp]:
  "work (queue_base.more_update f s) = work s" "work (s\<lparr>q_events := e\<rparr>) = work s"
  by (simp_all add: work_def wsum_def true_avail_def next_idx_def)

lemma ring_outer [simp]:
  "ring_ok (queue_base.more_update f s) = ring_ok s" "ring_ok (s\<lparr>q_events := e\<rparr>) = ring_ok s"
  "st_at (queue_base.more_update f s) p = st_at s p" "st_at (s\<lparr>q_events := e\<rparr>) p = st_at s p"
  "ctx_ok cinv dl (queue_base.more_update f s) = ctx_ok cinv dl s" "ctx_ok cinv dl (s\<lparr>q_events := e\<rparr>) = ctx_ok cinv dl s"
  "owns L (queue_base.more_update f s) = owns L s" "owns L (s\<lparr>q_events := e\<rparr>) = owns L s"
  by (simp_all add: ring_ok_def st_at_def ctx_ok_def owns_def)

lemma rx_interrupt_ok:
  assumes "rx_inv L s"
  shows "safe (lan_interrupt s) (\<lambda>s'. rx_inv L s' \<and> qstep rx_rel s s')"
proof -
  let ?m = "queue_base.more s"
  have irq: "irq_ok ?m" using assms by (simp add: queue_inv_def)
  have i: "unat (reg_intqctl ?m AND 0x7ff) < length (dyn_ctln ?m)" "unat (reg_intqctl ?m AND 0x7ff) mod 256 < 16"
    using irq_index [OF irq] irq by (auto simp: irq_ok_def)
  have k: "rx_held (m\<lparr>pfint_icr0 := v\<rparr>) = rx_held m" "irq_ok (m\<lparr>pfint_icr0 := v\<rparr>) = irq_ok m" for m v
    by (simp_all add: rx_held_def irq_ok_def)
  show ?thesis
    using assms i
    by (auto simp: lan_interrupt_def msix_issue_def Let_def queue_inv_def k qstep_def prog_def stable_def rx_rel_def data_events_def)
qed

lemma rx_process_ok:
  assumes "rx_inv ((p, DESC_PROCESSING) # L) s"
  shows "safe (rx_process p s) (\<lambda>s'. rx_inv L s' \<and> qstep rx_rel s s')"
proof -
  let ?s = "rx_more (\<lambda>m. m\<lparr>dcache := dcache m @ [p]\<rparr>) s"
  have "owns ((p, DESC_PROCESSING) # L @ rx_held (queue_base.more s)) s" using assms by (simp add: queue_inv_def)
  then have "owns (L @ rx_held (queue_base.more ?s)) s" by (rule owns_mset [rotated]) (simp add: rx_held_def)
  then have "rx_inv L ?s" using assms by (simp add: queue_inv_def irq_ok_def)
  moreover have "qstep rx_rel s ?s" by (simp add: qstep_def prog_def stable_def rx_rel_def data_events_def)
  ultimately show ?thesis by (simp add: rx_process_def)
qed

interpretation rxq: queue_class rx_held "\<lambda>_. True" irq_ok 32 rx_rel rx_vt
proof unfold_locales
  fix iss n p L s
  assume "rx_inv ((p, DESC_PREPARING) # L) s"
  from prepared_base [OF this] show "safe (v_prepare (rx_vt iss) p s) (\<lambda>s'. rx_inv L s' \<and> qstep rx_rel s s')"
    using rx_rel_frame by (auto simp: rx_vt_def qstep_def)
next
  fix iss p L s
  assume "rx_inv ((p, DESC_PROCESSING) # L) s"
  from processed_base [OF this, of "\<lambda>c. c"] show "safe (v_processed (rx_vt iss) p s) (\<lambda>s'. rx_inv L s' \<and> qstep rx_rel s s')"
    using rx_rel_frame by (auto simp: rx_vt_def qstep_def upd_ctx_def)
qed (auto simp: rx_vt_def intro: rx_rel_trans rx_rel_frame rx_process_ok rx_interrupt_ok do_writeback_base)

section \<open>Receiving\<close>

lemma length_rx_desc: "length d = 32 \<Longrightarrow> length (rx_desc n ts b d) = 32"
  by (auto simp: rx_desc_def Let_def split: option.split)

lemma rx_part_step:
  assumes i: "rx_inv [] s" and d: "dcache (queue_base.more s) = p # ps" and w: "work s < n"
  shows "safe (rx_ctx_packet_received (IssueDma rx_vt n) p buf ts b (rx_more (\<lambda>m. m\<lparr>dcache := ps\<rparr>) s))
    (\<lambda>s'. rx_inv [] s' \<and> work s' \<le> work s \<and> (\<exists>new. dcache (queue_base.more s') = ps @ new) \<and>
      (\<forall>q \<in> set ps. c_desc (desc_ctxs s' ! q) = c_desc (desc_ctxs s ! q)) \<and>
      data_events s' = data_events s @ [Ev_data (le_field 0 8 (c_desc (desc_ctxs s ! p))) buf])"
proof -
  let ?s1 = "rx_more (\<lambda>m. m\<lparr>dcache := ps\<rparr>) s"
  let ?f = "\<lambda>c. c\<lparr>c_desc := rx_desc (length buf) ts b (c_desc c)\<rparr> :: desc_ctx"
  let ?s2 = "upd_ctx p ?f ?s1" and ?a = "le_field 0 8 (c_desc (desc_ctxs s ! p)) :: u64"
  let ?op = "dma_data_wb p ?a buf"
  have own: "owns ((p, DESC_PROCESSING) # rx_held (queue_base.more ?s1)) s" and ok: "ctx_ok (\<lambda>_. True) 32 s"
    using i d by (simp_all add: queue_inv_def rx_held_def)
  have i1: "rx_inv [(p, DESC_PROCESSING)] ?s1" using i own by (simp add: queue_inv_def irq_ok_def)
  have st: "st_at s p = DESC_PROCESSING" "p < 128" using ownsD [OF own, of p DESC_PROCESSING] by simp_all
  have "length (c_desc (desc_ctxs s ! p)) = 32" using ctx_ok_desc [OF ok, of p] st by simp
  then have l: "length (c_desc (?f (desc_ctxs s ! p))) = 32" by (simp add: length_rx_desc)
  have "c_state (?f (desc_ctxs ?s1 ! p)) = DESC_PROCESSING" using st by (simp add: st_at_def)
  then have i2: "rx_inv [(p, DESC_PROCESSING)] ?s2" "prog ?s1 ?s2"
    using queue_inv_change [OF i1, of DESC_PROCESSING ?f] l by simp_all
  have f: "frame_ok rx_held ?s1 ?s2" by (rule rxq.inv_frame_upd [OF i1]) (use st(2) in simp)
  then have r: "rx_rel ?s1 ?s2" by (rule rx_rel_frame)
  have w2: "work ?s2 \<le> work s" using i2(2) by (simp add: prog_def)
  have "safe (IssueDma rx_vt n ?op ?s2) (\<lambda>s'. rx_inv [] s' \<and> qstep rx_rel (log_op ?op ?s2) s')"
    using issue_lawD [OF rxq.IssueDma_law [of n], of ?op "[]" ?s2] i2(1) w w2 by simp
  then have "safe (IssueDma rx_vt n ?op ?s2)
    (\<lambda>s'. rx_inv [] s' \<and> work s' \<le> work s \<and> (\<exists>new. dcache (queue_base.more s') = ps @ new) \<and>
      (\<forall>q \<in> set ps. c_desc (desc_ctxs s' ! q) = c_desc (desc_ctxs s ! q)) \<and>
      data_events s' = data_events s @ [Ev_data ?a buf])"
  proof (rule safe_mono)
    fix s' assume "rx_inv [] s' \<and> qstep rx_rel (log_op ?op ?s2) s'"
    then have s': "rx_inv [] s'" "rx_rel (log_op ?op ?s2) s'" "work s' \<le> work ?s2" by (auto simp: qstep_def prog_def)
    have m: "queue_base.more ?s2 = queue_base.more ?s1" using f by (simp add: frame_ok_def)
    have "c_desc (desc_ctxs s' ! q) = c_desc (desc_ctxs s ! q)" if q: "q \<in> set ps" for q
    proof -
      have "c_desc (desc_ctxs s' ! q) = c_desc (desc_ctxs ?s2 ! q)" using s'(2) q m by (simp add: rx_rel_def)
      also have "\<dots> = c_desc (desc_ctxs ?s1 ! q)" using r q by (simp add: rx_rel_def)
      finally show ?thesis by simp
    qed
    moreover have "data_events ?s2 = data_events s" using r by (simp add: rx_rel_def data_events_def)
    moreover have "\<exists>new. dcache (queue_base.more s') = ps @ new" using s'(2) m by (simp add: rx_rel_def)
    ultimately show "rx_inv [] s' \<and> work s' \<le> work s \<and> (\<exists>new. dcache (queue_base.more s') = ps @ new) \<and>
      (\<forall>q \<in> set ps. c_desc (desc_ctxs s' ! q) = c_desc (desc_ctxs s ! q)) \<and>
      data_events s' = data_events s @ [Ev_data ?a buf]"
      using s' w2 by (simp add: rx_rel_def data_events_def)
  qed
  then show ?thesis using st(2) by (simp add: rx_ctx_packet_received_def data_write_def)
qed

text \<open>The parts of a packet.\<close>

definition chunk :: "nat \<Rightarrow> u8 list \<Rightarrow> nat \<Rightarrow> u8 list" where
  "chunk n data i = take n (drop (n * i) data)"

lemma concat_chunks: "concat (map (chunk n data) [0..<k]) = take (n * k) data"
proof (induction k)
  case (Suc k)
  have "take (n * k) data @ take n (drop (n * k) data) = take (n * k + n) data" by (simp add: take_add)
  then show ?case using Suc by (simp add: chunk_def add.commute)
qed simp

lemma last_chunk:
  assumes "0 < n" "i = (length data + n - 1) div n - 1"
  shows "drop (n * i) data = chunk n data i"
proof -
  have "length data \<le> n * ((length data + n - 1) div n)"
    using assms(1) dividend_less_times_div [of n "length data + n - 1"] by linarith
  then have "length (drop (n * i) data) \<le> n" using assms(2) by (simp add: diff_mult_distrib2)
  then show ?thesis by (simp add: chunk_def)
qed

text \<open>The event of part \<open>i\<close>: written to the buffer of the \<open>i\<close>-th waiting descriptor.\<close>

definition part_event :: "rx_queue \<Rightarrow> u8 list \<Rightarrow> nat \<Rightarrow> event" where
  "part_event s data i = Ev_data (le_field 0 8 (c_desc (desc_ctxs s ! (dcache (queue_base.more s) ! i))))
     (chunk (dbuff_size (queue_base.more s)) data i)"

definition rx_loop_inv :: "rx_queue \<Rightarrow> u8 list \<Rightarrow> nat \<Rightarrow> rx_queue \<Rightarrow> bool" where
  "rx_loop_inv s0 data i s \<longleftrightarrow> rx_inv [] s \<and> work s \<le> work s0 \<and>
     (\<exists>new. dcache (queue_base.more s) = drop i (dcache (queue_base.more s0)) @ new) \<and>
     (\<forall>q \<in> set (drop i (dcache (queue_base.more s0))). c_desc (desc_ctxs s ! q) = c_desc (desc_ctxs s0 ! q)) \<and>
     data_events s = data_events s0 @ map (part_event s0 data) [0..<i]"

lemma rx_loop_step:
  assumes "rx_loop_inv s0 data i s" "i < num" "num \<le> length (dcache (queue_base.more s0))" "work s0 < n"
    and "0 < dbuff" "num = (length data + dbuff - 1) div dbuff" "dbuff = dbuff_size (queue_base.more s0)"
  shows "safe (rx_part (IssueDma rx_vt n) data ts dbuff num i s) (rx_loop_inv s0 data (Suc i))"
proof -
  let ?d = "dcache (queue_base.more s0)"
  have dr: "drop i ?d = ?d ! i # drop (Suc i) ?d" using assms(2,3) by (simp add: Cons_nth_drop_Suc)
  obtain new where new: "dcache (queue_base.more s) = ?d ! i # drop (Suc i) ?d @ new"
    using assms(1) dr by (auto simp: rx_loop_inv_def)
  have inv: "rx_inv [] s" "work s < n" using assms(1,4) by (auto simp: rx_loop_inv_def)
  have addr: "c_desc (desc_ctxs s ! (?d ! i)) = c_desc (desc_ctxs s0 ! (?d ! i))"
    using assms(1) dr by (simp add: rx_loop_inv_def)
  define b where "b = (i = num - 1)"
  have c: "(if b then drop (dbuff * i) data else take dbuff (drop (dbuff * i) data)) = chunk dbuff data i"
    using last_chunk [OF assms(5), of i data] assms(6) by (auto simp: b_def chunk_def)
  then have e: "rx_part (IssueDma rx_vt n) data ts dbuff num i s = rx_ctx_packet_received (IssueDma rx_vt n) (?d ! i)
      (chunk dbuff data i) ts b (rx_more (\<lambda>m. m\<lparr>dcache := drop (Suc i) ?d @ new\<rparr>) s)"
    using new by (simp add: rx_part_def Let_def b_def split: if_splits)
  show ?thesis
    unfolding e
    by (rule safe_mono [OF rx_part_step [OF inv(1) new inv(2)]])
       (use assms(1,7) dr addr in \<open>auto simp: rx_loop_inv_def part_event_def\<close>)
qed

lemma rx_packet_loop:
  assumes "rx_inv [] s" "work s < n" "0 < dbuff_size (queue_base.more s)"
    and "num = (length data + dbuff_size (queue_base.more s) - 1) div dbuff_size (queue_base.more s)"
    and l: "num \<le> length (dcache (queue_base.more s))"
  shows "safe (rx_packet_received (IssueDma rx_vt n) data ts s) (rx_loop_inv s data num)"
proof -
  let ?b = "dbuff_size (queue_base.more s)"
  have en: "q_enabled s" using assms(1) by (simp add: queue_inv_def)
  have "rx_loop_inv s data 0 s" using assms(1) by (simp add: rx_loop_inv_def)
  then have "safe (rfold (rx_part (IssueDma rx_vt n) data ts ?b num) [0..<num] s) (rx_loop_inv s data num)"
    by (rule rfold_upt) (use rx_loop_step [OF _ _ l assms(2,3,4) refl] in simp_all)
  then show ?thesis using en l assms(3,4) by (simp add: rx_packet_received_def Let_def)
qed

lemma chunks_cover:
  fixes b :: nat
  assumes "0 < b" "num = (length data + b - 1) div b"
  shows "concat (map (chunk b data) [0..<num]) = data"
proof -
  have "length data \<le> b * num" using assms dividend_less_times_div [of b "length data + b - 1"] by simp
  then show ?thesis by (simp add: concat_chunks)
qed

text \<open>
  C9: a received packet reaches the guest intact and in order.  With enough
  waiting descriptors, \<open>packet_received\<close> violates no assertion and, unless a
  buffer address is not mapped, writes the packet in parts of the buffer size,
  the \<open>i\<close>-th part to the address in the \<open>i\<close>-th waiting descriptor, although each
  write completes at once and re-enters the queue; no other packet data is
  written, the parts make up the packet, those descriptors leave \<open>dcache\<close> and the
  invariant of the queue holds again.  With too few descriptors nothing happens.
\<close>

theorem rx_deliver:
  assumes "rx_inv [] s" "work s < n" "0 < dbuff_size (queue_base.more s)"
    and "num = (length data + dbuff_size (queue_base.more s) - 1) div dbuff_size (queue_base.more s)"
  shows "(num \<le> length (dcache (queue_base.more s)) \<longrightarrow>
      safe (rx_packet_received (IssueDma rx_vt n) data ts s) (\<lambda>s'. rx_inv [] s' \<and>
        (\<exists>new. dcache (queue_base.more s') = drop num (dcache (queue_base.more s)) @ new) \<and>
        data_events s' = data_events s @ map (part_event s data) [0..<num])) \<and>
    concat (map (chunk (dbuff_size (queue_base.more s)) data) [0..<num]) = data \<and>
    (length (dcache (queue_base.more s)) < num \<longrightarrow> rx_packet_received (IssueDma rx_vt n) data ts s = Ok s)"
proof (intro conjI impI)
  assume l: "num \<le> length (dcache (queue_base.more s))"
  show "safe (rx_packet_received (IssueDma rx_vt n) data ts s) (\<lambda>s'. rx_inv [] s' \<and>
        (\<exists>new. dcache (queue_base.more s') = drop num (dcache (queue_base.more s)) @ new) \<and>
        data_events s' = data_events s @ map (part_event s data) [0..<num])"
    by (rule safe_mono [OF rx_packet_loop [OF assms l]]) (auto simp: rx_loop_inv_def)
next
  show "concat (map (chunk (dbuff_size (queue_base.more s)) data) [0..<num]) = data" using assms(3,4) by (rule chunks_cover)
next
  assume "length (dcache (queue_base.more s)) < num"
  then show "rx_packet_received (IssueDma rx_vt n) data ts s = Ok s"
    using assms(1,3,4) by (simp add: rx_packet_received_def Let_def queue_inv_def)
qed

definition demo_rx :: rx_queue where
  "demo_rx = \<lparr>q_vfu = \<lparr>mapped = {}, sgs = {}, mappings = [(0x1000, 0x1000, 0x1000)], iommu_calls = []\<rparr>, q_mem = (\<lambda>_. 0),
     q_events = [], desc_ctxs = \<lparr>c_state = DESC_PROCESSING, c_index = 0, c_desc = le_bytes 8 (0x1000 :: u64) @ replicate 24 0, c_data = []\<rparr> #
       replicate 127 \<lparr>c_state = DESC_EMPTY, c_index = 0, c_desc = [], c_data = []\<rparr>,
     active_first_pos = 0, active_first_idx = 0, active_cnt = 1, q_base = 0x1800, q_len = 8, reg_head = 0, reg_tail = 1,
     q_enabled = True, desc_len = 32, \<dots> = \<lparr>enabling = False, lq_idx = 0, reg_ena = 5, reg_intqctl = 0,
       dyn_ctln = replicate 2047 0, pfint_icr0 = 0, dcache = [0], dbuff_size = 128, hbuff_size = 0, rxmax = 1536, crc_strip = False\<rparr>\<rparr>"

lemma demo_rx_st: "st_at demo_rx p = (if p mod 128 = 0 then DESC_PROCESSING else DESC_EMPTY)"
  by (simp add: st_at_def demo_rx_def nth_Cons')

lemma demo_rx_inv: "rx_inv [] demo_rx" "work demo_rx = 4"
proof -
  have r: "ring_ok demo_rx"
    unfolding ring_ok_def demo_rx_st by (auto simp: demo_rx_def)
  have "{(p, st_at demo_rx p) | p. p < 128 \<and> busy (st_at demo_rx p)} = {(0, DESC_PROCESSING)}"
    unfolding demo_rx_st by auto
  then have o: "owns ([] @ rx_held (queue_base.more demo_rx)) demo_rx" by (simp add: owns_def rx_held_def demo_rx_def)
  have "ctx_ok (\<lambda>_. True) 32 demo_rx" unfolding ctx_ok_def demo_rx_st by (auto simp: demo_rx_def)
  then show "rx_inv [] demo_rx" using r o by (simp add: queue_inv_def irq_ok_def) (simp add: demo_rx_def)
  show "work demo_rx = 4"
    using next_idx_eq [OF r] by (simp add: work_def wsum_def true_avail_def demo_rx_def sum_list_replicate)
qed

theorem rx_deliver_witness:
  "safe (rx_packet_received (IssueDma rx_vt 5) [1, 2, 3] None demo_rx) (\<lambda>s'. data_events s' = [Ev_data 0x1000 [1, 2, 3]]) \<and>
   rx_packet_received (IssueDma rx_vt 5) (replicate 200 7) None demo_rx = Ok demo_rx"
proof -
  have b: "dbuff_size (queue_base.more demo_rx) = 128" "dcache (queue_base.more demo_rx) = [0]" by (simp_all add: demo_rx_def)
  have "part_event demo_rx [1, 2, 3] 0 = Ev_data 0x1000 [1, 2, 3]"
    using le_word_le_bytes [of 8 "0x1000 :: u64"] by (simp add: part_event_def chunk_def demo_rx_def le_field_def)
  moreover have "data_events demo_rx = []" by (simp add: data_events_def demo_rx_def)
  moreover have "safe (rx_packet_received (IssueDma rx_vt 5) [1, 2, 3] None demo_rx)
      (\<lambda>s'. data_events s' = data_events demo_rx @ map (part_event demo_rx [1, 2, 3]) [0..<1])"
    using rx_deliver [of demo_rx 5 1 "[1, 2, 3]" None] demo_rx_inv b by (auto elim: safe_mono)
  moreover have "rx_packet_received (IssueDma rx_vt 5) (replicate 200 7) None demo_rx = Ok demo_rx"
    using rx_deliver [of demo_rx 5 2 "replicate 200 7" None] demo_rx_inv b by simp
  ultimately show ?thesis by simp
qed

section \<open>The doorbell\<close>

lemma wsum_le: "length (desc_ctxs s) = 128 \<Longrightarrow> wsum s \<le> 2432"
proof -
  have w: "weight d \<le> 19" for d by (cases d) simp_all
  have "sum_list (map (\<lambda>c. weight (c_state c)) cs) \<le> 19 * length cs" for cs :: "desc_ctx list"
  proof (induction cs)
    case (Cons c cs)
    then show ?case using w [of "c_state c"] by simp
  qed simp
  from this [of "desc_ctxs s"] show "length (desc_ctxs s) = 128 \<Longrightarrow> wsum s \<le> 2432" by (simp add: wsum_def)
qed

lemma work_le: "ring_ok s \<Longrightarrow> work s \<le> 20 * q_len s + 2432"
proof -
  assume r: "ring_ok s"
  note d = ring_okD [OF r]
  have "true_avail s < q_len s" using d(4) by (simp add: true_avail_def)
  then show ?thesis using wsum_le [OF d(1)] by (simp add: work_def)
qed

text \<open>
  C10: a doorbell is always handled to the end.  Whatever value the driver writes
  to the tail register of an enabled receive queue, \<open>reg_updated\<close> fetches,
  prepares and queues descriptors without violating an assertion or leaving an
  array, and the recursion through the synchronous DMA completions ends within
  a depth of 20 per ring entry and 19 per context; afterwards the invariant holds
  with no operation in flight, so every busy context is in processing and waits
  in \<open>dcache\<close>.
\<close>

theorem rx_doorbell:
  assumes "rx_inv [] s" "t < 2 ^ 32" "20 * q_len s + 2432 \<le> n"
  shows "safe (reg_updated (rx_vt (IssueDma rx_vt n)) (IssueDma rx_vt n) (s\<lparr>reg_tail := t\<rparr>)) (\<lambda>s'. rx_inv [] s' \<and>
      (\<forall>p < 128. busy (st_at s' p) \<longleftrightarrow> st_at s' p = DESC_PROCESSING \<and> p \<in> set (dcache (queue_base.more s'))))"
proof -
  let ?s = "s\<lparr>reg_tail := t\<rparr>"
  have i: "rx_inv [] ?s"
    using assms(1,2) by (simp add: queue_inv_def ring_ok_def owns_def ctx_ok_def st_at_def)
  then have "work ?s \<le> n" using work_le [of ?s] assms(3) by (auto simp: queue_inv_def)
  then have "safe (reg_updated (rx_vt (IssueDma rx_vt n)) (IssueDma rx_vt n) ?s) (\<lambda>s'. rx_inv [] s' \<and> qstep rx_rel ?s s')"
    by (rule rxq.reg_updated_ok [OF i])
  then show ?thesis
  proof (rule safe_mono)
    fix s' assume "rx_inv [] s' \<and> qstep rx_rel ?s s'"
    then have "rx_inv [] s'" and o: "owns (rx_held (queue_base.more s')) s'" by (simp_all add: queue_inv_def)
    moreover have "busy (st_at s' p) \<longleftrightarrow> st_at s' p = DESC_PROCESSING \<and> p \<in> set (dcache (queue_base.more s'))" if "p < 128" for p
    proof -
      have "busy (st_at s' p) \<longleftrightarrow> (p, st_at s' p) \<in> set (rx_held (queue_base.more s'))"
        using o that unfolding owns_def by auto
      then show ?thesis by (auto simp: rx_held_def)
    qed
    ultimately show "rx_inv [] s' \<and> (\<forall>p < 128. busy (st_at s' p) \<longleftrightarrow> st_at s' p = DESC_PROCESSING \<and> p \<in> set (dcache (queue_base.more s')))"
      by blast
  qed
qed

theorem rx_doorbell_witness:
  "reg_updated (rx_vt (IssueDma rx_vt 3000)) (IssueDma rx_vt 3000) (demo_rx\<lparr>reg_tail := 3\<rparr>) \<noteq> Fault"
  using rx_doorbell [OF demo_rx_inv(1), of 3 3000] safe_not_Fault by (auto simp: demo_rx_def)

lemma avail_power_of_two:
  assumes "ring_ok s" "q_len s dvd 2 ^ 32"
  shows "sub32 (reg_tail s) (next_idx s) mod q_len s = true_avail s"
proof -
  note d = ring_okD [OF assms(1)]
  have n: "next_idx s < q_len s" using d(4) by (simp add: next_idx_def)
  show ?thesis
  proof (cases "next_idx s \<le> reg_tail s")
    case True
    then show ?thesis unfolding true_avail_def using d(7) mod_sub_eq [OF n True] by simp
  next
    case False
    obtain k where k: "2 ^ 32 = q_len s * k" using assms(2) by (rule dvdE)
    then have "0 < k" by (cases k) simp_all
    then have "2 ^ 32 - next_idx s = (q_len s - next_idx s) + (k - 1) * q_len s"
      using k n by (cases k) (simp_all add: algebra_simps)
    then have "(reg_tail s + (2 ^ 32 - next_idx s)) mod q_len s = (reg_tail s + (q_len s - next_idx s)) mod q_len s"
      by (metis add.assoc mod_mult_self1)
    moreover have "next_idx s < 2 ^ 32" using n d(5) by simp
    ultimately show ?thesis using False by (simp add: sub32_wrap true_avail_def mod_add_left_eq)
  qed
qed

text \<open>
  Fetching respects the ring.  A fetch never takes more descriptors than there
  are free contexts, never crosses the end of the ring and never passes the
  tail; when the ring size divides \<open>2^32\<close> it takes as many as these limits
  allow.
\<close>

theorem fetch_respects_ring:
  assumes "ring_ok s"
  shows "fetch_cnt s \<le> 128 - active_cnt s \<and> next_idx s + fetch_cnt s \<le> q_len s \<and> fetch_cnt s \<le> true_avail s \<and>
    (q_len s dvd 2 ^ 32 \<longrightarrow> fetch_cnt s = min (true_avail s) (min (128 - active_cnt s) (q_len s - next_idx s)))"
proof -
  note d = ring_okD [OF assms]
  have n: "next_idx s < q_len s" and a: "true_avail s < q_len s" using d(4) by (simp_all add: next_idx_def true_avail_def)
  have "fetch_cnt s = min (true_avail s) (min (128 - active_cnt s) (q_len s - next_idx s))" if "q_len s dvd 2 ^ 32"
  proof -
    let ?c = "min (true_avail s) (128 - active_cnt s)"
    have "fetch_cnt s = (if q_len s < next_idx s + ?c then q_len s - next_idx s else ?c)"
      using avail_power_of_two [OF assms that] d(3,5) n a
      by (simp add: fetch_cnt_def Let_def max_active_capacity_def max_fetch_capacity_def)
    then show ?thesis using n by (auto simp: min_def)
  qed
  then show ?thesis using fetch_cnt_bounds [OF assms] by blast
qed

theorem fetch_respects_ring_witness:
  "ring_ok (demo_rx\<lparr>reg_tail := 3\<rparr>) \<and> fetch_cnt (demo_rx\<lparr>reg_tail := 3\<rparr>) = 2"
proof -
  have r: "ring_ok (demo_rx\<lparr>reg_tail := 3\<rparr>)"
    using demo_rx_inv(1) by (simp add: queue_inv_def ring_ok_def st_at_def)
  have "next_idx (demo_rx\<lparr>reg_tail := 3\<rparr>) = 1" using next_idx_eq [OF r] by (simp add: demo_rx_def)
  then show ?thesis using fetch_respects_ring [OF r] r by (simp add: true_avail_def) (simp add: demo_rx_def)
qed

text \<open>
  A ring whose size is not a power of two can stall.  The subtraction of the
  indices wraps at \<open>2^32\<close>, which is not a multiple of the ring size: in a ring of
  96 descriptors with none active, the tail 64 places behind the next index
  offers 32 descriptors, but none is fetched until the tail moves.
\<close>

theorem fetch_stalls:
  "\<exists>s :: rx_queue. rx_inv [] s \<and> q_len s = 96 \<and> active_cnt s = 0 \<and> true_avail s = 32 \<and> fetch_cnt s = 0"
proof -
  define s where "s = demo_rx\<lparr>desc_ctxs := replicate 128 \<lparr>c_state = DESC_EMPTY, c_index = 0, c_desc = [], c_data = []\<rparr>,
    active_first_idx := 64, active_cnt := 0, q_len := 96, reg_tail := 0, queue_base.more := (queue_base.more demo_rx)\<lparr>dcache := []\<rparr>\<rparr>"
  have st: "st_at s p = DESC_EMPTY" for p by (simp add: st_at_def s_def)
  have r: "ring_ok s" unfolding ring_ok_def st by (simp add: s_def demo_rx_def)
  have "rx_inv [] s"
    unfolding queue_inv_def owns_def ctx_ok_def st using r by (simp add: s_def rx_held_def irq_ok_def demo_rx_def)
  moreover have n: "next_idx s = 64" using next_idx_eq [OF r] by (simp add: s_def)
  moreover have "sub32 0 64 mod 96 = 0" by (simp add: sub32_def)
  ultimately have "rx_inv [] s \<and> q_len s = 96 \<and> active_cnt s = 0 \<and> true_avail s = 32 \<and> fetch_cnt s = 0"
    by (simp add: true_avail_def fetch_cnt_def Let_def max_active_capacity_def max_fetch_capacity_def n) (simp add: s_def)
  then show ?thesis by blast
qed

end
