(* ===== verification/Nic_Xsum.thy ===== *)
theory Nic_Xsum
  imports Vmux_Prelude "HOL-Library.Monad_Syntax"
begin

text \<open>
  Checksum offload of the E810 model (\<open>xsums.cc\<close>): the 16-bit one's complement
  sum, the UDP and TCP checksums of a packet in the transmit buffer, and the
  header rewriting of TCP segmentation.
\<close>

section \<open>The raw sum\<close>

text \<open>The 16-bit loads of the loops: little-endian, as on the host.\<close>

definition u16_at :: "u8 list \<Rightarrow> nat \<Rightarrow> u32" where
  "u16_at bs i = ucast (le_field (2 * i) 2 bs :: u16)"

text \<open>The unrolled loop over eight bytes, then the loop over two bytes; the unread bytes are returned.\<close>

function raw_loop4 :: "u8 list \<Rightarrow> u32 \<Rightarrow> u8 list \<times> u32" where
  "raw_loop4 bs s =
     (if 8 \<le> length bs then raw_loop4 (drop 8 bs) (s + u16_at bs 0 + u16_at bs 1 + u16_at bs 2 + u16_at bs 3)
      else (bs, s))"
  by auto
termination by (relation "measure (\<lambda>(bs, _). length bs)") auto

declare raw_loop4.simps [simp del]

fun raw_loop1 :: "u8 list \<Rightarrow> u32 \<Rightarrow> u8 list \<times> u32" where
  "raw_loop1 (a # b # bs) s = raw_loop1 bs (s + u16_at (a # b # bs) 0)"
| "raw_loop1 bs s = (bs, s)"

definition raw_cksum_sum :: "u8 list \<Rightarrow> u32 \<Rightarrow> u32" where
  "raw_cksum_sum bs s =
     (case raw_loop4 bs s of (bs, s) \<Rightarrow>
      (case raw_loop1 bs s of (bs, s) \<Rightarrow>
       (if length bs = 1 then s + ucast (bs ! 0) else s)))"

definition fold16 :: "u32 \<Rightarrow> u32" where
  "fold16 s = drop_bit 16 (s AND 0xffff0000) + (s AND 0xffff)"

definition raw_cksum_reduce :: "u32 \<Rightarrow> u16" where
  "raw_cksum_reduce s = ucast (fold16 (fold16 s))"

definition rte_raw_cksum :: "u8 list \<Rightarrow> u16" where
  "rte_raw_cksum bs = raw_cksum_reduce (raw_cksum_sum bs 0)"

section \<open>Checksums of the headers in the packet buffer\<close>

text \<open>The bytes of a header and what follows it; \<open>None\<close> if they leave the buffer.\<close>

definition sub_buf :: "nat \<Rightarrow> nat \<Rightarrow> u8 list \<Rightarrow> u8 list option" where
  "sub_buf off n p = (if off + n \<le> length p then Some (take n (drop off p)) else None)"

definition put16 :: "nat \<Rightarrow> u16 \<Rightarrow> u8 list \<Rightarrow> u8 list option" where
  "put16 off v p = (if off + 2 \<le> length p then Some (put_bytes off (le_bytes 2 v) p) else None)"

definition put_be16 :: "nat \<Rightarrow> u16 \<Rightarrow> u8 list \<Rightarrow> u8 list option" where
  "put_be16 off v p = (if off + 2 \<le> length p then Some (put_bytes off (rev (le_bytes 2 v)) p) else None)"

definition put_be32 :: "nat \<Rightarrow> u32 \<Rightarrow> u8 list \<Rightarrow> u8 list option" where
  "put_be32 off v p = (if off + 4 \<le> length p then Some (put_bytes off (rev (le_bytes 4 v)) p) else None)"

text \<open>The complement of a folded sum (\<open>(~cksum) & 0xffff\<close>).\<close>

definition cksum_finish :: "u32 \<Rightarrow> u16" where
  "cksum_finish cksum = ucast (NOT (fold16 cksum) AND 0xffff)"

definition xsum_udp :: "nat \<Rightarrow> nat \<Rightarrow> u8 list \<Rightarrow> u8 list option" where
  "xsum_udp udphdr l4_len p = do {
     bs \<leftarrow> sub_buf udphdr l4_len p;
     put16 (udphdr + 6) (cksum_finish (ucast (rte_raw_cksum bs))) p
   }"

definition xsum_tcp :: "nat \<Rightarrow> nat \<Rightarrow> u8 list \<Rightarrow> u8 list option" where
  "xsum_tcp tcphdr l4_len p = do {
     bs \<leftarrow> sub_buf tcphdr l4_len p;
     put16 (tcphdr + 16) (cksum_finish (ucast (rte_raw_cksum bs))) p
   }"

text \<open>The pseudo header: addresses, a zero byte, the protocol and the length behind a 20-byte header.\<close>

definition rte_ipv4_phdr :: "u8 list \<Rightarrow> nat \<Rightarrow> u8 list" where
  "rte_ipv4_phdr p ih = take 4 (drop (ih + 12) p) @ take 4 (drop (ih + 16) p) @ [0, p ! (ih + 9)] @
     rev (le_bytes 2 (be16 p (ih + 2) - 20))"

definition rte_ipv4_phdr_cksum :: "u8 list \<Rightarrow> nat \<Rightarrow> u16 option" where
  "rte_ipv4_phdr_cksum p ih = (if ih + 20 \<le> length p then Some (rte_raw_cksum (rte_ipv4_phdr p ih)) else None)"

definition xsum_tcpip_tso :: "nat \<Rightarrow> u8 \<Rightarrow> u8 \<Rightarrow> u16 \<Rightarrow> u8 list \<Rightarrow> u8 list option" where
  "xsum_tcpip_tso ih iplen l4len paylen p = do {
     let tcph = ih + unat iplen;
     p \<leftarrow> put_be16 (ih + 2) (ucast iplen + ucast l4len + paylen) p;
     p \<leftarrow> put16 (ih + 10) 0 p;
     bs \<leftarrow> sub_buf ih (unat iplen) p;
     p \<leftarrow> put16 (ih + 10) (cksum_finish (ucast (rte_raw_cksum bs))) p;
     p \<leftarrow> put16 (tcph + 16) 0 p;
     bs \<leftarrow> sub_buf tcph (unat l4len + unat paylen) p;
     ph \<leftarrow> rte_ipv4_phdr_cksum p ih;
     put16 (tcph + 16) (cksum_finish (ucast (rte_raw_cksum bs) + ucast ph)) p
   }"

definition tso_postupdate_header :: "nat \<Rightarrow> u8 \<Rightarrow> u8 \<Rightarrow> u16 \<Rightarrow> u8 list \<Rightarrow> u8 list option" where
  "tso_postupdate_header ih iplen l4len paylen p = do {
     let tcph = ih + unat iplen;
     p \<leftarrow> put_be32 (tcph + 4) (be32 p (tcph + 4) + ucast paylen) p;
     put_be16 (ih + 4) (be16 p (ih + 4) + 1) p
   }"

section \<open>The reference: sums of 16-bit words\<close>

fun sum16 :: "u8 list \<Rightarrow> nat" where
  "sum16 [] = 0"
| "sum16 [a] = unat a"
| "sum16 (a # b # bs) = unat a + 256 * unat b + sum16 bs"

lemma sum16_append: "even (length xs) \<Longrightarrow> sum16 (xs @ ys) = sum16 xs + sum16 ys"
  by (induction xs rule: sum16.induct) auto

lemma sum16_le: "sum16 bs \<le> 65535 * ((length bs + 1) div 2)"
proof (induction bs rule: sum16.induct)
  case (3 a b bs)
  have "unat a \<le> 255" "unat b \<le> 255" using unat_lt [of a] unat_lt [of b] by simp_all
  with 3 show ?case by simp
next
  case (2 a)
  show ?case using unat_lt [of a] by simp
qed simp

lemma unat_le_word2: "unat (le_word [a, b] :: u16) = unat a + 256 * unat b"
proof -
  have "(le_word [a, b] :: u16) = ucast a + push_bit 8 (ucast b)"
    by (subst disjunctive_add) (auto simp: bit_simps dest: bit_imp_le_length)
  then have "(le_word [a, b] :: u16) = of_nat (unat a + 256 * unat b)"
    by (simp add: push_bit_eq_mult)
  moreover have "unat a + 256 * unat b < 2 ^ 16" using unat_lt [of a] unat_lt [of b] by simp
  ultimately show ?thesis by (simp add: unat_of_nat del: le_word.simps of_nat_add)
qed

lemma u16_at_0: "unat (u16_at (a # b # bs) 0) = unat a + 256 * unat b"
  by (simp add: u16_at_def le_field_def unat_u16_u32 unat_le_word2 del: le_word.simps)

lemma unat_add_bounded: "unat a + unat b < 2 ^ LENGTH('a) \<Longrightarrow> unat (a + b :: 'a::len word) = unat a + unat b"
  by (simp add: unat_word_ariths(1))

text \<open>Both loops add the 16-bit words they consume.\<close>

lemma raw_loop4_sum:
  assumes "unat s + sum16 bs < 2 ^ 32" "raw_loop4 bs s = (bs', s')"
  shows "unat s' + sum16 bs' = unat s + sum16 bs"
  using assms
proof (induction bs s arbitrary: bs' s' rule: raw_loop4.induct)
  case (1 bs s)
  show ?case
  proof (cases "8 \<le> length bs")
    case True
    then obtain a0 a1 a2 a3 a4 a5 a6 a7 r where bs: "bs = a0 # a1 # a2 # a3 # a4 # a5 # a6 # a7 # r"
      by (auto simp: numeral_eq_Suc Suc_le_length_iff)
    let ?s = "s + u16_at bs 0 + u16_at bs 1 + u16_at bs 2 + u16_at bs 3"
    have w: "unat (u16_at bs 0) = unat a0 + 256 * unat a1" "unat (u16_at bs 1) = unat a2 + 256 * unat a3"
      "unat (u16_at bs 2) = unat a4 + 256 * unat a5" "unat (u16_at bs 3) = unat a6 + 256 * unat a7"
      by (simp_all add: bs u16_at_def le_field_def unat_u16_u32 unat_le_word2 del: le_word.simps)
    have s16: "sum16 bs = unat (u16_at bs 0) + unat (u16_at bs 1) + unat (u16_at bs 2) + unat (u16_at bs 3) + sum16 r"
      unfolding w by (simp add: bs)
    have "unat ?s = unat s + unat (u16_at bs 0) + unat (u16_at bs 1) + unat (u16_at bs 2) + unat (u16_at bs 3)"
      using 1(2) s16 by (simp add: unat_add_bounded)
    then have e: "unat ?s + sum16 (drop 8 bs) = unat s + sum16 bs" using s16 by (simp add: bs)
    moreover have "raw_loop4 (drop 8 bs) ?s = (bs', s')" using 1(3) True by (simp add: raw_loop4.simps [of bs s])
    ultimately show ?thesis using 1(1) [OF True _ ] 1(2) by simp
  next
    case False
    with 1(3) show ?thesis by (simp add: raw_loop4.simps [of bs s])
  qed
qed

lemma raw_loop1_sum:
  assumes "unat s + sum16 bs < 2 ^ 32" "raw_loop1 bs s = (bs', s')"
  shows "unat s' + sum16 bs' = unat s + sum16 bs \<and> (bs' = [] \<or> (\<exists>a. bs' = [a]))"
  using assms
proof (induction bs s rule: raw_loop1.induct)
  case (1 a b bs s)
  have "unat (s + u16_at (a # b # bs) 0) = unat s + (unat a + 256 * unat b)"
    using 1(2) by (subst unat_add_bounded) (simp_all add: u16_at_0)
  with 1 show ?case by simp
qed auto

lemma raw_cksum_sum16:
  assumes "unat s + sum16 bs < 2 ^ 32"
  shows "unat (raw_cksum_sum bs s) = unat s + sum16 bs"
proof -
  obtain bs1 s1 bs2 s2 where l: "raw_loop4 bs s = (bs1, s1)" "raw_loop1 bs1 s1 = (bs2, s2)" by force
  have 1: "unat s1 + sum16 bs1 = unat s + sum16 bs" using raw_loop4_sum [OF assms l(1)] .
  with assms have "unat s1 + sum16 bs1 < 2 ^ 32" by simp
  from raw_loop1_sum [OF this l(2)] 1
  have 2: "unat s2 + sum16 bs2 = unat s + sum16 bs" "bs2 = [] \<or> (\<exists>a. bs2 = [a])" by auto
  have u: "unat (ucast a :: u32) = unat a" for a :: u8
    using unat_lt [of a] by (simp add: unsigned_ucast_eq take_bit_nat_eq_self)
  from 2 assms show ?thesis unfolding raw_cksum_sum_def l(1) prod.case l(2)
    by (auto simp: unat_add_bounded u)
qed

section \<open>Folding\<close>

definition fold_nat :: "nat \<Rightarrow> nat" where
  "fold_nat s = s div 65536 + s mod 65536"

lemma unat_fold16: "unat (fold16 s) = fold_nat (unat s)"
proof -
  have m: "0xffff0000 = (push_bit 16 (mask 16) :: u32)" by (simp add: mask_eq_exp_minus_1 push_bit_eq_mult)
  have h: "drop_bit 16 (s AND 0xffff0000) = drop_bit 16 s"
    unfolding m
    by (rule bit_word_eqI)
       (auto simp: bit_drop_bit_eq bit_and_iff bit_push_bit_iff bit_mask_iff simp del: push_bit_mask_eq dest: bit_imp_le_length)
  have l: "s AND 0xffff = take_bit 16 s" by (simp add: take_bit_eq_mask mask_eq_exp_minus_1)
  have "unat (drop_bit 16 s) = unat s div 65536" by (simp add: drop_bit_eq_div unat_div)
  moreover have "unat (take_bit 16 s) = unat s mod 65536" by (simp add: take_bit_eq_mod unat_mod)
  moreover have "unat s div 65536 < 65536" "unat s mod 65536 < 65536" using unat_lt [of s] by (simp_all add: less_mult_imp_div_less)
  ultimately show ?thesis unfolding fold16_def h l fold_nat_def
    by (subst unat_add_bounded) simp_all
qed

lemma fold_nat_mod: "fold_nat s mod 65535 = s mod 65535"
proof -
  have "s = 65535 * (s div 65536) + fold_nat s" by (simp add: fold_nat_def)
  then show ?thesis by (metis mod_mult_self4)
qed

lemma fold_nat_0: "fold_nat s = 0 \<longleftrightarrow> s = 0"
  by (auto simp: fold_nat_def)

lemma fold_nat_twice: "s < 2 ^ 32 \<Longrightarrow> fold_nat (fold_nat s) < 65536"
proof -
  assume "s < 2 ^ 32"
  then have "fold_nat s \<le> 65535 + 65535" unfolding fold_nat_def by (intro add_mono) (simp_all add: less_Suc_eq_le [symmetric] less_mult_imp_div_less)
  then have f: "fold_nat s \<le> 131070" by simp
  show ?thesis
  proof (cases "fold_nat s < 65536")
    case True
    then show ?thesis by (simp add: fold_nat_def [of "fold_nat s"])
  next
    case False
    then obtain r where r: "fold_nat s = 65536 + r" using nat_le_iff_add by (auto simp: not_less)
    then have "r < 65535" using f by simp
    then show ?thesis by (simp add: r fold_nat_def [of "65536 + r"])
  qed
qed

lemma reduce_spec:
  "unat (raw_cksum_reduce s) mod 65535 = unat s mod 65535" "raw_cksum_reduce s = 0 \<longleftrightarrow> s = 0"
proof -
  have "unat (fold16 (fold16 s)) = fold_nat (fold_nat (unat s))" by (simp add: unat_fold16)
  moreover have "fold_nat (fold_nat (unat s)) < 65536" using fold_nat_twice unat_lt [of s] by simp
  ultimately have r: "unat (raw_cksum_reduce s) = fold_nat (fold_nat (unat s))"
    by (simp add: raw_cksum_reduce_def unsigned_ucast_eq take_bit_nat_eq_self)
  then show "unat (raw_cksum_reduce s) mod 65535 = unat s mod 65535" by (simp add: fold_nat_mod)
  show "raw_cksum_reduce s = 0 \<longleftrightarrow> s = 0"
    using r by (metis fold_nat_0 unat_eq_zero)
qed

lemma unat_ucast_16_32: "unat (ucast (v :: u16) :: u32) < 65536"
  using unat_lt [of v] by (simp add: unat_u16_u32)

lemma cksum_finish_spec:
  assumes "unat c \<le> 131070"
  shows "unat (cksum_finish c) + fold_nat (unat c) = 65535"
proof -
  have f: "fold_nat (unat c) < 65536"
  proof (cases "unat c < 65536")
    case False
    then obtain r where "unat c = 65536 + r" using nat_le_iff_add by (auto simp: not_less)
    with assms show ?thesis by (simp add: fold_nat_def)
  qed (simp add: fold_nat_def)
  have m: "0xffff = (mask 16 :: u32)" by (simp add: mask_eq_exp_minus_1)
  have "cksum_finish c = NOT (ucast (fold16 c))"
    unfolding cksum_finish_def m by (rule bit_word_eqI) (auto simp: bit_simps simp del: mask_numeral)
  moreover have "unat (ucast (fold16 c) :: u16) = fold_nat (unat c)"
    using f by (simp add: unsigned_ucast_eq take_bit_nat_eq_self unat_fold16)
  moreover have "unat (NOT x) = 65535 - unat x" for x :: u16
  proof -
    have "NOT x = - 1 - x" by (simp add: not_eq_complement)
    then show ?thesis using unat_sub [of x "- 1"] by (simp add: unsigned_minus_1_eq_mask mask_eq_exp_minus_1)
  qed
  ultimately show ?thesis using f by simp
qed

section \<open>Storing a checksum\<close>

lemma sum16_le_bytes: "sum16 (le_bytes 2 (v :: u16)) = unat v"
proof -
  have e: "le_bytes 2 v = [ucast v, ucast (drop_bit 8 v)]" by (simp add: le_bytes_def numeral_eq_Suc)
  have "(le_word (le_bytes 2 v) :: u16) = v" by (rule le_word_le_bytes) simp
  then show ?thesis unfolding e using unat_le_word2 [of "ucast v" "ucast (drop_bit 8 v)"] by (simp del: le_word.simps)
qed

lemma sum16_field:
  assumes "even off" "off + 2 \<le> length bs"
  shows "sum16 bs = sum16 (take off bs) + unat (le_field off 2 bs :: u16) + sum16 (drop (off + 2) bs)"
proof -
  have "length (drop off bs) \<ge> 2" using assms(2) by simp
  then obtain a b r where d: "drop off bs = a # b # r"
    by (cases "drop off bs"; cases "tl (drop off bs)") auto
  then have r: "drop (off + 2) bs = r" by (metis drop_drop add.commute drop_Suc_Cons drop0 numeral_2_eq_2)
  have "sum16 bs = sum16 (take off bs @ a # b # r)" using d by (metis append_take_drop_id)
  also have "\<dots> = sum16 (take off bs) + sum16 (a # b # r)" using assms by (intro sum16_append) simp
  finally show ?thesis using d r by (simp add: le_field_def unat_le_word2 del: le_word.simps)
qed

lemma sum16_put:
  assumes "even off" "off + 2 \<le> length bs"
  shows "sum16 (put_bytes off (le_bytes 2 v) bs) + unat (le_field off 2 bs :: u16) = sum16 bs + unat (v :: u16)"
proof -
  have "even (length (take off bs @ le_bytes 2 v))" using assms by simp
  then have "sum16 (put_bytes off (le_bytes 2 v) bs) = sum16 (take off bs) + unat v + sum16 (drop (off + 2) bs)"
    unfolding put_bytes_def append_assoc [symmetric]
    using assms by (simp only: sum16_append) (simp add: sum16_append sum16_le_bytes)
  then show ?thesis using sum16_field [OF assms] by simp
qed

text \<open>
  A receiver accepts a checksum when the sum over the covered bytes and the
  pseudo header folds to all ones.
\<close>

definition cksum_accepted :: "u8 list \<Rightarrow> u32 \<Rightarrow> bool" where
  "cksum_accepted bs pseudo \<longleftrightarrow> raw_cksum_reduce (raw_cksum_sum bs pseudo) = 0xffff"

lemma reduce_all_ones:
  assumes "unat s mod 65535 = 0" "s \<noteq> 0"
  shows "raw_cksum_reduce s = 0xffff"
proof -
  let ?r = "unat (raw_cksum_reduce s)"
  have "?r mod 65535 = 0" "?r \<noteq> 0" using assms reduce_spec [of s] by (auto simp: unat_eq_zero)
  moreover have "?r < 65536" using unat_lt [of "raw_cksum_reduce s"] by simp
  ultimately have "?r = 65535" by (auto simp: mod_eq_0_iff_dvd elim!: dvdE)
  then show ?thesis by (simp add: word_unat_eq_iff)
qed

text \<open>The sum of at most 65535 bytes and a 17-bit start value does not wrap.\<close>

lemma sum16_bounded:
  assumes "length bs \<le> 65535" "unat s < 2 ^ 17"
  shows "unat (raw_cksum_sum bs s) = unat s + sum16 bs"
proof -
  have "sum16 bs \<le> 65535 * ((length bs + 1) div 2)" by (rule sum16_le)
  also have "\<dots> \<le> 65535 * 32768" using assms(1) by (intro mult_le_mono2) simp
  finally show ?thesis using assms(2) by (intro raw_cksum_sum16) simp
qed

lemma rte_raw_cksum_mod:
  assumes "length bs \<le> 65535"
  shows "unat (rte_raw_cksum bs) mod 65535 = sum16 bs mod 65535" "rte_raw_cksum bs = 0 \<longleftrightarrow> sum16 bs = 0"
proof -
  have "unat (raw_cksum_sum bs 0) = sum16 bs" using sum16_bounded [OF assms, of 0] by simp
  then show "unat (rte_raw_cksum bs) mod 65535 = sum16 bs mod 65535" "rte_raw_cksum bs = 0 \<longleftrightarrow> sum16 bs = 0"
    using reduce_spec [of "raw_cksum_sum bs 0"] by (auto simp: rte_raw_cksum_def simp flip: unat_eq_zero)
qed

text \<open>
  Replacing the field of a block by the complement of a sum that is congruent to
  the sum of the block and an extra term makes the block acceptable together
  with what the field held before and that term.
\<close>

lemma store_accepted:
  assumes off: "even off" "off + 2 \<le> length bs" "length bs \<le> 65535"
    and c: "unat c \<le> 131070" "fold_nat (unat c) mod 65535 = (sum16 bs + extra) mod 65535"
      "sum16 bs + extra = 0 \<longrightarrow> unat c = 0"
    and p: "unat pseudo = unat (le_field off 2 bs :: u16) + extra" "extra < 65536"
  shows "cksum_accepted (put_bytes off (le_bytes 2 (cksum_finish c)) bs) pseudo"
proof -
  let ?v = "cksum_finish c" and ?old = "unat (le_field off 2 bs :: u16)"
  let ?bs = "put_bytes off (le_bytes 2 ?v) bs"
  have v: "unat ?v + fold_nat (unat c) = 65535" by (rule cksum_finish_spec [OF c(1)])
  have s: "sum16 ?bs + ?old = sum16 bs + unat ?v" by (rule sum16_put [OF off(1,2)])
  have "?old < 65536" using unat_lt [of "le_field off 2 bs :: u16"] by simp
  then have "unat (raw_cksum_sum ?bs pseudo) = ?old + extra + sum16 ?bs"
    using sum16_bounded [of ?bs pseudo] off p by simp
  then have u: "unat (raw_cksum_sum ?bs pseudo) = sum16 bs + extra + unat ?v" using s by simp
  have "(sum16 bs + extra + unat ?v) mod 65535 = (fold_nat (unat c) + unat ?v) mod 65535"
    using c(2) by (metis mod_add_left_eq)
  also have "fold_nat (unat c) + unat ?v = 65535" using v by linarith
  finally have "unat (raw_cksum_sum ?bs pseudo) mod 65535 = 0" unfolding u by simp
  moreover have "sum16 bs + extra + unat ?v \<noteq> 0"
  proof (cases "unat c = 0")
    case True
    then have "unat ?v = 65535" using v fold_nat_0 [of "unat c"] by linarith
    then show ?thesis by linarith
  next
    case False
    then show ?thesis using c(3) by linarith
  qed
  then have "raw_cksum_sum ?bs pseudo \<noteq> 0" using u by auto
  ultimately show ?thesis unfolding cksum_accepted_def by (rule reduce_all_ones)
qed

lemma take_drop_put_bytes:
  assumes "f + length v \<le> n" "h + n \<le> length p"
  shows "take n (drop h (put_bytes (h + f) v p)) = put_bytes f v (take n (drop h p))"
  using assms by (intro nth_equalityI) (auto simp: nth_put_bytes)

text \<open>Storing the complement of the sum at a field of the block itself.\<close>

lemma xsum_valid:
  assumes "even f" "f + 2 \<le> n" "n \<le> 65535" "h + n \<le> length p"
  shows "\<exists>p'. put16 (h + f) (cksum_finish (ucast (rte_raw_cksum (take n (drop h p))))) p = Some p' \<and>
    length p' = length p \<and> (\<forall>i < length p. i \<noteq> h + f \<and> i \<noteq> h + f + 1 \<longrightarrow> p' ! i = p ! i) \<and>
    cksum_accepted (take n (drop h p')) (ucast (le_field (h + f) 2 p :: u16))"
proof -
  let ?bs = "take n (drop h p)" and ?c = "ucast (rte_raw_cksum (take n (drop h p))) :: u32"
  let ?p = "put_bytes (h + f) (le_bytes 2 (cksum_finish ?c)) p"
  have len: "length ?bs = n" using assms(4) by simp
  have c: "unat ?c = unat (rte_raw_cksum ?bs)" by (simp add: unat_u16_u32)
  have "unat ?c \<le> 131070" using unat_ucast_16_32 [of "rte_raw_cksum ?bs"] by simp
  moreover have "fold_nat (unat ?c) mod 65535 = (sum16 ?bs + 0) mod 65535"
    using rte_raw_cksum_mod(1) [of ?bs] assms(3) by (simp add: fold_nat_mod c)
  moreover have "unat ?c = 0 \<longleftrightarrow> sum16 ?bs + 0 = 0"
    using rte_raw_cksum_mod(2) [of ?bs] assms(3) unfolding c by (simp add: unat_eq_zero)
  moreover have "(le_field f 2 ?bs :: u16) = le_field (h + f) 2 p"
    using assms by (simp add: le_field_def drop_take add.commute min_def)
  then have "unat (ucast (le_field (h + f) 2 p :: u16) :: u32) = unat (le_field f 2 ?bs :: u16) + 0"
    by (simp add: unat_u16_u32)
  ultimately have "cksum_accepted (put_bytes f (le_bytes 2 (cksum_finish ?c)) ?bs) (ucast (le_field (h + f) 2 p :: u16))"
    using assms len by (intro store_accepted [where extra = 0]) auto
  then have "cksum_accepted (take n (drop h ?p)) (ucast (le_field (h + f) 2 p :: u16))"
    using assms by (subst take_drop_put_bytes) simp_all
  moreover have "\<forall>i < length p. i \<noteq> h + f \<and> i \<noteq> h + f + 1 \<longrightarrow> ?p ! i = p ! i"
    using assms by (auto simp: nth_put_bytes)
  ultimately show ?thesis using assms by (auto simp: put16_def)
qed



section \<open>Segmentation headers\<close>

text \<open>The pseudo header of a TCP segment of \<open>n\<close> bytes behind the IP header at \<open>ih\<close>.\<close>

definition pseudo_header :: "u8 list \<Rightarrow> nat \<Rightarrow> u16 \<Rightarrow> u8 list" where
  "pseudo_header p ih n = take 8 (drop (ih + 12) p) @ [0, p ! (ih + 9)] @ rev (le_bytes 2 n)"

lemma be16_put:
  assumes "off + 2 \<le> length p"
  shows "be16 (put_bytes off (rev (le_bytes 2 v)) p) off = v"
proof -
  have "take 2 (drop off (put_bytes off (rev (le_bytes 2 v)) p)) = rev (le_bytes 2 v)"
    using assms by (simp add: put_bytes_def)
  then show ?thesis using le_word_le_bytes [of 2 v] by (simp add: be16_def)
qed

lemma le_field_put_zero:
  assumes "off + 2 \<le> length p"
  shows "(le_field off 2 (put_bytes off (le_bytes 2 (0 :: u16)) p) :: u16) = 0"
  using assms le_word_le_bytes [of 2 "0 :: u16"] by (simp add: le_field_def put_bytes_def)

text \<open>A window that a store misses.\<close>

lemma window_put_bytes:
  assumes "off + length v \<le> length p" "off + length v \<le> h \<or> h + n \<le> off"
  shows "take n (drop h (put_bytes off v p)) = take n (drop h p)"
  using assms by (intro nth_equalityI) (auto simp: nth_put_bytes)

lemma be16_put_other:
  assumes "off + length v \<le> length p" "off + length v \<le> h \<or> h + 2 \<le> off"
  shows "be16 (put_bytes off v p) h = be16 p h"
  using window_put_bytes [OF assms] by (simp add: be16_def)

lemma rte_ipv4_phdr_eq:
  assumes "ih + 20 \<le> length p"
  shows "rte_ipv4_phdr p ih = pseudo_header p ih (be16 p (ih + 2) - 20)"
proof -
  have "take 8 (drop (ih + 12) p) = take 4 (drop (ih + 12) p) @ take 4 (drop (ih + 16) p)"
    using take_add [of 4 4 "drop (ih + 12) p"] by (simp add: add.commute)
  then show ?thesis by (simp add: rte_ipv4_phdr_def pseudo_header_def)
qed

lemma pseudo_header_put_tcp:
  assumes "off + 2 \<le> length p" "ih + 20 \<le> off"
  shows "pseudo_header (put_bytes off (le_bytes 2 v) p) ih n = pseudo_header p ih n"
proof -
  have "take 8 (drop (ih + 12) (put_bytes off (le_bytes 2 v) p)) = take 8 (drop (ih + 12) p)"
    using assms by (intro window_put_bytes) auto
  then show ?thesis using assms by (simp add: pseudo_header_def nth_put_bytes)
qed

text \<open>Storing the complement of the segment sum and the pseudo header sum into a cleared field.\<close>

lemma tcp_store_accepted:
  assumes f: "(le_field (h + 16) 2 p :: u16) = 0" and len: "18 \<le> n" "n \<le> 65535" "h + n \<le> length p"
  shows "cksum_accepted (take n (drop h (put_bytes (h + 16)
      (le_bytes 2 (cksum_finish (ucast (rte_raw_cksum (take n (drop h p))) + ucast (ph :: u16)))) p))) (ucast ph)"
proof -
  let ?bs = "take n (drop h p)"
  let ?c = "ucast (rte_raw_cksum ?bs) + ucast ph :: u32"
  have c: "unat ?c = unat (rte_raw_cksum ?bs) + unat ph"
    using unat_ucast_16_32 [of "rte_raw_cksum ?bs"] unat_ucast_16_32 [of ph]
    by (subst unat_add_bounded) (simp_all add: unat_u16_u32)
  have b: "unat (rte_raw_cksum ?bs) \<le> 65535" "unat ph \<le> 65535"
    using unat_lt [of "rte_raw_cksum ?bs"] unat_lt [of ph] by simp_all
  have "fold_nat (unat ?c) mod 65535 = (sum16 ?bs + unat ph) mod 65535"
    using rte_raw_cksum_mod(1) [of ?bs] len by (simp add: fold_nat_mod c) (metis mod_add_left_eq)
  moreover have "sum16 ?bs + unat ph = 0 \<longrightarrow> unat ?c = 0"
    using rte_raw_cksum_mod(2) [of ?bs] len by (auto simp: c)
  moreover have "(le_field 16 2 ?bs :: u16) = 0"
    using f len by (simp add: le_field_def drop_take add.commute min_def)
  ultimately have "cksum_accepted (put_bytes 16 (le_bytes 2 (cksum_finish ?c)) ?bs) (ucast ph)"
    using len c b by (intro store_accepted [where extra = "unat ph"]) (auto simp: unat_u16_u32)
  then show ?thesis using len by (subst take_drop_put_bytes) simp_all
qed

text \<open>What \<open>xsum_tcpip_tso\<close> stores behind a 20-byte IP header.\<close>

lemma xsum_tcpip_tso_run:
  assumes "ih + 20 + unat l4len + unat paylen \<le> length p" "18 \<le> unat l4len" "unat l4len + unat paylen \<le> 65515"
  shows "\<exists>p'. xsum_tcpip_tso ih 20 l4len paylen p = Some p' \<and> length p' = length p \<and>
    be16 p' (ih + 2) = 20 + (ucast l4len + paylen) \<and>
    cksum_accepted (take 20 (drop ih p')) 0 \<and>
    cksum_accepted (take (unat l4len + unat paylen) (drop (ih + 20) p'))
      (ucast (rte_raw_cksum (pseudo_header p' ih (ucast l4len + paylen)))) \<and>
    (\<forall>i < length p. i \<notin> {ih + 2, ih + 3, ih + 10, ih + 11, ih + 36, ih + 37} \<longrightarrow> p' ! i = p ! i)"
proof -
  let ?n = "unat l4len + unat paylen" and ?len = "20 + (ucast l4len + paylen) :: u16"
  have len: "ih + 38 \<le> length p" using assms by linarith
  define p1 where "p1 = put_bytes (ih + 2) (rev (le_bytes 2 ?len)) p"
  define p2 where "p2 = put_bytes (ih + 10) (le_bytes 2 (0 :: u16)) p1"
  have l: "length p1 = length p" "length p2 = length p" using len by (simp_all add: p1_def p2_def)
  have "(le_field (ih + 10) 2 p2 :: u16) = 0" unfolding p2_def using len l by (intro le_field_put_zero) simp
  then obtain p3 where p3: "put16 (ih + 10) (cksum_finish (ucast (rte_raw_cksum (take 20 (drop ih p2))))) p2 = Some p3"
    "length p3 = length p" "\<forall>i < length p. i \<noteq> ih + 10 \<and> i \<noteq> ih + 10 + 1 \<longrightarrow> p3 ! i = p2 ! i"
    "cksum_accepted (take 20 (drop ih p3)) 0"
    using xsum_valid [of 10 20 ih p2] len l by auto
  define p4 where "p4 = put_bytes (ih + 36) (le_bytes 2 (0 :: u16)) p3"
  have l4: "length p4 = length p" using len p3(2) by (simp add: p4_def)
  have f4: "(le_field (ih + 36) 2 p4 :: u16) = 0" unfolding p4_def using len p3(2) by (intro le_field_put_zero) simp
  define ph where "ph = rte_raw_cksum (rte_ipv4_phdr p4 ih)"
  define v where "v = cksum_finish (ucast (rte_raw_cksum (take ?n (drop (ih + 20) p4))) + ucast ph)"
  define p5 where "p5 = put_bytes (ih + 36) (le_bytes 2 v) p4"
  have u: "unat (20 :: u8) = 20" "(ucast (20 :: u8) :: u16) = 20" by simp_all
  have s: "put_be16 (ih + 2) ?len p = Some p1" "put16 (ih + 10) 0 p1 = Some p2" "put16 (ih + 36) 0 p3 = Some p4"
    "sub_buf ih 20 p2 = Some (take 20 (drop ih p2))" "sub_buf (ih + 20) ?n p4 = Some (take ?n (drop (ih + 20) p4))"
    "rte_ipv4_phdr_cksum p4 ih = Some ph" "put16 (ih + 36) v p4 = Some p5"
    using len l l4 p3(2) assms(1)
    by (simp_all add: put_be16_def put16_def sub_buf_def rte_ipv4_phdr_cksum_def p1_def p2_def p4_def p5_def ph_def)
  have "ih + 20 + 16 = ih + 36" by simp
  then have run: "xsum_tcpip_tso ih 20 l4len paylen p = Some p5"
    unfolding xsum_tcpip_tso_def Let_def u add.assoc [of 20 "ucast l4len" paylen]
    by (simp only: s p3(1) bind.bind_lunit flip: v_def)
  have ip: "take 20 (drop ih p5) = take 20 (drop ih p3)"
    unfolding p5_def p4_def using len p3(2) l4 by (simp add: window_put_bytes)
  have p53: "p5 ! i = p3 ! i" if "i < length p" "i \<noteq> ih + 36" "i \<noteq> ih + 37" for i
    using that len p3(2) l4 by (auto simp: p5_def p4_def nth_put_bytes)
  have p31: "p3 ! i = p ! i" if "i < length p" "i \<notin> {ih + 2, ih + 3, ih + 10, ih + 11}" for i
    using that p3(3) len l by (auto simp: p2_def p1_def nth_put_bytes)
  have p3e: "p3 = put_bytes (ih + 10) (le_bytes 2 (cksum_finish (ucast (rte_raw_cksum (take 20 (drop ih p2)))))) p2"
    using p3(1) by (simp add: put16_def split: if_splits)
  have b4: "be16 p4 (ih + 2) = ?len"
    unfolding p4_def p3e p2_def using len l by (simp add: be16_put_other) (simp add: p1_def be16_put)
  have ph: "ph = rte_raw_cksum (pseudo_header p5 ih (ucast l4len + paylen))"
    unfolding ph_def p5_def using len l4 b4 by (simp add: rte_ipv4_phdr_eq pseudo_header_put_tcp)
  have tcp: "cksum_accepted (take ?n (drop (ih + 20) p5)) (ucast ph)"
    using tcp_store_accepted [of "ih + 20" p4 ?n ph] f4 assms l4 by (simp add: p5_def v_def add.assoc)
  have b5: "be16 p5 (ih + 2) = ?len" using b4 len l4 by (simp add: p5_def be16_put_other)
  have "\<forall>i < length p. i \<notin> {ih + 2, ih + 3, ih + 10, ih + 11, ih + 36, ih + 37} \<longrightarrow> p5 ! i = p ! i"
    using p53 p31 by auto
  moreover have "length p5 = length p" using l4 len by (simp add: p5_def)
  ultimately show ?thesis using run b5 ip p3(4) tcp unfolding ph by auto
qed

text \<open>
  The headers of a TCP segment are valid.  For a segment behind a 20-byte IP
  header, \<open>xsum_tcpip_tso\<close> stores the total length, an IP header checksum that a
  receiver accepts, and a TCP checksum that a receiver accepts together with the
  pseudo header of this segment's length; all other bytes are unchanged, and no
  access leaves the packet buffer.
\<close>

theorem tso_headers_valid:
  assumes "ih + 20 + unat l4len + unat paylen \<le> length p" "18 \<le> unat l4len" "unat l4len + unat paylen \<le> 65515"
  shows "\<exists>p'. xsum_tcpip_tso ih 20 l4len paylen p = Some p' \<and> length p' = length p \<and>
    be16 p' (ih + 2) = 20 + (ucast l4len + paylen) \<and>
    cksum_accepted (take 20 (drop ih p')) 0 \<and>
    cksum_accepted (take (unat l4len + unat paylen) (drop (ih + 20) p'))
      (ucast (rte_raw_cksum (pseudo_header p' ih (ucast l4len + paylen)))) \<and>
    (\<forall>i < length p. i \<notin> {ih + 2, ih + 3, ih + 10, ih + 11, ih + 36, ih + 37} \<longrightarrow> p' ! i = p ! i)"
  by (rule xsum_tcpip_tso_run [OF assms])

theorem tso_headers_valid_witness:
  "\<exists>p'. xsum_tcpip_tso 0 20 20 2 (replicate 42 1) = Some p' \<and> be16 p' 2 = 42 \<and> cksum_accepted (take 20 p') 0 \<and>
    cksum_accepted (take 22 (drop 20 p')) (ucast (rte_raw_cksum (pseudo_header p' 0 22)))"
  using tso_headers_valid [of 0 20 2 "replicate 42 1"] by (auto simp del: add_2_eq_Suc add_2_eq_Suc' simp: add_0)

end
