(* ===== verification/E810_Lan_Tx.thy ===== *)
theory E810_Lan_Tx
  imports E810_Lan_Rx Nic_Xsum
begin

text \<open>
  The transmit queue (\<open>lan_queue_tx\<close> in \<open>e810_lan.cc\<close>).  Descriptors of a packet
  collect in \<open>ready_segments\<close> until the one that ends the packet; then the packet is
  assembled in \<open>pktbuf\<close> and sent, or, for segmentation offload, handed to the
  back end or cut into segments here.

  What the back end answers to \<open>send_tso\<close> is a parameter, a function of its
  arguments and of what happened before.
\<close>

section \<open>State and descriptors\<close>

record lan_tx = lan_base +
  pktbuf :: "u8 list"
  tso_off :: nat
  tso_len :: nat
  ready_segments :: "nat list"
  hwb :: bool
  hwb_addr :: u64

type_synonym tx_queue = "lan_tx queue_base_scheme"
type_synonym tso_driver = "u8 list \<Rightarrow> bool \<Rightarrow> nat \<Rightarrow> nat \<Rightarrow> nat \<Rightarrow> nat \<Rightarrow> event list \<Rightarrow> bool"

abbreviation (input) MTU :: nat where "MTU \<equiv> 9024"

abbreviation tx_more :: "(lan_tx \<Rightarrow> lan_tx) \<Rightarrow> tx_queue \<Rightarrow> tx_queue" where
  "tx_more \<equiv> queue_base.more_update"

definition d1_at :: "tx_queue \<Rightarrow> nat \<Rightarrow> u64" where
  "d1_at s p = le_field 8 8 (c_desc (desc_ctxs s ! (p mod MAX_ACTIVE_DESCS)))"

definition data_at :: "tx_queue \<Rightarrow> nat \<Rightarrow> u8 list" where
  "data_at s p = c_data (desc_ctxs s ! (p mod MAX_ACTIVE_DESCS))"

text \<open>
  Fields of the second word of a data descriptor.  The buffer length is read
  with 14 bits where the lengths are summed up, and with 16 bits elsewhere.
\<close>

definition txd_dtype :: "u64 \<Rightarrow> u64" where "txd_dtype d1 = d1 AND 0xF"
definition txd_cmd :: "u64 \<Rightarrow> u64" where "txd_cmd d1 = drop_bit 4 d1 AND 0xFFF"
definition txd_off :: "u64 \<Rightarrow> u64" where "txd_off d1 = drop_bit 16 d1 AND 0x3FFFF"
definition len14 :: "u64 \<Rightarrow> nat" where "len14 d1 = unat (drop_bit 34 d1 AND 0x3FFF)"
definition len16 :: "u64 \<Rightarrow> nat" where "len16 d1 = unat (ucast (drop_bit 34 d1) :: u16)"

section \<open>Reset and initialisation\<close>

definition tx_reset :: "tx_queue \<Rightarrow> tx_queue" where
  "tx_reset s = queue_reset (tx_more (\<lambda>m. m\<lparr>tso_off := 0, tso_len := 0, ready_segments := []\<rparr>) s)"

text \<open>The context of a transmit queue is 22 bytes that an admin command has stored.\<close>

definition tx_initialize :: "u8 list \<Rightarrow> tx_queue \<Rightarrow> tx_queue res" where
  "tx_initialize ctx s = Ok (tx_more (\<lambda>m. m\<lparr>hwb := bit (le_field 12 8 ctx :: u64) 5\<rparr>)
     (s\<lparr>q_base := ((le_field 0 8 ctx :: u64) AND mask 57) * 128,
        q_len := unat (drop_bit 7 (le_field 16 4 ctx :: u32) AND 0x3fff)\<rparr>))"

section \<open>Finding the end of a packet\<close>

record tx_unit =
  u_dcnt :: nat
  u_eop :: bool
  u_l4t :: u64
  u_maclen :: nat
  u_iplen :: nat
  u_l4len :: nat
  u_total_len :: nat

definition unit_add :: "u64 \<Rightarrow> tx_unit \<Rightarrow> tx_unit" where
  "unit_add d1 u = (let
     cmd = txd_cmd d1; eop = bit cmd 0; off = txd_off d1;
     u = u\<lparr>u_dcnt := u_dcnt u + 1, u_eop := eop, u_l4t := cmd AND 0x300, u_total_len := add32 (u_total_len u) (len14 d1)\<rparr> in
     if eop then u\<lparr>u_maclen := unat (off AND 0x7F) * 2, u_iplen := unat (drop_bit 7 off AND 0x7F) * 4,
       u_l4len := unat (drop_bit 14 off AND 0xF) * 4\<rparr>
     else u)"

fun find_eop :: "u64 list \<Rightarrow> tx_unit \<Rightarrow> tx_unit res" where
  "find_eop [] u = Ok u"
| "find_eop (d1 # ds) u =
     (if u_eop u then Ok u else if txd_dtype d1 \<noteq> 0 then Abort else find_eop ds (unit_add d1 u))"

section \<open>Assembling a packet\<close>

text \<open>One \<open>memcpy\<close> into the packet buffer: what remains of the descriptor, up to the limit.\<close>

definition copy_part :: "nat \<Rightarrow> nat \<Rightarrow> nat \<Rightarrow> u8 list \<Rightarrow> lan_tx \<Rightarrow> lan_tx res" where
  "copy_part data_limit off pkt_len data m = (let
     start = tso_off m;
     stop = min (add32 off pkt_len) data_limit in
     if stop < start \<or> stop - off > length data \<or> tso_len m + (stop - start) > length (pktbuf m) then Fault
     else Ok (m\<lparr>pktbuf := put_bytes (tso_len m) (take (stop - start) (drop (start - off) data)) (pktbuf m),
       tso_off := stop, tso_len := add32 (tso_len m) (stop - start)\<rparr>))"

fun copy_loop :: "nat \<Rightarrow> (u64 \<times> u8 list) list \<Rightarrow> nat \<Rightarrow> nat \<Rightarrow> lan_tx \<Rightarrow> (nat \<times> lan_tx) res" where
  "copy_loop data_limit [] off dcnt m = Ok (dcnt, m)"
| "copy_loop data_limit ((d1, data) # ds) off dcnt m =
     (if off < data_limit then
        andThen (if off \<le> tso_off m \<and> tso_off m < add32 off (len16 d1) then copy_part data_limit off (len16 d1) data m else Ok m)
          (copy_loop data_limit ds (add32 off (len16 d1)) (dcnt + 1))
      else Ok (dcnt, m))"

section \<open>Sending\<close>

definition EthSend :: "u8 list \<Rightarrow> tx_queue \<Rightarrow> tx_queue" where
  "EthSend p s = s\<lparr>q_events := q_events s @ [Ev_send p]\<rparr>"

text \<open>Handing all buffers of the packet to the back end; stops at the first refusal.\<close>

fun send_tso :: "tso_driver \<Rightarrow> tx_unit \<Rightarrow> nat \<Rightarrow> (u64 \<times> u8 list) list \<Rightarrow> tx_queue \<Rightarrow> (bool \<times> tx_queue) res" where
  "send_tso drv u tso_mss [] s = Ok (True, s)"
| "send_tso drv u tso_mss ((d1, data) # ds) s =
     (if length data < len16 d1 then Fault
      else let p = take (len16 d1) data; eop = (ds = []); s' = s\<lparr>q_events := q_events s @ [Ev_send_tso p eop]\<rparr> in
        if drv p eop (u_maclen u) (u_iplen u) (u_l4len u) tso_mss (q_events s) then send_tso drv u tso_mss ds s' else Ok (False, s'))"

definition tx_processed :: "nat \<Rightarrow> tx_queue \<Rightarrow> tx_queue res" where
  "tx_processed p s = processed p (upd_ctx p (\<lambda>c. c\<lparr>c_desc := put_bytes 8 (le_bytes 8 (0xF :: u64)) (c_desc c)\<rparr>) s)"

primrec pop_processed :: "nat \<Rightarrow> tx_queue \<Rightarrow> tx_queue res" where
  "pop_processed 0 s = Ok s"
| "pop_processed (Suc n) s =
     (case ready_segments (queue_base.more s) of
        [] \<Rightarrow> Fault
      | p # ps \<Rightarrow> andThen (tx_processed p s) (\<lambda>s. pop_processed n (tx_more (\<lambda>m. m\<lparr>ready_segments := ps\<rparr>) s)))"

definition unit_done :: "nat \<Rightarrow> tx_queue \<Rightarrow> (bool \<times> tx_queue) res" where
  "unit_done dcnt s = andThen (pop_processed dcnt s) (\<lambda>s. Ok (True, tx_more (\<lambda>m. m\<lparr>tso_len := 0, tso_off := 0\<rparr>) s))"

text \<open>A packet without segmentation offload, with its transport checksum if requested.\<close>

definition xsum_l4 :: "u64 \<Rightarrow> nat \<Rightarrow> nat \<Rightarrow> u8 list \<Rightarrow> u8 list option" where
  "xsum_l4 l4t l4_off pkt_len p =
     (if l4t = 0x100 then xsum_tcp l4_off (sub32 pkt_len l4_off) p
      else if l4t = 0x300 then xsum_udp l4_off (sub32 pkt_len l4_off) p
      else Some p)"

definition send_plain :: "tx_unit \<Rightarrow> nat \<Rightarrow> tx_queue \<Rightarrow> (bool \<times> tx_queue) res" where
  "send_plain u dcnt s = (let m = queue_base.more s in
     case xsum_l4 (u_l4t u) (u_maclen u + u_iplen u) (tso_len m) (pktbuf m) of
       None \<Rightarrow> Fault
     | Some p \<Rightarrow> unit_done dcnt (EthSend (take (tso_len m) p) (tx_more (\<lambda>m. m\<lparr>pktbuf := p\<rparr>) s)))"

text \<open>One segment of a packet with segmentation offload.\<close>

definition send_segment :: "tx_unit \<Rightarrow> nat \<Rightarrow> nat \<Rightarrow> tx_queue \<Rightarrow> (bool \<times> tx_queue) res" where
  "send_segment u tso_mss dcnt s = (let
     m = queue_base.more s;
     hdrlen = u_maclen u + u_iplen u + u_l4len u;
     tso_paylen = of_nat (min (sub32 (tso_len m) hdrlen) tso_mss) :: u16;
     iplen = of_nat (u_iplen u) :: u8; l4len = of_nat (u_l4len u) :: u8 in
     case xsum_tcpip_tso (u_maclen u) iplen l4len tso_paylen (pktbuf m) of
       None \<Rightarrow> Fault
     | Some p \<Rightarrow> (case tso_postupdate_header (u_maclen u) iplen l4len tso_paylen p of
         None \<Rightarrow> Fault
       | Some p' \<Rightarrow> let s = EthSend (take (tso_len m) p) (tx_more (\<lambda>m. m\<lparr>pktbuf := p'\<rparr>) s) in
           if tso_off m < u_total_len u then Ok (True, tx_more (\<lambda>m. m\<lparr>tso_len := hdrlen\<rparr>) s)
           else unit_done dcnt s))"

section \<open>The transmit loop\<close>

text \<open>A leading context descriptor: how many descriptors it takes up, whether to segment, and the segment size.\<close>

definition tx_context :: "u64 \<Rightarrow> nat \<times> bool \<times> nat" where
  "tx_context d1 = (if txd_dtype d1 = 1 then (1, bit d1 4, unat (drop_bit 50 d1)) else (0, False, 0))"

definition data_limit :: "bool \<Rightarrow> nat \<Rightarrow> tx_unit \<Rightarrow> lan_tx \<Rightarrow> nat" where
  "data_limit tso tso_mss u m =
     (if tso then min (if tso_off m = 0 then u_maclen u + u_iplen u + u_l4len u + tso_mss else add32 (tso_off m) tso_mss) (u_total_len u)
      else u_total_len u)"

definition software_send :: "bool \<Rightarrow> nat \<Rightarrow> nat \<Rightarrow> (u64 \<times> u8 list) list \<Rightarrow> tx_unit \<Rightarrow> tx_queue \<Rightarrow> (bool \<times> tx_queue) res" where
  "software_send tso tso_mss d_skip segs u s =
     andThen (copy_loop (data_limit tso tso_mss u (queue_base.more s)) segs 0 d_skip (queue_base.more s)) (\<lambda>(dcnt, m).
       let s = tx_more (\<lambda>_. m) s in
       if tso_len m > MTU then Fault
       else if \<not> tso then send_plain u dcnt s
       else send_segment u tso_mss dcnt s)"

definition trigger_tx_packet :: "tso_driver \<Rightarrow> tx_queue \<Rightarrow> (bool \<times> tx_queue) res" where
  "trigger_tx_packet drv s =
     (case ready_segments (queue_base.more s) of
        [] \<Rightarrow> Ok (False, s)
      | p0 # _ \<Rightarrow> let
          (d_skip, tso, tso_mss) = tx_context (d1_at s p0);
          segs = map (\<lambda>p. (d1_at s p, data_at s p)) (drop d_skip (ready_segments (queue_base.more s))) in
        andThen (find_eop (map fst segs) \<lparr>u_dcnt = d_skip, u_eop = False, u_l4t = 0, u_maclen = 0, u_iplen = 0, u_l4len = 0, u_total_len = 0\<rparr>) (\<lambda>u.
          if \<not> u_eop u then Ok (False, s)
          else if \<not> tso \<and> u_total_len u > MTU then Abort
          else andThen
            (if tso \<and> tso_len (queue_base.more s) = 0 \<and> tso_off (queue_base.more s) = 0
             then send_tso drv u tso_mss (take (u_dcnt u - d_skip) segs) s else Ok (False, s))
            (\<lambda>(hardware_tso_success, s).
              if hardware_tso_success then andThen (pop_processed (u_dcnt u) s) (\<lambda>s. Ok (True, s))
              else software_send tso tso_mss d_skip segs u s)))"

primrec trigger_tx :: "tso_driver \<Rightarrow> nat \<Rightarrow> tx_queue \<Rightarrow> tx_queue res" where
  "trigger_tx drv 0 s = Fault"
| "trigger_tx drv (Suc n) s = andThen (trigger_tx_packet drv s) (\<lambda>(again, s). if again then trigger_tx drv n s else Ok s)"

section \<open>Virtual functions\<close>

definition tx_prepare :: "(dma_op \<Rightarrow> tx_queue \<Rightarrow> tx_queue res) \<Rightarrow> nat \<Rightarrow> tx_queue \<Rightarrow> tx_queue res" where
  "tx_prepare iss p s = (let d1 = d1_at s p in
     if txd_dtype d1 = 0 then data_fetch iss p (le_field 0 8 (c_desc (desc_ctxs s ! (p mod MAX_ACTIVE_DESCS)))) (len16 d1) s
     else if txd_dtype d1 = 1 then prepared p s
     else Abort)"

definition tx_process :: "tso_driver \<Rightarrow> nat \<Rightarrow> nat \<Rightarrow> tx_queue \<Rightarrow> tx_queue res" where
  "tx_process drv n p s = trigger_tx drv n (tx_more (\<lambda>m. m\<lparr>ready_segments := ready_segments m @ [p]\<rparr>) s)"

definition tx_do_writeback :: "(dma_op \<Rightarrow> tx_queue \<Rightarrow> tx_queue res) \<Rightarrow> nat \<Rightarrow> nat \<Rightarrow> nat \<Rightarrow> tx_queue \<Rightarrow> tx_queue res" where
  "tx_do_writeback iss first_idx first_pos cnt s =
     (if \<not> hwb (queue_base.more s) then do_writeback iss first_idx first_pos cnt s
      else if q_len s = 0 then Fault
      else iss (dma_hwb first_pos cnt (add32 first_idx cnt mod q_len s) (hwb_addr (queue_base.more s))) s)"

definition tx_vt :: "tso_driver \<Rightarrow> nat \<Rightarrow> (dma_op \<Rightarrow> tx_queue \<Rightarrow> tx_queue res) \<Rightarrow> tx_queue vtable" where
  "tx_vt drv n iss = \<lparr>v_prepare = tx_prepare iss, v_process = tx_process drv n, v_processed = tx_processed,
     v_do_writeback = tx_do_writeback iss, v_interrupt = lan_interrupt\<rparr>"

end
