(* ===== verification/E810_Tx_Packet.thy ===== *)
theory E810_Tx_Packet
  imports E810_Lan_Tx
begin

text \<open>
  What the transmit queue sends: a packet without segmentation offload is the
  concatenation of its buffers with the requested checksum, a packet with
  segmentation offload is cut into correct TCP segments.  Three ways a guest can
  make the loop run forever or leave its packet buffer are exhibited.
\<close>

section \<open>Complete packets\<close>

text \<open>
  The descriptors of a packet: data descriptors, the last and only the last of
  which ends the packet and is not empty; no VLAN tag, whose low bits the code
  would take for a part of the length.
\<close>

definition unit_ok :: "u64 list \<Rightarrow> bool" where
  "unit_ok ds \<longleftrightarrow> ds \<noteq> [] \<and> (\<forall>d \<in> set ds. txd_dtype d = 0 \<and> len16 d = len14 d) \<and>
     (\<forall>d \<in> set (butlast ds). \<not> bit (txd_cmd d) 0) \<and> bit (txd_cmd (last ds)) 0 \<and> 0 < len14 (last ds)"

definition unit_of :: "u64 list \<Rightarrow> nat \<Rightarrow> tx_unit" where
  "unit_of ds d_skip = (let d = last ds; off = txd_off d in
     \<lparr>u_dcnt = d_skip + length ds, u_eop = True, u_l4t = txd_cmd d AND 0x300, u_maclen = unat (off AND 0x7F) * 2,
      u_iplen = unat (drop_bit 7 off AND 0x7F) * 4, u_l4len = unat (drop_bit 14 off AND 0xF) * 4,
      u_total_len = sum_list (map len14 ds)\<rparr>)"

lemma len14_bound: "len14 d < 2 ^ 14"
proof -
  have "len14 d \<le> unat (0x3FFF :: u64)" unfolding len14_def by (simp only: word_le_nat_alt [symmetric] word_and_le1)
  then show ?thesis by simp
qed

lemma sum_len14: "sum_list (map len14 ds) \<le> 2 ^ 14 * length ds"
proof (induction ds)
  case (Cons d ds)
  then show ?case using len14_bound [of d] by simp
qed simp

lemma find_eop_stop: "u_eop u \<Longrightarrow> find_eop ds u = Ok u"
  by (cases ds) simp_all

lemma find_eop_unit:
  assumes "ds \<noteq> []" "\<forall>d \<in> set ds. txd_dtype d = 0" "\<forall>d \<in> set (butlast ds). \<not> bit (txd_cmd d) 0" "bit (txd_cmd (last ds)) 0"
    and "\<not> u_eop u" "u_total_len u + 2 ^ 14 * length ds < 2 ^ 32"
  shows "find_eop ds u = Ok ((unit_of ds (u_dcnt u))\<lparr>u_total_len := u_total_len u + sum_list (map len14 ds)\<rparr>)"
  using assms
proof (induction ds arbitrary: u rule: list_nonempty_induct)
  case (single d)
  have "u_total_len u + len14 d < 2 ^ 32" using single.prems(5) len14_bound [of d] by simp
  then show ?case using single.prems by (simp add: unit_add_def unit_of_def Let_def)
next
  case (cons d ds)
  let ?u = "unit_add d u"
  have l: "u_total_len u + len14 d + 2 ^ 14 * length ds < 2 ^ 32" using cons.prems(5) len14_bound [of d] by simp
  have n: "\<not> bit (txd_cmd d) 0" using cons.prems(2) cons.hyps by simp
  have t: "u_total_len u + len14 d < 2 ^ 32" using l by simp
  have u: "\<not> u_eop ?u" "u_dcnt ?u = u_dcnt u + 1" "u_total_len ?u = u_total_len u + len14 d"
    using n add32_small [OF t] by (simp_all add: unit_add_def Let_def)
  have "find_eop ds ?u = Ok ((unit_of ds (u_dcnt ?u))\<lparr>u_total_len := u_total_len ?u + sum_list (map len14 ds)\<rparr>)"
    using cons.prems(1,2,3) cons.hyps u(1,3) l by (intro cons.IH) simp_all
  then show ?case using cons.prems(1,4) cons.hyps u(2,3) by (simp add: unit_of_def Let_def add.assoc)
qed

section \<open>Copying\<close>

definition payload :: "(u64 \<times> u8 list) list \<Rightarrow> u8 list" where
  "payload segs = concat (map (\<lambda>(d, b). take (len16 d) b) segs)"

definition seg_ok :: "u64 \<times> u8 list \<Rightarrow> bool" where
  "seg_ok seg \<longleftrightarrow> len16 (fst seg) \<le> length (snd seg)"

lemma payload_simps [simp]: "payload [] = []" "payload ((d, b) # segs) = take (len16 d) b @ payload segs"
  by (simp_all add: payload_def)

lemma payload_nonempty:
  assumes "segs \<noteq> []" "\<forall>seg \<in> set segs. seg_ok seg" "0 < len16 (fst (last segs))"
  shows "0 < length (payload segs)"
  using assms
proof (induction segs rule: list_nonempty_induct)
  case (single x)
  then show ?case by (cases x) (auto simp: seg_ok_def)
next
  case (cons x xs)
  then show ?case by (cases x) simp
qed

lemma put_bytes_nil [simp]: "put_bytes l [] buf = buf"
  by (simp add: put_bytes_def)

lemma put_bytes_append:
  assumes "l + length xs + length ys \<le> length buf"
  shows "put_bytes (l + length xs) ys (put_bytes l xs buf) = put_bytes l (xs @ ys) buf"
  using assms by (intro nth_equalityI) (auto simp: nth_put_bytes nth_append)

lemma copy_loop_stop: "\<not> off < L \<Longrightarrow> copy_loop L segs off dcnt m = Ok (dcnt, m)"
  by (cases "(L, segs, off, dcnt, m)" rule: copy_loop.cases) auto

lemma copy_loop_spec:
  assumes "\<forall>seg \<in> set segs. seg_ok seg" "off + length (payload segs) < 2 ^ 32"
    and "off \<le> tso_off m" "tso_off m \<le> L" "L \<le> off + length (payload segs)"
    and "tso_len m + (L - tso_off m) \<le> length (pktbuf m)" "length (pktbuf m) < 2 ^ 32"
  shows "\<exists>dcnt'. copy_loop L segs off dcnt m = Ok (dcnt', m\<lparr>pktbuf := put_bytes (tso_len m)
        (take (L - tso_off m) (drop (tso_off m - off) (payload segs))) (pktbuf m),
      tso_off := L, tso_len := tso_len m + (L - tso_off m)\<rparr>) \<and>
    (L = off + length (payload segs) \<and> segs \<noteq> [] \<and> 0 < len16 (fst (last segs)) \<longrightarrow> dcnt' = dcnt + length segs)"
  using assms
proof (induction segs arbitrary: off dcnt m)
  case Nil
  then have "L = tso_off m" by simp
  then show ?case by simp
next
  case (Cons seg segs)
  obtain d b where seg: "seg = (d, b)" by (cases seg)
  let ?n = "len16 d" and ?o = "tso_off m" and ?l = "tso_len m"
  have nb: "?n \<le> length b" using Cons.prems(1) by (simp add: seg seg_ok_def)
  then have len: "length (payload (seg # segs)) = ?n + length (payload segs)" by (simp add: seg)
  have add: "add32 off ?n = off + ?n" using Cons.prems(2) len by (intro add32_small) simp
  show ?case
  proof (cases "off < L")
    case False
    then have e: "?o = L" "off = L" using Cons.prems(3,4) by simp_all
    have "0 < len16 (fst (last (seg # segs))) \<longrightarrow> 0 < length (payload (seg # segs))"
      using payload_nonempty [OF _ Cons.prems(1)] by blast
    with e False show ?thesis using copy_loop_stop [OF False, of "seg # segs" dcnt m] by auto
  next
    case True
    show ?thesis
    proof (cases "?o < off + ?n")
      case False
      obtain dcnt' where d: "copy_loop L segs (off + ?n) (dcnt + 1) m = Ok (dcnt', m\<lparr>pktbuf := put_bytes ?l
            (take (L - ?o) (drop (?o - (off + ?n)) (payload segs))) (pktbuf m), tso_off := L, tso_len := ?l + (L - ?o)\<rparr>)"
          "L = off + ?n + length (payload segs) \<and> segs \<noteq> [] \<and> 0 < len16 (fst (last segs)) \<longrightarrow> dcnt' = dcnt + 1 + length segs"
        using Cons.IH [of "off + ?n" m "dcnt + 1"] Cons.prems False len by auto
      have run: "copy_loop L (seg # segs) off dcnt m = copy_loop L segs (off + ?n) (dcnt + 1) m"
        using True False add by (simp add: seg)
      have p: "drop (?o - off) (payload (seg # segs)) = drop (?o - (off + ?n)) (payload segs)"
        using False nb by (simp add: seg)
      have "dcnt' = dcnt + 1" if "segs = []" using d(1) that by simp
      then have "L = off + length (payload (seg # segs)) \<and> seg # segs \<noteq> [] \<and> 0 < len16 (fst (last (seg # segs))) \<longrightarrow>
          dcnt' = dcnt + length (seg # segs)"
        using d(2) len by (cases "segs = []") auto
      then show ?thesis unfolding run p d(1) by blast
    next
      case o: True
      let ?stop = "min (off + ?n) L"
      define m1 where "m1 = m\<lparr>pktbuf := put_bytes ?l (take (?stop - ?o) (drop (?o - off) b)) (pktbuf m),
        tso_off := ?stop, tso_len := ?l + (?stop - ?o)\<rparr>"
      have f: "?stop - off \<le> length b" "?l + (?stop - ?o) \<le> length (pktbuf m)" "?o \<le> ?stop"
        using nb Cons.prems(3,4,6) o by auto
      then have lt: "length (take (?stop - ?o) (drop (?o - off) b)) = ?stop - ?o" using Cons.prems(3) by auto
      have "?l + (?stop - ?o) < 2 ^ 32" using f(2) Cons.prems(7) by linarith
      then have "copy_part L off ?n b m = Ok m1"
        using f by (simp add: copy_part_def add Let_def m1_def not_le not_less)
      then have run: "copy_loop L (seg # segs) off dcnt m = copy_loop L segs (off + ?n) (dcnt + 1) m1"
        using True o Cons.prems(3) add by (simp add: seg)
      show ?thesis
      proof (cases "off + ?n \<le> L")
        case False
        have "drop (?o - off) (payload (seg # segs)) = drop (?o - off) (take ?n b) @ payload segs"
          using o nb by (simp add: seg)
        then have "take (L - ?o) (drop (?o - off) (payload (seg # segs))) = take (L - ?o) (drop (?o - off) b)"
          using False nb o Cons.prems(3,4) by (simp add: drop_take min_def)
        then show ?thesis using run copy_loop_stop [of "off + ?n" L segs "dcnt + 1" m1] False len
          by (auto simp: m1_def min_def)
      next
        case le: True
        let ?xs = "drop (?o - off) (take ?n b)"
        have m1: "tso_off m1 = off + ?n" "tso_len m1 = ?l + (off + ?n - ?o)" "pktbuf m1 = put_bytes ?l ?xs (pktbuf m)"
          using le Cons.prems(3) o by (simp_all add: m1_def drop_take min_def add.commute)
        have xs: "length ?xs = off + ?n - ?o" using nb Cons.prems(3) by auto
        have lb: "length (pktbuf m1) = length (pktbuf m)" using m1 xs f(2) le by (simp add: min_def)
        obtain dcnt' where d: "copy_loop L segs (off + ?n) (dcnt + 1) m1 = Ok (dcnt', m1\<lparr>pktbuf := put_bytes (tso_len m1)
            (take (L - tso_off m1) (drop (tso_off m1 - (off + ?n)) (payload segs))) (pktbuf m1),
            tso_off := L, tso_len := tso_len m1 + (L - tso_off m1)\<rparr>)"
          "L = off + ?n + length (payload segs) \<and> segs \<noteq> [] \<and> 0 < len16 (fst (last segs)) \<longrightarrow> dcnt' = dcnt + 1 + length segs"
          using Cons.IH [of "off + ?n" m1 "dcnt + 1"] Cons.prems len m1 le lb o by auto
        have p: "take (L - ?o) (drop (?o - off) (payload (seg # segs))) = ?xs @ take (L - (off + ?n)) (payload segs)"
          using o nb xs le Cons.prems(3) by (simp add: seg)
        have "put_bytes (tso_len m1) (take (L - (off + ?n)) (payload segs)) (pktbuf m1) =
            put_bytes ?l (?xs @ take (L - (off + ?n)) (payload segs)) (pktbuf m)"
          unfolding m1(2,3) xs [symmetric]
        proof (rule put_bytes_append)
          have "length (take (L - (off + ?n)) (payload segs)) \<le> L - (off + ?n)" by simp
          then show "?l + length ?xs + length (take (L - (off + ?n)) (payload segs)) \<le> length (pktbuf m)"
            unfolding xs using Cons.prems(6) le o by linarith
        qed
        moreover have "tso_len m1 + (L - tso_off m1) = ?l + (L - ?o)" using m1 le o by simp
        moreover have "m1\<lparr>pktbuf := x, tso_off := L, tso_len := y\<rparr> = m\<lparr>pktbuf := x, tso_off := L, tso_len := y\<rparr>" for x y
          by (simp add: m1_def)
        ultimately have r: "copy_loop L (seg # segs) off dcnt m = Ok (dcnt', m\<lparr>pktbuf := put_bytes ?l
            (take (L - ?o) (drop (?o - off) (payload (seg # segs)))) (pktbuf m), tso_off := L, tso_len := ?l + (L - ?o)\<rparr>)"
          unfolding run d(1) p by (simp add: m1(1))
        have "dcnt' = dcnt + 1" if "segs = []" using d(1) that by simp
        then have "L = off + length (payload (seg # segs)) \<and> seg # segs \<noteq> [] \<and> 0 < len16 (fst (last (seg # segs))) \<longrightarrow>
            dcnt' = dcnt + length (seg # segs)"
          using d(2) len by (cases "segs = []") auto
        then show ?thesis unfolding r by blast
      qed
    qed
  qed
qed

section \<open>Completed contexts\<close>

definition done_ctx :: "desc_ctx \<Rightarrow> desc_ctx" where
  "done_ctx c = c\<lparr>c_desc := put_bytes 8 (le_bytes 8 (0xF :: u64)) (c_desc c), c_state := DESC_PROCESSED\<rparr>"

definition mark_done :: "nat list \<Rightarrow> tx_queue \<Rightarrow> tx_queue" where
  "mark_done ps s = s\<lparr>desc_ctxs := map (\<lambda>i. (if i \<in> set ps then done_ctx else id) (desc_ctxs s ! i)) [0..<length (desc_ctxs s)]\<rparr>"

text \<open>Contexts that wait in \<open>ready_segments\<close>.\<close>

definition tx_ready :: "nat list \<Rightarrow> tx_queue \<Rightarrow> bool" where
  "tx_ready ps s \<longleftrightarrow> length (desc_ctxs s) = 128 \<and> distinct ps \<and> (\<forall>p \<in> set ps. p < 128 \<and> st_at s p = DESC_PROCESSING)"

lemma tx_ready_length: "tx_ready ps s \<Longrightarrow> length ps \<le> 128"
proof -
  assume r: "tx_ready ps s"
  then have "set ps \<subseteq> {..<128}" by (auto simp: tx_ready_def)
  then have "card (set ps) \<le> card {..<128 :: nat}" by (intro card_mono) auto
  then show ?thesis using r by (simp add: tx_ready_def distinct_card)
qed

lemma tx_processed_ok:
  assumes "tx_ready (p # ps) s"
  shows "tx_processed p s = Ok (s\<lparr>desc_ctxs := (desc_ctxs s)[p := done_ctx (desc_ctxs s ! p)]\<rparr>)"
  using assms
  by (auto simp: tx_processed_def processed_def upd_ctx_def set_state_def st_at_def tx_ready_def done_ctx_def assertR_def)

lemma more_update_same: "f (queue_base.more s) = queue_base.more s \<Longrightarrow> queue_base.more_update f s = s"
  by (cases s) simp

lemma pop_processed_ok:
  assumes "tx_ready ps s" "ready_segments (queue_base.more s) = ps @ rest"
  shows "pop_processed (length ps) s = Ok (tx_more (\<lambda>m. m\<lparr>ready_segments := rest\<rparr>) (mark_done ps s))"
  using assms
proof (induction ps arbitrary: s)
  case Nil
  have "mark_done [] s = s" by (simp add: mark_done_def map_nth)
  then show ?case using Nil by (simp add: more_update_same)
next
  case (Cons p ps)
  define s1 where "s1 = tx_more (\<lambda>m. m\<lparr>ready_segments := ps @ rest\<rparr>) (s\<lparr>desc_ctxs := (desc_ctxs s)[p := done_ctx (desc_ctxs s ! p)]\<rparr>)"
  have "tx_ready ps s1" using Cons.prems(1) by (auto simp: tx_ready_def s1_def st_at_def nth_list_update)
  then have "pop_processed (length ps) s1 = Ok (tx_more (\<lambda>m. m\<lparr>ready_segments := rest\<rparr>) (mark_done ps s1))"
    by (rule Cons.IH) (simp add: s1_def)
  moreover have "p \<notin> set ps" "p < length (desc_ctxs s)" using Cons.prems(1) by (auto simp: tx_ready_def)
  then have e: "map (\<lambda>i. (if i \<in> set ps then done_ctx else id) ((desc_ctxs s)[p := done_ctx (desc_ctxs s ! p)] ! i)) [0..<length (desc_ctxs s)] =
      map (\<lambda>i. (if i \<in> set (p # ps) then done_ctx else id) (desc_ctxs s ! i)) [0..<length (desc_ctxs s)]"
    by (auto simp: nth_list_update)
  have "tx_more (\<lambda>m. m\<lparr>ready_segments := rest\<rparr>) (mark_done ps s1) = tx_more (\<lambda>m. m\<lparr>ready_segments := rest\<rparr>) (mark_done (p # ps) s)"
    by (simp add: mark_done_def s1_def e comp_def del: map_eq_conv)
  ultimately show ?case using Cons.prems(2) by (simp add: tx_processed_ok [OF Cons.prems(1)] s1_def)
qed

section \<open>A packet without segmentation\<close>

abbreviation tx_segs :: "tx_queue \<Rightarrow> nat list \<Rightarrow> (u64 \<times> u8 list) list" where
  "tx_segs s ps \<equiv> map (\<lambda>p. (d1_at s p, data_at s p)) ps"

text \<open>
  A queue whose waiting contexts are exactly one packet: an optional context
  descriptor and the data descriptors \<open>ps\<close>.
\<close>

definition one_packet :: "bool \<Rightarrow> nat \<Rightarrow> nat \<Rightarrow> nat list \<Rightarrow> tx_queue \<Rightarrow> bool" where
  "one_packet tso mss d_skip ps s \<longleftrightarrow> (let m = queue_base.more s in
     tx_ready (ready_segments m) s \<and> ready_segments m \<noteq> [] \<and> length (pktbuf m) = MTU \<and>
     tx_context (d1_at s (hd (ready_segments m))) = (d_skip, tso, mss) \<and> ps = drop d_skip (ready_segments m) \<and>
     unit_ok (map (d1_at s) ps) \<and> (\<forall>seg \<in> set (tx_segs s ps). seg_ok seg))"

lemma tx_context_skip: "tx_context d = (k, tso, mss) \<Longrightarrow> k \<le> 1"
  by (auto simp: tx_context_def split: if_splits)

lemma length_payload:
  assumes "\<forall>seg \<in> set segs. seg_ok seg" "\<forall>d \<in> set (map fst segs). len16 d = len14 d"
  shows "length (payload segs) = sum_list (map len14 (map fst segs))"
  using assms by (induction segs) (auto simp: seg_ok_def)

lemma one_packet_facts:
  assumes "one_packet tso mss d_skip ps s"
  shows "d_skip + length ps = length (ready_segments (queue_base.more s))" "ps \<noteq> []"
    and "length (payload (tx_segs s ps)) = sum_list (map len14 (map (d1_at s) ps))"
    and "length (payload (tx_segs s ps)) \<le> 2 ^ 21"
    and "find_eop (map (d1_at s) ps) \<lparr>u_dcnt = d_skip, u_eop = False, u_l4t = 0, u_maclen = 0, u_iplen = 0, u_l4len = 0, u_total_len = 0\<rparr> =
      Ok (unit_of (map (d1_at s) ps) d_skip)"
    and "0 < len16 (fst (last (tx_segs s ps)))"
proof -
  let ?m = "queue_base.more s"
  have r: "tx_ready (ready_segments ?m) s" "ready_segments ?m \<noteq> []" "ps = drop d_skip (ready_segments ?m)"
    "unit_ok (map (d1_at s) ps)" "\<forall>seg \<in> set (tx_segs s ps). seg_ok seg"
    and c: "tx_context (d1_at s (hd (ready_segments ?m))) = (d_skip, tso, mss)"
    using assms unfolding one_packet_def Let_def by blast+
  show ne: "ps \<noteq> []" using r(4) by (simp add: unit_ok_def)
  show "d_skip + length ps = length (ready_segments ?m)" using ne r(3) by (metis append_take_drop_id drop_eq_Nil length_drop le_add_diff_inverse nle_le)
  have "length ps \<le> 128" using tx_ready_length [OF r(1)] r(3) by simp
  then have b: "2 ^ 14 * length (map (d1_at s) ps) \<le> (2 ^ 21 :: nat)" by simp
  show e: "length (payload (tx_segs s ps)) = sum_list (map len14 (map (d1_at s) ps))"
    using length_payload [OF r(5)] r(4) by (simp add: unit_ok_def comp_def)
  show "length (payload (tx_segs s ps)) \<le> 2 ^ 21" unfolding e using sum_len14 [of "map (d1_at s) ps"] b by linarith
  show "find_eop (map (d1_at s) ps) \<lparr>u_dcnt = d_skip, u_eop = False, u_l4t = 0, u_maclen = 0, u_iplen = 0, u_l4len = 0, u_total_len = 0\<rparr> =
      Ok (unit_of (map (d1_at s) ps) d_skip)"
    using r(4) b by (subst find_eop_unit) (auto simp: unit_ok_def unit_of_def Let_def)
  show "0 < len16 (fst (last (tx_segs s ps)))" using r(4) ne by (simp add: unit_ok_def last_map)
qed

text \<open>The packet is complete, so the only question is whether the back end takes it.\<close>

lemma trigger_tx_packet_complete:
  assumes p: "one_packet tso mss d_skip ps s" and l: "\<not> tso \<Longrightarrow> length (payload (tx_segs s ps)) \<le> MTU"
  shows "trigger_tx_packet drv s = andThen
     (if tso \<and> tso_len (queue_base.more s) = 0 \<and> tso_off (queue_base.more s) = 0
      then send_tso drv (unit_of (map (d1_at s) ps) d_skip) mss (tx_segs s ps) s else Ok (False, s))
     (\<lambda>(hardware_tso_success, s').
       if hardware_tso_success then andThen (pop_processed (d_skip + length ps) s') (\<lambda>s. Ok (True, s))
       else software_send tso mss d_skip (tx_segs s ps) (unit_of (map (d1_at s) ps) d_skip) s')"
proof -
  let ?m = "queue_base.more s" and ?u = "unit_of (map (d1_at s) ps) d_skip"
  have c: "tx_context (d1_at s (hd (ready_segments ?m))) = (d_skip, tso, mss)" "ready_segments ?m \<noteq> []"
    and ps: "drop d_skip (ready_segments ?m) = ps"
    using p by (auto simp: one_packet_def Let_def)
  have u: "u_eop ?u" "u_dcnt ?u = d_skip + length ps" "u_total_len ?u = length (payload (tx_segs s ps))"
    using one_packet_facts(3) [OF p] by (simp_all add: unit_of_def Let_def)
  have f: "map fst (tx_segs s ps) = map (d1_at s) ps" by simp
  obtain p0 rs where r: "ready_segments ?m = p0 # rs" using c(2) by (cases "ready_segments ?m") auto
  have t: "take (d_skip + length ps - d_skip) (tx_segs s ps) = tx_segs s ps" by simp
  have n: "(\<not> tso \<and> MTU < u_total_len ?u) = False" using l u(3) by auto
  show ?thesis
    unfolding trigger_tx_packet_def r list.case Let_def using c(1)
    unfolding r list.sel ps [unfolded r] f
    by (simp only: prod.case one_packet_facts(5) [OF p] andThen.simps u(1) n t u(2) ps [unfolded r] f not_True_eq_False if_False)
qed

lemma one_packet_copy:
  assumes p: "one_packet tso mss d_skip ps s"
    and b: "tso_off (queue_base.more s) \<le> L" "L \<le> length (payload (tx_segs s ps))"
      "tso_len (queue_base.more s) + (L - tso_off (queue_base.more s)) \<le> MTU"
  shows "\<exists>dcnt. copy_loop L (tx_segs s ps) 0 d_skip (queue_base.more s) = Ok (dcnt, (queue_base.more s)\<lparr>
      pktbuf := put_bytes (tso_len (queue_base.more s)) (take (L - tso_off (queue_base.more s))
        (drop (tso_off (queue_base.more s)) (payload (tx_segs s ps)))) (pktbuf (queue_base.more s)),
      tso_off := L, tso_len := tso_len (queue_base.more s) + (L - tso_off (queue_base.more s))\<rparr>) \<and>
    (L = length (payload (tx_segs s ps)) \<longrightarrow> dcnt = length (ready_segments (queue_base.more s)))"
proof -
  have q: "length (pktbuf (queue_base.more s)) = MTU" "\<forall>seg \<in> set (tx_segs s ps). seg_ok seg"
    using p by (simp_all add: one_packet_def Let_def)
  have "length (payload (tx_segs s ps)) < 2 ^ 32" using one_packet_facts(4) [OF p] by simp
  then show ?thesis
    using copy_loop_spec [OF q(2), of 0 "queue_base.more s" L d_skip] b q(1) one_packet_facts(1,2,6) [OF p] by auto
qed

lemma unit_done_all:
  assumes "tx_ready (ready_segments (queue_base.more s)) s"
  shows "unit_done (length (ready_segments (queue_base.more s))) s =
    Ok (True, tx_more (\<lambda>m. m\<lparr>ready_segments := [], tso_len := 0, tso_off := 0\<rparr>) (mark_done (ready_segments (queue_base.more s)) s))"
  using pop_processed_ok [OF assms, of "[]"] by (simp add: unit_done_def comp_def)

lemma tx_ready_outer [simp]:
  "tx_ready ps (tx_more f s) = tx_ready ps s" "tx_ready ps (s\<lparr>q_events := e\<rparr>) = tx_ready ps s"
  by (simp_all add: tx_ready_def st_at_def)

lemma sub_buf_append: "sub_buf off n p = Some x \<Longrightarrow> sub_buf off n (p @ rest) = Some x"
  by (auto simp: sub_buf_def split: if_splits)

lemma put16_append: "put16 off v p = Some p' \<Longrightarrow> put16 off v (p @ rest) = Some (p' @ rest) \<and> length p' = length p"
  by (auto simp: put16_def put_bytes_def split: if_splits)

text \<open>The checksum of a packet does not depend on what follows it in the packet buffer.\<close>

lemma xsum_l4_append: "xsum_l4 l4t off n p = Some p' \<Longrightarrow> xsum_l4 l4t off n (p @ rest) = Some (p' @ rest) \<and> length p' = length p"
  using sub_buf_append put16_append
  by (fastforce simp: xsum_l4_def xsum_tcp_def xsum_udp_def split: if_splits Option.bind_splits)

lemma trigger_tx_idle: "ready_segments (queue_base.more s) = [] \<Longrightarrow> trigger_tx_packet drv s = Ok (False, s)"
  by (simp add: trigger_tx_packet_def)

lemma send_plain_run:
  assumes p: "one_packet False mss d_skip ps s" "tso_off (queue_base.more s) = 0" "tso_len (queue_base.more s) = 0"
    and l: "length (payload (tx_segs s ps)) \<le> MTU"
    and x: "xsum_l4 (u_l4t u) (u_maclen u + u_iplen u) (length (payload (tx_segs s ps))) (payload (tx_segs s ps)) = Some pkt"
    and u: "u = unit_of (map (d1_at s) ps) d_skip"
  shows "\<exists>s'. trigger_tx_packet drv s = Ok (True, s') \<and> q_events s' = q_events s @ [Ev_send pkt] \<and>
    desc_ctxs s' = desc_ctxs (mark_done (ready_segments (queue_base.more s)) s) \<and>
    ready_segments (queue_base.more s') = [] \<and> tso_off (queue_base.more s') = 0 \<and> tso_len (queue_base.more s') = 0"
proof -
  let ?m = "queue_base.more s" and ?P = "payload (tx_segs s ps)"
  have r: "tx_ready (ready_segments ?m) s" "length (pktbuf ?m) = MTU" using p(1) by (simp_all add: one_packet_def Let_def)
  have t: "u_total_len u = length ?P" using one_packet_facts(3) [OF p(1)] by (simp add: u unit_of_def Let_def)
  define m1 where "m1 = ?m\<lparr>pktbuf := ?P @ drop (length ?P) (pktbuf ?m), tso_off := length ?P, tso_len := length ?P\<rparr>"
  have "copy_loop (length ?P) (tx_segs s ps) 0 d_skip ?m = Ok (length (ready_segments ?m), m1)"
    using one_packet_copy [OF p(1), of "length ?P"] p(2,3) l by (auto simp: m1_def put_bytes_def)
  then have "trigger_tx_packet drv s = send_plain u (length (ready_segments ?m)) (tx_more (\<lambda>_. m1) s)"
    using l by (simp add: trigger_tx_packet_complete [OF p(1) l] software_send_def data_limit_def t u [symmetric] Let_def m1_def)
  moreover define s1 where "s1 = EthSend pkt (tx_more (\<lambda>m. m1\<lparr>pktbuf := pkt @ drop (length ?P) (pktbuf ?m)\<rparr>) s)"
  have "send_plain u (length (ready_segments ?m)) (tx_more (\<lambda>_. m1) s) = unit_done (length (ready_segments ?m)) s1"
    using xsum_l4_append [OF x] by (simp add: send_plain_def Let_def m1_def s1_def comp_def)
  moreover have "ready_segments (queue_base.more s1) = ready_segments ?m" "tx_ready (ready_segments ?m) s1"
    using r(1) by (simp_all add: s1_def m1_def EthSend_def)
  ultimately show ?thesis
    using unit_done_all [of s1] by (simp add: s1_def m1_def EthSend_def mark_done_def)
qed

text \<open>
  C27: a packet is sent as the guest wrote it.  When the descriptors of a packet
  without segmentation have been fetched, the transmit loop ends after sending
  exactly one packet: the concatenation of the descriptors' buffers, with the
  requested transport checksum filled in.  Every descriptor of the packet,
  including a leading context descriptor, is marked done, no other context
  changes, and the queue is ready for the next packet.
\<close>

theorem tx_plain_packet:
  assumes "one_packet False mss d_skip ps s" "tso_off (queue_base.more s) = 0" "tso_len (queue_base.more s) = 0"
    and "length (payload (tx_segs s ps)) \<le> MTU" "u = unit_of (map (d1_at s) ps) d_skip"
    and "xsum_l4 (u_l4t u) (u_maclen u + u_iplen u) (length (payload (tx_segs s ps))) (payload (tx_segs s ps)) = Some pkt"
  shows "\<exists>s'. trigger_tx drv (Suc (Suc n)) s = Ok s' \<and> q_events s' = q_events s @ [Ev_send pkt] \<and>
    desc_ctxs s' = desc_ctxs (mark_done (ready_segments (queue_base.more s)) s) \<and>
    ready_segments (queue_base.more s') = [] \<and> tso_off (queue_base.more s') = 0 \<and> tso_len (queue_base.more s') = 0"
  using send_plain_run [OF assms(1,2,3,4,6,5), of drv] trigger_tx_idle by auto

text \<open>A queue with the given descriptors waiting.\<close>

definition demo_ctx :: "u64 \<times> u8 list \<Rightarrow> desc_ctx" where
  "demo_ctx seg = \<lparr>c_state = DESC_PROCESSING, c_index = 0, c_desc = le_bytes 8 (0 :: u64) @ le_bytes 8 (fst seg), c_data = snd seg\<rparr>"

definition demo_tx :: "(u64 \<times> u8 list) list \<Rightarrow> tx_queue" where
  "demo_tx segs = \<lparr>q_vfu = \<lparr>mapped = {}, sgs = {}, mappings = [], iommu_calls = []\<rparr>, q_mem = (\<lambda>_. 0),
     q_events = [], desc_ctxs = map demo_ctx (segs @ replicate (128 - length segs) (0, [])),
     active_first_pos = 0, active_first_idx = 0, active_cnt = length segs, q_base = 0, q_len = 8, reg_head = 0, reg_tail = length segs,
     q_enabled = True, desc_len = 16, \<dots> = \<lparr>enabling = False, lq_idx = 0, reg_ena = 5, reg_intqctl = 0,
       dyn_ctln = replicate 2047 0, pfint_icr0 = 0, pktbuf = replicate MTU 0, tso_off = 0, tso_len = 0,
       ready_segments = [0..<length segs], hwb = False, hwb_addr = 0\<rparr>\<rparr>"

lemma demo_tx_simps [simp]:
  "ready_segments (queue_base.more (demo_tx segs)) = [0..<length segs]" "tso_off (queue_base.more (demo_tx segs)) = 0"
  "tso_len (queue_base.more (demo_tx segs)) = 0" "length (pktbuf (queue_base.more (demo_tx segs))) = MTU" "q_events (demo_tx segs) = []"
  by (simp_all add: demo_tx_def)

lemma demo_tx_at:
  assumes "length segs \<le> 128" "p < length segs"
  shows "d1_at (demo_tx segs) p = fst (segs ! p)" "data_at (demo_tx segs) p = snd (segs ! p)" "st_at (demo_tx segs) p = DESC_PROCESSING"
proof -
  have "desc_ctxs (demo_tx segs) ! (p mod 128) = demo_ctx (segs ! p)" using assms by (simp add: demo_tx_def nth_append)
  then show "d1_at (demo_tx segs) p = fst (segs ! p)" "data_at (demo_tx segs) p = snd (segs ! p)" "st_at (demo_tx segs) p = DESC_PROCESSING"
    using le_word_le_bytes [of 8 "fst (segs ! p)"] by (simp_all add: d1_at_def data_at_def st_at_def demo_ctx_def le_field_def)
qed

lemma demo_tx_ready: "length segs \<le> 128 \<Longrightarrow> tx_ready [0..<length segs] (demo_tx segs)"
  using demo_tx_at(3) by (auto simp: tx_ready_def) (simp add: demo_tx_def)

text \<open>One descriptor of three bytes (\<open>EOP\<close>, buffer length 3).\<close>

theorem tx_plain_packet_witness:
  "\<exists>s'. trigger_tx (\<lambda>_ _ _ _ _ _ _. False) 2 (demo_tx [(0xC00000010, [1, 2, 3])]) = Ok s' \<and> q_events s' = [Ev_send [1, 2, 3]]"
proof -
  let ?s = "demo_tx [(0xC00000010, [1, 2, 3])]" and ?u = "unit_of [0xC00000010] 0"
  have d: "d1_at ?s 0 = 0xC00000010" "data_at ?s 0 = [1, 2, 3]" using demo_tx_at [of "[(0xC00000010, [1, 2, 3])]" 0] by simp_all
  have f: "txd_dtype 0xC00000010 = 0" "len16 0xC00000010 = 3" "len14 0xC00000010 = 3" "bit (txd_cmd 0xC00000010) 0"
    "txd_cmd 0xC00000010 AND 0x300 = 0"
    by (simp_all add: txd_dtype_def len16_def len14_def txd_cmd_def)
  have "one_packet False 0 0 [0] ?s"
    using demo_tx_ready [of "[(0xC00000010, [1, 2, 3])]"]
    by (simp add: one_packet_def Let_def d f tx_context_def unit_ok_def seg_ok_def)
  moreover have "xsum_l4 (u_l4t ?u) x n [1, 2, 3] = Some [1, 2, 3]" for x n by (simp add: xsum_l4_def unit_of_def Let_def f)
  ultimately show ?thesis
    using tx_plain_packet [of 0 0 "[0]" ?s ?u "[1, 2, 3]" "\<lambda>_ _ _ _ _ _ _. False" 0] by (auto simp: d f numeral_2_eq_2)
qed

section \<open>A descriptor that stops the device\<close>

text \<open>
  An empty last descriptor stops the device.  If a packet ends with a
  descriptor of length zero, the loop over the buffers stops before it and it is
  left waiting; from then on the transmit loop sends an empty packet in every
  round, takes nothing from the queue and never ends, whatever its fuel.
\<close>

theorem tx_empty_eop_diverges:
  assumes "ready_segments (queue_base.more s) = [p]" "tso_off (queue_base.more s) = 0" "tso_len (queue_base.more s) = 0"
    and "txd_dtype (d1_at s p) = 0" "bit (txd_cmd (d1_at s p)) 0" "len14 (d1_at s p) = 0" "txd_cmd (d1_at s p) AND 0x300 = 0"
  shows "trigger_tx_packet drv s = Ok (True, EthSend [] s) \<and> trigger_tx drv n s = Fault"
proof -
  have round: "trigger_tx_packet drv t = Ok (True, EthSend [] t)"
    if t: "queue_base.more t = queue_base.more s" "desc_ctxs t = desc_ctxs s" for t
  proof -
    have "d1_at t p = d1_at s p" using t(2) by (simp add: d1_at_def)
    then have "trigger_tx_packet drv t = software_send False 0 0 (tx_segs t [p]) (unit_of [d1_at s p] 0) t"
      using assms t by (simp add: trigger_tx_packet_def tx_context_def unit_add_def unit_of_def Let_def add32_def)
    also have "\<dots> = Ok (True, EthSend [] t)"
      using assms t
      by (simp add: software_send_def data_limit_def unit_of_def Let_def send_plain_def xsum_l4_def unit_done_def
          more_update_same EthSend_def)
    finally show ?thesis .
  qed
  have "trigger_tx drv n t = Fault" if "queue_base.more t = queue_base.more s" "desc_ctxs t = desc_ctxs s" for t
    using that
  proof (induction n arbitrary: t)
    case (Suc n)
    then show ?case by (simp add: round EthSend_def)
  qed simp
  then show ?thesis using round by simp
qed

theorem tx_empty_eop_diverges_witness:
  "trigger_tx (\<lambda>_ _ _ _ _ _ _. False) 100 (demo_tx [(0x10, [])]) = Fault"
proof -
  have "d1_at (demo_tx [(0x10, [])]) 0 = 0x10" using demo_tx_at [of "[(0x10, [])]" 0] by simp
  then show ?thesis
    using tx_empty_eop_diverges [of "demo_tx [(0x10, [])]" 0]
    by (simp add: txd_dtype_def txd_cmd_def len14_def)
qed

end
