(* ===== verification/E810_Tso.thy ===== *)
theory E810_Tso
  imports E810_Tx_Packet
begin

text \<open>
  Segmentation in software: when the back end refuses a packet with segmentation
  offload, the transmit loop cuts it into TCP segments itself, reusing the packet
  buffer, whose headers it updates from segment to segment.
\<close>

section \<open>Fields of buffers that agree\<close>

lemma window_eq:
  assumes "\<And>i. off \<le> i \<Longrightarrow> i < off + n \<Longrightarrow> p ! i = q ! i" "off + n \<le> length p" "off + n \<le> length q"
  shows "take n (drop off p) = take n (drop off q)"
  using assms by (intro nth_equalityI) auto

lemma be16_eq: "(\<And>i. off \<le> i \<Longrightarrow> i < off + 2 \<Longrightarrow> p ! i = q ! i) \<Longrightarrow> off + 2 \<le> length p \<Longrightarrow> off + 2 \<le> length q \<Longrightarrow> be16 p off = be16 q off"
  unfolding be16_def by (metis window_eq)

lemma be32_eq: "(\<And>i. off \<le> i \<Longrightarrow> i < off + 4 \<Longrightarrow> p ! i = q ! i) \<Longrightarrow> off + 4 \<le> length p \<Longrightarrow> off + 4 \<le> length q \<Longrightarrow> be32 p off = be32 q off"
  unfolding be32_def by (metis window_eq)

lemma be32_put:
  assumes "off + 4 \<le> length p"
  shows "be32 (put_bytes off (rev (le_bytes 4 v)) p) off = v"
proof -
  have "take 4 (drop off (put_bytes off (rev (le_bytes 4 v)) p)) = rev (le_bytes 4 v)"
    using assms by (simp add: put_bytes_def)
  then show ?thesis using le_word_le_bytes [of 4 v] by (simp add: be32_def)
qed

section \<open>Segments\<close>

text \<open>
  The \<open>k\<close>-th segment of the packet \<open>P\<close>, whose IP header starts at \<open>ih\<close> and whose TCP
  header has \<open>l4\<close> bytes, with \<open>mss\<close> bytes of payload per segment: the payload is the
  \<open>k\<close>-th chunk, the IP length and the checksums are those of this segment, the
  identification counts segments and the sequence number counts bytes.  The
  other header bytes are those of the packet.
\<close>

definition header_fixed :: "nat \<Rightarrow> nat \<Rightarrow> bool" where
  "header_fixed ih i \<longleftrightarrow> i \<notin> {ih + 2, ih + 3, ih + 4, ih + 5, ih + 10, ih + 11, ih + 24, ih + 25, ih + 26, ih + 27, ih + 36, ih + 37}"

definition header_at :: "nat \<Rightarrow> nat \<Rightarrow> nat \<Rightarrow> nat \<Rightarrow> u8 list \<Rightarrow> u8 list \<Rightarrow> bool" where
  "header_at ih l4 mss k P q \<longleftrightarrow> be16 q (ih + 4) = be16 P (ih + 4) + of_nat k \<and>
     be32 q (ih + 24) = be32 P (ih + 24) + of_nat (k * mss) \<and>
     (\<forall>i < ih + 20 + l4. header_fixed ih i \<longrightarrow> q ! i = P ! i)"

definition tso_segment :: "nat \<Rightarrow> nat \<Rightarrow> nat \<Rightarrow> u8 list \<Rightarrow> nat \<Rightarrow> u8 list \<Rightarrow> bool" where
  "tso_segment ih l4 mss P k q \<longleftrightarrow> (let h = ih + 20 + l4; data = chunk mss (drop h P) k in
     length q = h + length data \<and> drop h q = data \<and> header_at ih l4 mss k P q \<and>
     be16 q (ih + 2) = of_nat (20 + l4 + length data) \<and>
     cksum_accepted (take 20 (drop ih q)) 0 \<and>
     cksum_accepted (drop (ih + 20) q) (ucast (rte_raw_cksum (pseudo_header q ih (of_nat (l4 + length data))))))"

lemma header_at_agree:
  assumes "header_at ih l4 mss k P p" "20 \<le> l4" "ih + 20 + l4 \<le> length p" "ih + 20 + l4 \<le> length q"
    and "\<And>i. i < ih + 20 + l4 \<Longrightarrow> i \<notin> {ih + 2, ih + 3, ih + 10, ih + 11, ih + 36, ih + 37} \<Longrightarrow> q ! i = p ! i"
  shows "header_at ih l4 mss k P q"
proof -
  have "be16 q (ih + 4) = be16 p (ih + 4)" "be32 q (ih + 24) = be32 p (ih + 24)"
    using assms(2-4) by (intro be16_eq be32_eq assms(5); auto)+
  moreover have "\<forall>i < ih + 20 + l4. header_fixed ih i \<longrightarrow> q ! i = P ! i"
    using assms(1,5) by (auto simp: header_at_def header_fixed_def)
  ultimately show ?thesis using assms(1) by (simp add: header_at_def)
qed

text \<open>Updating the headers for the next segment.\<close>

lemma postupdate_run:
  assumes "header_at ih l4 mss k P p" "20 \<le> l4" "ih + 20 + l4 \<le> length p"
    and n: "n < 65536" "mss = n"
  shows "\<exists>p'. tso_postupdate_header ih 20 l4len (of_nat n) p = Some p' \<and> length p' = length p \<and> header_at ih l4 mss (Suc k) P p'"
proof -
  define p1 where "p1 = put_bytes (ih + 24) (rev (le_bytes 4 (be32 p (ih + 24) + of_nat n))) p"
  define p2 where "p2 = put_bytes (ih + 4) (rev (le_bytes 2 (be16 p1 (ih + 4) + 1))) p1"
  have l: "length p1 = length p" "length p2 = length p" using assms(2,3) by (simp_all add: p1_def p2_def)
  have u: "(ucast (of_nat n :: u16) :: u32) = of_nat n"
    using n(1) by (simp add: word_eq_iff_unsigned unsigned_ucast_eq unsigned_of_nat take_bit_nat_eq_self)
  have "tso_postupdate_header ih 20 l4len (of_nat n) p = Some p2"
    using assms(2,3) l u by (simp add: tso_postupdate_header_def put_be32_def put_be16_def p1_def p2_def add.assoc)
  moreover have "be16 p1 (ih + 4) = be16 p (ih + 4)"
    using assms(2,3) by (simp add: p1_def be16_put_other)
  then have "be16 p2 (ih + 4) = be16 p (ih + 4) + 1" using assms(2,3) l by (simp add: p2_def be16_put)
  moreover have "be32 p2 (ih + 24) = be32 p1 (ih + 24)"
    using assms(2,3) l by (intro be32_eq) (auto simp: p2_def nth_put_bytes)
  then have "be32 p2 (ih + 24) = be32 p (ih + 24) + of_nat n" using assms(2,3) by (simp add: p1_def be32_put)
  moreover have "p2 ! i = p ! i" if "i < ih + 20 + l4" "header_fixed ih i" for i
    using that assms(2,3) l by (auto simp: p2_def p1_def nth_put_bytes header_fixed_def)
  ultimately show ?thesis using assms(1) l n(2) by (auto simp: header_at_def algebra_simps)
qed

lemma segment_run:
  assumes hdr: "header_at ih l4 mss k P B" and l4: "20 \<le> l4" "l4 \<le> 60" and B: "length B = MTU" "ih + 20 + l4 + length data \<le> MTU"
    and data: "take (length data) (drop (ih + 20 + l4) B) = data" "data = chunk mss (drop (ih + 20 + l4) P) k"
  shows "\<exists>p. xsum_tcpip_tso ih 20 (of_nat l4) (of_nat (length data)) B = Some p \<and> length p = MTU \<and>
    header_at ih l4 mss k P p \<and> tso_segment ih l4 mss P k (take (ih + 20 + l4 + length data) p)"
proof -
  let ?n = "length data" and ?h = "ih + 20 + l4"
  have u: "unat (of_nat l4 :: u8) = l4" "unat (of_nat ?n :: u16) = ?n"
    using l4(2) B(2) by (simp_all add: unat_of_nat take_bit_nat_eq_self)
  have uc: "(ucast (of_nat l4 :: u8) :: u16) = of_nat l4"
    using l4(2) by (simp add: word_eq_iff_unsigned unsigned_ucast_eq unsigned_of_nat take_bit_nat_eq_self)
  obtain p where p: "xsum_tcpip_tso ih 20 (of_nat l4) (of_nat ?n) B = Some p" "length p = MTU"
    "be16 p (ih + 2) = 20 + (of_nat l4 + of_nat ?n)" "cksum_accepted (take 20 (drop ih p)) 0"
    "cksum_accepted (take (l4 + ?n) (drop (ih + 20) p)) (ucast (rte_raw_cksum (pseudo_header p ih (of_nat l4 + of_nat ?n))))"
    "\<forall>i < MTU. i \<notin> {ih + 2, ih + 3, ih + 10, ih + 11, ih + 36, ih + 37} \<longrightarrow> p ! i = B ! i"
    using xsum_tcpip_tso_run [of ih "of_nat l4" "of_nat ?n" B] B l4 unfolding u uc by auto
  let ?q = "take (?h + ?n) p"
  have lq: "length ?q = ?h + ?n" using p(2) B(2) by simp
  have h: "header_at ih l4 mss k P p"
    using hdr l4(1) p(2,6) B by (intro header_at_agree [OF hdr]) auto
  have hq: "header_at ih l4 mss k P ?q"
    using l4(1) p(2) B(2) lq by (intro header_at_agree [OF h]) auto
  have "take ?n (drop ?h p) = take ?n (drop ?h B)"
    using p(2,6) B l4(1) by (intro window_eq) auto
  then have d: "drop ?h ?q = data" using data(1) by (simp add: drop_take)
  have "be16 ?q (ih + 2) = be16 p (ih + 2)" using l4(1) p(2) B(2) lq by (intro be16_eq) auto
  then have b: "be16 ?q (ih + 2) = of_nat (20 + l4 + ?n)" using p(3) by simp
  have w: "take 20 (drop ih ?q) = take 20 (drop ih p)" "drop (ih + 20) ?q = take (l4 + ?n) (drop (ih + 20) p)"
    by (simp_all add: drop_take min_def)
  have "take 8 (drop (ih + 12) ?q) = take 8 (drop (ih + 12) p)" using l4(1) by (simp add: drop_take min_def)
  then have ph: "pseudo_header ?q ih v = pseudo_header p ih v" for v by (simp add: pseudo_header_def)
  have "tso_segment ih l4 mss P k ?q"
    unfolding tso_segment_def Let_def data(2) [symmetric] w ph of_nat_add [of l4]
    using lq d hq b p(4,5) by blast
  then show ?thesis using p(1,2) h by blast
qed

lemma postupdate_total:
  assumes "ih + 40 \<le> length p"
  shows "\<exists>p'. tso_postupdate_header ih 20 l4len n p = Some p' \<and> length p' = length p"
  using assms by (simp add: tso_postupdate_header_def put_be32_def put_be16_def)

section \<open>The transmit loop on a segmented packet\<close>

text \<open>
  A packet with segmentation offload and a 20-byte IP header, whose headers and
  one segment's payload fit into the packet buffer.
\<close>

definition tso_packet :: "nat \<Rightarrow> nat \<Rightarrow> nat \<Rightarrow> nat \<Rightarrow> nat list \<Rightarrow> tx_queue \<Rightarrow> bool" where
  "tso_packet ih l4 mss d_skip ps s \<longleftrightarrow> (let u = unit_of (map (d1_at s) ps) d_skip; h = ih + 20 + l4 in
     one_packet True mss d_skip ps s \<and> u_maclen u = ih \<and> u_iplen u = 20 \<and> u_l4len u = l4 \<and> 20 \<le> l4 \<and>
     0 < mss \<and> h + mss \<le> MTU \<and> h < length (payload (tx_segs s ps)))"

text \<open>Before the \<open>k\<close>-th segment.\<close>

definition tso_inv :: "nat \<Rightarrow> nat \<Rightarrow> nat \<Rightarrow> nat list \<Rightarrow> nat \<Rightarrow> tx_queue \<Rightarrow> bool" where
  "tso_inv ih l4 mss ps k s \<longleftrightarrow> (let m = queue_base.more s; h = ih + 20 + l4; P = payload (tx_segs s ps) in
     h + k * mss < length P \<and>
     (if k = 0 then tso_off m = 0 \<and> tso_len m = 0
      else tso_off m = h + k * mss \<and> tso_len m = h \<and> header_at ih l4 mss k P (pktbuf m)))"

lemma chunk_length: "h + k * n < length P \<Longrightarrow> length (chunk n (drop h P) k) = min n (length P - (h + k * n))"
  by (simp add: chunk_def algebra_simps)

lemma tso_copy:
  fixes s :: tx_queue
  assumes p: "tso_packet ih l4 mss d_skip ps s" and i: "tso_inv ih l4 mss ps k s"
    and defs: "P = payload (tx_segs s ps)" "h = ih + 20 + l4" "data = chunk mss (drop h P) k" "L = min (h + Suc k * mss) (length P)"
  shows "data_limit True mss (unit_of (map (d1_at s) ps) d_skip) (queue_base.more s) = L"
    and "\<exists>dcnt B. copy_loop L (tx_segs s ps) 0 d_skip (queue_base.more s) =
        Ok (dcnt, (queue_base.more s)\<lparr>pktbuf := B, tso_off := L, tso_len := h + length data\<rparr>) \<and>
      length B = MTU \<and> header_at ih l4 mss k P B \<and> take (length data) (drop h B) = data \<and>
      (L = length P \<longrightarrow> dcnt = length (ready_segments (queue_base.more s)))"
proof -
  let ?m = "queue_base.more s" and ?u = "unit_of (map (d1_at s) ps) d_skip"
  have op: "one_packet True mss d_skip ps s" and f: "u_maclen ?u = ih" "u_iplen ?u = 20" "u_l4len ?u = l4"
    "20 \<le> l4" "0 < mss" "h + mss \<le> MTU" "h < length P"
    using p by (simp_all add: tso_packet_def Let_def defs(1,2))
  have buf: "length (pktbuf ?m) = MTU" using op by (simp add: one_packet_def Let_def)
  have t: "u_total_len ?u = length P" using one_packet_facts(3) [OF op] by (simp add: unit_of_def Let_def defs(1))
  have k: "h + k * mss < length P" using i by (simp add: tso_inv_def Let_def defs(1,2))
  have lP: "length P \<le> 2 ^ 21" using one_packet_facts(4) [OF op] by (simp add: defs(1))
  have ld: "length data = min mss (length P - (h + k * mss))" unfolding defs(3) by (rule chunk_length [OF k])
  have "k * mss + mss < 2 ^ 32" using k lP f(6) by simp
  show "data_limit True mss ?u ?m = L"
  proof (cases "k = 0")
    case True
    then show ?thesis using i f t by (simp add: tso_inv_def data_limit_def Let_def defs(2,4))
  next
    case False
    have "add32 (h + k * mss) mss = h + k * mss + mss" using k lP f(6) by (intro add32_small) simp
    then show ?thesis using i f t False by (simp add: tso_inv_def data_limit_def Let_def defs(2,4) add.assoc add.commute)
  qed
  show "\<exists>dcnt B. copy_loop L (tx_segs s ps) 0 d_skip ?m = Ok (dcnt, ?m\<lparr>pktbuf := B, tso_off := L, tso_len := h + length data\<rparr>) \<and>
      length B = MTU \<and> header_at ih l4 mss k P B \<and> take (length data) (drop h B) = data \<and>
      (L = length P \<longrightarrow> dcnt = length (ready_segments ?m))"
  proof (cases "k = 0")
    case True
    then have z: "tso_off ?m = 0" "tso_len ?m = 0" using i by (simp_all add: tso_inv_def Let_def)
    have L: "L = h + length data" "L \<le> MTU" "h \<le> L" "L \<le> length P" using True ld f k by (auto simp: defs(4))
    let ?B = "put_bytes 0 (take L P) (pktbuf ?m)"
    obtain dcnt where d: "copy_loop L (tx_segs s ps) 0 d_skip ?m = Ok (dcnt, ?m\<lparr>pktbuf := ?B, tso_off := L, tso_len := L\<rparr>)"
      "L = length P \<longrightarrow> dcnt = length (ready_segments ?m)"
      using one_packet_copy [OF op, of L] z L by (auto simp: defs(1))
    have B: "length ?B = MTU" "\<And>i. i < L \<Longrightarrow> ?B ! i = P ! i" using L buf by (simp_all add: nth_put_bytes)
    have "header_at ih l4 mss k P ?B"
      unfolding header_at_def using True f B L defs(2)
      by (auto intro!: be16_eq be32_eq)
    moreover have "take (length data) (drop h ?B) = take (length data) (drop h P)"
      using B L f by (intro window_eq) auto
    then have "take (length data) (drop h ?B) = data" using True by (simp add: defs(3) chunk_def min_def)
    ultimately show ?thesis unfolding L(1) [symmetric] using d B(1) by blast
  next
    case False
    then have z: "tso_off ?m = h + k * mss" "tso_len ?m = h" "header_at ih l4 mss k P (pktbuf ?m)"
      using i by (simp_all add: tso_inv_def Let_def defs(1,2))
    have L: "L = h + k * mss + length data" "L \<le> length P" using ld k by (auto simp: defs(4) algebra_simps)
    have td: "take (L - tso_off ?m) (drop (tso_off ?m) P) = data"
      using L(1) z(1) ld unfolding defs(3) chunk_def by (auto simp: algebra_simps min_def)
    let ?B = "put_bytes h data (pktbuf ?m)"
    have b: "h + length data \<le> MTU" using ld f(6) by simp
    obtain dcnt where d: "copy_loop L (tx_segs s ps) 0 d_skip ?m = Ok (dcnt, ?m\<lparr>pktbuf := ?B, tso_off := L, tso_len := h + length data\<rparr>)"
      "L = length P \<longrightarrow> dcnt = length (ready_segments ?m)"
      using one_packet_copy [OF op, of L] z L b td by (auto simp: defs(1))
    have B: "length ?B = MTU" "\<And>i. i < h \<Longrightarrow> ?B ! i = pktbuf ?m ! i" using b buf by (simp_all add: nth_put_bytes)
    have "header_at ih l4 mss k P ?B"
      using f B b buf defs(2) by (intro header_at_agree [OF z(3)]) auto
    moreover have "take (length data) (drop h ?B) = data" using b buf by (simp add: put_bytes_def)
    ultimately show ?thesis using d B(1) by blast
  qed
qed

text \<open>The packets sent so far.\<close>

definition sent :: "event list \<Rightarrow> u8 list list" where
  "sent evs = concat (map (\<lambda>e. case e of Ev_send p \<Rightarrow> [p] | _ \<Rightarrow> []) evs)"

lemma sent_append [simp]: "sent (a @ b) = sent a @ sent b"
  by (simp add: sent_def)

lemma sent_simps [simp]: "sent [] = []" "sent [Ev_send p] = [p]" "sent (Ev_send_tso p e # evs) = sent evs"
  by (simp_all add: sent_def)

text \<open>
  A back end that never takes the end of a packet, such as one without
  segmentation offload, sends nothing of it.
\<close>

definition refuses :: "tso_driver \<Rightarrow> bool" where
  "refuses drv \<longleftrightarrow> (\<forall>p l2 l3 l4 seg evs. \<not> drv p True l2 l3 l4 seg evs)"

lemma send_tso_refused:
  assumes "refuses drv" "segs \<noteq> []" "\<forall>seg \<in> set segs. seg_ok seg"
  shows "\<exists>evs. send_tso drv u mss segs s = Ok (False, s\<lparr>q_events := q_events s @ evs\<rparr>) \<and> sent evs = []"
  using assms(2,3)
proof (induction segs arbitrary: s rule: list_nonempty_induct)
  case (single x)
  then show ?case using assms(1) by (cases x) (auto simp: refuses_def seg_ok_def Let_def intro!: exI [of _ "[Ev_send_tso _ _]"])
next
  case (cons x xs)
  obtain d b where x: "x = (d, b)" by (cases x)
  let ?e = "[Ev_send_tso (take (len16 d) b) False]"
  let ?s = "s\<lparr>q_events := q_events s @ ?e\<rparr>"
  have ok: "len16 d \<le> length b" "\<forall>seg \<in> set xs. seg_ok seg" using cons.prems by (simp_all add: x seg_ok_def)
  obtain evs where "send_tso drv u mss xs ?s = Ok (False, ?s\<lparr>q_events := q_events ?s @ evs\<rparr>)" "sent evs = []"
    using cons.IH [OF ok(2), of ?s] by blast
  then have "send_tso drv u mss (x # xs) s = Ok (False, s\<lparr>q_events := q_events s @ (?e @ evs)\<rparr>) \<or>
      send_tso drv u mss (x # xs) s = Ok (False, s\<lparr>q_events := q_events s @ ?e\<rparr>)" "sent (?e @ evs) = []" "sent ?e = []"
    using ok(1) cons.hyps by (auto simp: x Let_def)
  then show ?case by blast
qed

lemma segs_outer [simp]:
  "d1_at (tx_more f s) = d1_at s" "d1_at (s\<lparr>q_events := e\<rparr>) = d1_at s"
  "data_at (tx_more f s) = data_at s" "data_at (s\<lparr>q_events := e\<rparr>) = data_at s"
  by (simp_all add: fun_eq_iff d1_at_def data_at_def)

text \<open>One round of the loop: one segment is sent.\<close>

lemma tso_round:
  fixes s :: tx_queue
  assumes p: "tso_packet ih l4 mss d_skip ps s" and i: "tso_inv ih l4 mss ps k s"
    and drv: "refuses drv"
    and defs: "P = payload (tx_segs s ps)" "h = ih + 20 + l4"
  shows "\<exists>q s'. trigger_tx_packet drv s = Ok (True, s') \<and> sent (q_events s') = sent (q_events s) @ [q] \<and>
    tso_segment ih l4 mss P k q \<and>
    (if h + Suc k * mss < length P
     then tso_packet ih l4 mss d_skip ps s' \<and> tso_inv ih l4 mss ps (Suc k) s' \<and> desc_ctxs s' = desc_ctxs s \<and>
       ready_segments (queue_base.more s') = ready_segments (queue_base.more s)
     else ready_segments (queue_base.more s') = [] \<and> tso_off (queue_base.more s') = 0 \<and> tso_len (queue_base.more s') = 0 \<and>
       desc_ctxs s' = desc_ctxs (mark_done (ready_segments (queue_base.more s)) s))"
proof -
  let ?m = "queue_base.more s" and ?u = "unit_of (map (d1_at s) ps) d_skip"
  define data where "data = chunk mss (drop h P) k"
  define L where "L = min (h + Suc k * mss) (length P)"
  have op: "one_packet True mss d_skip ps s" and f: "u_maclen ?u = ih" "u_iplen ?u = 20" "u_l4len ?u = l4"
    "20 \<le> l4" "0 < mss" "h + mss \<le> MTU" "h < length P"
    using p by (simp_all add: tso_packet_def Let_def defs)
  have k: "h + k * mss < length P" using i by (simp add: tso_inv_def Let_def defs)
  have l4: "l4 \<le> 60"
  proof -
    have "unat (drop_bit 14 (txd_off (last (map (d1_at s) ps))) AND 0xF) \<le> unat (0xF :: u64)"
      by (simp only: word_le_nat_alt [symmetric] word_and_le1)
    then show ?thesis using f(3) by (simp add: unit_of_def Let_def)
  qed
  have r: "tx_ready (ready_segments ?m) s" "\<forall>seg \<in> set (tx_segs s ps). seg_ok seg" "ps \<noteq> []"
    using op one_packet_facts(2) [OF op] by (simp_all add: one_packet_def Let_def)
  have t: "u_total_len ?u = length P" using one_packet_facts(3) [OF op] by (simp add: unit_of_def Let_def defs(1))
  obtain dcnt B where c: "copy_loop L (tx_segs s ps) 0 d_skip ?m = Ok (dcnt, ?m\<lparr>pktbuf := B, tso_off := L, tso_len := h + length data\<rparr>)"
    and B: "length B = MTU" "header_at ih l4 mss k P B" "take (length data) (drop h B) = data"
    and dcnt: "L = length P \<longrightarrow> dcnt = length (ready_segments ?m)"
    using tso_copy(2) [OF p i defs data_def L_def] by blast
  have lim: "data_limit True mss ?u ?m = L" by (rule tso_copy(1) [OF p i defs data_def L_def])
  have ld: "length data = min mss (length P - (h + k * mss))" unfolding data_def by (rule chunk_length [OF k])
  then have b: "h + length data \<le> MTU" using f(6) by simp
  obtain q where q: "xsum_tcpip_tso ih 20 (of_nat l4) (of_nat (length data)) B = Some q" "length q = MTU" "header_at ih l4 mss k P q"
    "tso_segment ih l4 mss P k (take (h + length data) q)"
    using segment_run [of ih l4 mss k P B data] B b f(4) l4 by (auto simp: defs(2) data_def)
  obtain q' where q': "tso_postupdate_header ih 20 (of_nat l4) (of_nat (length data)) q = Some q'" "length q' = MTU"
    using postupdate_total [of ih q "of_nat l4" "of_nat (length data)"] q(2) b f(4) by (auto simp: defs(2))
  obtain evs where e: "trigger_tx_packet drv s = software_send True mss d_skip (tx_segs s ps) ?u (s\<lparr>q_events := q_events s @ evs\<rparr>)" "sent evs = []"
  proof (cases "tso_len ?m = 0 \<and> tso_off ?m = 0")
    case True
    then show ?thesis using send_tso_refused [OF drv, of "tx_segs s ps" ?u mss s] r(2,3) trigger_tx_packet_complete [OF op, of drv] that by auto
  next
    case False
    then have "trigger_tx_packet drv s = software_send True mss d_skip (tx_segs s ps) ?u s"
      using trigger_tx_packet_complete [OF op, of drv] by auto
    then show ?thesis by (intro that [of "[]"]) simp_all
  qed
  define s1 where "s1 = EthSend (take (h + length data) q)
    (tx_more (\<lambda>_. ?m\<lparr>tso_off := L, tso_len := h + length data, pktbuf := q'\<rparr>) (s\<lparr>q_events := q_events s @ evs\<rparr>))"
  have pl: "min (sub32 (h + length data) h) mss = length data" using ld b by simp
  have "software_send True mss d_skip (tx_segs s ps) ?u (s\<lparr>q_events := q_events s @ evs\<rparr>) =
      (if L < length P then Ok (True, tx_more (\<lambda>m. m\<lparr>tso_len := h\<rparr>) s1) else unit_done dcnt s1)"
    using c lim b q(1) q'(1) pl t f(1-3)
    by (simp add: software_send_def send_segment_def s1_def Let_def defs(2) [symmetric] comp_def)
  then have run: "trigger_tx_packet drv s = (if L < length P then Ok (True, tx_more (\<lambda>m. m\<lparr>tso_len := h\<rparr>) s1) else unit_done dcnt s1)"
    using e(1) by simp
  have ev: "sent (q_events s1) = sent (q_events s) @ [take (h + length data) q]" using e(2) by (simp add: s1_def EthSend_def)
  show ?thesis
  proof (cases "h + Suc k * mss < length P")
    case True
    let ?s = "tx_more (\<lambda>m. m\<lparr>tso_len := h\<rparr>) s1"
    have L: "L = h + Suc k * mss" "length data = mss" using True ld by (simp_all add: L_def)
    have "header_at ih l4 mss (Suc k) P q'"
      using postupdate_run [OF q(3) f(4), of mss "of_nat l4"] q(2) q'(1) b f(6) L(2) by (auto simp: defs(2))
    then have "tso_inv ih l4 mss ps (Suc k) ?s" using L True by (simp add: tso_inv_def Let_def s1_def EthSend_def defs)
    moreover have "tso_packet ih l4 mss d_skip ps ?s"
      using p q'(2) by (auto simp: tso_packet_def one_packet_def Let_def s1_def EthSend_def comp_def)
    moreover have "trigger_tx_packet drv s = Ok (True, ?s)" using run L(1) True by simp
    moreover have "desc_ctxs ?s = desc_ctxs s" "ready_segments (queue_base.more ?s) = ready_segments ?m" "q_events ?s = q_events s1"
      by (simp_all add: s1_def EthSend_def)
    ultimately show ?thesis using True ev q(4) by auto
  next
    case False
    then have L: "L = length P" by (simp add: L_def)
    have rs: "ready_segments (queue_base.more s1) = ready_segments ?m" "tx_ready (ready_segments ?m) s1"
      using r(1) by (simp_all add: s1_def EthSend_def)
    have "desc_ctxs (mark_done (ready_segments ?m) s1) = desc_ctxs (mark_done (ready_segments ?m) s)"
      "q_events (mark_done (ready_segments ?m) s1) = q_events s1"
      by (simp_all add: mark_done_def s1_def EthSend_def)
    then show ?thesis
      using False run L dcnt unit_done_all [of s1] rs ev q(4) by auto
  qed
qed

text \<open>All rounds from the \<open>k\<close>-th segment on.\<close>

lemma tso_rounds:
  fixes s :: tx_queue
  assumes "tso_packet ih l4 mss d_skip ps s" "tso_inv ih l4 mss ps k s" "refuses drv"
    and "P = payload (tx_segs s ps)" "h = ih + 20 + l4" "length P - (h + k * mss) \<le> j * mss"
  shows "\<exists>qs s'. trigger_tx drv (Suc j + n) s = Ok s' \<and> sent (q_events s') = sent (q_events s) @ qs \<and>
    (\<forall>i < length qs. tso_segment ih l4 mss P (k + i) (qs ! i)) \<and> length qs = (length P - (h + k * mss) + mss - 1) div mss \<and>
    desc_ctxs s' = desc_ctxs (mark_done (ready_segments (queue_base.more s)) s) \<and>
    ready_segments (queue_base.more s') = [] \<and> tso_off (queue_base.more s') = 0 \<and> tso_len (queue_base.more s') = 0"
  using assms
proof (induction j arbitrary: s k)
  case 0
  then show ?case by (simp add: tso_inv_def Let_def)
next
  case (Suc j)
  have mss: "0 < mss" and k: "h + k * mss < length P"
    using Suc.prems(1,2,4,5) by (simp_all add: tso_packet_def tso_inv_def Let_def)
  obtain q s1 where q: "trigger_tx_packet drv s = Ok (True, s1)" "sent (q_events s1) = sent (q_events s) @ [q]" "tso_segment ih l4 mss P k q"
    and next_s: "if h + Suc k * mss < length P
     then tso_packet ih l4 mss d_skip ps s1 \<and> tso_inv ih l4 mss ps (Suc k) s1 \<and> desc_ctxs s1 = desc_ctxs s \<and>
       ready_segments (queue_base.more s1) = ready_segments (queue_base.more s)
     else ready_segments (queue_base.more s1) = [] \<and> tso_off (queue_base.more s1) = 0 \<and> tso_len (queue_base.more s1) = 0 \<and>
       desc_ctxs s1 = desc_ctxs (mark_done (ready_segments (queue_base.more s)) s)"
    using tso_round [OF Suc.prems(1-5)] by blast
  show ?case
  proof (cases "h + Suc k * mss < length P")
    case False
    then have "length P - (h + k * mss) \<le> mss" by simp
    then have "(length P - (h + k * mss) + mss - 1) div mss = 1"
      using k mss by (intro div_nat_eqI) simp_all
    moreover have "trigger_tx drv (Suc (Suc j) + n) s = Ok s1" using q(1) False next_s by (simp add: trigger_tx_idle)
    ultimately show ?thesis using q(2,3) next_s False by (intro exI [of _ "[q]"] exI [of _ s1]) simp
  next
    case True
    then have s1: "tso_packet ih l4 mss d_skip ps s1" "tso_inv ih l4 mss ps (Suc k) s1" "desc_ctxs s1 = desc_ctxs s"
        "ready_segments (queue_base.more s1) = ready_segments (queue_base.more s)" using next_s by simp_all
    have P: "P = payload (tx_segs s1 ps)" using s1(3) Suc.prems(4) by (simp add: d1_at_def data_at_def)
    have "length P - (h + Suc k * mss) \<le> j * mss" using Suc.prems(6) by simp
    from Suc.IH [OF s1(1,2) Suc.prems(3) P Suc.prems(5) this] obtain qs s' where
      r: "trigger_tx drv (Suc j + n) s1 = Ok s'" "sent (q_events s') = sent (q_events s1) @ qs"
        "\<forall>i < length qs. tso_segment ih l4 mss P (Suc k + i) (qs ! i)" "length qs = (length P - (h + Suc k * mss) + mss - 1) div mss"
        "desc_ctxs s' = desc_ctxs (mark_done (ready_segments (queue_base.more s1)) s1)"
        "ready_segments (queue_base.more s') = []" "tso_off (queue_base.more s') = 0" "tso_len (queue_base.more s') = 0"
      by blast
    have "length P - (h + k * mss) + mss - 1 = length P - (h + Suc k * mss) + mss - 1 + mss" using True mss by simp
    then have "length (q # qs) = (length P - (h + k * mss) + mss - 1) div mss"
      using r(4) mss div_add_self2 [of mss "length P - (h + Suc k * mss) + mss - 1"] by (simp only: list.size)
    moreover have "\<forall>i < length (q # qs). tso_segment ih l4 mss P (k + i) ((q # qs) ! i)"
      using q(3) r(3) by (auto simp: nth_Cons split: nat.split)
    moreover have "desc_ctxs s' = desc_ctxs (mark_done (ready_segments (queue_base.more s)) s)"
      using r(5) s1(3,4) by (simp add: mark_done_def)
    moreover have "trigger_tx drv (Suc (Suc j) + n) s = Ok s'" "sent (q_events s') = sent (q_events s) @ q # qs"
      using q(1,2) r(1,2) by simp_all
    ultimately show ?thesis using r(6-8) by blast
  qed
qed

text \<open>
  C26: segmentation in software is correct.  When the back end refuses a packet
  with segmentation offload, the transmit loop ends after sending
  \<open>\<lceil>(length P - h) / mss\<rceil>\<close> packets; each is a correct TCP segment
  (\<open>tso_segment\<close>: payload, lengths, checksums, identification, sequence number), and
  their payloads together are the payload of the packet.  Every descriptor of the
  packet is marked done and the queue is ready for the next packet.
\<close>

theorem tso_correct:
  fixes s :: tx_queue
  assumes "tso_packet ih l4 mss d_skip ps s" "tso_off (queue_base.more s) = 0" "tso_len (queue_base.more s) = 0" "refuses drv"
    and "P = payload (tx_segs s ps)" "h = ih + 20 + l4"
  shows "\<exists>qs s'. trigger_tx drv (Suc (length P) + n) s = Ok s' \<and> sent (q_events s') = sent (q_events s) @ qs \<and>
    length qs = (length P - h + mss - 1) div mss \<and> (\<forall>k < length qs. tso_segment ih l4 mss P k (qs ! k)) \<and>
    concat (map (drop h) qs) = drop h P \<and>
    desc_ctxs s' = desc_ctxs (mark_done (ready_segments (queue_base.more s)) s) \<and>
    ready_segments (queue_base.more s') = [] \<and> tso_off (queue_base.more s') = 0 \<and> tso_len (queue_base.more s') = 0"
proof -
  have mss: "0 < mss" "h < length P" using assms(1,5,6) by (simp_all add: tso_packet_def Let_def)
  then have "length P - (h + 0 * mss) \<le> length P * mss" by (cases mss) simp_all
  moreover have "tso_inv ih l4 mss ps 0 s" using assms mss by (simp add: tso_inv_def Let_def)
  ultimately obtain qs s' where r: "trigger_tx drv (Suc (length P) + n) s = Ok s'" "sent (q_events s') = sent (q_events s) @ qs"
    "\<forall>i < length qs. tso_segment ih l4 mss P i (qs ! i)" "length qs = (length P - h + mss - 1) div mss"
    "desc_ctxs s' = desc_ctxs (mark_done (ready_segments (queue_base.more s)) s)"
    "ready_segments (queue_base.more s') = []" "tso_off (queue_base.more s') = 0" "tso_len (queue_base.more s') = 0"
    using tso_rounds [OF assms(1) _ assms(4,5,6), of 0 "length P" n] by auto
  have "map (drop h) qs = map (chunk mss (drop h P)) [0..<length qs]"
    using r(3) assms(6) by (intro nth_equalityI) (simp_all add: tso_segment_def Let_def)
  then have "concat (map (drop h) qs) = take (mss * length qs) (drop h P)" by (simp only: concat_chunks)
  moreover have "length P - h \<le> mss * length qs"
    unfolding r(4) using mss(1) dividend_less_times_div [of mss "length P - h + mss - 1"] by linarith
  ultimately have "concat (map (drop h) qs) = drop h P" by simp
  then show ?thesis using r by blast
qed

text \<open>A context descriptor (segmentation, 2 bytes per segment) and one buffer of 54 bytes of headers and 3 bytes of payload.\<close>

definition demo_tso :: tx_queue where
  "demo_tso = demo_tx [(0x8000000000011, []), (0xE542870010, replicate 57 1)]"

lemma demo_tso_at: "d1_at demo_tso 0 = 0x8000000000011" "d1_at demo_tso (Suc 0) = 0xE542870010" "data_at demo_tso (Suc 0) = replicate 57 1"
  using demo_tx_at [of "[(0x8000000000011, []), (0xE542870010, replicate 57 1)]" 0]
    demo_tx_at [of "[(0x8000000000011, []), (0xE542870010, replicate 57 1)]" 1]
  by (simp_all add: demo_tso_def)

lemma demo_tso_desc:
  "txd_dtype 0xE542870010 = 0" "len16 0xE542870010 = 57" "len14 0xE542870010 = 57" "bit (txd_cmd 0xE542870010) 0"
  "unat (txd_off 0xE542870010 AND 0x7F) = 7" "unat (drop_bit 7 (txd_off 0xE542870010) AND 0x7F) = 5"
  "unat (drop_bit 14 (txd_off 0xE542870010) AND 0xF) = 5" "tx_context 0x8000000000011 = (1, True, 2)"
  by (simp_all add: txd_dtype_def len16_def len14_def txd_cmd_def txd_off_def tx_context_def)

lemma demo_tso_packet: "tso_packet 14 20 2 1 [1] demo_tso"
proof -
  have r: "tx_ready [0, Suc 0] demo_tso" and m: "ready_segments (queue_base.more demo_tso) = [0, Suc 0]" "length (pktbuf (queue_base.more demo_tso)) = MTU"
    using demo_tx_ready [of "[(0x8000000000011, []), (0xE542870010, replicate 57 1)]"] by (simp_all add: demo_tso_def)
  then show ?thesis
    by (simp add: tso_packet_def one_packet_def unit_of_def unit_ok_def seg_ok_def Let_def demo_tso_at demo_tso_desc)
qed

theorem tso_correct_witness:
  "\<exists>qs s'. trigger_tx (\<lambda>_ _ _ _ _ _ _. False) 58 demo_tso = Ok s' \<and> sent (q_events s') = qs \<and> length qs = 2 \<and>
    tso_segment 14 20 2 (replicate 57 1) 0 (qs ! 0) \<and> tso_segment 14 20 2 (replicate 57 1) 1 (qs ! 1)"
proof -
  have P: "payload (tx_segs demo_tso [1]) = replicate 57 1" by (simp add: demo_tso_at demo_tso_desc)
  have m: "tso_off (queue_base.more demo_tso) = 0" "tso_len (queue_base.more demo_tso) = 0" "q_events demo_tso = []"
    by (simp_all add: demo_tso_def)
  have "refuses (\<lambda>_ _ _ _ _ _ _. False)" by (simp add: refuses_def)
  from tso_correct [OF demo_tso_packet m(1,2) this P [symmetric], of 54 0] obtain qs s' where
    "trigger_tx (\<lambda>_ _ _ _ _ _ _. False) 58 demo_tso = Ok s'" "sent (q_events s') = sent (q_events demo_tso) @ qs"
    "length qs = 2" "\<forall>k < length qs. tso_segment 14 20 2 (replicate 57 1) k (qs ! k)"
    by auto
  then show ?thesis using m(3) by (intro exI [of _ qs] exI [of _ s']) simp
qed

section \<open>A segment size that leaves the packet buffer\<close>

text \<open>
  A segment that does not fit into the packet buffer is copied all the same.
  The length is checked only after the copy: if the headers and the segment size
  from the context descriptor exceed the buffer of 9024 bytes and the guest
  supplies that many bytes in one descriptor, the copy leaves the buffer.
\<close>

theorem tso_overflow:
  assumes "one_packet True mss d_skip [p] s" "tso_off (queue_base.more s) = 0" "tso_len (queue_base.more s) = 0" "refuses drv"
    and "u = unit_of [d1_at s p] d_skip" "MTU < u_maclen u + u_iplen u + u_l4len u + mss" "MTU < len16 (d1_at s p)"
  shows "trigger_tx_packet drv s = Fault"
proof -
  let ?m = "queue_base.more s"
  define L where "L = data_limit True mss u ?m"
  have ok: "\<forall>seg \<in> set (tx_segs s [p]). seg_ok seg" and buf: "length (pktbuf ?m) = MTU"
    using assms(1) unfolding one_packet_def Let_def by blast+
  have P: "length (payload (tx_segs s [p])) = len16 (d1_at s p)" using ok by (simp add: seg_ok_def)
  have "u_total_len u = len16 (d1_at s p)" using one_packet_facts(3) [OF assms(1)] P by (simp add: assms(5) unit_of_def Let_def)
  then have L: "MTU < L" "L \<le> len16 (d1_at s p)" using assms(2,6,7) by (simp_all add: L_def data_limit_def)
  have "len16 (d1_at s p) < 2 ^ 16" unfolding len16_def using unat_lt [of "ucast (drop_bit 34 (d1_at s p)) :: u16"] by simp
  then have a: "add32 0 (len16 (d1_at s p)) = len16 (d1_at s p)" by (simp add: add32_def)
  have "copy_part L 0 (len16 (d1_at s p)) (data_at s p) ?m = Fault"
    using L a assms(2,3) buf by (simp add: copy_part_def Let_def)
  then have c: "copy_loop L (tx_segs s [p]) 0 d_skip ?m = Fault" using L assms(2) a by simp
  obtain evs where "send_tso drv u mss (tx_segs s [p]) s = Ok (False, s\<lparr>q_events := q_events s @ evs\<rparr>)"
    using send_tso_refused [OF assms(4), of "tx_segs s [p]" u mss s] ok by auto
  then have "trigger_tx_packet drv s = software_send True mss d_skip (tx_segs s [p]) u (s\<lparr>q_events := q_events s @ evs\<rparr>)"
    using trigger_tx_packet_complete [OF assms(1), of drv] assms(2,3,5) by simp
  then show ?thesis using c by (simp add: software_send_def L_def)
qed

text \<open>A buffer of 9100 bytes and 16000 bytes per segment.\<close>

theorem tso_overflow_witness:
  "trigger_tx_packet (\<lambda>_ _ _ _ _ _ _. False) (demo_tx [(0xFA00000000000011, []), (0x8E3000000010, replicate 9100 1)]) = Fault"
proof -
  let ?s = "demo_tx [(0xFA00000000000011, []), (0x8E3000000010, replicate 9100 1)]"
  have d: "d1_at ?s 0 = 0xFA00000000000011" "d1_at ?s (Suc 0) = 0x8E3000000010" "data_at ?s (Suc 0) = replicate 9100 1"
    using demo_tx_at [of "[(0xFA00000000000011, []), (0x8E3000000010, replicate 9100 1)]" 0]
      demo_tx_at [of "[(0xFA00000000000011, []), (0x8E3000000010, replicate 9100 1)]" 1] by simp_all
  have f: "txd_dtype 0x8E3000000010 = 0" "len16 0x8E3000000010 = 9100" "len14 0x8E3000000010 = 9100" "bit (txd_cmd 0x8E3000000010) 0"
    "tx_context 0xFA00000000000011 = (1, True, 16000)"
    by (simp_all add: txd_dtype_def len16_def len14_def txd_cmd_def tx_context_def)
  have "one_packet True 16000 1 [Suc 0] ?s"
    using demo_tx_ready [of "[(0xFA00000000000011, []), (0x8E3000000010, replicate 9100 1)]"]
    by (simp add: one_packet_def Let_def d f unit_ok_def seg_ok_def)
  then show ?thesis
    using tso_overflow [of 16000 1 "Suc 0" ?s "\<lambda>_ _ _ _ _ _ _. False"] by (simp add: refuses_def d f)
qed

end
