(* ===== verification/E810_Switch.thy ===== *)
theory E810_Switch
  imports Vmux_Prelude
begin

text \<open>
  Packet switching: the rule table of the device model (\<open>e810_switch.cc\<close>), the rules
  the device forwards to the back end (\<open>add_switch_rule\<close> and \<open>add_switch_etype_rule\<close> of
  \<open>devices/e810.hpp\<close>) and the policy shared by all virtual machines
  (\<open>SwitchPolicy\<close> in \<open>policies/policies.hpp\<close>).  What the back end answers is a parameter.
\<close>

section \<open>The rule table\<close>

record ice_aqc_sw_rules_elem =
  sw_type :: u16
  sw_recipe_id :: u16
  sw_act :: u32
  sw_hdr_len :: u16
  sw_hdr :: "u8 list"

record e810_switch =
  mac_rules :: "u64 \<rightharpoonup> u16"
  ethertype_rules :: "u16 \<rightharpoonup> u16"
  sw_rules :: "u8 list list"
  rules_recipe_idx :: "nat list"
  rules_dst_queues :: "u16 list"
  recipies :: "u8 list list"

text \<open>The only recipe matches the Ethernet type.\<close>

definition recipe1 :: "u8 list" where
  "recipe1 = replicate 12 0 @ [0xFF, 0xFF] @ replicate 42 0"

definition switch_init :: e810_switch where
  "switch_init = \<lparr>mac_rules = Map.empty, ethertype_rules = Map.empty, sw_rules = [], rules_recipe_idx = [], rules_dst_queues = [],
     recipies = [recipe1]\<rparr>"

section \<open>Rules of the back end and the policy\<close>

text \<open>\<open>macToInt\<close>: the first 48 bits of the address, in memory order.\<close>

definition macToInt :: "u8 list \<Rightarrow> u64" where
  "macToInt mac = le_word (take 6 mac)"

definition policy_add_rule :: "int \<Rightarrow> u8 list \<Rightarrow> (u64 \<rightharpoonup> int) \<Rightarrow> bool \<times> (u64 \<rightharpoonup> int)" where
  "policy_add_rule vm_id dst_addr switch_rules = (let mac = macToInt dst_addr in
     case switch_rules mac of
       Some owner \<Rightarrow> (owner = vm_id, switch_rules)
     | None \<Rightarrow> (True, switch_rules(mac \<mapsto> vm_id)))"

text \<open>
  The device asks the policy, then the back end, whose answer it keeps in a variable
  of the inner block; the outer one, which it returns, stays false.  The list
  collects the calls of the back end.
\<close>

datatype backend_rule = MacRule int "u8 list" u16 | EtypeRule int u16 u16

definition add_switch_rule :: "(backend_rule \<Rightarrow> bool) \<Rightarrow> int \<Rightarrow> u8 list \<Rightarrow> u16 \<Rightarrow> (u64 \<rightharpoonup> int) \<times> backend_rule list \<Rightarrow>
    bool \<times> (u64 \<rightharpoonup> int) \<times> backend_rule list" where
  "add_switch_rule backend vm_id dst_addr dst_queue = (\<lambda>(policy, calls). let
     rule_installed = False;
     (policy_accepts, policy) = policy_add_rule vm_id dst_addr policy;
     (inner, calls) = (if policy_accepts then (backend (MacRule vm_id dst_addr dst_queue), calls @ [MacRule vm_id dst_addr dst_queue])
       else (False, calls)) in
     (rule_installed, policy, calls))"

definition add_switch_etype_rule :: "(backend_rule \<Rightarrow> bool) \<Rightarrow> int \<Rightarrow> u16 \<Rightarrow> u16 \<Rightarrow> backend_rule list \<Rightarrow> bool \<times> backend_rule list" where
  "add_switch_etype_rule backend vm_id ethertype dst_queue calls = (let
     rule_installed = False;
     inner = backend (EtypeRule vm_id ethertype dst_queue) in
     (rule_installed, calls @ [EtypeRule vm_id ethertype dst_queue]))"

section \<open>Adding a rule\<close>

definition rule_queue :: "ice_aqc_sw_rules_elem \<Rightarrow> u32" where
  "rule_queue e = drop_bit 4 (sw_act e) AND 0x7FF"

definition rule_supported :: "e810_switch \<Rightarrow> ice_aqc_sw_rules_elem \<Rightarrow> bool" where
  "rule_supported sw e \<longleftrightarrow> sw_type e = 0 \<and> sw_act e AND 3 = 1 \<and> sw_recipe_id e = 0 \<and> unat (sw_hdr_len e) = length (recipies sw ! 0)"

text \<open>The code reads as many header bytes as the recipe has; a shorter buffer is a fault.\<close>

definition add_rule :: "(backend_rule \<Rightarrow> bool) \<Rightarrow> int \<Rightarrow> nat \<Rightarrow> ice_aqc_sw_rules_elem \<Rightarrow> e810_switch \<times> backend_rule list \<Rightarrow>
    (bool \<times> e810_switch \<times> backend_rule list) res" where
  "add_rule backend device_id vsi0_first_queue e = (\<lambda>(sw, calls).
     if recipies sw = [] then Fault
     else if \<not> rule_supported sw e then Ok (False, sw, calls)
     else if length (sw_hdr e) < length (recipies sw ! 0) \<or> length (sw_hdr e) < 14 then Fault
     else let
       etype = be16 (sw_hdr e) 12;
       queue_id = rule_queue e;
       rule = map (\<lambda>i. recipies sw ! 0 ! i AND sw_hdr e ! i) [0..<length (recipies sw ! 0)];
       sw = sw\<lparr>ethertype_rules := (ethertype_rules sw)(etype \<mapsto> ucast queue_id),
               sw_rules := sw_rules sw @ [rule],
               rules_recipe_idx := rules_recipe_idx sw @ [0],
               rules_dst_queues := rules_dst_queues sw @ [ucast queue_id]\<rparr>;
       (installed_rule, calls) = add_switch_etype_rule backend device_id etype (ucast queue_id - of_nat vsi0_first_queue) calls in
       Ok (installed_rule, sw, calls))"

section \<open>Selecting the queue of a packet\<close>

text \<open>The comparison of a packet with a rule stops at the first byte that differs.\<close>

fun rule_matches :: "u8 list \<Rightarrow> u8 list \<Rightarrow> u8 list \<Rightarrow> bool res" where
  "rule_matches (msk # ms) (r # rs) (d # ds) = (if msk AND d \<noteq> r then Ok False else rule_matches ms rs ds)"
| "rule_matches [] _ _ = Ok True"
| "rule_matches (_ # _) _ _ = Fault"

fun find_rule :: "e810_switch \<Rightarrow> u8 list \<Rightarrow> (nat \<times> u8 list \<times> u16) list \<Rightarrow> u16 \<Rightarrow> u16 res" where
  "find_rule sw data [] queue = Ok queue"
| "find_rule sw data ((recipe_idx, rule, dst) # rs) queue =
     (if recipe_idx < length (recipies sw)
      then andThen (rule_matches (recipies sw ! recipe_idx) rule data) (\<lambda>ok. if ok then Ok dst else find_rule sw data rs queue)
      else Fault)"

definition select_queue :: "e810_switch \<Rightarrow> u8 list \<Rightarrow> u16 \<Rightarrow> u16 res" where
  "select_queue sw data queue =
     (if length data < 14 then Ok queue
      else case mac_rules sw (macToInt data) of
        Some q \<Rightarrow> Ok q
      | None \<Rightarrow> find_rule sw data (zip (rules_recipe_idx sw) (zip (sw_rules sw) (rules_dst_queues sw))) queue)"

section \<open>The table is a first-match list of Ethernet types\<close>

text \<open>What a supported rule means: packets of an Ethernet type go to a queue.\<close>

definition rule_meaning :: "ice_aqc_sw_rules_elem \<Rightarrow> u16 \<times> u16" where
  "rule_meaning e = (be16 (sw_hdr e) 12, ucast (rule_queue e))"

definition etype_rule :: "u16 \<Rightarrow> u8 list" where
  "etype_rule t = replicate 12 0 @ rev (le_bytes 2 t) @ replicate 42 0"

text \<open>The table that holds the rules \<open>rs\<close> in order.\<close>

definition switch_table :: "(u16 \<times> u16) list \<Rightarrow> e810_switch \<Rightarrow> bool" where
  "switch_table rs sw \<longleftrightarrow> mac_rules sw = Map.empty \<and> recipies sw = [recipe1] \<and>
     sw_rules sw = map (\<lambda>(t, q). etype_rule t) rs \<and> rules_recipe_idx sw = replicate (length rs) 0 \<and>
     rules_dst_queues sw = map snd rs"

lemma switch_init_table: "switch_table [] switch_init"
  by (simp add: switch_table_def switch_init_def)

lemma length_recipe1 [simp]: "length recipe1 = 56"
  by (simp add: recipe1_def)

lemma rev_be16:
  assumes "12 + 2 \<le> length h"
  shows "rev (le_bytes 2 (be16 h 12)) = [h ! 12, h ! 13]"
proof -
  have "take 2 (drop 12 h) = [h ! 12, h ! 13]"
    using assms by (intro nth_equalityI) (auto simp: less_Suc_eq numeral_2_eq_2 nth_Cons split: nat.split)
  moreover have "le_bytes 2 (le_word [h ! 13, h ! 12] :: u16) = [h ! 13, h ! 12]"
    by (rule le_bytes_le_word) simp_all
  ultimately show ?thesis by (simp add: be16_def)
qed

lemma and_ff [simp]: "0xFF AND x = (x :: u8)"
proof -
  have "(0xFF :: u8) = - 1" by simp
  then show ?thesis by (simp only: and.left_neutral)
qed

lemma recipe1_nth: "i < 56 \<Longrightarrow> recipe1 ! i = (if i = 12 \<or> i = 13 then 0xFF else 0)"
  by (auto simp: recipe1_def nth_append nth_Cons' nth_replicate)

text \<open>The stored rule is the header masked by the recipe: it depends on the Ethernet type only.\<close>

lemma masked_header:
  assumes "56 \<le> length h"
  shows "map (\<lambda>i. recipe1 ! i AND h ! i) [0..<56] = etype_rule (be16 h 12)"
proof (rule nth_equalityI)
  have r: "rev (le_bytes 2 (be16 h 12)) = [h ! 12, h ! 13]" using assms by (intro rev_be16) simp
  show "length (map (\<lambda>i. recipe1 ! i AND h ! i) [0..<56]) = length (etype_rule (be16 h 12))" by (simp add: etype_rule_def)
  fix i assume "i < length (map (\<lambda>i. recipe1 ! i AND h ! i) [0..<56])"
  then have i: "i < 56" by simp
  have "map (\<lambda>i. recipe1 ! i AND h ! i) [0..<56] ! i = (if i = 12 \<or> i = 13 then h ! i else 0)"
    using i by (simp add: recipe1_nth)
  also have "\<dots> = etype_rule (be16 h 12) ! i"
    using i unfolding etype_rule_def r by (cases "i = 12"; cases "i = 13") (auto simp: nth_append nth_Cons' nth_replicate)
  finally show "map (\<lambda>i. recipe1 ! i AND h ! i) [0..<56] ! i = etype_rule (be16 h 12) ! i" .
qed

lemma rule_matches_zeros:
  "rule_matches (replicate n 0 @ ms) (replicate n 0 @ rs) ds = (if n \<le> length ds then rule_matches ms rs (drop n ds) else Fault)"
proof (induction n arbitrary: ds)
  case (Suc n)
  then show ?case by (cases ds) simp_all
qed simp

lemma rule_matches_etype:
  assumes "14 \<le> length d"
  shows "rule_matches recipe1 (etype_rule t) d = (if be16 d 12 \<noteq> t then Ok False else if length d < 56 then Fault else Ok True)"
proof -
  obtain a b where ab: "rev (le_bytes 2 t) = [a, b]"
    by (metis (no_types, lifting) length_0_conv length_Suc_conv length_le_bytes length_rev numeral_2_eq_2)
  have dd: "drop 12 d = d ! 12 # d ! 13 # drop 14 d"
    using assms by (simp add: Cons_nth_drop_Suc numeral_eq_Suc)
  have "rev (le_bytes 2 (be16 d 12)) = [d ! 12, d ! 13]" using assms by (intro rev_be16) simp
  moreover have "be16 d 12 = t \<longleftrightarrow> rev (le_bytes 2 (be16 d 12)) = rev (le_bytes 2 t)"
    using le_word_le_bytes [of 2 t] le_word_le_bytes [of 2 "be16 d 12"] by auto
  ultimately have e: "be16 d 12 = t \<longleftrightarrow> d ! 12 = a \<and> d ! 13 = b" using ab by simp
  have "rule_matches recipe1 (etype_rule t) d = rule_matches ([0xFF, 0xFF] @ replicate 42 0) ([a, b] @ replicate 42 0) (drop 12 d)"
    using assms rule_matches_zeros [of 12 "[0xFF, 0xFF] @ replicate 42 0" "[a, b] @ replicate 42 0" d]
    by (simp add: recipe1_def etype_rule_def ab)
  also have "\<dots> = (if d ! 12 \<noteq> a \<or> d ! 13 \<noteq> b then Ok False else rule_matches (replicate 42 0) (replicate 42 0) (drop 14 d))"
    by (simp add: dd)
  also have "rule_matches (replicate 42 0) (replicate 42 0) (drop 14 d) = (if 56 \<le> length d then Ok True else Fault)"
    using rule_matches_zeros [of 42 "[]" "[]" "drop 14 d"] assms by auto
  finally show ?thesis using e by auto
qed

lemma find_rule_table:
  assumes "switch_table rs sw" "14 \<le> length d"
  shows "find_rule sw d (zip (replicate (length ts) 0) (zip (map (\<lambda>(t, q). etype_rule t) ts) (map snd ts))) queue =
    (case List.find (\<lambda>(t, q). t = be16 d 12) ts of None \<Rightarrow> Ok queue
     | Some (t, q) \<Rightarrow> if length d < 56 then Fault else Ok q)"
proof (induction ts)
  case (Cons r ts)
  obtain t q where r: "r = (t, q)" by (cases r)
  have "recipies sw = [recipe1]" using assms(1) by (simp add: switch_table_def)
  then show ?case using Cons rule_matches_etype [OF assms(2), of t] by (auto simp: r)
qed simp

lemma select_queue_table:
  assumes "switch_table rs sw" "14 \<le> length d"
  shows "select_queue sw d queue = (case List.find (\<lambda>(t, q). t = be16 d 12) rs of None \<Rightarrow> Ok queue
     | Some (t, q) \<Rightarrow> if length d < 56 then Fault else Ok q)"
  using find_rule_table [OF assms, of rs queue] assms by (simp add: select_queue_def switch_table_def)

text \<open>Adding rules one after the other.\<close>

definition add_rules :: "(backend_rule \<Rightarrow> bool) \<Rightarrow> int \<Rightarrow> nat \<Rightarrow> ice_aqc_sw_rules_elem list \<Rightarrow> e810_switch \<times> backend_rule list \<Rightarrow>
    (e810_switch \<times> backend_rule list) res" where
  "add_rules backend device_id vsi0 = rfold (\<lambda>e s. andThen (add_rule backend device_id vsi0 e s) (\<lambda>(ok, s). Ok s))"

definition elem_supported :: "ice_aqc_sw_rules_elem \<Rightarrow> bool" where
  "elem_supported e \<longleftrightarrow> sw_type e = 0 \<and> sw_act e AND 3 = 1 \<and> sw_recipe_id e = 0 \<and> sw_hdr_len e = 56"

definition etype_call :: "int \<Rightarrow> nat \<Rightarrow> u16 \<times> u16 \<Rightarrow> backend_rule" where
  "etype_call device_id vsi0 r = EtypeRule device_id (fst r) (snd r - of_nat vsi0)"

lemma rule_supported_table: "switch_table rs sw \<Longrightarrow> rule_supported sw e = elem_supported e"
  by (auto simp: rule_supported_def elem_supported_def switch_table_def word_unat_eq_iff)

lemma add_rule_table:
  assumes t: "switch_table rs sw" and h: "length (sw_hdr e) = unat (sw_hdr_len e)"
  shows "\<exists>sw'. add_rule backend device_id vsi0 e (sw, calls) =
      Ok (False, sw', calls @ (if elem_supported e then [etype_call device_id vsi0 (rule_meaning e)] else [])) \<and>
    switch_table (rs @ (if elem_supported e then [rule_meaning e] else [])) sw'"
proof (cases "elem_supported e")
  case False
  then have "\<not> rule_supported sw e" using rule_supported_table [OF t] by simp
  then show ?thesis using t False by (simp add: add_rule_def switch_table_def)
next
  case True
  then have l: "length (sw_hdr e) = 56" using h by (simp add: elem_supported_def)
  have r: "rule_supported sw e" "recipies sw = [recipe1]" using True t rule_supported_table [OF t] by (simp_all add: switch_table_def)
  have "map (\<lambda>i. recipe1 ! i AND sw_hdr e ! i) [0..<56] = etype_rule (be16 (sw_hdr e) 12)" using l by (intro masked_header) simp
  then show ?thesis using True t r l
    by (simp add: add_rule_def Let_def add_switch_etype_rule_def etype_call_def rule_meaning_def switch_table_def replicate_append_same)
qed

lemma add_rules_table:
  assumes "switch_table rs sw" "\<forall>e \<in> set es. length (sw_hdr e) = unat (sw_hdr_len e)"
  shows "\<exists>sw'. add_rules backend device_id vsi0 es (sw, calls) =
      Ok (sw', calls @ map (etype_call device_id vsi0) (map rule_meaning (filter elem_supported es))) \<and>
    switch_table (rs @ map rule_meaning (filter elem_supported es)) sw'"
  using assms
proof (induction es arbitrary: rs sw calls)
  case (Cons e es)
  let ?r = "if elem_supported e then [rule_meaning e] else []"
  obtain sw1 where 1: "add_rule backend device_id vsi0 e (sw, calls) =
      Ok (False, sw1, calls @ (if elem_supported e then [etype_call device_id vsi0 (rule_meaning e)] else []))" "switch_table (rs @ ?r) sw1"
    using add_rule_table [OF Cons.prems(1), of e backend device_id vsi0 calls] Cons.prems(2) by auto
  from Cons.IH [OF this(2), of "calls @ (if elem_supported e then [etype_call device_id vsi0 (rule_meaning e)] else [])"] Cons.prems(2)
  show ?case using 1(1) by (auto simp: add_rules_def)
qed (simp add: add_rules_def)

text \<open>
  C39: the switch is a first-match table of Ethernet types.  After any sequence of
  requests, a packet goes to the queue of the first supported rule with its
  Ethernet type, or else to the given queue; every supported rule has been passed
  on to the back end, relative to the first queue of the VSI.  The comparison
  leaves a packet shorter than the recipe exactly if a rule has its type.
\<close>

theorem switch_first_match:
  assumes "\<forall>e \<in> set es. length (sw_hdr e) = unat (sw_hdr_len e)"
  shows "\<exists>sw. add_rules backend device_id vsi0 es (switch_init, []) =
      Ok (sw, map (etype_call device_id vsi0) (map rule_meaning (filter elem_supported es))) \<and>
    (\<forall>p queue. select_queue sw p queue =
      (if length p < 14 then Ok queue
       else case List.find (\<lambda>(t, q). t = be16 p 12) (map rule_meaning (filter elem_supported es)) of
         None \<Rightarrow> Ok queue
       | Some (t, q) \<Rightarrow> if length p < 56 then Fault else Ok q))"
proof -
  define rs where "rs = map rule_meaning (filter elem_supported es)"
  obtain sw where sw: "add_rules backend device_id vsi0 es (switch_init, []) = Ok (sw, map (etype_call device_id vsi0) rs)" "switch_table rs sw"
    using add_rules_table [OF switch_init_table assms, of backend device_id vsi0 "[]"] unfolding rs_def by auto
  have "select_queue sw p queue = (if length p < 14 then Ok queue
       else case List.find (\<lambda>(t, q). t = be16 p 12) rs of None \<Rightarrow> Ok queue
       | Some (t, q) \<Rightarrow> if length p < 56 then Fault else Ok q)" for p queue
    using select_queue_table [OF sw(2), of p queue] by (cases "length p < 14") (simp_all add: select_queue_def)
  then show ?thesis using sw(1) unfolding rs_def by blast
qed

definition demo_rule :: "u8 \<Rightarrow> u32 \<Rightarrow> ice_aqc_sw_rules_elem" where
  "demo_rule t q = \<lparr>sw_type = 0, sw_recipe_id = 0, sw_act = 1 OR push_bit 4 q, sw_hdr_len = 56, sw_hdr = replicate 12 9 @ [0x88, t] @ replicate 42 7\<rparr>"

theorem switch_first_match_witness:
  "\<exists>sw calls. add_rules (\<lambda>_. True) 0 1 [demo_rule 0xF7 5, demo_rule 0xF7 6] (switch_init, []) = Ok (sw, calls) \<and>
    select_queue sw (replicate 12 0 @ [0x88, 0xF7] @ replicate 46 0) 1 = Ok 5 \<and>
    select_queue sw (replicate 12 0 @ [0x08, 0x00] @ replicate 46 0) 1 = Ok 1"
proof -
  have m: "rule_meaning (demo_rule 0xF7 5) = (0x88F7, 5)" "elem_supported (demo_rule 0xF7 5)" "elem_supported (demo_rule 0xF7 6)"
    by (simp_all add: rule_meaning_def rule_queue_def demo_rule_def elem_supported_def be16_def)
  have p: "be16 (replicate 12 0 @ [0x88, 0xF7] @ replicate 46 0) 12 = 0x88F7" "be16 (replicate 12 0 @ [0x08, 0x00] @ replicate 46 0) 12 = 0x800"
    and m2: "fst (rule_meaning (demo_rule 0xF7 6)) = 0x88F7"
    by (simp_all add: be16_def rule_meaning_def demo_rule_def)
  have "\<forall>e \<in> set [demo_rule 0xF7 5, demo_rule 0xF7 6]. length (sw_hdr e) = unat (sw_hdr_len e)" by (simp add: demo_rule_def)
  from switch_first_match [OF this, of "\<lambda>_. True" 0 1] obtain sw calls where
    r: "add_rules (\<lambda>_. True) 0 1 [demo_rule 0xF7 5, demo_rule 0xF7 6] (switch_init, []) = Ok (sw, calls)"
    "\<And>p queue. select_queue sw p queue = (if length p < 14 then Ok queue
       else case List.find (\<lambda>(t, q). t = be16 p 12) (map rule_meaning (filter elem_supported [demo_rule 0xF7 5, demo_rule 0xF7 6])) of
         None \<Rightarrow> Ok queue | Some (t, q) \<Rightarrow> if length p < 56 then Fault else Ok q)" by blast
  have "select_queue sw (replicate 12 0 @ [0x88, 0xF7] @ replicate 46 0) 1 = Ok 5"
    unfolding r(2) p using m by simp
  moreover have "select_queue sw (replicate 12 0 @ [0x08, 0x00] @ replicate 46 0) 1 = Ok 1"
    unfolding r(2) p using m m2 by (simp add: split_beta)
  ultimately show ?thesis using r(1) by blast
qed

section \<open>The policy keeps addresses apart\<close>

text \<open>Requests of virtual machines for rules on MAC addresses, in order.\<close>

type_synonym mac_request = "int \<times> u8 list \<times> u16"

fun add_switch_rules :: "(backend_rule \<Rightarrow> bool) \<Rightarrow> mac_request list \<Rightarrow> (u64 \<rightharpoonup> int) \<times> backend_rule list \<Rightarrow> bool list \<times> (u64 \<rightharpoonup> int) \<times> backend_rule list" where
  "add_switch_rules backend [] s = ([], s)"
| "add_switch_rules backend ((vm, a, q) # rs) s = (case add_switch_rule backend vm a q s of (ok, s) \<Rightarrow>
     (case add_switch_rules backend rs s of (oks, s) \<Rightarrow> (ok # oks, s)))"

text \<open>The virtual machine that asked for an address first.\<close>

definition first_owner :: "mac_request list \<Rightarrow> u64 \<rightharpoonup> int" where
  "first_owner rs mac = map_option fst (List.find (\<lambda>r. macToInt (fst (snd r)) = mac) rs)"

definition granted :: "(u64 \<rightharpoonup> int) \<Rightarrow> mac_request \<Rightarrow> bool" where
  "granted owners r \<longleftrightarrow> owners (macToInt (fst (snd r))) = Some (fst r)"

abbreviation mac_call :: "mac_request \<Rightarrow> backend_rule" where
  "mac_call r \<equiv> MacRule (fst r) (fst (snd r)) (snd (snd r))"

lemma add_switch_rules_run:
  "add_switch_rules backend rs (policy, calls) =
    (replicate (length rs) False, first_owner rs ++ policy, calls @ map mac_call (filter (granted (first_owner rs ++ policy)) rs))"
proof (induction rs arbitrary: policy calls)
  case Nil
  then show ?case by (simp add: first_owner_def map_add_def)
next
  case (Cons r rs)
  obtain vm a q where r: "r = (vm, a, q)" by (cases r) auto
  let ?mac = "macToInt a"
  define policy' where "policy' = (case policy ?mac of None \<Rightarrow> policy(?mac \<mapsto> vm) | Some _ \<Rightarrow> policy)"
  have o: "first_owner rs ++ policy' = first_owner (r # rs) ++ policy"
    by (auto simp: fun_eq_iff policy'_def map_add_def first_owner_def r split: option.splits)
  have g: "policy' ?mac = Some vm \<longleftrightarrow> granted (first_owner (r # rs) ++ policy) r"
    unfolding o [symmetric] by (auto simp: granted_def r policy'_def map_add_def split: option.splits)
  have "add_switch_rule backend vm a q (policy, calls) =
      (False, policy', calls @ (if policy' ?mac = Some vm then [MacRule vm a q] else []))"
    by (auto simp: add_switch_rule_def policy_add_rule_def policy'_def Let_def split: option.splits)
  then show ?case using Cons [of policy'] g by (simp add: r o)
qed

text \<open>
  C40: virtual machines cannot take over each other's addresses.  Whatever rules they
  ask for and in whatever order, the back end receives a rule for a MAC address
  only from the virtual machine that asked for the address first, and it receives
  all of those; addresses that agree in their six bytes are the same.  Every
  request is nevertheless answered with failure.
\<close>

theorem mac_isolation:
  "add_switch_rules backend rs (Map.empty, []) =
    (replicate (length rs) False, first_owner rs, map mac_call (filter (granted (first_owner rs)) rs))"
  using add_switch_rules_run [of backend rs Map.empty "[]"] by simp

end
