(* ===== verification/Vmux_Irq.thy ===== *)
theory Vmux_Irq
  imports Vmux_Prelude
begin

text \<open>
  Interrupt moderation (\<open>InterruptThrottlerSimbricks\<close> in \<open>interrupts/simbricks.hpp\<close>, the
  time helpers of \<open>util.hpp\<close>, the callbacks of \<open>devices/e810.hpp\<close>): an interrupt is
  deferred to a deadline, which the receive loop polls.  The clock is an argument
  of the operations; what \<open>vfu_irq_trigger\<close> answers is a parameter of polling.
\<close>

section \<open>Time\<close>

record timespec =
  tv_sec :: int
  tv_nsec :: int

definition ts_before :: "timespec \<Rightarrow> timespec \<Rightarrow> bool" where
  "ts_before a b = (if tv_sec a > tv_sec b then False else tv_sec a < tv_sec b \<or> tv_nsec a < tv_nsec b)"

text \<open>A difference of nanoseconds only; a negative one becomes the largest \<open>long\<close>.\<close>

definition ts_diff :: "timespec \<Rightarrow> timespec \<Rightarrow> int" where
  "ts_diff time1 time0 = (let d = tv_nsec time1 - tv_nsec time0 in if d < 0 then 2 ^ 63 - 1 else d)"

section \<open>The throttler\<close>

text \<open>\<open>irqs\<close> counts the calls of \<open>vfu_irq_trigger\<close>.\<close>

record throttler =
  guest_unmasked_irq :: bool
  irq_time :: timespec
  armed :: bool
  poll_timer :: timespec
  spacing :: nat
  irqs :: nat

datatype trigger_result = Triggered | NoEventfd | TriggerFailed

definition ts_zero :: timespec where
  "ts_zero = \<lparr>tv_sec = 0, tv_nsec = 0\<rparr>"

definition throttler_init :: throttler where
  "throttler_init = \<lparr>guest_unmasked_irq = True, irq_time = ts_zero, armed = False, poll_timer = ts_zero, spacing = 0, irqs = 0\<rparr>"

definition defer_interrupt_abs_polling :: "timespec \<Rightarrow> throttler \<Rightarrow> throttler" where
  "defer_interrupt_abs_polling ts th = th\<lparr>poll_timer := ts\<rparr>"

text \<open>\<open>try_interrupt\<close> up to its first unconditional return; the code behind it is unreachable.\<close>

definition try_interrupt :: "nat \<Rightarrow> timespec \<Rightarrow> throttler \<Rightarrow> nat \<times> throttler" where
  "try_interrupt mindelay curtime th =
     (if \<not> guest_unmasked_irq th then (0, th)
      else let
        th = th\<lparr>spacing := mindelay\<rparr>;
        newtime = curtime\<lparr>tv_nsec := tv_nsec curtime + int mindelay\<rparr> in
        if armed th \<and> ts_before (irq_time th) newtime then (1339, th)
        else (0, defer_interrupt_abs_polling newtime (th\<lparr>armed := True, irq_time := newtime\<rparr>)))"

definition send_interrupt :: "trigger_result \<Rightarrow> throttler \<Rightarrow> throttler res" where
  "send_interrupt ret th = (let th = th\<lparr>irqs := irqs th + 1\<rparr> in
     case ret of
       Triggered \<Rightarrow> Ok th
     | NoEventfd \<Rightarrow> Ok (th\<lparr>guest_unmasked_irq := False\<rparr>)
     | TriggerFailed \<Rightarrow> Abort)"

definition poll_timer_cb :: "trigger_result \<Rightarrow> throttler \<Rightarrow> throttler res" where
  "poll_timer_cb ret th = andThen (send_interrupt ret th) (\<lambda>th. Ok (th\<lparr>poll_timer := ts_zero, armed := False\<rparr>))"

definition processPollTimer :: "trigger_result \<Rightarrow> timespec \<Rightarrow> throttler \<Rightarrow> throttler res" where
  "processPollTimer ret now th =
     (if tv_sec (poll_timer th) = 0 \<and> tv_nsec (poll_timer th) = 0 then Ok th
      else if ts_before (poll_timer th) now then poll_timer_cb ret th
      else Ok th)"

text \<open>
  The callbacks of the device, which has one throttler per vector: polling all of
  them, and a change of the mask of the vectors from \<open>start\<close> on.
\<close>

definition processAllPollTimers :: "(nat \<Rightarrow> trigger_result) \<Rightarrow> (nat \<Rightarrow> timespec) \<Rightarrow> throttler list \<Rightarrow> throttler list res" where
  "processAllPollTimers ret now ths = rfold (\<lambda>i ths.
     if i < length ths then andThen (processPollTimer (ret i) (now i) (ths ! i)) (\<lambda>th. Ok (ths[i := th])) else Fault) [0..<16] ths"

definition set_mask :: "bool \<Rightarrow> throttler \<Rightarrow> throttler" where
  "set_mask is_masked th = th\<lparr>guest_unmasked_irq := \<not> is_masked\<rparr>"

definition irq_state_cb :: "u32 \<Rightarrow> u32 \<Rightarrow> bool \<Rightarrow> throttler list \<Rightarrow> throttler list res" where
  "irq_state_cb start count is_masked ths = rfold (\<lambda>i ths.
     if i < length ths then Ok (ths[i := set_mask is_masked (ths ! i)]) else Fault) [unat start..<unat (start + count)] ths"

section \<open>Runs\<close>

datatype irq_op = Request nat timespec | Poll trigger_result timespec | Mask bool

fun irq_step :: "irq_op \<Rightarrow> throttler \<Rightarrow> throttler res" where
  "irq_step (Request mindelay curtime) th = Ok (snd (try_interrupt mindelay curtime th))"
| "irq_step (Poll ret now) th = processPollTimer ret now th"
| "irq_step (Mask b) th = Ok (set_mask b th)"

definition nanos :: "timespec \<Rightarrow> int" where
  "nanos t = tv_sec t * 1000000000 + tv_nsec t"

text \<open>A time the clock can show after boot.\<close>

definition clock_ok :: "timespec \<Rightarrow> bool" where
  "clock_ok t \<longleftrightarrow> 0 < tv_sec t \<and> 0 \<le> tv_nsec t \<and> tv_nsec t < 1000000000"

fun irq_op_ok :: "irq_op \<Rightarrow> bool" where
  "irq_op_ok (Request mindelay curtime) = clock_ok curtime"
| "irq_op_ok (Poll ret now) = (clock_ok now \<and> ret \<noteq> TriggerFailed)"
| "irq_op_ok (Mask b) = True"

text \<open>An armed throttler has its deadline in both fields; its timer is off exactly when it is not armed.\<close>

definition throttler_ok :: "throttler \<Rightarrow> bool" where
  "throttler_ok th \<longleftrightarrow> (if armed th then poll_timer th = irq_time th \<and> 0 < tv_sec (irq_time th) \<and> 0 \<le> tv_nsec (irq_time th)
     else poll_timer th = ts_zero)"

lemma throttler_init_ok: "throttler_ok throttler_init"
  by (simp add: throttler_ok_def throttler_init_def)

lemma poll_timer_cb_ok:
  assumes "ret \<noteq> TriggerFailed"
  shows "\<exists>th'. poll_timer_cb ret th = Ok th' \<and> throttler_ok th' \<and> irqs th' = irqs th + 1"
  using assms by (cases ret) (simp_all add: poll_timer_cb_def send_interrupt_def throttler_ok_def)

lemma try_interrupt_ok:
  assumes "throttler_ok th" "clock_ok curtime"
  shows "throttler_ok (snd (try_interrupt mindelay curtime th))" "irqs (snd (try_interrupt mindelay curtime th)) = irqs th"
  using assms by (simp_all add: try_interrupt_def defer_interrupt_abs_polling_def Let_def throttler_ok_def clock_ok_def)

lemma irq_step_ok:
  assumes "throttler_ok th" "irq_op_ok op"
  shows "\<exists>th'. irq_step op th = Ok th' \<and> throttler_ok th' \<and> irqs th \<le> irqs th'"
proof (cases op)
  case (Request d c)
  then show ?thesis using try_interrupt_ok [OF assms(1), of c d] assms(2) by simp
next
  case (Poll r c)
  then show ?thesis using poll_timer_cb_ok [of r th] assms by (auto simp: processPollTimer_def)
next
  case (Mask b)
  then show ?thesis using assms(1) by (simp add: set_mask_def throttler_ok_def)
qed

section \<open>No request is lost\<close>

text \<open>
  A deadline passes no later than real time does, although requests leave
  nanoseconds above one second in it and deadlines are compared by their fields.
\<close>

lemma ts_before_nanos:
  assumes "nanos a < nanos b" "0 \<le> tv_nsec a" "clock_ok b"
  shows "ts_before a b"
proof -
  have "tv_sec a \<le> tv_sec b"
  proof (rule ccontr)
    assume "\<not> tv_sec a \<le> tv_sec b"
    then have "(tv_sec b + 1) * 1000000000 \<le> tv_sec a * 1000000000" by (intro mult_right_mono) auto
    then show False using assms by (simp add: nanos_def clock_ok_def algebra_simps)
  qed
  then show ?thesis using assms by (auto simp: ts_before_def nanos_def)
qed

text \<open>A pending interrupt whose deadline is not after \<open>t\<close>, or one that has been sent since there were \<open>n\<close>.\<close>

definition served :: "nat \<Rightarrow> timespec \<Rightarrow> throttler \<Rightarrow> bool" where
  "served n t th \<longleftrightarrow> throttler_ok th \<and> (n < irqs th \<or> n \<le> irqs th \<and> armed th \<and> \<not> ts_before t (irq_time th))"

lemma ts_before_trans: "ts_before a b \<Longrightarrow> ts_before b c \<Longrightarrow> ts_before a c"
  by (auto simp: ts_before_def split: if_splits)

lemma ts_before_linear: "\<not> ts_before a b \<Longrightarrow> \<not> ts_before b c \<Longrightarrow> \<not> ts_before a c"
  by (auto simp: ts_before_def split: if_splits)

lemma served_step:
  assumes "served n t th" "irq_op_ok op"
  shows "\<exists>th'. irq_step op th = Ok th' \<and> served n t th'"
proof -
  obtain th' where th': "irq_step op th = Ok th'" "throttler_ok th'" "irqs th \<le> irqs th'"
    using irq_step_ok [of th op] assms by (auto simp: served_def)
  have "served n t th'"
  proof (cases "n < irqs th'")
    case False
    then have a: "armed th" "\<not> ts_before t (irq_time th)" "n \<le> irqs th" "throttler_ok th" "n = irqs th'"
      using assms(1) th'(3) by (auto simp: served_def)
    have "armed th' \<and> \<not> ts_before t (irq_time th')"
    proof (cases op)
      case (Request d c)
      then show ?thesis using th'(1) a ts_before_linear [of t "irq_time th"]
        by (auto simp: try_interrupt_def defer_interrupt_abs_polling_def Let_def split: if_splits)
    next
      case (Poll r c)
      then show ?thesis using th'(1) a th'(3)
        by (auto simp: processPollTimer_def poll_timer_cb_def send_interrupt_def Let_def split: if_splits trigger_result.splits)
    next
      case (Mask b)
      then show ?thesis using th'(1) a by (auto simp: set_mask_def)
    qed
    then show ?thesis using th'(2) a(5) by (simp add: served_def)
  qed (use th'(2) in \<open>simp add: served_def\<close>)
  then show ?thesis using th'(1) by blast
qed

lemma served_run:
  assumes "served n t th" "list_all irq_op_ok ops"
  shows "\<exists>th'. rfold irq_step ops th = Ok th' \<and> served n t th'"
  using assms
proof (induction ops arbitrary: th)
  case (Cons op ops)
  obtain th1 where "irq_step op th = Ok th1" "served n t th1" using served_step [of n t th op] Cons.prems by auto
  then show ?case using Cons.IH [of th1] Cons.prems(2) by simp
qed simp



text \<open>
  A deadline in the next second is kept as nanoseconds above one second, so the
  comparison lets it pass at the start of that second: here after 100 ns instead
  of 8 ms.
\<close>

lemma irq_early:
  "rfold irq_step [Request 8000000 \<lparr>tv_sec = 7, tv_nsec = 999999900\<rparr>, Poll Triggered \<lparr>tv_sec = 8, tv_nsec = 0\<rparr>] throttler_init =
    Ok (throttler_init\<lparr>irqs := 1, irq_time := \<lparr>tv_sec = 7, tv_nsec = 1007999900\<rparr>, spacing := 8000000\<rparr>)"
  by (simp add: try_interrupt_def throttler_init_def ts_before_def ts_zero_def defer_interrupt_abs_polling_def Let_def
      processPollTimer_def poll_timer_cb_def send_interrupt_def)

section \<open>The vectors of a device\<close>

lemma rfold_each:
  assumes "\<And>i x. i < length xs \<Longrightarrow> f i (xs ! i) = Ok (g i (xs ! i))" "k \<le> length xs"
  shows "rfold (\<lambda>i xs. if i < length xs then andThen (f i (xs ! i)) (\<lambda>x. Ok (xs[i := x])) else Fault) [0..<k] xs =
    Ok (map (\<lambda>i. if i < k then g i (xs ! i) else xs ! i) [0..<length xs])"
  using assms(2)
proof (induction k)
  case 0
  then show ?case by (simp add: map_nth)
next
  case (Suc k)
  let ?ys = "map (\<lambda>i. if i < k then g i (xs ! i) else xs ! i) [0..<length xs]"
  have "?ys[k := g k (xs ! k)] = map (\<lambda>i. if i < Suc k then g i (xs ! i) else xs ! i) [0..<length xs]"
    using Suc.prems by (intro nth_equalityI) (auto simp: nth_list_update less_Suc_eq)
  then show ?case using Suc assms(1) [of k] by (simp add: rfold_append)
qed

text \<open>Polling the device polls every vector, and only its own throttler changes.\<close>

lemma processAllPollTimers_each:
  assumes "length ths = 16" "\<And>i. i < 16 \<Longrightarrow> processPollTimer (ret i) (now i) (ths ! i) = Ok (ths' ! i)" "length ths' = 16"
  shows "processAllPollTimers ret now ths = Ok ths'"
proof -
  have "processAllPollTimers ret now ths = Ok (map (\<lambda>i. if i < 16 then ths' ! i else ths ! i) [0..<length ths])"
    unfolding processAllPollTimers_def
    using assms by (intro rfold_each [where g = "\<lambda>i _. ths' ! i"]) auto
  also have "map (\<lambda>i. if i < 16 then ths' ! i else ths ! i) [0..<length ths] = ths'"
    using assms by (intro nth_equalityI) auto
  finally show ?thesis .
qed

end
