(* ===== verification/E810_Ptp.thy ===== *)
theory E810_Ptp
  imports Vmux_Irq
begin

text \<open>
  The PTP hardware clock of the E810 model (\<open>PTPManager\<close> in \<open>e810_ptp.cc\<close>).  The time
  comes from the physical card when the device mediates one, else from the
  monotonic clock of the host; both are arguments of a read.  The theory shows
  that a mediated clock implements a clock that can be set and adjusted, and what
  goes wrong with the emulated one.
\<close>

section \<open>Time stamps\<close>

text \<open>
  \<open>e810_timestamp_t\<close> overlays a 128-bit value with four unused bytes, the time in
  nanoseconds (eight bytes) and \<open>time_0\<close> (four bytes).
\<close>

type_synonym u128 = "128 word"

definition ts_time :: "u128 \<Rightarrow> u64" where
  "ts_time v = ucast (drop_bit 32 v)"

definition ts_time_0 :: "u128 \<Rightarrow> u32" where
  "ts_time_0 v = ucast (drop_bit 96 v)"

definition mk_timestamp :: "u64 \<Rightarrow> u32 \<Rightarrow> u128" where
  "mk_timestamp t t0 = push_bit 32 (ucast t) OR push_bit 96 (ucast t0)"

definition set_ts_time :: "u64 \<Rightarrow> u128 \<Rightarrow> u128" where
  "set_ts_time t v = (v AND NOT (push_bit 32 (mask 64))) OR push_bit 32 (ucast t)"

abbreviation (input) E810_TIMESTAMP_MASK :: u128 where "E810_TIMESTAMP_MASK \<equiv> mask 96"

definition TIMESPEC_TO_NANOS :: "timespec \<Rightarrow> u64" where
  "TIMESPEC_TO_NANOS ts = of_int (tv_sec ts) * 1000000000 + of_int (tv_nsec ts)"

section \<open>The clock\<close>

record PTPManager =
  last_updated :: u64
  last_val :: u128
  ptp_offset :: u128
  inc_val :: u64

definition ptp_init :: PTPManager where
  "ptp_init = \<lparr>last_updated = 0, last_val = 0, ptp_offset = 0, inc_val = 0x100000000\<rparr>"

text \<open>
  Where a read takes the time from: the physical card, or \<open>clock_gettime\<close>, which can
  fail.  The elapsed time passes through a \<open>double\<close>, which has 53 significant bits
  and rounds to even.
\<close>

datatype clock_source = Card timespec | Host "timespec option"

fun excess_bits :: "nat \<Rightarrow> nat" where
  "excess_bits n = (if n < 2 ^ 53 then 0 else Suc (excess_bits (n div 2)))"

declare excess_bits.simps [simp del]

definition to_double :: "nat \<Rightarrow> nat" where
  "to_double n = (let e = 2 ^ excess_bits n; q = n div e; r = n mod e in
     (if 2 * r < e \<or> 2 * r = e \<and> even q then q else q + 1) * e)"

definition phc_read :: "clock_source \<Rightarrow> PTPManager \<Rightarrow> u128 \<times> PTPManager" where
  "phc_read src m = (case src of
       Host None \<Rightarrow> (0, m)
     | _ \<Rightarrow> let
         m = (case src of
             Card ts \<Rightarrow> m\<lparr>last_val := mk_timestamp (TIMESPEC_TO_NANOS ts) 0\<rparr>
           | Host (Some ts) \<Rightarrow> let
               cycle_now = TIMESPEC_TO_NANOS ts;
               cycles_passed = cycle_now - last_updated m;
               m = m\<lparr>last_updated := cycle_now\<rparr> in
               m\<lparr>last_val := set_ts_time (ts_time (last_val m) + of_nat (to_double (unat cycles_passed))) (last_val m)\<rparr>);
         m = (if ptp_offset m \<noteq> 0 then m\<lparr>last_val := last_val m + (ptp_offset m AND E810_TIMESTAMP_MASK)\<rparr> else m) in
         (last_val m, m))"

text \<open>A sample of a mediated port comes from the driver, as nanoseconds; else the clock is read.\<close>

definition phc_sample :: "u64 + timespec option \<Rightarrow> PTPManager \<Rightarrow> u128 \<times> PTPManager" where
  "phc_sample src m = (case src of Inl timestamp \<Rightarrow> (mk_timestamp timestamp 0, m) | Inr ts \<Rightarrow> phc_read (Host ts) m)"

definition phc_write :: "u128 \<Rightarrow> PTPManager \<Rightarrow> PTPManager" where
  "phc_write val m = m\<lparr>ptp_offset := ptp_offset m + (val - last_val m)\<rparr>"

definition ptp_adjust :: "u64 \<Rightarrow> PTPManager \<Rightarrow> PTPManager" where
  "ptp_adjust val m = m\<lparr>ptp_offset := ptp_offset m + scast val\<rparr>"

definition set_incval :: "u64 \<Rightarrow> PTPManager \<Rightarrow> PTPManager" where
  "set_incval inc m = m\<lparr>inc_val := inc\<rparr>"

section \<open>The specification: a clock that can be set and adjusted\<close>

text \<open>
  Operations of a driver on a mediated clock: reading it, adjusting it by a signed
  number of nanoseconds, which arrives in the upper half of the argument of
  \<open>adjust\<close>, and setting it to a time.
\<close>

datatype ptp_op = PtpRead timespec | PtpAdjust u32 | PtpSet u64 | PtpIncval u64

text \<open>The abstract clock: the difference to the card's time, and the time last read.\<close>

fun clock_step :: "ptp_op \<Rightarrow> u64 \<times> u64 \<Rightarrow> u64 list \<times> u64 \<times> u64" where
  "clock_step (PtpRead ts) (skew, seen) = (let t = TIMESPEC_TO_NANOS ts + skew in ([t], skew, t))"
| "clock_step (PtpAdjust n) (skew, seen) = ([], skew + scast n, seen)"
| "clock_step (PtpSet t) (skew, seen) = ([], skew + (t - seen), seen)"
| "clock_step (PtpIncval i) (skew, seen) = ([], skew, seen)"

fun ptp_step :: "ptp_op \<Rightarrow> PTPManager \<Rightarrow> u64 list \<times> PTPManager" where
  "ptp_step (PtpRead ts) m = (case phc_read (Card ts) m of (v, m) \<Rightarrow> ([ts_time v], m))"
| "ptp_step (PtpAdjust n) m = ([], ptp_adjust (push_bit 32 (ucast n)) m)"
| "ptp_step (PtpSet t) m = ([], phc_write (mk_timestamp t 0) m)"
| "ptp_step (PtpIncval i) m = ([], set_incval i m)"

primrec outputs :: "('op \<Rightarrow> 's \<Rightarrow> 'o list \<times> 's) \<Rightarrow> 'op list \<Rightarrow> 's \<Rightarrow> 'o list" where
  "outputs step [] s = []"
| "outputs step (op # ops) s = (case step op s of (out, s) \<Rightarrow> out @ outputs step ops s)"

text \<open>Two machines whose steps correspond produce the same outputs.\<close>

locale step_simulation =
  fixes cstep :: "'op \<Rightarrow> 'c \<Rightarrow> 'o list \<times> 'c" and astep :: "'op \<Rightarrow> 'a \<Rightarrow> 'o list \<times> 'a" and R :: "'c \<Rightarrow> 'a \<Rightarrow> bool"
  assumes step_out: "R c a \<Longrightarrow> fst (cstep op c) = fst (astep op a)"
    and step_rel: "R c a \<Longrightarrow> R (snd (cstep op c)) (snd (astep op a))"
begin

lemma outputs_eq: "R c a \<Longrightarrow> outputs cstep ops c = outputs astep ops a"
proof (induction ops arbitrary: c a)
  case (Cons op ops)
  then show ?case using step_out [OF Cons.prems, of op] step_rel [OF Cons.prems, of op] by (simp add: split_beta)
qed simp

end

section \<open>The mediated clock implements it\<close>

text \<open>The part of a value that holds the time, as an integer, and how the operations act on it.\<close>

definition low96 :: "u128 \<Rightarrow> int" where
  "low96 v = take_bit 96 (uint v)"

lemma low96_of_int [simp]: "low96 (of_int k) = take_bit 96 k"
  by (simp add: low96_def unsigned_of_int)

lemma low96_add: "low96 (a + b) = take_bit 96 (low96 a + low96 b)"
  using low96_of_int [of "uint a + uint b"] by (simp add: low96_def take_bit_add)

lemma low96_diff: "low96 (a - b) = take_bit 96 (low96 a - low96 b)"
  using low96_of_int [of "uint a - uint b"] by (simp add: low96_def take_bit_diff)

lemma low96_mask: "low96 (a AND mask 96) = low96 a"
proof -
  have "low96 (take_bit 96 a) = low96 a" by (simp add: low96_def unsigned_take_bit_eq)
  then show ?thesis by (simp only: take_bit_eq_mask)
qed

lemma uint_ts_time: "uint (ts_time v) = drop_bit 32 (low96 v)"
  by (simp add: ts_time_def low96_def unsigned_ucast_eq unsigned_drop_bit_eq take_bit_drop_bit)

lemma low96_mk_timestamp: "low96 (mk_timestamp t 0) = push_bit 32 (uint t)"
proof -
  have "mk_timestamp t 0 = of_int (push_bit 32 (uint t))"
    by (rule bit_word_eqI) (auto simp: mk_timestamp_def bit_simps)
  then have "low96 (mk_timestamp t 0) = take_bit 96 (push_bit 32 (uint t))" by simp
  also have "\<dots> = push_bit 32 (take_bit 64 (uint t))" by (simp add: take_bit_push_bit)
  also have "take_bit 64 (uint t) = uint t" using take_bit_int_eq_self [of "uint t" 64] uint_lt2p [of t] by simp
  finally show ?thesis .
qed

lemma low96_adjust: "low96 (scast (push_bit 32 (ucast n :: u64) :: u64)) = push_bit 32 (uint (scast (n :: u32) :: u64))"
proof -
  have "(scast (push_bit 32 (ucast n :: u64)) :: u128) = of_int (push_bit 32 (sint n))"
    by (rule bit_word_eqI) (auto simp: bit_simps min_def split: if_splits)
  then have "low96 (scast (push_bit 32 (ucast n :: u64))) = take_bit 96 (push_bit 32 (sint n))" by simp
  also have "\<dots> = push_bit 32 (take_bit 64 (sint n))" by (simp add: take_bit_push_bit)
  also have "take_bit 64 (sint n) = uint (scast n :: u64)" unfolding scast_eq uint_word_of_int_eq by simp
  finally show ?thesis .
qed

text \<open>The offset is the skew and the last value the time last seen, as far as the time is concerned.\<close>

definition ptp_rel :: "PTPManager \<Rightarrow> u64 \<times> u64 \<Rightarrow> bool" where
  "ptp_rel m a \<longleftrightarrow> low96 (ptp_offset m) = push_bit 32 (uint (fst a)) \<and> low96 (last_val m) = push_bit 32 (uint (snd a))"

lemma push_uint_add: "take_bit 96 (push_bit 32 (uint a) + push_bit 32 (uint b)) = push_bit 32 (uint (a + b :: u64))"
proof -
  have "push_bit 32 (uint a) + push_bit 32 (uint b) = push_bit 32 (uint a + uint b)" by (simp add: push_bit_add)
  moreover have "uint (a + b) = take_bit 64 (uint a + uint b)" by (simp add: uint_word_ariths take_bit_eq_mod)
  ultimately show ?thesis by (simp add: take_bit_push_bit del: push_bit_numeral)
qed

lemma push_uint_diff: "take_bit 96 (push_bit 32 (uint a) - push_bit 32 (uint b)) = push_bit 32 (uint (a - b :: u64))"
proof -
  have "push_bit 32 (uint a) - push_bit 32 (uint b) = push_bit 32 (uint a - uint b)" by (simp add: push_bit_eq_mult algebra_simps)
  moreover have "uint (a - b) = take_bit 64 (uint a - uint b)" by (simp add: uint_word_ariths take_bit_eq_mod)
  ultimately show ?thesis by (simp add: take_bit_push_bit)
qed

lemma ts_time_low96: "low96 v = push_bit 32 (uint t) \<Longrightarrow> ts_time v = t"
  using uint_ts_time [of v] by (simp add: word_uint_eq_iff push_bit_eq_mult drop_bit_eq_div)

lemma ptp_rel_read:
  assumes "ptp_rel m (skew, seen)"
  shows "ts_time (fst (phc_read (Card ts) m)) = TIMESPEC_TO_NANOS ts + skew"
    and "ptp_rel (snd (phc_read (Card ts) m)) (skew, TIMESPEC_TO_NANOS ts + skew)"
proof -
  let ?t = "TIMESPEC_TO_NANOS ts"
  have "low96 (fst (phc_read (Card ts) m)) = push_bit 32 (uint (?t + skew))"
  proof (cases "ptp_offset m = 0")
    case True
    then have "uint skew = 0" using assms low96_of_int [of 0] by (simp add: ptp_rel_def push_bit_eq_mult)
    then have "skew = 0" by (simp add: word_uint_eq_iff)
    then show ?thesis using True by (simp add: phc_read_def Let_def low96_mk_timestamp)
  next
    case False
    then show ?thesis using assms
      by (simp add: phc_read_def Let_def low96_add low96_mask low96_mk_timestamp ptp_rel_def push_uint_add)
  qed
  moreover have "last_val (snd (phc_read (Card ts) m)) = fst (phc_read (Card ts) m)"
    "ptp_offset (snd (phc_read (Card ts) m)) = ptp_offset m" by (simp_all add: phc_read_def Let_def)
  ultimately show "ts_time (fst (phc_read (Card ts) m)) = ?t + skew" "ptp_rel (snd (phc_read (Card ts) m)) (skew, ?t + skew)"
    using assms by (simp_all add: ptp_rel_def ts_time_low96)
qed

interpretation ptp_sim: step_simulation ptp_step clock_step ptp_rel
proof
  fix m :: PTPManager and a :: "u64 \<times> u64" and op
  assume r: "ptp_rel m a"
  obtain skew seen where a: "a = (skew, seen)" by (cases a)
  show "fst (ptp_step op m) = fst (clock_step op a)" "ptp_rel (snd (ptp_step op m)) (snd (clock_step op a))"
    using r ptp_rel_read [of m skew seen] unfolding a
    by (cases op; simp add: split_beta Let_def;
        simp add: ptp_rel_def ptp_adjust_def phc_write_def set_incval_def low96_add low96_diff low96_adjust low96_mk_timestamp
          push_uint_add push_uint_diff)+
qed


text \<open>
  The emulated clock applies its offset at every read to the value that already
  has it: two reads at the same time differ by the offset.
\<close>

lemma emulated_drift:
  assumes "ptp_offset m \<noteq> 0"
  shows "fst (phc_read (Host (Some ts)) (snd (phc_read (Host (Some ts)) m))) =
    fst (phc_read (Host (Some ts)) m) + (ptp_offset m AND E810_TIMESTAMP_MASK)"
proof -
  have z: "to_double 0 = 0" by (simp add: to_double_def excess_bits.simps)
  have "set_ts_time (ts_time v) v = v" for v
    by (rule bit_word_eqI) (auto simp: set_ts_time_def ts_time_def bit_simps)
  then show ?thesis using assms z by (simp add: phc_read_def Let_def)
qed

end
