(* ===== verification/E810_Regs.thy ===== *)
theory E810_Regs
  imports E810_Ptp
begin

text \<open>
  The register file of the E810 model (\<open>struct e810_regs\<close> in \<open>e810_bm.h\<close>, reads in
  \<open>e810_bm.cc\<close>).  The chains of address comparisons of the code are tables of
  clauses, searched from the front: an address range, and the array and the
  stride by which it is indexed.  An index outside its array is a fault.
\<close>

section \<open>Registers\<close>

text \<open>Port and VSI statistics, the other register arrays, single registers of 32 and of 64 bits.\<close>

datatype glprt =
    r_GLPRT_BPRCL | r_GLPRT_BPTCL | r_GLPRT_CRCERRS | r_GLPRT_GORCL | r_GLPRT_GOTCL | r_GLPRT_ILLERRC |
    r_GLPRT_LXOFFRXC | r_GLPRT_LXOFFTXC | r_GLPRT_LXONRXC | r_GLPRT_LXONTXC | r_GLPRT_MLFC | r_GLPRT_MPRCL |
    r_GLPRT_MPTCL | r_GLPRT_MRFC | r_GLPRT_PRC1023L | r_GLPRT_PRC127L | r_GLPRT_PRC1522L | r_GLPRT_PRC255L |
    r_GLPRT_PRC511L | r_GLPRT_PRC64L | r_GLPRT_PRC9522L | r_GLPRT_PTC1023L | r_GLPRT_PTC127L | r_GLPRT_PTC1522L |
    r_GLPRT_PTC255L | r_GLPRT_PTC511L | r_GLPRT_PTC64L | r_GLPRT_PTC9522L | r_GLPRT_RFC | r_GLPRT_RJC |
    r_GLPRT_RLEC | r_GLPRT_ROC | r_GLPRT_RUC | r_GLPRT_TDOLD | r_GLPRT_UPRCL

datatype glv = r_GLV_BPRCL | r_GLV_BPTCL | r_GLV_GORCL | r_GLV_GOTCL | r_GLV_MPRCL | r_GLV_MPTCL | r_GLV_RDPC | r_GLV_TEPC
  | r_GLV_UPRCL | r_GLV_UPTCL

datatype areg = r_pfint_itrn nat | r_pfint_dyn_ctln | r_qint_tqctl | r_qtx_ena | r_qtx_tail | r_qint_rqctl | r_glint_ceqctl
  | r_qrx_ena | r_qrx_tail | r_pfqf_hkey | r_flex_rxdid nat | r_QRX_CTRL | r_QRXFLXP_CNTXT | r_qtx_comm_head | r_QRX_CONTEXT
  | r_GLINT_ITR nat | r_GLPRT glprt | r_GLV glv | r_GLTSYN_ENA | r_GLTSYN_SHTIME | r_GLTSYN_SHADJ | r_GLTSYN_INCVAL
  | r_QTX_COMM_DBELL

datatype sreg = r_glgen_rstctl | r_glgen_stat | r_gllan_rctl_0 | r_pfint_icr0_ena | r_pfint_icr0 | r_glnvm_srctl
  | r_pfhmc_errorinfo | r_pfhmc_errordata | r_pf_atqlen | r_pf_atqh | r_pf_atqt | r_pf_arqlen | r_pf_arqh | r_pf_arqt
  | r_pf_mbx_atqlen | r_pf_mbx_atqh | r_pf_mbx_atqt | r_pf_mbx_arqlen | r_pf_mbx_arqh | r_pf_mbx_arqt
  | r_glrpb_ghw | r_glrpb_phw | r_glrpb_plw | r_glint_ctl | r_PFPE_CCQPHIGH | r_PFPE_CCQPLOW | r_PFPE_CQPTAIL | r_PFPE_CQPDB
  | r_PFPE_CCQPSTATUS | r_GLTSYN_CMD | r_GLTSYN_CMD_SYNC | r_GLTSYN_SYNC_DLAY | r_GLTSYN_HH_DLAY | r_PFTSYN_SEM
  | r_PF_SB_ATQBAL | r_PF_SB_ATQBAH

datatype breg = r_pf_atqba | r_pf_arqba | r_pf_mbx_atqba | r_pf_mbx_arqba

abbreviation (input) NUM_QUEUES :: nat where "NUM_QUEUES \<equiv> 1536"
abbreviation (input) NUM_PFINTS :: nat where "NUM_PFINTS \<equiv> 2048"

text \<open>The declared lengths.\<close>

fun glv_len :: "glv \<Rightarrow> nat" where
  "glv_len r_GLV_BPRCL = 8"
| "glv_len r_GLV_BPTCL = 8"
| "glv_len _ = 768"

fun reg_len :: "areg \<Rightarrow> nat" where
  "reg_len (r_pfint_itrn _) = NUM_PFINTS"
| "reg_len r_pfint_dyn_ctln = NUM_PFINTS - 1"
| "reg_len r_qint_tqctl = NUM_QUEUES"
| "reg_len r_qtx_ena = 2048"
| "reg_len r_qtx_tail = NUM_QUEUES"
| "reg_len r_qint_rqctl = NUM_QUEUES"
| "reg_len r_glint_ceqctl = 2048"
| "reg_len r_qrx_ena = 2048"
| "reg_len r_qrx_tail = 2048"
| "reg_len r_pfqf_hkey = 13"
| "reg_len (r_flex_rxdid _) = 64"
| "reg_len r_QRX_CTRL = 2048"
| "reg_len r_QRXFLXP_CNTXT = 2048"
| "reg_len r_qtx_comm_head = NUM_QUEUES"
| "reg_len r_QRX_CONTEXT = 8 * 2048"
| "reg_len (r_GLINT_ITR _) = 2048"
| "reg_len (r_GLPRT _) = 8"
| "reg_len (r_GLV r) = glv_len r"
| "reg_len r_GLTSYN_ENA = 2"
| "reg_len r_GLTSYN_SHTIME = 6"
| "reg_len r_GLTSYN_SHADJ = 4"
| "reg_len r_GLTSYN_INCVAL = 4"
| "reg_len r_QTX_COMM_DBELL = NUM_QUEUES"

record e810_regs =
  r_arr :: "areg \<Rightarrow> u32 list"
  r_scl :: "sreg \<Rightarrow> u32"
  r_wide :: "breg \<Rightarrow> u64"

definition regs_ok :: "e810_regs \<Rightarrow> bool" where
  "regs_ok r \<longleftrightarrow> (\<forall>a. length (r_arr r a) = reg_len a)"

definition arr_read :: "areg \<Rightarrow> nat \<Rightarrow> e810_regs \<Rightarrow> u32 res" where
  "arr_read a i r = (if i < length (r_arr r a) then Ok (r_arr r a ! i) else Fault)"

definition arr_write :: "areg \<Rightarrow> nat \<Rightarrow> u32 \<Rightarrow> e810_regs \<Rightarrow> e810_regs res" where
  "arr_write a i v r = (if i < length (r_arr r a) then Ok (r\<lparr>r_arr := (r_arr r)(a := (r_arr r a)[i := v])\<rparr>) else Fault)"

definition scl_write :: "sreg \<Rightarrow> u32 \<Rightarrow> e810_regs \<Rightarrow> e810_regs" where
  "scl_write s v r = r\<lparr>r_scl := (r_scl r)(s := v)\<rparr>"

definition wide_write :: "breg \<Rightarrow> u64 \<Rightarrow> e810_regs \<Rightarrow> e810_regs" where
  "wide_write b v r = r\<lparr>r_wide := (r_wide r)(b := v)\<rparr>"

section \<open>Addresses\<close>

text \<open>The address macros of \<open>ice_hw_autogen.h\<close> and \<open>e810_base_wrapper.h\<close>.\<close>

abbreviation (input) GLINT_DYN_CTL :: "nat \<Rightarrow> nat" where "GLINT_DYN_CTL i \<equiv> 0x160000 + i * 4"
abbreviation (input) QTX_COMM_HEAD :: "nat \<Rightarrow> nat" where "QTX_COMM_HEAD i \<equiv> 0xE0000 + i * 4"
abbreviation (input) PF0INT_ITR_0 :: "nat \<Rightarrow> nat" where "PF0INT_ITR_0 i \<equiv> 0x3000004 + i * 4096"
abbreviation (input) PF0INT_ITR_1 :: "nat \<Rightarrow> nat" where "PF0INT_ITR_1 i \<equiv> 0x3000008 + i * 4096"
abbreviation (input) PF0INT_ITR_2 :: "nat \<Rightarrow> nat" where "PF0INT_ITR_2 i \<equiv> 0x300000C + i * 4096"
abbreviation (input) QINT_TQCTL :: "nat \<Rightarrow> nat" where "QINT_TQCTL i \<equiv> 0x140000 + i * 4"
abbreviation (input) QINT_RQCTL :: "nat \<Rightarrow> nat" where "QINT_RQCTL i \<equiv> 0x150000 + i * 4"
abbreviation (input) GLINT_CEQCTL :: "nat \<Rightarrow> nat" where "GLINT_CEQCTL i \<equiv> 0x15C000 + i * 4"
abbreviation (input) QRX_CTRL :: "nat \<Rightarrow> nat" where "QRX_CTRL i \<equiv> 0x120000 + i * 4"
abbreviation (input) QRX_TAIL :: "nat \<Rightarrow> nat" where "QRX_TAIL i \<equiv> 0x290000 + i * 4"
abbreviation (input) QRXFLXP_CNTXT :: "nat \<Rightarrow> nat" where "QRXFLXP_CNTXT i \<equiv> 0x480000 + i * 4"
abbreviation (input) GLFLXP_RXDID_FLX_WRD_0 :: "nat \<Rightarrow> nat" where "GLFLXP_RXDID_FLX_WRD_0 i \<equiv> 0x45C800 + i * 4"
abbreviation (input) GLFLXP_RXDID_FLX_WRD_1 :: "nat \<Rightarrow> nat" where "GLFLXP_RXDID_FLX_WRD_1 i \<equiv> 0x45C900 + i * 4"
abbreviation (input) GLFLXP_RXDID_FLX_WRD_2 :: "nat \<Rightarrow> nat" where "GLFLXP_RXDID_FLX_WRD_2 i \<equiv> 0x45CA00 + i * 4"
abbreviation (input) GLFLXP_RXDID_FLX_WRD_3 :: "nat \<Rightarrow> nat" where "GLFLXP_RXDID_FLX_WRD_3 i \<equiv> 0x45CB00 + i * 4"
abbreviation (input) QTX_COMM_DBELL :: "nat \<Rightarrow> nat" where "QTX_COMM_DBELL i \<equiv> 0x2C0000 + i * 4"
abbreviation (input) PTP_GLTSYN_ENA :: "nat \<Rightarrow> nat" where "PTP_GLTSYN_ENA i \<equiv> 0x88808 + i * 4"
abbreviation (input) PTP_GLTSYN_TIME :: "nat \<Rightarrow> nat" where "PTP_GLTSYN_TIME i \<equiv> 0x888C8 + i * 4"
abbreviation (input) PTP_GLTSYN_SHTIME :: "nat \<Rightarrow> nat" where "PTP_GLTSYN_SHTIME i \<equiv> 0x888E0 + i * 4"
abbreviation (input) PTP_GLTSYN_SHADJ :: "nat \<Rightarrow> nat" where "PTP_GLTSYN_SHADJ i \<equiv> 0x88908 + i * 4"
abbreviation (input) PTP_GLTSYN_INCVAL :: "nat \<Rightarrow> nat" where "PTP_GLTSYN_INCVAL i \<equiv> 0x88918 + i * 4"
abbreviation (input) GLINT_ITR :: "nat \<Rightarrow> nat \<Rightarrow> nat" where "GLINT_ITR i j \<equiv> 0x154000 + (i * 8192 + j * 4)"
abbreviation (input) QRX_CONTEXT :: "nat \<Rightarrow> nat \<Rightarrow> nat" where "QRX_CONTEXT i j \<equiv> 0x280000 + (i * 8192 + j * 4)"
abbreviation (input) GLFLXP_RXDID_FLAGS :: "nat \<Rightarrow> nat \<Rightarrow> nat" where "GLFLXP_RXDID_FLAGS i j \<equiv> 0x45D000 + (i * 4 + j * 256)"
abbreviation (input) GLINT_CTL :: nat where "GLINT_CTL \<equiv> 0x16CC54"
abbreviation (input) PFGEN_CTRL :: nat where "PFGEN_CTRL \<equiv> 0x91000"
abbreviation (input) GLQF_FD_SIZE :: nat where "GLQF_FD_SIZE \<equiv> 0x460010"
abbreviation (input) PFPE_CQPDB :: nat where "PFPE_CQPDB \<equiv> 0x500800"
abbreviation (input) GLPE_CPUSTATUS0 :: nat where "GLPE_CPUSTATUS0 \<equiv> 0x50BA5C"
abbreviation (input) GLPE_CPUSTATUS1 :: nat where "GLPE_CPUSTATUS1 \<equiv> 0x50BA60"
abbreviation (input) GLPE_CPUSTATUS2 :: nat where "GLPE_CPUSTATUS2 \<equiv> 0x50BA64"
abbreviation (input) GLPCI_LBARCTRL :: nat where "GLPCI_LBARCTRL \<equiv> 0x9DE74"
abbreviation (input) PFPE_CCQPHIGH :: nat where "PFPE_CCQPHIGH \<equiv> 0x50A100"
abbreviation (input) PFPE_CCQPSTATUS :: nat where "PFPE_CCQPSTATUS \<equiv> 0x50A000"
abbreviation (input) PFPE_CCQPLOW :: nat where "PFPE_CCQPLOW \<equiv> 0x50A080"
abbreviation (input) PFPE_CQPTAIL :: nat where "PFPE_CQPTAIL \<equiv> 0x500880"
abbreviation (input) GLNVM_ULD :: nat where "GLNVM_ULD \<equiv> 0xB6008"
abbreviation (input) GLNVM_GENS :: nat where "GLNVM_GENS \<equiv> 0xB6100"
abbreviation (input) GLNVM_FLA :: nat where "GLNVM_FLA \<equiv> 0xB6108"
abbreviation (input) GLGEN_RSTCTL :: nat where "GLGEN_RSTCTL \<equiv> 0xB8180"
abbreviation (input) GLGEN_STAT :: nat where "GLGEN_STAT \<equiv> 0xB612C"
abbreviation (input) PFINT_OICR_ENA :: nat where "PFINT_OICR_ENA \<equiv> 0x16C900"
abbreviation (input) PFINT_OICR :: nat where "PFINT_OICR \<equiv> 0x16CA00"
abbreviation (input) PF_VT_PFALLOC_HIF :: nat where "PF_VT_PFALLOC_HIF \<equiv> 0x9DD80"
abbreviation (input) GLLAN_RCTL_0 :: nat where "GLLAN_RCTL_0 \<equiv> 0x2941F8"
abbreviation (input) PFHMC_ERRORINFO :: nat where "PFHMC_ERRORINFO \<equiv> 0x520400"
abbreviation (input) PFHMC_ERRORDATA :: nat where "PFHMC_ERRORDATA \<equiv> 0x520500"
abbreviation (input) PF_FW_ATQBAL :: nat where "PF_FW_ATQBAL \<equiv> 0x80000"
abbreviation (input) PF_FW_ATQBAH :: nat where "PF_FW_ATQBAH \<equiv> 0x80100"
abbreviation (input) PF_FW_ATQLEN :: nat where "PF_FW_ATQLEN \<equiv> 0x80200"
abbreviation (input) PF_FW_ATQH :: nat where "PF_FW_ATQH \<equiv> 0x80300"
abbreviation (input) PF_FW_ATQT :: nat where "PF_FW_ATQT \<equiv> 0x80400"
abbreviation (input) PF_FW_ARQBAL :: nat where "PF_FW_ARQBAL \<equiv> 0x80080"
abbreviation (input) PF_FW_ARQBAH :: nat where "PF_FW_ARQBAH \<equiv> 0x80180"
abbreviation (input) PF_FW_ARQLEN :: nat where "PF_FW_ARQLEN \<equiv> 0x80280"
abbreviation (input) PF_FW_ARQH :: nat where "PF_FW_ARQH \<equiv> 0x80380"
abbreviation (input) PF_FW_ARQT :: nat where "PF_FW_ARQT \<equiv> 0x80480"
abbreviation (input) PFLAN_RX_QALLOC :: nat where "PFLAN_RX_QALLOC \<equiv> 0x1D2500"
abbreviation (input) PF_MBX_ATQBAL :: nat where "PF_MBX_ATQBAL \<equiv> 0x22E100"
abbreviation (input) PF_MBX_ATQBAH :: nat where "PF_MBX_ATQBAH \<equiv> 0x22E180"
abbreviation (input) PF_MBX_ATQLEN :: nat where "PF_MBX_ATQLEN \<equiv> 0x22E200"
abbreviation (input) PF_MBX_ATQH :: nat where "PF_MBX_ATQH \<equiv> 0x22E280"
abbreviation (input) PF_MBX_ATQT :: nat where "PF_MBX_ATQT \<equiv> 0x22E300"
abbreviation (input) PF_MBX_ARQBAL :: nat where "PF_MBX_ARQBAL \<equiv> 0x22E380"
abbreviation (input) PF_MBX_ARQBAH :: nat where "PF_MBX_ARQBAH \<equiv> 0x22E400"
abbreviation (input) PF_MBX_ARQLEN :: nat where "PF_MBX_ARQLEN \<equiv> 0x22E480"
abbreviation (input) PF_MBX_ARQH :: nat where "PF_MBX_ARQH \<equiv> 0x22E500"
abbreviation (input) PF_MBX_ARQT :: nat where "PF_MBX_ARQT \<equiv> 0x22E580"
abbreviation (input) PF_FUNC_RID :: nat where "PF_FUNC_RID \<equiv> 0x9E880"
abbreviation (input) GLGEN_RSTAT :: nat where "GLGEN_RSTAT \<equiv> 0xB8188"
abbreviation (input) PF_SB_ATQBAL :: nat where "PF_SB_ATQBAL \<equiv> 0x22FC00"
abbreviation (input) PF_SB_ATQBAH :: nat where "PF_SB_ATQBAH \<equiv> 0x22FC80"
abbreviation (input) PTP_GLTSYN_CMD :: nat where "PTP_GLTSYN_CMD \<equiv> 0x88810"
abbreviation (input) PTP_GLTSYN_CMD_SYNC :: nat where "PTP_GLTSYN_CMD_SYNC \<equiv> 0x88814"
abbreviation (input) PTP_GLTSYN_SYNC_DLAY :: nat where "PTP_GLTSYN_SYNC_DLAY \<equiv> 0x88818"
abbreviation (input) PTP_GLTSYN_HH_DLAY :: nat where "PTP_GLTSYN_HH_DLAY \<equiv> 0x8881C"
abbreviation (input) PFTSYN_SEM :: nat where "PFTSYN_SEM \<equiv> 0x88880"

text \<open>The statistics, in the order of the comparisons: register and address.\<close>

definition glprt_regs :: "(glprt \<times> nat) list" where
  "glprt_regs = [
    (r_GLPRT_BPRCL, 0x381380), (r_GLPRT_BPTCL, 0x381240), (r_GLPRT_CRCERRS, 0x380100), (r_GLPRT_GORCL, 0x380000),
    (r_GLPRT_GOTCL, 0x380B40), (r_GLPRT_ILLERRC, 0x3801C0), (r_GLPRT_LXOFFRXC, 0x3802C0),
    (r_GLPRT_LXOFFTXC, 0x381180), (r_GLPRT_LXONRXC, 0x380280), (r_GLPRT_LXONTXC, 0x381140), (r_GLPRT_MLFC, 0x380040),
    (r_GLPRT_MPRCL, 0x381340), (r_GLPRT_MPTCL, 0x381200), (r_GLPRT_MRFC, 0x380080), (r_GLPRT_PRC1023L, 0x380A00),
    (r_GLPRT_PRC127L, 0x380940), (r_GLPRT_PRC1522L, 0x380A40), (r_GLPRT_PRC255L, 0x380980),
    (r_GLPRT_PRC511L, 0x3809C0), (r_GLPRT_PRC64L, 0x380900), (r_GLPRT_PRC9522L, 0x380A80),
    (r_GLPRT_PTC1023L, 0x380C80), (r_GLPRT_PTC127L, 0x380BC0), (r_GLPRT_PTC1522L, 0x380CC0),
    (r_GLPRT_PTC255L, 0x380C00), (r_GLPRT_PTC511L, 0x380C40), (r_GLPRT_PTC64L, 0x380B80),
    (r_GLPRT_PTC9522L, 0x380D00), (r_GLPRT_RFC, 0x380AC0), (r_GLPRT_RJC, 0x380B00), (r_GLPRT_RLEC, 0x380140),
    (r_GLPRT_ROC, 0x380240), (r_GLPRT_RUC, 0x380200), (r_GLPRT_TDOLD, 0x381280), (r_GLPRT_UPRCL, 0x381300),
    (r_GLPRT_UPRCL, 0x381300)]"

definition glv_regs :: "(glv \<times> nat \<times> nat) list" where
  "glv_regs = [
    (r_GLV_BPRCL, 0x3B6000, 8), (r_GLV_BPTCL, 0x30E000, 8), (r_GLV_GORCL, 0x3B0000, 8), (r_GLV_GOTCL, 0x300000, 8),
    (r_GLV_MPRCL, 0x3B4000, 8), (r_GLV_MPTCL, 0x30C000, 8), (r_GLV_RDPC, 0x294C04, 4), (r_GLV_TEPC, 0x312000, 4),
    (r_GLV_UPRCL, 0x3B2000, 8), (r_GLV_UPTCL, 0x30A000, 8)]"


section \<open>Reading\<close>

text \<open>What a range of addresses holds: an array with a stride, an array that is cleared by reading, a constant.\<close>

datatype reg_access = Arr areg nat | ClearArr areg nat | Const u32

type_synonym clause = "nat \<times> nat \<times> reg_access"

text \<open>\<open>reg_mem_read32\<close>, the comparisons up to the statistics.\<close>

definition read_ranges :: "clause list" where
  "read_ranges = [
    (GLINT_DYN_CTL 0, GLINT_DYN_CTL (NUM_PFINTS - 1) - 1, Arr r_pfint_dyn_ctln 4),
    (QTX_COMM_HEAD 0, QTX_COMM_HEAD 16383, Arr r_qtx_comm_head 4),
    (PF0INT_ITR_0 0, PF0INT_ITR_0 2047, Arr (r_pfint_itrn 0) 4096),
    (PF0INT_ITR_1 0, PF0INT_ITR_1 2047, Arr (r_pfint_itrn 1) 4096),
    (PF0INT_ITR_2 0, PF0INT_ITR_2 2047, Arr (r_pfint_itrn 2) 4096),
    (QINT_TQCTL 0, QINT_TQCTL (2048 - 1), Arr r_qint_tqctl 4),
    (QINT_RQCTL 0, QINT_RQCTL 2047, Arr r_qint_rqctl 4),
    (GLINT_CEQCTL 0, GLINT_CEQCTL 2048, Arr r_glint_ceqctl 1),
    (QRX_CTRL 0, QRX_CTRL 2047, Arr r_QRX_CTRL 4),
    (QRX_TAIL 0, QRX_TAIL (2048 - 1), Arr r_qrx_tail 4),
    (GLINT_ITR 0 0, GLINT_ITR 0 2047, Arr (r_GLINT_ITR 0) 4),
    (GLINT_ITR 1 0, GLINT_ITR 1 2047, Arr (r_GLINT_ITR 1) 4),
    (GLINT_ITR 2 0, GLINT_ITR 2 2047, Arr (r_GLINT_ITR 2) 4),
    (QRX_CONTEXT 0 0, QRX_CONTEXT 0 0, Arr r_QRX_CONTEXT 4),
    (QRXFLXP_CNTXT 0, QRXFLXP_CNTXT 2047, Arr r_QRXFLXP_CNTXT 4),
    (GLFLXP_RXDID_FLX_WRD_0 0, GLFLXP_RXDID_FLX_WRD_0 63, ClearArr (r_flex_rxdid 0) 4),
    (GLFLXP_RXDID_FLX_WRD_1 0, GLFLXP_RXDID_FLX_WRD_1 63, Arr (r_flex_rxdid 1) 4),
    (GLFLXP_RXDID_FLX_WRD_2 0, GLFLXP_RXDID_FLX_WRD_2 63, Arr (r_flex_rxdid 2) 4),
    (GLFLXP_RXDID_FLX_WRD_3 0, GLFLXP_RXDID_FLX_WRD_3 63, Arr (r_flex_rxdid 3) 4),
    (GLFLXP_RXDID_FLAGS 0 0, GLFLXP_RXDID_FLAGS 63 4, Const 0x16)]"

definition glprt_clause :: "glprt \<times> nat \<Rightarrow> clause" where
  "glprt_clause = (\<lambda>(r, a). (a, a + 7 * 8, Arr (r_GLPRT r) 8))"

definition glv_clause :: "nat \<Rightarrow> glv \<times> nat \<times> nat \<Rightarrow> clause" where
  "glv_clause n = (\<lambda>(r, a, d). (a, a + n * d, Arr (r_GLV r) d))"

definition read_clauses :: "clause list" where
  "read_clauses = read_ranges @ map glprt_clause glprt_regs @ map (glv_clause 768) glv_regs"

text \<open>The first clause that an address falls into.\<close>

definition decode :: "(nat \<times> nat \<times> 'a) list \<Rightarrow> nat \<Rightarrow> (nat \<times> nat \<times> 'a) option" where
  "decode cls addr = List.find (\<lambda>(lo, hi, _). lo \<le> addr \<and> addr \<le> hi) cls"

text \<open>The \<open>switch\<close> behind the comparisons: single registers, halves of wide ones, constants, a register cleared by reading.\<close>

datatype switch_read = Sc sreg | Lo breg | Hi breg | Imm u32 | ReadClear sreg | Elem areg nat | PtpIncvalLow

definition read_switch :: "(nat \<times> switch_read) list" where
  "read_switch = [
    (GLINT_CTL, Imm ((push_bit 16 2 AND push_bit 16 0xF) OR (push_bit 20 2 AND push_bit 20 0xF)
      OR (push_bit 24 2 AND push_bit 24 0xF) OR (push_bit 28 2 AND push_bit 28 0xF))),
    (PFGEN_CTRL, Imm 0),
    (GLQF_FD_SIZE, Imm ((8192 AND 0x7FFF) OR (push_bit 16 8192 AND push_bit 16 0x7FFF))),
    (PFPE_CQPDB, Sc r_PFPE_CQPDB),
    (GLPE_CPUSTATUS0, Imm 0x80), (GLPE_CPUSTATUS1, Imm 0x80), (GLPE_CPUSTATUS2, Imm 0x80),
    (GLPCI_LBARCTRL, Imm (push_bit 4 1)),
    (PFPE_CCQPHIGH, Sc r_PFPE_CCQPHIGH), (PFPE_CCQPSTATUS, Sc r_PFPE_CCQPSTATUS),
    (PFPE_CCQPLOW, Sc r_PFPE_CCQPLOW), (PFPE_CQPTAIL, Sc r_PFPE_CQPTAIL),
    (GLNVM_ULD, Imm 0xFFFFFFFF), (GLNVM_GENS, Imm (push_bit 5 6)), (GLNVM_FLA, Imm (push_bit 5 7)),
    (GLGEN_RSTCTL, Sc r_glgen_rstctl), (GLGEN_STAT, Sc r_glgen_stat),
    (PFINT_OICR_ENA, Sc r_pfint_icr0_ena), (PFINT_OICR, ReadClear r_pfint_icr0),
    (PF_VT_PFALLOC_HIF, Imm 0), (GLLAN_RCTL_0, Sc r_gllan_rctl_0),
    (PFHMC_ERRORINFO, Sc r_pfhmc_errorinfo), (PFHMC_ERRORDATA, Sc r_pfhmc_errordata),
    (PF_FW_ATQBAL, Lo r_pf_atqba), (PF_FW_ATQBAH, Hi r_pf_atqba), (PF_FW_ATQLEN, Sc r_pf_atqlen),
    (PF_FW_ATQH, Sc r_pf_atqh), (PF_FW_ATQT, Sc r_pf_atqt),
    (PF_FW_ARQBAL, Lo r_pf_arqba), (PF_FW_ARQBAH, Hi r_pf_arqba), (PF_FW_ARQLEN, Sc r_pf_arqlen),
    (PF_FW_ARQH, Sc r_pf_arqh), (PF_FW_ARQT, Sc r_pf_arqt),
    (PFLAN_RX_QALLOC, Imm ((push_bit 16 1536 AND push_bit 16 0x7FF) OR (push_bit 31 1536 AND push_bit 31 1))),
    (PF_MBX_ATQBAL, Lo r_pf_mbx_atqba), (PF_MBX_ATQBAH, Hi r_pf_mbx_atqba), (PF_MBX_ATQLEN, Sc r_pf_mbx_atqlen),
    (PF_MBX_ATQH, Sc r_pf_mbx_atqh), (PF_MBX_ATQT, Sc r_pf_mbx_atqt),
    (PF_MBX_ARQBAL, Lo r_pf_mbx_arqba), (PF_MBX_ARQBAH, Hi r_pf_mbx_arqba), (PF_MBX_ARQLEN, Sc r_pf_mbx_arqlen),
    (PF_MBX_ARQH, Sc r_pf_mbx_arqh), (PF_MBX_ARQT, Sc r_pf_mbx_arqt),
    (PF_FUNC_RID, Imm 0), (GLGEN_RSTAT, Imm 0),
    (PF_SB_ATQBAL, Sc r_PF_SB_ATQBAL), (PF_SB_ATQBAH, Sc r_PF_SB_ATQBAH),
    (PTP_GLTSYN_CMD, Sc r_GLTSYN_CMD), (PTP_GLTSYN_CMD_SYNC, Sc r_GLTSYN_CMD_SYNC),
    (PTP_GLTSYN_SYNC_DLAY, Sc r_GLTSYN_SYNC_DLAY), (PTP_GLTSYN_HH_DLAY, Sc r_GLTSYN_HH_DLAY), (PFTSYN_SEM, Sc r_PFTSYN_SEM),
    (PTP_GLTSYN_ENA 0, Elem r_GLTSYN_ENA 0), (PTP_GLTSYN_ENA 1, Elem r_GLTSYN_ENA 1),
    (PTP_GLTSYN_INCVAL 0, PtpIncvalLow)]"

type_synonym reg_state = "e810_regs \<times> PTPManager"

fun access_read :: "reg_access \<Rightarrow> nat \<Rightarrow> reg_state \<Rightarrow> (u32 \<times> reg_state) res" where
  "access_read (Arr a d) off (r, ptp) = andThen (arr_read a (off div d) r) (\<lambda>v. Ok (v, r, ptp))"
| "access_read (ClearArr a d) off (r, ptp) = andThen (arr_write a (off div d) 0 r) (\<lambda>r. Ok (0, r, ptp))"
| "access_read (Const v) off s = Ok (v, s)"

fun switch_get :: "switch_read \<Rightarrow> reg_state \<Rightarrow> (u32 \<times> reg_state) res" where
  "switch_get (Sc s) (r, ptp) = Ok (r_scl r s, r, ptp)"
| "switch_get (Lo b) (r, ptp) = Ok (ucast (r_wide r b), r, ptp)"
| "switch_get (Hi b) (r, ptp) = Ok (ucast (drop_bit 32 (r_wide r b)), r, ptp)"
| "switch_get (Imm v) (r, ptp) = Ok (v, r, ptp)"
| "switch_get (ReadClear s) (r, ptp) = Ok (r_scl r s, scl_write s 0 r, ptp)"
| "switch_get (Elem a i) (r, ptp) = andThen (arr_read a i r) (\<lambda>v. Ok (v, r, ptp))"
| "switch_get PtpIncvalLow (r, ptp) = Ok (ucast (inc_val ptp), r, ptp)"

text \<open>Reading the time registers samples the clock anew for every word.\<close>

definition ptp_time_word :: "nat \<Rightarrow> u128 \<Rightarrow> u32" where
  "ptp_time_word index ts =
     (if index \<le> 1 then ts_time_0 ts else if index \<le> 3 then ucast (ts_time ts) else ucast (drop_bit 32 (ts_time ts)))"

definition reg_mem_read32 :: "clock_source \<Rightarrow> nat \<Rightarrow> reg_state \<Rightarrow> (u32 \<times> reg_state) res" where
  "reg_mem_read32 clk addr = (\<lambda>(r, ptp). case decode read_clauses addr of
       Some (lo, hi, acc) \<Rightarrow> access_read acc (addr - lo) (r, ptp)
     | None \<Rightarrow> (case map_of read_switch addr of
         Some act \<Rightarrow> switch_get act (r, ptp)
       | None \<Rightarrow>
           if PTP_GLTSYN_TIME 0 \<le> addr \<and> addr \<le> PTP_GLTSYN_TIME 5
           then (case phc_read clk ptp of (ts, ptp) \<Rightarrow> Ok (ptp_time_word ((addr - PTP_GLTSYN_TIME 0) div 4) ts, r, ptp))
           else if PTP_GLTSYN_SHTIME 0 \<le> addr \<and> addr \<le> PTP_GLTSYN_SHTIME 5
           then andThen (arr_read r_GLTSYN_SHTIME (addr - PTP_GLTSYN_SHTIME 0) r) (\<lambda>v. Ok (v, r, ptp))
           else Ok (0, r, ptp)))"


section \<open>Which reads leave their array\<close>

text \<open>The addresses of a clause behind the end of its array.\<close>

fun overrun :: "clause \<Rightarrow> (nat \<times> nat) list" where
  "overrun (lo, hi, Arr a d) = (if lo + d * reg_len a \<le> hi then [(lo + d * reg_len a, hi)] else [])"
| "overrun (lo, hi, ClearArr a d) = (if lo + d * reg_len a \<le> hi then [(lo + d * reg_len a, hi)] else [])"
| "overrun (lo, hi, Const v) = []"

definition within :: "nat \<Rightarrow> (nat \<times> nat) list \<Rightarrow> bool" where
  "within addr rs \<longleftrightarrow> list_ex (\<lambda>(l, h). l \<le> addr \<and> addr \<le> h) rs"

lemma within_simps [simp]:
  "\<not> within addr []"
  "within addr ((l, h) # rs) \<longleftrightarrow> l \<le> addr \<and> addr \<le> h \<or> within addr rs"
  "within addr (rs @ rs') \<longleftrightarrow> within addr rs \<or> within addr rs'"
  by (simp_all add: within_def)

text \<open>No clause hides the overrun of a later one; strides are positive.\<close>

fun stride_ok :: "clause \<Rightarrow> bool" where
  "stride_ok (lo, hi, Arr a d) = (0 < d)"
| "stride_ok (lo, hi, ClearArr a d) = (0 < d)"
| "stride_ok (lo, hi, Const v) = True"

fun separated :: "clause list \<Rightarrow> bool" where
  "separated [] = True"
| "separated ((lo, hi, acc) # cls) \<longleftrightarrow> stride_ok (lo, hi, acc) \<and>
     list_all (\<lambda>(l, h). h < lo \<or> hi < l) (concat (map overrun cls)) \<and> separated cls"

lemma separated_hidden:
  "list_all (\<lambda>(l, h). h < lo \<or> hi < l) rs \<Longrightarrow> lo \<le> addr \<Longrightarrow> addr \<le> hi \<Longrightarrow> \<not> within addr rs"
  by (induction rs) (auto simp: within_def)

lemma access_read_fault:
  assumes "regs_ok r" "stride_ok (lo, hi, acc)" "lo \<le> addr" "addr \<le> hi"
  shows "access_read acc (addr - lo) (r, ptp) = Fault \<longleftrightarrow> within addr (overrun (lo, hi, acc))"
proof -
  have d: "(addr - lo) div d < n \<longleftrightarrow> addr < lo + d * n" if "0 < d" for d n
    using that assms(3) by (auto simp: div_less_iff_less_mult mult.commute less_diff_conv2)
  show ?thesis
  proof (cases acc)
    case (Arr a d)
    then show ?thesis using assms d [of d "reg_len a"] by (auto simp: arr_read_def regs_ok_def)
  next
    case (ClearArr a d)
    then show ?thesis using assms d [of d "reg_len a"] by (auto simp: arr_write_def regs_ok_def)
  qed simp
qed

lemma decode_fault:
  assumes "regs_ok r" "separated cls"
  shows "(case decode cls addr of None \<Rightarrow> False | Some (lo, hi, acc) \<Rightarrow> access_read acc (addr - lo) (r, ptp) = Fault) \<longleftrightarrow>
    within addr (concat (map overrun cls))"
  using assms(2)
proof (induction cls)
  case (Cons c cls)
  obtain lo hi acc where c: "c = (lo, hi, acc)" by (cases c)
  have o: "within addr (overrun c) \<Longrightarrow> lo \<le> addr \<and> addr \<le> hi"
    by (cases acc) (auto simp: c split: if_splits)
  show ?case
  proof (cases "lo \<le> addr \<and> addr \<le> hi")
    case True
    then show ?thesis using Cons.prems access_read_fault [OF assms(1), of lo hi acc addr ptp] separated_hidden [of lo hi _ addr]
      by (auto simp: c decode_def)
  next
    case False
    then have "decode (c # cls) addr = decode cls addr" by (auto simp: c decode_def)
    then show ?thesis using Cons False o by (auto simp: c)
  qed
qed (simp add: decode_def)

lemmas clause_defs = read_clauses_def read_ranges_def glprt_regs_def glprt_clause_def glv_regs_def glv_clause_def

lemma read_overruns: "concat (map overrun read_clauses) = [
    (QTX_COMM_HEAD 1536, QTX_COMM_HEAD 16383), (QINT_TQCTL 1536, QINT_TQCTL 2047), (QINT_RQCTL 1536, QINT_RQCTL 2047),
    (GLINT_CEQCTL 512, GLINT_CEQCTL 2048), (0x3B6000 + 8 * 8, 0x3B6000 + 768 * 8), (0x30E000 + 8 * 8, 0x30E000 + 768 * 8),
    (0x3B0000 + 768 * 8, 0x3B0000 + 768 * 8), (0x300000 + 768 * 8, 0x300000 + 768 * 8), (0x3B4000 + 768 * 8, 0x3B4000 + 768 * 8),
    (0x30C000 + 768 * 8, 0x30C000 + 768 * 8), (0x294C04 + 768 * 4, 0x294C04 + 768 * 4), (0x312000 + 768 * 4, 0x312000 + 768 * 4),
    (0x3B2000 + 768 * 8, 0x3B2000 + 768 * 8), (0x30A000 + 768 * 8, 0x30A000 + 768 * 8)]"
  by (simp add: clause_defs)

lemma read_separated: "separated read_clauses"
  unfolding clause_defs by (simp add: clause_defs)

text \<open>The \<open>switch\<close> reads elements of arrays only inside them.\<close>

fun switch_ok :: "switch_read \<Rightarrow> bool" where
  "switch_ok (Elem a i) = (i < reg_len a)"
| "switch_ok _ = True"

lemma read_switch_ok: "list_all (\<lambda>(k, act). switch_ok act) read_switch"
  by (simp add: read_switch_def)

lemma switch_get_ok:
  assumes "regs_ok r" "map_of read_switch addr = Some act"
  shows "\<exists>v r'. switch_get act (r, ptp) = Ok (v, r', ptp) \<and> regs_ok r'"
proof -
  have "switch_ok act" using map_of_SomeD [OF assms(2)] read_switch_ok by (auto simp: list_all_iff)
  then show ?thesis using assms(1) by (cases act) (auto simp: arr_read_def regs_ok_def scl_write_def)
qed

lemma shtime_undecoded:
  assumes "PTP_GLTSYN_SHTIME 0 + 6 \<le> addr" "addr \<le> PTP_GLTSYN_SHTIME 5"
  shows "decode read_clauses addr = None" "map_of read_switch addr = None"
  using assms by (simp_all add: decode_def clause_defs read_switch_def)

lemma access_read_ok:
  assumes "regs_ok r" "access_read acc off (r, ptp) \<noteq> Fault"
  shows "\<exists>v r'. access_read acc off (r, ptp) = Ok (v, r', ptp) \<and> regs_ok r'"
  using assms by (cases acc) (auto simp: arr_read_def arr_write_def regs_ok_def split: if_splits)

definition unsafe_reads :: "(nat \<times> nat) list" where
  "unsafe_reads = concat (map overrun read_clauses) @ [(PTP_GLTSYN_SHTIME 0 + 6, PTP_GLTSYN_SHTIME 5)]"

lemma reg_read_fault_iff:
  assumes "regs_ok r"
  shows "reg_mem_read32 clk addr (r, ptp) = Fault \<longleftrightarrow> within addr unsafe_reads"
proof (cases "decode read_clauses addr")
  case None
  then have nw: "\<not> within addr (concat (map overrun read_clauses))"
    using decode_fault [OF assms read_separated, of addr ptp] by simp
  show ?thesis
  proof (cases "map_of read_switch addr")
    case m: None
    show ?thesis using None m nw assms
      by (auto simp: reg_mem_read32_def unsafe_reads_def arr_read_def regs_ok_def split: prod.split)
  next
    case (Some act)
    then have "\<not> (PTP_GLTSYN_SHTIME 0 + 6 \<le> addr \<and> addr \<le> PTP_GLTSYN_SHTIME 5)" using shtime_undecoded(2) [of addr] by auto
    then show ?thesis using None Some nw switch_get_ok [OF assms Some, of ptp] by (auto simp: reg_mem_read32_def unsafe_reads_def)
  qed
next
  case (Some c)
  then have "\<not> (PTP_GLTSYN_SHTIME 0 + 6 \<le> addr \<and> addr \<le> PTP_GLTSYN_SHTIME 5)" using shtime_undecoded(1) [of addr] by auto
  then show ?thesis using Some decode_fault [OF assms read_separated, of addr ptp]
    by (auto simp: reg_mem_read32_def unsafe_reads_def split: prod.splits)
qed

lemma reg_read_keeps:
  assumes "regs_ok r" "reg_mem_read32 clk addr (r, ptp) \<noteq> Fault"
  shows "\<exists>v r' ptp'. reg_mem_read32 clk addr (r, ptp) = Ok (v, r', ptp') \<and> regs_ok r'"
proof (cases "decode read_clauses addr")
  case None
  then show ?thesis using assms switch_get_ok [OF assms(1), of addr _ ptp]
    by (auto simp: reg_mem_read32_def arr_read_def split: option.splits prod.splits if_splits; blast)
next
  case (Some c)
  then show ?thesis using assms access_read_ok [OF assms(1), of _ _ ptp]
    by (auto simp: reg_mem_read32_def split: prod.splits; blast)
qed

text \<open>
  Which register reads of a guest are memory safe.  With the arrays of the
  register file at their declared lengths, a read at any address either returns a
  value and keeps the lengths, or leaves an array; it does the latter exactly for
  the addresses listed: transmit heads and queue interrupt controls from queue
  1536 on, completion queue controls from 512 on (the index is not divided by the
  stride), VSI statistics behind the end of their arrays, and the shadow time
  registers, which are indexed by byte.
\<close>

theorem reg_read_bounds:
  assumes "regs_ok r"
  shows "(if within addr [(QTX_COMM_HEAD 1536, QTX_COMM_HEAD 16383), (QINT_TQCTL 1536, QINT_TQCTL 2047),
        (QINT_RQCTL 1536, QINT_RQCTL 2047), (GLINT_CEQCTL 512, GLINT_CEQCTL 2048),
        (0x3B6000 + 8 * 8, 0x3B6000 + 768 * 8), (0x30E000 + 8 * 8, 0x30E000 + 768 * 8),
        (0x3B0000 + 768 * 8, 0x3B0000 + 768 * 8), (0x300000 + 768 * 8, 0x300000 + 768 * 8),
        (0x3B4000 + 768 * 8, 0x3B4000 + 768 * 8), (0x30C000 + 768 * 8, 0x30C000 + 768 * 8),
        (0x294C04 + 768 * 4, 0x294C04 + 768 * 4), (0x312000 + 768 * 4, 0x312000 + 768 * 4),
        (0x3B2000 + 768 * 8, 0x3B2000 + 768 * 8), (0x30A000 + 768 * 8, 0x30A000 + 768 * 8),
        (PTP_GLTSYN_SHTIME 0 + 6, PTP_GLTSYN_SHTIME 5)]
     then reg_mem_read32 clk addr (r, ptp) = Fault
     else \<exists>v r' ptp'. reg_mem_read32 clk addr (r, ptp) = Ok (v, r', ptp') \<and> regs_ok r')"
proof -
  have "within addr unsafe_reads \<longleftrightarrow> reg_mem_read32 clk addr (r, ptp) = Fault" using reg_read_fault_iff [OF assms] by simp
  then show ?thesis using reg_read_keeps [OF assms, of clk addr ptp] unfolding unsafe_reads_def read_overruns append.simps by auto
qed

definition zero_regs :: e810_regs where
  "zero_regs = \<lparr>r_arr = (\<lambda>a. replicate (reg_len a) 0), r_scl = (\<lambda>_. 0), r_wide = (\<lambda>_. 0)\<rparr>"

lemma zero_regs_ok [simp]: "regs_ok zero_regs"
  by (simp add: regs_ok_def zero_regs_def)

theorem reg_read_bounds_witness:
  "reg_mem_read32 (Host None) (QTX_COMM_HEAD 1536) (zero_regs, ptp_init) = Fault \<and>
   reg_mem_read32 (Host None) (QTX_COMM_HEAD 1535) (zero_regs, ptp_init) \<noteq> Fault"
  using reg_read_bounds [OF zero_regs_ok, of "QTX_COMM_HEAD 1536" "Host None" ptp_init]
    reg_read_bounds [OF zero_regs_ok, of "QTX_COMM_HEAD 1535" "Host None" ptp_init] by auto

end
