(* ===== verification/E810_Lan.thy ===== *)
theory E810_Lan
  imports E810_Lan_Tx E810_Switch E810_Regs Nic_Rss
begin

text \<open>
  The LAN manager of the E810 model (class \<open>lan\<close> in \<open>e810_lan.cc\<close>): it hands register
  updates and packets to the receive and transmit queues.

  The queues of the code hold references to their registers, and all of them work
  on the memory of the guest.  Here a queue is loaded with the registers it refers
  to and with the memory before an operation, and the registers it can change and
  the memory are stored back after it.  The state of the manager extends a
  \<open>queue_base\<close>: the device has one queue besides these, the admin queue, whose base
  part carries the memory and the log of events of the whole device.
\<close>

section \<open>State\<close>

record lan =
  l_regs :: e810_regs
  l_ptp :: PTPManager
  rxqs :: "rx_queue list"
  txqs :: "tx_queue list"
  rss_kc :: rss_key_cache
  bcam :: e810_switch
  ctx_addr :: "u8 list list"
  vsi0_first_queue :: nat

text \<open>
  Parameters of a run: what the back end answers to segmentation offload, and fuel
  for nested DMA completions and for the transmit loop.
\<close>

record lan_env =
  e_drv :: tso_driver
  e_fuel :: nat
  e_tx_fuel :: nat

abbreviation rx_iss :: "'e lan_env_scheme \<Rightarrow> dma_op \<Rightarrow> rx_queue \<Rightarrow> rx_queue res" where
  "rx_iss env \<equiv> IssueDma rx_vt (e_fuel env)"

abbreviation tx_iss :: "'e lan_env_scheme \<Rightarrow> dma_op \<Rightarrow> tx_queue \<Rightarrow> tx_queue res" where
  "tx_iss env \<equiv> IssueDma (tx_vt (e_drv env) (e_tx_fuel env)) (e_fuel env)"

abbreviation dev_more :: "('m \<Rightarrow> 'm) \<Rightarrow> 'm queue_base_scheme \<Rightarrow> 'm queue_base_scheme" where
  "dev_more \<equiv> queue_base.more_update"

section \<open>Loading and storing a queue\<close>

definition load_world :: "'b queue_base_scheme \<Rightarrow> 'a queue_base_scheme \<Rightarrow> 'a queue_base_scheme" where
  "load_world s q = q\<lparr>q_vfu := q_vfu s, q_mem := q_mem s, q_events := q_events s\<rparr>"

definition load_lan_regs :: "e810_regs \<Rightarrow> u32 \<Rightarrow> u32 \<Rightarrow> 'a lan_base_scheme \<Rightarrow> 'a lan_base_scheme" where
  "load_lan_regs r ena intqctl m = m\<lparr>reg_ena := ena, reg_intqctl := intqctl, dyn_ctln := r_arr r r_pfint_dyn_ctln,
     pfint_icr0 := r_scl r r_pfint_icr0\<rparr>"

definition load_rx :: "nat \<Rightarrow> 'b lan_scheme queue_base_scheme \<Rightarrow> rx_queue" where
  "load_rx i s = (let r = l_regs (queue_base.more s) in
     rx_more (load_lan_regs r (r_arr r r_qrx_ena ! i) (r_arr r r_qint_rqctl ! i))
       (load_world s ((rxqs (queue_base.more s) ! i)\<lparr>reg_tail := unat (r_arr r r_qrx_tail ! i)\<rparr>)))"

definition load_tx :: "nat \<Rightarrow> 'b lan_scheme queue_base_scheme \<Rightarrow> tx_queue" where
  "load_tx i s = (let r = l_regs (queue_base.more s) in
     tx_more (load_lan_regs r (r_arr r r_qtx_ena ! i) (r_arr r r_qint_tqctl ! i))
       (load_world s ((txqs (queue_base.more s) ! i)\<lparr>reg_tail := unat (r_arr r r_QTX_COMM_DBELL ! i)\<rparr>)))"

definition store_lan_regs :: "areg \<Rightarrow> nat \<Rightarrow> 'a lan_base_scheme \<Rightarrow> e810_regs \<Rightarrow> e810_regs" where
  "store_lan_regs ena i m r = scl_write r_pfint_icr0 (pfint_icr0 m) (r\<lparr>r_arr := (r_arr r)(ena := (r_arr r ena)[i := reg_ena m])\<rparr>)"

definition store_rx :: "nat \<Rightarrow> rx_queue \<Rightarrow> 'b lan_scheme queue_base_scheme \<Rightarrow> 'b lan_scheme queue_base_scheme" where
  "store_rx i q s = dev_more (\<lambda>m. m\<lparr>l_regs := store_lan_regs r_qrx_ena i (queue_base.more q) (l_regs m), rxqs := (rxqs m)[i := q]\<rparr>)
     (load_world q s)"

definition store_tx :: "nat \<Rightarrow> tx_queue \<Rightarrow> 'b lan_scheme queue_base_scheme \<Rightarrow> 'b lan_scheme queue_base_scheme" where
  "store_tx i q s = dev_more (\<lambda>m. m\<lparr>l_regs := store_lan_regs r_qtx_ena i (queue_base.more q) (l_regs m), txqs := (txqs m)[i := q]\<rparr>)
     (load_world q s)"

text \<open>An operation on queue \<open>i\<close>; a queue that does not exist is a fault.\<close>

definition with_rxq :: "nat \<Rightarrow> (rx_queue \<Rightarrow> rx_queue res) \<Rightarrow> 'b lan_scheme queue_base_scheme \<Rightarrow> 'b lan_scheme queue_base_scheme res" where
  "with_rxq i f s =
     (if i < length (rxqs (queue_base.more s)) then andThen (f (load_rx i s)) (\<lambda>q. Ok (store_rx i q s)) else Fault)"

definition with_txq :: "nat \<Rightarrow> (tx_queue \<Rightarrow> tx_queue res) \<Rightarrow> 'b lan_scheme queue_base_scheme \<Rightarrow> 'b lan_scheme queue_base_scheme res" where
  "with_txq i f s =
     (if i < length (txqs (queue_base.more s)) then andThen (f (load_tx i s)) (\<lambda>q. Ok (store_tx i q s)) else Fault)"

section \<open>Operations\<close>

definition lan_reset :: "'b lan_scheme \<Rightarrow> 'b lan_scheme" where
  "lan_reset m = m\<lparr>rxqs := map rx_reset (rxqs m), txqs := map tx_reset (txqs m), rss_kc := rss_set_dirty (rss_kc m)\<rparr>"

definition tail_updated :: "'e lan_env_scheme \<Rightarrow> u16 \<Rightarrow> bool \<Rightarrow> 'b lan_scheme queue_base_scheme \<Rightarrow> 'b lan_scheme queue_base_scheme res" where
  "tail_updated env idx rx =
     (if rx then with_rxq (unat idx) (\<lambda>q. if q_enabled q then reg_updated (rx_vt (rx_iss env)) (rx_iss env) q else Ok q)
      else with_txq (unat idx) (\<lambda>q. if q_enabled q
        then reg_updated (tx_vt (e_drv env) (e_tx_fuel env) (tx_iss env)) (tx_iss env) q else Ok q))"

text \<open>The eight context registers of a receive queue.\<close>

definition rx_packed_ctx :: "e810_regs \<Rightarrow> nat \<Rightarrow> u32 list" where
  "rx_packed_ctx r idx = map (\<lambda>i. r_arr r r_QRX_CONTEXT ! ((QRX_CONTEXT i idx - QRX_CONTEXT 0 0) div 4)) [0..<8]"

text \<open>
  \<open>qena_updated\<close>.  After enabling a receive queue it calls \<open>tail_updated\<close> with the
  value of the tail register, truncated to 16 bits, for the index.
\<close>

definition qena_updated :: "'e lan_env_scheme \<Rightarrow> u16 \<Rightarrow> bool \<Rightarrow> 'b lan_scheme queue_base_scheme \<Rightarrow> 'b lan_scheme queue_base_scheme res" where
  "qena_updated env idx rx s = (let r = l_regs (queue_base.more s); i = unat idx in
     andThen (arr_read (if rx then r_qrx_ena else r_qtx_ena) i r) (\<lambda>reg.
       if rx then
         (if \<not> i < length (rxqs (queue_base.more s)) then Fault
          else let en = q_enabled (rxqs (queue_base.more s) ! i) in
            if bit reg 0 \<and> \<not> en then
              andThen (with_rxq i (lan_enable (rx_initialize (rx_packed_ctx r i)) (rx_vt (rx_iss env)) (rx_iss env)) s)
                (tail_updated env (ucast (r_arr r r_qrx_tail ! i)) True)
            else if \<not> bit reg 0 \<and> en then with_rxq i (\<lambda>q. Ok (lan_disable q)) s
            else Ok s)
       else
         (if \<not> i < length (txqs (queue_base.more s)) then Fault
          else let en = q_enabled (txqs (queue_base.more s) ! i) in
            if bit reg 0 \<and> \<not> en then
              with_txq i (lan_enable (tx_initialize (ctx_addr (queue_base.more s) ! i))
                (tx_vt (e_drv env) (e_tx_fuel env) (tx_iss env)) (tx_iss env)) s
            else if \<not> bit reg 0 \<and> en then with_txq i (\<lambda>q. Ok (lan_disable q)) s
            else Ok s)))"

definition rss_key_updated :: "'b lan_scheme \<Rightarrow> 'b lan_scheme" where
  "rss_key_updated m = m\<lparr>rss_kc := rss_set_dirty (rss_kc m)\<rparr>"

text \<open>
  \<open>packet_received\<close>: the queue comes from the hint of the back end, or from the
  switch.  A time stamp is sampled inside the queue's \<open>packet_received\<close>, when the
  queue can take the packet.
\<close>

definition rx_queue_of :: "u16 option \<Rightarrow> u8 list \<Rightarrow> 'b lan_scheme \<Rightarrow> u16 res" where
  "rx_queue_of queue_hint data m = (case queue_hint of
       Some q \<Rightarrow> Ok (of_nat (vsi0_first_queue m + unat q))
     | None \<Rightarrow> select_queue (bcam m) data (of_nat (vsi0_first_queue m)))"

definition rx_sample :: "u64 + timespec option \<Rightarrow> u8 list \<Rightarrow> rx_queue \<Rightarrow> 'b lan_scheme \<Rightarrow> (u64 option \<times> PTPManager) res" where
  "rx_sample src data q m = (let dbuff = dbuff_size (queue_base.more q); ena = r_arr (l_regs m) r_GLTSYN_ENA in
     if dbuff = 0 \<or> \<not> q_enabled q \<or> length (dcache (queue_base.more q)) < (length data + dbuff - 1) div dbuff then Ok (None, l_ptp m)
     else (case ptp_should_sample_rx (ena ! 0) (ena ! 1) data of
         None \<Rightarrow> Fault
       | Some False \<Rightarrow> Ok (None, l_ptp m)
       | Some True \<Rightarrow> (case phc_sample src (l_ptp m) of (ts, ptp) \<Rightarrow> Ok (Some (ts_time ts), ptp))))"

definition lan_packet_received :: "'e lan_env_scheme \<Rightarrow> u64 + timespec option \<Rightarrow> u8 list \<Rightarrow> u16 option \<Rightarrow>
    'b lan_scheme queue_base_scheme \<Rightarrow> 'b lan_scheme queue_base_scheme res" where
  "lan_packet_received env src data queue_hint s =
     andThen (rx_queue_of queue_hint data (queue_base.more s)) (\<lambda>queue. let i = unat queue in
       if \<not> i < length (rxqs (queue_base.more s)) then Fault
       else if \<not> q_enabled (rxqs (queue_base.more s) ! i) then Ok s
       else andThen (rx_sample src data (load_rx i s) (queue_base.more s)) (\<lambda>(ts, ptp).
         with_rxq i (rx_packet_received (rx_iss env) data ts) (dev_more (\<lambda>m. m\<lparr>l_ptp := ptp\<rparr>) s)))"

section \<open>Delivery of a packet\<close>

lemma data_events_load_world [simp]: "data_events (load_world s q) = data_events s"
  by (simp add: data_events_def load_world_def)

lemma data_events_more [simp]: "data_events (queue_base.more_update f s) = data_events s"
  by (simp add: data_events_def)

lemma data_events_tail [simp]: "data_events (s\<lparr>reg_tail := t\<rparr>) = data_events s"
  by (simp add: data_events_def)

lemma data_events_load_rx [simp]: "data_events (load_rx i s) = data_events s"
  by (simp add: load_rx_def Let_def)

lemma data_events_store_rx [simp]: "data_events (store_rx i q s) = data_events q"
  by (simp add: store_rx_def)

lemma load_rx_ptp [simp]: "load_rx i (dev_more (\<lambda>m. m\<lparr>l_ptp := ptp\<rparr>) s) = load_rx i s"
  by (simp add: load_rx_def load_world_def Let_def)

lemma store_rx_more: "queue_base.more (store_rx i q s) = (queue_base.more s)
    \<lparr>l_regs := store_lan_regs r_qrx_ena i (queue_base.more q) (l_regs (queue_base.more s)), rxqs := (rxqs (queue_base.more s))[i := q]\<rparr>"
  by (simp add: store_rx_def load_world_def)

lemma load_rx_enabled: "q_enabled (load_rx i s) = q_enabled (rxqs (queue_base.more s) ! i)"
  by (simp add: load_rx_def load_world_def Let_def)

text \<open>Sampling succeeds on packets with the headers that it looks at.\<close>

lemma rx_sample_ok: "38 \<le> length data \<Longrightarrow> \<exists>ts ptp. rx_sample src data q m = Ok (ts, ptp)"
  by (auto simp: rx_sample_def Let_def ptp_should_sample_rx_def split: prod.split bool.split)

lemma lan_packet_to_queue:
  assumes q: "rx_queue_of hint data (queue_base.more s) = Ok queue" and i: "i = unat queue" "i < length (rxqs (queue_base.more s))"
    and inv: "rx_inv [] (load_rx i s)" "work (load_rx i s) < e_fuel env"
    and b: "b = dbuff_size (queue_base.more (load_rx i s))" "0 < b" "num = (length data + b - 1) div b"
    and l: "num \<le> length (dcache (queue_base.more (load_rx i s)))" and len: "38 \<le> length data"
  shows "safe (lan_packet_received env src data hint s) (\<lambda>s'. rx_inv [] (rxqs (queue_base.more s') ! i) \<and>
      (\<forall>j. j \<noteq> i \<longrightarrow> rxqs (queue_base.more s') ! j = rxqs (queue_base.more s) ! j) \<and> txqs (queue_base.more s') = txqs (queue_base.more s) \<and>
      data_events s' = data_events s @ map (part_event (load_rx i s) data) [0..<num])"
proof -
  obtain ts ptp where ts: "rx_sample src data (load_rx i s) (queue_base.more s) = Ok (ts, ptp)" using rx_sample_ok [OF len] by blast
  have en: "q_enabled (rxqs (queue_base.more s) ! i)" using inv(1) load_rx_enabled [of i s] by (simp add: queue_inv_def)
  have "safe (rx_packet_received (rx_iss env) data ts (load_rx i s)) (rx_loop_inv (load_rx i s) data num)"
    using inv b l by (intro rx_packet_loop) simp_all
  then have "safe (with_rxq i (rx_packet_received (rx_iss env) data ts) (dev_more (\<lambda>m. m\<lparr>l_ptp := ptp\<rparr>) s))
      (\<lambda>s'. rx_inv [] (rxqs (queue_base.more s') ! i) \<and> (\<forall>j. j \<noteq> i \<longrightarrow> rxqs (queue_base.more s') ! j = rxqs (queue_base.more s) ! j) \<and>
        txqs (queue_base.more s') = txqs (queue_base.more s) \<and>
        data_events s' = data_events s @ map (part_event (load_rx i s) data) [0..<num])"
    unfolding with_rxq_def using i(2) by (auto simp: rx_loop_inv_def store_rx_more elim!: safe_mono)
  then show ?thesis using q i en ts by (simp add: lan_packet_received_def Let_def)
qed

text \<open>Where the switch sends a packet after the requests \<open>es\<close>.\<close>

definition steered :: "u16 option \<Rightarrow> ice_aqc_sw_rules_elem list \<Rightarrow> nat \<Rightarrow> u8 list \<Rightarrow> u16" where
  "steered hint es vsi0 data = (case hint of
       Some q \<Rightarrow> of_nat (vsi0 + unat q)
     | None \<Rightarrow> (case List.find (\<lambda>(t, q). t = be16 data 12) (map rule_meaning (filter elem_supported es)) of
         None \<Rightarrow> of_nat vsi0
       | Some (t, q) \<Rightarrow> q))"

lemma rx_queue_of_steered:
  assumes "\<forall>e \<in> set es. length (sw_hdr e) = unat (sw_hdr_len e)" "add_rules backend device_id v es (switch_init, []) = Ok (bcam m, calls)"
    and "56 \<le> length data"
  shows "rx_queue_of hint data m = Ok (steered hint es (vsi0_first_queue m) data)"
proof (cases hint)
  case None
  have "switch_table (map rule_meaning (filter elem_supported es)) (bcam m)"
    using add_rules_table [OF switch_init_table assms(1), of backend device_id v "[]"] assms(2) by auto
  then show ?thesis using None select_queue_table [of _ "bcam m" data] assms(3)
    by (simp add: rx_queue_of_def steered_def split: option.splits prod.splits)
qed (simp add: rx_queue_of_def steered_def)

text \<open>
  C31: a packet goes to the queue that the back end or the first matching switch rule
  names, and only there.  After the driver's rules have been added to the switch, a
  packet that the steered queue has buffers for is written to the buffers of that
  queue intact and in order; no assertion fails, no other receive queue and no
  transmit queue changes, and the queue keeps its invariant.
\<close>

theorem packet_steered_delivered:
  assumes "\<forall>e \<in> set es. length (sw_hdr e) = unat (sw_hdr_len e)"
    and "add_rules backend device_id v es (switch_init, []) = Ok (bcam (queue_base.more s), calls)" "56 \<le> length data"
    and "i = unat (steered hint es (vsi0_first_queue (queue_base.more s)) data)" "i < length (rxqs (queue_base.more s))"
    and "rx_inv [] (load_rx i s)" "work (load_rx i s) < e_fuel env"
    and "b = dbuff_size (queue_base.more (load_rx i s))" "0 < b" "num = (length data + b - 1) div b"
    and "num \<le> length (dcache (queue_base.more (load_rx i s)))"
  shows "safe (lan_packet_received env src data hint s) (\<lambda>s'. rx_inv [] (rxqs (queue_base.more s') ! i) \<and>
      (\<forall>j. j \<noteq> i \<longrightarrow> rxqs (queue_base.more s') ! j = rxqs (queue_base.more s) ! j) \<and> txqs (queue_base.more s') = txqs (queue_base.more s) \<and>
      data_events s' = data_events s @ map (part_event (load_rx i s) data) [0..<num]) \<and>
    concat (map (chunk b data) [0..<num]) = data"
  using lan_packet_to_queue [OF rx_queue_of_steered [OF assms(1-3)] assms(4-11)] chunks_cover [OF assms(9,10)] assms(3) by simp

definition demo_regs :: e810_regs where
  "demo_regs = zero_regs\<lparr>r_arr := (r_arr zero_regs)(r_qrx_ena := (r_arr zero_regs r_qrx_ena)[1 := 5],
     r_qrx_tail := (r_arr zero_regs r_qrx_tail)[1 := 1])\<rparr>"

definition demo_lan :: "e810_switch \<Rightarrow> lan queue_base_scheme" where
  "demo_lan sw = \<lparr>q_vfu = q_vfu demo_rx, q_mem = (\<lambda>_. 0), q_events = [], desc_ctxs = [], active_first_pos = 0, active_first_idx = 0,
     active_cnt = 0, q_base = 0, q_len = 0, reg_head = 0, reg_tail = 0, q_enabled = False, desc_len = 32,
     \<dots> = \<lparr>l_regs = demo_regs, l_ptp = ptp_init, rxqs = [demo_rx, demo_rx], txqs = [], rss_kc = rss_key_cache_init (replicate 13 0),
       bcam = sw, ctx_addr = [], vsi0_first_queue = 0\<rparr>\<rparr>"

definition demo_env :: lan_env where
  "demo_env = \<lparr>e_drv = (\<lambda>_ _ _ _ _ _ _. False), e_fuel = 5, e_tx_fuel = 1\<rparr>"

lemma load_demo: "load_rx (Suc 0) (demo_lan sw) = demo_rx"
  by (simp add: load_rx_def load_world_def load_lan_regs_def demo_lan_def demo_regs_def zero_regs_def Let_def) (simp add: demo_rx_def load_lan_regs_def)

theorem packet_steered_delivered_witness:
  "\<exists>sw calls. add_rules (\<lambda>_. True) 0 0 [demo_rule 0xF7 1] (switch_init, []) = Ok (sw, calls) \<and>
    safe (lan_packet_received demo_env (Inr None) (replicate 12 0 @ [0x88, 0xF7] @ replicate 46 0) None (demo_lan sw))
      (\<lambda>s'. data_events s' = [Ev_data 0x1000 (replicate 12 0 @ [0x88, 0xF7] @ replicate 46 0)])"
proof -
  let ?d = "replicate 12 0 @ [0x88, 0xF7] @ replicate 46 0 :: u8 list"
  have e: "\<forall>e \<in> set [demo_rule 0xF7 1]. length (sw_hdr e) = unat (sw_hdr_len e)" by (simp add: demo_rule_def)
  obtain sw calls where sw: "add_rules (\<lambda>_. True) 0 0 [demo_rule 0xF7 1] (switch_init, []) = Ok (sw, calls)"
    using add_rules_table [OF switch_init_table e, of "\<lambda>_. True" 0 0 "[]"] by blast
  have "rule_meaning (demo_rule 0xF7 1) = (0x88F7, 1)" "elem_supported (demo_rule 0xF7 1)" "be16 ?d 12 = 0x88F7"
    by (simp_all add: rule_meaning_def rule_queue_def demo_rule_def elem_supported_def be16_def)
  then have st: "1 = unat (steered None [demo_rule 0xF7 1] (vsi0_first_queue (queue_base.more (demo_lan sw))) ?d)"
    by (simp add: steered_def)
  have b: "dbuff_size (queue_base.more demo_rx) = 128" "dcache (queue_base.more demo_rx) = [0]" by (simp_all add: demo_rx_def)
  have p: "part_event demo_rx ?d 0 = Ev_data 0x1000 ?d"
    using le_word_le_bytes [of 8 "0x1000 :: u64"] by (simp add: part_event_def chunk_def demo_rx_def le_field_def)
  have dev: "data_events (demo_lan sw) = []" "bcam (queue_base.more (demo_lan sw)) = sw" "length (rxqs (queue_base.more (demo_lan sw))) = 2"
    by (simp_all add: demo_lan_def data_events_def)
  have "safe (lan_packet_received demo_env (Inr None) ?d None (demo_lan sw)) (\<lambda>s'. data_events s' = [Ev_data 0x1000 ?d])"
    by (rule safe_mono [OF conjunct1 [OF packet_steered_delivered [OF e _ _ st, where num = 1 and b = 128 and calls = calls and
          backend = "\<lambda>_. True" and device_id = 0 and v = 0]]])
       (use sw b p dev demo_rx_inv in \<open>simp_all add: load_demo demo_env_def\<close>)
  then show ?thesis using sw by blast
qed

end
