(* ===== verification/E810_Admin.thy ===== *)
theory E810_Admin
  imports E810_Lan
begin

text \<open>
  The admin queue of the E810 model (\<open>queue_admin_tx\<close> in \<open>e810_adminq.cc\<close>), through
  which a driver configures the device.  A command is a descriptor of 32 bytes, a
  buffer that was fetched with it, and a reply, which goes into the descriptor or
  is written back to the buffer.  The admin queue and the rest of the device form
  one state: the base part is the queue, its extension the device.

  Structures that the code answers with before it has set all their bytes are
  filled with the contents of the stack, which is a parameter; so are the MAC
  address of the virtual machine and the answers of the back end.
\<close>

section \<open>State\<close>

text \<open>
  The scheduler nodes that a driver has added are pointers into the data buffers of
  contexts: the position of the context, the offset, and the size of the buffer,
  which identifies it, since a buffer is only replaced by a larger one.
\<close>

record admin = lan +
  sched_nodes :: "u32 \<rightharpoonup> nat \<times> nat \<times> nat"
  last_returned_node :: u32
  topo_elem :: "u8 list"
  rule_calls :: "backend_rule list"

record admin_env = lan_env +
  e_backend :: "backend_rule \<Rightarrow> bool"
  e_device_id :: int
  e_mac :: u64
  e_stack :: "nat \<Rightarrow> u8"

text \<open>Fields of byte buffers.\<close>

definition set16 :: "nat \<Rightarrow> u16 \<Rightarrow> u8 list \<Rightarrow> u8 list" where
  "set16 off v = put_bytes off (le_bytes 2 v)"

definition set32 :: "nat \<Rightarrow> u32 \<Rightarrow> u8 list \<Rightarrow> u8 list" where
  "set32 off v = put_bytes off (le_bytes 4 v)"

text \<open>A structure on the stack of which some parts have been set.\<close>

definition on_stack :: "(nat \<Rightarrow> u8) \<Rightarrow> nat \<Rightarrow> (nat \<times> u8 list) list \<Rightarrow> u8 list" where
  "on_stack junk n parts = fold (\<lambda>(off, bs). put_bytes off bs) parts (map junk [0..<n])"

section \<open>Completion\<close>

datatype reply = Direct u16 | Indirect u16 "u8 list"

text \<open>Fields of the descriptor.\<close>

definition aq_flags :: "u8 list \<Rightarrow> u16" where "aq_flags d = le_field 0 2 d"
definition aq_opcode :: "u8 list \<Rightarrow> u16" where "aq_opcode d = le_field 2 2 d"
definition aq_datalen :: "u8 list \<Rightarrow> u16" where "aq_datalen d = le_field 4 2 d"
definition aq_retval :: "u8 list \<Rightarrow> u16" where "aq_retval d = le_field 6 2 d"

definition aq_addr :: "u8 list \<Rightarrow> u64" where
  "aq_addr d = ucast (le_field 28 4 d :: u32) OR push_bit 32 (ucast (le_field 24 4 d :: u32))"

definition desc_compl_prepare :: "u16 \<Rightarrow> u8 list \<Rightarrow> u8 list" where
  "desc_compl_prepare retval d = (let
     fl = (aq_flags d AND NOT 0x1FF) OR (0x1 OR 0x2);
     fl = (if retval \<noteq> 0 then fl OR 0x4 else fl) in
     set16 6 retval (set16 0 fl d))"

definition upd_desc :: "nat \<Rightarrow> (u8 list \<Rightarrow> u8 list) \<Rightarrow> 'a queue_base_scheme \<Rightarrow> 'a queue_base_scheme" where
  "upd_desc p f = upd_ctx p (\<lambda>c. c\<lparr>c_desc := f (c_desc c)\<rparr>)"

definition desc_complete :: "nat \<Rightarrow> u16 \<Rightarrow> 'a queue_base_scheme \<Rightarrow> 'a queue_base_scheme res" where
  "desc_complete p retval s = processed p (upd_desc p (desc_compl_prepare retval) s)"

definition desc_complete_indir :: "(dma_op \<Rightarrow> 'a queue_base_scheme \<Rightarrow> 'a queue_base_scheme res) \<Rightarrow> nat \<Rightarrow> u16 \<Rightarrow> u8 list \<Rightarrow>
    'a queue_base_scheme \<Rightarrow> 'a queue_base_scheme res" where
  "desc_complete_indir iss p retval bytes s = (let d = c_desc (desc_ctxs s ! (p mod MAX_ACTIVE_DESCS)) in
     if length bytes > unat (aq_datalen d) then Abort
     else data_write iss p (aq_addr d) bytes
       (upd_desc p (\<lambda>d. desc_compl_prepare retval (set16 4 (of_nat (length bytes)) d)) s))"

section \<open>Commands that answer with constants\<close>

type_synonym 'm outcome = "(reply \<times> u8 list \<times> u8 list \<times> 'm) res"

definition cmd_get_ver :: "u8 list \<Rightarrow> u8 list" where
  "cmd_get_ver d = put_bytes 30 [5] (put_bytes 29 [1] (put_bytes 26 [0] (put_bytes 25 [6] (set32 20 0 (set32 16 0 d)))))"

definition cap_elem :: "u16 \<Rightarrow> u8 \<Rightarrow> u8 \<Rightarrow> u32 \<Rightarrow> u32 \<Rightarrow> u32 \<Rightarrow> u8 list" where
  "cap_elem cap major minor number logical_id phys_id =
     le_bytes 2 cap @ [major, minor] @ le_bytes 4 number @ le_bytes 4 logical_id @ le_bytes 4 phys_id @ replicate 16 0"

definition CAP_1588_FLAGS :: u32 where
  "CAP_1588_FLAGS = push_bit 0 1 OR push_bit 1 1 OR push_bit 2 1 OR push_bit 28 1 OR push_bit 25 1 OR push_bit 3 1
     OR push_bit 26 1 OR push_bit 7 1"

definition aq_caps :: "u8 list" where
  "aq_caps = cap_elem 0x05 1 0 2 1 0 @ cap_elem 0x40 1 0 2048 4 0 @ cap_elem 0x41 1 0 1536 0 0 @ cap_elem 0x42 1 0 1536 0 0
     @ cap_elem 0x43 1 0 2048 0 0 @ cap_elem 0x17 1 0 383 0 0 @ cap_elem 0x18 1 0 1 4 1 @ cap_elem 0x51 1 0 1 1 1
     @ cap_elem 0x45 1 0 8192 8192 0 @ cap_elem 0x46 1 1 CAP_1588_FLAGS 1 1"

definition cmd_list_caps :: "u8 list \<Rightarrow> u8 list \<Rightarrow> 'm \<Rightarrow> 'm outcome" where
  "cmd_list_caps d data m =
     (if length aq_caps \<le> unat (aq_datalen d) then Ok (Indirect 0 aq_caps, set32 20 10 d, data, m)
      else Ok (Direct 9, set16 4 (of_nat (length aq_caps)) d, data, m))"

definition cmd_mac_read :: "(nat \<Rightarrow> u8) \<Rightarrow> u64 \<Rightarrow> u8 list \<Rightarrow> u8 list \<Rightarrow> 'm \<Rightarrow> 'm outcome" where
  "cmd_mac_read junk mac d data m =
     Ok (Indirect 0 (on_stack junk 8 [(1, [0]), (2, le_bytes 6 mac)]), set16 16 0x50 (put_bytes 20 [1] d), data, m)"

definition cmd_phy_caps :: "(nat \<Rightarrow> u8) \<Rightarrow> u8 list \<Rightarrow> u8 list \<Rightarrow> 'm \<Rightarrow> 'm outcome" where
  "cmd_phy_caps junk d data m =
     Ok (Indirect 0 (on_stack junk 560 [(0, le_bytes 8 (push_bit 30 1 :: u64)), (8, le_bytes 8 (push_bit 1 1 :: u64)),
        (16, [0x18]), (18, le_bytes 2 (push_bit 6 1 :: u16))]), set32 20 0 (set32 16 0 d), data, m)"

definition cmd_link_status :: "(nat \<Rightarrow> u8) \<Rightarrow> u8 list \<Rightarrow> u8 list \<Rightarrow> 'm \<Rightarrow> 'm outcome" where
  "cmd_link_status junk d data m =
     Ok (Indirect 0 (on_stack junk 32 [(16, le_bytes 8 (push_bit 30 1 :: u64)), (10, le_bytes 2 (push_bit 8 1 :: u16)), (2, [0xE1]),
        (3, [0x03]), (4, [0]), (6, le_bytes 2 (2048 :: u16))]), set16 18 (le_field 18 2 d AND 1) d, data, m)"

definition cmd_sw_cfg :: "(nat \<Rightarrow> u8) \<Rightarrow> u8 list \<Rightarrow> u8 list \<Rightarrow> 'm \<Rightarrow> 'm outcome" where
  "cmd_sw_cfg junk d data m =
     Ok (Indirect 0 (on_stack junk 6 [] @ le_bytes 2 (1 :: u16) @ le_bytes 2 (0 :: u16) @ le_bytes 2 (0 :: u16)), set16 20 1 d, data, m)"

definition pkg_name :: "u8 list" where
  "pkg_name = map (\<lambda>c. of_nat (of_char c)) ''ICE OS Default Package'' @ replicate 6 0"

definition cmd_pkg_info :: "(nat \<Rightarrow> u8) \<Rightarrow> u8 list \<Rightarrow> u8 list \<Rightarrow> 'm \<Rightarrow> 'm outcome" where
  "cmd_pkg_info junk d data m =
     Ok (Indirect 0 (le_bytes 4 (1 :: u32) @ on_stack junk 40 [(37, [1]), (0, [1, 3, 30, 0]), (4, pkg_name)]), d, data, m)"

definition cmd_add_vsi :: "(nat \<Rightarrow> u8) \<Rightarrow> u8 list \<Rightarrow> u8 list \<Rightarrow> 'm \<Rightarrow> 'm outcome" where
  "cmd_add_vsi junk d data m =
     Ok (Indirect 0 (on_stack junk 116 [(0, [junk 0 OR 0xC1, junk 1])]), set16 16 1 d, data, m)"

definition cmd_query_sched_res :: "(nat \<Rightarrow> u8) \<Rightarrow> u8 list \<Rightarrow> u8 list \<Rightarrow> 'm \<Rightarrow> 'm outcome" where
  "cmd_query_sched_res junk d data m =
     Ok (Indirect 0 (on_stack junk 320 [(2, le_bytes 2 (4 :: u16)), (0, le_bytes 2 (3 :: u16)), (42, le_bytes 2 (1 :: u16)),
        (74, le_bytes 2 (2 :: u16)), (106, le_bytes 2 (32 :: u16)), (138, le_bytes 2 (8 :: u16))]), set16 18 1 d, data, m)"

text \<open>The shadow of the flash: constants for the words a driver looks at.\<close>

definition nvm_word :: "u32 \<Rightarrow> u16 option" where
  "nvm_word offset = map_of [(0x0, 0x78), (0x84, 0x8020), (0x86, 0x41A), (0x88, 0x8854), (0x8A, 0x7D), (0x8C, 0x894E),
     (0x43A004, 0xA1), (0x43A006, 0x0)] offset"

definition cmd_nvm_read :: "u8 list \<Rightarrow> u8 list \<Rightarrow> 'm \<Rightarrow> 'm outcome" where
  "cmd_nvm_read d data m = (let offset = ucast (le_field 16 2 d :: u16) OR push_bit 16 (ucast (d ! 18)) :: u32 in
     Ok (case nvm_word offset of
         Some w \<Rightarrow> Indirect 0 (le_bytes 2 w)
       | None \<Rightarrow> Indirect (if offset < 0xC00000 then 0 else 14) [0x40], d, data, m))"

section \<open>Commands that answer with their buffer\<close>

text \<open>\<open>desc_complete_indir (0, data, d->datalen)\<close>: as many bytes of the buffer as the descriptor says.\<close>

definition echo :: "u8 list \<Rightarrow> u8 list \<Rightarrow> 'm \<Rightarrow> 'm outcome" where
  "echo d data m = andThen (get_in 0 (unat (aq_datalen d)) data) (\<lambda>bs. Ok (Indirect 0 bs, d, data, m))"

definition cmd_set_rss_lut :: "u8 list \<Rightarrow> u8 list \<Rightarrow> 'b lan_scheme \<Rightarrow> ('b lan_scheme) outcome" where
  "cmd_set_rss_lut d data m =
     echo d data (if drop_bit 2 ((le_field 18 2 d :: u16) AND push_bit 2 3) = 1 then m\<lparr>vsi0_first_queue := 1\<rparr> else m)"

definition res_types :: "u16 list" where
  "res_types = [0x04, 0x21, 0x22, 0x23, 0x58, 0x59, 0x60, 0x61]"

definition cmd_alloc_res :: "u8 list \<Rightarrow> u8 list \<Rightarrow> 'm \<Rightarrow> 'm outcome" where
  "cmd_alloc_res d data m =
     andThen (rfold (\<lambda>i data. andThen (get_in 0 2 data) (\<lambda>ty.
         if (le_word ty :: u16) AND 0x7F \<in> set res_types then put_in (4 + 2 * i) (le_bytes 2 (of_nat i :: u16)) data else Ok data))
       [0..<unat (le_field 16 2 d :: u16)] data)
       (\<lambda>data. echo d data m)"

definition cmd_remove_sw_rules :: "u8 list \<Rightarrow> u8 list \<Rightarrow> 'm \<Rightarrow> 'm outcome" where
  "cmd_remove_sw_rules d data m =
     andThen (get_in 0 2 data) (\<lambda>ty.
     andThen (if (le_word ty :: u16) = 0 \<or> (le_word ty :: u16) = 1 then put_in 12 [0, 0] data else Ok data) (\<lambda>data.
     andThen (get_in 0 (min 102 (unat (aq_datalen d))) data) (\<lambda>bs. Ok (Indirect 0 bs, d, data, m))))"

text \<open>The default topology, kept in a structure of the device: seven nodes of 24 bytes behind a header of 8.\<close>

definition topo_node :: "nat \<times> u32 \<times> u8 \<Rightarrow> u8 list \<Rightarrow> u8 list" where
  "topo_node = (\<lambda>(i, parent, ty) t. put_bytes (8 + 24 * i + 8) [ty] (set32 (8 + 24 * i) parent (set32 (8 + 24 * i + 4) (of_nat i) t)))"

definition cmd_dflt_topo :: "u8 list \<Rightarrow> u8 list \<Rightarrow> 'b admin_scheme \<Rightarrow> ('b admin_scheme) outcome" where
  "cmd_dflt_topo d data m = (let
     t = fold topo_node [(0, 0xFFFFFFFF, 1), (1, 0, 4), (2, 0, 3), (3, 1, 2), (4, 1, 2), (5, 2, 2), (6, 2, 2)]
       (set16 4 7 (topo_elem m)) in
     Ok (Indirect 0 t, put_bytes 17 [2] (put_bytes 16 [1] d), data, m\<lparr>topo_elem := t\<rparr>))"

text \<open>
  The parents and types of the fixed scheduler nodes, after the cases of the \<open>switch\<close>
  that fall through; the flag tells whether control reaches the default case.
\<close>

definition static_node :: "u32 \<Rightarrow> (u32 \<times> u8) option \<times> bool" where
  "static_node n =
     (if n = 0 then (Some (0xFFFFFFFF, 1), False) else if n = 1 then (Some (0, 2), False) else if n = 2 then (Some (1, 4), False)
      else if n = 3 then (Some (2, 3), False) else if n = 4 then (Some (3, 3), False) else if n = 5 then (Some (4, 3), False)
      else if n \<in> {6, 22, 38, 54} then (Some (5, 3), False)
      else if n \<in> {55, 56, 57, 58, 59} then (Some (55, 3), True)
      else (None, True))"

text \<open>Following a pointer to a stored node: a fault when its buffer has been replaced.\<close>

definition sched_deref :: "desc_ctx list \<Rightarrow> nat \<times> nat \<times> nat \<Rightarrow> u8 list res" where
  "sched_deref ctxs = (\<lambda>(p, off, cap).
     if p < length ctxs \<and> length (c_data (ctxs ! p)) = cap then get_in off 24 (c_data (ctxs ! p)) else Fault)"

definition cmd_get_sched :: "desc_ctx list \<Rightarrow> u8 list \<Rightarrow> u8 list \<Rightarrow> 'b admin_scheme \<Rightarrow> ('b admin_scheme) outcome" where
  "cmd_get_sched ctxs d data m =
     andThen (get_in 4 4 data) (\<lambda>teid. let n = le_word teid in
     andThen (case fst (static_node n) of
         None \<Rightarrow> Ok data
       | Some (parent, ty) \<Rightarrow> andThen (put_in 0 (le_bytes 4 parent) data) (put_in 8 [ty])) (\<lambda>data.
     andThen (if snd (static_node n) then
          (case sched_nodes m n of None \<Rightarrow> Ok data | Some ptr \<Rightarrow> andThen (sched_deref ctxs ptr) (\<lambda>e. put_in 0 e data))
        else Ok data) (\<lambda>data.
     andThen (get_in 0 24 data) (\<lambda>bs. Ok (Indirect 0 bs, set16 18 1 d, data, m)))))"

definition add_node :: "nat \<Rightarrow> nat \<Rightarrow> u8 list \<times> 'b admin_scheme \<Rightarrow> (u8 list \<times> 'b admin_scheme) res" where
  "add_node p i = (\<lambda>(data, m). andThen (put_in (8 + 24 * i + 4) (le_bytes 4 (last_returned_node m)) data) (\<lambda>data.
     Ok (data, m\<lparr>sched_nodes := (sched_nodes m)(last_returned_node m \<mapsto> (p, 8 + 24 * i, length data)),
       last_returned_node := last_returned_node m + 1\<rparr>)))"

definition cmd_add_sched :: "nat \<Rightarrow> u8 list \<Rightarrow> u8 list \<Rightarrow> 'b admin_scheme \<Rightarrow> ('b admin_scheme) outcome" where
  "cmd_add_sched p d data m =
     andThen (get_in 4 2 data) (\<lambda>n.
     andThen (rfold (add_node p) [0..<unat (le_word n :: u16)] (data, m)) (\<lambda>(data, m). echo (set16 18 1 d) data m))"

definition cmd_dis_txqs :: "u8 list \<Rightarrow> u8 list \<Rightarrow> 'm \<Rightarrow> 'm outcome" where
  "cmd_dis_txqs d data m = andThen (put_in 4 [1] data) (\<lambda>data. echo d data m)"

text \<open>The rule that a buffer holds: type, recipe, action and header of a lookup rule.\<close>

definition rule_of :: "u8 list \<Rightarrow> ice_aqc_sw_rules_elem" where
  "rule_of data = \<lparr>sw_type = le_field 0 2 data, sw_recipe_id = le_field 4 2 data, sw_act = le_field 8 4 data,
     sw_hdr_len = le_field 14 2 data, sw_hdr = drop 16 data\<rparr>"

definition cmd_add_sw_rules :: "(backend_rule \<Rightarrow> bool) \<Rightarrow> int \<Rightarrow> u8 list \<Rightarrow> u8 list \<Rightarrow> 'b admin_scheme \<Rightarrow> ('b admin_scheme) outcome" where
  "cmd_add_sw_rules backend device_id d data m =
     (if length data < 16 then Fault
      else andThen (add_rule backend device_id (vsi0_first_queue m) (rule_of data) (bcam m, rule_calls m)) (\<lambda>(success, sw, calls).
        echo d (set16 12 0 (set16 6 1 (set16 0 1 data))) (m\<lparr>bcam := sw, rule_calls := calls\<rparr>)))"

text \<open>
  Adding a transmit queue stores its context, sets the request bit of the queue's
  enable register and enables the queue.
\<close>

definition cmd_add_txqs :: "'e admin_env_scheme \<Rightarrow> u8 list \<Rightarrow> u8 list \<Rightarrow> 'b admin_scheme queue_base_scheme \<Rightarrow>
    (('b admin_scheme) queue_base_scheme) outcome" where
  "cmd_add_txqs env d data s = (let m = queue_base.more s in
     andThen (get_in 8 2 data) (\<lambda>id. let idx = le_word id :: u16 in
     andThen (put_in 0 (le_bytes 4 (3 :: u32)) data) (\<lambda>data.
     andThen (put_in 4 [1] data) (\<lambda>data.
     andThen (put_in 12 (le_bytes 4 (last_returned_node m)) data) (\<lambda>data.
     andThen (put_in 40 [5] data) (\<lambda>data.
     andThen (put_in 46 (le_bytes 2 (100 :: u16)) data) (\<lambda>data.
     andThen (put_in 50 (le_bytes 2 (100 :: u16)) data) (\<lambda>data.
     andThen (get_in 16 22 data) (\<lambda>ctx.
       if \<not> unat idx < length (ctx_addr m) then Fault
       else andThen (arr_write r_qtx_ena (unat idx) 1 (l_regs m)) (\<lambda>r.
         andThen (qena_updated env idx False (dev_more (\<lambda>m. m\<lparr>l_regs := r, ctx_addr := (ctx_addr m)[unat idx := ctx]\<rparr>) s))
           (\<lambda>s. echo d data s)))))))))))"

section \<open>The queue\<close>

definition lift_cmd :: "('m \<Rightarrow> 'm outcome) \<Rightarrow> 'm queue_base_scheme \<Rightarrow> ('m queue_base_scheme) outcome" where
  "lift_cmd f s = andThen (f (queue_base.more s)) (\<lambda>(r, d, data, m). Ok (r, d, data, dev_more (\<lambda>_. m) s))"

text \<open>\<open>process\<close>: the command by its opcode; an unknown one succeeds.\<close>

definition admin_command :: "'e admin_env_scheme \<Rightarrow> nat \<Rightarrow> u8 list \<Rightarrow> u8 list \<Rightarrow> 'b admin_scheme queue_base_scheme \<Rightarrow>
    (('b admin_scheme) queue_base_scheme) outcome" where
  "admin_command env p d data s = (let op = aq_opcode d; junk = e_stack env in
     if op = 0x0001 then Ok (Direct 0, cmd_get_ver d, data, s)
     else if op = 0x0008 then Ok (Direct 0, set32 20 180000 d, data, s)
     else if op = 0x0009 then Ok (Direct 0, d, data, s)
     else if op = 0x0110 then Ok (Direct 0, d, data, dev_more (\<lambda>m. m\<lparr>l_regs := scl_write r_gllan_rctl_0 0 (l_regs m)\<rparr>) s)
     else if op = 0x000B \<or> op = 0x000A then lift_cmd (cmd_list_caps d data) s
     else if op = 0x0A05 then Ok (Direct 0, d, data, s)
     else if op = 0x0107 then lift_cmd (cmd_mac_read junk (e_mac env) d data) s
     else if op = 0x0600 then lift_cmd (cmd_phy_caps junk d data) s
     else if op = 0x0607 then lift_cmd (cmd_link_status junk d data) s
     else if op = 0x0200 then lift_cmd (cmd_sw_cfg junk d data) s
     else if op = 0x0C43 then lift_cmd (cmd_pkg_info junk d data) s
     else if op = 0x0B02 then lift_cmd (echo d data) s
     else if op = 0x0B03 then lift_cmd (cmd_set_rss_lut d data) s
     else if op = 0x0208 then lift_cmd (cmd_alloc_res d data) s
     else if op = 0x0210 then lift_cmd (cmd_add_vsi junk d data) s
     else if op = 0x0211 then Ok (Direct 0, d, data, s)
     else if op = 0x0292 then Ok (Direct 0, d, data, s)
     else if op = 0x02A2 then lift_cmd (cmd_remove_sw_rules d data) s
     else if op = 0x0400 then lift_cmd (cmd_dflt_topo d data) s
     else if op = 0x0404 then lift_cmd (cmd_get_sched (desc_ctxs s) d data) s
     else if op = 0x0401 then lift_cmd (cmd_add_sched p d data) s
     else if op = 0x040F then lift_cmd (echo (set16 18 1 d) data) s
     else if op = 0x0412 then lift_cmd (cmd_query_sched_res junk d data) s
     else if op = 0x0C30 then cmd_add_txqs env d data s
     else if op = 0x0C31 then lift_cmd (cmd_dis_txqs d data) s
     else if op = 0x0C40 then lift_cmd (echo (set32 16 0 (set32 20 0 d)) data) s
     else if op = 0x02A0 then lift_cmd (cmd_add_sw_rules (e_backend env) (e_device_id env) d data) s
     else if op = 0x0701 then lift_cmd (cmd_nvm_read d data) s
     else Ok (Direct 0, d, data, s))"

definition admin_finish :: "(dma_op \<Rightarrow> 'a queue_base_scheme \<Rightarrow> 'a queue_base_scheme res) \<Rightarrow> nat \<Rightarrow>
    reply \<times> u8 list \<times> u8 list \<times> 'a queue_base_scheme \<Rightarrow> 'a queue_base_scheme res" where
  "admin_finish iss p = (\<lambda>(reply, d, data, s). let s = upd_ctx p (\<lambda>c. c\<lparr>c_desc := d, c_data := data\<rparr>) s in
     case reply of Direct r \<Rightarrow> desc_complete p r s | Indirect r bs \<Rightarrow> desc_complete_indir iss p r bs s)"

definition admin_process :: "'e admin_env_scheme \<Rightarrow>
    (dma_op \<Rightarrow> 'b admin_scheme queue_base_scheme \<Rightarrow> 'b admin_scheme queue_base_scheme res) \<Rightarrow> nat \<Rightarrow>
    'b admin_scheme queue_base_scheme \<Rightarrow> 'b admin_scheme queue_base_scheme res" where
  "admin_process env iss p s = (let c = desc_ctxs s ! (p mod MAX_ACTIVE_DESCS) in
     andThen (admin_command env p (c_desc c) (c_data c) s) (admin_finish iss p))"

definition admin_prepare :: "(dma_op \<Rightarrow> 'a queue_base_scheme \<Rightarrow> 'a queue_base_scheme res) \<Rightarrow> nat \<Rightarrow> 'a queue_base_scheme \<Rightarrow> 'a queue_base_scheme res" where
  "admin_prepare iss p s = (let d = c_desc (desc_ctxs s ! (p mod MAX_ACTIVE_DESCS)) in
     if bit (aq_flags d) 10 then data_fetch iss p (aq_addr d) (unat (aq_datalen d)) s else prepared p s)"

definition admin_vt :: "'e admin_env_scheme \<Rightarrow> (dma_op \<Rightarrow> 'b admin_scheme queue_base_scheme \<Rightarrow> 'b admin_scheme queue_base_scheme res) \<Rightarrow>
    'b admin_scheme queue_base_scheme vtable" where
  "admin_vt env iss = \<lparr>v_prepare = admin_prepare iss, v_process = admin_process env iss, v_processed = processed,
     v_do_writeback = do_writeback iss, v_interrupt = Ok\<rparr>"

abbreviation admin_iss :: "'e admin_env_scheme \<Rightarrow> dma_op \<Rightarrow> 'b admin_scheme queue_base_scheme \<Rightarrow> 'b admin_scheme queue_base_scheme res" where
  "admin_iss env \<equiv> IssueDma (admin_vt env) (e_fuel env)"

text \<open>\<open>queue_admin_tx::reg_updated\<close>, on the registers that the queue refers to.\<close>

definition admin_reg_updated :: "'e admin_env_scheme \<Rightarrow> 'b admin_scheme queue_base_scheme \<Rightarrow> 'b admin_scheme queue_base_scheme res" where
  "admin_reg_updated env s = (let
     r = l_regs (queue_base.more s);
     reg_len = r_scl r r_pf_atqlen;
     s = s\<lparr>q_base := r_wide r r_pf_atqba, q_len := unat (reg_len AND 0x3FF), reg_head := unat (r_scl r r_pf_atqh),
       reg_tail := unat (r_scl r r_pf_atqt), q_enabled := bit reg_len 31\<rparr> in
     andThen (reg_updated (admin_vt env (admin_iss env)) (admin_iss env) s) (\<lambda>s.
       Ok (dev_more (\<lambda>m. m\<lparr>l_regs := scl_write r_pf_atqh (of_nat (reg_head s)) (l_regs m)\<rparr>) s)))"

section \<open>Commands of a driver are answered\<close>

text \<open>What a command leaves of its descriptor: everything but the length and the parameters.\<close>

definition header_kept :: "u8 list \<Rightarrow> u8 list \<Rightarrow> bool" where
  "header_kept d d' \<longleftrightarrow> length d' = length d \<and> (\<forall>i < 16. i \<noteq> 4 \<and> i \<noteq> 5 \<longrightarrow> d' ! i = d ! i)"

lemma header_kept_refl [simp]: "header_kept d d"
  by (simp add: header_kept_def)

lemma header_kept_put:
  assumes "header_kept d e" "off + length bs \<le> length d" "16 \<le> off \<or> off = 4 \<and> length bs = 2" "16 \<le> length d"
  shows "header_kept d (put_bytes off bs e)"
  using assms by (auto simp: header_kept_def nth_put_bytes)

lemma header_kept_set16: "header_kept d e \<Longrightarrow> off + 2 \<le> length d \<Longrightarrow> 16 \<le> off \<or> off = 4 \<Longrightarrow> 16 \<le> length d \<Longrightarrow> header_kept d (set16 off v e)"
  unfolding set16_def by (rule header_kept_put) auto

lemma header_kept_set32: "header_kept d e \<Longrightarrow> off + 4 \<le> length d \<Longrightarrow> 16 \<le> off \<Longrightarrow> 16 \<le> length d \<Longrightarrow> header_kept d (set32 off v e)"
  unfolding set32_def by (rule header_kept_put) auto

lemmas header_kept_intros = header_kept_refl header_kept_set16 header_kept_set32 header_kept_put

text \<open>An outcome that keeps the header and the size of the buffer.\<close>

definition answered :: "u8 list \<Rightarrow> u8 list \<Rightarrow> 'm outcome \<Rightarrow> bool" where
  "answered d data r \<longleftrightarrow> (\<exists>reply d' data' m'. r = Ok (reply, d', data', m') \<and> header_kept d d' \<and> length data' = length data)"

lemma answeredI: "header_kept d d' \<Longrightarrow> length data' = length data \<Longrightarrow> answered d data (Ok (reply, d', data', m'))"
  by (auto simp: answered_def)

lemma answered_lift: "answered d data (f (queue_base.more s)) \<Longrightarrow> answered d data (lift_cmd f s)"
  by (auto simp: answered_def lift_cmd_def)

lemma get_in_ok [simp]: "off + n \<le> length buf \<Longrightarrow> get_in off n buf = Ok (take n (drop off buf))"
  by (simp add: get_in_def)

lemma put_in_ok [simp]: "off + length bs \<le> length buf \<Longrightarrow> put_in off bs buf = Ok (put_bytes off bs buf)"
  by (simp add: put_in_def)

lemma answered_echo:
  "header_kept d e \<Longrightarrow> unat (aq_datalen e) \<le> length data' \<Longrightarrow> length data' = length data \<Longrightarrow> answered d data (echo e data' m)"
  by (simp add: echo_def answered_def)

lemma length_set16 [simp]: "off + 2 \<le> length d \<Longrightarrow> length (set16 off v d) = length d"
  by (simp add: set16_def)

lemma length_set32 [simp]: "off + 4 \<le> length d \<Longrightarrow> length (set32 off v d) = length d"
  by (simp add: set32_def)

text \<open>
  When the buffer of a command holds what the command looks at.  Adding a transmit
  queue is left out: it starts the queue, which may do anything that the queue's
  descriptors say.
\<close>

definition node_intact :: "desc_ctx list \<Rightarrow> (nat \<times> nat \<times> nat) option \<Rightarrow> bool" where
  "node_intact ctxs ptr = (case ptr of None \<Rightarrow> True
     | Some (q, off, cap) \<Rightarrow> q < length ctxs \<and> length (c_data (ctxs ! q)) = cap \<and> off + 24 \<le> cap)"

definition cmd_fits :: "desc_ctx list \<Rightarrow> u8 list \<Rightarrow> u8 list \<Rightarrow> 'b admin_scheme \<Rightarrow> bool" where
  "cmd_fits ctxs d data m \<longleftrightarrow> (let op = aq_opcode d; n = length data; dl = unat (aq_datalen d) in
     if op = 0x0208 then dl \<le> n \<and> 2 \<le> n \<and> 4 + 2 * unat (le_field 16 2 d :: u16) \<le> n
     else if op = 0x02A2 then 14 \<le> n \<and> min 102 dl \<le> n
     else if op = 0x0404 then 24 \<le> n \<and> node_intact ctxs (sched_nodes m (le_field 4 4 data))
     else if op = 0x0401 then 8 + 24 * unat (le_field 4 2 data :: u16) \<le> n \<and> dl \<le> n
     else if op = 0x0C31 then 5 \<le> n \<and> dl \<le> n
     else if op = 0x02A0 then 72 \<le> n \<and> dl \<le> n \<and> recipies (bcam m) = [recipe1]
     else if op \<in> {0x0B02, 0x0B03, 0x040F, 0x0C40} then dl \<le> n
     else op \<noteq> 0x0C30)"

lemma datalen_params [simp]:
  "16 \<le> off \<Longrightarrow> off + 2 \<le> length d \<Longrightarrow> aq_datalen (set16 off v d) = aq_datalen d"
  "16 \<le> off \<Longrightarrow> off + 4 \<le> length d \<Longrightarrow> aq_datalen (set32 off w d) = aq_datalen d"
  by (auto simp: aq_datalen_def le_field_def set16_def set32_def put_bytes_def drop_append drop_take min_def)

lemma answered_alloc_res:
  assumes "unat (aq_datalen d) \<le> length data" "2 \<le> length data" "4 + 2 * unat (le_field 16 2 d :: u16) \<le> length data"
  shows "answered d data (cmd_alloc_res d data m)"
proof -
  let ?f = "\<lambda>i data. andThen (get_in 0 2 data) (\<lambda>ty.
         if (le_word ty :: u16) AND 0x7F \<in> set res_types then put_in (4 + 2 * i) (le_bytes 2 (of_nat i :: u16)) data else Ok data)"
  have "\<exists>data'. rfold ?f [0..<n] data = Ok data' \<and> length data' = length data" if "4 + 2 * n \<le> length data" for n
    using that
  proof (induction n)
    case (Suc n)
    then show ?case using assms(2) by (auto simp: rfold_append)
  qed simp
  from this [OF assms(3)] obtain data' where "rfold ?f [0..<unat (le_field 16 2 d :: u16)] data = Ok data'" "length data' = length data"
    by blast
  then show ?thesis using assms(1) by (simp add: cmd_alloc_res_def answered_echo)
qed

lemma add_nodes_run:
  assumes "8 + 24 * n \<le> length data"
  shows "\<exists>data' m'. rfold (add_node p) [0..<n] (data, m) = Ok (data', m') \<and> length data' = length data"
  using assms
proof (induction n)
  case (Suc n)
  then show ?case by (auto simp: rfold_append add_node_def)
qed simp

lemma answered_add_sched:
  assumes "length d = 32" "8 + 24 * unat (le_field 4 2 data :: u16) \<le> length data" "unat (aq_datalen d) \<le> length data"
  shows "answered d data (cmd_add_sched p d data m)"
proof -
  obtain data' m' where "rfold (add_node p) [0..<unat (le_field 4 2 data :: u16)] (data, m) = Ok (data', m')" "length data' = length data"
    using add_nodes_run [OF assms(2), of p m] by blast
  then show ?thesis using assms
    by (auto simp: cmd_add_sched_def le_field_def intro!: answered_echo header_kept_intros)
qed

lemma answered_get_sched:
  assumes "length d = 32" "24 \<le> length data" "node_intact ctxs (sched_nodes m (le_field 4 4 data))"
  shows "answered d data (cmd_get_sched ctxs d data m)"
proof -
  let ?n = "le_field 4 4 data :: u32"
  have "\<exists>data'. (case fst (static_node ?n) of None \<Rightarrow> Ok data
       | Some (parent, ty) \<Rightarrow> andThen (put_in 0 (le_bytes 4 parent) data) (put_in 8 [ty])) = Ok data' \<and> length data' = length data"
    using assms(2) by (auto split: option.split)
  then obtain data' where d': "(case fst (static_node ?n) of None \<Rightarrow> Ok data
       | Some (parent, ty) \<Rightarrow> andThen (put_in 0 (le_bytes 4 parent) data) (put_in 8 [ty])) = Ok data'" "length data' = length data" by blast
  have "\<exists>e. sched_deref ctxs ptr = Ok e \<and> length e = 24" if "sched_nodes m ?n = Some ptr" for ptr
    using assms(3) that by (cases ptr) (auto simp: node_intact_def sched_deref_def)
  then have "\<exists>data''. (if snd (static_node ?n) then
          (case sched_nodes m ?n of None \<Rightarrow> Ok data' | Some ptr \<Rightarrow> andThen (sched_deref ctxs ptr) (\<lambda>e. put_in 0 e data'))
        else Ok data') = Ok data'' \<and> length data'' = length data"
    using assms(2) d'(2) by (cases "sched_nodes m ?n") auto
  then obtain data'' where d'': "(if snd (static_node ?n) then
          (case sched_nodes m ?n of None \<Rightarrow> Ok data' | Some ptr \<Rightarrow> andThen (sched_deref ctxs ptr) (\<lambda>e. put_in 0 e data'))
        else Ok data') = Ok data''" "length data'' = length data" by blast
  have "cmd_get_sched ctxs d data m = Ok (Indirect 0 (take 24 data''), set16 18 1 d, data'', m)"
    using assms(2) d' d'' by (cases "snd (static_node ?n)") (simp_all add: cmd_get_sched_def Let_def flip: le_field_def)
  then show ?thesis using d''(2) assms(1) by (auto intro!: answeredI header_kept_intros)
qed

lemma add_rule_total:
  assumes "recipies sw = [recipe1]" "56 \<le> length (sw_hdr e)"
  shows "\<exists>b sw' calls'. add_rule backend device_id v e (sw, calls) = Ok (b, sw', calls') \<and> recipies sw' = [recipe1]"
  using assms by (auto simp: add_rule_def Let_def add_switch_etype_rule_def)

lemma answered_add_sw_rules:
  assumes "72 \<le> length data" "unat (aq_datalen d) \<le> length data" "recipies (bcam m) = [recipe1]"
  shows "answered d data (cmd_add_sw_rules backend device_id d data m)"
proof -
  have "56 \<le> length (sw_hdr (rule_of data))" using assms(1) by (simp add: rule_of_def)
  from add_rule_total [OF assms(3) this, of backend device_id "vsi0_first_queue m" "rule_calls m"]
  obtain b sw calls where "add_rule backend device_id (vsi0_first_queue m) (rule_of data) (bcam m, rule_calls m) = Ok (b, sw, calls)"
    by blast
  then show ?thesis using assms by (auto simp: cmd_add_sw_rules_def intro!: answered_echo)
qed

lemmas const_cmd_defs = cmd_list_caps_def cmd_mac_read_def cmd_phy_caps_def cmd_link_status_def cmd_sw_cfg_def cmd_pkg_info_def
  cmd_add_vsi_def cmd_query_sched_res_def cmd_nvm_read_def cmd_dflt_topo_def cmd_get_ver_def

lemma answered_const:
  assumes "length d = 32"
  shows "answered d data (cmd_list_caps d data m)" "answered d data (cmd_mac_read junk mac d data m)"
    "answered d data (cmd_phy_caps junk d data m)" "answered d data (cmd_link_status junk d data m)"
    "answered d data (cmd_sw_cfg junk d data m)" "answered d data (cmd_pkg_info junk d data m)"
    "answered d data (cmd_add_vsi junk d data m)" "answered d data (cmd_query_sched_res junk d data m)"
    "answered d data (cmd_nvm_read d data m)" "header_kept d (cmd_get_ver d)"
  using assms by (auto simp: const_cmd_defs Let_def intro!: answeredI header_kept_intros)

lemma answered_dflt_topo: "length d = 32 \<Longrightarrow> answered d data (cmd_dflt_topo d data m)"
  by (auto simp: cmd_dflt_topo_def Let_def intro!: answeredI header_kept_intros)

lemma answered_buffer:
  assumes "length d = 32"
  shows "14 \<le> length data \<Longrightarrow> min 102 (unat (aq_datalen d)) \<le> length data \<Longrightarrow> answered d data (cmd_remove_sw_rules d data m)"
    "5 \<le> length data \<Longrightarrow> unat (aq_datalen d) \<le> length data \<Longrightarrow> answered d data (cmd_dis_txqs d data m)"
    "unat (aq_datalen d) \<le> length data \<Longrightarrow> answered d data (cmd_set_rss_lut d data m')"
    "unat (aq_datalen d) \<le> length data \<Longrightarrow> answered d data (echo (set16 18 1 d) data m)"
    "unat (aq_datalen d) \<le> length data \<Longrightarrow> answered d data (echo (set32 16 0 (set32 20 0 d)) data m)"
    "unat (aq_datalen d) \<le> length data \<Longrightarrow> answered d data (echo d data m)"
  using assms by (auto simp: cmd_remove_sw_rules_def cmd_dis_txqs_def cmd_set_rss_lut_def intro!: answered_echo answeredI header_kept_intros)

lemma command_answered:
  assumes "length d = 32" "cmd_fits (desc_ctxs s) d data (queue_base.more s)"
  shows "answered d data (admin_command env p d data s)"
proof -
  note h = answered_lift answered_alloc_res answered_add_sched answered_get_sched answered_add_sw_rules answered_dflt_topo
    answered_const answered_buffer answeredI header_kept_intros
  show ?thesis using assms unfolding admin_command_def cmd_fits_def Let_def
    by (auto intro!: h split: if_splits)
qed

text \<open>The completed descriptor.\<close>

lemma le_field_set16: "off + 2 \<le> length d \<Longrightarrow> le_field off 2 (set16 off v d) = v"
  by (simp add: le_field_def set16_def put_bytes_def le_word_le_bytes)

lemma le_field_set16_other: "off + 2 \<le> a \<or> a + n \<le> off \<Longrightarrow> off + 2 \<le> length d \<Longrightarrow> le_field a n (set16 off v d) = le_field a n d"
  by (simp add: le_field_def set16_def window_put_bytes)

lemma compl_flags: "16 \<le> length d \<Longrightarrow> aq_flags (desc_compl_prepare r d) =
    (aq_flags d AND NOT 0x1FF) OR 3 OR (if r \<noteq> 0 then 4 else 0)"
  by (simp add: aq_flags_def desc_compl_prepare_def Let_def le_field_set16 le_field_set16_other or.assoc)

lemma completion_bits:
  assumes "length d = 32"
  defines "c r \<equiv> desc_compl_prepare r d"
  shows "aq_retval (c r) = r" "aq_opcode (c r) = aq_opcode d" "bit (aq_flags (c r)) 0" "bit (aq_flags (c r)) 1"
    "bit (aq_flags (c r)) 2 \<longleftrightarrow> r \<noteq> 0" "take 8 (drop 8 (c r)) = take 8 (drop 8 d)"
proof -
  show "aq_retval (c r) = r" using assms(1)
    by (simp add: c_def aq_retval_def desc_compl_prepare_def Let_def le_field_set16)
  show "aq_opcode (c r) = aq_opcode d" using assms(1)
    by (simp add: c_def aq_opcode_def desc_compl_prepare_def Let_def le_field_set16_other)
  show "bit (aq_flags (c r)) 0" "bit (aq_flags (c r)) 1" "bit (aq_flags (c r)) 2 \<longleftrightarrow> r \<noteq> 0" using assms(1)
    by (simp_all add: c_def compl_flags bit_simps)
  show "take 8 (drop 8 (c r)) = take 8 (drop 8 d)" using assms(1)
    by (simp add: c_def desc_compl_prepare_def Let_def set16_def put_bytes_def drop_append take_append)
qed

lemma header_kept_cookie:
  assumes "header_kept d e" "length d = 32"
  shows "aq_opcode e = aq_opcode d" "take 8 (drop 8 e) = take 8 (drop 8 d)"
proof -
  have n: "e ! i = d ! i" if "i < 16" "i \<noteq> 4" "i \<noteq> 5" for i using assms that by (simp add: header_kept_def)
  have l: "length e = 32" using assms by (simp add: header_kept_def)
  have "take 2 (drop 2 e) = take 2 (drop 2 d)" using l assms(2) n by (intro nth_equalityI) auto
  then show "aq_opcode e = aq_opcode d" by (simp add: aq_opcode_def le_field_def)
  show "take 8 (drop 8 e) = take 8 (drop 8 d)" using l assms(2) n by (intro nth_equalityI) auto
qed


definition demo_admin :: "admin queue_base_scheme" where
  "demo_admin = \<lparr>q_vfu = q_vfu demo_rx, q_mem = (\<lambda>_. 0), q_events = [], desc_ctxs = [], active_first_pos = 0, active_first_idx = 0,
     active_cnt = 0, q_base = 0, q_len = 0, reg_head = 0, reg_tail = 0, q_enabled = False, desc_len = 32,
     \<dots> = \<lparr>l_regs = demo_regs, l_ptp = ptp_init, rxqs = [demo_rx, demo_rx], txqs = [], rss_kc = rss_key_cache_init (replicate 13 0),
       bcam = switch_init, ctx_addr = [], vsi0_first_queue = 0,
       sched_nodes = Map.empty, last_returned_node = 60, topo_elem = replicate 200 0, rule_calls = []\<rparr>\<rparr>"

definition demo_admin_env :: admin_env where
  "demo_admin_env = lan_env.extend demo_env \<lparr>e_backend = (\<lambda>_. True), e_device_id = 0, e_mac = 0, e_stack = (\<lambda>_. 0)\<rparr>"

text \<open>A request to add one scheduler node.\<close>

definition demo_cmd :: "u8 list" where
  "demo_cmd = [0, 4, 0x01, 0x04, 32, 0] @ replicate 26 0"

definition demo_nodes :: "u8 list" where
  "demo_nodes = [5, 0, 0, 0, 1, 0, 0, 0] @ replicate 24 7"


section \<open>Scheduler nodes\<close>

definition node_at :: "nat \<Rightarrow> u8 list \<Rightarrow> u8 list" where
  "node_at i data = take 24 (drop (8 + 24 * i) data)"

lemma set32_node_at:
  "8 + 24 * n \<le> length data \<Longrightarrow> i < n \<Longrightarrow> node_at i (put_bytes (8 + 24 * i + 4) (le_bytes 4 v) data) = set32 4 v (node_at i data)"
  unfolding node_at_def set32_def by (rule take_drop_put_bytes) auto

lemma node_at_other:
  "8 + 24 * n \<le> length data \<Longrightarrow> i < n \<Longrightarrow> i \<noteq> j \<Longrightarrow> node_at j (put_bytes (8 + 24 * i + 4) (le_bytes 4 v) data) = node_at j data"
  unfolding node_at_def by (rule window_put_bytes) auto

text \<open>After adding nodes each has the next free identifier, and the device points to all of them.\<close>

definition nodes_added :: "nat \<Rightarrow> nat \<Rightarrow> u8 list \<Rightarrow> 'b admin_scheme \<Rightarrow> u8 list \<Rightarrow> 'b admin_scheme \<Rightarrow> bool" where
  "nodes_added n p data m data' m' \<longleftrightarrow> length data' = length data \<and> last_returned_node m' = last_returned_node m + of_nat n \<and>
     (\<forall>i. node_at i data' = (if i < n then set32 4 (last_returned_node m + of_nat i) (node_at i data) else node_at i data)) \<and>
     (\<forall>i < n. sched_nodes m' (last_returned_node m + of_nat i) = Some (p, 8 + 24 * i, length data))"

lemma add_nodes_added:
  assumes "8 + 24 * n \<le> length data" "n < 2 ^ 32"
  shows "\<exists>data' m'. rfold (add_node p) [0..<n] (data, m) = Ok (data', m') \<and> nodes_added n p data m data' m'"
  using assms
proof (induction n)
  case 0
  then show ?case by (simp add: nodes_added_def)
next
  case (Suc n)
  then obtain data1 m1 where 1: "rfold (add_node p) [0..<n] (data, m) = Ok (data1, m1)" "nodes_added n p data m data1 m1" by auto
  let ?t = "last_returned_node m1"
  let ?data = "put_bytes (8 + 24 * n + 4) (le_bytes 4 ?t) data1"
  let ?m = "m1\<lparr>sched_nodes := (sched_nodes m1)(?t \<mapsto> (p, 8 + 24 * n, length data1)), last_returned_node := ?t + 1\<rparr>"
  have l: "8 + 24 * Suc n \<le> length data1" and t: "?t = last_returned_node m + of_nat n" using 1(2) Suc.prems by (auto simp: nodes_added_def)
  have r: "rfold (add_node p) [0..<Suc n] (data, m) = Ok (?data, ?m)"
    using 1(1) l by (simp add: rfold_append add_node_def)
  have "(of_nat i :: u32) \<noteq> of_nat n" if "i < n" for i
    using that Suc.prems(2) by (simp add: word_of_nat_eq_iff take_bit_nat_eq_self)
  moreover have "node_at i ?data = (if i = n then set32 4 ?t (node_at i data1) else node_at i data1)" for i
    using l set32_node_at [OF l, of n ?t] node_at_other [OF l, of n i ?t] by auto
  ultimately have "nodes_added (Suc n) p data m ?data ?m"
    using 1(2) l t unfolding nodes_added_def by (auto simp: less_Suc_eq)
  with r show ?case by blast
qed

lemma dynamic_node: "59 < n \<Longrightarrow> static_node n = (None, True)"
  by (auto simp: static_node_def)

text \<open>
  The scheduler nodes that a driver adds can be read back.  When the command that
  adds them has been answered and its buffer is still in its context, a query for
  the identifier that a node was given answers with that node: the bytes that
  the driver sent, with the identifier filled in.
\<close>
theorem sched_node_roundtrip:
  assumes fits: "8 + 24 * unat (le_field 4 2 data :: u16) \<le> length data" "unat (aq_datalen d) \<le> length data" "length d = 32"
    and node: "i < unat (le_field 4 2 data :: u16)" "59 < last_returned_node m + of_nat i"
    and query: "24 \<le> length req" "le_field 4 4 req = last_returned_node m + of_nat i"
  defines "node \<equiv> set32 4 (last_returned_node m + of_nat i) (take 24 (drop (8 + 24 * i) data))"
  shows "\<exists>reply d' data' m'. cmd_add_sched p d data m = Ok (reply, d', data', m') \<and>
    (\<forall>ctxs e. p < length ctxs \<and> c_data (ctxs ! p) = data' \<longrightarrow>
      cmd_get_sched ctxs e req m' = Ok (Indirect 0 node, set16 18 1 e, put_bytes 0 node req, m'))"
proof -
  let ?n = "unat (le_field 4 2 data :: u16)" and ?t = "last_returned_node m + of_nat i"
  have "?n < 2 ^ 32" by (rule less_le_trans [OF unsigned_less]) simp
  from add_nodes_added [OF fits(1) this, of p m] obtain data' m' where
    r: "rfold (add_node p) [0..<?n] (data, m) = Ok (data', m')" and a: "nodes_added ?n p data m data' m'" by blast
  have l: "length data' = length data" "8 + 24 * ?n \<le> length data'" using a fits(1) by (simp_all add: nodes_added_def)
  have "length (take 24 (drop (8 + 24 * i) data)) = 24" using fits(1) node(1) by simp
  then have nl: "length node = 24" by (simp add: node_def)
  have nd: "take 24 (drop (8 + 24 * i) data') = node" "sched_nodes m' ?t = Some (p, 8 + 24 * i, length data')"
    using a node(1) l(1) by (simp_all add: nodes_added_def node_at_def node_def)
  have "\<exists>reply d'. cmd_add_sched p d data m = Ok (reply, d', data', m')"
    using r fits l(1) node(1) by (simp add: cmd_add_sched_def echo_def le_field_def)
  moreover have "cmd_get_sched ctxs e req m' = Ok (Indirect 0 node, set16 18 1 e, put_bytes 0 node req, m')"
    if "p < length ctxs \<and> c_data (ctxs ! p) = data'" for ctxs e
  proof -
    have "sched_deref ctxs (p, 8 + 24 * i, length data') = Ok node" using that nd(1) l(2) node(1) by (simp add: sched_deref_def)
    moreover have "take 24 (put_bytes 0 node req) = node" using nl query(1) by (simp add: put_bytes_def)
    ultimately show ?thesis using query nd(2) nl dynamic_node [OF node(2)]
      by (simp add: cmd_get_sched_def Let_def flip: le_field_def)
  qed
  ultimately show ?thesis by blast
qed

theorem sched_node_roundtrip_witness:
  "\<exists>reply d' data' m'. cmd_add_sched 0 demo_cmd demo_nodes (queue_base.more demo_admin) = Ok (reply, d', data', m') \<and>
    cmd_get_sched [\<lparr>c_state = DESC_EMPTY, c_index = 0, c_desc = [], c_data = data'\<rparr>] demo_cmd (set32 4 60 (replicate 24 0)) m' =
      Ok (Indirect 0 ([7, 7, 7, 7, 60, 0, 0, 0] @ replicate 16 7), set16 18 1 demo_cmd, [7, 7, 7, 7, 60, 0, 0, 0] @ replicate 16 7, m')"
proof -
  have n: "le_field 4 2 demo_nodes = (1 :: u16)" "length demo_nodes = 32" "length demo_cmd = 32" "aq_datalen demo_cmd = 32"
    by (simp_all add: le_field_def demo_nodes_def demo_cmd_def aq_datalen_def)
  have q: "24 \<le> length (set32 4 60 (replicate 24 0))" "le_field 4 4 (set32 4 60 (replicate 24 0)) = (60 :: u32)"
    "last_returned_node (queue_base.more demo_admin) = 60"
    using le_word_le_bytes [of 4 "60 :: u32"] by (simp_all add: set32_def le_field_def put_bytes_def demo_admin_def)
  have b: "set32 4 60 (take 24 (drop 8 demo_nodes)) = [7, 7, 7, 7, 60, 0, 0, 0] @ replicate 16 7"
    "put_bytes 0 ([7, 7, 7, 7, 60, 0, 0, 0] @ replicate 16 7) (set32 4 60 (replicate 24 (0 :: u8))) = [7, 7, 7, 7, 60, 0, 0, 0] @ replicate 16 7"
    by code_simp+
  show ?thesis
    using sched_node_roundtrip [of demo_nodes demo_cmd 0 "queue_base.more demo_admin" "set32 4 60 (replicate 24 0)" 0] n q b
    by fastforce
qed

end
