(* ===== verification/E810_Cqp.thy ===== *)
theory E810_Cqp
  imports E810_Admin "HOL-Library.Sublist"
begin

text \<open>
  The control queue pair of the RDMA engine (\<open>e810_cqp.cc\<close>) and the completion event
  queues (\<open>e810_ceq.cc\<close>).  A doorbell fetches one command of 64 bytes from the guest,
  which is answered by a completion entry of 32 bytes.

  The code leaves some memory uninitialised: two words of most completion entries,
  and the direction of the transfer that fetches the context of the queue pair.
  Their contents are parameters.
\<close>

section \<open>State\<close>

text \<open>A completion event queue: whether it is enabled, and what a command has set.\<close>

record ceq =
  ceq_enabled :: bool
  ceq_base :: u64
  ceq_id :: u32

record e810_dev = admin +
  cqp_enabled :: bool
  cqp_ctx :: "u8 list"
  cqe_base :: u64
  host_cq_pa :: u64
  cqp_desc :: "u8 list"
  cqp_base :: u64
  cqp_cnt :: u32
  ceqs :: "ceq list"

section \<open>Memory and interrupts\<close>

text \<open>Transfers whose completion does nothing more.\<close>

definition dev_read :: "u64 \<Rightarrow> nat \<Rightarrow> 'a queue_base_scheme \<Rightarrow> u8 list res" where
  "dev_read addr n s = andThen (dma_local_addr (q_vfu s) addr (of_nat n)) (\<lambda>local. case local of
     None \<Rightarrow> Abort | Some a \<Rightarrow> Ok (mem_read (q_mem s) a n))"

definition dev_write :: "u64 \<Rightarrow> u8 list \<Rightarrow> 'a queue_base_scheme \<Rightarrow> 'a queue_base_scheme res" where
  "dev_write addr d s = andThen (dma_local_addr (q_vfu s) addr (of_nat (length d))) (\<lambda>local. case local of
     None \<Rightarrow> Abort | Some a \<Rightarrow> Ok (s\<lparr>q_mem := mem_write a d (q_mem s), q_events := q_events s @ [Ev_data addr d]\<rparr>))"

text \<open>\<open>e810_bm::SignalInterrupt\<close>: the throttling interval of the vector, in nanoseconds, and the interrupt.\<close>

definition int_delay :: "e810_regs \<Rightarrow> nat \<Rightarrow> nat \<Rightarrow> u64 res" where
  "int_delay r vec itr =
     (if itr < 3 then andThen (arr_read (r_GLINT_ITR itr) vec r) (\<lambda>d. Ok (ucast d * 2000))
      else if itr = 3 then Ok 0
      else Abort)"

definition SignalInterrupt :: "nat \<Rightarrow> nat \<Rightarrow> 'b lan_scheme queue_base_scheme \<Rightarrow> 'b lan_scheme queue_base_scheme res" where
  "SignalInterrupt vec itr s = andThen (int_delay (l_regs (queue_base.more s)) vec itr) (\<lambda>_. msix_issue vec itr s)"

section \<open>Completion event queues\<close>

text \<open>\<open>FIELD_GET\<close> and \<open>FIELD_PREP\<close> with \<open>GENMASK_ULL (h, l)\<close>.\<close>

definition GENMASK_ULL :: "nat \<Rightarrow> nat \<Rightarrow> u64" where
  "GENMASK_ULL h l = push_bit l (mask (Suc h - l))"

definition FIELD_GET :: "u64 \<Rightarrow> nat \<Rightarrow> u64 \<Rightarrow> u64" where
  "FIELD_GET msk l reg = drop_bit l (reg AND msk)"

definition FIELD_PREP :: "u64 \<Rightarrow> nat \<Rightarrow> u64 \<Rightarrow> u64" where
  "FIELD_PREP msk l v = push_bit l v AND msk"

text \<open>\<open>enable\<close> returns at once unless the queue is enabled already.\<close>

definition ceq_enable :: "ceq \<Rightarrow> ceq" where
  "ceq_enable c = (if \<not> ceq_enabled c then c else c\<lparr>ceq_enabled := True\<rparr>)"

definition ceq_disable :: "ceq \<Rightarrow> ceq" where
  "ceq_disable c = c\<lparr>ceq_enabled := False\<rparr>"

definition upd_ceq :: "nat \<Rightarrow> (ceq \<Rightarrow> ceq) \<Rightarrow> 'b e810_dev_scheme \<Rightarrow> 'b e810_dev_scheme" where
  "upd_ceq i f m = m\<lparr>ceqs := (ceqs m)[i := f (ceqs m ! i)]\<rparr>"

definition cem_reset :: "'b e810_dev_scheme \<Rightarrow> 'b e810_dev_scheme" where
  "cem_reset m = m\<lparr>ceqs := map ceq_disable (ceqs m)\<rparr>"

text \<open>\<open>completion_event_manager::qena_updated\<close>, with the fields of the control register.\<close>

definition ceq_msix :: "u32 \<Rightarrow> nat" where
  "ceq_msix int_ctl_reg = unat (0x7FF AND FIELD_GET (GENMASK_ULL 10 0) 0 (ucast int_ctl_reg))"

definition ceq_itr :: "u32 \<Rightarrow> nat" where
  "ceq_itr int_ctl_reg = unat (0x3 AND FIELD_GET (GENMASK_ULL 12 11) 11 (ucast int_ctl_reg))"

definition cem_qena_updated :: "u16 \<Rightarrow> 'b e810_dev_scheme queue_base_scheme \<Rightarrow> 'b e810_dev_scheme queue_base_scheme res" where
  "cem_qena_updated idx s = (let m = queue_base.more s; i = unat idx in
     andThen (arr_read r_pfint_dyn_ctln i (l_regs m)) (\<lambda>int_dyn_reg.
     andThen (arr_read r_glint_ceqctl i (l_regs m)) (\<lambda>int_ctl_reg. let
       msix_idx = ceq_msix int_ctl_reg;
       itr_index = ceq_itr int_ctl_reg;
       dyn_ena = bit int_dyn_reg 0;
       cause_ena = (FIELD_GET (GENMASK_ULL 30 30) 30 (ucast int_ctl_reg) \<noteq> 0) in
       if \<not> i < length (ceqs m) then Fault
       else if \<not> cause_ena \<or> \<not> dyn_ena then Ok s
       else if \<not> ceq_enabled (ceqs m ! i) then SignalInterrupt msix_idx itr_index (dev_more (upd_ceq i ceq_enable) s)
       else SignalInterrupt msix_idx itr_index
         (if msix_idx = 0 then dev_more (\<lambda>m. m\<lparr>l_regs := scl_write r_pfint_icr0 (r_scl (l_regs m) r_pfint_icr0 OR (1 OR push_bit 2 1)) (l_regs m)\<rparr>) s
          else s))))"

section \<open>Control queue pair\<close>

text \<open>\<open>get_64bit_val\<close> on the command.\<close>

definition cqp_val :: "nat \<Rightarrow> 'b e810_dev_scheme \<Rightarrow> u64" where
  "cqp_val off m = le_field off 8 (cqp_desc m)"

text \<open>A completion entry: what was in the first and third word, the address of the host queue, and index and polarity.\<close>

definition cqe_word :: "u32 \<Rightarrow> u8 \<Rightarrow> u64" where
  "cqe_word tail polarity = FIELD_PREP (GENMASK_ULL 46 32) 32 (ucast tail) OR FIELD_PREP (GENMASK_ULL 63 63) 63 (ucast polarity)"

definition cqe_bytes :: "(nat \<Rightarrow> u8) \<Rightarrow> u64 \<Rightarrow> u32 \<Rightarrow> u8 \<Rightarrow> u8 list" where
  "cqe_bytes junk host tail polarity = map junk [0..<8] @ le_bytes 8 host @ map (\<lambda>i. junk (16 + i)) [0..<8]
     @ le_bytes 8 (cqe_word tail polarity)"

definition cqp_post :: "(nat \<Rightarrow> u8) \<Rightarrow> u8 \<Rightarrow> 'b e810_dev_scheme queue_base_scheme \<Rightarrow> 'b e810_dev_scheme queue_base_scheme res" where
  "cqp_post junk polarity s = (let m = queue_base.more s in
     dev_write (cqp_base m + ucast (cqp_cnt m * 32)) (cqe_bytes junk (host_cq_pa m) (r_scl (l_regs m) r_PFPE_CQPTAIL) polarity) s)"

definition cqp_count :: "'b e810_dev_scheme queue_base_scheme \<Rightarrow> 'b e810_dev_scheme queue_base_scheme" where
  "cqp_count = dev_more (\<lambda>m. m\<lparr>cqp_cnt := cqp_cnt m + 1\<rparr>)"

text \<open>The answer to a query of the function's private memory.\<close>

definition fpm_words :: "u64 list" where
  "fpm_words = (replicate 22 0)[
     0 := FIELD_PREP (GENMASK_ULL 45 32) 32 4096,
     1 := push_bit 32 1 OR FIELD_PREP (GENMASK_ULL 18 0) 0 0x00040000,
     2 := push_bit 32 1 OR FIELD_PREP (GENMASK_ULL 19 0) 0 0x00080000,
     8 := FIELD_PREP (GENMASK_ULL 63 32) 32 64,
     9 := 0x00040000,
     10 := FIELD_PREP (GENMASK_ULL 63 32) 32 64,
     14 := 0x10000000,
     15 := FIELD_PREP (GENMASK_ULL 9 0) 0 768,
     17 := FIELD_PREP (GENMASK_ULL 63 32) 32 64,
     21 := FIELD_PREP (GENMASK_ULL 63 32) 32 64 OR 1]"

definition cqp_ceq :: "'b e810_dev_scheme \<Rightarrow> u16" where
  "cqp_ceq m = ucast (FIELD_GET (GENMASK_ULL 9 0) 0 (cqp_val 24 m))"

definition cqp_create_cq :: "'b e810_dev_scheme queue_base_scheme \<Rightarrow> 'b e810_dev_scheme queue_base_scheme res" where
  "cqp_create_cq s = (let
     m = queue_base.more s;
     cq_id = cqp_val 24 m AND 0x3FFFF;
     s = (if cq_id > 0 then s else dev_more (\<lambda>m. m\<lparr>cqp_base := cqp_val 32 m, cqp_cnt := 0\<rparr>) s) in
     andThen (cqp_post (\<lambda>_. 0) (ucast (FIELD_GET (GENMASK_ULL 63 63) 63 (cqp_val 24 m))) s) (\<lambda>s.
     andThen (if cq_id > 1 then cem_qena_updated (cqp_ceq m) s else Ok s) (\<lambda>s. Ok (cqp_count s))))"

definition cqp_create_ceq :: "(nat \<Rightarrow> u8) \<Rightarrow> 'b e810_dev_scheme queue_base_scheme \<Rightarrow> 'b e810_dev_scheme queue_base_scheme res" where
  "cqp_create_ceq junk s = (let m = queue_base.more s; i = unat (cqp_ceq m) in
     andThen (dev_write (cqp_val 32 m) (replicate 32 0) s) (\<lambda>s.
     andThen (cqp_post junk 1 s) (\<lambda>s.
     andThen (cem_qena_updated (cqp_ceq m) s) (\<lambda>s.
     if \<not> i < length (ceqs (queue_base.more s)) then Fault
     else Ok (cqp_count (dev_more (upd_ceq i (\<lambda>c. c\<lparr>ceq_base := cqp_val 32 m, ceq_id := ucast (cqp_ceq m)\<rparr>)) s))))))"

text \<open>\<open>admin_desc_ctx::process\<close>, by opcode; the tail advances for every command.\<close>

definition cqp_command :: "(nat \<Rightarrow> u8) \<Rightarrow> 'b e810_dev_scheme queue_base_scheme \<Rightarrow> 'b e810_dev_scheme queue_base_scheme res" where
  "cqp_command junk s = (let m = queue_base.more s; opcode = FIELD_GET (GENMASK_ULL 37 32) 32 (cqp_val 24 m) in
     if opcode = 0x20 then dev_write (cqp_val 32 m) (concat (map (le_bytes 8) fpm_words)) s
     else if opcode = 0x2B then Ok s
     else if opcode = 0x03 then cqp_create_cq s
     else if opcode = 0x12 then
       andThen (dev_write (cqp_val 32 m) (le_bytes 8 (FIELD_PREP (GENMASK_ULL 47 32) 32 26) @ replicate 24 0) s) (\<lambda>s.
       andThen (cqp_post junk 1 s) (\<lambda>s. Ok (cqp_count s)))
     else if opcode = 0x16 then cqp_create_ceq junk s
     else if opcode = 0x19 then
       andThen (dev_write (cqp_val 32 m) (replicate 32 0) s) (\<lambda>s.
       andThen (cqp_post junk 1 s) (\<lambda>s. Ok (cqp_count s)))
     else if opcode = 0x2E then andThen (cqp_post junk 1 s) (\<lambda>s. Ok (cqp_count s))
     else if opcode = 0x00 \<or> opcode = 0x2C \<or> opcode = 0x01 then
       andThen (cqp_post junk 1 s) (\<lambda>s. andThen (cem_qena_updated (cqp_ceq m) s) (\<lambda>s. Ok (cqp_count s)))
     else Ok s)"

definition cqp_process :: "(nat \<Rightarrow> u8) \<Rightarrow> 'b e810_dev_scheme queue_base_scheme \<Rightarrow> 'b e810_dev_scheme queue_base_scheme res" where
  "cqp_process junk s = andThen (cqp_command junk s) (\<lambda>s.
     Ok (dev_more (\<lambda>m. m\<lparr>l_regs := scl_write r_PFPE_CQPTAIL (r_scl (l_regs m) r_PFPE_CQPTAIL + 1) (l_regs m)\<rparr>) s))"

definition cqe_fetch_done :: "(nat \<Rightarrow> u8) \<Rightarrow> u8 list \<Rightarrow> 'b e810_dev_scheme queue_base_scheme \<Rightarrow> 'b e810_dev_scheme queue_base_scheme res" where
  "cqe_fetch_done junk data s = cqp_process junk (dev_more (\<lambda>m. m\<lparr>cqp_desc := put_bytes 0 data (cqp_desc m)\<rparr>) s)"

text \<open>\<open>reg_updated\<close> down to \<open>trigger_fetch\<close>: one command per doorbell.\<close>

definition cqp_reg_updated :: "(nat \<Rightarrow> u8) \<Rightarrow> 'b e810_dev_scheme queue_base_scheme \<Rightarrow> 'b e810_dev_scheme queue_base_scheme res" where
  "cqp_reg_updated junk s = (let m = queue_base.more s in
     if \<not> cqp_enabled m then Ok s
     else andThen (dev_read (cqe_base m + ucast (r_scl (l_regs m) r_PFPE_CQPTAIL * 64)) 64 s) (\<lambda>data. cqe_fetch_done junk data s))"

text \<open>
  \<open>create_cqp\<close>.  The code does not set the direction of the transfer, \<open>wr\<close>; when it
  happens to be a write, the guest gets the uninitialised buffer, from which
  the context is then taken.
\<close>

definition cqp_ctx_fetched :: "u8 list \<Rightarrow> 'b e810_dev_scheme \<Rightarrow> 'b e810_dev_scheme" where
  "cqp_ctx_fetched data m = m\<lparr>cqp_ctx := data, cqe_base := le_field 8 8 data, host_cq_pa := le_field 24 8 data\<rparr>"

definition cqp_started :: "e810_regs \<Rightarrow> e810_regs" where
  "cqp_started r = (let r = scl_write r_PFPE_CQPTAIL 0 r in
     scl_write r_PFPE_CCQPSTATUS (if r_scl r r_PFPE_CCQPLOW = 0 then push_bit 31 1 else 1) r)"

definition create_cqp :: "bool \<Rightarrow> (nat \<Rightarrow> u8) \<Rightarrow> 'b e810_dev_scheme queue_base_scheme \<Rightarrow> 'b e810_dev_scheme queue_base_scheme res" where
  "create_cqp wr junk s = (let
     m = queue_base.more s;
     high = r_scl (l_regs m) r_PFPE_CCQPHIGH;
     low = r_scl (l_regs m) r_PFPE_CCQPLOW;
     base = push_bit 32 (ucast high) OR ucast low in
     if high = 0 \<and> low = 0 \<or> cqp_enabled m then Ok s
     else andThen (if wr then andThen (dev_write base (map junk [0..<64]) s) (\<lambda>s. Ok (map junk [0..<64], s))
                   else andThen (dev_read base 64 s) (\<lambda>data. Ok (data, s))) (\<lambda>(data, s).
       Ok (dev_more (\<lambda>m. (cqp_ctx_fetched data m)\<lparr>cqp_enabled := True, l_regs := cqp_started (l_regs m)\<rparr>) s)))"

section \<open>Completions are in order\<close>

text \<open>Interrupts of the completion event queues name vectors that exist.\<close>

definition deliverable :: "'b e810_dev_scheme \<Rightarrow> bool" where
  "deliverable m \<longleftrightarrow> regs_ok (l_regs m) \<and> length (ceqs m) = NUM_QUEUES \<and>
     (\<forall>ctl \<in> set (r_arr (l_regs m) r_glint_ceqctl). ceq_msix ctl mod 256 < NUM_MSIX_IRQs)"

text \<open>What the work besides a completion keeps.\<close>

definition cqp_kept :: "'b e810_dev_scheme queue_base_scheme \<Rightarrow> 'b e810_dev_scheme queue_base_scheme \<Rightarrow> bool" where
  "cqp_kept s s' \<longleftrightarrow> (let m = queue_base.more s; m' = queue_base.more s' in
     host_cq_pa m' = host_cq_pa m \<and> cqp_base m' = cqp_base m \<and> cqp_cnt m' = cqp_cnt m \<and> cqp_desc m' = cqp_desc m \<and>
     r_scl (l_regs m') r_PFPE_CQPTAIL = r_scl (l_regs m) r_PFPE_CQPTAIL \<and> (deliverable m \<longrightarrow> deliverable m') \<and>
     (\<exists>evs. q_events s' = q_events s @ evs))"

lemma cqp_kept_refl [simp]: "cqp_kept s s"
  by (simp add: cqp_kept_def Let_def)

lemma cqp_kept_trans: "cqp_kept s s' \<Longrightarrow> cqp_kept s' s'' \<Longrightarrow> cqp_kept s s''"
  by (auto simp: cqp_kept_def Let_def)

lemma dev_write_event:
  "safe (dev_write addr d s) (\<lambda>s'. queue_base.more s' = queue_base.more s \<and> q_events s' = q_events s @ [Ev_data addr d])"
  unfolding dev_write_def dma_local_addr_def using find_mapping_safe [of "rev (mappings (q_vfu s))" addr "of_nat (length d)"]
  by (auto elim!: safe_mono split: option.split)

lemma dev_write_kept: "safe (dev_write addr d s) (cqp_kept s)"
  by (rule safe_mono [OF dev_write_event]) (simp add: cqp_kept_def Let_def)

lemma ceq_fields: "ceq_msix ctl < 2048" "ceq_itr ctl < 4"
proof -
  have m: "unat (0x7FF AND x) \<le> 0x7FF" "unat (0x3 AND x) \<le> 0x3" for x :: u64
    using word_and_le1 [of x "0x7FF"] word_and_le1 [of x 3] by (simp_all add: word_le_nat_alt and.commute)
  show "ceq_msix ctl < 2048" unfolding ceq_msix_def by (rule le_less_trans [OF m(1)]) simp
  show "ceq_itr ctl < 4" unfolding ceq_itr_def by (rule le_less_trans [OF m(2)]) simp
qed

lemma signal_ok:
  assumes "regs_ok (l_regs (queue_base.more s))" "vec < 2048" "itr < 4" "vec mod 256 < NUM_MSIX_IRQs"
  shows "SignalInterrupt vec itr s = Ok (s\<lparr>q_events := q_events s @ [Ev_irq (vec mod 256) itr]\<rparr>)"
  using assms by (auto simp: SignalInterrupt_def int_delay_def arr_read_def regs_ok_def msix_issue_def)

lemma ceqs_never_enabled: "ceq_enabled (ceq_enable c) = ceq_enabled c"
  by (simp add: ceq_enable_def)

lemma qena_kept:
  assumes "deliverable (queue_base.more s)" "unat idx < NUM_QUEUES"
  shows "safe (cem_qena_updated idx s) (cqp_kept s)"
proof -
  let ?m = "queue_base.more s"
  let ?ctl = "r_arr (l_regs ?m) r_glint_ceqctl ! unat idx"
  have l: "length (r_arr (l_regs ?m) r_pfint_dyn_ctln) = 2047" "length (r_arr (l_regs ?m) r_glint_ceqctl) = 2048" "length (ceqs ?m) = 1536"
    and r: "regs_ok (l_regs ?m)" using assms(1) by (auto simp: deliverable_def regs_ok_def)
  then have v: "ceq_msix ?ctl mod 256 < NUM_MSIX_IRQs" using assms by (auto simp: deliverable_def)
  have sig: "safe (SignalInterrupt (ceq_msix ?ctl) (ceq_itr ?ctl) t) (cqp_kept s)" if "cqp_kept s t" for t
  proof -
    have "regs_ok (l_regs (queue_base.more t))" using that assms(1) by (simp add: cqp_kept_def deliverable_def Let_def)
    then show ?thesis using that signal_ok [OF _ ceq_fields v, of t ?ctl] by (auto simp: cqp_kept_def Let_def)
  qed
  have "cqp_kept s (dev_more (upd_ceq (unat idx) ceq_enable) s)"
    by (simp add: cqp_kept_def Let_def upd_ceq_def deliverable_def)
  moreover have "cqp_kept s (dev_more (\<lambda>m. m\<lparr>l_regs := scl_write r_pfint_icr0 (r_scl (l_regs m) r_pfint_icr0 OR (1 OR push_bit 2 1)) (l_regs m)\<rparr>) s)"
    by (simp add: cqp_kept_def Let_def deliverable_def scl_write_def regs_ok_def)
  moreover have "safe (SignalInterrupt (ceq_msix ?ctl) (ceq_itr ?ctl) s) (cqp_kept s)"
    by (simp add: sig)
  ultimately show ?thesis using l assms(2) sig by (auto simp: cem_qena_updated_def Let_def arr_read_def)
qed

text \<open>Commands that are answered by a completion entry, and the entry.\<close>

definition cqp_op :: "u8 list \<Rightarrow> u64" where
  "cqp_op d = FIELD_GET (GENMASK_ULL 37 32) 32 (le_field 24 8 d)"

definition completing :: "u8 list \<Rightarrow> bool" where
  "completing d \<longleftrightarrow> length d = 64 \<and> (cqp_op d \<in> {0x00, 0x01, 0x12, 0x16, 0x19, 0x2C, 0x2E}
     \<or> cqp_op d = 0x03 \<and> (le_field 24 8 d :: u64) AND 0x3FFFF > 0)"

definition cqe_for :: "(nat \<Rightarrow> u8) \<Rightarrow> u64 \<Rightarrow> u32 \<Rightarrow> u8 list \<Rightarrow> u8 list" where
  "cqe_for junk host tail d = (if cqp_op d = 0x03
     then cqe_bytes (\<lambda>_. 0) host tail (ucast (FIELD_GET (GENMASK_ULL 63 63) 63 (le_field 24 8 d)))
     else cqe_bytes junk host tail 1)"

definition posted :: "event \<Rightarrow> 'b e810_dev_scheme queue_base_scheme \<Rightarrow> 'b e810_dev_scheme queue_base_scheme \<Rightarrow> bool" where
  "posted e s s' \<longleftrightarrow> (let m = queue_base.more s; m' = queue_base.more s' in
     host_cq_pa m' = host_cq_pa m \<and> cqp_base m' = cqp_base m \<and> cqp_cnt m' = cqp_cnt m + 1 \<and> cqp_desc m' = cqp_desc m \<and>
     r_scl (l_regs m') r_PFPE_CQPTAIL = r_scl (l_regs m) r_PFPE_CQPTAIL \<and> (deliverable m \<longrightarrow> deliverable m') \<and>
     (\<exists>a b. q_events s' = q_events s @ a @ [e] @ b))"

lemma postedI:
  assumes "cqp_kept s u" "queue_base.more v = queue_base.more u \<and> q_events v = q_events u @ [e]" "cqp_kept v w"
  shows "posted e s (cqp_count w)"
proof -
  obtain a b where "q_events u = q_events s @ a" "q_events w = q_events v @ b" using assms(1,3) by (auto simp: cqp_kept_def Let_def)
  then have "q_events w = q_events s @ a @ [e] @ b" using assms(2) by simp
  then have "q_events (cqp_count w) = q_events s @ a @ [e] @ b" by (simp add: cqp_count_def)
  then have e: "\<exists>a b. q_events (cqp_count w) = q_events s @ a @ [e] @ b" by blast
  have "deliverable (queue_base.more (cqp_count w)) = deliverable (queue_base.more w)" by (simp add: cqp_count_def deliverable_def)
  then have "deliverable (queue_base.more s) \<longrightarrow> deliverable (queue_base.more (cqp_count w))"
    using assms by (auto simp: cqp_kept_def Let_def)
  moreover have "host_cq_pa (queue_base.more (cqp_count w)) = host_cq_pa (queue_base.more s)"
    "cqp_base (queue_base.more (cqp_count w)) = cqp_base (queue_base.more s)"
    "cqp_cnt (queue_base.more (cqp_count w)) = cqp_cnt (queue_base.more s) + 1"
    "cqp_desc (queue_base.more (cqp_count w)) = cqp_desc (queue_base.more s)"
    "r_scl (l_regs (queue_base.more (cqp_count w))) r_PFPE_CQPTAIL = r_scl (l_regs (queue_base.more s)) r_PFPE_CQPTAIL"
    using assms by (auto simp: cqp_kept_def cqp_count_def Let_def)
  ultimately show ?thesis using e unfolding posted_def Let_def by blast
qed

definition cq_entry :: "(nat \<Rightarrow> u8) \<Rightarrow> u8 \<Rightarrow> 'b e810_dev_scheme \<Rightarrow> event" where
  "cq_entry junk polarity m = Ev_data (cqp_base m + ucast (cqp_cnt m * 32))
     (cqe_bytes junk (host_cq_pa m) (r_scl (l_regs m) r_PFPE_CQPTAIL) polarity)"

lemma post_event:
  "safe (cqp_post junk polarity s) (\<lambda>s'. queue_base.more s' = queue_base.more s \<and>
     q_events s' = q_events s @ [cq_entry junk polarity (queue_base.more s)])"
  unfolding cqp_post_def Let_def cq_entry_def by (rule dev_write_event)

lemma cq_entry_kept: "cqp_kept s u \<Longrightarrow> cq_entry junk polarity (queue_base.more u) = cq_entry junk polarity (queue_base.more s)"
  by (simp add: cqp_kept_def cq_entry_def Let_def)

lemma posted_steps:
  assumes "safe r (cqp_kept s)" "deliverable (queue_base.more s)"
    and "\<And>v. deliverable (queue_base.more v) \<Longrightarrow> safe (f v) (cqp_kept v)"
  shows "safe (andThen r (\<lambda>u. andThen (cqp_post junk polarity u) (\<lambda>v. andThen (f v) (\<lambda>w. Ok (cqp_count w)))))
    (posted (cq_entry junk polarity (queue_base.more s)) s)"
  unfolding safe_andThen
proof (rule safe_mono [OF assms(1)])
  fix u assume u: "cqp_kept s u"
  show "safe (cqp_post junk polarity u) (\<lambda>v. safe (f v) (\<lambda>w. safe (Ok (cqp_count w)) (posted (cq_entry junk polarity (queue_base.more s)) s)))"
  proof (rule safe_mono [OF post_event])
    fix v assume v: "queue_base.more v = queue_base.more u \<and> q_events v = q_events u @ [cq_entry junk polarity (queue_base.more u)]"
    have "deliverable (queue_base.more v)" using u v assms(2) by (simp add: cqp_kept_def Let_def)
    from assms(3) [OF this] show "safe (f v) (\<lambda>w. safe (Ok (cqp_count w)) (posted (cq_entry junk polarity (queue_base.more s)) s))"
      using postedI [OF u] v cq_entry_kept [OF u] by (auto elim!: safe_mono)
  qed
qed

lemma cqp_ceq_less: "unat (cqp_ceq m) < NUM_QUEUES"
proof -
  have "unat (FIELD_GET (GENMASK_ULL 9 0) 0 x) \<le> 1023" for x :: u64
    using word_and_le1 [of x "mask 10"] by (simp add: FIELD_GET_def GENMASK_ULL_def word_le_nat_alt mask_eq_exp_minus_1)
  then have "unat (cqp_ceq m) \<le> 1023" unfolding cqp_ceq_def unsigned_ucast_eq take_bit_nat_eq_self_iff
    by (meson order.trans take_bit_nat_less_eq_self)
  then show ?thesis by simp
qed

lemma skip_kept: "safe (Ok s) (cqp_kept s)"
  by simp

lemma create_ceq_kept:
  assumes "deliverable (queue_base.more v)" "unat idx < NUM_QUEUES"
  shows "safe (andThen (cem_qena_updated idx v) (\<lambda>s. if \<not> unat idx < length (ceqs (queue_base.more s)) then Fault
      else Ok (dev_more (upd_ceq (unat idx) f) s))) (cqp_kept v)"
proof -
  have *: "cqp_kept v (dev_more (upd_ceq (unat idx) f) s)" "unat idx < length (ceqs (queue_base.more s))" if "cqp_kept v s" for s
    using that assms by (auto simp: cqp_kept_def Let_def upd_ceq_def deliverable_def)
  show ?thesis using safe_mono [OF qena_kept [OF assms]] * by auto
qed

lemma command_posts:
  assumes "completing (cqp_desc (queue_base.more s))" "deliverable (queue_base.more s)"
  defines "m \<equiv> queue_base.more s"
  shows "safe (cqp_command junk s) (posted (Ev_data (cqp_base m + ucast (cqp_cnt m * 32))
    (cqe_for junk (host_cq_pa m) (r_scl (l_regs m) r_PFPE_CQPTAIL) (cqp_desc m))) s)"
proof -
  let ?d = "cqp_desc m"
  have op: "FIELD_GET (GENMASK_ULL 37 32) 32 (cqp_val 24 m) = cqp_op ?d" by (simp add: cqp_val_def cqp_op_def)
  note q = qena_kept [OF _ cqp_ceq_less [of m]]
  note steps = posted_steps [OF _ assms(2), folded m_def]
  show ?thesis
  proof (cases "cqp_op ?d = 0x03")
    case True
    then have "cqp_val 24 m AND 0x3FFFF > 0" using assms(1) by (simp add: completing_def cqp_val_def m_def)
    then have eq: "cqp_command junk s = andThen (Ok s) (\<lambda>u. andThen (cqp_post (\<lambda>_. 0) (ucast (FIELD_GET (GENMASK_ULL 63 63) 63 (cqp_val 24 m))) u) (\<lambda>v.
        andThen (if cqp_val 24 m AND 0x3FFFF > 1 then cem_qena_updated (cqp_ceq m) v else Ok v) (\<lambda>w. Ok (cqp_count w))))"
      using True op by (simp add: cqp_command_def cqp_create_cq_def Let_def m_def cong: if_cong)
    have e: "Ev_data (cqp_base m + ucast (cqp_cnt m * 32)) (cqe_for junk (host_cq_pa m) (r_scl (l_regs m) r_PFPE_CQPTAIL) ?d) =
        cq_entry (\<lambda>_. 0) (ucast (FIELD_GET (GENMASK_ULL 63 63) 63 (cqp_val 24 m))) m"
      using True by (simp add: cq_entry_def cqe_for_def cqp_val_def)
    have "safe (if cqp_val 24 m AND 0x3FFFF > 1 then cem_qena_updated (cqp_ceq m) v else Ok v) (cqp_kept v)"
      if "deliverable (queue_base.more v)" for v using q [OF that] by simp
    then show ?thesis unfolding eq e by (rule steps [OF skip_kept])
  next
    case False
    have c: "cqe_for junk h t ?d = cqe_bytes junk h t 1" for h t using False by (simp add: cqe_for_def)
    have e: "Ev_data (cqp_base m + ucast (cqp_cnt m * 32)) (cqe_for junk (host_cq_pa m) (r_scl (l_regs m) r_PFPE_CQPTAIL) ?d) = cq_entry junk 1 m"
      by (simp add: cq_entry_def c)
    consider "cqp_op ?d \<in> {0x12, 0x19}" | "cqp_op ?d = 0x16" | "cqp_op ?d = 0x2E" | "cqp_op ?d \<in> {0x00, 0x01, 0x2C}"
      using assms(1) False by (auto simp: completing_def m_def)
    then show ?thesis
    proof cases
      case 1
      then obtain a b where eq: "cqp_command junk s = andThen (dev_write a b s) (\<lambda>u. andThen (cqp_post junk 1 u) (\<lambda>v.
          andThen (Ok v) (\<lambda>w. Ok (cqp_count w))))"
        using op by (auto simp: cqp_command_def Let_def m_def)
      show ?thesis unfolding e eq by (rule steps [OF dev_write_kept skip_kept])
    next
      case 2
      have eq: "cqp_command junk s = andThen (dev_write (cqp_val 32 m) (replicate 32 0) s) (\<lambda>u. andThen (cqp_post junk 1 u) (\<lambda>v.
          andThen (andThen (cem_qena_updated (cqp_ceq m) v) (\<lambda>s. if \<not> unat (cqp_ceq m) < length (ceqs (queue_base.more s)) then Fault
            else Ok (dev_more (upd_ceq (unat (cqp_ceq m)) (\<lambda>c. c\<lparr>ceq_base := cqp_val 32 m, ceq_id := ucast (cqp_ceq m)\<rparr>)) s)))
          (\<lambda>w. Ok (cqp_count w))))"
        using 2 op by (simp add: cqp_command_def cqp_create_ceq_def Let_def m_def andThen_assoc if_distrib [of "\<lambda>r. andThen r _"] cong: if_cong)
      show ?thesis unfolding e eq by (rule steps [OF dev_write_kept create_ceq_kept [OF _ cqp_ceq_less]])
    next
      case 3
      then have eq: "cqp_command junk s = andThen (Ok s) (\<lambda>u. andThen (cqp_post junk 1 u) (\<lambda>v. andThen (Ok v) (\<lambda>w. Ok (cqp_count w))))"
        using op by (simp add: cqp_command_def Let_def m_def)
      show ?thesis unfolding e eq by (rule steps [OF skip_kept skip_kept])
    next
      case 4
      then have eq: "cqp_command junk s = andThen (Ok s) (\<lambda>u. andThen (cqp_post junk 1 u) (\<lambda>v.
          andThen (cem_qena_updated (cqp_ceq m) v) (\<lambda>w. Ok (cqp_count w))))"
        using op by (auto simp: cqp_command_def Let_def m_def)
      show ?thesis unfolding e eq by (rule steps [OF skip_kept q])
    qed
  qed
qed

text \<open>The \<open>i\<close>-th completion entry of a run of commands.\<close>

definition nth_entry :: "(nat \<Rightarrow> u8) \<Rightarrow> 'b e810_dev_scheme \<Rightarrow> u8 list list \<Rightarrow> nat \<Rightarrow> event" where
  "nth_entry junk m ds i = Ev_data (cqp_base m + ucast ((cqp_cnt m + of_nat i) * 32))
     (cqe_for junk (host_cq_pa m) (r_scl (l_regs m) r_PFPE_CQPTAIL + of_nat i) (ds ! i))"

definition cqp_after :: "(nat \<Rightarrow> u8) \<Rightarrow> u8 list list \<Rightarrow> 'b e810_dev_scheme queue_base_scheme \<Rightarrow> nat \<Rightarrow> 'b e810_dev_scheme queue_base_scheme \<Rightarrow> bool" where
  "cqp_after junk ds s i t \<longleftrightarrow> (let m = queue_base.more s; m' = queue_base.more t in
     host_cq_pa m' = host_cq_pa m \<and> cqp_base m' = cqp_base m \<and> cqp_cnt m' = cqp_cnt m + of_nat i \<and> length (cqp_desc m') = 64 \<and>
     r_scl (l_regs m') r_PFPE_CQPTAIL = r_scl (l_regs m) r_PFPE_CQPTAIL + of_nat i \<and> deliverable m' \<and>
     (\<exists>evs. q_events t = q_events s @ evs \<and> subseq (map (nth_entry junk m ds) [0..<i]) evs))"

lemma cqp_step:
  assumes "cqp_after junk ds s i t" "completing (ds ! i)"
  shows "safe (cqe_fetch_done junk (ds ! i) t) (cqp_after junk ds s (Suc i))"
proof -
  let ?t = "dev_more (\<lambda>m. m\<lparr>cqp_desc := put_bytes 0 (ds ! i) (cqp_desc m)\<rparr>) t"
  have d: "cqp_desc (queue_base.more ?t) = ds ! i"
    using assms by (simp add: cqp_after_def completing_def Let_def put_bytes_def)
  have "deliverable (queue_base.more ?t)" using assms(1) by (simp add: cqp_after_def deliverable_def Let_def)
  from command_posts [OF _ this, of junk] have
    c: "safe (cqp_command junk ?t) (posted (nth_entry junk (queue_base.more s) ds i) ?t)"
    using assms d by (simp add: cqp_after_def nth_entry_def Let_def)
  have "cqp_after junk ds s (Suc i)
      (dev_more (\<lambda>m. m\<lparr>l_regs := scl_write r_PFPE_CQPTAIL (r_scl (l_regs m) r_PFPE_CQPTAIL + 1) (l_regs m)\<rparr>) u)"
    if u: "posted (nth_entry junk (queue_base.more s) ds i) ?t u" for u
  proof -
    obtain a b where ab: "q_events u = q_events t @ a @ [nth_entry junk (queue_base.more s) ds i] @ b"
      using u by (auto simp: posted_def Let_def)
    obtain evs where evs: "q_events t = q_events s @ evs" "subseq (map (nth_entry junk (queue_base.more s) ds) [0..<i]) evs"
      using assms(1) by (auto simp: cqp_after_def Let_def)
    have "subseq (map (nth_entry junk (queue_base.more s) ds) [0..<Suc i]) (evs @ a @ [nth_entry junk (queue_base.more s) ds i] @ b)"
      unfolding upt_Suc_append [OF le0] map_append list.map
      by (rule list_emb_append_mono [OF evs(2)]) (simp add: subseq_singleton_left)
    then have e: "\<exists>evs'. q_events u = q_events s @ evs' \<and> subseq (map (nth_entry junk (queue_base.more s) ds) [0..<Suc i]) evs'"
      using ab evs(1) by auto
    have "deliverable (queue_base.more u)" using u \<open>deliverable (queue_base.more ?t)\<close> by (simp add: posted_def Let_def)
    moreover have "length (cqp_desc (queue_base.more u)) = 64" using u d assms(2) by (simp add: posted_def completing_def Let_def)
    ultimately show ?thesis using u assms(1) e unfolding cqp_after_def Let_def
      by (simp add: posted_def deliverable_def scl_write_def regs_ok_def Let_def add.assoc)
  qed
  then show ?thesis using safe_mono [OF c] by (simp add: cqe_fetch_done_def cqp_process_def)
qed

text \<open>
  C35: the control queue pair answers commands in order.  While the interrupts of the
  completion event queues name existing vectors, any sequence of commands that are
  answered by a completion entry runs without leaving an array, and the guest
  sees the entries in the order of the commands, one after the other in the
  completion queue and numbered by consecutive indices; the tail register ends
  behind the last command.
\<close>
theorem cqp_completions_in_order:
  assumes "deliverable (queue_base.more s)" "length (cqp_desc (queue_base.more s)) = 64" "\<forall>d \<in> set ds. completing d"
  shows "safe (rfold (cqe_fetch_done junk) ds s) (\<lambda>s'. let m = queue_base.more s; m' = queue_base.more s' in
    (\<exists>evs. q_events s' = q_events s @ evs \<and>
      subseq (map (\<lambda>i. Ev_data (cqp_base m + ucast ((cqp_cnt m + of_nat i) * 32))
        (cqe_for junk (host_cq_pa m) (r_scl (l_regs m) r_PFPE_CQPTAIL + of_nat i) (ds ! i))) [0..<length ds]) evs) \<and>
    r_scl (l_regs m') r_PFPE_CQPTAIL = r_scl (l_regs m) r_PFPE_CQPTAIL + of_nat (length ds))"
proof -
  have "cqp_after junk ds s 0 s" using assms(1,2) by (simp add: cqp_after_def Let_def)
  then have "safe (rfold (\<lambda>i. cqe_fetch_done junk (ds ! i)) [0..<length ds] s) (cqp_after junk ds s (length ds))"
    by (rule rfold_upt) (use assms(3) in \<open>auto intro!: cqp_step\<close>)
  then show ?thesis unfolding rfold_nth
    by (rule safe_mono) (auto simp: cqp_after_def nth_entry_def [abs_def] Let_def)
qed

definition demo_dev :: "e810_dev queue_base_scheme" where
  "demo_dev = \<lparr>q_vfu = q_vfu demo_rx, q_mem = (\<lambda>_. 0), q_events = [], desc_ctxs = [], active_first_pos = 0, active_first_idx = 0,
     active_cnt = 0, q_base = 0, q_len = 0, reg_head = 0, reg_tail = 0, q_enabled = False, desc_len = 32,
     \<dots> = admin.extend (queue_base.more demo_admin) \<lparr>cqp_enabled = True, cqp_ctx = replicate 64 0, cqe_base = 0, host_cq_pa = 0x5000,
       cqp_desc = replicate 64 0, cqp_base = 0x1000, cqp_cnt = 0,
       ceqs = replicate 1536 \<lparr>ceq_enabled = False, ceq_base = 0, ceq_id = 0\<rparr>\<rparr>\<rparr>"

text \<open>Two commands that gather statistics.\<close>

definition demo_gather :: "u8 list" where
  "demo_gather = replicate 28 0 @ [0x2E] @ replicate 35 0"

lemma gather_op: "cqp_op demo_gather = 0x2E" "length demo_gather = 64"
  by code_simp+

lemma gather_ok:
  assumes "q_vfu s = q_vfu demo_rx" "cqp_base (queue_base.more s) = 0x1000" "cqp_cnt (queue_base.more s) = c" "c \<in> {0, 1}"
    "length (cqp_desc (queue_base.more s)) = 64"
  shows "\<exists>s'. cqe_fetch_done junk demo_gather s = Ok s' \<and> q_vfu s' = q_vfu demo_rx \<and> cqp_base (queue_base.more s') = 0x1000 \<and>
    cqp_cnt (queue_base.more s') = c + 1 \<and> length (cqp_desc (queue_base.more s')) = 64"
proof -
  have "dma_local_addr (q_vfu demo_rx) (0x1000 + ucast (c * 32)) 32 = Ok (Some (0x1000 + ucast (c * 32)))"
    using assms(4) by (auto simp: dma_local_addr_def demo_rx_def)
  moreover have "put_bytes 0 demo_gather (cqp_desc (queue_base.more s)) = demo_gather" using assms(5) gather_op(2) by (simp add: put_bytes_def)
  moreover have "length (cqe_bytes junk h t p) = 32" for h t p by (simp add: cqe_bytes_def)
  ultimately show ?thesis using assms gather_op
    by (simp add: cqe_fetch_done_def cqp_process_def cqp_command_def Let_def cqp_val_def cqp_post_def dev_write_def cqp_count_def
        flip: cqp_op_def)
qed

theorem cqp_completions_in_order_witness:
  "safe (rfold (cqe_fetch_done (\<lambda>_. 7)) [demo_gather, demo_gather] demo_dev) (\<lambda>s'.
     (\<exists>evs. q_events s' = [] @ evs \<and> subseq (map (\<lambda>i. Ev_data (0x1000 + ucast ((0 + of_nat i :: u32) * 32))
        (cqe_for (\<lambda>_. 7) 0x5000 (0 + of_nat i) ([demo_gather, demo_gather] ! i))) [0..<length [demo_gather, demo_gather]]) evs) \<and>
    r_scl (l_regs (queue_base.more s')) r_PFPE_CQPTAIL = 0 + of_nat (length [demo_gather, demo_gather])) \<and>
   (\<exists>s'. rfold (cqe_fetch_done (\<lambda>_. 7)) [demo_gather, demo_gather] demo_dev = Ok s')"
proof -
  let ?m = "queue_base.more demo_dev"
  have m: "cqp_base ?m = 0x1000" "cqp_cnt ?m = 0" "host_cq_pa ?m = 0x5000" "r_scl (l_regs ?m) r_PFPE_CQPTAIL = 0" "q_events demo_dev = []"
    "length (cqp_desc ?m) = 64" "q_vfu demo_dev = q_vfu demo_rx"
    by (simp_all add: demo_dev_def demo_admin_def admin.defs demo_regs_def zero_regs_def)
  have "regs_ok (l_regs ?m)" "r_arr (l_regs ?m) r_glint_ceqctl = replicate 2048 0" "length (ceqs ?m) = 1536"
    by (simp_all add: demo_dev_def demo_admin_def admin.defs demo_regs_def zero_regs_def regs_ok_def)
  then have d: "deliverable ?m" by (simp add: deliverable_def ceq_msix_def FIELD_GET_def)
  have c: "\<forall>d \<in> set [demo_gather, demo_gather]. completing d" by (simp add: completing_def gather_op)
  obtain s1 where s1: "cqe_fetch_done (\<lambda>_. 7) demo_gather demo_dev = Ok s1" "q_vfu s1 = q_vfu demo_rx" "cqp_base (queue_base.more s1) = 0x1000"
      "cqp_cnt (queue_base.more s1) = 1" "length (cqp_desc (queue_base.more s1)) = 64"
    using gather_ok [OF m(7) m(1) m(2) _ m(6), of "\<lambda>_. 7"] by auto
  obtain s2 where "cqe_fetch_done (\<lambda>_. 7) demo_gather s1 = Ok s2"
    using gather_ok [OF s1(2) s1(3) s1(4) _ s1(5), of "\<lambda>_. 7"] by auto
  then have "\<exists>s'. rfold (cqe_fetch_done (\<lambda>_. 7)) [demo_gather, demo_gather] demo_dev = Ok s'" using s1(1) by simp
  then show ?thesis using cqp_completions_in_order [OF d m(6) c, of "\<lambda>_. 7"] unfolding Let_def m by (rule conjI [rotated])
qed

end
