(* ===== verification/E810_Device.thy ===== *)
theory E810_Device
  imports E810_Cqp
begin

text \<open>
  The E810 device model as the guest and the network see it (class \<open>e810_bm\<close> in
  \<open>e810_bm.cc\<close>): reads and writes of its registers, received packets and resets.
  A register write stores its value and then calls the part of the device that
  the register belongs to: the receive and transmit queues, the admin queue, the
  control queue pair, the completion event queues or the clock.

  The model leaves out the interrupt events of the simulator, which the code
  still resets but no longer schedules, and the registers that no operation reads.
\<close>

section \<open>State\<close>

text \<open>
  \<open>ptp_target_vm_idx\<close> and the calls of the back end's \<open>enableTimesync\<close> belong to the
  vMux device that enabling the clock configures.
\<close>

record e810_bm = e810_dev +
  ptp_target_vm_idx :: int
  timesync_calls :: nat

text \<open>
  Parameters: the direction that the transfer of the queue pair's context happens to
  have, the address of the array of shadow time registers, which the code uses for
  its contents, and what sampling the time of a packet returns.
\<close>

record dev_env = admin_env +
  e_wr :: bool
  e_shtime_addr :: u64
  e_tx_clock :: "u64 + timespec option"

type_synonym 'b device = "'b e810_bm_scheme queue_base_scheme"

definition upd_regs :: "(e810_regs \<Rightarrow> e810_regs) \<Rightarrow> 'b device \<Rightarrow> 'b device" where
  "upd_regs f = dev_more (\<lambda>m. m\<lparr>l_regs := f (l_regs m)\<rparr>)"

definition put_reg :: "areg \<Rightarrow> nat \<Rightarrow> u32 \<Rightarrow> 'b device \<Rightarrow> 'b device res" where
  "put_reg a i v s = andThen (arr_write a i v (l_regs (queue_base.more s))) (\<lambda>r. Ok (upd_regs (\<lambda>_. r) s))"

section \<open>Reset\<close>

definition default_key :: "u32 list" where
  "default_key = [0xDA565A6D, 0xC20E5B25, 0x3D256741, 0xB08FA343, 0xCB2BCAD0, 0xB4307BAE, 0xA32DCB77, 0x0CF23080, 0x3BB7426A, 0xFA01ACBE, 0, 0, 0]"

definition reset_regs :: e810_regs where
  "reset_regs = scl_write r_glrpb_plw 0x0846 (scl_write r_glrpb_phw 0x1246 (scl_write r_glrpb_ghw 0xF2000
     (zero_regs\<lparr>r_arr := (r_arr zero_regs)(r_pfqf_hkey := default_key)\<rparr>)))"

text \<open>The key cache refers to the key registers.\<close>

definition dev_reset :: "'b device \<Rightarrow> 'b device" where
  "dev_reset s = dev_more (\<lambda>m. (lan_reset m)\<lparr>l_regs := reset_regs, rss_kc := (rss_set_dirty (rss_kc m))\<lparr>rss_key := default_key\<rparr>\<rparr>) (queue_reset s)"

section \<open>Construction\<close>

text \<open>A queue with its contexts; \<open>junk\<close> is what fresh memory contains.\<close>

definition queue_new :: "(nat \<Rightarrow> u8) \<Rightarrow> nat \<Rightarrow> vfio_user_server \<Rightarrow> (u64 \<Rightarrow> u8) \<Rightarrow> 'm \<Rightarrow> 'm queue_base_scheme" where
  "queue_new junk dlen vfu mem m = \<lparr>q_vfu = vfu, q_mem = mem, q_events = [],
     desc_ctxs = replicate MAX_ACTIVE_DESCS \<lparr>c_state = DESC_EMPTY, c_index = 0, c_desc = map junk [0..<dlen], c_data = []\<rparr>,
     active_first_pos = 0, active_first_idx = 0, active_cnt = 0, q_base = 0, q_len = 0, reg_head = 0, reg_tail = 0,
     q_enabled = False, desc_len = dlen, \<dots> = m\<rparr>"

text \<open>
  The queues of the LAN manager.  What \<open>initialize\<close> sets before it is read starts as
  zero here.
\<close>

definition rxq_new :: "(nat \<Rightarrow> u8) \<Rightarrow> vfio_user_server \<Rightarrow> (u64 \<Rightarrow> u8) \<Rightarrow> nat \<Rightarrow> rx_queue" where
  "rxq_new junk vfu mem i = queue_new junk 32 vfu mem \<lparr>enabling = False, lq_idx = i, reg_ena = 0, reg_intqctl = 0, dyn_ctln = [], pfint_icr0 = 0,
     dcache = [], dbuff_size = 0, hbuff_size = 0, rxmax = 0, crc_strip = False\<rparr>"

definition txq_new :: "(nat \<Rightarrow> u8) \<Rightarrow> vfio_user_server \<Rightarrow> (u64 \<Rightarrow> u8) \<Rightarrow> nat \<Rightarrow> tx_queue" where
  "txq_new junk vfu mem i = queue_new junk 16 vfu mem \<lparr>enabling = False, lq_idx = i, reg_ena = 0, reg_intqctl = 0, dyn_ctln = [], pfint_icr0 = 0,
     pktbuf = map junk [0..<MTU], tso_off = 0, tso_len = 0, ready_segments = [], hwb = False, hwb_addr = le_word (map junk [0..<8])\<rparr>"

text \<open>\<open>e810_bm::e810_bm\<close>, with the vMux device it belongs to.\<close>

definition e810_new :: "(nat \<Rightarrow> u8) \<Rightarrow> vfio_user_server \<Rightarrow> (u64 \<Rightarrow> u8) \<Rightarrow> e810_bm queue_base_scheme" where
  "e810_new junk vfu mem = dev_reset (queue_new junk 32 vfu mem
     \<lparr>l_regs = zero_regs, l_ptp = ptp_init, rxqs = map (rxq_new junk vfu mem) [0..<NUM_QUEUES], txqs = map (txq_new junk vfu mem) [0..<NUM_QUEUES],
      rss_kc = rss_key_cache_init (replicate 13 0), bcam = switch_init, ctx_addr = replicate 2048 (map junk [0..<22]), vsi0_first_queue = 0,
      sched_nodes = Map.empty, last_returned_node = 60, topo_elem = map junk [0..<224], rule_calls = [],
      cqp_enabled = False, cqp_ctx = map junk [0..<64], cqe_base = le_word (map junk [0..<8]), host_cq_pa = le_word (map junk [0..<8]),
      cqp_desc = map junk [0..<64], cqp_base = le_word (map junk [0..<8]), cqp_cnt = le_word (map junk [0..<4]),
      ceqs = replicate NUM_QUEUES \<lparr>ceq_enabled = False, ceq_base = le_word (map junk [0..<8]), ceq_id = le_word (map junk [0..<4])\<rparr>,
      ptp_target_vm_idx = -1, timesync_calls = 0\<rparr>)"

section \<open>Writing registers\<close>

text \<open>What a write to a range of addresses does: store, or store and notify.\<close>

datatype write_access = WArr areg nat | WDbell | WRxTail | WRxCtrl | WTqctl | WCeqctl

definition write_ranges :: "(nat \<times> nat \<times> write_access) list" where
  "write_ranges = [
    (GLINT_DYN_CTL 0, GLINT_DYN_CTL (NUM_PFINTS - 1), WArr r_pfint_dyn_ctln 4),
    (QTX_COMM_DBELL 0, QTX_COMM_DBELL 2047, WDbell),
    (QRX_TAIL 0, QRX_TAIL (256 - 1), WRxTail),
    (QRX_CTRL 0, QRX_CTRL 2047, WRxCtrl),
    (PF0INT_ITR_0 0, PF0INT_ITR_0 2047, WArr (r_pfint_itrn 0) 4096),
    (PF0INT_ITR_1 0, PF0INT_ITR_1 2047, WArr (r_pfint_itrn 1) 4096),
    (PF0INT_ITR_2 0, PF0INT_ITR_2 2047, WArr (r_pfint_itrn 2) 4096),
    (QINT_TQCTL 0, QINT_TQCTL 16383, WTqctl),
    (QINT_RQCTL 0, QINT_RQCTL (2048 - 1), WArr r_qint_rqctl 4),
    (GLINT_CEQCTL 0, GLINT_CEQCTL (2018 - 1), WCeqctl),
    (GLINT_ITR 0 0, GLINT_ITR 0 2047, WArr (r_GLINT_ITR 0) 4),
    (GLINT_ITR 1 0, GLINT_ITR 1 2047, WArr (r_GLINT_ITR 1) 4),
    (GLINT_ITR 2 0, GLINT_ITR 2 2047, WArr (r_GLINT_ITR 2) 4),
    (QRX_CONTEXT 0 0, QRX_CONTEXT 8 2048 - 1, WArr r_QRX_CONTEXT 4),
    (QRXFLXP_CNTXT 0, QRXFLXP_CNTXT 2047, WArr r_QRXFLXP_CNTXT 4),
    (GLFLXP_RXDID_FLX_WRD_0 0, GLFLXP_RXDID_FLX_WRD_0 63, WArr (r_flex_rxdid 0) 4),
    (GLFLXP_RXDID_FLX_WRD_1 0, GLFLXP_RXDID_FLX_WRD_1 63, WArr (r_flex_rxdid 1) 4),
    (GLFLXP_RXDID_FLX_WRD_2 0, GLFLXP_RXDID_FLX_WRD_2 63, WArr (r_flex_rxdid 2) 4),
    (GLFLXP_RXDID_FLX_WRD_3 0, GLFLXP_RXDID_FLX_WRD_3 63, WArr (r_flex_rxdid 3) 4)]"

definition write_clauses :: "(nat \<times> nat \<times> write_access) list" where
  "write_clauses = write_ranges @ map (\<lambda>(r, a). (a, a + 7 * 8, WArr (r_GLPRT r) 8)) glprt_regs
     @ map (\<lambda>(r, a, d). (a, a + 7 * d, WArr (r_GLV r) d)) glv_regs"

fun access_write :: "'e dev_env_scheme \<Rightarrow> write_access \<Rightarrow> nat \<Rightarrow> u32 \<Rightarrow> 'b device \<Rightarrow> 'b device res" where
  "access_write env (WArr a d) off val s = put_reg a (off div d) val s"
| "access_write env WDbell off val s =
     andThen (put_reg r_QTX_COMM_DBELL (off div 4) val s) (\<lambda>s.
     andThen (put_reg r_qtx_tail (off div 4) val s) (tail_updated env (of_nat (off div 4)) False))"
| "access_write env WRxTail off val s =
     andThen (put_reg r_qrx_tail (off div 4) (val AND 0x1FFF) s) (tail_updated env (of_nat (off div 4)) True)"
| "access_write env WRxCtrl off val s =
     andThen (put_reg r_QRX_CTRL (off div 4) (val + 4) s) (\<lambda>s.
     andThen (put_reg r_qrx_ena (off div 4) val s) (qena_updated env (of_nat (off div 4)) True))"
| "access_write env WTqctl off val s =
     andThen (put_reg r_qint_tqctl (off div 4) val s) (qena_updated env (of_nat (off div 4)) False)"
| "access_write env WCeqctl off val s =
     andThen (put_reg r_glint_ceqctl (off div 4) val s) (cem_qena_updated (of_nat (off div 4)))"

text \<open>Halves of wide registers; the high half of two receive queue bases comes from the transmit queue's.\<close>

definition lo_half :: "u32 \<Rightarrow> u64 \<Rightarrow> u64" where
  "lo_half val old = ucast val OR (old AND push_bit 32 (mask 32))"

definition hi_half :: "u32 \<Rightarrow> u64 \<Rightarrow> u64" where
  "hi_half val old = push_bit 32 (ucast val) OR (old AND mask 32)"

text \<open>Registers that are only stored.\<close>

definition plain_writes :: "(nat \<times> (u32 \<Rightarrow> e810_regs \<Rightarrow> e810_regs)) list" where
  "plain_writes = [
    (PFPE_CCQPSTATUS, scl_write r_PFPE_CCQPSTATUS), (PFPE_CCQPHIGH, scl_write r_PFPE_CCQPHIGH), (PFPE_CQPTAIL, scl_write r_PFPE_CQPTAIL),
    (GLGEN_STAT, scl_write r_glgen_stat), (GLINT_CTL, scl_write r_glint_ctl), (GLGEN_RSTCTL, scl_write r_glgen_rstctl),
    (GLNVM_GENS, scl_write r_glnvm_srctl), (PFINT_OICR_ENA, scl_write r_pfint_icr0_ena), (PFINT_OICR, scl_write r_pfint_icr0),
    (PF_FW_ARQBAL, \<lambda>val r. wide_write r_pf_arqba (lo_half val (r_wide r r_pf_atqba)) r),
    (PF_FW_ARQBAH, \<lambda>val r. wide_write r_pf_arqba (hi_half val (r_wide r r_pf_arqba)) r),
    (PF_FW_ARQLEN, scl_write r_pf_arqlen), (PF_FW_ARQH, scl_write r_pf_arqh), (PF_FW_ARQT, scl_write r_pf_arqt),
    (PF_MBX_ARQBAL, \<lambda>val r. wide_write r_pf_mbx_arqba (lo_half val (r_wide r r_pf_mbx_atqba)) r),
    (PF_MBX_ARQBAH, \<lambda>val r. wide_write r_pf_mbx_arqba (hi_half val (r_wide r r_pf_mbx_arqba)) r),
    (PF_MBX_ARQLEN, scl_write r_pf_mbx_arqlen), (PF_MBX_ARQH, scl_write r_pf_mbx_arqh), (PF_MBX_ARQT, scl_write r_pf_mbx_arqt),
    (PF_SB_ATQBAH, scl_write r_PF_SB_ATQBAH), (PTP_GLTSYN_CMD, scl_write r_GLTSYN_CMD)]"

text \<open>Registers whose change runs the admin queue, those of the mailbox among them.\<close>

definition atq_writes :: "(nat \<times> (u32 \<Rightarrow> e810_regs \<Rightarrow> e810_regs)) list" where
  "atq_writes = [
    (PF_FW_ATQBAL, \<lambda>val r. wide_write r_pf_atqba (lo_half val (r_wide r r_pf_atqba)) r),
    (PF_FW_ATQBAH, \<lambda>val r. wide_write r_pf_atqba (hi_half val (r_wide r r_pf_atqba)) r),
    (PF_FW_ATQLEN, scl_write r_pf_atqlen), (PF_FW_ATQH, scl_write r_pf_atqh), (PF_FW_ATQT, scl_write r_pf_atqt),
    (PF_MBX_ATQBAL, \<lambda>val r. wide_write r_pf_mbx_atqba (lo_half val (r_wide r r_pf_mbx_atqba)) r),
    (PF_MBX_ATQBAH, \<lambda>val r. wide_write r_pf_mbx_atqba (hi_half val (r_wide r r_pf_mbx_atqba)) r),
    (PF_MBX_ATQLEN, scl_write r_pf_mbx_atqlen), (PF_MBX_ATQH, scl_write r_pf_mbx_atqh), (PF_MBX_ATQT, scl_write r_pf_mbx_atqt)]"

text \<open>The doorbell of the queue pair starts it when the announced tail is ahead.\<close>

definition write_cqpdb :: "'e dev_env_scheme \<Rightarrow> u32 \<Rightarrow> 'b device \<Rightarrow> 'b device res" where
  "write_cqpdb env val s = (let s = upd_regs (scl_write r_PFPE_CQPDB val) s in
     if val = 0 then Ok s
     else if 0x3FF AND val > r_scl (l_regs (queue_base.more s)) r_PFPE_CQPTAIL then cqp_reg_updated (e_stack env) s
     else Ok s)"

text \<open>Asking for the time stamp of a sent packet.\<close>

definition write_sb_atqbal :: "'e dev_env_scheme \<Rightarrow> u32 \<Rightarrow> 'b device \<Rightarrow> 'b device" where
  "write_sb_atqbal env val s = (let s = upd_regs (scl_write r_PF_SB_ATQBAL val) s in
     if bit val 31 then
       (case phc_sample (e_tx_clock env) (l_ptp (queue_base.more s)) of (ts, ptp) \<Rightarrow> let t = push_bit 8 (ts_time ts) in
         upd_regs (\<lambda>r. scl_write r_PF_SB_ATQBAH (ucast (t AND 0xFFFFFFFF))
             (scl_write r_PF_SB_ATQBAL (ucast (drop_bit 16 (t AND 0xFF00000000))) r))
           (dev_more (\<lambda>m. m\<lparr>l_ptp := ptp\<rparr>) s))
     else s)"

text \<open>\<open>GLTSYN_CMD_SYNC\<close>: executing the command of the clock.  The new time combines the first shadow register with the array's address.\<close>

definition shadj :: "e810_regs \<Rightarrow> nat \<Rightarrow> u64" where
  "shadj r sel = push_bit 32 (ucast (r_arr r r_GLTSYN_SHADJ ! (2 * sel))) OR ucast (r_arr r r_GLTSYN_SHADJ ! (2 * sel + 1))"

definition ptp_new_time :: "u64 \<Rightarrow> e810_regs \<Rightarrow> u128" where
  "ptp_new_time addr r = ucast (r_arr r r_GLTSYN_SHTIME ! 0) OR push_bit 32 (ucast addr) OR push_bit 64 (ucast addr)"

definition write_cmd_sync :: "'e dev_env_scheme \<Rightarrow> u32 \<Rightarrow> 'b device \<Rightarrow> 'b device" where
  "write_cmd_sync env val s = (let
     r = l_regs (queue_base.more s);
     sel_master = unat (drop_bit 8 (r_scl r r_GLTSYN_CMD AND 0x100));
     cmd = r_scl r r_GLTSYN_CMD AND 0xFF in
     if val \<noteq> 3 then s
     else if cmd = 0x03 then
       upd_regs (\<lambda>r. r\<lparr>r_arr := (r_arr r)(r_GLTSYN_INCVAL := r_arr r r_GLTSYN_SHADJ)\<rparr>)
         (dev_more (\<lambda>m. m\<lparr>l_ptp := ptp_adjust (shadj r sel_master)
           (set_incval (ucast (r_arr r r_GLTSYN_SHADJ ! 0) OR push_bit 32 (ucast (r_arr r r_GLTSYN_SHADJ ! 1)))
             (phc_write (ptp_new_time (e_shtime_addr env) r) (l_ptp m)))\<rparr>) s)
     else if cmd = 0x04 then dev_more (\<lambda>m. m\<lparr>l_ptp := ptp_adjust (shadj r sel_master) (l_ptp m)\<rparr>) s
     else s)"

definition ptp_set_enabled :: "'b device \<Rightarrow> 'b device" where
  "ptp_set_enabled = dev_more (\<lambda>m. m\<lparr>ptp_target_vm_idx := 0, timesync_calls := timesync_calls m + 1\<rparr>)"

definition switch_write :: "'e dev_env_scheme \<Rightarrow> nat \<Rightarrow> u32 \<Rightarrow> 'b device \<Rightarrow> 'b device res" where
  "switch_write env addr val s = (case map_of plain_writes addr of
       Some f \<Rightarrow> Ok (upd_regs (f val) s)
     | None \<Rightarrow> (case map_of atq_writes addr of
       Some f \<Rightarrow> admin_reg_updated env (upd_regs (f val) s)
     | None \<Rightarrow>
         if addr = PFPE_CQPDB then write_cqpdb env val s
         else if addr = PFPE_CCQPLOW then create_cqp (e_wr env) (e_stack env) (upd_regs (scl_write r_PFPE_CCQPLOW val) s)
         else if addr = PFGEN_CTRL then Ok (if bit val 0 then dev_reset s else s)
         else if addr = PF_SB_ATQBAL then Ok (write_sb_atqbal env val s)
         else if addr = PTP_GLTSYN_CMD_SYNC then Ok (write_cmd_sync env val s)
         else if PTP_GLTSYN_SHTIME 0 \<le> addr \<and> addr \<le> PTP_GLTSYN_SHTIME 5
           then put_reg r_GLTSYN_SHTIME ((addr - PTP_GLTSYN_SHTIME 0) div 4) val s
         else if PTP_GLTSYN_SHADJ 0 \<le> addr \<and> addr \<le> PTP_GLTSYN_SHADJ 3
           then put_reg r_GLTSYN_SHADJ ((addr - PTP_GLTSYN_SHADJ 0) div 4) val s
         else if addr = PTP_GLTSYN_ENA 0 then andThen (put_reg r_GLTSYN_ENA 0 (val AND 1) s) (\<lambda>s. Ok (ptp_set_enabled s))
         else if addr = PTP_GLTSYN_ENA 1 then andThen (put_reg r_GLTSYN_ENA 1 (val AND 1) s) (\<lambda>s. Ok (ptp_set_enabled s))
         else Ok s))"

definition reg_mem_write32 :: "'e dev_env_scheme \<Rightarrow> nat \<Rightarrow> u32 \<Rightarrow> 'b device \<Rightarrow> 'b device res" where
  "reg_mem_write32 env addr val s = (case decode write_clauses addr of
       Some (lo, hi, acc) \<Rightarrow> access_write env acc (addr - lo) val s
     | None \<Rightarrow> switch_write env addr val s)"

section \<open>The interface of the device\<close>

abbreviation (input) BAR_REGS :: nat where "BAR_REGS \<equiv> 0"
abbreviation (input) BAR_IO :: nat where "BAR_IO \<equiv> 2"

definition RegRead32 :: "clock_source \<Rightarrow> nat \<Rightarrow> nat \<Rightarrow> 'b device \<Rightarrow> (u32 \<times> 'b device) res" where
  "RegRead32 clk bar addr s =
     (if bar = BAR_REGS then andThen (reg_mem_read32 clk addr (l_regs (queue_base.more s), l_ptp (queue_base.more s)))
        (\<lambda>(v, r, ptp). Ok (v, dev_more (\<lambda>m. m\<lparr>l_regs := r, l_ptp := ptp\<rparr>) s))
      else if bar = BAR_IO then Ok (0, s)
      else Abort)"

definition RegRead :: "clock_source \<Rightarrow> nat \<Rightarrow> nat \<Rightarrow> nat \<Rightarrow> 'b device \<Rightarrow> (u32 list \<times> 'b device) res" where
  "RegRead clk bar addr len s =
     (if len = 4 then andThen (RegRead32 clk bar addr s) (\<lambda>(v, s). Ok ([v], s))
      else if len = 8 then andThen (RegRead32 clk bar addr s) (\<lambda>(v, s).
        andThen (RegRead32 clk bar (addr + 4) s) (\<lambda>(w, s). Ok ([v, w], s)))
      else Abort)"

definition RegWrite32 :: "'e dev_env_scheme \<Rightarrow> nat \<Rightarrow> nat \<Rightarrow> u32 \<Rightarrow> 'b device \<Rightarrow> 'b device res" where
  "RegWrite32 env bar addr val s =
     (if bar = BAR_REGS then reg_mem_write32 env addr val s else if bar = BAR_IO then Ok s else Abort)"

definition RegWrite :: "'e dev_env_scheme \<Rightarrow> nat \<Rightarrow> nat \<Rightarrow> u32 list \<Rightarrow> 'b device \<Rightarrow> 'b device res" where
  "RegWrite env bar addr src s = (case src of
       [v] \<Rightarrow> RegWrite32 env bar addr v s
     | [v, w] \<Rightarrow> andThen (RegWrite32 env bar addr v s) (RegWrite32 env bar (addr + 4) w)
     | _ \<Rightarrow> Abort)"

definition EthRx :: "'e dev_env_scheme \<Rightarrow> u64 + timespec option \<Rightarrow> u16 option \<Rightarrow> u8 list \<Rightarrow> 'b device \<Rightarrow> 'b device res" where
  "EthRx env src queue data s = lan_packet_received env src data queue s"

end
