(* ===== verification/E810_Device_Ok.thy ===== *)
theory E810_Device_Ok
  imports E810_Device
begin

text \<open>
  The device stays well-formed: no operation of the guest or the network changes the
  lengths of the arrays of the device, the number of its queues or the size of
  the structures it keeps, whatever is in the guest's memory.
\<close>

section \<open>Queues that keep a property of the device\<close>

definition kept :: "('m \<Rightarrow> bool) \<Rightarrow> 'm queue_base_scheme \<Rightarrow> bool" where
  "kept Q s \<longleftrightarrow> length (desc_ctxs s) = MAX_ACTIVE_DESCS \<and> Q (queue_base.more s)"

lemma kept_simps [simp]:
  "kept Q (upd_ctx p f s) = kept Q s" "kept Q (set_state p d s) = kept Q s" "kept Q (upd_desc p g s) = kept Q s"
  "kept Q (s\<lparr>active_cnt := a\<rparr>) = kept Q s" "kept Q (s\<lparr>q_mem := mem, q_events := evs\<rparr>) = kept Q s"
  "kept Q (store_part p off bytes s) = kept Q s" "kept Q (fill_buffer op bytes s) = kept Q s"
  "kept Q (s\<lparr>active_first_pos := a, active_first_idx := b, active_cnt := c, reg_head := d'\<rparr>) = kept Q s"
  by (auto simp: kept_def upd_ctx_def set_state_def upd_desc_def store_part_def split: dma_op.split) (cases op; auto simp: store_part_def upd_ctx_def)+

lemma kept_fold_state [simp]: "kept Q (fold (\<lambda>i. set_state (p i) d) xs s) = kept Q s"
  by (induction xs arbitrary: s) simp_all

text \<open>A way to issue transfers that keeps the property.\<close>

definition keeping :: "('m \<Rightarrow> bool) \<Rightarrow> (dma_op \<Rightarrow> 'm queue_base_scheme \<Rightarrow> 'm queue_base_scheme res) \<Rightarrow> bool" where
  "keeping Q iss \<longleftrightarrow> (\<forall>op s. kept Q s \<longrightarrow> returns (iss op s) (kept Q))"

lemma keepingD: "keeping Q iss \<Longrightarrow> kept Q s \<Longrightarrow> returns (iss op s) (kept Q)"
  by (simp add: keeping_def)

locale dma_keeping =
  fixes Q :: "'m \<Rightarrow> bool"
    and vt_of :: "(dma_op \<Rightarrow> 'm queue_base_scheme \<Rightarrow> 'm queue_base_scheme res) \<Rightarrow> 'm queue_base_scheme vtable"
  assumes prepare_keeps: "keeping Q iss \<Longrightarrow> kept Q s \<Longrightarrow> returns (v_prepare (vt_of iss) p s) (kept Q)"
    and process_keeps: "keeping Q iss \<Longrightarrow> kept Q s \<Longrightarrow> returns (v_process (vt_of iss) p s) (kept Q)"
    and processed_keeps: "keeping Q iss \<Longrightarrow> kept Q s \<Longrightarrow> returns (v_processed (vt_of iss) p s) (kept Q)"
    and writeback_keeps: "keeping Q iss \<Longrightarrow> kept Q s \<Longrightarrow>
      returns (v_do_writeback (vt_of iss) idx pos cnt s) (kept Q)"
    and interrupt_keeps: "keeping Q iss \<Longrightarrow> kept Q s \<Longrightarrow> returns (v_interrupt (vt_of iss) s) (kept Q)"
begin

lemma process_loop_keeps:
  assumes iss: "keeping Q iss" and "kept Q s"
  shows "returns (process_loop (vt_of iss) n k s) (kept Q)"
  using assms(2)
proof (induction n arbitrary: k s)
  case (Suc n)
  then show ?case
    by (auto simp: Let_def intro!: returns_mono [OF process_keeps [OF iss]])
qed simp

lemma fetch_keeps:
  assumes iss: "keeping Q iss" and "kept Q s"
  shows "returns (trigger_fetch iss s) (kept Q)"
proof -
  have r: "returns (rfold (mark_fetching first_pos idx) xs s) (kept Q)" for first_pos idx xs
    by (rule returns_rfold [where P = "kept Q"]) (simp_all add: mark_fetching_def assms(2))
  show ?thesis using assms(2)
    by (auto simp: trigger_fetch_def Let_def simp del: returns_andThen intro!: returns_bind [OF r] keepingD [OF iss])
qed

lemma trigger_keeps:
  assumes iss: "keeping Q iss" and "kept Q s"
  shows "returns (trigger (vt_of iss) iss s) (kept Q)"
proof -
  have p: "returns (trigger_process (vt_of iss) s) (kept Q)" if "kept Q s" for s
    using process_loop_keeps [OF iss that] that by (simp add: trigger_process_def Let_def)
  have w: "returns (trigger_writeback (vt_of iss) s) (kept Q)" if "kept Q s" for s
    using writeback_keeps [OF iss] that by (simp add: trigger_writeback_def Let_def)
  show ?thesis unfolding trigger_def by (intro returns_bind [OF fetch_keeps [OF iss assms(2)]] returns_bind [OF p] w)
qed

lemma writeback_done_keeps:
  assumes iss: "keeping Q iss" and "kept Q s"
  shows "returns (writeback_done (vt_of iss) first_pos cnt s) (kept Q)"
proof -
  have "returns (rfold (\<lambda>i s. andThen (assertR (st_at s (first_pos + i) = DESC_WRITING_BACK) s)
      (\<lambda>s. Ok (set_state (first_pos + i) DESC_WRITTEN_BACK s))) [0..<cnt] s) (kept Q)"
    by (rule returns_rfold [where P = "kept Q"]) (simp_all add: assms(2))
  then show ?thesis using assms(2) interrupt_keeps [OF iss]
    by (auto simp: writeback_done_def Let_def elim!: returns_mono)
qed

lemma done_keeps:
  assumes iss: "keeping Q iss" and "kept Q s"
  shows "returns (dma_done (vt_of iss) iss op bytes s) (kept Q)"
proof (cases op)
  case (dma_fetch pos addr len)
  have r: "returns (rfold (fetch_one (vt_of iss) pos bytes) xs s) (kept Q)" for xs
    by (rule returns_rfold [where P = "kept Q"]) (simp_all add: fetch_one_def Let_def prepare_keeps [OF iss] assms(2))
  show ?thesis unfolding dma_fetch dma_done.simps by (intro returns_bind [OF r] trigger_keeps [OF iss])
next
  case (dma_wb pos addr data)
  show ?thesis unfolding dma_wb dma_done.simps by (intro returns_bind [OF writeback_done_keeps [OF iss assms(2)]] trigger_keeps [OF iss])
next
  case (dma_data_fetch p addr len total part)
  then show ?thesis using keepingD [OF iss assms(2)] trigger_keeps [OF iss] assms(2) by (auto simp: Let_def prepared_def)
next
  case (dma_data_wb p addr data)
  show ?thesis unfolding dma_data_wb dma_done.simps by (intro returns_bind [OF processed_keeps [OF iss assms(2)]] trigger_keeps [OF iss])
next
  case (dma_hwb pos cnt next_head addr)
  show ?thesis unfolding dma_hwb dma_done.simps by (intro returns_bind [OF writeback_done_keeps [OF iss assms(2)]] trigger_keeps [OF iss])
qed

lemma IssueDma_keeping: "keeping Q (IssueDma vt_of n)"
proof (induction n)
  case 0
  then show ?case by (simp add: keeping_def)
next
  case (Suc n)
  have "returns (IssueDma vt_of (Suc n) op s) (kept Q)" if "kept Q s" for op s
    using done_keeps [OF Suc] that
    by (cases "dma_local_addr (q_vfu s) (dma_addr op) (case dma_data op of Inl d \<Rightarrow> of_nat (length d) | Inr l \<Rightarrow> of_nat l)")
      (auto split: option.split sum.split)
  then show ?case by (simp add: keeping_def)
qed

lemma reg_updated_keeps: "kept Q s \<Longrightarrow> returns (reg_updated (vt_of (IssueDma vt_of n)) (IssueDma vt_of n) s) (kept Q)"
  using trigger_keeps [OF IssueDma_keeping] by (simp add: reg_updated_def)

end

section \<open>Well-formed devices\<close>

definition dev_ok :: "'b e810_dev_scheme \<Rightarrow> bool" where
  "dev_ok m \<longleftrightarrow> regs_ok (l_regs m) \<and> length (rxqs m) = NUM_QUEUES \<and> length (txqs m) = NUM_QUEUES \<and>
     length (ctx_addr m) = 2048 \<and> (\<forall>c \<in> set (ctx_addr m). length c = 22) \<and> length (topo_elem m) = 224 \<and>
     length (ceqs m) = NUM_QUEUES \<and> length (cqp_desc m) = 64 \<and> length (cqp_ctx m) = 64"

lemma regs_ok_writes [simp]:
  "regs_ok (scl_write a v r) = regs_ok r" "regs_ok (wide_write b w r) = regs_ok r" "regs_ok (store_lan_regs c i m r) = regs_ok r"
  by (auto simp: regs_ok_def scl_write_def wide_write_def store_lan_regs_def)

lemma arr_write_regs: "regs_ok r \<Longrightarrow> returns (arr_write a i v r) regs_ok"
  by (auto simp: arr_write_def regs_ok_def)

lemma dev_ok_regs: "dev_ok m \<Longrightarrow> regs_ok r \<Longrightarrow> dev_ok (m\<lparr>l_regs := r\<rparr>)"
  by (simp add: dev_ok_def)

subsection \<open>Receive and transmit queues\<close>

lemma load_world_kept [simp]: "kept Q (load_world q s) = kept Q s"
  by (simp add: kept_def load_world_def)

lemma with_rxq_keeps: "kept dev_ok s \<Longrightarrow> returns (with_rxq i f s) (kept dev_ok)"
  by (auto simp: with_rxq_def store_rx_def kept_def load_world_def dev_ok_def intro!: returnsI)

lemma with_txq_keeps: "kept dev_ok s \<Longrightarrow> returns (with_txq i f s) (kept dev_ok)"
  by (auto simp: with_txq_def store_tx_def kept_def load_world_def dev_ok_def intro!: returnsI)

lemma tail_updated_keeps: "kept dev_ok s \<Longrightarrow> returns (tail_updated env idx rx s) (kept dev_ok)"
  by (simp add: tail_updated_def with_rxq_keeps with_txq_keeps)

lemma qena_updated_keeps: "kept dev_ok s \<Longrightarrow> returns (qena_updated env idx rx s) (kept dev_ok)"
  by (auto simp: qena_updated_def Let_def arr_read_def simp del: returns_andThen
      intro!: with_rxq_keeps with_txq_keeps returns_bind [OF with_rxq_keeps] tail_updated_keeps)

lemma kept_ptp [simp]: "kept dev_ok (dev_more (\<lambda>m. m\<lparr>l_ptp := p m\<rparr>) s) = kept dev_ok s"
  by (simp add: kept_def dev_ok_def)

lemma packet_received_keeps: "kept dev_ok s \<Longrightarrow> returns (lan_packet_received env src data hint s) (kept dev_ok)"
  by (auto simp: lan_packet_received_def Let_def simp del: returns_andThen intro!: returns_bind [where P = "\<lambda>_. True"] with_rxq_keeps)

subsection \<open>The admin queue\<close>

text \<open>Outcomes of commands that keep the device well-formed.\<close>

definition outcome_ok :: "('m \<Rightarrow> bool) \<Rightarrow> reply \<times> u8 list \<times> u8 list \<times> 'm \<Rightarrow> bool" where
  "outcome_ok P = (\<lambda>(r, d, data, m). P m)"

lemma outcome_ok_simp [simp]: "outcome_ok P (r, d, data, m) = P m"
  by (simp add: outcome_ok_def)

lemma echo_keeps [simp]: "P m \<Longrightarrow> returns (echo d data m) (outcome_ok P)"
  by (simp add: echo_def)

lemma const_keeps:
  "P m \<Longrightarrow> returns (cmd_list_caps d data m) (outcome_ok P)" "P m \<Longrightarrow> returns (cmd_mac_read junk mac d data m) (outcome_ok P)"
  "P m \<Longrightarrow> returns (cmd_phy_caps junk d data m) (outcome_ok P)" "P m \<Longrightarrow> returns (cmd_link_status junk d data m) (outcome_ok P)"
  "P m \<Longrightarrow> returns (cmd_sw_cfg junk d data m) (outcome_ok P)" "P m \<Longrightarrow> returns (cmd_pkg_info junk d data m) (outcome_ok P)"
  "P m \<Longrightarrow> returns (cmd_add_vsi junk d data m) (outcome_ok P)" "P m \<Longrightarrow> returns (cmd_query_sched_res junk d data m) (outcome_ok P)"
  "P m \<Longrightarrow> returns (cmd_nvm_read d data m) (outcome_ok P)" "P m \<Longrightarrow> returns (cmd_alloc_res d data m) (outcome_ok P)"
  "P m \<Longrightarrow> returns (cmd_remove_sw_rules d data m) (outcome_ok P)" "P m \<Longrightarrow> returns (cmd_dis_txqs d data m) (outcome_ok P)"
  "P m \<Longrightarrow> returns (cmd_get_sched ctxs d data m) (outcome_ok P)"
  by (simp_all add: const_cmd_defs Let_def cmd_alloc_res_def cmd_remove_sw_rules_def cmd_dis_txqs_def cmd_get_sched_def)

lemma length_topo_nodes: "list_all (\<lambda>x. fst x < 7) xs \<Longrightarrow> length t = 224 \<Longrightarrow> length (fold topo_node xs t) = 224"
proof (induction xs arbitrary: t)
  case (Cons x xs)
  have "length (topo_node x t) = 224" using Cons.prems by (cases x) (simp add: topo_node_def)
  then show ?case using Cons by simp
qed simp

lemma admin_keeps:
  assumes "dev_ok m"
  shows "returns (cmd_set_rss_lut d data m) (outcome_ok dev_ok)" "returns (cmd_dflt_topo d data m) (outcome_ok dev_ok)"
    "returns (cmd_add_sw_rules backend device_id d data m) (outcome_ok dev_ok)" "returns (cmd_add_sched p d data m) (outcome_ok dev_ok)"
proof -
  show "returns (cmd_set_rss_lut d data m) (outcome_ok dev_ok)" using assms by (simp add: cmd_set_rss_lut_def dev_ok_def)
  have "length (fold topo_node [(0, 0xFFFFFFFF, 1), (1, 0, 4), (2, 0, 3), (3, 1, 2), (4, 1, 2), (5, 2, 2), (6, 2, 2)]
      (set16 4 7 (topo_elem m))) = 224"
    using assms by (intro length_topo_nodes) (simp_all add: dev_ok_def)
  then show "returns (cmd_dflt_topo d data m) (outcome_ok dev_ok)" using assms
    unfolding cmd_dflt_topo_def Let_def by (simp add: dev_ok_def del: fold_simps)
  show "returns (cmd_add_sw_rules backend device_id d data m) (outcome_ok dev_ok)" using assms
    by (auto simp: cmd_add_sw_rules_def dev_ok_def simp del: returns_andThen intro!: returns_bind [where P = "\<lambda>_. True"])
  have "returns (rfold (add_node p) xs (data, m)) (\<lambda>(data, m). dev_ok m)" for xs
    using assms by (intro returns_rfold) (auto simp: add_node_def dev_ok_def)
  then show "returns (cmd_add_sched p d data m) (outcome_ok dev_ok)"
    by (auto simp: cmd_add_sched_def simp del: returns_andThen intro!: returns_bind [where P = "\<lambda>_. True"] returns_bind [where P = "\<lambda>(data, m). dev_ok m"])
qed

lemma lift_cmd_keeps:
  "returns (f (queue_base.more s)) (outcome_ok dev_ok) \<Longrightarrow> kept dev_ok s \<Longrightarrow> returns (lift_cmd f s) (outcome_ok (kept dev_ok))"
  by (auto simp: lift_cmd_def kept_def outcome_ok_def elim!: returns_mono)

lemma add_txqs_keeps:
  assumes "kept dev_ok s"
  shows "returns (cmd_add_txqs env d data s) (outcome_ok (kept dev_ok))"
proof -
  have k: "kept dev_ok (dev_more (\<lambda>m. m\<lparr>l_regs := r, ctx_addr := (ctx_addr m)[i := ctx]\<rparr>) s)"
    if "regs_ok r" "length ctx = 22" for r i ctx
    using assms that by (auto simp: kept_def dev_ok_def dest!: set_update_subset_insert [THEN subsetD])
  have r: "returns (arr_write r_qtx_ena i 1 (l_regs (queue_base.more s))) regs_ok" for i
    using assms by (intro arr_write_regs) (simp add: kept_def dev_ok_def)
  have f: "returns (andThen (arr_write r_qtx_ena i 1 (l_regs (queue_base.more s))) (\<lambda>r. andThen
      (qena_updated env idx False (dev_more (\<lambda>m. m\<lparr>l_regs := r, ctx_addr := (ctx_addr m)[i := ctx]\<rparr>) s)) (echo d data')))
      (outcome_ok (kept dev_ok))" if "length ctx = 22" for i idx ctx data'
    using that by (intro returns_bind [OF r] returns_bind [OF qena_updated_keeps] k echo_keeps)
  show ?thesis unfolding cmd_add_txqs_def Let_def get_in_def put_in_def
    by (auto simp del: returns_andThen intro!: f)
qed

lemma kept_regs: "kept dev_ok s \<Longrightarrow> regs_ok (f (l_regs (queue_base.more s))) \<Longrightarrow> kept dev_ok (dev_more (\<lambda>m. m\<lparr>l_regs := f (l_regs m)\<rparr>) s)"
  by (simp add: kept_def dev_ok_def)

lemma kept_ok: "kept dev_ok s \<Longrightarrow> dev_ok (queue_base.more s)" "kept dev_ok s \<Longrightarrow> regs_ok (l_regs (queue_base.more s))"
  by (simp_all add: kept_def dev_ok_def)

lemma command_keeps:
  assumes "kept dev_ok s"
  shows "returns (admin_command env p d data s) (outcome_ok (kept dev_ok))"
proof -
  note l = lift_cmd_keeps [OF _ assms]
  note m = kept_ok [OF assms]
  have "kept dev_ok (dev_more (\<lambda>m. m\<lparr>l_regs := scl_write r_gllan_rctl_0 0 (l_regs m)\<rparr>) s)"
    using assms m by (intro kept_regs) simp_all
  then show ?thesis using assms m unfolding admin_command_def Let_def
    by (auto intro!: l const_keeps admin_keeps add_txqs_keeps echo_keeps)
qed

lemma admin_process_keeps:
  assumes "keeping dev_ok iss" "kept dev_ok s"
  shows "returns (admin_process env iss p s) (kept dev_ok)"
proof -
  have "returns (admin_finish iss p x) (kept dev_ok)" if "outcome_ok (kept dev_ok) x" for x
    using that keepingD [OF assms(1)]
    by (cases x) (auto simp: admin_finish_def Let_def desc_complete_def desc_complete_indir_def processed_def data_write_def split: reply.split)
  then show ?thesis unfolding admin_process_def Let_def by (intro returns_bind [OF command_keeps [OF assms(2)]])
qed

interpretation admin_q: dma_keeping "dev_ok :: 'b e810_dev_scheme \<Rightarrow> bool" "admin_vt env" for env
proof
  fix iss :: "dma_op \<Rightarrow> 'b e810_dev_scheme queue_base_scheme \<Rightarrow> 'b e810_dev_scheme queue_base_scheme res"
    and s :: "'b e810_dev_scheme queue_base_scheme" and p idx pos cnt
  assume k: "keeping dev_ok iss" "kept dev_ok s"
  note d = keepingD [OF k(1)]
  show "returns (v_prepare (admin_vt env iss) p s) (kept dev_ok)" using k(2)
    by (auto simp: admin_vt_def admin_prepare_def Let_def data_fetch_def prepared_def intro!: d)
  show "returns (v_process (admin_vt env iss) p s) (kept dev_ok)" using admin_process_keeps [OF k] by (simp add: admin_vt_def)
  show "returns (v_processed (admin_vt env iss) p s) (kept dev_ok)" using k(2) by (simp add: admin_vt_def processed_def)
  show "returns (v_do_writeback (admin_vt env iss) idx pos cnt s) (kept dev_ok)" using k(2) d
    by (simp add: admin_vt_def do_writeback_def)
  show "returns (v_interrupt (admin_vt env iss) s) (kept dev_ok)" using k(2) by (simp add: admin_vt_def)
qed

lemma admin_reg_keeps:
  assumes "kept dev_ok s"
  shows "returns (admin_reg_updated env s) (kept dev_ok)"
proof -
  have "kept dev_ok (s\<lparr>q_base := a, q_len := b, reg_head := c, reg_tail := d, q_enabled := e\<rparr>)" for a b c d e
    using assms by (simp add: kept_def)
  then show ?thesis unfolding admin_reg_updated_def Let_def
    by (intro returns_bind [OF admin_q.reg_updated_keeps]) (auto intro!: kept_regs dest: kept_ok)
qed

subsection \<open>Control queue pair and completion event queues\<close>

lemma dev_write_keeps: "kept Q s \<Longrightarrow> returns (dev_write addr d s) (kept Q)"
  by (auto simp: dev_write_def split: option.split intro!: returnsI)

lemma kept_dev: "kept dev_ok s \<Longrightarrow> dev_ok (f (queue_base.more s)) \<Longrightarrow> kept dev_ok (dev_more f s)"
  by (simp add: kept_def)

lemma upd_ceq_ok: "dev_ok m \<Longrightarrow> dev_ok (upd_ceq i f m)"
  by (simp add: dev_ok_def upd_ceq_def)

lemma signal_keeps: "kept dev_ok s \<Longrightarrow> returns (SignalInterrupt vec itr s) (kept dev_ok)"
  by (auto simp: SignalInterrupt_def msix_issue_def Let_def kept_def intro!: returnsI)

lemma cem_keeps: "kept dev_ok s \<Longrightarrow> returns (cem_qena_updated idx s) (kept dev_ok)"
  by (auto simp: cem_qena_updated_def Let_def arr_read_def intro!: signal_keeps kept_dev upd_ceq_ok kept_regs dest: kept_ok)

lemma cqp_post_keeps: "kept dev_ok s \<Longrightarrow> returns (cqp_post junk pol s) (kept dev_ok)"
  by (simp add: cqp_post_def Let_def dev_write_keeps)

lemma cqp_count_keeps [simp]: "kept dev_ok (cqp_count s) = kept dev_ok s"
  by (simp add: cqp_count_def kept_def dev_ok_def)

lemma cqp_command_keeps:
  assumes "kept dev_ok s"
  shows "returns (cqp_command junk s) (kept dev_ok)"
proof -
  have b: "kept dev_ok (dev_more (\<lambda>m. m\<lparr>cqp_base := a m, cqp_cnt := 0\<rparr>) s)" for a using assms by (simp add: kept_def dev_ok_def)
  have cq: "returns (cqp_create_cq s) (kept dev_ok)" unfolding cqp_create_cq_def Let_def using assms b
    by (intro returns_bind [OF cqp_post_keeps] returns_bind [where P = "kept dev_ok"]) (auto intro!: cem_keeps)
  have ceq: "returns (cqp_create_ceq junk s) (kept dev_ok)" unfolding cqp_create_ceq_def Let_def
    by (intro returns_bind [OF dev_write_keeps [OF assms]] returns_bind [OF cqp_post_keeps] returns_bind [OF cem_keeps])
      (auto intro!: kept_dev upd_ceq_ok dest: kept_ok)
  have post: "returns (andThen (cqp_post junk pol u) (\<lambda>s. Ok (cqp_count s))) (kept dev_ok)"
    "returns (andThen (cqp_post junk pol u) (\<lambda>s. andThen (cem_qena_updated i s) (\<lambda>s. Ok (cqp_count s)))) (kept dev_ok)"
    if "kept dev_ok u" for u pol i
    using that by (auto intro!: returns_bind [OF cqp_post_keeps] returns_bind [OF cem_keeps] simp del: returns_andThen)
  show ?thesis unfolding cqp_command_def Let_def
    using assms cq ceq by (auto intro!: dev_write_keeps returns_bind [OF dev_write_keeps [OF assms]] post simp del: returns_andThen)
qed

lemma cqp_process_keeps:
  assumes "kept dev_ok s" "length data = 64"
  shows "returns (cqe_fetch_done junk data s) (kept dev_ok)"
proof -
  have "kept dev_ok (dev_more (\<lambda>m. m\<lparr>cqp_desc := put_bytes 0 data (cqp_desc m)\<rparr>) s)"
    using assms by (simp add: kept_def dev_ok_def)
  then show ?thesis unfolding cqe_fetch_done_def cqp_process_def
    by (intro returns_bind [OF cqp_command_keeps]) (auto intro!: kept_regs dest: kept_ok)
qed

lemma dev_read_length: "returns (dev_read addr n s) (\<lambda>bs. length bs = n)"
  by (auto simp: dev_read_def mem_read_def split: option.split intro!: returnsI)

lemma cqp_reg_keeps: "kept dev_ok s \<Longrightarrow> returns (cqp_reg_updated junk s) (kept dev_ok)"
  by (auto simp: cqp_reg_updated_def Let_def simp del: returns_andThen intro!: returns_bind [OF dev_read_length] cqp_process_keeps)

lemma create_cqp_keeps:
  assumes "kept dev_ok s"
  shows "returns (create_cqp wr junk s) (kept dev_ok)"
proof -
  have "returns (if wr then andThen (dev_write base (map junk [0..<64]) s) (\<lambda>s. Ok (map junk [0..<64], s))
      else andThen (dev_read base 64 s) (\<lambda>data. Ok (data, s))) (\<lambda>(data, s). length data = 64 \<and> kept dev_ok s)" for base
    using assms by (auto simp del: returns_andThen intro!: returns_bind [OF dev_write_keeps] returns_bind [OF dev_read_length])
  moreover have "kept dev_ok (dev_more (\<lambda>m. (cqp_ctx_fetched data m)\<lparr>cqp_enabled := True, l_regs := cqp_started (l_regs m)\<rparr>) u)"
    if "length data = 64" "kept dev_ok u" for data u
    using that by (simp add: kept_def dev_ok_def cqp_ctx_fetched_def cqp_started_def Let_def)
  ultimately show ?thesis using assms unfolding create_cqp_def Let_def
    by (auto simp del: returns_andThen intro!: returns_bind [where P = "\<lambda>(data, s). length data = 64 \<and> kept dev_ok s"])
qed

subsection \<open>The device\<close>

lemma put_reg_keeps: "kept dev_ok s \<Longrightarrow> returns (put_reg a i v s) (kept dev_ok)"
  unfolding put_reg_def upd_regs_def
  by (rule returns_bind [OF arr_write_regs]) (auto intro!: kept_regs dest: kept_ok)

lemma access_write_keeps: "kept dev_ok s \<Longrightarrow> returns (access_write env acc off val s) (kept dev_ok)"
  by (cases acc) (auto simp del: returns_andThen
    intro!: put_reg_keeps returns_bind [OF put_reg_keeps] tail_updated_keeps qena_updated_keeps cem_keeps)

lemma upd_regs_keeps: "kept dev_ok s \<Longrightarrow> regs_ok (f (l_regs (queue_base.more s))) \<Longrightarrow> kept dev_ok (upd_regs f s)"
  unfolding upd_regs_def by (rule kept_regs)

lemma plain_writes_ok: "map_of plain_writes addr = Some f \<Longrightarrow> regs_ok (f val r) = regs_ok r"
  by (drule map_of_SomeD) (auto simp: plain_writes_def)

lemma atq_writes_ok: "map_of atq_writes addr = Some f \<Longrightarrow> regs_ok (f val r) = regs_ok r"
  by (drule map_of_SomeD) (auto simp: atq_writes_def)

lemma reset_regs_ok: "regs_ok reset_regs"
  by (simp add: reset_regs_def zero_regs_def regs_ok_def default_key_def scl_write_def)

lemma dev_reset_keeps: "kept dev_ok s \<Longrightarrow> kept dev_ok (dev_reset s)"
  by (simp add: dev_reset_def kept_def dev_ok_def queue_reset_def lan_reset_def reset_regs_ok)

lemma switch_write_keeps:
  assumes "kept dev_ok s"
  shows "returns (switch_write env addr val s) (kept dev_ok)"
proof -
  note r = kept_ok(2) [OF assms]
  have sb: "kept dev_ok (write_sb_atqbal env val s)" using assms r
    by (auto simp: write_sb_atqbal_def Let_def upd_regs_def kept_def dev_ok_def split: prod.split)
  have sync: "kept dev_ok (write_cmd_sync env val s)" using assms r
    by (auto simp: write_cmd_sync_def Let_def upd_regs_def kept_def dev_ok_def regs_ok_def)
  have en: "returns (andThen (put_reg r_GLTSYN_ENA i v s) (\<lambda>s. Ok (ptp_set_enabled s))) (kept dev_ok)" for i v
    by (rule returns_bind [OF put_reg_keeps [OF assms]]) (simp add: ptp_set_enabled_def kept_def dev_ok_def)
  have db: "returns (write_cqpdb env val s) (kept dev_ok)" using assms r
    by (auto simp: write_cqpdb_def Let_def intro!: cqp_reg_keeps upd_regs_keeps)
  have cr: "returns (create_cqp wr junk (upd_regs (scl_write r_PFPE_CCQPLOW val) s)) (kept dev_ok)" for wr junk
    using assms r by (intro create_cqp_keeps upd_regs_keeps) simp_all
  note b = sb sync en db cr put_reg_keeps [OF assms] dev_reset_keeps [OF assms] assms
  show ?thesis
  proof (cases "map_of plain_writes addr")
    case None
    show ?thesis
    proof (cases "map_of atq_writes addr")
      case n: None
      show ?thesis unfolding switch_write_def None n option.case by (simp add: b del: returns_andThen)
    next
      case (Some f)
      then show ?thesis using None assms r by (simp add: switch_write_def atq_writes_ok upd_regs_keeps admin_reg_keeps)
    qed
  next
    case (Some f)
    then show ?thesis using assms r by (simp add: switch_write_def plain_writes_ok upd_regs_keeps)
  qed
qed

lemma write_keeps: "kept dev_ok s \<Longrightarrow> returns (reg_mem_write32 env addr val s) (kept dev_ok)"
  by (auto simp: reg_mem_write32_def access_write_keeps switch_write_keeps split: option.split)

lemma RegWrite32_keeps: "kept dev_ok s \<Longrightarrow> returns (RegWrite32 env bar addr val s) (kept dev_ok)"
  by (simp add: RegWrite32_def write_keeps)

lemma RegWrite_keeps: "kept dev_ok s \<Longrightarrow> returns (RegWrite env bar addr src s) (kept dev_ok)"
  by (auto simp: RegWrite_def RegWrite32_keeps simp del: returns_andThen intro!: returns_bind [OF RegWrite32_keeps] split: list.split)

lemma RegRead32_keeps:
  assumes "kept dev_ok s"
  shows "returns (RegRead32 clk bar addr s) (\<lambda>(v, s). kept dev_ok s)"
proof -
  have r: "returns (reg_mem_read32 clk addr (l_regs (queue_base.more s), p)) (\<lambda>(v, r, ptp). regs_ok r)" for p
    using reg_read_keeps [OF kept_ok(2) [OF assms], of clk addr p] by (auto intro!: returnsI)
  have "kept dev_ok (dev_more (\<lambda>m. m\<lparr>l_regs := r, l_ptp := ptp\<rparr>) s)" if "regs_ok r" for r ptp
    using assms that by (simp add: kept_def dev_ok_def)
  then show ?thesis using assms
    by (auto simp: RegRead32_def simp del: returns_andThen intro!: returns_bind [OF r])
qed

lemma RegRead_keeps: "kept dev_ok s \<Longrightarrow> returns (RegRead clk bar addr len s) (\<lambda>(v, s). kept dev_ok s)"
  by (auto simp: RegRead_def simp del: returns_andThen intro!: returns_bind [OF RegRead32_keeps])

text \<open>What the guest and the network do to the device.\<close>

datatype dev_op = DevRead clock_source nat nat nat | DevWrite nat nat "u32 list" | DevRx "u64 + timespec option" "u16 option" "u8 list"

fun dev_step :: "'e dev_env_scheme \<Rightarrow> dev_op \<Rightarrow> 'b device \<Rightarrow> 'b device res" where
  "dev_step env (DevRead clk bar addr len) s = andThen (RegRead clk bar addr len s) (\<lambda>(v, s). Ok s)"
| "dev_step env (DevWrite bar addr src) s = RegWrite env bar addr src s"
| "dev_step env (DevRx src queue data) s = EthRx env src queue data s"

lemma dev_step_keeps: "kept dev_ok s \<Longrightarrow> returns (dev_step env op s) (kept dev_ok)"
  by (cases op) (auto simp: EthRx_def RegWrite_keeps packet_received_keeps simp del: returns_andThen intro!: returns_bind [OF RegRead_keeps])

lemma e810_new_ok: "kept dev_ok (e810_new junk vfu mem)"
  unfolding e810_new_def by (rule dev_reset_keeps) (simp add: kept_def dev_ok_def queue_new_def)


definition demo_dev_env :: dev_env where
  "demo_dev_env = admin_env.extend demo_admin_env \<lparr>e_wr = False, e_shtime_addr = 0, e_tx_clock = Inl 0\<rparr>"


end
