(* ===== verification/E810_Device_Regs.thy ===== *)
theory E810_Device_Regs
  imports E810_Device_Ok
begin

text \<open>
  The decoding of register writes: which writes leave an array of the register file,
  and which registers a guest reads back as it wrote them.
\<close>

section \<open>Decoding\<close>

text \<open>The clause that all addresses of an interval fall into.\<close>

fun hits :: "nat \<Rightarrow> nat \<Rightarrow> nat \<times> nat \<times> 'a \<Rightarrow> (nat \<times> nat \<times> 'a) list \<Rightarrow> bool" where
  "hits l h c [] \<longleftrightarrow> False"
| "hits l h c ((lo, hi, a) # xs) \<longleftrightarrow> (if h < lo \<or> hi < l then hits l h c xs else lo \<le> l \<and> h \<le> hi \<and> c = (lo, hi, a))"

lemma hits_decode: "hits l h c cls \<Longrightarrow> l \<le> addr \<Longrightarrow> addr \<le> h \<Longrightarrow> decode cls addr = Some c"
proof (induction cls)
  case (Cons x cls)
  then show ?case by (cases x) (auto simp: decode_def split: if_splits)
qed simp

lemma decode_Some: "decode cls addr = Some (lo, hi, a) \<Longrightarrow> (lo, hi, a) \<in> set cls \<and> lo \<le> addr \<and> addr \<le> hi"
  by (auto simp: decode_def find_Some_iff in_set_conv_nth)

lemmas write_clause_defs = write_clauses_def write_ranges_def glprt_regs_def glv_regs_def

section \<open>Writes that leave their array\<close>

text \<open>Storing clauses stay in their arrays, but for three.\<close>

fun store_fits :: "nat \<times> nat \<times> write_access \<Rightarrow> bool" where
  "store_fits (lo, hi, WArr a d) \<longleftrightarrow> 0 < d \<and> (hi < lo + d * reg_len a \<or> a \<in> {r_pfint_dyn_ctln, r_qint_rqctl, r_QRX_CONTEXT})"
| "store_fits _ \<longleftrightarrow> True"

lemma stores_fit: "list_all store_fits write_clauses"
  by (simp add: write_clause_defs)

lemma three_stores:
  "decode write_clauses addr = Some (lo, hi, WArr r_pfint_dyn_ctln d) \<Longrightarrow> lo = GLINT_DYN_CTL 0 \<and> hi = GLINT_DYN_CTL 2047 \<and> d = 4"
  "decode write_clauses addr = Some (lo, hi, WArr r_qint_rqctl d) \<Longrightarrow> lo = QINT_RQCTL 0 \<and> hi = QINT_RQCTL 2047 \<and> d = 4"
  "decode write_clauses addr = Some (lo, hi, WArr r_QRX_CONTEXT d) \<Longrightarrow> lo = QRX_CONTEXT 0 0 \<and> hi = QRX_CONTEXT 8 2048 - 1 \<and> d = 4"
  by (drule decode_Some, simp add: write_clause_defs)+

lemma context_behind_tail:
  assumes "decode write_clauses addr = Some (lo, hi, WArr r_QRX_CONTEXT d)"
  shows "\<not> (QRX_TAIL 0 \<le> addr \<and> addr \<le> QRX_TAIL 255)"
proof
  assume "QRX_TAIL 0 \<le> addr \<and> addr \<le> QRX_TAIL 255"
  then have "decode write_clauses addr = Some (QRX_TAIL 0, QRX_TAIL 255, WRxTail)"
    by (intro hits_decode [of "QRX_TAIL 0" "QRX_TAIL 255"]) (simp_all add: write_clause_defs)
  then show False using assms by simp
qed

definition unsafe_stores :: "(nat \<times> nat) list" where
  "unsafe_stores = [(GLINT_DYN_CTL 2047, GLINT_DYN_CTL 2047), (QINT_RQCTL 1536, QINT_RQCTL 2047), (QRX_TAIL 255 + 1, QRX_TAIL 2048 - 1)]"

definition unsafe_notifies :: "(nat \<times> nat) list" where
  "unsafe_notifies = [(QTX_COMM_DBELL 1536, QTX_COMM_DBELL 2047), (QRX_CTRL 1536, QRX_CTRL 2047),
     (QINT_TQCTL 1536, QINT_TQCTL 16383), (GLINT_CEQCTL 1536, GLINT_CEQCTL 2017)]"

lemma unsafe_decode:
  "GLINT_DYN_CTL 2047 \<le> addr \<Longrightarrow> addr \<le> GLINT_DYN_CTL 2047 \<Longrightarrow>
     decode write_clauses addr = Some (GLINT_DYN_CTL 0, GLINT_DYN_CTL 2047, WArr r_pfint_dyn_ctln 4)"
  "QINT_RQCTL 1536 \<le> addr \<Longrightarrow> addr \<le> QINT_RQCTL 2047 \<Longrightarrow>
     decode write_clauses addr = Some (QINT_RQCTL 0, QINT_RQCTL 2047, WArr r_qint_rqctl 4)"
  "QRX_TAIL 255 + 1 \<le> addr \<Longrightarrow> addr \<le> QRX_TAIL 2048 - 1 \<Longrightarrow>
     decode write_clauses addr = Some (QRX_CONTEXT 0 0, QRX_CONTEXT 8 2048 - 1, WArr r_QRX_CONTEXT 4)"
proof -
  show "GLINT_DYN_CTL 2047 \<le> addr \<Longrightarrow> addr \<le> GLINT_DYN_CTL 2047 \<Longrightarrow>
     decode write_clauses addr = Some (GLINT_DYN_CTL 0, GLINT_DYN_CTL 2047, WArr r_pfint_dyn_ctln 4)"
    by (erule (1) hits_decode [rotated]) (simp add: write_clause_defs)
  show "QINT_RQCTL 1536 \<le> addr \<Longrightarrow> addr \<le> QINT_RQCTL 2047 \<Longrightarrow>
     decode write_clauses addr = Some (QINT_RQCTL 0, QINT_RQCTL 2047, WArr r_qint_rqctl 4)"
    by (erule (1) hits_decode [rotated]) (simp add: write_clause_defs)
  show "QRX_TAIL 255 + 1 \<le> addr \<Longrightarrow> addr \<le> QRX_TAIL 2048 - 1 \<Longrightarrow>
     decode write_clauses addr = Some (QRX_CONTEXT 0 0, QRX_CONTEXT 8 2048 - 1, WArr r_QRX_CONTEXT 4)"
    by (erule (1) hits_decode [rotated]) (simp add: write_clause_defs)
qed

lemma index_bound: "lo \<le> addr \<Longrightarrow> 0 < d \<Longrightarrow> (addr - lo) div d < n \<longleftrightarrow> addr < lo + d * (n :: nat)"
  by (auto simp: div_less_iff_less_mult mult.commute less_diff_conv2)

lemma store_bound:
  assumes "regs_ok (l_regs (queue_base.more s))" "decode write_clauses addr = Some (lo, hi, WArr a d)"
  shows "reg_mem_write32 env addr val s = Fault \<longleftrightarrow> within addr unsafe_stores"
    "\<not> within addr unsafe_stores \<Longrightarrow> \<exists>s'. reg_mem_write32 env addr val s = Ok s'"
proof -
  note c = decode_Some [OF assms(2)]
  have f: "store_fits (lo, hi, WArr a d)" using stores_fit c by (auto simp: list_all_iff)
  have l: "length (r_arr (l_regs (queue_base.more s)) a) = reg_len a" using assms(1) by (simp add: regs_ok_def)
  have i: "(addr - lo) div d < reg_len a \<longleftrightarrow> addr < lo + d * reg_len a" using c f by (intro index_bound) auto
  have w: "within addr unsafe_stores \<longleftrightarrow> \<not> (addr - lo) div d < reg_len a"
  proof (cases "a \<in> {r_pfint_dyn_ctln, r_qint_rqctl, r_QRX_CONTEXT}")
    case True
    then show ?thesis using i c three_stores [of addr lo hi d] context_behind_tail [of addr lo hi d] assms(2)
      by (auto simp: unsafe_stores_def)
  next
    case False
    have "\<not> within addr unsafe_stores"
    proof
      assume "within addr unsafe_stores"
      then show False using assms(2) False unsafe_decode [of addr] by (auto simp: unsafe_stores_def)
    qed
    then show ?thesis using False f c i by auto
  qed
  show "reg_mem_write32 env addr val s = Fault \<longleftrightarrow> within addr unsafe_stores"
    "\<not> within addr unsafe_stores \<Longrightarrow> \<exists>s'. reg_mem_write32 env addr val s = Ok s'"
    using assms(2) l w by (auto simp: reg_mem_write32_def put_reg_def arr_write_def)
qed

lemma notify_fault:
  assumes "dev_ok (queue_base.more s)" "within addr unsafe_notifies"
  shows "reg_mem_write32 env addr val s = Fault"
proof -
  let ?m = "queue_base.more s"
  have l: "length (r_arr (l_regs ?m) a) = reg_len a" for a using assms(1) by (simp add: dev_ok_def regs_ok_def)
  have n: "length (rxqs ?m) = 1536" "length (ceqs ?m) = 1536" using assms(1) by (simp_all add: dev_ok_def)
  have u: "unat (of_nat i :: u16) = i" if "i < 65536" for i using that by (simp add: unsigned_of_nat take_bit_nat_eq_self)
  consider "QTX_COMM_DBELL 1536 \<le> addr" "addr \<le> QTX_COMM_DBELL 2047" | "QRX_CTRL 1536 \<le> addr" "addr \<le> QRX_CTRL 2047"
    | "QINT_TQCTL 1536 \<le> addr" "addr \<le> QINT_TQCTL 16383" | "GLINT_CEQCTL 1536 \<le> addr" "addr \<le> GLINT_CEQCTL 2017"
    using assms(2) by (auto simp: unsafe_notifies_def)
  then show ?thesis
  proof cases
    case 1
    then have "decode write_clauses addr = Some (QTX_COMM_DBELL 0, QTX_COMM_DBELL 2047, WDbell)"
      by (intro hits_decode [of "QTX_COMM_DBELL 1536" "QTX_COMM_DBELL 2047"]) (simp_all add: write_clause_defs)
    then show ?thesis using 1 l by (simp add: reg_mem_write32_def put_reg_def arr_write_def)
  next
    case 2
    then have "decode write_clauses addr = Some (QRX_CTRL 0, QRX_CTRL 2047, WRxCtrl)"
      by (intro hits_decode [of "QRX_CTRL 1536" "QRX_CTRL 2047"]) (simp_all add: write_clause_defs)
    moreover have "(addr - QRX_CTRL 0) div 4 < 2048" "1536 \<le> (addr - QRX_CTRL 0) div 4" using 2 by auto
    ultimately show ?thesis using l n u
      by (simp add: reg_mem_write32_def put_reg_def arr_write_def upd_regs_def qena_updated_def Let_def arr_read_def)
  next
    case 3
    then have "decode write_clauses addr = Some (QINT_TQCTL 0, QINT_TQCTL 16383, WTqctl)"
      by (intro hits_decode [of "QINT_TQCTL 1536" "QINT_TQCTL 16383"]) (simp_all add: write_clause_defs)
    moreover have "\<not> (addr - QINT_TQCTL 0) div 4 < 1536" using 3 by auto
    ultimately show ?thesis using l by (simp add: reg_mem_write32_def put_reg_def arr_write_def)
  next
    case 4
    then have "decode write_clauses addr = Some (GLINT_CEQCTL 0, GLINT_CEQCTL 2017, WCeqctl)"
      by (intro hits_decode [of "GLINT_CEQCTL 1536" "GLINT_CEQCTL 2017"]) (simp_all add: write_clause_defs)
    moreover have "(addr - GLINT_CEQCTL 0) div 4 < 2018" "1536 \<le> (addr - GLINT_CEQCTL 0) div 4" using 4 by auto
    ultimately show ?thesis using l n u
      by (simp add: reg_mem_write32_def put_reg_def arr_write_def upd_regs_def cem_qena_updated_def Let_def arr_read_def)
  qed
qed

text \<open>
  C37: which register writes of a guest leave an array.  On a well-formed device a
  write to the last interrupt control, to a receive interrupt control from queue
  1536 on, to the tail of a receive queue from 256 on (which falls into the range
  of the queue contexts), to a transmit doorbell or queue control from 1536 on
  or to a completion event control from 1536 on is a fault; all other writes that
  only store into an array succeed.
\<close>
theorem reg_write_bounds:
  assumes "dev_ok (queue_base.more s)"
  shows "(if within addr [(GLINT_DYN_CTL 2047, GLINT_DYN_CTL 2047), (QINT_RQCTL 1536, QINT_RQCTL 2047),
        (QRX_TAIL 255 + 1, QRX_TAIL 2048 - 1), (QTX_COMM_DBELL 1536, QTX_COMM_DBELL 2047), (QRX_CTRL 1536, QRX_CTRL 2047),
        (QINT_TQCTL 1536, QINT_TQCTL 16383), (GLINT_CEQCTL 1536, GLINT_CEQCTL 2017)]
     then reg_mem_write32 env addr val s = Fault
     else \<forall>lo hi a d. decode write_clauses addr = Some (lo, hi, WArr a d) \<longrightarrow> (\<exists>s'. reg_mem_write32 env addr val s = Ok s'))"
proof -
  have r: "regs_ok (l_regs (queue_base.more s))" using assms by (simp add: dev_ok_def)
  have "within addr unsafe_stores \<Longrightarrow> reg_mem_write32 env addr val s = Fault"
    using unsafe_decode [of addr] store_bound(1) [OF r, of addr _ _ _ _ env val] by (auto simp: unsafe_stores_def)
  then show ?thesis using notify_fault [OF assms, of addr env val] store_bound(2) [OF r, of addr _ _ _ _ env val]
    by (auto simp: unsafe_stores_def unsafe_notifies_def)
qed

theorem reg_write_bounds_witness:
  "reg_mem_write32 demo_dev_env (QRX_TAIL 256) 1 (e810_new (\<lambda>_. 0) (q_vfu demo_rx) (\<lambda>_. 0)) = Fault \<and>
   (\<exists>s'. reg_mem_write32 demo_dev_env (GLINT_ITR 2 2047) 1 (e810_new (\<lambda>_. 0) (q_vfu demo_rx) (\<lambda>_. 0)) = Ok s')"
proof -
  let ?s = "e810_new (\<lambda>_. 0) (q_vfu demo_rx) (\<lambda>_. 0)"
  have ok: "dev_ok (queue_base.more ?s)" by (rule kept_ok(1) [OF e810_new_ok])
  have "decode write_clauses (GLINT_ITR 2 2047) = Some (GLINT_ITR 2 0, GLINT_ITR 2 2047, WArr (r_GLINT_ITR 2) 4)"
    by (rule hits_decode [of "GLINT_ITR 2 2047" "GLINT_ITR 2 2047"]) (simp_all add: write_clause_defs)
  then show ?thesis using reg_write_bounds [OF ok, of "QRX_TAIL 256" demo_dev_env 1] reg_write_bounds [OF ok, of "GLINT_ITR 2 2047" demo_dev_env 1]
    by simp
qed

section \<open>Registers that hold what is written\<close>

datatype cell = ACell areg nat | SCell sreg

text \<open>Registers of the \<open>switch\<close> statements that are stored and read back without further effect.\<close>

definition stored_scalars :: "(nat \<times> sreg) list" where
  "stored_scalars = [(PFPE_CCQPSTATUS, r_PFPE_CCQPSTATUS), (PFPE_CCQPHIGH, r_PFPE_CCQPHIGH), (PFPE_CQPTAIL, r_PFPE_CQPTAIL),
    (GLGEN_STAT, r_glgen_stat), (GLGEN_RSTCTL, r_glgen_rstctl), (PFINT_OICR_ENA, r_pfint_icr0_ena),
    (PF_FW_ARQLEN, r_pf_arqlen), (PF_FW_ARQH, r_pf_arqh), (PF_FW_ARQT, r_pf_arqt),
    (PF_MBX_ARQLEN, r_pf_mbx_arqlen), (PF_MBX_ARQH, r_pf_mbx_arqh), (PF_MBX_ARQT, r_pf_mbx_arqt),
    (PF_SB_ATQBAH, r_PF_SB_ATQBAH), (PTP_GLTSYN_CMD, r_GLTSYN_CMD)]"

text \<open>Where reading and writing agree on the place of an address.\<close>

definition stored_cell :: "nat \<Rightarrow> cell option" where
  "stored_cell addr = (case (decode read_clauses addr, decode write_clauses addr) of
       (Some (lo, _, Arr a d), Some (lo', _, WArr a' d')) \<Rightarrow>
         if lo = lo' \<and> a = a' \<and> d = d' \<and> (addr - lo) div d < reg_len a then Some (ACell a ((addr - lo) div d)) else None
     | (None, None) \<Rightarrow> map_option SCell (map_of stored_scalars addr)
     | _ \<Rightarrow> None)"

fun read_cell :: "cell \<Rightarrow> e810_regs \<Rightarrow> u32" where
  "read_cell (ACell a i) r = r_arr r a ! i"
| "read_cell (SCell c) r = r_scl r c"

fun write_cell :: "cell \<Rightarrow> u32 \<Rightarrow> e810_regs \<Rightarrow> e810_regs" where
  "write_cell (ACell a i) v r = r\<lparr>r_arr := (r_arr r)(a := (r_arr r a)[i := v])\<rparr>"
| "write_cell (SCell c) v r = scl_write c v r"

fun cell_ok :: "cell \<Rightarrow> bool" where
  "cell_ok (ACell a i) \<longleftrightarrow> i < reg_len a"
| "cell_ok (SCell c) \<longleftrightarrow> True"

lemma read_write_cell: "regs_ok r \<Longrightarrow> cell_ok c \<Longrightarrow> read_cell c' (write_cell c v r) = (if c' = c then v else read_cell c' r)"
  by (cases c; cases c') (auto simp: scl_write_def regs_ok_def)

lemma scalars_read: "list_all (\<lambda>(k, c). map_of read_switch k = Some (Sc c)) stored_scalars"
  unfolding stored_scalars_def read_switch_def by (simp del: push_bit_numeral push_bit_of_1 and_numerals or_numerals)

lemma scalars_written: "list_all (\<lambda>(k, c). map_of plain_writes k = Some (scl_write c)) stored_scalars"
  by (simp add: stored_scalars_def plain_writes_def)

lemma scalars_agree:
  assumes "map_of stored_scalars addr = Some c"
  shows "map_of read_switch addr = Some (Sc c)" "map_of plain_writes addr = Some (scl_write c)"
  using map_of_SomeD [OF assms] scalars_read scalars_written by (auto simp: list_all_iff)

lemma write_scell: "write_cell (SCell c) = scl_write c"
  by (simp add: fun_eq_iff)

lemma dev_more_cong: "f (queue_base.more s) = g (queue_base.more s) \<Longrightarrow> dev_more f s = dev_more g s"
  by (cases s) simp

lemma stored_cellE:
  assumes "stored_cell addr = Some c"
  obtains (arr) lo hi hi' a d where "decode read_clauses addr = Some (lo, hi, Arr a d)" "decode write_clauses addr = Some (lo, hi', WArr a d)"
      "(addr - lo) div d < reg_len a" "c = ACell a ((addr - lo) div d)"
    | (scl) x where "decode read_clauses addr = None" "decode write_clauses addr = None" "map_of stored_scalars addr = Some x" "c = SCell x"
  using assms by (auto simp: stored_cell_def split: option.splits prod.splits reg_access.splits write_access.splits if_splits)

lemma stored_read:
  assumes "regs_ok r" "stored_cell addr = Some c"
  shows "reg_mem_read32 clk addr (r, ptp) = Ok (read_cell c r, r, ptp)"
  using assms(2)
proof (cases rule: stored_cellE)
  case (arr lo hi hi' a d)
  then show ?thesis using assms(1) by (simp add: reg_mem_read32_def arr_read_def regs_ok_def)
next
  case (scl x)
  then show ?thesis by (simp add: reg_mem_read32_def scalars_agree)
qed

lemma stored_write:
  assumes "regs_ok (l_regs (queue_base.more s))" "stored_cell addr = Some c"
  shows "reg_mem_write32 env addr val s = Ok (upd_regs (write_cell c val) s) \<and> cell_ok c"
  using assms(2)
proof (cases rule: stored_cellE)
  case (arr lo hi hi' a d)
  then show ?thesis using assms(1) by (auto simp: reg_mem_write32_def put_reg_def arr_write_def regs_ok_def upd_regs_def intro!: dev_more_cong)
next
  case (scl x)
  then show ?thesis by (simp add: reg_mem_write32_def switch_write_def scalars_agree write_scell)
qed


lemma itr_stored: "j < 3 \<Longrightarrow> i < 2048 \<Longrightarrow> stored_cell (GLINT_ITR j i) = Some (ACell (r_GLINT_ITR j) i)"
proof -
  assume ij: "j < 3" "i < 2048"
  then have j: "j = 0 \<or> j = 1 \<or> j = 2" by auto
  have "hits (GLINT_ITR j 0) (GLINT_ITR j 2047) (GLINT_ITR j 0, GLINT_ITR j 2047, Arr (r_GLINT_ITR j) 4) read_clauses"
    using j by (elim disjE) (simp_all add: read_clauses_def read_ranges_def)
  from hits_decode [OF this, of "GLINT_ITR j i"]
  have "decode read_clauses (GLINT_ITR j i) = Some (GLINT_ITR j 0, GLINT_ITR j 2047, Arr (r_GLINT_ITR j) 4)" using ij by simp
  moreover have "hits (GLINT_ITR j 0) (GLINT_ITR j 2047) (GLINT_ITR j 0, GLINT_ITR j 2047, WArr (r_GLINT_ITR j) 4) write_clauses"
    using j by (elim disjE) (simp_all add: write_clauses_def write_ranges_def)
  from hits_decode [OF this, of "GLINT_ITR j i"]
  have "decode write_clauses (GLINT_ITR j i) = Some (GLINT_ITR j 0, GLINT_ITR j 2047, WArr (r_GLINT_ITR j) 4)" using ij by simp
  ultimately show ?thesis using ij by (simp add: stored_cell_def)
qed


end
