(* ===== verification/Vdpdk_Device.thy ===== *)
theory Vdpdk_Device
  imports Vmux_Memory
begin

text \<open>
  The paravirtual device of vMux (\<open>devices/vdpdk.cpp\<close>): a guest driver places
  descriptors of 32 bytes (address, length, flags) in rings in its memory and
  marks them available; polling threads copy packets from and to the buffers and
  clear the mark.  Queues are started and stopped, and flow rules created, by
  accesses to a register page and three shared control pages.

  A poll is one step of the model; \<open>Vdpdk_Threads\<close> has the protocol between the
  polling threads and the thread that changes the mappings.  DPDK is a
  parameter: the layout of its flow structures, whether a packet buffer can be
  allocated and how much it holds, and whether the back end accepts a rule.
\<close>

section \<open>State\<close>

record RxQueue =
  rq_ring_iova :: u64
  rq_idx_mask :: u16
  rq_idx :: u16

record TxQueue =
  tq_ring_iova :: u64
  tq_ring :: "u64 option"
  tq_idx_mask :: u16
  tq_front_idx :: u16
  tq_back_idx :: u16

record vdpdk =
  vd_vfu :: vfio_user_server
  vd_mem :: "u64 \<Rightarrow> u8"
  dbg_string :: "u8 list"
  txCtl :: "u8 list"
  rxCtl :: "u8 list"
  flowbuf :: "u8 list"
  rx_queues :: "RxQueue option list"
  tx_queue :: "TxQueue option"
  flow_calls :: "(u8 list \<times> u16 \<times> u16) list"  \<comment> \<open>calls of \<open>driver->add_switch_rule\<close>\<close>
  tx_bursts :: "u8 list list list"  \<comment> \<open>packets handed to \<open>rte_eth_tx_burst\<close>\<close>

record vdpdk_env =
  vd_mac_addr :: "u8 list"
  flow_backend :: "u8 list \<Rightarrow> u16 \<Rightarrow> u16 \<Rightarrow> bool"
  attr_size :: nat
  eth_size :: nat
  eth_type_off :: nat
  action_size :: nat
  action_index_off :: nat
  mbuf_alloc :: "nat \<Rightarrow> bool"
  tailroom :: nat

definition REGION_SIZE :: nat where "REGION_SIZE = 0x1000"
definition DESC_SIZE :: u64 where "DESC_SIZE = 0x20"
definition MAX_RX_QUEUES :: nat where "MAX_RX_QUEUES = 4"

section \<open>Descriptors\<close>

definition desc_at :: "u64 \<Rightarrow> u16 \<Rightarrow> u16 \<Rightarrow> u64" where
  "desc_at ring idx_mask idx = ring + ucast (idx AND idx_mask) * DESC_SIZE"

definition desc_iova :: "(u64 \<Rightarrow> u8) \<Rightarrow> u64 \<Rightarrow> u64" where
  "desc_iova m d = le_word (mem_read m d 8)"

definition desc_buf_len :: "(u64 \<Rightarrow> u8) \<Rightarrow> u64 \<Rightarrow> u16" where
  "desc_buf_len m d = le_word (mem_read m (d + 8) 2)"

definition desc_flags :: "(u64 \<Rightarrow> u8) \<Rightarrow> u64 \<Rightarrow> u16" where
  "desc_flags m d = le_word (mem_read m (d + 10) 2)"

text \<open>\<open>FLAG_AVAIL\<close> is bit 0; clearing it gives the buffer back to the guest.\<close>

definition desc_avail :: "(u64 \<Rightarrow> u8) \<Rightarrow> u64 \<Rightarrow> bool" where
  "desc_avail m d \<longleftrightarrow> desc_flags m d AND 1 \<noteq> 0"

definition desc_release :: "u64 \<Rightarrow> u16 \<Rightarrow> (u64 \<Rightarrow> u8) \<Rightarrow> (u64 \<Rightarrow> u8)" where
  "desc_release d flags m = mem_write (d + 10) (le_bytes 2 (flags AND NOT 1)) m"

definition ring_size :: "u16 \<Rightarrow> u64" where
  "ring_size idx_mask = (ucast idx_mask + 1) * DESC_SIZE"

section \<open>Receiving\<close>

text \<open>One round of the loop of \<open>rx_callback_fn\<close>; \<open>None\<close> is \<open>break\<close>.\<close>

definition rx_packet :: "RxQueue \<Rightarrow> u64 \<Rightarrow> u8 list \<Rightarrow> vdpdk \<Rightarrow> vdpdk option res" where
  "rx_packet rxq ring pkt s = (let
     m = vd_mem s;
     d = desc_at ring (rq_idx_mask rxq) (rq_idx rxq);
     flags = desc_flags m d in
     if flags AND 1 = 0 then Ok None else let
     buf_iova = desc_iova m d;
     buf_len = desc_buf_len m d in
     andThen (dma_local_addr (vd_vfu s) buf_iova (ucast buf_len)) (\<lambda>a. case a of
       None \<Rightarrow> Ok None
     | Some buf_addr \<Rightarrow> let
         pkt_len = length pkt;
         pkt_len_u16 = (of_nat pkt_len :: u16) in
         if pkt_len > unat buf_len \<or> pkt_len > unat pkt_len_u16 then Ok None
         else Ok (Some (s\<lparr>vd_mem := desc_release d flags
            (mem_write (d + 8) (le_bytes 2 pkt_len_u16) (mem_write buf_addr pkt m))\<rparr>))))"

fun rx_packets :: "nat \<Rightarrow> RxQueue \<Rightarrow> u64 \<Rightarrow> u8 list list \<Rightarrow> vdpdk \<Rightarrow> vdpdk res" where
  "rx_packets k rxq ring [] s = Ok s"
| "rx_packets k rxq ring (pkt # pkts) s = andThen (rx_packet rxq ring pkt s) (\<lambda>r. case r of
     None \<Rightarrow> Ok s
   | Some s \<Rightarrow> let rxq = rxq\<lparr>rq_idx := rq_idx rxq + 1\<rparr> in
       rx_packets k rxq ring pkts (s\<lparr>rx_queues := (rx_queues s)[k := Some rxq]\<rparr>))"

text \<open>The packets of one queue of the back end; queue 0 stands in for one that was not started.\<close>

definition rx_slot :: "nat \<Rightarrow> vdpdk \<Rightarrow> nat" where
  "rx_slot q_idx s = (if rx_queues s ! (q_idx mod MAX_RX_QUEUES) \<noteq> None then q_idx mod MAX_RX_QUEUES else 0)"

definition rx_driver_queue :: "nat \<times> u8 list list \<Rightarrow> vdpdk \<Rightarrow> vdpdk res" where
  "rx_driver_queue = (\<lambda>(q_idx, pkts) s. if pkts = [] then Ok s else
     case rx_queues s ! rx_slot q_idx s of
       None \<Rightarrow> Ok s
     | Some rxq \<Rightarrow> andThen (dma_local_addr (vd_vfu s) (rq_ring_iova rxq) (ring_size (rq_idx_mask rxq))) (\<lambda>a. case a of
         None \<Rightarrow> Ok s
       | Some ring \<Rightarrow> rx_packets (rx_slot q_idx s) rxq ring pkts s))"

definition rx_callback_fn :: "u8 list list list \<Rightarrow> vdpdk \<Rightarrow> vdpdk res" where
  "rx_callback_fn driver_rxqs = rfold rx_driver_queue (enumerate 0 driver_rxqs)"

section \<open>Sending\<close>

definition burst_size :: nat where "burst_size = 128"

text \<open>
  The loop of \<open>tx_poll\<close>.  The result has the collected packets, or \<open>None\<close> when the
  function returns early; \<open>n\<close> counts the allocations.
\<close>

fun tx_loop :: "'e vdpdk_env_scheme \<Rightarrow> nat \<Rightarrow> u64 \<Rightarrow> TxQueue \<Rightarrow> u8 list list \<Rightarrow> nat \<Rightarrow> vdpdk \<Rightarrow> (u8 list list option \<times> vdpdk) res" where
  "tx_loop env 0 ring q mbufs n s = Fault"
| "tx_loop env (Suc fuel) ring q mbufs n s = (if burst_size \<le> length mbufs then Ok (Some mbufs, s) else let
     m = vd_mem s;
     d = desc_at ring (tq_idx_mask q) (tq_back_idx q);
     flags = desc_flags m d in
     if flags AND 1 = 0 then Ok (Some mbufs, s) else let
     buf_iova = desc_iova m d;
     buf_len = desc_buf_len m d in
     andThen (dma_local_addr (vd_vfu s) buf_iova (ucast buf_len)) (\<lambda>a. case a of
       None \<Rightarrow> Ok (None, s\<lparr>tx_queue := None\<rparr>)
     | Some buf_addr \<Rightarrow>
         if \<not> mbuf_alloc env n then Ok (Some mbufs, s) else let
         mbufs = (if tailroom env < unat buf_len then mbufs else mbufs @ [mem_read m buf_addr (unat buf_len)]);
         q = q\<lparr>tq_back_idx := tq_back_idx q + 1\<rparr> in
         tx_loop env fuel ring q mbufs (n + 1) (s\<lparr>vd_mem := desc_release d flags m, tx_queue := Some q\<rparr>)))"

definition tx_ring_addr :: "bool \<Rightarrow> TxQueue \<Rightarrow> vdpdk \<Rightarrow> u64 option res" where
  "tx_ring_addr dma_invalidated q s = (if dma_invalidated \<or> tq_ring q = None
     then dma_local_addr (vd_vfu s) (tq_ring_iova q) (ring_size (tq_idx_mask q)) else Ok (tq_ring q))"

definition tx_poll :: "'e vdpdk_env_scheme \<Rightarrow> nat \<Rightarrow> bool \<Rightarrow> vdpdk \<Rightarrow> vdpdk res" where
  "tx_poll env fuel dma_invalidated s = (case tx_queue s of
     None \<Rightarrow> Ok s
   | Some q \<Rightarrow> andThen (tx_ring_addr dma_invalidated q s) (\<lambda>a. case a of
       None \<Rightarrow> Ok (s\<lparr>tx_queue := None\<rparr>)
     | Some ring \<Rightarrow> let q = q\<lparr>tq_ring := Some ring\<rparr> in
         andThen (tx_loop env fuel ring q [] 0 (s\<lparr>tx_queue := Some q\<rparr>)) (\<lambda>(mbufs, s). case mbufs of
           None \<Rightarrow> Ok s
         | Some mbufs \<Rightarrow> Ok (if mbufs = [] then s else s\<lparr>tx_bursts := tx_bursts s @ [mbufs]\<rparr>))))"

section \<open>Register and control pages\<close>

text \<open>Results of an access: the value returned, the buffer, and the device.\<close>

type_synonym access = "(int \<times> u8 list \<times> vdpdk) res"

definition region_access_write :: "u8 list \<Rightarrow> nat \<Rightarrow> vdpdk \<Rightarrow> access" where
  "region_access_write buf offset s = (let count = int (length buf) in
     if offset = 0 then Ok (count, buf, s\<lparr>dbg_string := dbg_string s @ buf\<rparr>)
     else if offset = 0x80 then
       (if length buf \<noteq> 2 then Ok (-1, buf, s)
        else if (le_word buf :: u16) \<noteq> 0 then Ok (count, buf, s)
        else Ok (count, buf, s\<lparr>tx_queue := None\<rparr>))
     else if offset = 0x180 then
       (if length buf \<noteq> 2 then Ok (-1, buf, s)
        else let queue_idx = unat (le_word buf :: u16) in
        if queue_idx \<ge> MAX_RX_QUEUES then Ok (count, buf, s)
        else Ok (count, buf, s\<lparr>rx_queues := (rx_queues s)[queue_idx := None]\<rparr>))
     else if offset = 0x240 then (if length buf \<noteq> 8 then Ok (-1, buf, s) else Ok (count, buf, s))
     else Ok (-1, buf, s))"

text \<open>\<open>strncpy\<close>: up to the first zero, padded with zeros.\<close>

definition hello :: "u8 list" where
  "hello = [72, 101, 108, 108, 111, 32, 102, 114, 111, 109, 32, 118, 109, 117, 120, 0]"

definition strncpy :: "u8 list \<Rightarrow> nat \<Rightarrow> u8 list" where
  "strncpy src n = (let str = takeWhile (\<lambda>b. b \<noteq> 0) src in take n str @ replicate (n - length str) 0)"

definition tx_queue_start :: "u8 list \<Rightarrow> vdpdk \<Rightarrow> access" where
  "tx_queue_start buf s = (if length buf \<noteq> 1 then Ok (-1, buf, s)
     else if (le_field 10 2 (txCtl s) :: u16) \<noteq> 0 then Ok (1, [1], s)
     else Ok (1, [0], s\<lparr>tx_queue := Some \<lparr>tq_ring_iova = le_field 0 8 (txCtl s), tq_ring = None,
       tq_idx_mask = le_field 8 2 (txCtl s), tq_front_idx = 0, tq_back_idx = 0\<rparr>\<rparr>))"

definition rx_queue_start :: "u8 list \<Rightarrow> vdpdk \<Rightarrow> access" where
  "rx_queue_start buf s = (if length buf \<noteq> 1 then Ok (-1, buf, s)
     else let queue_idx = unat (le_field 10 2 (rxCtl s) :: u16) in
     if queue_idx \<ge> MAX_RX_QUEUES then Ok (1, [1], s)
     else Ok (1, [0], s\<lparr>rx_queues := (rx_queues s)[queue_idx := Some \<lparr>rq_ring_iova = le_field 0 8 (rxCtl s),
       rq_idx_mask = le_field 8 2 (rxCtl s), rq_idx = 0\<rparr>]\<rparr>))"

text \<open>An optional structure of the flow buffer: the bytes, or zeros, and the position behind it.\<close>

definition flow_struct :: "bool \<Rightarrow> nat \<Rightarrow> u8 list \<Rightarrow> nat \<Rightarrow> (u8 list \<times> nat) res" where
  "flow_struct present n fb src = (if present then andThen (get_in src n fb) (\<lambda>b. Ok (b, src + n)) else Ok (replicate n 0, src))"

definition flow_create :: "'e vdpdk_env_scheme \<Rightarrow> u8 list \<Rightarrow> vdpdk \<Rightarrow> access" where
  "flow_create env buf s = (if length buf \<noteq> 8 then Ok (-1, buf, s) else let fb = flowbuf s in
     andThen (get_in (attr_size env) 1 fb) (\<lambda>null_flags. let null_flags = hd null_flags in
     andThen (flow_struct (bit null_flags 0) (eth_size env) fb (attr_size env + 1)) (\<lambda>(spec, src).
     andThen (flow_struct (bit null_flags 1) (eth_size env) fb src) (\<lambda>(last, src).
     andThen (flow_struct (bit null_flags 2) (eth_size env) fb src) (\<lambda>(mask, src).
     andThen (get_in src 1 fb) (\<lambda>null_flags.
     andThen (flow_struct (hd null_flags \<noteq> 0) (action_size env) fb (src + 1)) (\<lambda>(action, src). let
       failed = le_bytes 8 (-1 :: u64);
       index = (le_field (action_index_off env) 2 action :: u16) in
       if (le_field (eth_type_off env) 2 mask :: u16) \<noteq> 0xFFFF then Ok (8, failed, s)
       else if index \<ge> 4 then Ok (8, failed, s)
       else let etype = be16 spec (eth_type_off env) in
         Ok (8, if flow_backend env (vd_mac_addr env) etype index then le_bytes 8 (0 :: u64) else failed,
           s\<lparr>flow_calls := flow_calls s @ [(vd_mac_addr env, etype, index)]\<rparr>))))))))"

definition region_access_read :: "'e vdpdk_env_scheme \<Rightarrow> u8 list \<Rightarrow> nat \<Rightarrow> vdpdk \<Rightarrow> access" where
  "region_access_read env buf offset s = (let count = length buf in
     if count = 0 then Ok (-1, buf, s)
     else if offset < 0x40 then
       Ok (int count, if offset \<ge> length hello then replicate count 0 else strncpy (drop offset hello) count, s)
     else if offset = 0x40 then tx_queue_start buf s
     else if offset = 0x140 then rx_queue_start buf s
     else if offset = 0x200 then flow_create env buf s
     else Ok (-1, buf, s))"

definition region_access_cb :: "'e vdpdk_env_scheme \<Rightarrow> u8 list \<Rightarrow> int \<Rightarrow> bool \<Rightarrow> vdpdk \<Rightarrow> access" where
  "region_access_cb env buf offset is_write s =
     (if offset < 0 \<or> offset > 0x1000 then Ok (-1, buf, s)
      else if nat (0x1000 - offset) < length buf then Ok (-1, buf, s)
      else if is_write then region_access_write buf (nat offset) s
      else region_access_read env buf (nat offset) s)"

section \<open>Descriptors as offsets in their ring\<close>

definition slot :: "u16 \<Rightarrow> u16 \<Rightarrow> nat" where
  "slot idx_mask idx = unat (idx AND idx_mask)"

lemma slot_lt: "slot idx_mask idx < 65536"
  using unat_lt [of "idx AND idx_mask"] by (simp add: slot_def)

lemma slot_le: "slot idx_mask idx \<le> unat idx_mask"
  unfolding slot_def word_le_nat_alt [symmetric] by (rule word_and_le1)

lemma desc_at_slot: "desc_at ring idx_mask idx = ring + of_nat (32 * slot idx_mask idx)"
proof -
  have "ucast (idx AND idx_mask) = (of_nat (slot idx_mask idx) :: u64)"
    unfolding slot_def by simp
  then show ?thesis by (simp add: desc_at_def DESC_SIZE_def)
qed

text \<open>The flags of one descriptor and the fields of another.\<close>

lemma desc_spans:
  assumes "k \<noteq> j \<or> o1 + n \<le> o2 \<or> o2 + l \<le> o1" "o1 + n \<le> 32" "o2 + l \<le> 32" "k < 65536" "j < 65536"
  shows "span (ring + of_nat (32 * k) + of_nat o1) n \<inter> span (ring + of_nat (32 * j) + of_nat o2) l = {}"
proof -
  have "32 * k + o1 + n \<le> 2 ^ 64" "32 * j + o2 + l \<le> 2 ^ 64" using assms(2-5) by simp_all
  note s = span_offset [OF this(1), of _ ring] span_offset [OF this(2), of _ ring]
  have d: "k < j \<or> j < k \<or> k = j \<and> (o1 + n \<le> o2 \<or> o2 + l \<le> o1)" using assms(1) by auto
  have "False" if "x \<in> span (ring + of_nat (32 * k + o1)) n" "x \<in> span (ring + of_nat (32 * j + o2)) l" for x
    using d assms(2,3) that [unfolded s] by linarith
  then have "span (ring + of_nat (32 * k + o1)) n \<inter> span (ring + of_nat (32 * j + o2)) l = {}" by blast
  then show ?thesis by (simp add: add.assoc)
qed

lemma le_word_2: "le_word (le_bytes 2 (w :: u16)) = w"
  by (rule le_word_le_bytes) simp

lemma desc_release_same: "desc_flags (desc_release d flags m) d = flags AND NOT 1"
  using mem_read_write [of "le_bytes 2 (flags AND NOT 1)" "d + 10" m]
  by (simp add: desc_flags_def desc_release_def le_word_2)

lemma desc_release_unavail: "\<not> desc_avail (desc_release d flags m) d"
proof -
  have "(flags AND NOT 1) AND 1 = (0 :: u16)" by (rule bit_word_eqI) (auto simp: bit_simps)
  then show ?thesis by (simp add: desc_avail_def desc_release_same)
qed

lemma desc_release_other: "x \<notin> span (d + 10) 2 \<Longrightarrow> desc_release d flags m x = m x"
  by (simp add: desc_release_def mem_write_other)

lemma desc_fields_cong:
  assumes "\<And>x. x \<in> span d 10 \<Longrightarrow> m' x = m x"
  shows "desc_iova m' d = desc_iova m d" "desc_buf_len m' d = desc_buf_len m d"
proof -
  have "span d 8 \<subseteq> span d 10" "span (d + 8) 2 \<subseteq> span d 10" by (simp_all add: span_subset)
  then have "mem_read m' d 8 = mem_read m d 8" "mem_read m' (d + 8) 2 = mem_read m (d + 8) 2"
    using assms by (auto intro!: mem_read_cong)
  then show "desc_iova m' d = desc_iova m d" "desc_buf_len m' d = desc_buf_len m d"
    by (simp_all add: desc_iova_def desc_buf_len_def)
qed

lemma desc_flags_cong: "(\<And>x. x \<in> span (d + 10) 2 \<Longrightarrow> m' x = m x) \<Longrightarrow> desc_flags m' d = desc_flags m d"
  unfolding desc_flags_def using mem_read_cong [of 2 "d + 10" m' m] by simp

lemma flag_span_disjoint:
  assumes "k < 65536" "j < 65536"
  shows "span (ring + of_nat (32 * k) + 10) 2 \<inter> span (ring + of_nat (32 * j)) 10 = {}"
    "k \<noteq> j \<Longrightarrow> span (ring + of_nat (32 * k) + 10) 2 \<inter> span (ring + of_nat (32 * j) + 10) 2 = {}"
  using desc_spans [OF _ _ _ assms, of 10 2 0 10 ring] desc_spans [OF _ _ _ assms, of 10 2 10 2 ring] by simp_all

section \<open>Polling the transmit ring ends\<close>

definition avail_slots :: "u64 \<Rightarrow> u16 \<Rightarrow> (u64 \<Rightarrow> u8) \<Rightarrow> nat set" where
  "avail_slots ring idx_mask m = {k. k \<le> unat idx_mask \<and> desc_avail m (ring + of_nat (32 * k))}"

lemma finite_avail_slots [simp]: "finite (avail_slots ring idx_mask m)"
  by (simp add: avail_slots_def)

lemma desc_release_avail:
  assumes "k < 65536" "j < 65536" "j \<noteq> k"
  shows "desc_avail (desc_release (ring + of_nat (32 * k)) flags m) (ring + of_nat (32 * j)) = desc_avail m (ring + of_nat (32 * j))"
proof -
  have "span (ring + of_nat (32 * k) + 10) 2 \<inter> span (ring + of_nat (32 * j) + 10) 2 = {}"
    using flag_span_disjoint(2) [of k j ring] assms by simp
  then have "desc_flags (desc_release (ring + of_nat (32 * k)) flags m) (ring + of_nat (32 * j)) = desc_flags m (ring + of_nat (32 * j))"
    by (intro desc_flags_cong desc_release_other) auto
  then show ?thesis by (simp add: desc_avail_def)
qed

lemma avail_slots_release:
  assumes "k \<le> unat idx_mask"
  shows "avail_slots ring idx_mask (desc_release (ring + of_nat (32 * k)) flags m) = avail_slots ring idx_mask m - {k}"
proof -
  have "unat idx_mask < 65536" using unat_lt [of idx_mask] by simp
  then have "j \<in> avail_slots ring idx_mask (desc_release (ring + of_nat (32 * k)) flags m) \<longleftrightarrow> j \<in> avail_slots ring idx_mask m - {k}" for j
    using assms desc_release_avail [of k j ring flags m] desc_release_unavail [of "ring + of_nat (32 * k)" flags m]
    unfolding avail_slots_def by (cases "j = k") auto
  then show ?thesis by blast
qed

lemma tx_loop_ends: "card (avail_slots ring (tq_idx_mask q) (vd_mem s)) < fuel \<Longrightarrow> safe (tx_loop env fuel ring q mbufs n s) (\<lambda>_. True)"
proof (induction env fuel ring q mbufs n s rule: tx_loop.induct)
  case (2 env fuel ring q mbufs n s)
  let ?d = "desc_at ring (tq_idx_mask q) (tq_back_idx q)" and ?k = "slot (tq_idx_mask q) (tq_back_idx q)"
  let ?m = "desc_release ?d (desc_flags (vd_mem s) ?d) (vd_mem s)"
  show ?case
  proof (cases "burst_size \<le> length mbufs \<or> \<not> desc_avail (vd_mem s) ?d")
    case False
    have d: "?d = ring + of_nat (32 * ?k)" by (rule desc_at_slot)
    have k: "?k \<in> avail_slots ring (tq_idx_mask q) (vd_mem s)" using False slot_le d by (simp add: avail_slots_def)
    have "avail_slots ring (tq_idx_mask q) ?m = avail_slots ring (tq_idx_mask q) (vd_mem s) - {?k}"
      unfolding d by (rule avail_slots_release [OF slot_le])
    then have c: "card (avail_slots ring (tq_idx_mask q) ?m) < fuel" using 2(2) k by (simp add: card_gt_0_iff) (metis card_gt_0_iff empty_iff finite_avail_slots less_diff_conv Suc_less_eq Suc_pred)
    have "safe (dma_local_addr v a l) (\<lambda>_. True)" for v a l unfolding dma_local_addr_def by (rule find_mapping_safe)
    then show ?thesis using 2(1) False c
      by (auto simp: Let_def desc_avail_def split: option.split intro: safe_mono)
  qed (auto simp: desc_avail_def)
qed simp

text \<open>
  C18: polling the transmit ring ends.  Whatever the guest has written to the ring, the
  loop runs at most once for each of its descriptors that is marked available,
  because every round clears a mark: fuel for as many rounds as a ring can have
  descriptors is enough, and no run leaves an array.
\<close>

theorem vdpdk_tx_poll_ends:
  "safe (tx_poll env (65537 + fuel) dma_invalidated s) (\<lambda>_. True)"
proof -
  have "card (avail_slots ring idx_mask m) < 65537 + fuel" for ring idx_mask m
  proof -
    have "avail_slots ring idx_mask m \<subseteq> {..< 65536}" using unat_lt [of idx_mask] by (auto simp: avail_slots_def)
    then have "card (avail_slots ring idx_mask m) \<le> card {..< (65536 :: nat)}" by (intro card_mono) simp_all
    then show ?thesis by simp
  qed
  then have l: "safe (tx_loop env (65537 + fuel) ring q mbufs n s) (\<lambda>_. True)" for ring q mbufs n s
    by (rule tx_loop_ends)
  have "safe (tx_ring_addr dma_invalidated q s) (\<lambda>_. True)" for q
    using find_mapping_safe by (simp add: tx_ring_addr_def dma_local_addr_def)
  moreover have "safe (tx_loop env (65537 + fuel) ring q mbufs n s) (\<lambda>a. safe (case a of (None, s) \<Rightarrow> Ok s | (Some mbufs, s) \<Rightarrow> f mbufs s) (\<lambda>_. True))"
    if "\<And>mbufs s. safe (f mbufs s) (\<lambda>_. True)" for ring q mbufs n s and f :: "_ \<Rightarrow> _ \<Rightarrow> vdpdk res"
    using that by (intro safe_mono [OF l]) (auto split: option.split)
  ultimately show ?thesis unfolding tx_poll_def
    by (auto simp: Let_def split: option.split intro!: safe_mono)
qed

section \<open>What a transmit poll sends\<close>

definition buf_addr :: "vdpdk \<Rightarrow> u64 \<Rightarrow> u64 option res" where
  "buf_addr s d = dma_local_addr (vd_vfu s) (desc_iova (vd_mem s) d) (ucast (desc_buf_len (vd_mem s) d))"

definition tx_desc :: "u64 \<Rightarrow> TxQueue \<Rightarrow> nat \<Rightarrow> u64" where
  "tx_desc ring q i = desc_at ring (tq_idx_mask q) (tq_back_idx q + of_nat i)"

definition tx_slot :: "TxQueue \<Rightarrow> nat \<Rightarrow> nat" where
  "tx_slot q i = slot (tq_idx_mask q) (tq_back_idx q + of_nat i)"

text \<open>
  The next \<open>n\<close> descriptors are different, available and name the buffers \<open>bufs\<close>,
  which do not overlap the flags of these descriptors.
\<close>

definition tx_ready :: "vdpdk \<Rightarrow> u64 \<Rightarrow> TxQueue \<Rightarrow> u64 list \<Rightarrow> bool" where
  "tx_ready s ring q bufs \<longleftrightarrow> (let n = length bufs; d = tx_desc ring q; m = vd_mem s in
     inj_on (tx_slot q) {..<n} \<and>
     (\<forall>i < n. desc_avail m (d i) \<and> buf_addr s (d i) = Ok (Some (bufs ! i))) \<and>
     (\<forall>i < n. \<forall>j < n. span (bufs ! i) (unat (desc_buf_len m (d i))) \<inter> span (d j + 10) 2 = {}))"

definition tx_data :: "vdpdk \<Rightarrow> u64 \<Rightarrow> TxQueue \<Rightarrow> u64 list \<Rightarrow> nat \<Rightarrow> u8 list" where
  "tx_data s ring q bufs i = mem_read (vd_mem s) (bufs ! i) (unat (desc_buf_len (vd_mem s) (tx_desc ring q i)))"

text \<open>The state after \<open>i\<close> rounds.\<close>

definition tx_after :: "vdpdk \<Rightarrow> u64 \<Rightarrow> TxQueue \<Rightarrow> nat \<Rightarrow> vdpdk \<Rightarrow> bool" where
  "tx_after s ring q i s' \<longleftrightarrow>
     (\<forall>x. (\<forall>j < i. x \<notin> span (tx_desc ring q j + 10) 2) \<longrightarrow> vd_mem s' x = vd_mem s x) \<and>
     (\<forall>j < i. \<not> desc_avail (vd_mem s') (tx_desc ring q j)) \<and>
     tx_queue s' = Some (q\<lparr>tq_back_idx := tq_back_idx q + of_nat i\<rparr>) \<and> vd_vfu s' = vd_vfu s \<and> tx_bursts s' = tx_bursts s \<and>
     rx_queues s' = rx_queues s"

lemma tx_desc_slot: "tx_desc ring q i = ring + of_nat (32 * tx_slot q i)"
  unfolding tx_desc_def tx_slot_def by (rule desc_at_slot)

lemma tx_slot_lt: "tx_slot q i < 65536"
  unfolding tx_slot_def by (rule slot_lt)

lemma tx_desc_flags_fields: "span (tx_desc ring q j + 10) 2 \<inter> span (tx_desc ring q i) 10 = {}"
  unfolding tx_desc_slot using flag_span_disjoint(1) [OF tx_slot_lt tx_slot_lt] .

lemma tx_desc_flags_flags:
  "tx_slot q i \<noteq> tx_slot q j \<Longrightarrow> span (tx_desc ring q i + 10) 2 \<inter> span (tx_desc ring q j + 10) 2 = {}"
  unfolding tx_desc_slot using flag_span_disjoint(2) [OF tx_slot_lt tx_slot_lt] .

lemma tx_after_mem:
  "tx_after s ring q i s' \<Longrightarrow> (\<And>j. j < i \<Longrightarrow> x \<notin> span (tx_desc ring q j + 10) 2) \<Longrightarrow> vd_mem s' x = vd_mem s x"
  by (simp add: tx_after_def)

text \<open>What a round reads is what the ring held at the start.\<close>

lemma tx_after_reads:
  assumes "tx_after s ring q i s'"
  shows "desc_iova (vd_mem s') (tx_desc ring q k) = desc_iova (vd_mem s) (tx_desc ring q k)"
    "desc_buf_len (vd_mem s') (tx_desc ring q k) = desc_buf_len (vd_mem s) (tx_desc ring q k)"
    "(\<And>j. j < i \<Longrightarrow> tx_slot q j \<noteq> tx_slot q k) \<Longrightarrow> desc_flags (vd_mem s') (tx_desc ring q k) = desc_flags (vd_mem s) (tx_desc ring q k)"
proof -
  have "vd_mem s' x = vd_mem s x" if "x \<in> span (tx_desc ring q k) 10" for x
    using that tx_desc_flags_fields [of ring q _ k] by (intro tx_after_mem [OF assms]) blast
  then show "desc_iova (vd_mem s') (tx_desc ring q k) = desc_iova (vd_mem s) (tx_desc ring q k)"
    "desc_buf_len (vd_mem s') (tx_desc ring q k) = desc_buf_len (vd_mem s) (tx_desc ring q k)"
    by (simp_all add: desc_fields_cong [where m' = "vd_mem s'" and m = "vd_mem s"])
  assume d: "\<And>j. j < i \<Longrightarrow> tx_slot q j \<noteq> tx_slot q k"
  show "desc_flags (vd_mem s') (tx_desc ring q k) = desc_flags (vd_mem s) (tx_desc ring q k)"
    using d tx_desc_flags_flags [of q _ k ring] by (intro desc_flags_cong tx_after_mem [OF assms]) blast
qed

lemma tx_after_release:
  assumes "tx_after s ring q i s'" "\<And>j. j < i \<Longrightarrow> tx_slot q j \<noteq> tx_slot q i"
  shows "tx_after s ring q (Suc i) (s'\<lparr>vd_mem := desc_release (tx_desc ring q i) flags (vd_mem s'),
    tx_queue := Some (q\<lparr>tq_back_idx := tq_back_idx q + of_nat i + 1\<rparr>)\<rparr>)"
proof -
  have "\<not> desc_avail (desc_release (tx_desc ring q i) flags (vd_mem s')) (tx_desc ring q j)" if "j \<le> i" for j
  proof (cases "j = i")
    case False
    then have "tx_slot q j \<noteq> tx_slot q i" "\<not> desc_avail (vd_mem s') (tx_desc ring q j)" using that assms by (auto simp: tx_after_def)
    then show ?thesis unfolding tx_desc_slot by (simp add: desc_release_avail tx_slot_lt del: of_nat_mult)
  qed (simp add: desc_release_unavail)
  then show ?thesis using assms(1) desc_release_other [of _ "tx_desc ring q i" flags "vd_mem s'"]
    by (auto simp: tx_after_def less_Suc_eq algebra_simps)
qed

lemma tx_loop_sends:
  assumes ready: "tx_ready s ring q bufs" and fits: "\<forall>i < length bufs. unat (desc_buf_len (vd_mem s) (tx_desc ring q i)) \<le> tailroom env"
    and alloc: "\<forall>i < length bufs. mbuf_alloc env i" and n: "length bufs \<le> burst_size"
    and stop: "length bufs = burst_size \<or> \<not> desc_avail (vd_mem s) (tx_desc ring q (length bufs)) \<or>
      tx_slot q (length bufs) \<in> tx_slot q ` {..<length bufs}"
  shows "tx_after s ring q i s' \<Longrightarrow> i \<le> length bufs \<Longrightarrow> length bufs - i < fuel \<Longrightarrow>
    \<exists>s''. tx_loop env fuel ring (q\<lparr>tq_back_idx := tq_back_idx q + of_nat i\<rparr>) (map (tx_data s ring q bufs) [0..<i]) i s' =
      Ok (Some (map (tx_data s ring q bufs) [0..<length bufs]), s'') \<and> tx_after s ring q (length bufs) s''"
proof (induction fuel arbitrary: i s')
  case (Suc fuel)
  let ?d = "tx_desc ring q i" and ?q = "q\<lparr>tq_back_idx := tq_back_idx q + of_nat i\<rparr>"
  have d: "desc_at ring (tq_idx_mask ?q) (tq_back_idx ?q) = ?d" by (simp add: tx_desc_def)
  note rd = tx_after_reads [OF Suc.prems(1), of i]
  show ?case
  proof (cases "i = length bufs")
    case True
    have "\<not> desc_avail (vd_mem s') ?d" if "i \<noteq> burst_size"
    proof (cases "tx_slot q i \<in> tx_slot q ` {..<i}")
      case slot_used: True
      then obtain j where "j < i" "tx_desc ring q j = ?d" by (auto simp: tx_desc_slot)
      then show ?thesis using Suc.prems(1) by (auto simp: tx_after_def)
    next
      case False
      then have "desc_flags (vd_mem s') ?d = desc_flags (vd_mem s) ?d" by (intro rd(3)) (metis imageI lessThan_iff)
      then show ?thesis using False stop that True by (simp add: desc_avail_def)
    qed
    then show ?thesis using True d Suc.prems(1) by (auto simp: desc_avail_def Let_def)
  next
    case False
    then have i: "i < length bufs" using Suc.prems(2) by simp
    have inj: "tx_slot q j \<noteq> tx_slot q i" if "j < i" for j
      using ready i that by (auto simp: tx_ready_def Let_def dest: inj_onD)
    have b: "desc_avail (vd_mem s) ?d" "buf_addr s ?d = Ok (Some (bufs ! i))"
      "\<And>j. j < length bufs \<Longrightarrow> span (bufs ! i) (unat (desc_buf_len (vd_mem s) ?d)) \<inter> span (tx_desc ring q j + 10) 2 = {}"
      using ready i by (auto simp: tx_ready_def Let_def)
    have f: "desc_flags (vd_mem s') ?d = desc_flags (vd_mem s) ?d" using inj by (intro rd(3)) auto
    have "mem_read (vd_mem s') (bufs ! i) (unat (desc_buf_len (vd_mem s) ?d)) = tx_data s ring q bufs i"
      unfolding tx_data_def
    proof (rule mem_read_cong)
      show "unat (desc_buf_len (vd_mem s) ?d) \<le> 2 ^ 64" using unat_lt [of "desc_buf_len (vd_mem s) ?d"] by simp
      show "vd_mem s' x = vd_mem s x" if "x \<in> span (bufs ! i) (unat (desc_buf_len (vd_mem s) ?d))" for x
        using b(3) i that by (intro tx_after_mem [OF Suc.prems(1)]) (meson disjoint_iff less_trans)
    qed
    then have data: "mem_read (vd_mem s') (bufs ! i) (unat (desc_buf_len (vd_mem s') ?d)) = tx_data s ring q bufs i" by (simp add: rd(2))
    have tr: "dma_local_addr (vd_vfu s') (desc_iova (vd_mem s') ?d) (ucast (desc_buf_len (vd_mem s') ?d)) = Ok (Some (bufs ! i))"
      using b(2) Suc.prems(1) by (simp add: buf_addr_def rd tx_after_def)
    let ?s = "s'\<lparr>vd_mem := desc_release ?d (desc_flags (vd_mem s') ?d) (vd_mem s'),
      tx_queue := Some (q\<lparr>tq_back_idx := tq_back_idx q + of_nat i + 1\<rparr>)\<rparr>"
    have "tx_after s ring q (Suc i) ?s" by (rule tx_after_release [OF Suc.prems(1) inj])
    moreover have "Suc i \<le> length bufs" "length bufs - Suc i < fuel" using i Suc.prems(3) by linarith+
    ultimately obtain s'' where
      "tx_loop env fuel ring (q\<lparr>tq_back_idx := tq_back_idx q + of_nat (Suc i)\<rparr>) (map (tx_data s ring q bufs) [0..<Suc i]) (Suc i) ?s =
        Ok (Some (map (tx_data s ring q bufs) [0..<length bufs]), s'')" "tx_after s ring q (length bufs) s''" using Suc.IH by blast
    moreover have "\<not> tailroom env < unat (desc_buf_len (vd_mem s) ?d)" using fits i by (auto simp: not_less)
    ultimately show ?thesis using i n b(1) f tr data alloc rd(2) d by (simp add: Let_def desc_avail_def add.commute add.left_commute)
  qed
qed simp

text \<open>
  C19: a transmit poll sends what the guest queued.  When the next descriptors are
  available, name mapped buffers apart from the descriptors' flags and packets that fit, the
  poll hands their contents to the card in one burst, in the order of the ring, up to
  128 or to the first descriptor that is not available; it moves its index
  behind them, gives every buffer back, and writes nothing but the flags of these
  descriptors.
\<close>

theorem vdpdk_tx_sends:
  assumes "tx_queue s = Some q" "tx_ring_addr dma_invalidated q s = Ok (Some ring)" "tx_ready s ring q bufs"
    and "\<forall>i < length bufs. mbuf_alloc env i \<and> unat (desc_buf_len (vd_mem s) (tx_desc ring q i)) \<le> tailroom env"
    and "length bufs = 128 \<or> length bufs < 128 \<and> (\<not> desc_avail (vd_mem s) (tx_desc ring q (length bufs)) \<or>
      tx_slot q (length bufs) \<in> tx_slot q ` {..<length bufs})"
    and "length bufs < fuel"
  shows "\<exists>s'. tx_poll env fuel dma_invalidated s = Ok s' \<and>
    tx_bursts s' = tx_bursts s @ (if bufs = [] then [] else [map (tx_data s ring q bufs) [0..<length bufs]]) \<and>
    tx_queue s' = Some (q\<lparr>tq_ring := Some ring, tq_back_idx := tq_back_idx q + of_nat (length bufs)\<rparr>) \<and>
    (\<forall>i < length bufs. \<not> desc_avail (vd_mem s') (tx_desc ring q i)) \<and>
    (\<forall>x. (\<forall>i < length bufs. x \<notin> span (tx_desc ring q i + 10) 2) \<longrightarrow> vd_mem s' x = vd_mem s x)"
proof -
  let ?q = "q\<lparr>tq_ring := Some ring\<rparr>" and ?s = "s\<lparr>tx_queue := Some (q\<lparr>tq_ring := Some ring\<rparr>)\<rparr>" and ?n = "length bufs"
  have e: "tx_desc ring ?q = tx_desc ring q" "tx_slot ?q = tx_slot q" "tx_data ?s ring ?q bufs = tx_data s ring q bufs"
    by (auto simp: tx_desc_def tx_slot_def tx_data_def fun_eq_iff)
  have "tx_ready ?s ring ?q bufs" using assms(3) by (simp add: tx_ready_def e buf_addr_def Let_def)
  moreover have "tx_after ?s ring ?q 0 ?s" by (simp add: tx_after_def)
  ultimately obtain s'' where l: "tx_loop env fuel ring ?q [] 0 ?s = Ok (Some (map (tx_data s ring q bufs) [0..<?n]), s'')"
    "tx_after ?s ring ?q ?n s''"
    using tx_loop_sends [of ?s ring ?q bufs env 0 ?s fuel] assms(4-6) by (auto simp: e burst_size_def)
  then show ?thesis using assms(1,2) by (auto simp: tx_poll_def tx_after_def e Let_def)
qed

section \<open>What a receive poll delivers\<close>

definition rx_desc :: "u64 \<Rightarrow> RxQueue \<Rightarrow> nat \<Rightarrow> u64" where
  "rx_desc ring rxq i = desc_at ring (rq_idx_mask rxq) (rq_idx rxq + of_nat i)"

text \<open>What receiving packet \<open>i\<close> writes: its buffer, and the length and flags of its descriptor.\<close>

definition rx_writes :: "u64 \<Rightarrow> RxQueue \<Rightarrow> u64 list \<Rightarrow> u8 list list \<Rightarrow> nat \<Rightarrow> u64 set" where
  "rx_writes ring rxq bufs pkts i = span (bufs ! i) (length (pkts ! i)) \<union> span (rx_desc ring rxq i + 8) 4"

text \<open>
  There are available descriptors for the packets; they name the buffers \<open>bufs\<close>, which are large
  enough and overlap neither each other nor the descriptors.
\<close>

definition rx_ready :: "vdpdk \<Rightarrow> u64 \<Rightarrow> RxQueue \<Rightarrow> u64 list \<Rightarrow> u8 list list \<Rightarrow> bool" where
  "rx_ready s ring rxq bufs pkts \<longleftrightarrow> (let d = rx_desc ring rxq; m = vd_mem s; n = length pkts in
     length bufs = n \<and>
     (\<forall>i < n. desc_avail m (d i) \<and> buf_addr s (d i) = Ok (Some (bufs ! i)) \<and> length (pkts ! i) \<le> unat (desc_buf_len m (d i))) \<and>
     (\<forall>i < n. \<forall>j < n. span (bufs ! i) (length (pkts ! i)) \<inter> span (d j) 12 = {}) \<and>
     (\<forall>i < n. \<forall>j < n. i \<noteq> j \<longrightarrow> rx_writes ring rxq bufs pkts i \<inter> rx_writes ring rxq bufs pkts j = {}))"

definition rx_delivered :: "u64 \<Rightarrow> RxQueue \<Rightarrow> u64 list \<Rightarrow> u8 list list \<Rightarrow> (u64 \<Rightarrow> u8) \<Rightarrow> nat \<Rightarrow> bool" where
  "rx_delivered ring rxq bufs pkts m i \<longleftrightarrow> mem_read m (bufs ! i) (length (pkts ! i)) = pkts ! i \<and>
     unat (desc_buf_len m (rx_desc ring rxq i)) = length (pkts ! i) \<and> \<not> desc_avail m (rx_desc ring rxq i)"

definition rx_after :: "nat \<Rightarrow> vdpdk \<Rightarrow> u64 \<Rightarrow> RxQueue \<Rightarrow> u64 list \<Rightarrow> u8 list list \<Rightarrow> nat \<Rightarrow> vdpdk \<Rightarrow> bool" where
  "rx_after k s ring rxq bufs pkts i s' \<longleftrightarrow>
     (\<forall>x. (\<forall>j < i. x \<notin> rx_writes ring rxq bufs pkts j) \<longrightarrow> vd_mem s' x = vd_mem s x) \<and>
     (\<forall>j < i. rx_delivered ring rxq bufs pkts (vd_mem s') j) \<and>
     rx_queues s' = (if i = 0 then rx_queues s else (rx_queues s)[k := Some (rxq\<lparr>rq_idx := rq_idx rxq + of_nat i\<rparr>)]) \<and>
     vd_vfu s' = vd_vfu s \<and> tx_queue s' = tx_queue s"

lemma rx_after_mem:
  "rx_after k s ring rxq bufs pkts i s' \<Longrightarrow> (\<And>j. j < i \<Longrightarrow> x \<notin> rx_writes ring rxq bufs pkts j) \<Longrightarrow> vd_mem s' x = vd_mem s x"
  by (simp add: rx_after_def)

lemma rx_delivered_cong:
  assumes "rx_delivered ring rxq bufs pkts m i" "\<And>x. x \<in> rx_writes ring rxq bufs pkts i \<Longrightarrow> m' x = m x" "length (pkts ! i) \<le> 2 ^ 64"
  shows "rx_delivered ring rxq bufs pkts m' i"
proof -
  let ?d = "rx_desc ring rxq i"
  have "span (?d + 8) 2 \<subseteq> span (?d + 8) 4" "span (?d + 10) 2 \<subseteq> span (?d + 8) 4" by (simp_all add: span_subset)
  then have "mem_read m' (?d + 8) 2 = mem_read m (?d + 8) 2" "mem_read m' (?d + 10) 2 = mem_read m (?d + 10) 2"
    "mem_read m' (bufs ! i) (length (pkts ! i)) = mem_read m (bufs ! i) (length (pkts ! i))"
    using assms(2,3) by (auto simp: rx_writes_def intro!: mem_read_cong)
  then show ?thesis using assms(1) by (simp add: rx_delivered_def desc_buf_len_def desc_flags_def desc_avail_def)
qed

text \<open>The three writes of a packet.\<close>

lemma rx_writes_deliver:
  assumes "span b (length pkt) \<inter> span (d + 8) 4 = {}" "length pkt < 65536"
    and m': "m' = desc_release d flags (mem_write (d + 8) (le_bytes 2 (of_nat (length pkt) :: u16)) (mem_write b pkt m))"
  shows "mem_read m' b (length pkt) = pkt" "unat (desc_buf_len m' d) = length pkt" "\<not> desc_avail m' d"
    "\<And>x. x \<notin> span b (length pkt) \<union> span (d + 8) 4 \<Longrightarrow> m' x = m x"
proof -
  have s: "span (d + 8) 2 \<subseteq> span (d + 8) 4" "span (d + 10) 2 \<subseteq> span (d + 8) 4" by (simp_all add: span_subset)
  have fl: "span (d + 10) 2 \<inter> span (d + 8) 2 = {}" using span_offset_disjoint [of 8 2 10 2 d] by (simp add: Int_commute)
  have l: "length pkt \<le> 2 ^ 64" using assms(2) by simp
  have *: "m' x = mem_write b pkt m x" if "x \<notin> span (d + 8) 4" for x
  proof -
    have "x \<notin> span (d + 8) 2" "x \<notin> span (d + 10) 2" using that s by blast+
    then show ?thesis by (simp add: m' desc_release_other mem_write_other)
  qed
  then have "mem_read m' b (length pkt) = mem_read (mem_write b pkt m) b (length pkt)" using assms(1) l by (intro mem_read_cong) auto
  then show "mem_read m' b (length pkt) = pkt" using l by (simp add: mem_read_write)
  have "desc_buf_len m' d = le_word (mem_read (mem_write (d + 8) (le_bytes 2 (of_nat (length pkt) :: u16)) (mem_write b pkt m)) (d + 8) 2)"
    unfolding m' desc_buf_len_def desc_release_def using mem_read_disjoint [OF _ _ _, of "d + 10" "le_bytes 2 (flags AND NOT 1)" "d + 8" 2] fl by simp
  also have "\<dots> = (of_nat (length pkt) :: u16)"
    using mem_read_write [of "le_bytes 2 (of_nat (length pkt) :: u16)" "d + 8"] by (simp add: le_word_2)
  finally show "unat (desc_buf_len m' d) = length pkt" using assms(2) by (simp add: unat_of_nat)
  show "\<not> desc_avail m' d" unfolding m' by (rule desc_release_unavail)
  show "m' x = m x" if "x \<notin> span b (length pkt) \<union> span (d + 8) 4" for x
    using that * l by (simp add: mem_write_other)
qed

lemma rx_desc_fields: "span (rx_desc ring rxq j + 8) 4 \<inter> span (rx_desc ring rxq i) 8 = {}"
  unfolding rx_desc_def desc_at_slot using desc_spans [of _ _ 8 4 0 8 ring] slot_lt by simp

lemma span_12: "span d 12 = span d 8 \<union> span (d + 8) 4"
proof (rule set_eqI)
  fix x
  have "x \<in> span (d + 8) 4 \<longleftrightarrow> 8 \<le> unat (x - d) \<and> unat (x - d) < 12" using span_offset [of 8 4 x d] by simp
  then show "x \<in> span d 12 \<longleftrightarrow> x \<in> span d 8 \<union> span (d + 8) 4" unfolding span_def [of d] by auto
qed

lemma rx_packets_deliver:
  assumes ready: "rx_ready s ring rxq bufs pkts"
  shows "rx_after k s ring rxq bufs pkts i s' \<Longrightarrow> i \<le> length pkts \<Longrightarrow>
    \<exists>s''. rx_packets k (rxq\<lparr>rq_idx := rq_idx rxq + of_nat i\<rparr>) ring (drop i pkts @ rest) s' =
      rx_packets k (rxq\<lparr>rq_idx := rq_idx rxq + of_nat (length pkts)\<rparr>) ring rest s'' \<and> rx_after k s ring rxq bufs pkts (length pkts) s''"
proof (induction "length pkts - i" arbitrary: i s')
  case (Suc j)
  then have i: "i < length pkts" by simp
  let ?d = "rx_desc ring rxq i" and ?p = "pkts ! i"
  have d: "desc_at ring (rq_idx_mask rxq) (rq_idx rxq + of_nat i) = ?d" by (simp add: rx_desc_def)
  have r: "desc_avail (vd_mem s) ?d" "buf_addr s ?d = Ok (Some (bufs ! i))" "length ?p \<le> unat (desc_buf_len (vd_mem s) ?d)"
    "\<And>j. j < length pkts \<Longrightarrow> span (bufs ! j) (length (pkts ! j)) \<inter> span ?d 12 = {}"
    "\<And>j. j < length pkts \<Longrightarrow> j \<noteq> i \<Longrightarrow> rx_writes ring rxq bufs pkts i \<inter> rx_writes ring rxq bufs pkts j = {}"
    using ready i by (auto simp: rx_ready_def Let_def)
  have len: "length (pkts ! j) < 65536" if "j < length pkts" for j
  proof -
    have "length (pkts ! j) \<le> unat (desc_buf_len (vd_mem s) (rx_desc ring rxq j))" using ready that by (auto simp: rx_ready_def Let_def)
    then show ?thesis using unat_lt [of "desc_buf_len (vd_mem s) (rx_desc ring rxq j)"] by simp
  qed
  have out: "vd_mem s' x = vd_mem s x" if x: "x \<in> span ?d 12" for x
  proof -
    have "x \<notin> rx_writes ring rxq bufs pkts j" if "j < i" for j
    proof -
      have "x \<in> span ?d 8 \<or> x \<in> rx_writes ring rxq bufs pkts i" using x by (auto simp: span_12 rx_writes_def)
      moreover have "span (bufs ! j) (length (pkts ! j)) \<inter> span ?d 12 = {}" "rx_writes ring rxq bufs pkts i \<inter> rx_writes ring rxq bufs pkts j = {}"
        using r(4,5) [of j] that i by simp_all
      ultimately show ?thesis using x rx_desc_fields [of ring rxq j i] unfolding rx_writes_def [of ring rxq bufs pkts j] by blast
    qed
    then show ?thesis using Suc.prems(1) by (simp add: rx_after_def)
  qed
  have "span (?d + 10) 2 \<subseteq> span ?d 12" "span ?d 10 \<subseteq> span ?d 12" by (simp_all add: span_subset)
  then have f: "desc_flags (vd_mem s') ?d = desc_flags (vd_mem s) ?d" "desc_iova (vd_mem s') ?d = desc_iova (vd_mem s) ?d"
    "desc_buf_len (vd_mem s') ?d = desc_buf_len (vd_mem s) ?d"
    using out by (blast intro: desc_flags_cong desc_fields_cong)+
  let ?m = "desc_release ?d (desc_flags (vd_mem s) ?d) (mem_write (?d + 8) (le_bytes 2 (of_nat (length ?p) :: u16)) (mem_write (bufs ! i) ?p (vd_mem s')))"
  have "span (bufs ! i) (length ?p) \<inter> span (?d + 8) 4 = {}" using r(4) [OF i] unfolding span_12 by blast
  note w = rx_writes_deliver [where flags = "desc_flags (vd_mem s) ?d" and m = "vd_mem s'", OF this len [OF i] refl]
  have pk: "rx_packet (rxq\<lparr>rq_idx := rq_idx rxq + of_nat i\<rparr>) ring ?p s' = Ok (Some (s'\<lparr>vd_mem := ?m\<rparr>))"
    using r(1-3) len [OF i] Suc.prems(1) d
    by (simp add: rx_packet_def f Let_def desc_avail_def buf_addr_def rx_after_def unat_of_nat)
  let ?q = "rxq\<lparr>rq_idx := rq_idx rxq + of_nat (Suc i)\<rparr>"
  let ?s = "s'\<lparr>vd_mem := ?m, rx_queues := (rx_queues s')[k := Some ?q]\<rparr>"
  have "rx_delivered ring rxq bufs pkts ?m j" if "j < Suc i" for j
  proof (cases "j = i")
    case False
    then have "rx_delivered ring rxq bufs pkts (vd_mem s') j" using Suc.prems(1) that by (simp add: rx_after_def)
    then show ?thesis
    proof (rule rx_delivered_cong)
      show "?m x = vd_mem s' x" if "x \<in> rx_writes ring rxq bufs pkts j" for x
        using r(5) [of j] that \<open>j < Suc i\<close> False i by (intro w(4)) (auto simp: rx_writes_def)
    qed (use len [of j] that i in simp)
  qed (use w in \<open>simp add: rx_delivered_def\<close>)
  moreover have "?m x = vd_mem s x" if "\<forall>j < Suc i. x \<notin> rx_writes ring rxq bufs pkts j" for x
    using w(4) [of x] that Suc.prems(1) by (simp add: rx_after_def rx_writes_def)
  ultimately have "rx_after k s ring rxq bufs pkts (Suc i) ?s" using Suc.prems(1) by (auto simp: rx_after_def)
  from Suc.hyps(1) [OF _ this] Suc.hyps(2) i pk show ?case
    by (simp add: Cons_nth_drop_Suc [symmetric] Let_def algebra_simps)
qed auto

text \<open>
  C20: a receive poll delivers packets to the guest.  When the next descriptors of the
  ring are available and name mapped, large enough buffers that overlap neither each other nor the
  descriptors, each packet is in its buffer in the order of arrival, the descriptor has
  its length and is given back, the index moves behind the last one, and no
  other memory changes; packets for which there is no available descriptor are
  dropped.  A queue of the back end that the guest did not start uses queue 0.
\<close>

theorem vdpdk_rx_delivers:
  assumes "rx_queues s ! rx_slot q_idx s = Some rxq"
    and "dma_local_addr (vd_vfu s) (rq_ring_iova rxq) (ring_size (rq_idx_mask rxq)) = Ok (Some ring)"
    and ready: "rx_ready s ring rxq bufs pkts" and "pkts \<noteq> []"
    and rest: "rest = [] \<or> \<not> desc_avail (vd_mem s) (rx_desc ring rxq (length pkts)) \<and>
      (\<forall>i < length pkts. rx_writes ring rxq bufs pkts i \<inter> span (rx_desc ring rxq (length pkts) + 10) 2 = {})"
  shows "\<exists>s'. rx_driver_queue (q_idx, pkts @ rest) s = Ok s' \<and>
    (\<forall>i < length pkts. mem_read (vd_mem s') (bufs ! i) (length (pkts ! i)) = pkts ! i \<and>
      unat (desc_buf_len (vd_mem s') (rx_desc ring rxq i)) = length (pkts ! i) \<and> \<not> desc_avail (vd_mem s') (rx_desc ring rxq i)) \<and>
    rx_queues s' = (rx_queues s)[rx_slot q_idx s := Some (rxq\<lparr>rq_idx := rq_idx rxq + of_nat (length pkts)\<rparr>)] \<and>
    (\<forall>x. (\<forall>i < length pkts. x \<notin> rx_writes ring rxq bufs pkts i) \<longrightarrow> vd_mem s' x = vd_mem s x)"
proof -
  let ?k = "rx_slot q_idx s" and ?n = "length pkts"
  have "rx_after ?k s ring rxq bufs pkts 0 s" by (simp add: rx_after_def)
  from rx_packets_deliver [OF ready this, of rest] obtain s' where
    r: "rx_packets ?k rxq ring (pkts @ rest) s = rx_packets ?k (rxq\<lparr>rq_idx := rq_idx rxq + of_nat ?n\<rparr>) ring rest s'"
    and a: "rx_after ?k s ring rxq bufs pkts ?n s'" by auto
  have "rx_packets ?k (rxq\<lparr>rq_idx := rq_idx rxq + of_nat ?n\<rparr>) ring rest s' = Ok s'"
  proof (cases rest)
    case (Cons p ps)
    then have "desc_flags (vd_mem s') (rx_desc ring rxq ?n) = desc_flags (vd_mem s) (rx_desc ring rxq ?n)"
      using rest by (intro desc_flags_cong rx_after_mem [OF a]) blast
    then have "desc_flags (vd_mem s') (rx_desc ring rxq ?n) AND 1 = 0" using rest Cons by (simp add: desc_avail_def)
    then show ?thesis by (simp add: Cons rx_packet_def rx_desc_def Let_def)
  qed simp
  then show ?thesis using assms(1,2,4) r a by (auto simp: rx_driver_queue_def rx_after_def rx_delivered_def)
qed

section \<open>Accesses to the register page\<close>

definition vd_ok :: "vdpdk \<Rightarrow> bool" where
  "vd_ok s \<longleftrightarrow> length (rx_queues s) = MAX_RX_QUEUES \<and> length (txCtl s) = REGION_SIZE \<and> length (rxCtl s) = REGION_SIZE \<and>
     length (flowbuf s) = REGION_SIZE"

text \<open>The structures of a flow rule fit into the flow page, and the fields into the structures.\<close>

definition layout_fits :: "'e vdpdk_env_scheme \<Rightarrow> bool" where
  "layout_fits env \<longleftrightarrow> attr_size env + 3 * eth_size env + action_size env + 2 \<le> REGION_SIZE \<and>
     eth_type_off env + 2 \<le> eth_size env \<and> action_index_off env + 2 \<le> action_size env"

definition new_rules :: "u8 list \<Rightarrow> vdpdk \<Rightarrow> vdpdk \<Rightarrow> bool" where
  "new_rules mac s s' \<longleftrightarrow> flow_calls s' = flow_calls s \<or>
     (\<exists>etype index. flow_calls s' = flow_calls s @ [(mac, etype, index)] \<and> unat index < MAX_RX_QUEUES)"

definition accessed :: "u8 list \<Rightarrow> u8 list \<Rightarrow> vdpdk \<Rightarrow> access \<Rightarrow> bool" where
  "accessed mac buf s r \<longleftrightarrow> (\<exists>ret buf' s'. r = Ok (ret, buf', s') \<and> vd_ok s' \<and> length buf' = length buf \<and>
     (ret = -1 \<and> buf' = buf \<and> s' = s \<or> ret = int (length buf)) \<and> vd_mem s' = vd_mem s \<and> vd_vfu s' = vd_vfu s \<and> new_rules mac s s')"

lemma flow_struct_ok:
  "src + n \<le> length fb \<Longrightarrow> \<exists>b src'. flow_struct present n fb src = Ok (b, src') \<and> length b = n \<and> src' \<le> src + n"
  by (simp add: flow_struct_def get_in_def)

lemma flow_create_accessed:
  assumes "vd_ok s" "layout_fits env"
  shows "accessed (vd_mac_addr env) buf s (flow_create env buf s)"
proof (cases "length buf = 8")
  case True
  let ?fb = "flowbuf s"
  have l: "attr_size env + 3 * eth_size env + action_size env + 2 \<le> length ?fb" using assms by (simp add: vd_ok_def layout_fits_def)
  have b: "\<exists>x. get_in o1 1 ?fb = Ok [x]" if "o1 < length ?fb" for o1
    using that by (simp add: get_in_def take_Suc)
  obtain x where x: "get_in (attr_size env) 1 ?fb = Ok [x]" using b l by force
  obtain spec s1 where 1: "flow_struct (bit x 0) (eth_size env) ?fb (attr_size env + 1) = Ok (spec, s1)" "s1 \<le> attr_size env + 1 + eth_size env"
    using flow_struct_ok [of "attr_size env + 1" "eth_size env" ?fb] l by force
  obtain last s2 where 2: "flow_struct (bit x 1) (eth_size env) ?fb s1 = Ok (last, s2)" "s2 \<le> s1 + eth_size env"
    using flow_struct_ok [of s1 "eth_size env" ?fb] l 1(2) by force
  obtain mask s3 where 3: "flow_struct (bit x 2) (eth_size env) ?fb s2 = Ok (mask, s3)" "s3 \<le> s2 + eth_size env"
    using flow_struct_ok [of s2 "eth_size env" ?fb] l 1(2) 2(2) by force
  obtain y where y: "get_in s3 1 ?fb = Ok [y]" using b [of s3] l 1(2) 2(2) 3(2) by force
  obtain action s4 where 4: "flow_struct (y \<noteq> 0) (action_size env) ?fb (s3 + 1) = Ok (action, s4)"
    using flow_struct_ok [of "s3 + 1" "action_size env" ?fb] l 1(2) 2(2) 3(2) by force
  show ?thesis using True assms(1) x 1(1) 2(1) 3(1) y 4
    by (auto simp: accessed_def flow_create_def new_rules_def Let_def MAX_RX_QUEUES_def word_le_nat_alt vd_ok_def)
qed (use assms in \<open>simp add: flow_create_def accessed_def new_rules_def\<close>)

lemma region_write_accessed: "vd_ok s \<Longrightarrow> accessed mac buf s (region_access_write buf offset s)"
  by (auto simp: region_access_write_def accessed_def new_rules_def vd_ok_def Let_def)

lemma queue_start_accessed:
  "vd_ok s \<Longrightarrow> accessed mac buf s (tx_queue_start buf s)" "vd_ok s \<Longrightarrow> accessed mac buf s (rx_queue_start buf s)"
  by (auto simp: tx_queue_start_def rx_queue_start_def accessed_def new_rules_def vd_ok_def Let_def)

lemma length_strncpy: "length (strncpy src n) = n"
  by (simp add: strncpy_def Let_def)

lemma region_read_accessed:
  "vd_ok s \<Longrightarrow> layout_fits env \<Longrightarrow> accessed (vd_mac_addr env) buf s (region_access_read env buf offset s)"
  using flow_create_accessed queue_start_accessed unfolding region_access_read_def
  by (auto simp: Let_def accessed_def new_rules_def length_strncpy)


section \<open>A small device\<close>

definition demo_ring_mem :: "u64 \<Rightarrow> u8" where
  "demo_ring_mem = (\<lambda>_. 0)(0x9001 := 0x11, 0x9008 := 3, 0x900A := 1, 0x9100 := 7, 0x9101 := 8, 0x9102 := 9)"

definition demo_rxq :: RxQueue where
  "demo_rxq = \<lparr>rq_ring_iova = 0x1000, rq_idx_mask = 3, rq_idx = 0\<rparr>"

definition demo_txq :: TxQueue where
  "demo_txq = \<lparr>tq_ring_iova = 0x1000, tq_ring = None, tq_idx_mask = 3, tq_front_idx = 0, tq_back_idx = 0\<rparr>"

definition demo_vdpdk :: vdpdk where
  "demo_vdpdk = \<lparr>vd_vfu = \<lparr>mapped = {}, sgs = {}, mappings = [(0x1000, 0x9000, 0x1000)], iommu_calls = []\<rparr>, vd_mem = demo_ring_mem,
     dbg_string = [], txCtl = replicate REGION_SIZE 0, rxCtl = replicate REGION_SIZE 0, flowbuf = replicate REGION_SIZE 255,
     rx_queues = [Some demo_rxq, None, None, None], tx_queue = Some demo_txq, flow_calls = [], tx_bursts = []\<rparr>"

definition demo_vdpdk_env :: vdpdk_env where
  "demo_vdpdk_env = \<lparr>vd_mac_addr = [82, 84, 0, 250, 0, 96], flow_backend = (\<lambda>_ _ _. True), attr_size = 16, eth_size = 20, eth_type_off = 12,
     action_size = 2, action_index_off = 0, mbuf_alloc = (\<lambda>_. True), tailroom = 2048\<rparr>"

lemma demo_desc:
  "desc_flags demo_ring_mem 0x9000 = 1" "desc_iova demo_ring_mem 0x9000 = 0x1100" "desc_buf_len demo_ring_mem 0x9000 = 3"
  "desc_flags demo_ring_mem 0x9020 = 0"
  by code_simp+

lemma demo_ring: "desc_at 0x9000 3 0 = 0x9000" "desc_at 0x9000 3 1 = 0x9020" "slot 3 0 = 0" "slot 3 1 = 1" "ring_size 3 = 0x80"
  by code_simp+

lemma demo_translate: "dma_local_addr (vd_vfu demo_vdpdk) 0x1000 0x80 = Ok (Some 0x9000)" "dma_local_addr (vd_vfu demo_vdpdk) 0x1100 3 = Ok (Some 0x9100)"
  by (simp_all add: dma_local_addr_def demo_vdpdk_def)

lemma Suc_Suc_0: "Suc (Suc 0) = 2"
  by simp

lemma demo_spans: "span 0x9100 3 \<inter> span 0x900A 2 = {}" "span 0x9100 2 \<inter> span 0x9000 12 = {}"
  using span_offset_disjoint [of 10 2 256 3 "0x9000"] span_offset_disjoint [of 0 12 256 2 "0x9000"] by (simp_all add: Int_commute)

theorem vdpdk_tx_sends_witness:
  "\<exists>s'. tx_poll demo_vdpdk_env 2 False demo_vdpdk = Ok s' \<and> tx_bursts s' = [[[7, 8, 9]]] \<and> \<not> desc_avail (vd_mem s') 0x9000"
proof -
  have s: "vd_mem demo_vdpdk = demo_ring_mem" "tx_queue demo_vdpdk = Some demo_txq" "tx_bursts demo_vdpdk = []" by (simp_all add: demo_vdpdk_def)
  have d: "tx_desc 0x9000 demo_txq 0 = 0x9000" "tx_desc 0x9000 demo_txq (Suc 0) = 0x9020" "tx_slot demo_txq 0 = 0"
    by (simp_all add: tx_desc_def tx_slot_def demo_txq_def demo_ring)
  have b: "buf_addr demo_vdpdk 0x9000 = Ok (Some 0x9100)" by (simp add: buf_addr_def s demo_desc demo_translate)
  have "tx_ring_addr False demo_txq demo_vdpdk = Ok (Some 0x9000)" by (simp add: tx_ring_addr_def demo_txq_def demo_ring demo_translate)
  moreover have "tx_ready demo_vdpdk 0x9000 demo_txq [0x9100]"
    using b demo_spans(1) by (simp add: tx_ready_def d s demo_desc desc_avail_def lessThan_Suc)
  moreover have "tx_data demo_vdpdk 0x9000 demo_txq [0x9100] 0 = [7, 8, 9]"
    unfolding tx_data_def d s demo_desc by code_simp
  ultimately show ?thesis using vdpdk_tx_sends [of demo_vdpdk demo_txq False "0x9000" "[0x9100]" demo_vdpdk_env 2]
    by (auto simp: s d demo_desc desc_avail_def demo_vdpdk_env_def)
qed

theorem vdpdk_rx_delivers_witness:
  "\<exists>s'. rx_driver_queue (2, [[5, 6], [1]]) demo_vdpdk = Ok s' \<and> mem_read (vd_mem s') 0x9100 2 = [5, 6] \<and> \<not> desc_avail (vd_mem s') 0x9000"
proof -
  have s: "vd_mem demo_vdpdk = demo_ring_mem" "rx_queues demo_vdpdk ! rx_slot 2 demo_vdpdk = Some demo_rxq"
    by (simp_all add: demo_vdpdk_def rx_slot_def MAX_RX_QUEUES_def)
  have d: "rx_desc 0x9000 demo_rxq 0 = 0x9000" "rx_desc 0x9000 demo_rxq (Suc 0) = 0x9020"
    by (simp_all add: rx_desc_def demo_rxq_def demo_ring)
  have b: "buf_addr demo_vdpdk 0x9000 = Ok (Some 0x9100)" by (simp add: buf_addr_def s demo_desc demo_translate)
  have "dma_local_addr (vd_vfu demo_vdpdk) (rq_ring_iova demo_rxq) (ring_size (rq_idx_mask demo_rxq)) = Ok (Some 0x9000)"
    by (simp add: demo_rxq_def demo_ring demo_translate)
  moreover have "rx_ready demo_vdpdk 0x9000 demo_rxq [0x9100] [[5, 6]]"
    using b demo_spans(2) by (simp add: rx_ready_def d s demo_desc desc_avail_def Suc_Suc_0)
  moreover have "rx_writes 0x9000 demo_rxq [0x9100] [[5, 6]] 0 \<inter> span (0x9020 + 10) 2 = {}"
    using span_offset_disjoint [of 42 2 256 2 "0x9000"] span_offset_disjoint [of 8 4 42 2 "0x9000"] by (auto simp: rx_writes_def d Suc_Suc_0)
  ultimately show ?thesis using vdpdk_rx_delivers [OF s(2), of "0x9000" "[0x9100]" "[[5, 6]]" "[[1]]"]
    by (auto simp: s d demo_desc desc_avail_def Suc_Suc_0)
qed


end
