(* ===== verification/Vdpdk_Threads.thy ===== *)
theory Vdpdk_Threads
  imports Vdpdk_Device
begin

text \<open>
  The polling threads of the paravirtual device (\<open>VdpdkThreads\<close> in
  \<open>devices/vdpdk.cpp\<close>) and the thread that changes the memory mappings.  A polling
  thread holds the shared lock \<open>dma_mutex\<close> of each device it polls; a change of the
  mappings sets \<open>dma_flag\<close>, takes the lock exclusively, clears the flag and changes
  the table.  A polling thread that sees the flag gives the lock up, waits for
  the flag to clear, takes the lock again and tells the poll to look its
  addresses up again.

  Threads and devices are numbers; \<open>devs t\<close> are the devices that thread \<open>t\<close> polls in
  turn, one in \<open>tx_poll_thread_single\<close> and \<open>rx_poll_thread_single\<close>, two in
  \<open>tx_poll_thread_double\<close> and \<open>rx_poll_thread_double\<close>.  Atomic flags and the shared mutex
  are sequentially consistent.
\<close>

section \<open>The protocol\<close>

text \<open>Positions in a polling thread; the number is that of the device in the thread's list.\<close>

datatype poll_pc =
    P_Lock nat       \<comment> \<open>takes the shared locks when it starts\<close>
  | P_Check nat      \<comment> \<open>tests the flag (and, before the first device, the stop token)\<close>
  | P_Spin nat       \<comment> \<open>has released the lock and waits for the flag to clear\<close>
  | P_Relock nat
  | P_Poll nat bool  \<comment> \<open>polls, with \<open>dma_invalidated\<close>\<close>
  | P_Exit

text \<open>Positions in \<open>dma_register_cb\<close> and \<open>dma_unregister_cb\<close>.\<close>

datatype vfio_pc = V_Idle | V_Wait | V_Locked | V_Change

datatype actor = Thread nat | Vfio nat

text \<open>
  \<open>map_version\<close> counts the changes of a device's mappings, and \<open>cached\<close> is the version under which
  a thread has looked up the ring address that it keeps (\<open>TxQueue::ring\<close>).
\<close>

record vdpdk_threads =
  dma_flag :: "nat \<Rightarrow> bool"
  readers :: "nat \<Rightarrow> nat set"
  writer :: "nat \<Rightarrow> bool"
  poll_at :: "nat \<Rightarrow> poll_pc"
  vfio_at :: "nat \<Rightarrow> vfio_pc"
  map_version :: "nat \<Rightarrow> nat"
  cached :: "nat \<Rightarrow> nat \<Rightarrow> nat option"

definition threads_init :: vdpdk_threads where
  "threads_init = \<lparr>dma_flag = (\<lambda>_. False), readers = (\<lambda>_. {}), writer = (\<lambda>_. False), poll_at = (\<lambda>_. P_Lock 0),
     vfio_at = (\<lambda>_. V_Idle), map_version = (\<lambda>_. 0), cached = (\<lambda>_ _. None)\<rparr>"

definition goto :: "nat \<Rightarrow> poll_pc \<Rightarrow> vdpdk_threads \<Rightarrow> vdpdk_threads" where
  "goto t pc s = s\<lparr>poll_at := (poll_at s)(t := pc)\<rparr>"

definition lock_shared :: "nat \<Rightarrow> nat \<Rightarrow> vdpdk_threads \<Rightarrow> vdpdk_threads" where
  "lock_shared t d s = s\<lparr>readers := (readers s)(d := insert t (readers s d))\<rparr>"

definition unlock_shared :: "nat \<Rightarrow> nat \<Rightarrow> vdpdk_threads \<Rightarrow> vdpdk_threads" where
  "unlock_shared t d s = s\<lparr>readers := (readers s)(d := readers s d - {t})\<rparr>"

text \<open>A poll uses the address it has kept unless it is told to look it up or has none.\<close>

definition ring_lookup :: "nat \<Rightarrow> nat \<Rightarrow> bool \<Rightarrow> vdpdk_threads \<Rightarrow> nat" where
  "ring_lookup t d dma_invalidated s = (case cached s t d of
     Some v \<Rightarrow> if dma_invalidated then map_version s d else v | None \<Rightarrow> map_version s d)"

inductive thread_step :: "(nat \<Rightarrow> nat list) \<Rightarrow> vdpdk_threads \<Rightarrow> actor \<Rightarrow> vdpdk_threads \<Rightarrow> bool"
  for devs :: "nat \<Rightarrow> nat list" where
  lock: "poll_at s t = P_Lock k \<Longrightarrow> k < length (devs t) \<Longrightarrow> \<not> writer s (devs t ! k) \<Longrightarrow>
    thread_step devs s (Thread t)
      (goto t (if Suc k < length (devs t) then P_Lock (Suc k) else P_Check 0) (lock_shared t (devs t ! k) s))"
| stop: "poll_at s t = P_Check 0 \<Longrightarrow>
    thread_step devs s (Thread t) (goto t P_Exit (s\<lparr>readers := (\<lambda>d. readers s d - {t})\<rparr>))"
| flag_seen: "poll_at s t = P_Check k \<Longrightarrow> dma_flag s (devs t ! k) \<Longrightarrow>
    thread_step devs s (Thread t) (goto t (P_Spin k) (unlock_shared t (devs t ! k) s))"
| flag_clear: "poll_at s t = P_Check k \<Longrightarrow> \<not> dma_flag s (devs t ! k) \<Longrightarrow>
    thread_step devs s (Thread t) (goto t (P_Poll k False) s)"
| spin_end: "poll_at s t = P_Spin k \<Longrightarrow> \<not> dma_flag s (devs t ! k) \<Longrightarrow> thread_step devs s (Thread t) (goto t (P_Relock k) s)"
| relock: "poll_at s t = P_Relock k \<Longrightarrow> \<not> writer s (devs t ! k) \<Longrightarrow>
    thread_step devs s (Thread t) (goto t (P_Poll k True) (lock_shared t (devs t ! k) s))"
| poll: "poll_at s t = P_Poll k dma_invalidated \<Longrightarrow> d = devs t ! k \<Longrightarrow>
    thread_step devs s (Thread t) (goto t (P_Check (Suc k mod length (devs t)))
      (s\<lparr>cached := (cached s)(t := (cached s t)(d := Some (ring_lookup t d dma_invalidated s)))\<rparr>))"
| set_flag: "vfio_at s d = V_Idle \<Longrightarrow>
    thread_step devs s (Vfio d) (s\<lparr>vfio_at := (vfio_at s)(d := V_Wait), dma_flag := (dma_flag s)(d := True)\<rparr>)"
| lock_exclusive: "vfio_at s d = V_Wait \<Longrightarrow> \<not> writer s d \<Longrightarrow> readers s d = {} \<Longrightarrow>
    thread_step devs s (Vfio d) (s\<lparr>vfio_at := (vfio_at s)(d := V_Locked), writer := (writer s)(d := True)\<rparr>)"
| clear_flag: "vfio_at s d = V_Locked \<Longrightarrow>
    thread_step devs s (Vfio d) (s\<lparr>vfio_at := (vfio_at s)(d := V_Change), dma_flag := (dma_flag s)(d := False)\<rparr>)"
| change_map: "vfio_at s d = V_Change \<Longrightarrow>
    thread_step devs s (Vfio d) (s\<lparr>vfio_at := (vfio_at s)(d := V_Idle), writer := (writer s)(d := False),
      map_version := (map_version s)(d := Suc (map_version s d))\<rparr>)"
| restart_queue: "vfio_at s d = V_Idle \<Longrightarrow>  \<comment> \<open>\<open>TX_QUEUE_START\<close>: a new queue without a ring address\<close>
    thread_step devs s (Vfio d) (s\<lparr>cached := (\<lambda>t. (cached s t)(d := None))\<rparr>)"

inductive threads_reach :: "(nat \<Rightarrow> nat list) \<Rightarrow> vdpdk_threads \<Rightarrow> bool" for devs :: "nat \<Rightarrow> nat list" where
  init: "threads_reach devs threads_init"
| step: "threads_reach devs s \<Longrightarrow> thread_step devs s a s' \<Longrightarrow> threads_reach devs s'"

inductive_cases vfio_stepE: "thread_step devs s (Vfio d) s'"
inductive_cases poll_stepE: "thread_step devs s (Thread t) s'"

lemmas thread_defs = goto_def lock_shared_def unlock_shared_def ring_lookup_def

section \<open>Mappings change only while nobody polls\<close>

text \<open>Which of its locks a thread holds at a position.\<close>

fun holds :: "poll_pc \<Rightarrow> nat \<Rightarrow> bool" where
  "holds (P_Lock k) j \<longleftrightarrow> j < k"
| "holds (P_Check k) j \<longleftrightarrow> True"
| "holds (P_Spin k) j \<longleftrightarrow> j \<noteq> k"
| "holds (P_Relock k) j \<longleftrightarrow> j \<noteq> k"
| "holds (P_Poll k b) j \<longleftrightarrow> True"
| "holds P_Exit j \<longleftrightarrow> False"

fun pc_index :: "poll_pc \<Rightarrow> nat option" where
  "pc_index (P_Lock k) = None"
| "pc_index (P_Check k) = Some k"
| "pc_index (P_Spin k) = Some k"
| "pc_index (P_Relock k) = Some k"
| "pc_index (P_Poll k b) = Some k"
| "pc_index P_Exit = None"

definition locks_ok :: "(nat \<Rightarrow> nat list) \<Rightarrow> vdpdk_threads \<Rightarrow> bool" where
  "locks_ok devs s \<longleftrightarrow>
     (\<forall>t d. t \<in> readers s d \<longleftrightarrow> (\<exists>j < length (devs t). devs t ! j = d \<and> holds (poll_at s t) j)) \<and>
     (\<forall>t k. pc_index (poll_at s t) = Some k \<longrightarrow> k < length (devs t)) \<and>
     (\<forall>t k. poll_at s t = P_Lock k \<longrightarrow> k = 0 \<or> k < length (devs t)) \<and>
     (\<forall>d. writer s d \<longleftrightarrow> vfio_at s d = V_Locked \<or> vfio_at s d = V_Change) \<and>
     (\<forall>d. writer s d \<longrightarrow> readers s d = {}) \<and>
     (\<forall>d. dma_flag s d \<longleftrightarrow> vfio_at s d = V_Wait \<or> vfio_at s d = V_Locked)"

definition cache_ok :: "(nat \<Rightarrow> nat list) \<Rightarrow> vdpdk_threads \<Rightarrow> bool" where
  "cache_ok devs s \<longleftrightarrow> (\<forall>t d v. cached s t d = Some v \<longrightarrow> (\<forall>k. poll_at s t \<noteq> P_Lock k) \<and>
     (t \<in> readers s d \<longrightarrow> v = map_version s d \<or> (\<exists>k. poll_at s t = P_Poll k True \<and> devs t ! k = d)))"

lemma readers_holds: "locks_ok devs s \<Longrightarrow> t \<in> readers s d \<longleftrightarrow> (\<exists>j < length (devs t). devs t ! j = d \<and> holds (poll_at s t) j)"
  by (simp add: locks_ok_def)

lemma pc_bound:
  "locks_ok devs s \<Longrightarrow> pc_index (poll_at s t) = Some k \<Longrightarrow> k < length (devs t)"
  "locks_ok devs s \<Longrightarrow> poll_at s t = P_Lock k \<Longrightarrow> k = 0 \<or> k < length (devs t)"
  by (simp_all add: locks_ok_def)

text \<open>A step of a thread at position \<open>pc\<close> that changes only its own locks.\<close>

lemma locks_ok_thread:
  assumes ok: "locks_ok devs s"
    and r: "\<And>t' d. t' \<noteq> t \<Longrightarrow> t' \<in> R d \<longleftrightarrow> t' \<in> readers s d"
    and own: "\<And>d. t \<in> R d \<longleftrightarrow> (\<exists>j < length (devs t). devs t ! j = d \<and> holds pc j)"
    and k: "\<And>k. pc_index pc = Some k \<Longrightarrow> k < length (devs t)" "\<And>k. pc = P_Lock k \<Longrightarrow> k < length (devs t)"
    and new: "\<And>d. t \<in> R d \<Longrightarrow> t \<notin> readers s d \<Longrightarrow> \<not> writer s d"
  shows "locks_ok devs (s\<lparr>readers := R, poll_at := (poll_at s)(t := pc), cached := c\<rparr>)"
proof -
  have "R d = {}" if "writer s d" for d
  proof -
    have "readers s d = {}" using ok that by (simp add: locks_ok_def)
    then have "x \<notin> R d" for x using r [of x d] new [of d] that by (cases "x = t") auto
    then show ?thesis by blast
  qed
  moreover have "t' \<in> R d \<longleftrightarrow> (\<exists>j < length (devs t'). devs t' ! j = d \<and> holds (((poll_at s)(t := pc)) t') j)" for t' d
    using r [of t' d] own [of d] readers_holds [OF ok, of t' d] by (cases "t' = t") auto
  ultimately show ?thesis using ok k unfolding locks_ok_def by simp
qed

lemma thread_update:
  "s = s\<lparr>cached := cached s\<rparr>" "goto t pc (lock_shared t d s) = s\<lparr>readers := (readers s)(d := insert t (readers s d)), poll_at := (poll_at s)(t := pc), cached := cached s\<rparr>"
  "goto t pc (unlock_shared t d s) = s\<lparr>readers := (readers s)(d := readers s d - {t}), poll_at := (poll_at s)(t := pc), cached := cached s\<rparr>"
  "goto t pc (s\<lparr>readers := R\<rparr>) = s\<lparr>readers := R, poll_at := (poll_at s)(t := pc), cached := cached s\<rparr>"
  "goto t pc (s\<lparr>cached := c\<rparr>) = s\<lparr>readers := readers s, poll_at := (poll_at s)(t := pc), cached := c\<rparr>"
  "goto t pc s = s\<lparr>readers := readers s, poll_at := (poll_at s)(t := pc), cached := cached s\<rparr>"
  by (simp_all add: thread_defs)

lemma locks_ok_step:
  assumes "thread_step devs s a s'" and ok: "locks_ok devs s" and dis: "\<forall>t. distinct (devs t)"
  shows "locks_ok devs s'"
proof -
  have ne: "devs t ! i = devs t ! j \<longleftrightarrow> i = j" if "i < length (devs t)" "j < length (devs t)" for t i j
    using dis that nth_eq_iff_index_eq by blast
  have own: "t \<in> readers s d \<longleftrightarrow> (\<exists>j < length (devs t). devs t ! j = d \<and> holds (poll_at s t) j)" for t d
    using readers_holds [OF ok] .
  have ix: "pc_index (poll_at s t) = Some k \<Longrightarrow> k < length (devs t)" for t k using ok by (simp add: locks_ok_def)
  show ?thesis using assms(1)
  proof cases
    case (lock t k)
    let ?pc = "if Suc k < length (devs t) then P_Lock (Suc k) else P_Check 0"
    have "holds ?pc j \<longleftrightarrow> j = k \<or> j < k" if "j < length (devs t)" for j using that by auto
    moreover have "t \<in> readers s d \<longleftrightarrow> (\<exists>j < length (devs t). devs t ! j = d \<and> j < k)" for d using lock(3) own [of t d] by simp
    ultimately have "(\<exists>j < length (devs t). devs t ! j = d \<and> holds ?pc j) \<longleftrightarrow> d = devs t ! k \<or> t \<in> readers s d" for d
      using lock(4) by metis
    then show ?thesis unfolding lock(2) thread_update(2)
      by (intro locks_ok_thread [OF ok]) (use lock(4,5) in \<open>auto split: if_splits\<close>)
  next
    case (stop t)
    show ?thesis unfolding stop(2) thread_update(4) by (rule locks_ok_thread [OF ok]) auto
  next
    case (flag_seen t k)
    then have "k < length (devs t)" using ix [of t k] by simp
    then show ?thesis unfolding flag_seen(2) thread_update(3)
      by (intro locks_ok_thread [OF ok]) (use flag_seen own [of t] ne [of _ t k] in \<open>auto split: if_splits\<close>)
  next
    case (flag_clear t k)
    then have "k < length (devs t)" using ix [of t k] by simp
    then show ?thesis unfolding flag_clear(2) thread_update(6)
      by (intro locks_ok_thread [OF ok]) (use flag_clear own [of t] in auto)
  next
    case (spin_end t k)
    then have "k < length (devs t)" using ix [of t k] by simp
    then show ?thesis unfolding spin_end(2) thread_update(6)
      by (intro locks_ok_thread [OF ok]) (use spin_end own [of t] in auto)
  next
    case (relock t k)
    then have "k < length (devs t)" using ix [of t k] by simp
    then show ?thesis unfolding relock(2) thread_update(2)
      by (intro locks_ok_thread [OF ok]) (use relock own [of t] ne [of _ t k] in \<open>auto split: if_splits\<close>)
  next
    case (poll t k b d)
    then have "k < length (devs t)" using ix [of t k] by simp
    then have "Suc k mod length (devs t) < length (devs t)" by (intro mod_less_divisor) linarith
    then show ?thesis unfolding poll(2) thread_update(5)
      by (intro locks_ok_thread [OF ok]) (use poll own [of t] in auto)
  qed (use ok in \<open>auto simp: locks_ok_def\<close>)
qed

lemma locks_ok_init: "locks_ok devs threads_init"
  by (simp add: locks_ok_def threads_init_def)

text \<open>A thread that is not about to look its addresses up keeps its locks and takes new ones only before it has an address, or to look it up.\<close>

lemma cache_ok_thread:
  assumes ok: "cache_ok devs s"
    and r: "\<And>t' d. t' \<noteq> t \<Longrightarrow> t' \<in> R d \<longleftrightarrow> t' \<in> readers s d"
    and pc: "\<And>k. poll_at s t \<noteq> P_Poll k True"
    and lck: "\<And>k. pc = P_Lock k \<Longrightarrow> \<exists>k. poll_at s t = P_Lock k"
    and new: "\<And>d. t \<in> R d \<Longrightarrow> t \<notin> readers s d \<Longrightarrow> (\<exists>k. poll_at s t = P_Lock k) \<or> (\<exists>k. pc = P_Poll k True \<and> devs t ! k = d)"
  shows "cache_ok devs (s\<lparr>readers := R, poll_at := (poll_at s)(t := pc), cached := cached s\<rparr>)"
proof -
  have ok': "\<And>k. poll_at s t' \<noteq> P_Lock k" "t' \<in> readers s d \<Longrightarrow> v = map_version s d \<or> (\<exists>k. poll_at s t' = P_Poll k True \<and> devs t' ! k = d)"
    if "cached s t' d = Some v" for t' d v using ok that unfolding cache_ok_def by blast+
  have "(\<forall>k. ((poll_at s)(t := pc)) t' \<noteq> P_Lock k) \<and> (t' \<in> R d \<longrightarrow> v = map_version s d \<or> (\<exists>k. ((poll_at s)(t := pc)) t' = P_Poll k True \<and> devs t' ! k = d))"
    if c: "cached s t' d = Some v" for t' d v
    using ok' [OF c] r [of t' d] new [of d] pc lck by (cases "t' = t") auto
  then show ?thesis by (simp add: cache_ok_def)
qed

lemma cache_ok_step:
  assumes "thread_step devs s a s'" "cache_ok devs s" "locks_ok devs s"
  shows "cache_ok devs s'"
  using assms(1)
proof cases
  case (poll t k b d)
  then have "k < length (devs t)" using assms(3) by (simp add: locks_ok_def)
  then have "t \<in> readers s d" using readers_holds [OF assms(3), of t d] poll by auto
  have c: "v = map_version s d' \<or> b \<and> d' = d" if "cached s t d' = Some v" "t \<in> readers s d'" for d' v
    using assms(2) that poll unfolding cache_ok_def by fastforce
  have "ring_lookup t d b s = map_version s d" using c [of d] \<open>t \<in> readers s d\<close> by (auto simp: ring_lookup_def split: option.split)
  then have "v = map_version s d'" if "((cached s t)(d := Some (ring_lookup t d b s))) d' = Some v" "t \<in> readers s d'" for d' v
    using c [of d' v] that by (auto split: if_splits)
  then show ?thesis using assms(2) poll unfolding cache_ok_def by (simp add: goto_def)
next
  case (change_map d)
  then have "readers s d = {}" using assms(3) by (auto simp: locks_ok_def)
  then show ?thesis using assms(2) change_map unfolding cache_ok_def by auto
next
  case (lock t k)
  then show ?thesis unfolding lock(2) thread_update(2) by (intro cache_ok_thread [OF assms(2)]) (auto split: if_splits)
next
  case (stop t)
  then show ?thesis unfolding stop(2) thread_update(4) by (intro cache_ok_thread [OF assms(2)]) auto
next
  case (flag_seen t k)
  then show ?thesis unfolding flag_seen(2) thread_update(3) by (intro cache_ok_thread [OF assms(2)]) (auto split: if_splits)
next
  case (flag_clear t k)
  then show ?thesis unfolding flag_clear(2) thread_update(6) by (intro cache_ok_thread [OF assms(2)]) auto
next
  case (spin_end t k)
  then show ?thesis unfolding spin_end(2) thread_update(6) by (intro cache_ok_thread [OF assms(2)]) auto
next
  case (relock t k)
  then show ?thesis unfolding relock(2) thread_update(2) by (intro cache_ok_thread [OF assms(2)]) (auto split: if_splits)
qed (use assms(2) in \<open>auto simp: cache_ok_def\<close>)

lemma threads_inv:
  assumes "threads_reach devs s" "\<forall>t. distinct (devs t)"
  shows "locks_ok devs s \<and> cache_ok devs s"
  using assms
proof induction
  case init
  show ?case using locks_ok_init by (simp add: cache_ok_def threads_init_def)
next
  case (step s a s')
  then show ?case using locks_ok_step cache_ok_step by blast
qed

text \<open>
  C15: the mappings of a device never change while a thread polls it, and no poll
  uses an address from before a change.  In every interleaving of polling threads, each of
  which polls any number of devices in turn, and of threads that change the mappings, when
  a thread polls a device no change of its mappings is under way, and the
  ring address the poll uses was looked up in the current version of the mappings.
\<close>

theorem vdpdk_polls_safe:
  assumes "threads_reach devs s" "\<forall>t. distinct (devs t)" "poll_at s t = P_Poll k dma_invalidated" "d = devs t ! k"
  shows "vfio_at s d \<noteq> V_Locked \<and> vfio_at s d \<noteq> V_Change \<and> ring_lookup t d dma_invalidated s = map_version s d"
proof -
  have ok: "locks_ok devs s" "cache_ok devs s" using threads_inv [OF assms(1,2)] by simp_all
  then have "k < length (devs t)" using assms(3) by (simp add: locks_ok_def)
  then have r: "t \<in> readers s d" using readers_holds [OF ok(1)] assms(3,4) by auto
  then have "\<not> writer s d" using ok(1) unfolding locks_ok_def by blast
  moreover have "v = map_version s d \<or> dma_invalidated" if "cached s t d = Some v" for v
    using ok(2) that r assms(3) unfolding cache_ok_def by fastforce
  ultimately show ?thesis using ok(1) unfolding locks_ok_def by (auto simp: ring_lookup_def split: option.split)
qed

lemma threads_run: "threads_reach devs s \<Longrightarrow> thread_step devs s a s' \<Longrightarrow> s' = s'' \<Longrightarrow> threads_reach devs s''"
  using threads_reach.step by blast

text \<open>
  Both a thread and a change of the mappings can get there: thread 0 polls device 0 after its
  mappings have changed.
\<close>

definition demo_polled :: vdpdk_threads where
  "demo_polled = \<lparr>dma_flag = (\<lambda>_. False), readers = (\<lambda>_. {})(0 := {0}), writer = (\<lambda>_. False), poll_at = (\<lambda>_. P_Lock 0)(0 := P_Poll 0 True),
     vfio_at = (\<lambda>_. V_Idle), map_version = (\<lambda>_. 0)(0 := 1), cached = (\<lambda>_ _. None)\<rparr>"

lemma demo_polled_reached: "threads_reach (\<lambda>_. [0]) demo_polled"
proof -
  let ?s = threads_init
  note l = threads_init_def demo_polled_def goto_def lock_shared_def unlock_shared_def
  have "threads_reach (\<lambda>_. [0]) (?s\<lparr>readers := (\<lambda>_. {})(0 := {0}), poll_at := (\<lambda>_. P_Lock 0)(0 := P_Check 0)\<rparr>)" (is "threads_reach _ ?s1")
    by (rule threads_run [OF threads_reach.init thread_step.lock [of _ 0 0]]) (simp_all add: l)
  then have "threads_reach (\<lambda>_. [0]) (?s1\<lparr>vfio_at := (\<lambda>_. V_Idle)(0 := V_Wait), dma_flag := (\<lambda>_. False)(0 := True)\<rparr>)" (is "threads_reach _ ?s2")
    by (rule threads_run [OF _ thread_step.set_flag [of _ 0]]) (simp_all add: l)
  then have "threads_reach (\<lambda>_. [0]) (?s2\<lparr>readers := (\<lambda>_. {}), poll_at := (\<lambda>_. P_Lock 0)(0 := P_Spin 0)\<rparr>)" (is "threads_reach _ ?s3")
    by (rule threads_run [OF _ thread_step.flag_seen [of _ 0 0]]) (simp_all add: l fun_eq_iff)
  then have "threads_reach (\<lambda>_. [0]) (?s3\<lparr>vfio_at := (\<lambda>_. V_Idle)(0 := V_Locked), writer := (\<lambda>_. False)(0 := True)\<rparr>)" (is "threads_reach _ ?s4")
    by (rule threads_run [OF _ thread_step.lock_exclusive [of _ 0]]) (simp_all add: l)
  then have "threads_reach (\<lambda>_. [0]) (?s4\<lparr>vfio_at := (\<lambda>_. V_Idle)(0 := V_Change), dma_flag := (\<lambda>_. False)\<rparr>)" (is "threads_reach _ ?s5")
    by (rule threads_run [OF _ thread_step.clear_flag [of _ 0]]) (simp_all add: l fun_eq_iff)
  then have "threads_reach (\<lambda>_. [0]) (?s5\<lparr>vfio_at := (\<lambda>_. V_Idle), writer := (\<lambda>_. False), map_version := (\<lambda>_. 0)(0 := 1)\<rparr>)" (is "threads_reach _ ?s6")
    by (rule threads_run [OF _ thread_step.change_map [of _ 0]]) (simp_all add: l fun_eq_iff)
  then have "threads_reach (\<lambda>_. [0]) (?s6\<lparr>poll_at := (\<lambda>_. P_Lock 0)(0 := P_Relock 0)\<rparr>)" (is "threads_reach _ ?s7")
    by (rule threads_run [OF _ thread_step.spin_end [of _ 0 0]]) (simp_all add: l)
  then show ?thesis
    by (rule threads_run [OF _ thread_step.relock [of _ 0 0]]) (simp_all add: l)
qed

theorem vdpdk_polls_safe_witness:
  "threads_reach (\<lambda>_. [0]) demo_polled \<and> ring_lookup 0 0 True demo_polled = 1"
  using demo_polled_reached vdpdk_polls_safe [OF demo_polled_reached, of 0 0 True 0]
  by (simp add: demo_polled_def)


section \<open>Changing the mappings\<close>

primrec runs :: "(nat \<Rightarrow> nat list) \<Rightarrow> vdpdk_threads \<Rightarrow> actor list \<Rightarrow> vdpdk_threads \<Rightarrow> bool" where
  "runs devs s [] s' \<longleftrightarrow> s' = s"
| "runs devs s (a # as) s' \<longleftrightarrow> (\<exists>s1. thread_step devs s a s1 \<and> runs devs s1 as s')"

text \<open>How many steps a thread of one device can take before it stops for a waiting change.\<close>

fun weight :: "poll_pc \<Rightarrow> nat" where
  "weight (P_Lock k) = 2"
| "weight (P_Check k) = 1"
| "weight (P_Spin k) = 0"
| "weight (P_Relock k) = 3"
| "weight (P_Poll k b) = 2"
| "weight P_Exit = 0"

definition threads_of :: "(nat \<Rightarrow> nat list) \<Rightarrow> nat \<Rightarrow> nat set" where
  "threads_of devs d = {t. devs t = [d]}"

definition work_left :: "(nat \<Rightarrow> nat list) \<Rightarrow> nat \<Rightarrow> vdpdk_threads \<Rightarrow> nat" where
  "work_left devs d s = (\<Sum>t \<in> threads_of devs d. weight (poll_at s t))"

lemma step_weight:
  assumes "thread_step devs s (Thread t) s'" "locks_ok devs s" "devs t = [d]" "vfio_at s d = V_Wait"
  shows "weight (poll_at s' t) < weight (poll_at s t)"
proof -
  have "dma_flag s d" using assms(2,4) by (simp add: locks_ok_def)
  then have f: "dma_flag s (devs t ! k)" if "pc_index (poll_at s t) = Some k" for k
    using pc_bound(1) [OF assms(2) that] assms(3) by simp
  show ?thesis using assms(1)
  proof cases
    case (flag_clear k)
    then show ?thesis using f [of k] by simp
  next
    case (spin_end k)
    then show ?thesis using f [of k] by simp
  qed (simp_all add: thread_defs assms(3))
qed

lemma step_others:
  assumes "thread_step devs s a s'"
  shows "a \<noteq> Thread t \<Longrightarrow> poll_at s' t = poll_at s t" "a \<noteq> Vfio d \<Longrightarrow> vfio_at s' d = vfio_at s d"
  using assms by (cases; simp add: thread_defs)+

lemma step_work:
  assumes "thread_step devs s a s'" "locks_ok devs s" "vfio_at s d = V_Wait" "finite (threads_of devs d)"
  shows "work_left devs d s' + (if \<exists>t \<in> threads_of devs d. a = Thread t then 1 else 0) \<le> work_left devs d s"
proof (cases "\<exists>t \<in> threads_of devs d. a = Thread t")
  case True
  then obtain t where t: "t \<in> threads_of devs d" "a = Thread t" by blast
  then have "weight (poll_at s' t) < weight (poll_at s t)" using step_weight [of devs s t s' d] assms by (simp add: threads_of_def)
  moreover have "weight (poll_at s' u) \<le> weight (poll_at s u)" if "u \<in> threads_of devs d" for u
    using step_others(1) [OF assms(1), of u] calculation t(2) by (cases "u = t") auto
  ultimately have "work_left devs d s' < work_left devs d s" unfolding work_left_def
    using t(1) assms(4) by (intro sum_strict_mono_ex1) auto
  then show ?thesis using True by simp
next
  case False
  then have "poll_at s' u = poll_at s u" if "u \<in> threads_of devs d" for u
    using step_others(1) [OF assms(1), of u] that by auto
  then show ?thesis using False by (simp add: work_left_def)
qed

lemma run_work:
  assumes "finite (threads_of devs d)" "\<forall>t. length (devs t) \<le> 1"
  shows "runs devs s as s' \<Longrightarrow> threads_reach devs s \<Longrightarrow> vfio_at s d = V_Wait \<Longrightarrow> Vfio d \<notin> set as \<Longrightarrow>
    threads_reach devs s' \<and> vfio_at s' d = V_Wait \<and>
    work_left devs d s' + length (filter (\<lambda>a. \<exists>t \<in> threads_of devs d. a = Thread t) as) \<le> work_left devs d s"
proof (induction as arbitrary: s)
  case (Cons a as)
  then obtain s1 where s1: "thread_step devs s a s1" "runs devs s1 as s'" by auto
  have dis: "\<forall>t. distinct (devs t)" using assms(2) by (metis distinct_conv_nth le_trans less_one not_less)
  have "locks_ok devs s" using threads_inv [OF Cons.prems(2) dis] by simp
  note w = step_work [OF s1(1) this Cons.prems(3) assms(1)]
  have "threads_reach devs s1" "vfio_at s1 d = V_Wait"
    using threads_reach.step [OF Cons.prems(2) s1(1)] step_others(2) [OF s1(1), of d] Cons.prems(3,4) by auto
  with Cons.IH [OF s1(2)] Cons.prems(4) w show ?case by auto
qed simp

lemma work_left_bound: "work_left devs d s \<le> 3 * card (threads_of devs d)"
proof -
  have "weight pc \<le> 3" for pc by (cases pc) simp_all
  then show ?thesis using sum_bounded_above [of "threads_of devs d" "\<lambda>t. weight (poll_at s t)" 3] by (simp add: work_left_def mult.commute)
qed

lemma reader_can_step:
  assumes "locks_ok devs s" "t \<in> readers s d" "length (devs t) \<le> 1"
  shows "devs t = [d] \<and> (\<exists>s'. thread_step devs s (Thread t) s')"
proof -
  obtain j where j: "j < length (devs t)" "devs t ! j = d" "holds (poll_at s t) j" using readers_holds [OF assms(1)] assms(2) by blast
  then have d: "devs t = [d]" "j = 0" using assms(3) by (cases "devs t"; auto)+
  have k: "k = 0" if "pc_index (poll_at s t) = Some k" for k using pc_bound(1) [OF assms(1) that] d(1) by simp
  show ?thesis
  proof (cases "poll_at s t")
    case (P_Check k)
    then show ?thesis using d k thread_step.stop [of s t devs] by auto
  next
    case (P_Poll k b)
    then show ?thesis using d thread_step.poll [of s t k b _ devs] by auto
  next
    case (P_Lock k)
    then show ?thesis using pc_bound(2) [OF assms(1), of t k] j d by simp
  qed (use j d k in auto)
qed

text \<open>
  C16: with a polling thread per device a change of the mappings is not held up.  While it
  waits for the lock, the polling threads of the device take at most three steps
  each, whatever the other threads do, and as long as the lock is not free one of them can step: the
  change gets the lock once they have run.
\<close>

theorem vdpdk_change_proceeds:
  assumes "threads_reach devs s" "\<forall>t. length (devs t) \<le> 1" "finite (threads_of devs d)"
    and "vfio_at s d = V_Wait" "runs devs s as s'" "Vfio d \<notin> set as"
  shows "length (filter (\<lambda>a. \<exists>t \<in> threads_of devs d. a = Thread t) as) \<le> 3 * card (threads_of devs d) \<and>
    ((\<exists>s''. thread_step devs s' (Vfio d) s'' \<and> writer s'' d) \<or>
     (\<exists>t \<in> threads_of devs d. \<exists>s''. thread_step devs s' (Thread t) s''))"
proof -
  note r = run_work [OF assms(3,2,5,1,4,6)]
  have "\<forall>t. distinct (devs t)" using assms(2) by (metis distinct_conv_nth le_trans less_one not_less)
  then have ok: "locks_ok devs s'" using threads_inv r by blast
  have "\<exists>s''. thread_step devs s' (Vfio d) s'' \<and> writer s'' d" if "readers s' d = {}"
    using thread_step.lock_exclusive [of s' d devs] that r ok by (fastforce simp: locks_ok_def)
  moreover have "\<exists>t \<in> threads_of devs d. \<exists>s''. thread_step devs s' (Thread t) s''" if "t \<in> readers s' d" for t
    using reader_can_step [OF ok that] assms(2) by (auto simp: threads_of_def)
  ultimately show ?thesis using r work_left_bound [of devs d s] by (cases "readers s' d = {}") auto
qed

definition demo_waiting :: vdpdk_threads where
  "demo_waiting = threads_init\<lparr>vfio_at := (\<lambda>_. V_Idle)(0 := V_Wait), dma_flag := (\<lambda>_. False)(0 := True)\<rparr>"

theorem vdpdk_change_proceeds_witness:
  "\<exists>s'. runs (\<lambda>t. if t < 2 then [0] else []) demo_waiting [Thread 0] s' \<and>
     ((\<exists>s''. thread_step (\<lambda>t. if t < 2 then [0] else []) s' (Vfio 0) s'' \<and> writer s'' 0) \<or>
      (\<exists>t \<in> {0, 1}. \<exists>s''. thread_step (\<lambda>t. if t < 2 then [0] else []) s' (Thread t) s''))"
proof -
  let ?d = "\<lambda>t :: nat. if t < 2 then [0 :: nat] else []"
  have reach: "threads_reach ?d demo_waiting"
    by (rule threads_run [OF threads_reach.init thread_step.set_flag [of _ 0]]) (simp_all add: threads_init_def demo_waiting_def)
  have of0: "threads_of ?d 0 = {0, 1}" by (auto simp: threads_of_def less_2_cases_iff)
  let ?s = "goto 0 (P_Check 0) (lock_shared 0 0 demo_waiting)"
  have run: "runs ?d demo_waiting [Thread 0] ?s"
    using thread_step.lock [of demo_waiting 0 0 ?d] by (simp add: demo_waiting_def threads_init_def)
  have "vfio_at demo_waiting 0 = V_Wait" by (simp add: demo_waiting_def)
  from vdpdk_change_proceeds [OF reach _ _ this run] of0 run show ?thesis by auto
qed

section \<open>Threads that poll two devices\<close>

text \<open>
  \<open>VdpdkThreads::start\<close>: the devices of each receiving thread, and likewise of each
  sending one.  Beyond the threshold the first device shares its threads with the last, and so on.
\<close>

definition start_threads :: "nat \<Rightarrow> nat \<Rightarrow> nat list list" where
  "start_threads sharing_thresh count = (if count > sharing_thresh
     then map (\<lambda>i. [i, count - i - 1]) [0..<count div 2] @ (if count mod 2 \<noteq> 0 then [[count div 2]] else [])
     else map (\<lambda>i. [i]) [0..<count])"

text \<open>Every device is polled by exactly one receiving and one sending thread.\<close>

lemma start_threads_cover: "distinct (concat (start_threads sharing_thresh count)) \<and> set (concat (start_threads sharing_thresh count)) = {..<count}"
proof (cases "count > sharing_thresh")
  case True
  let ?m = "count div 2"
  have pairs: "distinct (concat (map (\<lambda>i. [i, count - i - 1]) [0..<m])) \<and>
      set (concat (map (\<lambda>i. [i, count - i - 1]) [0..<m])) = {i. i < m} \<union> {i. count - m \<le> i \<and> i < count}" if "m \<le> ?m" for m
    using that
  proof (induction m)
    case (Suc m)
    then have "m \<noteq> count - m - 1" "m < count - m" "\<not> count - Suc m < m" "\<not> count - m \<le> count - Suc m" by linarith+
    moreover have "{i. i < Suc m} \<union> {i. count - Suc m \<le> i \<and> i < count} =
        {i. i < m} \<union> {i. count - m \<le> i \<and> i < count} \<union> {m, count - m - 1}"
    proof (rule set_eqI)
      fix i
      have "i < Suc m \<or> count - Suc m \<le> i \<and> i < count \<longleftrightarrow> i < m \<or> count - m \<le> i \<and> i < count \<or> i = m \<or> i = count - m - 1"
        using calculation by linarith
      then show "i \<in> {i. i < Suc m} \<union> {i. count - Suc m \<le> i \<and> i < count} \<longleftrightarrow>
        i \<in> {i. i < m} \<union> {i. count - m \<le> i \<and> i < count} \<union> {m, count - m - 1}" by auto
    qed
    moreover have "distinct (concat (map (\<lambda>i. [i, count - i - 1]) [0..<m]))"
      "set (concat (map (\<lambda>i. [i, count - i - 1]) [0..<m])) = {i. i < m} \<union> {i. count - m \<le> i \<and> i < count}" using Suc by simp_all
    moreover have "concat (map (\<lambda>i. [i, count - i - 1]) [0..<Suc m]) = concat (map (\<lambda>i. [i, count - i - 1]) [0..<m]) @ [m, count - m - 1]" by simp
    ultimately show ?case unfolding distinct_append set_append by simp
  qed simp
  obtain m where "count = 2 * m \<or> count = 2 * m + 1" by (metis mult_div_mod_eq not_mod_2_eq_1_eq_0 add.right_neutral)
  then show ?thesis
  proof
    assume c: "count = 2 * m"
    have "{i. i < m} \<union> {i. m \<le> i \<and> i < 2 * m} = {..<2 * m}" by auto
    then show ?thesis using True pairs [of m] c by (simp add: start_threads_def)
  next
    assume c: "count = 2 * m + 1"
    have "insert m ({i. i < m} \<union> {i. Suc m \<le> i \<and> i < Suc (2 * m)}) = {..<Suc (2 * m)}" by auto
    then show ?thesis using True pairs [of m] c by (simp add: start_threads_def)
  qed
qed (auto simp: start_threads_def)

definition pair_devs :: "nat \<Rightarrow> nat list" where
  "pair_devs t = (if t < 2 then [0, 1] else [])"

text \<open>
  Thread 0 has seen the change of device 0 and given up its lock, but keeps that of device
  1; thread 1 the other way round.
\<close>

definition crossed :: vdpdk_threads where
  "crossed = threads_init\<lparr>dma_flag := (\<lambda>_. False)(0 := True, 1 := True), readers := (\<lambda>_. {})(0 := {1}, 1 := {0}),
     poll_at := (\<lambda>_. P_Lock 0)(0 := P_Spin 0, 1 := P_Spin 1), vfio_at := (\<lambda>_. V_Idle)(0 := V_Wait, 1 := V_Wait),
     cached := (\<lambda>_ _. None)(1 := (\<lambda>_. None)(0 := Some 0))\<rparr>"

lemma crossed_reached: "threads_reach pair_devs crossed"
proof -
  let ?s = threads_init
  note l = threads_init_def crossed_def goto_def lock_shared_def unlock_shared_def pair_devs_def ring_lookup_def
  have "threads_reach pair_devs (?s\<lparr>readers := (\<lambda>_. {})(0 := {0}), poll_at := (\<lambda>_. P_Lock 0)(0 := P_Lock 1)\<rparr>)" (is "threads_reach _ ?s1")
    by (rule threads_run [OF threads_reach.init thread_step.lock [of _ 0 0]]) (simp_all add: l)
  then have "threads_reach pair_devs (?s1\<lparr>readers := (\<lambda>_. {})(0 := {0}, 1 := {0}), poll_at := (\<lambda>_. P_Lock 0)(0 := P_Check 0)\<rparr>)" (is "threads_reach _ ?s2")
    by (rule threads_run [OF _ thread_step.lock [of _ 0 1]]) (simp_all add: l)
  then have "threads_reach pair_devs (?s2\<lparr>readers := (\<lambda>_. {})(0 := {0, 1}, 1 := {0}), poll_at := (\<lambda>_. P_Lock 0)(0 := P_Check 0, 1 := P_Lock 1)\<rparr>)" (is "threads_reach _ ?s3")
    by (rule threads_run [OF _ thread_step.lock [of _ 1 0]]) (auto simp: l fun_eq_iff)
  then have "threads_reach pair_devs (?s3\<lparr>readers := (\<lambda>_. {})(0 := {0, 1}, 1 := {0, 1}), poll_at := (\<lambda>_. P_Lock 0)(0 := P_Check 0, 1 := P_Check 0)\<rparr>)" (is "threads_reach _ ?s4")
    by (rule threads_run [OF _ thread_step.lock [of _ 1 1]]) (auto simp: l fun_eq_iff)
  then have "threads_reach pair_devs (?s4\<lparr>poll_at := (\<lambda>_. P_Lock 0)(0 := P_Check 0, 1 := P_Poll 0 False)\<rparr>)" (is "threads_reach _ ?s5")
    by (rule threads_run [OF _ thread_step.flag_clear [of _ 1 0]]) (simp_all add: l)
  then have "threads_reach pair_devs (?s5\<lparr>poll_at := (\<lambda>_. P_Lock 0)(0 := P_Check 0, 1 := P_Check 1), cached := (\<lambda>_ _. None)(1 := (\<lambda>_. None)(0 := Some 0))\<rparr>)" (is "threads_reach _ ?s6")
    by (rule threads_run [OF _ thread_step.poll [of _ 1 0 False]]) (simp_all add: l)
  then have "threads_reach pair_devs (?s6\<lparr>vfio_at := (\<lambda>_. V_Idle)(0 := V_Wait), dma_flag := (\<lambda>_. False)(0 := True)\<rparr>)" (is "threads_reach _ ?s7")
    by (rule threads_run [OF _ thread_step.set_flag [of _ 0]]) (simp_all add: l)
  then have "threads_reach pair_devs (?s7\<lparr>vfio_at := (\<lambda>_. V_Idle)(0 := V_Wait, 1 := V_Wait), dma_flag := (\<lambda>_. False)(0 := True, 1 := True)\<rparr>)" (is "threads_reach _ ?s8")
    by (rule threads_run [OF _ thread_step.set_flag [of _ 1]]) (simp_all add: l)
  then have "threads_reach pair_devs (?s8\<lparr>readers := (\<lambda>_. {})(0 := {1}, 1 := {0, 1}), poll_at := (\<lambda>_. P_Lock 0)(0 := P_Spin 0, 1 := P_Check 1)\<rparr>)" (is "threads_reach _ ?s9")
    by (rule threads_run [OF _ thread_step.flag_seen [of _ 0 0]]) (auto simp: l fun_eq_iff)
  then show ?thesis
    by (rule threads_run [OF _ thread_step.flag_seen [of _ 1 1]]) (auto simp: l fun_eq_iff)
qed

text \<open>
  C17: two threads that share two devices can deadlock.  When the mappings of both devices
  change at about the same time, a state is reachable in which each change waits for a
  lock that one thread holds, while that thread waits for the other change: none of the
  four can take a step, so both virtual machines stop.
\<close>

theorem vdpdk_pair_deadlock:
  "\<exists>s. threads_reach pair_devs s \<and> vfio_at s 0 = V_Wait \<and> vfio_at s 1 = V_Wait \<and>
     {a. \<exists>s'. thread_step pair_devs s a s'} \<inter> {Thread 0, Thread 1, Vfio 0, Vfio 1} = {}"
proof -
  have "\<not> thread_step pair_devs crossed a s'" if "a \<in> {Thread 0, Thread 1, Vfio 0, Vfio 1}" for a s'
  proof
    assume "thread_step pair_devs crossed a s'"
    then show False using that by cases (auto simp: crossed_def pair_devs_def)
  qed
  then show ?thesis using crossed_reached by (intro exI [of _ crossed]) (auto simp: crossed_def)
qed

end
