(* ===== verification/Vmux_Driver.thy ===== *)
theory Vmux_Driver
  imports Vmux_Prelude "HOL-Library.Multiset"
begin

text \<open>
  The network back ends (\<open>drivers/driver.hpp\<close>, \<open>drivers/dpdk.hpp\<close>, \<open>drivers/tap.hpp\<close>): sending a packet,
  collecting the buffers of a packet that the NIC is to segment, receiving bursts and
  returning their buffers.  What DPDK and the kernel answer is a parameter.

  The state records, besides the members of the classes, which packet buffers (mbufs) the process
  holds and which packets it has handed to the NIC.  Freeing a buffer that is not held is a \<open>Fault\<close>,
  as is a copy that leaves a buffer.
\<close>

section \<open>State\<close>

type_synonym mbuf_id = nat

record seg =
  seg_id :: mbuf_id
  seg_data :: "u8 list"  \<comment> \<open>\<open>data_len\<close> bytes\<close>

record tx_pkt =
  tp_queue :: u16
  tp_segs :: "seg list"
  tp_tso :: "(u64 \<times> u64 \<times> u64 \<times> u64) option"  \<comment> \<open>\<open>l2_len\<close>, \<open>l3_len\<close>, \<open>l4_len\<close>, \<open>tso_segsz\<close> of a packet to segment\<close>

record rx_mbuf =
  rm_id :: mbuf_id
  rm_nb_segs :: nat
  rm_data :: "u8 list"

record RxBuf =
  rb_data :: "u8 list"  \<comment> \<open>\<open>used\<close> bytes\<close>
  rb_queue :: "u16 option"

record rx_list =
  rxBufs :: "RxBuf list"
  nb_bufs_used :: nat

record 'r dpdk =
  rte :: 'r
  nr_queues :: nat  \<comment> \<open>the length of \<open>tx_mbuf_pools\<close>, \<open>rx_mbuf_pools\<close> and \<open>tso_seg\<close>\<close>
  mediate :: "bool list"
  tso_supported :: bool
  tso_seg :: "seg list list"  \<comment> \<open>the null pointer is \<open>[]\<close>\<close>
  bufs :: "mbuf_id list"
  rx_lists :: "rx_list list"
  held :: "mbuf_id multiset"
  handed :: "tx_pkt list"

text \<open>
  The functions of DPDK; \<open>room\<close> is the space of an empty buffer of the transmit pools.
\<close>

record 'r rte_env =
  rte_pktmbuf_alloc :: "u16 \<Rightarrow> 'r \<Rightarrow> mbuf_id option \<times> 'r"
  rte_pktmbuf_free :: "mbuf_id \<Rightarrow> 'r \<Rightarrow> 'r"
  rte_eth_tx_burst :: "tx_pkt \<Rightarrow> 'r \<Rightarrow> bool \<times> 'r"
  rte_eth_rx_burst :: "u16 \<Rightarrow> 'r \<Rightarrow> rx_mbuf list \<times> 'r"
  rte_ipv4_phdr_cksum :: "u8 list \<Rightarrow> u16"
  room :: nat

definition MAX_QUEUES_PER_VM :: nat where "MAX_QUEUES_PER_VM = 4"
definition BURST_SIZE :: nat where "BURST_SIZE = 32"
definition MAX_BUF :: nat where "MAX_BUF = 9000"

definition tx_room :: "bool \<Rightarrow> nat" where
  "tx_room tso = (if tso then 4096 * 4 else 2048)"

definition get_rx_queue_id :: "nat \<Rightarrow> nat \<Rightarrow> u16" where
  "get_rx_queue_id vm queue = of_nat (vm * MAX_QUEUES_PER_VM + queue)"

definition get_tx_queue_id :: "nat \<Rightarrow> nat \<Rightarrow> u16" where
  "get_tx_queue_id vm queue = of_nat (vm * MAX_QUEUES_PER_VM + queue)"

definition alloc_rx_lists :: "nat \<Rightarrow> nat \<Rightarrow> rx_list list" where
  "alloc_rx_lists global_queues per_queue_bursts =
     replicate global_queues \<lparr>rxBufs = replicate per_queue_bursts \<lparr>rb_data = [], rb_queue = None\<rparr>, nb_bufs_used = 0\<rparr>"

definition Dpdk_init :: "nat \<Rightarrow> bool \<Rightarrow> 'r \<Rightarrow> 'r dpdk" where
  "Dpdk_init num_vms tso r = \<lparr>rte = r, nr_queues = num_vms * MAX_QUEUES_PER_VM, mediate = replicate num_vms False,
     tso_supported = tso, tso_seg = replicate (num_vms * MAX_QUEUES_PER_VM) [],
     bufs = replicate (MAX_QUEUES_PER_VM * BURST_SIZE * num_vms) 0,
     rx_lists = alloc_rx_lists (MAX_QUEUES_PER_VM * num_vms) BURST_SIZE, held = {#}, handed = []\<rparr>"

section \<open>Buffers\<close>

definition mbuf_alloc :: "'r rte_env \<Rightarrow> u16 \<Rightarrow> 'r dpdk \<Rightarrow> (mbuf_id option \<times> 'r dpdk) res" where
  "mbuf_alloc env queue s = (if unat queue < nr_queues s then
     (case rte_pktmbuf_alloc env queue (rte s) of
        (None, r) \<Rightarrow> Ok (None, s\<lparr>rte := r\<rparr>)
      | (Some i, r) \<Rightarrow> Ok (Some i, s\<lparr>rte := r, held := add_mset i (held s)\<rparr>)) else Fault)"

definition mbuf_free :: "'r rte_env \<Rightarrow> mbuf_id \<Rightarrow> 'r dpdk \<Rightarrow> 'r dpdk res" where
  "mbuf_free env i s = (if i \<in># held s then Ok (s\<lparr>rte := rte_pktmbuf_free env i (rte s), held := held s - {#i#}\<rparr>) else Fault)"

text \<open>\<open>rte_pktmbuf_free\<close> frees all segments of a packet.\<close>

definition pkt_free :: "'r rte_env \<Rightarrow> seg list \<Rightarrow> 'r dpdk \<Rightarrow> 'r dpdk res" where
  "pkt_free env segs s = rfold (\<lambda>g. mbuf_free env (seg_id g)) segs s"

text \<open>\<open>rte_eth_tx_burst\<close> on one packet: the NIC takes the buffers of a packet that it accepts.\<close>

definition tx_burst :: "'r rte_env \<Rightarrow> tx_pkt \<Rightarrow> 'r dpdk \<Rightarrow> (bool \<times> 'r dpdk) res" where
  "tx_burst env p s = (case rte_eth_tx_burst env p (rte s) of
     (True, r) \<Rightarrow> if mset (map seg_id (tp_segs p)) \<subseteq># held s
       then Ok (True, s\<lparr>rte := r, held := held s - mset (map seg_id (tp_segs p)), handed := handed s @ [p]\<rparr>) else Fault
   | (False, r) \<Rightarrow> Ok (False, s\<lparr>rte := r\<rparr>))"

section \<open>Sending\<close>

text \<open>
  \<open>data_len\<close> has 16 bits.  When the length does not fit, \<open>copy_buf_to_pkt\<close> looks for further
  segments, of which the buffer has none.
\<close>

definition send :: "'r rte_env \<Rightarrow> nat \<Rightarrow> u8 list \<Rightarrow> 'r dpdk \<Rightarrow> 'r dpdk res" where
  "send env vm_id buf s = (let queue = get_tx_queue_id vm_id 0 in
     andThen (mbuf_alloc env queue s) (\<lambda>(i, s). case i of
       None \<Rightarrow> Ok s
     | Some i \<Rightarrow>
         if length buf \<le> unat (of_nat (length buf) :: u16) \<and> length buf \<le> room env then
           andThen (tx_burst env \<lparr>tp_queue = queue, tp_segs = [\<lparr>seg_id = i, seg_data = buf\<rparr>], tp_tso = None\<rparr> s) (\<lambda>(ok, s).
           if ok then Ok s else mbuf_free env i s)
         else Fault))"

text \<open>
  The loop that copies into the segments, of which the last is given apart; \<open>False\<close> when
  no further segment can be allocated.  With no room in an empty segment the loop would not end.
\<close>

function tso_copy :: "'r rte_env \<Rightarrow> u16 \<Rightarrow> seg list \<Rightarrow> seg \<Rightarrow> u8 list \<Rightarrow> 'r dpdk \<Rightarrow> (bool \<times> seg list \<times> 'r dpdk) res" where
  "tso_copy env queue segs tso_last buf s = (if buf = [] then Ok (True, segs @ [tso_last], s)
     else if room env \<le> length (seg_data tso_last) then
       andThen (mbuf_alloc env queue s) (\<lambda>(i, s). case i of
         None \<Rightarrow> Ok (False, segs @ [tso_last], s)
       | Some i \<Rightarrow> if room env = 0 then Fault else
           tso_copy env queue (segs @ [tso_last]) \<lparr>seg_id = i, seg_data = take (room env) buf\<rparr> (drop (room env) buf) s)
     else let n = min (room env - length (seg_data tso_last)) (length buf) in
       tso_copy env queue segs (tso_last\<lparr>seg_data := seg_data tso_last @ take n buf\<rparr>) (drop n buf) s)"
  by pat_completeness auto
termination
  by (relation "measure (\<lambda>(env, queue, segs, tso_last, buf, s). length buf)") (auto simp: min_def)

declare tso_copy.simps [simp del]

definition put_at :: "nat \<Rightarrow> u8 list \<Rightarrow> u8 list \<Rightarrow> u8 list" where
  "put_at off v xs = take (length xs) (take off xs @ v @ drop (off + length v) xs)"

text \<open>Writes to the headers of the first segment, whose bytes beyond \<open>data_len\<close> are not sent.\<close>

definition tso_headers :: "'r rte_env \<Rightarrow> u64 \<Rightarrow> u64 \<Rightarrow> seg \<Rightarrow> seg res" where
  "tso_headers env l2_len l3_len g = (if unat l2_len + 20 \<le> room env \<and> unat (l2_len + l3_len) + 18 \<le> room env then
     let d = put_at (unat l2_len + 10) [0, 0] (seg_data g);
         c = rte_ipv4_phdr_cksum env (drop (unat l2_len) d) in
     Ok (g\<lparr>seg_data := put_at (unat (l2_len + l3_len) + 16) (le_bytes 2 c) d\<rparr>) else Fault)"

text \<open>The packet buffers that a call of \<open>Dpdk::send_tso\<close> starts with.\<close>

definition tso_first :: "'r rte_env \<Rightarrow> u16 \<Rightarrow> 'r dpdk \<Rightarrow> (seg list option \<times> 'r dpdk) res" where
  "tso_first env queue s = (case tso_seg s ! unat queue of
     [] \<Rightarrow> andThen (mbuf_alloc env queue s) (\<lambda>(i, s). case i of
         None \<Rightarrow> Ok (None, s)
       | Some i \<Rightarrow> Ok (Some [\<lparr>seg_id = i, seg_data = []\<rparr>], s))
   | segs \<Rightarrow> Ok (Some segs, s))"

text \<open>Giving up, and the end of a packet.\<close>

definition tso_drop :: "'r rte_env \<Rightarrow> nat \<Rightarrow> seg list \<Rightarrow> 'r dpdk \<Rightarrow> (bool \<times> 'r dpdk) res" where
  "tso_drop env q segs s = andThen (pkt_free env segs (s\<lparr>tso_seg := (tso_seg s)[q := []]\<rparr>)) (\<lambda>s. Ok (False, s))"

definition tso_finish :: "'r rte_env \<Rightarrow> u16 \<Rightarrow> seg list \<Rightarrow> u64 \<Rightarrow> u64 \<Rightarrow> u64 \<Rightarrow> u64 \<Rightarrow> 'r dpdk \<Rightarrow> (bool \<times> 'r dpdk) res" where
  "tso_finish env queue segs l2_len l3_len l4_len tso_segsz s = (
     if of_nat (length (seg_data (hd segs))) < l2_len + l3_len + l4_len then tso_drop env (unat queue) segs s
     else andThen (tso_headers env l2_len l3_len (hd segs)) (\<lambda>g.
       andThen (tx_burst env \<lparr>tp_queue = queue, tp_segs = g # tl segs, tp_tso = Some (l2_len, l3_len, l4_len, tso_segsz)\<rparr> s) (\<lambda>(ok, s).
       if ok then Ok (True, s\<lparr>tso_seg := (tso_seg s)[unat queue := []]\<rparr>) else tso_drop env (unat queue) segs s)))"

definition tso_append :: "'r rte_env \<Rightarrow> u16 \<Rightarrow> seg list \<Rightarrow> u8 list \<Rightarrow> bool \<Rightarrow> u64 \<Rightarrow> u64 \<Rightarrow> u64 \<Rightarrow> u64 \<Rightarrow> 'r dpdk \<Rightarrow> (bool \<times> 'r dpdk) res" where
  "tso_append env queue segs buf end_of_packet l2_len l3_len l4_len tso_segsz s =
     andThen (tso_copy env queue (butlast segs) (last segs) buf s) (\<lambda>(copied, segs, s).
       if \<not> copied then tso_drop env (unat queue) segs s
       else if \<not> end_of_packet then Ok (True, s\<lparr>tso_seg := (tso_seg s)[unat queue := segs]\<rparr>)
       else tso_finish env queue segs l2_len l3_len l4_len tso_segsz s)"

definition dpdk_send_tso :: "'r rte_env \<Rightarrow> nat \<Rightarrow> u8 list \<Rightarrow> bool \<Rightarrow> u64 \<Rightarrow> u64 \<Rightarrow> u64 \<Rightarrow> u64 \<Rightarrow> 'r dpdk \<Rightarrow> (bool \<times> 'r dpdk) res" where
  "dpdk_send_tso env vm_id buf end_of_packet l2_len l3_len l4_len tso_segsz s = (if \<not> tso_supported s then Ok (False, s) else
     let queue = get_tx_queue_id vm_id 0 in
     if length (tso_seg s) \<le> unat queue then Fault else
     andThen (tso_first env queue s) (\<lambda>(first, s). case first of
       None \<Rightarrow> Ok (False, s)
     | Some segs \<Rightarrow> tso_append env queue segs buf end_of_packet l2_len l3_len l4_len tso_segsz s))"

section \<open>Receiving\<close>

text \<open>\<open>get_rx_queue\<close> of the VM with stride \<open>MAX_QUEUES_PER_VM\<close>.\<close>

definition rx_index :: "nat \<Rightarrow> nat \<Rightarrow> nat" where
  "rx_index vm queue = vm * MAX_QUEUES_PER_VM + queue"

definition rx_one :: "bool \<Rightarrow> nat \<Rightarrow> nat \<Rightarrow> rx_mbuf \<Rightarrow> rx_list \<Rightarrow> rx_list res" where
  "rx_one med q_idx i m q = (if rm_nb_segs m \<noteq> 1 then Abort
     else if MAX_BUF \<le> length (rm_data m) then Abort
     else if i < length (rxBufs q) then
       Ok (q\<lparr>rxBufs := (rxBufs q)[i := \<lparr>rb_data = rm_data m, rb_queue = if med then Some (of_nat q_idx) else None\<rparr>]\<rparr>)
     else Fault)"

text \<open>The loop over the packets of a burst, from the one with index \<open>i\<close>.\<close>

fun rx_burst_loop :: "bool \<Rightarrow> nat \<Rightarrow> nat \<Rightarrow> rx_mbuf list \<Rightarrow> rx_list \<Rightarrow> rx_list res" where
  "rx_burst_loop med q_idx i [] q = Ok q"
| "rx_burst_loop med q_idx i (m # ms) q = andThen (rx_one med q_idx i m q) (rx_burst_loop med q_idx (Suc i) ms)"

text \<open>\<open>rte_eth_rx_burst\<close> stores pointers to the buffers in \<open>bufs\<close>, beginning at a given index.\<close>

definition store_bufs :: "nat \<Rightarrow> mbuf_id list \<Rightarrow> mbuf_id list \<Rightarrow> mbuf_id list res" where
  "store_bufs at ids xs = (if at + length ids \<le> length xs then Ok (take at xs @ ids @ drop (at + length ids) xs) else Fault)"

definition recv_queue :: "'r rte_env \<Rightarrow> nat \<Rightarrow> nat \<Rightarrow> 'r dpdk \<Rightarrow> 'r dpdk res" where
  "recv_queue env vm_id q_idx s = (let queue_id = get_rx_queue_id vm_id q_idx in
     case rte_eth_rx_burst env queue_id (rte s) of (ms, r) \<Rightarrow>
     andThen (store_bufs (unat queue_id * BURST_SIZE) (map rm_id ms) (bufs s)) (\<lambda>bs.
     let s = s\<lparr>rte := r, bufs := bs, held := held s + mset (map rm_id ms)\<rparr> in
     if ms = [] then Ok s else
     if rx_index vm_id q_idx < length (rx_lists s) \<and> vm_id < length (mediate s) then
       andThen (rx_burst_loop (mediate s ! vm_id) q_idx 0 ms (rx_lists s ! rx_index vm_id q_idx)) (\<lambda>q.
       Ok (s\<lparr>rx_lists := (rx_lists s)[rx_index vm_id q_idx := q\<lparr>nb_bufs_used := length ms\<rparr>]\<rparr>))
     else Fault))"

definition recv :: "'r rte_env \<Rightarrow> nat \<Rightarrow> 'r dpdk \<Rightarrow> 'r dpdk res" where
  "recv env vm_id s = rfold (recv_queue env vm_id) [0..<MAX_QUEUES_PER_VM] s"

text \<open>
  The loop that frees the buffers of a queue has a 16 bit index that is compared with a larger type.
  It takes fuel for its rounds.
\<close>

primrec free_loop :: "nat \<Rightarrow> 'r rte_env \<Rightarrow> u16 \<Rightarrow> nat \<Rightarrow> 'r dpdk \<Rightarrow> 'r dpdk res" where
  "free_loop 0 env i bound s = Fault"
| "free_loop (Suc n) env i bound s = (if unat i < bound then
     (if unat i < length (bufs s) then andThen (mbuf_free env (bufs s ! unat i) s) (free_loop n env (i + 1) bound) else Fault)
     else Ok s)"

definition consume_queue :: "'r rte_env \<Rightarrow> nat \<Rightarrow> nat \<Rightarrow> 'r dpdk \<Rightarrow> 'r dpdk res" where
  "consume_queue env vm_id q_idx s = (if length (rx_lists s) \<le> rx_index vm_id q_idx then Fault else
     let from = unat (get_rx_queue_id vm_id q_idx) * BURST_SIZE; q = rx_lists s ! rx_index vm_id q_idx in
     andThen (free_loop 65537 env (of_nat from) (from + nb_bufs_used q) s) (\<lambda>s.
     Ok (s\<lparr>rx_lists := (rx_lists s)[rx_index vm_id q_idx := q\<lparr>nb_bufs_used := 0\<rparr>]\<rparr>)))"

definition recv_consumed :: "'r rte_env \<Rightarrow> nat \<Rightarrow> 'r dpdk \<Rightarrow> 'r dpdk res" where
  "recv_consumed env vm_id s = rfold (consume_queue env vm_id) [0..<MAX_QUEUES_PER_VM] s"

definition mediation_enable :: "nat \<Rightarrow> 'r dpdk \<Rightarrow> (bool \<times> 'r dpdk) res" where
  "mediation_enable vm_id s = (if vm_id < length (mediate s) then Ok (True, s\<lparr>mediate := (mediate s)[vm_id := True]\<rparr>) else Fault)"

definition is_mediating :: "nat \<Rightarrow> 'r dpdk \<Rightarrow> bool res" where
  "is_mediating vm_id s = (if vm_id < length (mediate s) then Ok (mediate s ! vm_id) else Fault)"

section \<open>The tap back end\<close>

text \<open>\<open>n\<close> is what \<open>write\<close> or \<open>read\<close> returns, as a \<open>size_t\<close>.\<close>

definition tap_send :: "u64 \<Rightarrow> u8 list \<Rightarrow> unit res" where
  "tap_send n buf = (if MAX_BUF < length buf then Abort else if n \<noteq> of_nat (length buf) then Abort else Ok ())"

text \<open>The result is \<open>used\<close> and \<open>nb_bufs_used\<close>; the test \<open>n < 0\<close> of an unsigned number is never true.\<close>

definition tap_recv :: "u64 \<Rightarrow> (u64 \<times> nat) res" where
  "tap_recv n = (if n < 0 then Abort else Ok (n, 1))"

end
