(* ===== verification/Vmux_Driver_Ok.thy ===== *)
theory Vmux_Driver_Ok
  imports Vmux_Driver
begin

text \<open>
  The DPDK back end accounts for every packet buffer: the ones it holds are those of
  unfinished packets to segment and those of received packets that have not been consumed; none
  is freed twice, and copies stay inside the buffers.
\<close>

section \<open>Ownership of buffers\<close>

definition queue_ids :: "'r dpdk \<Rightarrow> nat \<Rightarrow> mbuf_id list" where
  "queue_ids s j = take (nb_bufs_used (rx_lists s ! j)) (drop (32 * j) (bufs s))"

definition tso_ids :: "'r dpdk \<Rightarrow> nat \<Rightarrow> mbuf_id list" where
  "tso_ids s j = map seg_id (tso_seg s ! j)"

definition rx_list_ok :: "rx_list \<Rightarrow> bool" where
  "rx_list_ok q \<longleftrightarrow> length (rxBufs q) = 32 \<and> nb_bufs_used q \<le> 32"

definition driver_ok :: "nat \<Rightarrow> 'r dpdk \<Rightarrow> bool" where
  "driver_ok n s \<longleftrightarrow> n \<le> 511 \<and> nr_queues s = 4 * n \<and> length (mediate s) = n \<and> length (tso_seg s) = 4 * n \<and>
     length (bufs s) = 32 * (4 * n) \<and> length (rx_lists s) = 4 * n \<and> (\<forall>q \<in> set (rx_lists s). rx_list_ok q) \<and>
     held s = (\<Sum>j<4 * n. mset (tso_ids s j)) + (\<Sum>j<4 * n. mset (queue_ids s j))"

text \<open>Operations of DPDK change what is held and nothing else of the driver.\<close>

definition frame :: "'r dpdk \<Rightarrow> 'r dpdk \<Rightarrow> bool" where
  "frame s s' \<longleftrightarrow> nr_queues s' = nr_queues s \<and> mediate s' = mediate s \<and> tso_seg s' = tso_seg s \<and> bufs s' = bufs s \<and>
     rx_lists s' = rx_lists s \<and> handed s' = handed s \<and> tso_supported s' = tso_supported s"

lemma frame_trans: "frame s s1 \<Longrightarrow> frame s1 s2 \<Longrightarrow> frame s s2"
  by (simp add: frame_def)

lemma frame_refl [simp]: "frame s s" "frame s (s\<lparr>rte := r\<rparr>)" "frame s (s\<lparr>rte := r, held := h\<rparr>)"
  by (simp_all add: frame_def)

lemma frame_ids: "frame s s' \<Longrightarrow> queue_ids s' = queue_ids s" "frame s s' \<Longrightarrow> tso_ids s' = tso_ids s"
  by (simp_all add: frame_def queue_ids_def tso_ids_def fun_eq_iff)

lemma queue_id_unat:
  "n \<le> 511 \<Longrightarrow> vm < n \<Longrightarrow> q < 4 \<Longrightarrow> unat (get_rx_queue_id vm q) = 4 * vm + q \<and> unat (get_tx_queue_id vm q) = 4 * vm + q \<and>
    rx_index vm q = 4 * vm + q \<and> 4 * vm + q < 4 * n"
proof -
  assume "n \<le> 511" "vm < n" "q < 4"
  then have b: "vm * 4 + q < 65536" "4 * vm + q < 4 * n" by simp_all
  then have "unat (of_nat (vm * 4 + q) :: u16) = vm * 4 + q" by (subst unat_of_nat) simp
  then show ?thesis using b unfolding get_rx_queue_id_def get_tx_queue_id_def rx_index_def MAX_QUEUES_PER_VM_def by linarith
qed

section \<open>Buffers\<close>

lemma mbuf_alloc_safe:
  assumes "unat queue < nr_queues s"
  shows "safe (mbuf_alloc env queue s) (\<lambda>(i, s'). frame s s' \<and> held s' = (case i of None \<Rightarrow> held s | Some i \<Rightarrow> add_mset i (held s)))"
  using assms by (auto simp: mbuf_alloc_def frame_def split: prod.splits option.splits)

lemma pkt_free_ok:
  "mset (map seg_id segs) \<subseteq># held s \<Longrightarrow>
    safe (pkt_free env segs s) (\<lambda>s'. frame s s' \<and> held s' = held s - mset (map seg_id segs))"
proof (induction segs arbitrary: s)
  case (Cons g segs)
  let ?s = "s\<lparr>rte := rte_pktmbuf_free env (seg_id g) (rte s), held := held s - {#seg_id g#}\<rparr>"
  have "seg_id g \<in># held s" "mset (map seg_id segs) \<subseteq># held ?s"
    using Cons.prems by (simp_all add: insert_subset_eq_iff)
  then have free: "mbuf_free env (seg_id g) s = Ok ?s" and
    ih: "safe (pkt_free env segs ?s) (\<lambda>s'. frame ?s s' \<and> held s' = held ?s - mset (map seg_id segs))"
    by (simp_all only: mbuf_free_def if_True Cons.IH)
  have "safe (pkt_free env segs ?s) (\<lambda>s'. frame s s' \<and> held s' = held s - mset (map seg_id (g # segs)))"
    by (rule safe_mono [OF ih]) (auto simp: frame_def)
  then show ?case using free by (simp add: pkt_free_def)
qed (simp add: pkt_free_def)

lemma tx_burst_safe:
  assumes "mset (map seg_id (tp_segs p)) \<subseteq># held s"
  shows "safe (tx_burst env p s) (\<lambda>(ok, s'). if ok
    then held s' = held s - mset (map seg_id (tp_segs p)) \<and> handed s' = handed s @ [p] \<and> frame s (s'\<lparr>handed := handed s\<rparr>)
    else held s' = held s \<and> frame s s')"
  using assms by (auto simp: tx_burst_def frame_def split: prod.splits bool.splits)

definition tso_bytes :: "seg list \<Rightarrow> u8 list" where
  "tso_bytes segs = concat (map seg_data segs)"

text \<open>What the copying loop keeps, from \<open>segs0\<close> and the state \<open>s\<close> in which it starts.\<close>

definition copy_post :: "seg list \<Rightarrow> u8 list \<Rightarrow> 'r dpdk \<Rightarrow> bool \<times> seg list \<times> 'r dpdk \<Rightarrow> bool" where
  "copy_post segs0 buf s = (\<lambda>(ok, segs', s'). frame s s' \<and> segs' \<noteq> [] \<and>
     held s' + mset (map seg_id segs0) = held s + mset (map seg_id segs') \<and>
     (ok \<longrightarrow> tso_bytes segs' = tso_bytes segs0 @ buf))"

lemma copy_post_step:
  assumes "copy_post segs1 buf1 s1 r" "frame s s1" "held s1 + mset (map seg_id segs0) = held s + mset (map seg_id segs1)"
    "tso_bytes segs1 @ buf1 = tso_bytes segs0 @ buf"
  shows "copy_post segs0 buf s r"
proof -
  obtain ok segs' s' where r: "r = (ok, segs', s')" by (cases r)
  have "held s' + mset (map seg_id segs1) = held s1 + mset (map seg_id segs')" using assms(1) by (simp add: copy_post_def r)
  then have "held s' + mset (map seg_id segs1) + mset (map seg_id segs0) = held s + mset (map seg_id segs1) + mset (map seg_id segs')"
    using assms(3) by (metis union_assoc union_commute)
  then have "held s' + mset (map seg_id segs0) = held s + mset (map seg_id segs')" by (simp add: ac_simps)
  then show ?thesis using assms(1,2,4) frame_trans by (auto simp: copy_post_def r)
qed

lemma tso_copy_safe:
  "unat queue < nr_queues s \<Longrightarrow> 0 < room env \<Longrightarrow>
    safe (tso_copy env queue segs tso_last buf s) (copy_post (segs @ [tso_last]) buf s)"
proof (induction env queue segs tso_last buf s rule: tso_copy.induct)
  case (1 env queue segs tso_last buf s)
  consider "buf = []" | "buf \<noteq> []" "room env \<le> length (seg_data tso_last)" | "buf \<noteq> []" "length (seg_data tso_last) < room env"
    by linarith
  then show ?case
  proof cases
    case 1
    then show ?thesis by (simp add: copy_post_def tso_copy.simps)
  next
    case 2
    let ?last = "\<lambda>i. \<lparr>seg_id = i, seg_data = take (room env) buf\<rparr>"
    have "safe (case i of None \<Rightarrow> Ok (False, segs @ [tso_last], s')
        | Some i \<Rightarrow> tso_copy env queue (segs @ [tso_last]) (?last i) (drop (room env) buf) s') (copy_post (segs @ [tso_last]) buf s)"
      if s': "frame s s'" "held s' = (case i of None \<Rightarrow> held s | Some i \<Rightarrow> add_mset i (held s))" for i s'
    proof (cases i)
      case None
      then show ?thesis using s' by (simp add: copy_post_def)
    next
      case (Some k)
      have "safe (tso_copy env queue (segs @ [tso_last]) (?last k) (drop (room env) buf) s')
          (copy_post ((segs @ [tso_last]) @ [?last k]) (drop (room env) buf) s')"
        using "1.prems" s'(1) by (intro "1.IH"(1) [OF 2 Some]) (auto simp: frame_def)
      then show ?thesis unfolding Some option.case
        by (rule safe_mono) (rule copy_post_step, assumption, rule s'(1), simp_all add: s'(2) Some tso_bytes_def)
    qed
    then show ?thesis using 2 "1.prems"
      by (subst tso_copy.simps) (auto intro!: safe_mono [OF mbuf_alloc_safe] cong: option.case_cong)
  next
    case 3
    let ?n = "min (room env - length (seg_data tso_last)) (length buf)"
    let ?last = "tso_last\<lparr>seg_data := seg_data tso_last @ take ?n buf\<rparr>"
    have "safe (tso_copy env queue segs ?last (drop ?n buf) s) (copy_post (segs @ [?last]) (drop ?n buf) s)"
      using 3 "1.prems" by (intro "1.IH"(2)) auto
    then have "safe (tso_copy env queue segs ?last (drop ?n buf) s) (copy_post (segs @ [tso_last]) buf s)"
      by (rule safe_mono) (rule copy_post_step, assumption, simp_all add: tso_bytes_def)
    then show ?thesis using 3 by (subst tso_copy.simps) (simp add: Let_def)
  qed
qed

section \<open>Sending\<close>

lemma sum_upd:
  fixes f g :: "nat \<Rightarrow> 'a multiset"
  assumes "k < n" "\<And>j. j < n \<Longrightarrow> j \<noteq> k \<Longrightarrow> g j = f j"
  shows "(\<Sum>j<n. g j) + f k = (\<Sum>j<n. f j) + g k"
proof -
  have "(\<Sum>j\<in>{..<n} - {k}. g j) = (\<Sum>j\<in>{..<n} - {k}. f j)" using assms(2) by (intro sum.cong) auto
  then show ?thesis using assms(1) sum.remove [of "{..<n}" k g] sum.remove [of "{..<n}" k f] by (simp add: ac_simps)
qed

lemma driver_ok_tso:
  assumes "driver_ok n s" "q < 4 * n" "frame s s1" "tso_seg s' = (tso_seg s)[q := segs]"
    "nr_queues s' = nr_queues s1" "mediate s' = mediate s1" "bufs s' = bufs s1" "rx_lists s' = rx_lists s1"
    "held s' + mset (map seg_id (tso_seg s ! q)) = held s + mset (map seg_id segs)"
  shows "driver_ok n s'"
proof -
  have tso: "(\<Sum>j<4 * n. mset (tso_ids s' j)) + mset (tso_ids s q) = (\<Sum>j<4 * n. mset (tso_ids s j)) + mset (map seg_id segs)"
    using sum_upd [of q "4 * n" "\<lambda>j. mset (tso_ids s' j)" "\<lambda>j. mset (tso_ids s j)"] assms(1,2,4)
    by (auto simp: tso_ids_def driver_ok_def)
  have "queue_ids s' = queue_ids s" using assms by (simp add: queue_ids_def frame_def fun_eq_iff)
  then have "held s' + mset (tso_ids s q) = (\<Sum>j<4 * n. mset (tso_ids s' j)) + (\<Sum>j<4 * n. mset (queue_ids s' j)) + mset (tso_ids s q)"
    using assms(1,9) tso by (simp add: driver_ok_def tso_ids_def ac_simps)
  then show ?thesis using assms by (simp add: driver_ok_def frame_def)
qed

lemma driver_ok_frame: "driver_ok n s \<Longrightarrow> frame s s' \<Longrightarrow> held s' = held s \<Longrightarrow> driver_ok n s'"
  using frame_ids [of s s'] by (simp add: driver_ok_def) (simp add: frame_def)

lemma tso_subset: "driver_ok n s \<Longrightarrow> q < 4 * n \<Longrightarrow> mset (map seg_id (tso_seg s ! q)) \<subseteq># held s"
proof -
  assume "driver_ok n s" "q < 4 * n"
  then have "mset (tso_ids s q) \<subseteq># (\<Sum>j<4 * n. mset (tso_ids s j))" using sum.remove [of "{..<4 * n}" q "\<lambda>j. mset (tso_ids s j)"] by simp
  then show ?thesis using \<open>driver_ok n s\<close> by (simp add: driver_ok_def tso_ids_def subset_mset.add_increasing2)
qed

lemma send_safe:
  assumes "driver_ok n s" "vm < n" "length buf \<le> room env" "length buf < 65536"
  shows "safe (send env vm buf s) (\<lambda>s'. driver_ok n s' \<and>
    (handed s' = handed s \<or> (\<exists>i. handed s' = handed s @ [\<lparr>tp_queue = get_tx_queue_id vm 0, tp_segs = [\<lparr>seg_id = i, seg_data = buf\<rparr>], tp_tso = None\<rparr>])))"
proof -
  let ?Q = "\<lambda>s'. driver_ok n s' \<and> (handed s' = handed s \<or>
    (\<exists>i. handed s' = handed s @ [\<lparr>tp_queue = get_tx_queue_id vm 0, tp_segs = [\<lparr>seg_id = i, seg_data = buf\<rparr>], tp_tso = None\<rparr>]))"
  have q: "unat (get_tx_queue_id vm 0) < nr_queues s" and len: "unat (of_nat (length buf) :: u16) = length buf"
    using queue_id_unat [of n vm 0] assms by (simp_all add: driver_ok_def unat_of_nat)
  have some: "safe (andThen (tx_burst env \<lparr>tp_queue = get_tx_queue_id vm 0, tp_segs = [\<lparr>seg_id = i, seg_data = buf\<rparr>], tp_tso = None\<rparr> s1)
      (\<lambda>(ok, s). if ok then Ok s else mbuf_free env i s)) ?Q" if s1: "frame s s1" "held s1 = add_mset i (held s)" for i s1
  proof -
    have "driver_ok n s2 \<and> handed s2 = handed s1 @ [p]"
      if "held s2 = held s1 - {#i#}" "handed s2 = handed s1 @ [p]" "frame s1 (s2\<lparr>handed := handed s1\<rparr>)" for s2 p
      using driver_ok_frame [OF assms(1), of "s2\<lparr>handed := handed s1\<rparr>"] that s1 frame_trans [OF s1(1)]
      by (auto simp: driver_ok_def queue_ids_def tso_ids_def)
    moreover have "safe (mbuf_free env i s2) ?Q" if "held s2 = held s1" "frame s1 s2" for s2
      using that s1 driver_ok_frame [OF assms(1)] by (auto simp: mbuf_free_def frame_def)
    moreover have "handed s1 = handed s" using s1 by (simp add: frame_def)
    ultimately show ?thesis using s1(2)
      by (auto intro!: safe_mono [OF tx_burst_safe])
  qed
  show ?thesis unfolding send_def Let_def safe_andThen
    using some driver_ok_frame [OF assms(1)] assms(3)
    by (intro safe_mono [OF mbuf_alloc_safe [OF q]]) (auto simp: len frame_def split: option.split)
qed

text \<open>The bytes that the driver has collected for a packet of a VM.\<close>

definition collected :: "nat \<Rightarrow> 'r dpdk \<Rightarrow> u8 list" where
  "collected vm s = tso_bytes (tso_seg s ! (4 * vm))"

text \<open>The packet that is handed over: only the two checksum fields differ from what was collected.\<close>

definition tso_sent :: "u64 \<Rightarrow> u64 \<Rightarrow> u8 list \<Rightarrow> u8 list \<Rightarrow> bool" where
  "tso_sent l2_len l3_len d d' \<longleftrightarrow> length d' = length d \<and>
     (\<forall>i<length d. i \<notin> {unat l2_len + 10, unat l2_len + 11, unat (l2_len + l3_len) + 16, unat (l2_len + l3_len) + 17} \<longrightarrow> d' ! i = d ! i)"

lemma length_put_at [simp]: "length (put_at off v xs) = length xs"
  by (auto simp: put_at_def)

lemma put_at_nth: "i < length xs \<Longrightarrow> i < off \<or> off + length v \<le> i \<Longrightarrow> put_at off v xs ! i = xs ! i"
  by (auto simp: put_at_def nth_append)

lemma tso_headers_sent:
  assumes "tso_headers env l2_len l3_len g = Ok g'"
  shows "seg_id g' = seg_id g" "tso_sent l2_len l3_len (tso_bytes (g # gs)) (tso_bytes (g' # gs))"
proof -
  show "seg_id g' = seg_id g" using assms by (auto simp: tso_headers_def Let_def split: if_splits)
  have len: "length (seg_data g') = length (seg_data g)"
    using assms by (auto simp: tso_headers_def Let_def split: if_splits)
  have "seg_data g' ! i = seg_data g ! i" if "i < length (seg_data g)"
    "i \<notin> {unat l2_len + 10, unat l2_len + 11, unat (l2_len + l3_len) + 16, unat (l2_len + l3_len) + 17}" for i
  proof -
    have "i < unat l2_len + 10 \<or> unat l2_len + 10 + 2 \<le> i" "i < unat (l2_len + l3_len) + 16 \<or> unat (l2_len + l3_len) + 16 + 2 \<le> i"
      using that(2) by auto
    then show ?thesis using assms that(1) by (auto simp: tso_headers_def Let_def put_at_nth split: if_splits)
  qed
  then show "tso_sent l2_len l3_len (tso_bytes (g # gs)) (tso_bytes (g' # gs))"
    using len by (auto simp: tso_sent_def tso_bytes_def nth_append)
qed

lemma tso_headers_Ok:
  assumes "l2_len \<le> 254" "l3_len \<le> 508" "2048 \<le> room env"
  shows "\<exists>g'. tso_headers env l2_len l3_len g = Ok g'"
proof -
  have "unat l2_len \<le> 254" "unat l3_len \<le> 508" using assms(1,2) by (simp_all add: word_le_nat_alt)
  then have "unat (l2_len + l3_len) + 18 \<le> room env" "unat l2_len + 20 \<le> room env"
    using assms(3) by (simp_all add: unat_word_ariths)
  then show ?thesis by (simp add: tso_headers_def Let_def)
qed

lemma tso_first_safe:
  assumes "unat queue < nr_queues s"
  shows "safe (tso_first env queue s) (\<lambda>(first, s'). frame s s' \<and> (case first of
      None \<Rightarrow> held s' = held s \<and> tso_seg s ! unat queue = []
    | Some segs \<Rightarrow> segs \<noteq> [] \<and> tso_bytes segs = tso_bytes (tso_seg s ! unat queue) \<and>
        held s' + mset (map seg_id (tso_seg s ! unat queue)) = held s + mset (map seg_id segs)))"
proof (cases "tso_seg s ! unat queue")
  case Nil
  then show ?thesis unfolding tso_first_def
    by (auto simp: tso_bytes_def intro!: safe_mono [OF mbuf_alloc_safe [OF assms]] split: option.splits)
qed (simp add: tso_first_def)

lemma tso_drop_safe:
  assumes "driver_ok n s" "q < 4 * n" "frame s s1"
    "held s1 + mset (map seg_id (tso_seg s ! q)) = held s + mset (map seg_id segs)"
  shows "safe (tso_drop env q segs s1) (\<lambda>(ok, s'). \<not> ok \<and> driver_ok n s' \<and> handed s' = handed s \<and> tso_seg s' ! q = [] \<and> tso_supported s' = tso_supported s)"
proof -
  let ?s = "s1\<lparr>tso_seg := (tso_seg s1)[q := []]\<rparr>"
  have sub: "mset (map seg_id segs) \<subseteq># held ?s"
    using tso_subset [OF assms(1,2)] assms(4) by simp (metis (no_types, lifting) mset_subset_eq_add_left subset_mset.add_le_cancel_right subset_mset.le_iff_add union_commute union_assoc)
  have "driver_ok n s' \<and> handed s' = handed s \<and> tso_seg s' ! q = [] \<and> tso_supported s' = tso_supported s"
    if s': "frame ?s s'" "held s' = held ?s - mset (map seg_id segs)" for s'
  proof -
    have "held s' + mset (map seg_id (tso_seg s ! q)) = held s"
      using s'(2) sub assms(4) by simp
    then have "driver_ok n s'"
      using s'(1) assms(3) by (intro driver_ok_tso [OF assms(1,2,3), where segs = "[]"]) (simp_all add: frame_def)
    moreover have "q < length (tso_seg s)" using assms(1,2) by (simp add: driver_ok_def)
    ultimately show ?thesis using s'(1) assms(3) by (simp add: frame_def)
  qed
  then show ?thesis unfolding tso_drop_def safe_andThen by (intro safe_mono [OF pkt_free_ok [OF sub]]) simp
qed

text \<open>What a call of \<open>Dpdk::send_tso\<close> achieves for the packet of a VM, of which \<open>d\<close> had been collected.\<close>

definition tso_post :: "nat \<Rightarrow> nat \<Rightarrow> u8 list \<Rightarrow> bool \<Rightarrow> u64 \<Rightarrow> u64 \<Rightarrow> u64 \<Rightarrow> u64 \<Rightarrow> tx_pkt list \<Rightarrow> bool \<times> 'r dpdk \<Rightarrow> bool" where
  "tso_post n vm d eop l2_len l3_len l4_len tso_segsz sent = (\<lambda>(ok, s'). driver_ok n s' \<and> tso_supported s' \<and>
     (if ok \<and> eop then \<exists>p. handed s' = sent @ [p] \<and> tso_sent l2_len l3_len d (tso_bytes (tp_segs p)) \<and>
        tp_tso p = Some (l2_len, l3_len, l4_len, tso_segsz) \<and> collected vm s' = []
      else handed s' = sent \<and> collected vm s' = (if ok then d else [])))"

lemma tso_drop_post:
  assumes "driver_ok n s" "vm < n" "frame s s1"
    "held s1 + mset (map seg_id (tso_seg s ! (4 * vm))) = held s + mset (map seg_id segs)" "tso_supported s"
  shows "safe (tso_drop env (4 * vm) segs s1) (tso_post n vm d eop l2 l3 l4 z (handed s))"
  by (rule safe_mono [OF tso_drop_safe [OF assms(1) _ assms(3,4)]])
    (use assms(2,5) in \<open>auto simp: tso_post_def collected_def tso_bytes_def\<close>)

lemma tso_finish_safe:
  assumes "driver_ok n s" "vm < n" "frame s s1" "unat queue = 4 * vm" "segs \<noteq> []"
    and held: "held s1 + mset (map seg_id (tso_seg s ! (4 * vm))) = held s + mset (map seg_id segs)"
    and lens: "l2_len \<le> 254" "l3_len \<le> 508" "2048 \<le> room env" and sup: "tso_supported s"
  shows "safe (tso_finish env queue segs l2_len l3_len l4_len z s1)
    (tso_post n vm (tso_bytes segs) True l2_len l3_len l4_len z (handed s))"
proof -
  obtain g where g: "tso_headers env l2_len l3_len (hd segs) = Ok g" using tso_headers_Ok [OF lens] by blast
  let ?p = "\<lparr>tp_queue = queue, tp_segs = g # tl segs, tp_tso = Some (l2_len, l3_len, l4_len, z)\<rparr>"
  have ids: "map seg_id (tp_segs ?p) = map seg_id segs" using tso_headers_sent(1) [OF g] assms(5) by (cases segs) auto
  have sent: "tso_sent l2_len l3_len (tso_bytes segs) (tso_bytes (tp_segs ?p))"
    using tso_headers_sent(2) [OF g, of "tl segs"] assms(5) by (cases segs) auto
  have q: "4 * vm < 4 * n" "4 * vm < length (tso_seg s)" using assms(1,2) by (simp_all add: driver_ok_def)
  have sub: "mset (map seg_id (tp_segs ?p)) \<subseteq># held s1"
    using tso_subset [OF assms(1) q(1)] held unfolding ids
    by (metis (no_types, lifting) add.commute subset_mset.add_le_cancel_right subset_mset.le_add_same_cancel1 subset_mset.le_iff_add zero_le)
  have good: "tso_post n vm (tso_bytes segs) True l2_len l3_len l4_len z (handed s) (True, s2\<lparr>tso_seg := (tso_seg s2)[4 * vm := []]\<rparr>)"
    if s2: "held s2 = held s1 - mset (map seg_id (tp_segs ?p))" "handed s2 = handed s1 @ [?p]" "frame s1 (s2\<lparr>handed := handed s1\<rparr>)" for s2
  proof -
    have "driver_ok n (s2\<lparr>tso_seg := (tso_seg s2)[4 * vm := []]\<rparr>)"
      using s2 assms(3) held sub unfolding ids by (intro driver_ok_tso [OF assms(1) q(1) assms(3), where segs = "[]"]) (simp_all add: frame_def)
    then show ?thesis using s2 assms(3) sent q sup by (auto simp: tso_post_def collected_def tso_bytes_def frame_def)
  qed
  have bad: "safe (tso_drop env (4 * vm) segs s2) (tso_post n vm (tso_bytes segs) True l2_len l3_len l4_len z (handed s))"
    if "held s2 = held s1" "frame s1 s2" for s2
    using that held frame_trans [OF assms(3)] sup by (intro tso_drop_post [OF assms(1,2)]) auto
  have "safe (tx_burst env ?p s1) (\<lambda>(ok, s2). safe (if ok then Ok (True, s2\<lparr>tso_seg := (tso_seg s2)[4 * vm := []]\<rparr>)
      else tso_drop env (4 * vm) segs s2) (tso_post n vm (tso_bytes segs) True l2_len l3_len l4_len z (handed s)))"
    by (rule safe_mono [OF tx_burst_safe [OF sub]]) (use good bad in \<open>auto split: if_splits\<close>)
  then show ?thesis using bad [of s1]
    by (cases "of_nat (length (seg_data (hd segs))) < l2_len + l3_len + l4_len")
      (simp_all add: tso_finish_def assms(4) g case_prod_unfold split del: if_split cong: if_cong)
qed

lemma tso_append_post:
  assumes "driver_ok n s" "vm < n" "tso_supported s" "l2_len \<le> 254" "l3_len \<le> 508" "2048 \<le> room env" "unat queue = 4 * vm"
    and s1: "frame s s1" "segs \<noteq> []" "tso_bytes segs = collected vm s"
      "held s1 + mset (map seg_id (tso_seg s ! (4 * vm))) = held s + mset (map seg_id segs)"
  shows "safe (tso_append env queue segs buf eop l2_len l3_len l4_len z s1)
    (tso_post n vm (collected vm s @ buf) eop l2_len l3_len l4_len z (handed s))"
proof -
  have q: "4 * vm < nr_queues s" "4 * vm < length (tso_seg s)" "4 * vm < 4 * n" using assms(1,2) by (simp_all add: driver_ok_def)
  have "safe (tso_copy env queue (butlast segs) (last segs) buf s1) (copy_post segs buf s1)"
    using tso_copy_safe [of queue s1 env "butlast segs" "last segs" buf] s1(1,2) q assms(6,7) by (simp add: frame_def)
  moreover have "copy_post (tso_seg s ! (4 * vm)) buf s r" if "copy_post segs buf s1 r" for r
    using copy_post_step [OF that s1(1), of "tso_seg s ! (4 * vm)" buf] s1(3,4) by (simp add: collected_def)
  ultimately have copy: "safe (tso_copy env queue (butlast segs) (last segs) buf s1) (copy_post (tso_seg s ! (4 * vm)) buf s)"
    by (auto elim: safe_mono)
  show ?thesis unfolding tso_append_def safe_andThen assms(7)
  proof (rule safe_mono [OF copy], unfold split_paired_all prod.case)
    fix copied segs2 s2 assume "copy_post (tso_seg s ! (4 * vm)) buf s (copied, segs2, s2)"
    then have s2: "frame s s2" "segs2 \<noteq> []" "copied \<Longrightarrow> tso_bytes segs2 = collected vm s @ buf"
      "held s2 + mset (map seg_id (tso_seg s ! (4 * vm))) = held s + mset (map seg_id segs2)"
      by (simp_all add: copy_post_def collected_def)
    have "driver_ok n (s2\<lparr>tso_seg := (tso_seg s2)[4 * vm := segs2]\<rparr>)"
      using s2 by (intro driver_ok_tso [OF assms(1) q(3) s2(1), where segs = segs2]) (simp_all add: frame_def)
    then have "copied \<Longrightarrow> \<not> eop \<Longrightarrow> tso_post n vm (collected vm s @ buf) eop l2_len l3_len l4_len z (handed s)
        (True, s2\<lparr>tso_seg := (tso_seg s2)[4 * vm := segs2]\<rparr>)"
      using s2 q assms(3) by (simp add: tso_post_def collected_def frame_def)
    moreover have "copied \<Longrightarrow> safe (tso_finish env queue segs2 l2_len l3_len l4_len z s2)
        (tso_post n vm (collected vm s @ buf) True l2_len l3_len l4_len z (handed s))"
      using tso_finish_safe [OF assms(1,2) s2(1) assms(7) s2(2,4) assms(4-6,3)] s2(3) by simp
    ultimately show "safe (if \<not> copied then tso_drop env (4 * vm) segs2 s2
        else if \<not> eop then Ok (True, s2\<lparr>tso_seg := (tso_seg s2)[4 * vm := segs2]\<rparr>)
        else tso_finish env queue segs2 l2_len l3_len l4_len z s2)
      (tso_post n vm (collected vm s @ buf) eop l2_len l3_len l4_len z (handed s))"
      using tso_drop_post [OF assms(1,2) s2(1,4) assms(3)] by simp
  qed
qed

lemma send_tso_post:
  assumes "driver_ok n s" "vm < n" "tso_supported s" "l2_len \<le> 254" "l3_len \<le> 508" "2048 \<le> room env"
  shows "safe (dpdk_send_tso env vm buf eop l2_len l3_len l4_len z s)
    (tso_post n vm (collected vm s @ buf) eop l2_len l3_len l4_len z (handed s))"
proof -
  let ?queue = "get_tx_queue_id vm 0" and ?P = "tso_post n vm (collected vm s @ buf) eop l2_len l3_len l4_len z (handed s)"
  have q: "unat ?queue = 4 * vm" "4 * vm < nr_queues s" "4 * vm < length (tso_seg s)"
    using queue_id_unat [of n vm 0] assms(1,2) by (simp_all add: driver_ok_def)
  have none: "?P (False, s1)" if "frame s s1" "held s1 = held s" "tso_seg s ! (4 * vm) = []" for s1
    using that driver_ok_frame [OF assms(1)] assms(3) by (simp add: tso_post_def collected_def tso_bytes_def frame_def)
  have "safe (tso_first env ?queue s) (\<lambda>(first, s1). safe (case first of None \<Rightarrow> Ok (False, s1)
      | Some segs \<Rightarrow> tso_append env ?queue segs buf eop l2_len l3_len l4_len z s1) ?P)"
    by (rule safe_mono [OF tso_first_safe])
      (use q none tso_append_post [OF assms q(1)] in \<open>auto simp: collected_def split: option.splits\<close>)
  then show ?thesis using assms(3) q by (simp add: dpdk_send_tso_def Let_def case_prod_unfold)
qed

section \<open>Receiving\<close>

text \<open>A write to a window of a list does not show in another one.\<close>

lemma window_other:
  assumes "at + length ids \<le> length xs" "b + k \<le> at \<or> at + length ids \<le> b"
  shows "take k (drop b (take at xs @ ids @ drop (at + length ids) xs)) = take k (drop b xs)"
  using assms(2)
proof
  assume "b + k \<le> at"
  then show ?thesis using assms(1) by (simp add: drop_take min_absorb1)
next
  assume "at + length ids \<le> b"
  then show ?thesis using assms(1) by simp
qed

lemma window_same:
  "at + length ids \<le> length xs \<Longrightarrow> take (length ids) (drop at (take at xs @ ids @ drop (at + length ids) xs)) = ids"
  by simp

lemma rx_one_safe:
  assumes "i < length (rxBufs q)"
  shows "safe (rx_one med q_idx i m q) (\<lambda>q'. q' = q\<lparr>rxBufs := (rxBufs q)[i := \<lparr>rb_data = rm_data m, rb_queue = if med then Some (of_nat q_idx) else None\<rparr>]\<rparr>)"
  using assms by (simp add: rx_one_def)

lemma rx_burst_loop_safe:
  "i + length ms \<le> length (rxBufs q) \<Longrightarrow>
    safe (rx_burst_loop med q_idx i ms q) (\<lambda>q'. length (rxBufs q') = length (rxBufs q) \<and> nb_bufs_used q' = nb_bufs_used q \<and>
      take (i + length ms) (rxBufs q') = take i (rxBufs q) @ map (\<lambda>m. \<lparr>rb_data = rm_data m, rb_queue = if med then Some (of_nat q_idx) else None\<rparr>) ms)"
proof (induction ms arbitrary: i q)
  case (Cons m ms)
  let ?b = "\<lparr>rb_data = rm_data m, rb_queue = if med then Some (of_nat q_idx) else None\<rparr>"
  let ?q = "q\<lparr>rxBufs := (rxBufs q)[i := ?b]\<rparr>"
  have "take (Suc i) (rxBufs ?q) = take i (rxBufs q) @ [?b]" using Cons.prems by (simp add: take_Suc_conv_app_nth)
  then have "safe (rx_burst_loop med q_idx (Suc i) ms ?q) (\<lambda>q'. length (rxBufs q') = length (rxBufs q) \<and> nb_bufs_used q' = nb_bufs_used q \<and>
      take (Suc i + length ms) (rxBufs q') = take i (rxBufs q) @ map (\<lambda>m. \<lparr>rb_data = rm_data m, rb_queue = if med then Some (of_nat q_idx) else None\<rparr>) (m # ms))"
    using Cons.prems Cons.IH [of "Suc i" ?q] by simp
  then show ?case using Cons.prems by (auto intro!: safe_mono [OF rx_one_safe])
qed simp

lemma queue_mem: "driver_ok n s \<Longrightarrow> j < 4 * n \<Longrightarrow> rx_list_ok (rx_lists s ! j)"
  by (simp add: driver_ok_def)

text \<open>One queue receives into its part of \<open>bufs\<close>.\<close>

lemma driver_ok_rx:
  assumes "driver_ok n s" "j < 4 * n" "rx_list_ok q"
    "nr_queues s' = nr_queues s" "mediate s' = mediate s" "tso_seg s' = tso_seg s" "length (bufs s') = length (bufs s)"
    "rx_lists s' = (rx_lists s)[j := q]"
    "\<And>k. k < 4 * n \<Longrightarrow> k \<noteq> j \<Longrightarrow> take 32 (drop (32 * k) (bufs s')) = take 32 (drop (32 * k) (bufs s))"
    "held s' + mset (queue_ids s j) = held s + mset (take (nb_bufs_used q) (drop (32 * j) (bufs s')))"
  shows "driver_ok n s'"
proof -
  have "queue_ids s' k = queue_ids s k" if "k < 4 * n" "k \<noteq> j" for k
  proof -
    have "nb_bufs_used (rx_lists s ! k) \<le> 32" using queue_mem [OF assms(1) that(1)] by (simp add: rx_list_ok_def)
    then have "take (nb_bufs_used (rx_lists s ! k)) (drop (32 * k) (bufs s')) = take (nb_bufs_used (rx_lists s ! k)) (drop (32 * k) (bufs s))"
      using arg_cong [OF assms(9) [OF that], of "take (nb_bufs_used (rx_lists s ! k))"] by (simp add: min_absorb1)
    then show ?thesis using that assms(8) by (simp add: queue_ids_def)
  qed
  then have sum: "(\<Sum>k<4 * n. mset (queue_ids s' k)) + mset (queue_ids s j) = (\<Sum>k<4 * n. mset (queue_ids s k)) + mset (queue_ids s' j)"
    using sum_upd [of j "4 * n" "\<lambda>k. mset (queue_ids s' k)" "\<lambda>k. mset (queue_ids s k)"] assms(2) by simp
  have j: "queue_ids s' j = take (nb_bufs_used q) (drop (32 * j) (bufs s'))"
    using assms(1,2,8) by (simp add: queue_ids_def driver_ok_def)
  have tso: "tso_ids s' = tso_ids s" using assms(6) by (simp add: tso_ids_def fun_eq_iff)
  have "held s' + mset (queue_ids s j) = (\<Sum>k<4 * n. mset (tso_ids s' k)) + (\<Sum>k<4 * n. mset (queue_ids s' k)) + mset (queue_ids s j)"
    using assms(10) assms(1) sum unfolding j tso by (simp add: driver_ok_def ac_simps)
  moreover have "\<forall>x \<in> set (rx_lists s'). rx_list_ok x"
    using assms(1,3,8) set_update_subset_insert [of "rx_lists s" j q] by (auto simp: driver_ok_def)
  ultimately show ?thesis using assms(1-8) by (simp add: driver_ok_def)
qed

text \<open>The packets that wait in a queue.\<close>

definition waiting :: "'r dpdk \<Rightarrow> nat \<Rightarrow> RxBuf list" where
  "waiting s j = take (nb_bufs_used (rx_lists s ! j)) (rxBufs (rx_lists s ! j))"

definition rx_bufs :: "bool \<Rightarrow> nat \<Rightarrow> rx_mbuf list \<Rightarrow> RxBuf list" where
  "rx_bufs med q_idx ms = map (\<lambda>m. \<lparr>rb_data = rm_data m, rb_queue = if med then Some (of_nat q_idx) else None\<rparr>) ms"

lemma recv_queue_safe:
  assumes "driver_ok n s" "vm < n" "q_idx < 4" "nb_bufs_used (rx_lists s ! (4 * vm + q_idx)) = 0"
    and burst: "rte_eth_rx_burst env (get_rx_queue_id vm q_idx) (rte s) = (ms, r)" "length ms \<le> 32"
  shows "safe (recv_queue env vm q_idx s) (\<lambda>s'. driver_ok n s' \<and> rte s' = r \<and> mediate s' = mediate s \<and> tso_seg s' = tso_seg s \<and> handed s' = handed s \<and>
    waiting s' (4 * vm + q_idx) = rx_bufs (mediate s ! vm) q_idx ms \<and>
    (\<forall>k. k \<noteq> 4 * vm + q_idx \<longrightarrow> rx_lists s' ! k = rx_lists s ! k))"
proof -
  let ?j = "4 * vm + q_idx"
  have ids: "unat (get_rx_queue_id vm q_idx) = ?j" "rx_index vm q_idx = ?j" "?j < 4 * n"
    using queue_id_unat [of n vm q_idx] assms(1-3) by (auto simp: driver_ok_def)
  have fits: "?j * 32 + length ms \<le> length (bufs s)" using ids(3) burst(2) assms(1) by (simp add: driver_ok_def)
  let ?bs = "take (?j * 32) (bufs s) @ map rm_id ms @ drop (?j * 32 + length ms) (bufs s)"
  have len: "length ?bs = length (bufs s)" using fits by simp
  have other: "take 32 (drop (32 * k) ?bs) = take 32 (drop (32 * k) (bufs s))" if "k \<noteq> ?j" for k
    using window_other [of "?j * 32" "map rm_id ms" "bufs s" "32 * k" 32] fits that burst(2) by (simp add: nat_neq_iff) linarith
  have same: "take (length ms) (drop (32 * ?j) ?bs) = map rm_id ms"
    using window_same [of "?j * 32" "map rm_id ms" "bufs s"] fits by (simp add: mult.commute)
  let ?s = "s\<lparr>rte := r, bufs := ?bs, held := held s + mset (map rm_id ms)\<rparr>"
  have ok: "driver_ok n (?s\<lparr>rx_lists := (rx_lists s)[?j := q\<lparr>nb_bufs_used := length ms\<rparr>]\<rparr>)" if "length (rxBufs q) = 32" for q
    using that assms(4) burst(2) len other same fits
    by (intro driver_ok_rx [OF assms(1) ids(3), where q = "q\<lparr>nb_bufs_used := length ms\<rparr>"]) (simp_all add: rx_list_ok_def queue_ids_def)
  have q: "length (rxBufs (rx_lists s ! ?j)) = 32" "?j < length (rx_lists s)" "vm < length (mediate s)"
    using queue_mem [OF assms(1) ids(3)] ids(3) assms(1,2) by (simp_all add: rx_list_ok_def driver_ok_def)
  show ?thesis
  proof (cases "ms = []")
    case True
    have "(rx_lists s ! ?j)\<lparr>nb_bufs_used := length ms\<rparr> = rx_lists s ! ?j"
      using assms(4) True by (cases "rx_lists s ! ?j") simp
    then have "(rx_lists s)[?j := (rx_lists s ! ?j)\<lparr>nb_bufs_used := length ms\<rparr>] = rx_lists s"
      by (simp only: list_update_id)
    then show ?thesis using ok [OF q(1)] True assms(4) fits burst(1)
      by (simp add: recv_queue_def Let_def store_bufs_def ids BURST_SIZE_def waiting_def rx_bufs_def)
  next
    case False
    have "safe (rx_burst_loop (mediate s ! vm) q_idx 0 ms (rx_lists s ! ?j))
        (\<lambda>q. length (rxBufs q) = 32 \<and> take (length ms) (rxBufs q) = rx_bufs (mediate s ! vm) q_idx ms)"
      using burst(2) q(1) by (intro safe_mono [OF rx_burst_loop_safe]) (auto simp: rx_bufs_def)
    then show ?thesis using ok False fits burst(1) q(2,3)
      by (auto simp: recv_queue_def Let_def store_bufs_def ids BURST_SIZE_def waiting_def elim!: safe_mono)
  qed
qed

text \<open>What DPDK documents: a burst is no longer than asked for.\<close>

definition rte_ok :: "'r rte_env \<Rightarrow> bool" where
  "rte_ok env \<longleftrightarrow> (\<forall>queue r. length (fst (rte_eth_rx_burst env queue r)) \<le> 32) \<and> 2048 \<le> room env"

fun rx_bursts :: "'r rte_env \<Rightarrow> nat \<Rightarrow> nat list \<Rightarrow> 'r \<Rightarrow> rx_mbuf list list" where
  "rx_bursts env vm [] r = []"
| "rx_bursts env vm (q # qs) r = (case rte_eth_rx_burst env (get_rx_queue_id vm q) r of (ms, r') \<Rightarrow> ms # rx_bursts env vm qs r')"

definition unused :: "nat \<Rightarrow> 'r dpdk \<Rightarrow> bool" where
  "unused vm s \<longleftrightarrow> (\<forall>q<4. nb_bufs_used (rx_lists s ! (4 * vm + q)) = 0)"

lemma recv_queues_safe:
  assumes "rte_ok env" "vm < n"
  shows "driver_ok n s \<Longrightarrow> distinct qs \<Longrightarrow> (\<And>q. q \<in> set qs \<Longrightarrow> q < 4 \<and> nb_bufs_used (rx_lists s ! (4 * vm + q)) = 0) \<Longrightarrow>
    safe (rfold (recv_queue env vm) qs s) (\<lambda>s'. driver_ok n s' \<and> tso_seg s' = tso_seg s \<and> handed s' = handed s \<and> mediate s' = mediate s \<and>
      map (\<lambda>q. waiting s' (4 * vm + q)) qs = map2 (rx_bufs (mediate s ! vm)) qs (rx_bursts env vm qs (rte s)) \<and>
      (\<forall>k. k \<notin> (\<lambda>q. 4 * vm + q) ` set qs \<longrightarrow> rx_lists s' ! k = rx_lists s ! k))"
proof (induction qs arbitrary: s)
  case (Cons q qs)
  obtain ms r where burst: "rte_eth_rx_burst env (get_rx_queue_id vm q) (rte s) = (ms, r)" by fastforce
  then have "length ms \<le> 32" using assms(1) unfolding rte_ok_def by (metis fst_conv)
  then have one: "safe (recv_queue env vm q s) (\<lambda>s'. driver_ok n s' \<and> rte s' = r \<and> mediate s' = mediate s \<and> tso_seg s' = tso_seg s \<and> handed s' = handed s \<and>
      waiting s' (4 * vm + q) = rx_bufs (mediate s ! vm) q ms \<and> (\<forall>k. k \<noteq> 4 * vm + q \<longrightarrow> rx_lists s' ! k = rx_lists s ! k))"
    using Cons.prems assms(2) burst by (intro recv_queue_safe) auto
  show ?case unfolding rfold.simps safe_andThen
  proof (rule safe_mono [OF one])
    fix s1
    assume s1: "driver_ok n s1 \<and> rte s1 = r \<and> mediate s1 = mediate s \<and> tso_seg s1 = tso_seg s \<and> handed s1 = handed s \<and>
      waiting s1 (4 * vm + q) = rx_bufs (mediate s ! vm) q ms \<and> (\<forall>k. k \<noteq> 4 * vm + q \<longrightarrow> rx_lists s1 ! k = rx_lists s ! k)"
    have notin: "4 * vm + q \<notin> (\<lambda>q. 4 * vm + q) ` set qs" using Cons.prems(2) by auto
    have "p < 4 \<and> nb_bufs_used (rx_lists s1 ! (4 * vm + p)) = 0" if "p \<in> set qs" for p
    proof -
      have "p \<noteq> q" using that Cons.prems(2) by auto
      then show ?thesis using Cons.prems(3) [of p] that s1 by simp
    qed
    from Cons.IH [OF _ _ this] s1 Cons.prems(2)
    show "safe (rfold (recv_queue env vm) qs s1) (\<lambda>s'. driver_ok n s' \<and> tso_seg s' = tso_seg s \<and> handed s' = handed s \<and> mediate s' = mediate s \<and>
      map (\<lambda>q. waiting s' (4 * vm + q)) (q # qs) = map2 (rx_bufs (mediate s ! vm)) (q # qs) (rx_bursts env vm (q # qs) (rte s)) \<and>
      (\<forall>k. k \<notin> (\<lambda>q. 4 * vm + q) ` set (q # qs) \<longrightarrow> rx_lists s' ! k = rx_lists s ! k))"
      using notin by (auto simp: burst waiting_def elim!: safe_mono)
  qed
qed simp

lemma recv_safe:
  assumes "rte_ok env" "vm < n" "driver_ok n s" "unused vm s"
  shows "safe (recv env vm s) (\<lambda>s'. driver_ok n s' \<and> tso_seg s' = tso_seg s \<and> handed s' = handed s \<and> mediate s' = mediate s \<and>
      map (\<lambda>q. waiting s' (4 * vm + q)) [0..<4] = map2 (rx_bufs (mediate s ! vm)) [0..<4] (rx_bursts env vm [0..<4] (rte s)) \<and>
      (\<forall>k. k \<notin> (\<lambda>q. 4 * vm + q) ` set [0..<4] \<longrightarrow> rx_lists s' ! k = rx_lists s ! k))"
  unfolding recv_def MAX_QUEUES_PER_VM_def
  by (rule recv_queues_safe [OF assms(1,2,3)]) (use assms(4) in \<open>auto simp: unused_def\<close>)

section \<open>Returning buffers\<close>

lemma free_loop_ok:
  "from + k \<le> 65535 \<Longrightarrow> from + k \<le> length (bufs s) \<Longrightarrow> k < fuel \<Longrightarrow> mset (take k (drop from (bufs s))) \<subseteq># held s \<Longrightarrow>
    safe (free_loop fuel env (of_nat from) (from + k) s) (\<lambda>s'. frame s s' \<and> held s' = held s - mset (take k (drop from (bufs s))))"
proof (induction k arbitrary: "from" s fuel)
  case 0
  then show ?case by (cases fuel) (simp_all add: unat_of_nat)
next
  case (Suc k)
  let ?i = "bufs s ! from"
  let ?s = "s\<lparr>rte := rte_pktmbuf_free env ?i (rte s), held := held s - {#?i#}\<rparr>"
  obtain f where f: "fuel = Suc f" "k < f" using Suc.prems(3) by (cases fuel) auto
  have tk: "take (Suc k) (drop from (bufs s)) = ?i # take k (drop (Suc from) (bufs s))"
    using Suc.prems(2) by (metis Cons_nth_drop_Suc Suc_le_lessD add_leD1 add_Suc_right le_add1 le_trans not_less_eq_eq take_Suc_Cons)
  have u: "unat (of_nat from :: u16) = from" using Suc.prems(1) by (simp add: unat_of_nat)
  have mem: "?i \<in># held s" "mset (take k (drop (Suc from) (bufs ?s))) \<subseteq># held ?s"
    using Suc.prems(4) unfolding tk by (simp_all add: insert_subset_eq_iff)
  have "safe (free_loop f env (of_nat (Suc from)) (Suc from + k) ?s)
      (\<lambda>s'. frame ?s s' \<and> held s' = held ?s - mset (take k (drop (Suc from) (bufs ?s))))"
    using Suc.prems f mem(2) by (intro Suc.IH) simp_all
  then have "safe (free_loop f env (of_nat (Suc from)) (Suc from + k) ?s) (\<lambda>s'. frame s s' \<and> held s' = held s - mset (take (Suc k) (drop from (bufs s))))"
    by (rule safe_mono) (auto simp: frame_def tk)
  then show ?case using f u mem(1) Suc.prems(2) by (simp add: mbuf_free_def add.commute)
qed

lemma rx_subset: "driver_ok n s \<Longrightarrow> j < 4 * n \<Longrightarrow> mset (queue_ids s j) \<subseteq># held s"
proof -
  assume "driver_ok n s" "j < 4 * n"
  then have "mset (queue_ids s j) \<subseteq># (\<Sum>j<4 * n. mset (queue_ids s j))" using sum.remove [of "{..<4 * n}" j "\<lambda>j. mset (queue_ids s j)"] by simp
  then show ?thesis using \<open>driver_ok n s\<close> by (simp add: driver_ok_def subset_mset.add_increasing)
qed

lemma consume_queue_safe:
  assumes "driver_ok n s" "vm < n" "q_idx < 4"
  shows "safe (consume_queue env vm q_idx s) (\<lambda>s'. driver_ok n s' \<and> tso_seg s' = tso_seg s \<and> handed s' = handed s \<and> mediate s' = mediate s \<and>
    rx_lists s' = (rx_lists s)[4 * vm + q_idx := (rx_lists s ! (4 * vm + q_idx))\<lparr>nb_bufs_used := 0\<rparr>])"
proof -
  let ?j = "4 * vm + q_idx"
  have ids: "unat (get_rx_queue_id vm q_idx) = ?j" "rx_index vm q_idx = ?j" "?j < 4 * n" "4 * n \<le> 2044"
    using queue_id_unat [of n vm q_idx] assms by (auto simp: driver_ok_def)
  have q: "nb_bufs_used (rx_lists s ! ?j) \<le> 32" "length (rxBufs (rx_lists s ! ?j)) = 32"
    using queue_mem [OF assms(1) ids(3)] by (simp_all add: rx_list_ok_def)
  have "safe (free_loop 65537 env (of_nat (?j * 32)) (?j * 32 + nb_bufs_used (rx_lists s ! ?j)) s)
      (\<lambda>s'. frame s s' \<and> held s' = held s - mset (queue_ids s ?j))"
    using free_loop_ok [of "?j * 32" "nb_bufs_used (rx_lists s ! ?j)" s 65537 env] rx_subset [OF assms(1) ids(3)] q(1) ids assms(1)
    by (simp add: queue_ids_def driver_ok_def mult.commute)
  moreover have "driver_ok n (s1\<lparr>rx_lists := (rx_lists s)[?j := (rx_lists s ! ?j)\<lparr>nb_bufs_used := 0\<rparr>]\<rparr>)"
    if "frame s s1" "held s1 = held s - mset (queue_ids s ?j)" for s1
    using that q(2) rx_subset [OF assms(1) ids(3)]
    by (intro driver_ok_rx [OF assms(1) ids(3), where q = "(rx_lists s ! ?j)\<lparr>nb_bufs_used := 0\<rparr>"])
      (simp_all add: frame_def rx_list_ok_def)
  ultimately show ?thesis using ids assms(1)
    by (auto simp: consume_queue_def Let_def BURST_SIZE_def driver_ok_def frame_def elim!: safe_mono)
qed

lemma recv_consumed_safe:
  fixes s :: "'r dpdk"
  assumes "driver_ok n s" "vm < n"
  shows "safe (recv_consumed env vm s) (\<lambda>s'. driver_ok n s' \<and> tso_seg s' = tso_seg s \<and> handed s' = handed s \<and> mediate s' = mediate s \<and>
    unused vm s' \<and> (\<forall>k. k \<notin> (\<lambda>q. 4 * vm + q) ` set [0..<4] \<longrightarrow> rx_lists s' ! k = rx_lists s ! k))"
proof -
  have "safe (rfold (consume_queue env vm) qs s) (\<lambda>s'. driver_ok n s' \<and> tso_seg s' = tso_seg s \<and> handed s' = handed s \<and> mediate s' = mediate s \<and>
      (\<forall>q \<in> set qs. nb_bufs_used (rx_lists s' ! (4 * vm + q)) = 0) \<and>
      (\<forall>k. rx_lists s' ! k = (if k \<in> (\<lambda>q. 4 * vm + q) ` set qs then (rx_lists s ! k)\<lparr>nb_bufs_used := 0\<rparr> else rx_lists s ! k)))"
    if "driver_ok n s" "set qs \<subseteq> {..<4}" "distinct qs" for qs and s :: "'r dpdk"
    using that
  proof (induction qs arbitrary: s)
    case (Cons q qs)
    have j: "4 * vm + q < length (rx_lists s)" using Cons.prems(1,2) assms(2) by (simp add: driver_ok_def)
    have notin: "q \<notin> set qs" "4 * vm + q \<notin> (\<lambda>q. 4 * vm + q) ` set qs" using Cons.prems(3) by auto
    show ?case unfolding rfold.simps safe_andThen
    proof (rule safe_mono [OF consume_queue_safe [OF Cons.prems(1) assms(2)]])
      fix s1 :: "'r dpdk"
      assume s1: "driver_ok n s1 \<and> tso_seg s1 = tso_seg s \<and> handed s1 = handed s \<and> mediate s1 = mediate s \<and>
        rx_lists s1 = (rx_lists s)[4 * vm + q := (rx_lists s ! (4 * vm + q))\<lparr>nb_bufs_used := 0\<rparr>]"
      then show "safe (rfold (consume_queue env vm) qs s1) (\<lambda>s'. driver_ok n s' \<and> tso_seg s' = tso_seg s \<and> handed s' = handed s \<and> mediate s' = mediate s \<and>
        (\<forall>q \<in> set (q # qs). nb_bufs_used (rx_lists s' ! (4 * vm + q)) = 0) \<and>
        (\<forall>k. rx_lists s' ! k = (if k \<in> (\<lambda>q. 4 * vm + q) ` set (q # qs) then (rx_lists s ! k)\<lparr>nb_bufs_used := 0\<rparr> else rx_lists s ! k)))"
        using Cons.IH [of s1] Cons.prems j notin by (auto simp: nth_list_update elim!: safe_mono)
    qed (use Cons.prems in auto)
  qed simp
  from this [OF assms(1), of "[0..<4]"] show ?thesis
    unfolding recv_consumed_def MAX_QUEUES_PER_VM_def by (rule safe_mono) (auto simp: unused_def)
qed

section \<open>Runs of the driver\<close>

datatype drv_op = Op_Send nat "u8 list" | Op_SendTso nat "u8 list" bool u64 u64 u64 u64 | Op_Recv nat | Op_Consumed nat | Op_Mediate nat

fun drv_step :: "'r rte_env \<Rightarrow> drv_op \<Rightarrow> 'r dpdk \<Rightarrow> 'r dpdk res" where
  "drv_step env (Op_Send vm buf) s = send env vm buf s"
| "drv_step env (Op_SendTso vm buf eop l2 l3 l4 z) s = andThen (dpdk_send_tso env vm buf eop l2 l3 l4 z s) (\<lambda>(ok, s). Ok s)"
| "drv_step env (Op_Recv vm) s = recv env vm s"
| "drv_step env (Op_Consumed vm) s = recv_consumed env vm s"
| "drv_step env (Op_Mediate vm) s = andThen (mediation_enable vm s) (\<lambda>(ok, s). Ok s)"

text \<open>
  The calls that a device makes: packets fit a buffer, header lengths are those that a descriptor can
  express, and a VM receives again only after it has consumed.
\<close>

fun op_ok :: "'r rte_env \<Rightarrow> nat \<Rightarrow> 'r dpdk \<Rightarrow> drv_op \<Rightarrow> bool" where
  "op_ok env n s (Op_Send vm buf) = (vm < n \<and> length buf \<le> room env \<and> length buf < 65536)"
| "op_ok env n s (Op_SendTso vm buf eop l2 l3 l4 z) = (vm < n \<and> l2 \<le> 254 \<and> l3 \<le> 508)"
| "op_ok env n s (Op_Recv vm) = (vm < n \<and> unused vm s)"
| "op_ok env n s (Op_Consumed vm) = (vm < n)"
| "op_ok env n s (Op_Mediate vm) = (vm < n)"

lemma drv_step_safe:
  assumes "rte_ok env" "driver_ok n s" "op_ok env n s op"
  shows "safe (drv_step env op s) (driver_ok n)"
proof (cases op)
  case (Op_Send vm buf)
  then show ?thesis using assms by (auto intro!: safe_mono [OF send_safe])
next
  case (Op_SendTso vm buf eop l2 l3 l4 z)
  show ?thesis
  proof (cases "tso_supported s")
    case True
    have "safe (dpdk_send_tso env vm buf eop l2 l3 l4 z s) (\<lambda>(ok, s'). driver_ok n s')"
      by (rule safe_mono [OF send_tso_post]) (use assms Op_SendTso True in \<open>auto simp: rte_ok_def tso_post_def\<close>)
    then show ?thesis using Op_SendTso by (simp add: case_prod_unfold)
  qed (use assms(2) Op_SendTso in \<open>simp add: dpdk_send_tso_def\<close>)
next
  case (Op_Recv vm)
  then show ?thesis using assms by (auto intro!: safe_mono [OF recv_safe])
next
  case (Op_Consumed vm)
  then show ?thesis using assms by (auto intro!: safe_mono [OF recv_consumed_safe])
next
  case (Op_Mediate vm)
  then show ?thesis using assms by (auto simp: mediation_enable_def driver_ok_def queue_ids_def tso_ids_def)
qed

lemma driver_ok_init: "n \<le> 511 \<Longrightarrow> driver_ok n (Dpdk_init n tso r)"
  by (simp add: driver_ok_def Dpdk_init_def alloc_rx_lists_def MAX_QUEUES_PER_VM_def BURST_SIZE_def tso_ids_def queue_ids_def
      rx_list_ok_def sum.neutral)

inductive dpdk_reach :: "'r rte_env \<Rightarrow> nat \<Rightarrow> 'r dpdk \<Rightarrow> bool" for env n where
  init: "dpdk_reach env n (Dpdk_init n tso r)"
| step: "dpdk_reach env n s \<Longrightarrow> op_ok env n s op \<Longrightarrow> drv_step env op s = Ok s' \<Longrightarrow> dpdk_reach env n s'"

lemma dpdk_reach_ok: "dpdk_reach env n s \<Longrightarrow> rte_ok env \<Longrightarrow> n \<le> 511 \<Longrightarrow> driver_ok n s"
proof (induction rule: dpdk_reach.induct)
  case (step s op s')
  then show ?case using drv_step_safe [of env n s op] by simp
qed (simp add: driver_ok_init)

text \<open>
  C13: for up to 511 VMs, in every sequence of calls of the DPDK back end that consumes what it
  receives and sends packets that fit a buffer, whatever allocations and transmissions fail, no
  buffer is freed twice and no access leaves an array; the buffers that the process holds are
  exactly those of unfinished segmentation packets and of received packets that
  are not consumed yet, so none is leaked.
\<close>

theorem dpdk_buffers_accounted:
  assumes "rte_ok env" "n \<le> 511" "dpdk_reach env n s" "op_ok env n s op"
  shows "drv_step env op s \<noteq> Fault \<and>
    held s = (\<Sum>j<4 * n. mset (map seg_id (tso_seg s ! j))) +
      (\<Sum>j<4 * n. mset (take (nb_bufs_used (rx_lists s ! j)) (drop (32 * j) (bufs s))))"
  using drv_step_safe [OF assms(1) dpdk_reach_ok [OF assms(3,1,2)] assms(4)] dpdk_reach_ok [OF assms(3,1,2)]
  by (auto simp: driver_ok_def tso_ids_def queue_ids_def)

section \<open>Packets that the NIC segments\<close>

text \<open>The buffers of one packet, handed over one by one until a call fails.\<close>

fun send_parts :: "'r rte_env \<Rightarrow> nat \<Rightarrow> u8 list list \<Rightarrow> u64 \<Rightarrow> u64 \<Rightarrow> u64 \<Rightarrow> u64 \<Rightarrow> 'r dpdk \<Rightarrow> (bool \<times> 'r dpdk) res" where
  "send_parts env vm [] l2 l3 l4 z s = Ok (False, s)"
| "send_parts env vm [b] l2 l3 l4 z s = dpdk_send_tso env vm b True l2 l3 l4 z s"
| "send_parts env vm (b # bs) l2 l3 l4 z s = andThen (dpdk_send_tso env vm b False l2 l3 l4 z s) (\<lambda>(ok, s).
     if ok then send_parts env vm bs l2 l3 l4 z s else Ok (False, s))"

text \<open>Afterwards a packet with the collected bytes and the given lengths has been handed over, or none, and nothing is left.\<close>

definition parts_post :: "nat \<Rightarrow> nat \<Rightarrow> u8 list \<Rightarrow> u64 \<Rightarrow> u64 \<Rightarrow> u64 \<Rightarrow> u64 \<Rightarrow> tx_pkt list \<Rightarrow> bool \<times> 'r dpdk \<Rightarrow> bool" where
  "parts_post n vm d l2 l3 l4 z sent = (\<lambda>(ok, s'). driver_ok n s' \<and> collected vm s' = [] \<and>
     (if ok then \<exists>p. handed s' = sent @ [p] \<and> tso_sent l2 l3 d (tso_bytes (tp_segs p)) \<and> tp_tso p = Some (l2, l3, l4, z)
      else handed s' = sent))"

lemma send_parts_post:
  fixes s :: "'r dpdk"
  assumes "vm < n" "l2 \<le> 254" "l3 \<le> 508" "2048 \<le> room env"
  shows "bs \<noteq> [] \<Longrightarrow> driver_ok n s \<Longrightarrow> tso_supported s \<Longrightarrow>
    safe (send_parts env vm bs l2 l3 l4 z s) (parts_post n vm (collected vm s @ concat bs) l2 l3 l4 z (handed s))"
proof (induction bs arbitrary: s rule: induct_list012)
  case (2 b)
  show ?case unfolding send_parts.simps
    by (rule safe_mono [OF send_tso_post [OF 2(2) assms(1) 2(3) assms(2-4)]]) (auto simp: tso_post_def parts_post_def split: if_splits)
next
  case (3 b b' bs)
  show ?case unfolding send_parts.simps safe_andThen
  proof (rule safe_mono [OF send_tso_post [OF 3(4) assms(1) 3(5) assms(2-4)]])
    fix r :: "bool \<times> 'r dpdk" assume r: "tso_post n vm (collected vm s @ b) False l2 l3 l4 z (handed s) r"
    obtain ok s1 where "r = (ok, s1)" by (cases r)
    then show "safe (case r of (ok, s) \<Rightarrow> if ok then send_parts env vm (b' # bs) l2 l3 l4 z s else Ok (False, s))
      (parts_post n vm (collected vm s @ concat (b # b' # bs)) l2 l3 l4 z (handed s))"
      using r 3(2) [of s1] by (auto simp: tso_post_def) (simp add: parts_post_def)
  qed
qed simp

text \<open>
  C14: when the buffers of a packet are given to \<open>Dpdk::send_tso\<close> one after the other, either every call succeeds and
  one packet is handed to the NIC, whose bytes are those of the buffers in order except for the two
  checksum fields and whose segmentation parameters are the given ones, or some call fails and
  nothing is sent; in both cases nothing of the packet is left for the next one.
\<close>

theorem dpdk_tso_collects:
  assumes "rte_ok env" "n \<le> 511" "dpdk_reach env n s" "vm < n" "tso_supported s" "collected vm s = []"
    "l2 \<le> 254" "l3 \<le> 508" "bs \<noteq> []"
  shows "safe (send_parts env vm bs l2 l3 l4 z s) (\<lambda>(ok, s'). collected vm s' = [] \<and>
    (if ok then \<exists>p. handed s' = handed s @ [p] \<and> tso_sent l2 l3 (concat bs) (concat (map seg_data (tp_segs p))) \<and> tp_tso p = Some (l2, l3, l4, z)
     else handed s' = handed s))"
  by (rule safe_mono [OF send_parts_post [OF assms(4,7,8) _ assms(9) dpdk_reach_ok [OF assms(3,1,2)] assms(5)]])
    (use assms(1,6) in \<open>auto simp: rte_ok_def parts_post_def tso_bytes_def split: if_splits\<close>)

section \<open>Packets that are received\<close>

text \<open>
  After \<open>recv\<close> the receive lists of a VM hold exactly the packets that the NIC delivered to its queues, in
  order and with a queue hint when the switch is mediated; after \<open>recv_consumed\<close> they are empty,
  and the lists of the other VMs have not changed.
\<close>

theorem dpdk_receives:
  assumes "rte_ok env" "n \<le> 511" "dpdk_reach env n s" "vm < n" "unused vm s"
  shows "safe (recv env vm s) (\<lambda>s1.
    map (\<lambda>q. waiting s1 (4 * vm + q)) [0..<4] = map2 (rx_bufs (mediate s ! vm)) [0..<4] (rx_bursts env vm [0..<4] (rte s)) \<and>
    safe (recv_consumed env vm s1) (\<lambda>s2. unused vm s2 \<and>
      (\<forall>k. k < 4 * vm \<or> 4 * vm + 4 \<le> k \<longrightarrow> rx_lists s2 ! k = rx_lists s ! k)))"
proof -
  have "k \<notin> (\<lambda>q. 4 * vm + q) ` set [0..<4]" if "k < 4 * vm \<or> 4 * vm + 4 \<le> k" for k using that by auto
  then show ?thesis
    by (intro safe_mono [OF recv_safe [OF assms(1,4) dpdk_reach_ok [OF assms(3,1,2)] assms(5)]] conjI safe_mono [OF recv_consumed_safe [OF _ assms(4)]]) auto
qed

section \<open>The contract of a receiving back end\<close>

lemma rfold_safe: "(\<And>x s. P s \<Longrightarrow> safe (f x s) P) \<Longrightarrow> P s \<Longrightarrow> safe (rfold f xs s) P"
  by (induction xs arbitrary: s) (auto intro: safe_mono)

text \<open>
  What a device relies on when it receives: after \<open>recv\<close> the packets that arrived are there, after \<open>consumed\<close> the
  back end is idle again, and neither changes what the device sees of it otherwise.  A device
  that works on the packets between the two calls can be verified against this contract.
\<close>

locale rx_backend =
  fixes receive :: "'s \<Rightarrow> 's res" and consumed :: "'s \<Rightarrow> 's res" and ok :: "'s \<Rightarrow> bool" and idle :: "'s \<Rightarrow> bool"
    and arriving :: "'s \<Rightarrow> 'p list" and packets :: "'s \<Rightarrow> 'p list" and view :: "'s \<Rightarrow> 'v"
  assumes receive_ok: "ok s \<Longrightarrow> idle s \<Longrightarrow> safe (receive s) (\<lambda>s'. ok s' \<and> packets s' = arriving s \<and> view s' = view s)"
    and consumed_ok: "ok s \<Longrightarrow> safe (consumed s) (\<lambda>s'. ok s' \<and> idle s' \<and> view s' = view s)"
begin

lemma cycle:
  assumes "ok s" "idle s"
    and work: "\<And>s1. ok s1 \<Longrightarrow> packets s1 = arriving s \<Longrightarrow>
      safe (f s1) (\<lambda>d. \<forall>s2. ok s2 \<and> idle s2 \<and> view s2 = view s \<longrightarrow> safe (g d s2) Q)"
  shows "safe (andThen (receive s) (\<lambda>s1. andThen (f s1) (\<lambda>d. andThen (consumed s1) (g d)))) Q"
  unfolding safe_andThen
proof (rule safe_mono [OF receive_ok [OF assms(1,2)]])
  fix s1 assume s1: "ok s1 \<and> packets s1 = arriving s \<and> view s1 = view s"
  then have "safe (consumed s1) (\<lambda>s2. ok s2 \<and> idle s2 \<and> view s2 = view s)" using consumed_ok [of s1] by simp
  with s1 work [of s1] show "safe (f s1) (\<lambda>d. safe (consumed s1) (\<lambda>s2. safe (g d s2) Q))"
    by (auto elim!: safe_mono)
qed

text \<open>Any number of such cycles leaves the back end idle.\<close>

lemma cycles:
  assumes "ok s" "idle s" "I d" and work: "\<And>d ps. I d \<Longrightarrow> safe (f d ps) I"
  shows "safe (rfold (\<lambda>_ (d, s). andThen (receive s) (\<lambda>s1. andThen (f d (packets s1)) (\<lambda>d. andThen (consumed s1) (\<lambda>s2. Ok (d, s2))))) xs (d, s))
    (\<lambda>(d, s). I d \<and> ok s \<and> idle s)"
proof (rule rfold_safe)
  fix x ds assume "case ds of (d, s) \<Rightarrow> I d \<and> ok s \<and> idle s"
  then obtain d s where ds: "ds = (d, s)" "I d" "ok s" "idle s" by (cases ds) auto
  show "safe (case ds of (d, s) \<Rightarrow> andThen (receive s) (\<lambda>s1. andThen (f d (packets s1)) (\<lambda>d. andThen (consumed s1) (\<lambda>s2. Ok (d, s2)))))
      (\<lambda>(d, s). I d \<and> ok s \<and> idle s)"
    unfolding ds(1) prod.case by (rule cycle [OF ds(3,4)]) (auto intro: safe_mono [OF work [OF ds(2)]])
qed (use assms in simp)

end

definition arrived :: "'r rte_env \<Rightarrow> nat \<Rightarrow> 'r dpdk \<Rightarrow> RxBuf list" where
  "arrived env vm s = concat (map2 (rx_bufs (mediate s ! vm)) [0..<4] (rx_bursts env vm [0..<4] (rte s)))"

definition all_waiting :: "nat \<Rightarrow> 'r dpdk \<Rightarrow> RxBuf list" where
  "all_waiting vm s = concat (map (\<lambda>q. waiting s (4 * vm + q)) [0..<4])"

text \<open>The DPDK back end keeps the contract for each of its VMs.\<close>

interpretation dpdk_rx: rx_backend "recv env vm" "recv_consumed env vm" "\<lambda>s. rte_ok env \<and> vm < n \<and> driver_ok n s" "unused vm"
  "arrived env vm" "all_waiting vm" handed
proof
  show "safe (recv env vm s) (\<lambda>s'. (rte_ok env \<and> vm < n \<and> driver_ok n s') \<and> all_waiting vm s' = arrived env vm s \<and> handed s' = handed s)"
    if "rte_ok env \<and> vm < n \<and> driver_ok n s" "unused vm s" for s
    using that by (intro safe_mono [OF recv_safe [of env vm n s]]) (simp_all add: all_waiting_def arrived_def)
  show "safe (recv_consumed env vm s) (\<lambda>s'. (rte_ok env \<and> vm < n \<and> driver_ok n s') \<and> unused vm s' \<and> handed s' = handed s)"
    if "rte_ok env \<and> vm < n \<and> driver_ok n s" for s
    using that by (intro safe_mono [OF recv_consumed_safe [of n s vm]]) simp_all
qed

section \<open>A packet that does not fit\<close>


section \<open>An environment\<close>

text \<open>Buffers are numbered, every packet is accepted, and a burst on the first queue has one packet.\<close>

definition counting :: "nat rte_env" where
  "counting = \<lparr>rte_pktmbuf_alloc = (\<lambda>q r. (Some r, r + 1)), rte_pktmbuf_free = (\<lambda>i r. r), rte_eth_tx_burst = (\<lambda>p r. (True, r)),
     rte_eth_rx_burst = (\<lambda>q r. if q = 0 then ([\<lparr>rm_id = r, rm_nb_segs = 1, rm_data = [1, 2, 3]\<rparr>], r + 1) else ([], r)),
     rte_ipv4_phdr_cksum = (\<lambda>d. 0x1234), room = 2048\<rparr>"

lemma counting_ok: "rte_ok counting"
  by (simp add: rte_ok_def counting_def)

definition received :: "nat dpdk" where
  "received = (case recv counting 0 (Dpdk_init 1 True 7) of Ok s \<Rightarrow> s | _ \<Rightarrow> Dpdk_init 1 True 7)"

lemma received_reach: "dpdk_reach counting 1 received"
proof (cases "recv counting 0 (Dpdk_init 1 True 7)")
  case (Ok s)
  have "op_ok counting 1 (Dpdk_init 1 True 7) (Op_Recv 0)"
    by (auto simp: unused_def Dpdk_init_def alloc_rx_lists_def MAX_QUEUES_PER_VM_def)
  then show ?thesis using dpdk_reach.step [OF dpdk_reach.init] Ok by (fastforce simp: received_def)
qed (simp_all add: received_def dpdk_reach.init)

lemma received_bufs: "bufs received ! 0 = 7" "map (\<lambda>q. nb_bufs_used q) (rx_lists received) = [1, 0, 0, 0]" "tso_seg received = [[], [], [], []]"
  by code_simp+

theorem dpdk_buffers_accounted_witness:
  "drv_step counting (Op_Consumed 0) received \<noteq> Fault \<and> held received = {#7#}"
proof -
  have rx: "map nb_bufs_used (rx_lists received) = [1, 0, 0, 0]" by (rule received_bufs(2))
  have "length (rx_lists received) = 4" using arg_cong [OF rx, of length] by simp
  then have nb: "nb_bufs_used (rx_lists received ! 0) = 1" "nb_bufs_used (rx_lists received ! 1) = 0"
    "nb_bufs_used (rx_lists received ! 2) = 0" "nb_bufs_used (rx_lists received ! 3) = 0"
    using arg_cong [OF rx, of "\<lambda>l. l ! 0"] arg_cong [OF rx, of "\<lambda>l. l ! 1"] arg_cong [OF rx, of "\<lambda>l. l ! 2"] arg_cong [OF rx, of "\<lambda>l. l ! 3"]
    by simp_all
  have four: "{..<4 :: nat} = {0, 1, 2, 3}" by auto
  have len: "length (bufs received) = 128"
    using dpdk_reach_ok [OF received_reach counting_ok] by (simp add: driver_ok_def)
  then have "take 1 (bufs received) = [7]" using received_bufs(1) by (cases "bufs received") auto
  moreover have "drv_step counting (Op_Consumed 0) received \<noteq> Fault \<and>
    held received = (\<Sum>j<4 * 1. mset (map seg_id (tso_seg received ! j))) +
      (\<Sum>j<4 * 1. mset (take (nb_bufs_used (rx_lists received ! j)) (drop (32 * j) (bufs received))))"
    by (rule dpdk_buffers_accounted [OF counting_ok _ received_reach]) simp_all
  ultimately show ?thesis using received_bufs(3) nb by (simp add: four)
qed

lemma init_fresh: "collected 0 (Dpdk_init 1 True 7) = []" "unused 0 (Dpdk_init 1 tso 7)" "tso_supported (Dpdk_init 1 True 7)"
  by (auto simp: collected_def tso_bytes_def unused_def Dpdk_init_def alloc_rx_lists_def MAX_QUEUES_PER_VM_def)

theorem dpdk_tso_collects_witness:
  "safe (send_parts counting 0 [replicate 40 1, replicate 30 2] 14 20 20 1000 (Dpdk_init 1 True 7)) (\<lambda>(ok, s'). collected 0 s' = [] \<and>
    (if ok then \<exists>p. handed s' = [p] \<and> tso_sent 14 20 (replicate 40 1 @ replicate 30 2) (concat (map seg_data (tp_segs p))) \<and>
       tp_tso p = Some (14, 20, 20, 1000) else handed s' = []))"
proof -
  have "handed (Dpdk_init 1 True 7) = []" by (simp add: Dpdk_init_def)
  then show ?thesis
    by (intro safe_mono [OF dpdk_tso_collects [OF counting_ok _ dpdk_reach.init _ init_fresh(3,1)]]) (auto split: if_splits)
qed

theorem dpdk_receives_witness:
  "safe (recv counting 0 (Dpdk_init 1 False 7)) (\<lambda>s1. waiting s1 0 = [\<lparr>rb_data = [1, 2, 3], rb_queue = None\<rparr>] \<and>
    safe (recv_consumed counting 0 s1) (unused 0))"
proof -
  have four: "[0..<4] = [0, 1, 2, 3 :: nat]" by code_simp
  have "rx_bursts counting 0 [0, 1, 2, 3] (rte (Dpdk_init 1 False 7)) = [[\<lparr>rm_id = 7, rm_nb_segs = 1, rm_data = [1, 2, 3]\<rparr>], [], [], []]"
    by code_simp
  moreover have "mediate (Dpdk_init 1 False 7) ! 0 = False" by (simp add: Dpdk_init_def)
  ultimately show ?thesis
    by (intro safe_mono [OF dpdk_receives [OF counting_ok _ dpdk_reach.init _ init_fresh(2)]])
      (auto simp: four rx_bufs_def elim!: safe_mono)
qed


end
