(* ===== verification/E810_Driver_Cb.thy ===== *)
theory E810_Driver_Cb
  imports E810_Device_Ok Vmux_Driver_Ok Vmux_Irq
begin

text \<open>
  The receive callback of the emulated E810 (\<open>driver_cb\<close> in \<open>devices/e810.hpp\<close>): it polls the interrupt timers,
  takes packets from the back end, passes them to the device model, sends PTP multicasts to the VM whose
  turn it is, returns the buffers and takes one packet that another device has sent it.  The rotation of the
  turn is in \<open>policies/ptp.hpp\<close>.  The callback runs in the thread of its device; packets that other
  threads send it only extend its queue.
\<close>

section \<open>State\<close>

text \<open>
  \<open>cb_dests\<close> has the \<open>inject_packets\<close> of the devices in \<open>broadcast_destinations\<close>, in which a device stands at
  the index of its VM.  The vector is filled only when the devices are polled by threads of
  their own; else it is empty, and so is every queue.
\<close>

record ('r, 'd) e810_vm =
  cb_drv :: "'r dpdk"
  cb_dev :: 'd
  cb_irqs :: "throttler list"
  cb_target :: "nat option"  \<comment> \<open>\<open>ptp_target_vm_idx\<close>; \<open>None\<close> is -1\<close>
  cb_dests :: "u8 list list list"

text \<open>The environment of the callback: DPDK, the answers to the timers and whether \<open>push\<close> finds room.\<close>

record ('r, 'd) cb_env =
  cb_rte :: "'r rte_env"
  cb_ret :: "nat \<Rightarrow> trigger_result"
  cb_now :: "nat \<Rightarrow> timespec"
  cb_push :: "u8 list list \<Rightarrow> bool"
  cb_EthRx :: "RxBuf \<Rightarrow> 'd \<Rightarrow> 'd res"

section \<open>The callback\<close>

definition ptp_multicast :: "u8 list \<Rightarrow> bool" where
  "ptp_multicast p \<longleftrightarrow> 14 \<le> length p \<and> le_word (take 8 p) AND 0xFFFFFFFFFFFF = (0x000000191b01 :: u64)"

definition deliver :: "('r, 'd) cb_env \<Rightarrow> nat option \<Rightarrow> RxBuf \<Rightarrow> 'd \<times> u8 list list list \<Rightarrow> ('d \<times> u8 list list list) res" where
  "deliver env target b = (\<lambda>(d, dests).
     if target \<noteq> None \<and> ptp_multicast (rb_data b) \<and> length dests \<le> the target then Fault
     else if target \<noteq> None \<and> ptp_multicast (rb_data b) \<and> cb_push env (dests ! the target)
     then Ok (d, dests[the target := dests ! the target @ [rb_data b]])
     else andThen (cb_EthRx env b d) (\<lambda>d. Ok (d, dests)))"

definition deliver_queue :: "('r, 'd) cb_env \<Rightarrow> nat option \<Rightarrow> nat \<Rightarrow> 'r dpdk \<Rightarrow> nat \<Rightarrow> 'd \<times> u8 list list list \<Rightarrow> ('d \<times> u8 list list list) res" where
  "deliver_queue env target vm drv q_idx st = (if length (rx_lists drv) \<le> rx_index vm q_idx then Fault else
     let q = rx_lists drv ! rx_index vm q_idx in
     if length (rxBufs q) < nb_bufs_used q then Fault
     else rfold (deliver env target) (take (nb_bufs_used q) (rxBufs q)) st)"

text \<open>The queue from which the device takes one injected packet.\<close>

definition take_injected :: "('r, 'd) cb_env \<Rightarrow> nat \<Rightarrow> 'd \<times> u8 list list list \<Rightarrow> ('d \<times> u8 list list list) res" where
  "take_injected env vm = (\<lambda>(d, dests). case if vm < length dests then dests ! vm else [] of
     [] \<Rightarrow> Ok (d, dests)
   | p # ps \<Rightarrow> andThen (cb_EthRx env \<lparr>rb_data = p, rb_queue = None\<rparr> d) (\<lambda>d. Ok (d, dests[vm := ps])))"

definition driver_cb :: "('r, 'd) cb_env \<Rightarrow> nat \<Rightarrow> ('r, 'd) e810_vm \<Rightarrow> ('r, 'd) e810_vm res" where
  "driver_cb env vm s =
     andThen (processAllPollTimers (cb_ret env) (cb_now env) (cb_irqs s)) (\<lambda>irqs.
     andThen (recv (cb_rte env) vm (cb_drv s)) (\<lambda>drv.
     andThen (rfold (deliver_queue env (cb_target s) vm drv) [0..<MAX_QUEUES_PER_VM] (cb_dev s, cb_dests s)) (\<lambda>st.
     andThen (recv_consumed (cb_rte env) vm drv) (\<lambda>drv.
     andThen (take_injected env vm st) (\<lambda>(d, dests).
     Ok (s\<lparr>cb_drv := drv, cb_dev := d, cb_irqs := irqs, cb_dests := dests\<rparr>))))))"

text \<open>\<open>PtpPolicy::timer_cb\<close>, for a number of \<open>broadcast_destinations\<close>.\<close>

definition ptp_timer_cb :: "nat \<Rightarrow> nat option \<Rightarrow> nat option res" where
  "ptp_timer_cb n target = (case target of None \<Rightarrow> Ok None | Some old \<Rightarrow> if n = 0 then Fault else Ok (Some ((old + 1) mod n)))"

text \<open>The callback of the E810 model; \<open>src\<close> is the receive timestamp that the back end reports for a packet.\<close>

definition e810_rx :: "'e dev_env_scheme \<Rightarrow> (RxBuf \<Rightarrow> u64 + timespec option) \<Rightarrow> RxBuf \<Rightarrow> 'b device \<Rightarrow> 'b device res" where
  "e810_rx denv src b = EthRx denv (src b) (rb_queue b) (rb_data b)"

section \<open>Who receives a packet\<close>

text \<open>Packets for the VM itself, in the order of the queues, and PTP packets for the VM whose turn it is.\<close>

definition diverted :: "nat option \<Rightarrow> RxBuf \<Rightarrow> bool" where
  "diverted target b \<longleftrightarrow> target \<noteq> None \<and> ptp_multicast (rb_data b)"

definition divert :: "nat option \<Rightarrow> RxBuf list \<Rightarrow> u8 list list list \<Rightarrow> u8 list list list" where
  "divert target bs dests = (case target of None \<Rightarrow> dests
     | Some t \<Rightarrow> dests[t := dests ! t @ map rb_data (filter (diverted target) bs)])"

definition cb_spec :: "('r, 'd) cb_env \<Rightarrow> nat \<Rightarrow> nat option \<Rightarrow> RxBuf list \<Rightarrow> 'd \<Rightarrow> u8 list list list \<Rightarrow> ('d \<times> u8 list list list) res" where
  "cb_spec env vm target bs d dests =
     andThen (rfold (cb_EthRx env) (filter (\<lambda>b. \<not> diverted target b) bs) d) (\<lambda>d. take_injected env vm (d, divert target bs dests))"

lemma deliver_all:
  assumes "\<And>q. cb_push env q" "\<And>t. target = Some t \<Longrightarrow> t < length dests"
  shows "rfold (deliver env target) bs (d, dests) =
    andThen (rfold (cb_EthRx env) (filter (\<lambda>b. \<not> diverted target b) bs) d) (\<lambda>d. Ok (d, divert target bs dests))"
  using assms(2)
proof (induction bs arbitrary: d dests)
  case Nil
  then show ?case by (simp add: divert_def split: option.split)
next
  case (Cons b bs)
  show ?case
  proof (cases "diverted target b")
    case True
    then obtain t where t: "target = Some t" "t < length dests" using Cons.prems by (auto simp: diverted_def)
    then have "deliver env target b (d, dests) = Ok (d, dests[t := dests ! t @ [rb_data b]])"
      using True assms(1) by (simp add: deliver_def diverted_def)
    then show ?thesis using Cons.IH [of "dests[t := dests ! t @ [rb_data b]]" d] True t by (simp add: divert_def)
  next
    case False
    then have "deliver env target b (d, dests) = andThen (cb_EthRx env b d) (\<lambda>d. Ok (d, dests))"
      by (auto simp: deliver_def diverted_def)
    moreover have "divert target (b # bs) dests = divert target bs dests" using False by (auto simp: divert_def split: option.split)
    ultimately show ?thesis using Cons False by (cases "cb_EthRx env b d") simp_all
  qed
qed

lemma rfold_concat: "(\<And>x s. x \<in> set xs \<Longrightarrow> f x s = rfold g (h x) s) \<Longrightarrow> rfold f xs s = rfold g (concat (map h xs)) s"
proof (induction xs arbitrary: s)
  case (Cons x xs)
  then show ?case by (cases "rfold g (h x) s") (simp_all add: rfold_append)
qed simp

lemma deliver_queues:
  assumes "driver_ok n drv" "vm < n"
  shows "rfold (deliver_queue env target vm drv) [0..<4] st =
    rfold (deliver env target) (concat (map (\<lambda>q. waiting drv (4 * vm + q)) [0..<4])) st"
proof (rule rfold_concat)
  fix q st assume "q \<in> set [0..<4]"
  then have j: "rx_index vm q = 4 * vm + q" "4 * vm + q < 4 * n"
    using queue_id_unat [of n vm q] assms by (auto simp: driver_ok_def)
  moreover have "length (rx_lists drv) = 4 * n" using assms(1) by (simp add: driver_ok_def)
  ultimately show "deliver_queue env target vm drv q st = rfold (deliver env target) (waiting drv (4 * vm + q)) st"
    using queue_mem [OF assms(1) j(2)] by (simp add: deliver_queue_def waiting_def rx_list_ok_def Let_def)
qed

lemma processPollTimer_safe: "safe (processPollTimer ret now th) (\<lambda>_. True)"
  by (auto simp: processPollTimer_def poll_timer_cb_def send_interrupt_def Let_def split: trigger_result.split)

lemma processAllPollTimers_safe:
  assumes "length ths = 16"
  shows "safe (processAllPollTimers ret now ths) (\<lambda>ths. length ths = 16)"
  unfolding processAllPollTimers_def
  by (rule rfold_upt [where P = "\<lambda>_ ths. length ths = 16"]) (auto simp: assms intro!: safe_mono [OF processPollTimer_safe])

text \<open>
  C12: the receive callback of the emulated E810 hands every packet that the NIC delivered for its VM, once and in
  order, to the device model, except that PTP multicasts go to the VM whose turn it is
  when mediation is enabled, and then one packet that was sent to this VM by another one; it
  returns all buffers to the NIC and changes nothing else.
\<close>

theorem driver_cb_delivers:
  assumes "rte_ok (cb_rte env)" "n \<le> 511" "dpdk_reach (cb_rte env) n (cb_drv s)" "vm < n" "unused vm (cb_drv s)"
    "length (cb_irqs s) = 16" "\<forall>q. cb_push env q" "\<forall>t. cb_target s = Some t \<longrightarrow> t < length (cb_dests s)"
    "bs = arrived (cb_rte env) vm (cb_drv s)"
    "cb_spec env vm (cb_target s) bs (cb_dev s) (cb_dests s) = Ok (d', dests')"
  shows "safe (driver_cb env vm s) (\<lambda>s'. cb_dev s' = d' \<and> cb_dests s' = dests' \<and> unused vm (cb_drv s') \<and>
    cb_target s' = cb_target s \<and> handed (cb_drv s') = handed (cb_drv s))"
proof -
  note drv = dpdk_reach_ok [OF assms(3,1,2)]
  obtain d1 where d1: "rfold (cb_EthRx env) (filter (\<lambda>b. \<not> diverted (cb_target s) b) bs) (cb_dev s) = Ok d1"
      and inj: "take_injected env vm (d1, divert (cb_target s) bs (cb_dests s)) = Ok (d', dests')"
    using assms(10) unfolding cb_spec_def by (cases "rfold (cb_EthRx env) (filter (\<lambda>b. \<not> diverted (cb_target s) b) bs) (cb_dev s)") auto
  have loop: "rfold (deliver_queue env (cb_target s) vm drv1) [0..<4] (cb_dev s, cb_dests s) = Ok (d1, divert (cb_target s) bs (cb_dests s))"
    if "driver_ok n drv1" "all_waiting vm drv1 = bs" for drv1
    using deliver_queues [OF that(1) assms(4), of env "cb_target s" "(cb_dev s, cb_dests s)"] that(2) assms(7,8) d1
    by (simp add: deliver_all all_waiting_def)
  show ?thesis unfolding driver_cb_def safe_andThen [of "processAllPollTimers _ _ _"] MAX_QUEUES_PER_VM_def
  proof (rule safe_mono [OF processAllPollTimers_safe [OF assms(6)]], rule dpdk_rx.cycle)
    show "rte_ok (cb_rte env) \<and> vm < n \<and> driver_ok n (cb_drv s)" "unused vm (cb_drv s)" using assms(1,4,5) drv by simp_all
  qed (auto simp: loop assms(9) inj [unfolded assms(9)])
qed

text \<open>A callback with a model that records what it receives.\<close>

definition recording :: "(nat, RxBuf list) cb_env" where
  "recording = \<lparr>cb_rte = counting, cb_ret = (\<lambda>_. Triggered), cb_now = (\<lambda>_. ts_zero), cb_push = (\<lambda>_. True), cb_EthRx = (\<lambda>b d. Ok (d @ [b]))\<rparr>"

definition recording_vm :: "(nat, RxBuf list) e810_vm" where
  "recording_vm = \<lparr>cb_drv = Dpdk_init 1 True 7, cb_dev = [], cb_irqs = replicate 16 throttler_init, cb_target = Some 1, cb_dests = [[[9]], []]\<rparr>"

theorem driver_cb_delivers_witness:
  "safe (driver_cb recording 0 recording_vm) (\<lambda>s'.
    cb_dev s' = [\<lparr>rb_data = [1, 2, 3], rb_queue = None\<rparr>, \<lparr>rb_data = [9], rb_queue = None\<rparr>] \<and> cb_dests s' = [[], []])"
proof -
  let ?bs = "arrived (cb_rte recording) 0 (cb_drv recording_vm)"
  have bs: "?bs = [\<lparr>rb_data = [1, 2, 3], rb_queue = None\<rparr>]" by code_simp
  have spec: "cb_spec recording 0 (cb_target recording_vm) ?bs (cb_dev recording_vm) (cb_dests recording_vm) =
      Ok ([\<lparr>rb_data = [1, 2, 3], rb_queue = None\<rparr>, \<lparr>rb_data = [9], rb_queue = None\<rparr>], [[], []])"
    unfolding bs by (simp add: cb_spec_def diverted_def ptp_multicast_def divert_def take_injected_def recording_def recording_vm_def)
  show ?thesis
    by (rule safe_mono [OF driver_cb_delivers [OF _ _ _ _ _ _ _ _ refl spec, of 1]])
      (auto simp: recording_def recording_vm_def counting_ok init_fresh [simplified] intro: dpdk_reach.init)
qed

section \<open>The E810 and the turns\<close>

text \<open>With the E810 as its model, the callback keeps the device well-formed.\<close>

lemma driver_cb_keeps:
  assumes "cb_EthRx env = e810_rx denv src" "kept dev_ok (cb_dev s)"
  shows "returns (driver_cb env vm s) (\<lambda>s'. kept dev_ok (cb_dev s'))"
proof -
  have rx: "returns (cb_EthRx env b d) (kept dev_ok)" if "kept dev_ok d" for b d
    using dev_step_keeps [OF that, of denv "DevRx (src b) (rb_queue b) (rb_data b)"] by (simp add: assms(1) e810_rx_def)
  have one: "returns (deliver env t b st) (\<lambda>(d, _). kept dev_ok d)" if "kept dev_ok (fst st)" for t b st
    using that rx by (cases st) (auto simp: deliver_def elim!: returns_mono)
  have queue: "returns (deliver_queue env t w drv q st) (\<lambda>(d, _). kept dev_ok d)" if "kept dev_ok (fst st)" for t w drv q st
    using that by (auto simp: deliver_queue_def Let_def case_prod_unfold intro!: returns_rfold one [unfolded case_prod_unfold])
  have inj: "returns (take_injected env vm st) (\<lambda>(d, _). kept dev_ok d)" if "kept dev_ok (fst st)" for st
    using that rx by (cases st) (auto simp: take_injected_def split: list.split elim!: returns_mono)
  have queues: "returns (rfold (deliver_queue env t vm drv) qs (cb_dev s, cb_dests s)) (\<lambda>(d, _). kept dev_ok d)" for t drv qs
    using assms(2) by (auto simp: case_prod_unfold intro!: returns_rfold queue [unfolded case_prod_unfold])
  have end_ok: "returns (andThen (recv_consumed (cb_rte env) vm drv) (\<lambda>drv. andThen (take_injected env vm st) (\<lambda>(d, dests).
      Ok (s\<lparr>cb_drv := drv, cb_dev := d, cb_irqs := irqs, cb_dests := dests\<rparr>)))) (\<lambda>s'. kept dev_ok (cb_dev s'))"
    if "kept dev_ok (fst st)" for drv st irqs
    by (rule returns_bind [OF returns_True], rule returns_bind [OF inj [OF that]]) (simp add: case_prod_unfold)
  show ?thesis unfolding driver_cb_def
    by (rule returns_bind [OF returns_True], rule returns_bind [OF returns_True], rule returns_bind [OF queues], rule end_ok)
      (simp add: case_prod_unfold)
qed

text \<open>Every destination gets its turn; with no destination the timer divides by zero.\<close>

lemma ptp_rotates: "0 < n \<Longrightarrow> rfold (\<lambda>_. ptp_timer_cb n) (replicate k ()) (Some (t mod n)) = Ok (Some ((t + k) mod n))"
proof (induction k arbitrary: t)
  case (Suc k)
  have "ptp_timer_cb n (Some (t mod n)) = Ok (Some (Suc t mod n))" using Suc.prems by (simp add: ptp_timer_cb_def mod_Suc_eq)
  then show ?case using Suc.IH [of "Suc t"] Suc.prems by simp
qed simp

lemma ptp_timer_divides: "ptp_timer_cb 0 (Some t) = Fault"
  by (simp add: ptp_timer_cb_def)

end
