(* ===== verification/Vmux_Flows.thy ===== *)
theory Vmux_Flows
  imports Vmux_Driver_Ok
begin

text \<open>
  The flow rules by which the NIC distributes packets to the queues of the VMs (\<open>drivers/flow_blocks.hpp\<close> and the rule
  functions of \<open>drivers/dpdk.hpp\<close>), and the addresses of the VMs (\<open>Util::intcrement_mac\<close>).  Whether DPDK
  accepts a rule is a parameter.
\<close>

section \<open>Addresses\<close>

text \<open>The loop runs from the last byte of the address to the first; the bytes are given in that order.\<close>

fun increment_loop :: "u64 \<Rightarrow> u8 list \<Rightarrow> u8 list" where
  "increment_loop v [] = []"
| "increment_loop v (b # bs) = (let v = v + ucast b in
     ucast (v AND 0xFF) # (if drop_bit 8 v = 0 then bs else increment_loop (drop_bit 8 v) bs))"

definition intcrement_mac :: "u8 list \<Rightarrow> u32 \<Rightarrow> u8 list" where
  "intcrement_mac mac increment = rev (increment_loop (ucast increment) (rev mac))"

section \<open>Rules\<close>

text \<open>
  An Ethernet header as a pattern (\<open>rte_flow_item_eth\<close>), its type as the two bytes in memory, and a rule with
  the specification, the mask and the queue.
\<close>

record eth_item =
  eth_dst :: "u8 list"
  eth_src :: "u8 list"
  eth_type :: "u8 list"

record eth_flow =
  rx_q :: u16
  eth_spec :: eth_item
  eth_mask :: eth_item

text \<open>The type is converted to the order of the network and its mask is not; the masks in use are 0 and 0xFFFF.\<close>

definition generate_eth_flow :: "(eth_flow \<Rightarrow> bool) \<Rightarrow> u16 \<Rightarrow> u8 list \<Rightarrow> u8 list \<Rightarrow> u8 list \<Rightarrow> u8 list \<Rightarrow> u16 \<Rightarrow> u16 \<Rightarrow> eth_flow option" where
  "generate_eth_flow accepts q src_mac src_mask dest_mac dest_mask etype msk =
     (let f = \<lparr>rx_q = q,
        eth_spec = \<lparr>eth_dst = dest_mac, eth_src = src_mac, eth_type = [ucast (drop_bit 8 etype), ucast etype]\<rparr>,
        eth_mask = \<lparr>eth_dst = dest_mask, eth_src = src_mask, eth_type = [ucast msk, ucast (drop_bit 8 msk)]\<rparr>\<rparr>
      in if accepts f then Some f else None)"

abbreviation any_mac :: "u8 list" where
  "any_mac \<equiv> replicate 6 0"

abbreviation full_mask :: "u8 list" where
  "full_mask \<equiv> replicate 6 0xFF"

text \<open>The rules of the constructor: the traffic of every VM goes to its first queue.\<close>

definition default_flows :: "(eth_flow \<Rightarrow> bool) \<Rightarrow> u8 list \<Rightarrow> nat \<Rightarrow> eth_flow list res" where
  "default_flows accepts mac_addr num_vms = rfold (\<lambda>queue_nb fs.
     case generate_eth_flow accepts (get_rx_queue_id queue_nb 0) any_mac any_mac
         (intcrement_mac mac_addr (of_nat queue_nb)) full_mask 0 0 of
       None \<Rightarrow> Abort
     | Some f \<Rightarrow> Ok (fs @ [f])) [0..<num_vms] []"

text \<open>Both variants of \<open>add_switch_rule\<close>; without mediation the device model switches.\<close>

definition add_flow :: "(eth_flow \<Rightarrow> bool) \<Rightarrow> bool list \<Rightarrow> nat \<Rightarrow> u8 list \<Rightarrow> u16 \<Rightarrow> u16 \<Rightarrow> u16 \<Rightarrow> eth_flow list \<Rightarrow> (bool \<times> eth_flow list) res" where
  "add_flow accepts med vm_id dst_addr etype msk dst_queue fs = (if length med \<le> vm_id then Fault
     else if \<not> med ! vm_id then Ok (True, fs)
     else case generate_eth_flow accepts (get_rx_queue_id vm_id (unat dst_queue)) any_mac any_mac dst_addr full_mask etype msk of
       None \<Rightarrow> Ok (False, fs)
     | Some f \<Rightarrow> Ok (True, fs @ [f]))"

definition add_mac_flow :: "(eth_flow \<Rightarrow> bool) \<Rightarrow> bool list \<Rightarrow> nat \<Rightarrow> u8 list \<Rightarrow> u16 \<Rightarrow> eth_flow list \<Rightarrow> (bool \<times> eth_flow list) res" where
  "add_mac_flow accepts med vm_id dst_addr dst_queue = add_flow accepts med vm_id dst_addr 0 0 dst_queue"

definition add_etype_flow :: "(eth_flow \<Rightarrow> bool) \<Rightarrow> bool list \<Rightarrow> nat \<Rightarrow> u8 list \<Rightarrow> u16 \<Rightarrow> u16 \<Rightarrow> eth_flow list \<Rightarrow> (bool \<times> eth_flow list) res" where
  "add_etype_flow accepts med vm_id dst_addr etype dst_queue = add_flow accepts med vm_id dst_addr etype 0xFFFF dst_queue"

section \<open>Addresses of VMs are different\<close>

fun le_num :: "u8 list \<Rightarrow> nat" where
  "le_num [] = 0"
| "le_num (b # bs) = unat b + 256 * le_num bs"

lemma le_num_less: "le_num bs < 256 ^ length bs"
proof (induction bs)
  case (Cons b bs)
  have "unat b < 256" using unat_lt [of b] by simp
  then show ?case using Cons by simp
qed simp

lemma increment_loop_num:
  "unat v < 2 ^ 63 \<Longrightarrow> le_num (increment_loop v bs) = (le_num bs + unat v) mod 256 ^ length bs"
proof (induction bs arbitrary: v)
  case (Cons b bs)
  let ?v = "v + ucast b"
  have "unat b < 256" using unat_lt [of b] by simp
  then have v: "unat ?v = unat v + unat b" using Cons.prems by (simp add: unat_word_ariths(1) unsigned_ucast_eq take_bit_nat_eq_self)
  have lo: "unat (ucast (?v AND 0xFF) :: u8) = unat ?v mod 256"
  proof -
    have "(0xFF :: u64) = mask 8" by (simp add: mask_eq_exp_minus_1)
    then have "?v AND 0xFF = take_bit 8 ?v" by (simp add: take_bit_eq_mask)
    then show ?thesis by (simp add: unsigned_ucast_eq unsigned_take_bit_eq) (simp add: take_bit_eq_mod)
  qed
  have hi: "unat (drop_bit 8 ?v) = unat ?v div 256" unfolding unat_drop_bit_eq by (simp add: drop_bit_eq_div)
  have "le_num (if drop_bit 8 ?v = 0 then bs else increment_loop (drop_bit 8 ?v) bs) = (le_num bs + unat ?v div 256) mod 256 ^ length bs"
  proof (cases "drop_bit 8 ?v = 0")
    case True
    then have "unat ?v div 256 = 0" using hi by simp
    then show ?thesis using True le_num_less [of bs] by simp
  next
    case False
    have "unat (drop_bit 8 ?v) < 2 ^ 63" using hi unat_lt [of ?v] by simp
    then show ?thesis using Cons.IH [of "drop_bit 8 ?v"] False hi by simp
  qed
  then have "le_num (increment_loop v (b # bs)) = unat ?v mod 256 + 256 * ((le_num bs + unat ?v div 256) mod 256 ^ length bs)"
    using lo by (simp add: Let_def)
  also have "\<dots> = (256 * le_num bs + unat ?v) mod (256 * 256 ^ length bs)"
    by (simp add: mod_mult2_eq)
  finally show ?case using v by (simp add: ac_simps)
qed simp

lemma length_increment_loop [simp]: "length (increment_loop v bs) = length bs"
  by (induction v bs rule: increment_loop.induct) (simp_all add: Let_def)

lemma length_intcrement_mac [simp]: "length (intcrement_mac mac n) = length mac"
  by (simp add: intcrement_mac_def)

text \<open>An address as a number, most significant byte first.\<close>

definition mac_num :: "u8 list \<Rightarrow> nat" where
  "mac_num mac = le_num (rev mac)"

lemma intcrement_mac_num: "length mac = 6 \<Longrightarrow> mac_num (intcrement_mac mac n) = (mac_num mac + unat n) mod 2 ^ 48"
proof -
  assume "length mac = 6"
  moreover have "unat (ucast n :: u64) = unat n" using unat_lt [of n] by (simp add: unsigned_ucast_eq take_bit_nat_eq_self)
  moreover have "unat n < 2 ^ 63" using unat_lt [of n] by simp
  ultimately show ?thesis by (simp add: mac_num_def intcrement_mac_def increment_loop_num)
qed

lemma add_mod_cancel: "(a + v) mod m = (a + w) mod m \<Longrightarrow> v \<le> w \<Longrightarrow> w < m \<Longrightarrow> v = (w :: nat)"
  using mod_eq_dvd_iff_nat [of "a + v" "a + w" m] nat_dvd_not_less [of "w - v" m] by fastforce

lemma vm_macs_distinct:
  assumes "length mac = 6" "v < 2 ^ 32" "w < 2 ^ 32" "intcrement_mac mac (of_nat v) = intcrement_mac mac (of_nat w)"
  shows "v = w"
proof -
  have eq: "(mac_num mac + v) mod 2 ^ 48 = (mac_num mac + w) mod 2 ^ 48"
    using intcrement_mac_num [OF assms(1), of "of_nat v"] intcrement_mac_num [OF assms(1), of "of_nat w"] assms(2-4)
    by (simp add: unat_of_nat)
  have "v < 2 ^ 48" "w < 2 ^ 48" using assms(2,3) by simp_all
  then show ?thesis using add_mod_cancel [OF eq] add_mod_cancel [OF eq [symmetric]] by (cases "v \<le> w") auto
qed

section \<open>Packets stay with their VM\<close>

text \<open>A packet matches when its header agrees with the specification in the bits of the mask.\<close>

definition masked :: "u8 list \<Rightarrow> u8 list \<Rightarrow> u8 list" where
  "masked bs m = map2 (AND) bs m"

definition flow_matches :: "eth_flow \<Rightarrow> u8 list \<Rightarrow> bool" where
  "flow_matches f p \<longleftrightarrow> 14 \<le> length p \<and>
     masked (take 6 p) (eth_dst (eth_mask f)) = masked (eth_dst (eth_spec f)) (eth_dst (eth_mask f)) \<and>
     masked (take 6 (drop 6 p)) (eth_src (eth_mask f)) = masked (eth_src (eth_spec f)) (eth_src (eth_mask f)) \<and>
     masked (take 2 (drop 12 p)) (eth_type (eth_mask f)) = masked (eth_type (eth_spec f)) (eth_type (eth_mask f))"

lemma masked_full [simp]: "length bs = n \<Longrightarrow> masked bs (replicate n 0xFF) = bs"
proof (induction bs arbitrary: n)
  case (Cons b bs)
  have "(0xFF :: u8) = mask 8" by (simp add: mask_eq_exp_minus_1)
  then have "b AND 0xFF = take_bit 8 b" by (simp only: take_bit_eq_mask)
  then have "b AND 0xFF = b" by (simp add: take_bit_word_eq_self)
  then show ?case using Cons by (cases n) (auto simp: masked_def)
qed (simp add: masked_def)

lemma masked_none [simp]: "length bs = n \<Longrightarrow> masked bs (replicate n 0) = replicate n 0"
  by (induction bs arbitrary: n) (auto simp: masked_def)

text \<open>The rules of the driver compare the whole destination and no source; the default ones no type either.\<close>

definition for_mac :: "u8 list \<Rightarrow> eth_flow \<Rightarrow> bool" where
  "for_mac mac f \<longleftrightarrow> length mac = 6 \<and> eth_dst (eth_spec f) = mac \<and> eth_dst (eth_mask f) = full_mask \<and>
     eth_src (eth_spec f) = any_mac \<and> eth_src (eth_mask f) = any_mac"

definition any_type :: "eth_flow \<Rightarrow> bool" where
  "any_type f \<longleftrightarrow> length (eth_type (eth_spec f)) = 2 \<and> eth_type (eth_mask f) = replicate 2 0"

lemma flow_matches_dst: "for_mac mac f \<Longrightarrow> flow_matches f p \<Longrightarrow> take 6 p = mac"
  by (auto simp: for_mac_def flow_matches_def)

lemma flow_matches_any: "for_mac mac f \<Longrightarrow> any_type f \<Longrightarrow> 14 \<le> length p \<Longrightarrow> take 6 p = mac \<Longrightarrow> flow_matches f p"
  by (simp add: for_mac_def any_type_def flow_matches_def)

text \<open>The VM to which a queue of the NIC belongs.\<close>

definition queue_vm :: "u16 \<Rightarrow> nat" where
  "queue_vm q = unat q div MAX_QUEUES_PER_VM"

text \<open>Requests of VMs for their own addresses, each with a type and a queue.\<close>

fun request_flow :: "(eth_flow \<Rightarrow> bool) \<Rightarrow> u8 list \<Rightarrow> bool list \<Rightarrow> nat \<times> u16 \<times> u16 \<Rightarrow> eth_flow list \<Rightarrow> eth_flow list res" where
  "request_flow accepts mac med (vm, etype, dst_queue) fs =
     andThen (add_etype_flow accepts med vm (intcrement_mac mac (of_nat vm)) etype dst_queue fs) (\<lambda>(ok, fs). Ok fs)"

definition flows_ok :: "u8 list \<Rightarrow> nat \<Rightarrow> eth_flow list \<Rightarrow> bool" where
  "flows_ok mac n fs \<longleftrightarrow> (\<forall>f \<in> set fs. \<exists>vm<n. for_mac (intcrement_mac mac (of_nat vm)) f \<and> queue_vm (rx_q f) = vm)"

text \<open>A rule sends packets to a queue of its VM exactly when the requested queue is one of four.\<close>

lemma flow_rule_owner:
  assumes "add_flow accepts med vm mac etype msk dst_queue fs = Ok (True, fs @ [f])" "4 * vm + unat dst_queue < 65536"
  shows "queue_vm (rx_q f) = vm \<longleftrightarrow> dst_queue < 4"
proof -
  have "unat (of_nat (vm * 4 + unat dst_queue) :: u16) = vm * 4 + unat dst_queue"
    by (subst unat_of_nat) (use assms(2) in simp)
  moreover have "rx_q f = of_nat (vm * 4 + unat dst_queue)"
    using assms(1) by (auto simp: add_flow_def generate_eth_flow_def get_rx_queue_id_def MAX_QUEUES_PER_VM_def Let_def split: if_splits)
  ultimately show ?thesis by (auto simp: queue_vm_def MAX_QUEUES_PER_VM_def word_less_nat_alt)
qed

lemma flows_ok_add:
  assumes "length mac = 6" "flows_ok mac n fs" "vm < n" "n \<le> 511" "dst_queue < 4"
    "add_flow accepts med vm (intcrement_mac mac (of_nat vm)) etype msk dst_queue fs = Ok (ok, fs')"
  shows "flows_ok mac n fs' \<and> set fs \<subseteq> set fs'"
proof -
  have "unat dst_queue < 4" using assms(5) by (simp add: word_less_nat_alt)
  then have "queue_vm (rx_q f) = vm" if "add_flow accepts med vm mac' etype msk dst_queue fs = Ok (True, fs @ [f])" for f mac'
    using flow_rule_owner [OF that] assms(3-5) by simp
  then show ?thesis using assms(1-3,6)
    by (fastforce simp: add_flow_def generate_eth_flow_def flows_ok_def for_mac_def Let_def split: if_splits)
qed

lemma default_flows_ok:
  assumes "length mac = 6" "default_flows accepts mac n = Ok fs" "n \<le> 511"
  shows "flows_ok mac n fs \<and> (\<forall>vm<n. \<exists>f \<in> set fs. for_mac (intcrement_mac mac (of_nat vm)) f \<and> any_type f)"
proof -
  have "safe (default_flows accepts mac n) (\<lambda>fs. flows_ok mac n fs \<and> (\<forall>vm<n. \<exists>f \<in> set fs. for_mac (intcrement_mac mac (of_nat vm)) f \<and> any_type f))"
    unfolding default_flows_def
  proof (rule rfold_upt [where P = "\<lambda>i fs. flows_ok mac n fs \<and> (\<forall>vm<i. \<exists>f \<in> set fs. for_mac (intcrement_mac mac (of_nat vm)) f \<and> any_type f)"])
    fix i fs assume i: "i < n" and
      fs: "flows_ok mac n fs \<and> (\<forall>vm<i. \<exists>f \<in> set fs. for_mac (intcrement_mac mac (of_nat vm)) f \<and> any_type f)"
    have "queue_vm (get_rx_queue_id i 0) = i"
      using queue_id_unat [of n i 0] i assms(3) by (simp add: queue_vm_def MAX_QUEUES_PER_VM_def)
    then show "safe (case generate_eth_flow accepts (get_rx_queue_id i 0) any_mac any_mac (intcrement_mac mac (of_nat i)) full_mask 0 0 of None \<Rightarrow> Abort
        | Some f \<Rightarrow> Ok (fs @ [f])) (\<lambda>fs. flows_ok mac n fs \<and> (\<forall>vm<Suc i. \<exists>f \<in> set fs. for_mac (intcrement_mac mac (of_nat vm)) f \<and> any_type f))"
      using fs i assms(1) by (auto simp: generate_eth_flow_def Let_def flows_ok_def for_mac_def any_type_def less_Suc_eq numeral_2_eq_2)
  qed (simp_all add: flows_ok_def)
  then show ?thesis using assms(2) by simp
qed

lemma requests_ok:
  assumes "length mac = 6" "n \<le> 511" "\<forall>(vm, etype, dst_queue) \<in> set rs. vm < n \<and> dst_queue < 4"
  shows "flows_ok mac n fs \<Longrightarrow> returns (rfold (request_flow accepts mac med) rs fs) (\<lambda>fs'. flows_ok mac n fs' \<and> set fs \<subseteq> set fs')"
  using assms(3)
proof (induction rs arbitrary: fs)
  case (Cons r rs)
  obtain vm etype dst_queue where r: "r = (vm, etype, dst_queue)" by (cases r)
  have "returns (request_flow accepts mac med r fs) (\<lambda>fs'. flows_ok mac n fs' \<and> set fs \<subseteq> set fs')"
  proof -
    have "vm < n" "dst_queue < 4" using Cons.prems(2) by (simp_all add: r)
    note add = flows_ok_add [OF assms(1) Cons.prems(1) this(1) assms(2) this(2)]
    show ?thesis unfolding r request_flow.simps add_etype_flow_def
      by (cases "add_flow accepts med vm (intcrement_mac mac (of_nat vm)) etype 0xFFFF dst_queue fs") (use add in fastforce)+
  qed
  then show ?case unfolding rfold.simps
  proof (rule returns_bind)
    fix fs1 assume "flows_ok mac n fs1 \<and> set fs \<subseteq> set fs1"
    then show "returns (rfold (request_flow accepts mac med) rs fs1) (\<lambda>fs'. flows_ok mac n fs' \<and> set fs \<subseteq> set fs')"
      using Cons.IH [of fs1] Cons.prems(2) by (auto elim!: returns_mono)
  qed
qed simp

text \<open>
  C11: the NIC keeps the traffic of the VMs apart.  After the default rules and any sequence of rules that mediated VMs request for
  their own addresses and their four queues, every packet for the address of a VM
  matches a rule, and whichever rule the NIC applies, the queue belongs to that VM.
\<close>

theorem flows_isolated:
  assumes "length mac = 6" "n \<le> 511" "default_flows accepts mac n = Ok fs0"
    "rfold (request_flow accepts mac med) rs fs0 = Ok fs" "\<forall>(vm, etype, dst_queue) \<in> set rs. vm < n \<and> dst_queue < 4"
    "vm < n" "14 \<le> length p" "take 6 p = intcrement_mac mac (of_nat vm)"
  shows "(\<exists>f \<in> set fs. flow_matches f p) \<and> (\<forall>f \<in> set fs. flow_matches f p \<longrightarrow> queue_vm (rx_q f) = vm)"
proof -
  have fs0: "flows_ok mac n fs0" "\<exists>f \<in> set fs0. for_mac (intcrement_mac mac (of_nat vm)) f \<and> any_type f"
    using default_flows_ok [OF assms(1,3,2)] assms(6) by auto
  then have fs: "flows_ok mac n fs" "set fs0 \<subseteq> set fs" using requests_ok [OF assms(1,2,5), of fs0 accepts med] assms(4) by simp_all
  have "queue_vm (rx_q f) = vm" if "f \<in> set fs" "flow_matches f p" for f
  proof -
    have "\<exists>w<n. for_mac (intcrement_mac mac (of_nat w)) f \<and> queue_vm (rx_q f) = w"
      using fs(1) that(1) unfolding flows_ok_def by (rule bspec)
    then obtain w where w: "w < n" "for_mac (intcrement_mac mac (of_nat w)) f" "queue_vm (rx_q f) = w" by (elim exE conjE)
    then have "intcrement_mac mac (of_nat w) = intcrement_mac mac (of_nat vm)" using flow_matches_dst [OF w(2) that(2)] assms(8) by simp
    moreover have "w < 2 ^ 32" "vm < 2 ^ 32" using w(1) assms(2,6) by simp_all
    ultimately show ?thesis using vm_macs_distinct [OF assms(1)] w(3) by blast
  qed
  moreover have "\<exists>f \<in> set fs. flow_matches f p" using fs0(2) fs(2) flow_matches_any [OF _ _ assms(7,8)] by blast
  ultimately show ?thesis by blast
qed

theorem flows_isolated_witness:
  "\<exists>fs0 fs. default_flows (\<lambda>_. True) [2, 0, 0, 0, 0, 0] 2 = Ok fs0 \<and>
     rfold (request_flow (\<lambda>_. True) [2, 0, 0, 0, 0, 0] [True, True]) [(0, 0x88F7, 3)] fs0 = Ok fs \<and>
     (\<exists>f \<in> set fs. flow_matches f ([2, 0, 0, 0, 0, 1] @ replicate 8 0)) \<and>
     (\<forall>f \<in> set fs. flow_matches f ([2, 0, 0, 0, 0, 1] @ replicate 8 0) \<longrightarrow> queue_vm (rx_q f) = 1)"
proof -
  obtain fs0 where fs0: "default_flows (\<lambda>_. True) [2, 0, 0, 0, 0, 0] 2 = Ok fs0"
    by (simp add: default_flows_def generate_eth_flow_def upt_rec Let_def)
  obtain fs where fs: "rfold (request_flow (\<lambda>_. True) [2, 0, 0, 0, 0, 0] [True, True]) [(0, 0x88F7, 3)] fs0 = Ok fs"
    by (simp add: add_etype_flow_def add_flow_def generate_eth_flow_def Let_def)
  have "take 6 ([2, 0, 0, 0, 0, 1] @ replicate 8 0) = intcrement_mac [2, 0, 0, 0, 0, 0] (of_nat 1)"
    by (simp add: intcrement_mac_def Let_def)
  then show ?thesis using flows_isolated [OF _ _ fs0 fs, of 1 "[2, 0, 0, 0, 0, 1] @ replicate 8 0"] fs0 fs by simp
qed

text \<open>
  The driver does not check the requested queue: the rule of a VM for its own address and queue 4 sends the
  packets to the first queue of the next VM.
\<close>

lemma flow_escapes:
  "\<exists>f. add_etype_flow (\<lambda>_. True) [True, True] 0 (intcrement_mac [2, 0, 0, 0, 0, 0] 0) 0x88F7 4 [] = Ok (True, [f]) \<and> queue_vm (rx_q f) = 1"
  by (simp add: add_etype_flow_def add_flow_def generate_eth_flow_def get_rx_queue_id_def queue_vm_def MAX_QUEUES_PER_VM_def Let_def)

end
